(* ===== verification/Prelude.thy ===== *)
theory Prelude
  imports Main "HOL-Library.Word" "HOL-Library.Product_Lexorder"
begin

section \<open>Shared vocabulary, loops and automation\<close>

text \<open>
  The types and loop combinators the components share, with the lemmas that carry the
  component proofs.  A C++ loop \<open>for (i = 0; i < v.size(); ++i) { ... v[i] ... }\<close> that edits
  one element per iteration and threads a few scalars is \<open>sweep\<close>: the body gets the index,
  the element and the scalars, and returns the new element and the new scalars.
  Its facts (length, element-wise result, a conserved balance) are proved once here and instantiated
  by the cache operations.  The folds at the end, over a map or a list with a key per element, carry
  the schedulers that treat several sequences in one pass.
\<close>

type_synonym u32 = "32 word"

text \<open>\<open>llama_token_data\<close>, the sampler's candidate; a logit is \<open>None\<close> when it is minus infinity.\<close>

record 'l token_data =
  td_id :: nat
  td_logit :: "'l option"

text \<open>The draft length a stage takes its ratio against: \<open>None\<close> when the caller verified the whole draft
  (common/pxa-spec-verified.h).\<close>

definition spec_n_tested :: "nat \<Rightarrow> nat option \<Rightarrow> nat" where
  "spec_n_tested n_drafted n_verified = (case n_verified of None \<Rightarrow> n_drafted | Some n \<Rightarrow> min n_drafted n)"

text \<open>The rules a cache operation adds about one cell.\<close>

named_theorems cell_simps

subsection \<open>A loop over a vector with threaded scalars\<close>

fun sweep :: "(nat \<Rightarrow> 'c \<Rightarrow> 's \<Rightarrow> 'c \<times> 's) \<Rightarrow> nat \<Rightarrow> 'c list \<Rightarrow> 's \<Rightarrow> 'c list \<times> 's" where
  "sweep f i [] s = ([], s)"
| "sweep f i (c # cs) s =
     (let (c', s') = f i c s; (cs', s'') = sweep f (Suc i) cs s' in (c' # cs', s''))"

lemma length_sweep [simp]: "length (fst (sweep f i cs s)) = length cs"
  by (induction f i cs s rule: sweep.induct) (auto split: prod.splits)

lemma sweep_nth:
  assumes "\<And>i c s. fst (f i c s) = g i c" and "k < length cs"
  shows "fst (sweep f i cs s) ! k = g (i + k) (cs ! k)"
  using assms(2)
proof (induction cs arbitrary: i k s)
  case (Cons c cs)
  show ?case
  proof (cases k)
    case 0
    then show ?thesis using assms(1)[of i c s] by (auto split: prod.splits)
  next
    case (Suc m)
    with Cons.prems have "m < length cs" by simp
    from Cons.IH[OF this, of "Suc i" "snd (f i c s)"] Suc show ?thesis
      by (auto split: prod.splits)
  qed
qed simp

text \<open>A quantity the body conserves: what one element gives up, the scalars receive.\<close>

lemma balance_trans:
  fixes a :: "'g::ab_group_add"
  assumes "a' + x = a + y" and "b + y = a' + z"
  shows "b + x = a + z"
proof -
  have "x = a + y - a'" unfolding assms(1)[symmetric] by simp
  moreover have "b = a' + z - y" unfolding assms(2)[symmetric] by simp
  ultimately show ?thesis by simp
qed

lemma sweep_balance:
  fixes w :: "'c \<Rightarrow> 'g::ab_group_add" and m :: "'s \<Rightarrow> 'g"
  assumes "\<And>i c s. m (snd (f i c s)) + w c = m s + w (fst (f i c s))"
  shows "m (snd (sweep f i cs s)) + sum_list (map w cs)
       = m s + sum_list (map w (fst (sweep f i cs s)))"
proof (induction cs arbitrary: i s)
  case (Cons c cs)
  obtain c' s' where f: "f i c s = (c', s')" by fastforce
  obtain cs' s'' where r: "sweep f (Suc i) cs s' = (cs', s'')" by fastforce
  have "m s'' + sum_list (map w cs) = m s' + sum_list (map w cs')"
    using Cons.IH[of "Suc i" s'] r by simp
  moreover have "m s' + w c = m s + w c'" using assms[of i c s] f by simp
  ultimately have "(m s'' + sum_list (map w cs)) + (m s' + w c)
      = (m s' + sum_list (map w cs')) + (m s + w c')" by simp
  then have "m s'' + (w c + sum_list (map w cs)) = m s + (w c' + sum_list (map w cs'))"
    by (simp add: algebra_simps)
  with f r show ?case by simp
qed simp

text \<open>An invariant of the threaded scalars.\<close>

lemma sweep_inv:
  assumes "\<And>k s. k < length cs \<Longrightarrow> P s \<Longrightarrow> P (snd (f (i + k) (cs ! k) s))" and "P s"
  shows "P (snd (sweep f i cs s))"
  using assms
proof (induction cs arbitrary: i s)
  case (Cons c cs)
  obtain c' s' where f: "f i c s = (c', s')" by fastforce
  have "P s'" using Cons.prems(1)[of 0 s] Cons.prems(2) f by simp
  moreover have "P (snd (f (Suc i + k) (cs ! k) t))" if "k < length cs" "P t" for k t
    using Cons.prems(1)[of "Suc k" t] that by simp
  ultimately have "P (snd (sweep f (Suc i) cs s'))" by (intro Cons.IH)
  with f show ?case by (simp add: case_prod_beta)
qed simp

text \<open>The lowest index the body reports, under C++'s idiom of a sentinel that means "none yet".\<close>

definition low_mark :: "nat \<Rightarrow> nat set \<Rightarrow> nat" where
  "low_mark n S = Min (insert n S)"

lemma low_mark_empty [simp]: "low_mark n {} = n"
  by (simp add: low_mark_def)

lemma low_mark_insert: "finite S \<Longrightarrow> low_mark n (insert i S) = min i (low_mark n S)"
  by (simp add: low_mark_def insert_commute[of n i])

lemma low_mark_min: "finite S \<Longrightarrow> low_mark n S = (if S = {} then n else min n (Min S))"
  by (simp add: low_mark_def)

lemma low_mark_le: "finite S \<Longrightarrow> low_mark n S \<le> n"
  by (simp add: low_mark_def)

subsection \<open>Lists read by index\<close>

lemma filter_upt_card: "length (filter P [0..<n]) = card {i. i < n \<and> P i}"
proof -
  have "length (filter P [0..<n]) = card (set (filter P [0..<n]))"
    by (rule distinct_card[symmetric]) simp
  also have "set (filter P [0..<n]) = {i. i < n \<and> P i}" by auto
  finally show ?thesis .
qed

lemma length_filter_nth: "length (filter P xs) = card {i. i < length xs \<and> P (xs ! i)}"
  by (simp add: length_filter_conv_card)

lemma card_image_distinct: "distinct (map f xs) \<Longrightarrow> card (f ` set xs) = length xs"
  using distinct_card[of "map f xs"] by simp

lemma sum_list_indicator:
  "sum_list (map (\<lambda>c. if P c then (1::'a::len word) else 0) cs) = of_nat (length (filter P cs))"
  by (induction cs) auto

lemma nth_eq_map_upt: "map (\<lambda>i. xs ! i) [0..<length xs] = xs"
  by (rule map_nth)

text \<open>A sorted list with distinct pairs is determined by its set.\<close>

lemma sorted_distinct_set_eq:
  fixes xs ys :: "'a::linorder list"
  assumes "sorted xs" "distinct xs" "sorted ys" "distinct ys" "set xs = set ys"
  shows "xs = ys"
  using assms by (rule sorted_distinct_set_unique)

subsection \<open>Loops that edit one entry of a map or a vector each\<close>

lemma foldl_local:
  assumes "distinct (map f xs)"
  shows "x \<in> set xs \<Longrightarrow> foldl (\<lambda>m x. m(f x := g x (m (f x)))) m xs (f x) = g x (m (f x))"
    and "s \<notin> f ` set xs \<Longrightarrow> foldl (\<lambda>m x. m(f x := g x (m (f x)))) m xs s = m s"
proof -
  define u where "u = (\<lambda>m x. m(f x := g x (m (f x))))"
  have u: "u m x s = (if s = f x then g x (m (f x)) else m s)" for m x s by (simp add: u_def)
  have *: "foldl u m xs s = m s" if "s \<notin> f ` set xs" for m s xs
    using that by (induction xs arbitrary: m) (auto simp: u)
  then show "foldl (\<lambda>m x. m(f x := g x (m (f x)))) m xs s = m s" if "s \<notin> f ` set xs"
    using that by (simp add: u_def)
  have "foldl u m xs (f x) = g x (m (f x))" if "x \<in> set xs"
    using assms that
  proof (induction xs arbitrary: m)
    case (Cons y ys)
    show ?case
    proof (cases "x = y")
      case True
      with Cons.prems(1) have "f x \<notin> f ` set ys" by simp
      from *[OF this, of "u m y"] True u[of m y "f x"] show ?thesis by (simp only: foldl.simps if_True refl)
    next
      case False
      then have x: "x \<in> set ys" and d: "distinct (map f ys)" and y: "f y \<notin> f ` set ys" using Cons.prems by simp_all
      from x y have n: "f x \<noteq> f y" by (metis imageI)
      from Cons.IH[OF d x, of "u m y"] u[of m y "f x"] n show ?thesis by (simp only: foldl.simps if_False)
    qed
  qed simp
  then show "foldl (\<lambda>m x. m(f x := g x (m (f x)))) m xs (f x) = g x (m (f x))" if "x \<in> set xs"
    using that by (simp add: u_def)
qed

lemma foldl_update_nth:
  assumes "distinct (map f xs)" "\<forall>x \<in> set xs. f x < length rs"
  shows "length (foldl (\<lambda>rs x. rs[f x := g x]) rs xs) = length rs"
    and "x \<in> set xs \<Longrightarrow> foldl (\<lambda>rs x. rs[f x := g x]) rs xs ! f x = g x"
    and "i \<notin> f ` set xs \<Longrightarrow> foldl (\<lambda>rs x. rs[f x := g x]) rs xs ! i = rs ! i"
proof -
  show "length (foldl (\<lambda>rs x. rs[f x := g x]) rs xs) = length rs"
    by (induction xs arbitrary: rs) auto
  show *: "foldl (\<lambda>rs x. rs[f x := g x]) rs xs ! i = rs ! i" if "i \<notin> f ` set xs" for rs i xs
    using that by (induction xs arbitrary: rs) auto
  show "foldl (\<lambda>rs x. rs[f x := g x]) rs xs ! f x = g x" if "x \<in> set xs"
    using assms that
  proof (induction xs arbitrary: rs)
    case (Cons y ys)
    show ?case
    proof (cases "x = y")
      case True
      with Cons.prems(1,2) *[of "f x" ys] show ?thesis by auto
    next
      case False
      with Cons.prems have "x \<in> set ys" by auto
      with Cons show ?thesis by auto
    qed
  qed simp
qed

lemma foldl_filter: "foldl (\<lambda>a x. if P x then g a x else a) a xs = foldl g a (filter P xs)"
  by (induction xs arbitrary: a) auto

end
