(* ===== verification/KvCell.thy ===== *)
theory KvCell
  imports Prelude
begin

section \<open>One cell of the KV cache (\<open>llama_kv_cell\<close>, src/llama-context.h)\<close>

text \<open>
  A cell holds the position of one cached token, the shift still to be applied to its key,
  the state row it copies from, and the set of sequences that own it.  The set is private in
  the code and every edit goes through \<open>add_seq\<close>, \<open>erase_seq\<close> or \<open>clear_seq\<close>, which keep the
  inline shadow \<open>seq0\<close> next to it; \<open>has_seq_fast\<close> answers from the shadow alone unless the cell
  is shared.  A \<open>std::set\<close> is a HOL set; where the code iterates over it, in ascending order,
  the model iterates over \<open>sorted_list_of_set\<close>.  The bump of the global tag epoch that every
  edit makes is threaded by the operations that use these functions.
\<close>

record kv_cell =
  pos :: int
  delta :: int
  src :: int
  seq0 :: int
  seq_id :: "int set"

definition SEQ_NONE :: int where "SEQ_NONE = -1"

definition SEQ_MULTI :: int where "SEQ_MULTI = -2"

definition shadow_of :: "int set \<Rightarrow> int" where
  "shadow_of S = (if S = {} then SEQ_NONE else if card S = 1 then Min S else SEQ_MULTI)"

definition sync_shadow :: "kv_cell \<Rightarrow> kv_cell" where
  "sync_shadow c = c\<lparr>seq0 := shadow_of (seq_id c)\<rparr>"

definition new_cell :: kv_cell where
  "new_cell = \<lparr>pos = -1, delta = 0, src = 0, seq0 = SEQ_NONE, seq_id = {}\<rparr>"

definition add_seq :: "int \<Rightarrow> kv_cell \<Rightarrow> kv_cell" where
  "add_seq s c = sync_shadow (c\<lparr>seq_id := insert s (seq_id c)\<rparr>)"

definition erase_seq :: "int \<Rightarrow> kv_cell \<Rightarrow> kv_cell" where
  "erase_seq s c = sync_shadow (c\<lparr>seq_id := seq_id c - {s}\<rparr>)"

definition clear_seq :: "kv_cell \<Rightarrow> kv_cell" where
  "clear_seq c = c\<lparr>seq_id := {}, seq0 := SEQ_NONE\<rparr>"

definition n_seq :: "kv_cell \<Rightarrow> nat" where
  "n_seq c = card (seq_id c)"

definition has_seq_id :: "int \<Rightarrow> kv_cell \<Rightarrow> bool" where
  "has_seq_id s c \<longleftrightarrow> s \<in> seq_id c"

definition has_seq_fast :: "int \<Rightarrow> kv_cell \<Rightarrow> bool" where
  "has_seq_fast s c \<longleftrightarrow>
     (if 0 \<le> seq0 c then seq0 c = s else seq0 c = SEQ_MULTI \<and> s \<in> seq_id c)"

definition is_empty_cell :: "kv_cell \<Rightarrow> bool" where
  "is_empty_cell c \<longleftrightarrow> seq_id c = {}"

definition is_same_seq :: "kv_cell \<Rightarrow> kv_cell \<Rightarrow> bool" where
  "is_same_seq c d \<longleftrightarrow> seq_id c = seq_id d"

subsection \<open>What an edit does to the fields\<close>

lemma sync_shadow_sel [simp, cell_simps]:
  "pos (sync_shadow c) = pos c" "delta (sync_shadow c) = delta c" "src (sync_shadow c) = src c"
  "seq_id (sync_shadow c) = seq_id c" "seq0 (sync_shadow c) = shadow_of (seq_id c)"
  by (simp_all add: sync_shadow_def)

lemma add_seq_sel [simp, cell_simps]:
  "pos (add_seq s c) = pos c" "delta (add_seq s c) = delta c" "src (add_seq s c) = src c"
  "seq_id (add_seq s c) = insert s (seq_id c)" "seq0 (add_seq s c) = shadow_of (insert s (seq_id c))"
  by (simp_all add: add_seq_def)

lemma erase_seq_sel [simp, cell_simps]:
  "pos (erase_seq s c) = pos c" "delta (erase_seq s c) = delta c" "src (erase_seq s c) = src c"
  "seq_id (erase_seq s c) = seq_id c - {s}" "seq0 (erase_seq s c) = shadow_of (seq_id c - {s})"
  by (simp_all add: erase_seq_def)

lemma clear_seq_sel [simp, cell_simps]:
  "pos (clear_seq c) = pos c" "delta (clear_seq c) = delta c" "src (clear_seq c) = src c"
  "seq_id (clear_seq c) = {}" "seq0 (clear_seq c) = SEQ_NONE"
  by (simp_all add: clear_seq_def)

lemma shadow_of_empty [simp]: "shadow_of {} = SEQ_NONE"
  by (simp add: shadow_of_def)

lemma has_seq_id_iff [simp]: "has_seq_id s c \<longleftrightarrow> s \<in> seq_id c"
  by (simp add: has_seq_id_def)

lemma is_empty_cell_iff [simp]: "is_empty_cell c \<longleftrightarrow> seq_id c = {}"
  by (simp add: is_empty_cell_def)

subsection \<open>Well-formed cells\<close>

text \<open>
  A cell outside the recurrent caches is either free (no owner, position \<open>-1\<close>) or holds a token
  (at least one owner, a position that is not negative).  The shadow is the one of the set.
\<close>

definition shadow_ok :: "kv_cell \<Rightarrow> bool" where
  "shadow_ok c \<longleftrightarrow> finite (seq_id c) \<and> (\<forall>s \<in> seq_id c. 0 \<le> s) \<and> seq0 c = shadow_of (seq_id c)"

definition cell_ok :: "kv_cell \<Rightarrow> bool" where
  "cell_ok c \<longleftrightarrow> shadow_ok c \<and> (if seq_id c = {} then pos c = -1 else 0 \<le> pos c)"

definition live :: "kv_cell \<Rightarrow> bool" where
  "live c \<longleftrightarrow> 0 \<le> pos c"

lemma shadow_ok_edits [cell_simps]:
  "shadow_ok c \<Longrightarrow> 0 \<le> s \<Longrightarrow> shadow_ok (add_seq s c)"
  "shadow_ok c \<Longrightarrow> shadow_ok (erase_seq s c)"
  "shadow_ok (clear_seq c)"
  "shadow_ok new_cell"
  by (auto simp: shadow_ok_def new_cell_def)

lemma shadow_ok_fields [simp, cell_simps]:
  "shadow_ok (c\<lparr>pos := p\<rparr>) = shadow_ok c"
  "shadow_ok (c\<lparr>delta := d\<rparr>) = shadow_ok c"
  "shadow_ok (c\<lparr>src := j\<rparr>) = shadow_ok c"
  by (simp_all add: shadow_ok_def)

lemma cell_ok_live: "cell_ok c \<Longrightarrow> live c \<longleftrightarrow> seq_id c \<noteq> {}"
  by (auto simp: cell_ok_def live_def split: if_splits)

lemma cell_ok_new [simp, cell_simps]: "cell_ok new_cell"
  by (simp add: cell_ok_def new_cell_def shadow_ok_def)

lemma shadow_of_singleton: "shadow_of {t} = t"
  by (simp add: shadow_of_def)

lemma shadow_of_cases:
  assumes "finite S" and "\<forall>s \<in> S. 0 \<le> s"
  shows "0 \<le> shadow_of S \<longleftrightarrow> card S = 1"
    and "card S = 1 \<Longrightarrow> S = {shadow_of S}"
    and "shadow_of S = SEQ_MULTI \<longleftrightarrow> 1 < card S"
proof -
  have one: "S = {shadow_of S}" if c: "card S = 1"
  proof -
    from c obtain t where t: "S = {t}" by (auto simp: card_1_singleton_iff)
    have "shadow_of S = t" unfolding t by (rule shadow_of_singleton)
    with t show ?thesis by simp
  qed
  have nn: "0 \<le> shadow_of S" if "card S = 1"
    using one[OF that] assms(2) by blast
  show "card S = 1 \<Longrightarrow> S = {shadow_of S}" by (rule one)
  show "0 \<le> shadow_of S \<longleftrightarrow> card S = 1"
    using nn by (auto simp: shadow_of_def SEQ_NONE_def SEQ_MULTI_def split: if_splits)
  have "shadow_of S = SEQ_NONE" if "S = {}" using that by simp
  moreover have "shadow_of S = SEQ_MULTI" if "S \<noteq> {}" "card S \<noteq> 1"
    using that by (simp add: shadow_of_def)
  moreover have "card S = 0 \<longleftrightarrow> S = {}" using assms(1) by simp
  moreover have "SEQ_NONE \<noteq> SEQ_MULTI" "\<not> 0 \<le> SEQ_MULTI" by (simp_all add: SEQ_NONE_def SEQ_MULTI_def)
  ultimately show "shadow_of S = SEQ_MULTI \<longleftrightarrow> 1 < card S"
    using nn by (metis One_nat_def less_one linorder_neqE_nat not_less_zero)
qed

lemma has_seq_fast_correct:
  assumes "shadow_ok c" and "0 \<le> s"
  shows "has_seq_fast s c \<longleftrightarrow> has_seq_id s c"
proof -
  let ?S = "seq_id c"
  have fin: "finite ?S" and pos: "\<forall>s \<in> ?S. 0 \<le> s" and sh: "seq0 c = shadow_of ?S"
    using assms(1) by (auto simp: shadow_ok_def)
  consider "card ?S = 1" | "1 < card ?S" | "?S = {}"
    using fin by (metis card_eq_0_iff less_one linorder_neqE_nat)
  then show ?thesis
  proof cases
    case 1
    with shadow_of_cases(1,2)[OF fin pos] sh have "0 \<le> seq0 c" and "?S = {seq0 c}" by auto
    then show ?thesis by (auto simp: has_seq_fast_def)
  next
    case 2
    with shadow_of_cases(1,3)[OF fin pos] sh have "\<not> 0 \<le> seq0 c" and "seq0 c = SEQ_MULTI" by auto
    then show ?thesis by (auto simp: has_seq_fast_def)
  next
    case 3
    with sh show ?thesis by (simp add: has_seq_fast_def SEQ_NONE_def SEQ_MULTI_def)
  qed
qed

end
