(* ===== verification/KvIndex.thy ===== *)
theory KvIndex
  imports KvCell
begin

section \<open>The per-sequence position index (src/llama-kv-index.h)\<close>

text \<open>
  \<open>llama_kv_seq_index\<close> keeps, for every sequence, the positions it holds and the cells they sit
  in, so that a range removal costs the cells it removes.  A \<open>std::multimap\<close> is the list of its
  entries in iteration order; \<open>emplace\<close> puts an entry behind the entries with the same key, as
  the C++ standard requires.  The global tag epoch is an argument (\<open>te\<close>): the index may answer
  only while it has accounted for the current value (\<open>in_sync\<close>).
  The main results: a rebuild describes the cells, the mirrored edits keep the description,
  \<open>index_verify\<close> accepts exactly the indexes that describe the cells, and the indexed removal
  computes the same cells, count, head and epoch as the scan over all cells.
\<close>

record kv_seq_index =
  per_seq :: "(int \<times> nat) list list"
  valid :: bool
  idx_epoch :: nat
  n_rebuild :: nat
  n_indexed :: nat
  n_stale :: nat

definition new_index :: kv_seq_index where
  "new_index = \<lparr>per_seq = [], valid = False, idx_epoch = 0, n_rebuild = 0, n_indexed = 0, n_stale = 0\<rparr>"

subsection \<open>The multimap\<close>

definition mm_emplace :: "int \<Rightarrow> nat \<Rightarrow> (int \<times> nat) list \<Rightarrow> (int \<times> nat) list" where
  "mm_emplace p i m =
     takeWhile (\<lambda>e. fst e \<le> p) m @ [(p, i)] @ dropWhile (\<lambda>e. fst e \<le> p) m"

definition mm_lower_bound :: "int \<Rightarrow> (int \<times> nat) list \<Rightarrow> nat" where
  "mm_lower_bound p m = length (takeWhile (\<lambda>e. fst e < p) m)"

subsection \<open>The index operations\<close>

definition map_for :: "int \<Rightarrow> kv_seq_index \<Rightarrow> kv_seq_index" where
  "map_for s idx = (if length (per_seq idx) \<le> nat s
     then idx\<lparr>per_seq := per_seq idx @ replicate (nat s + 1 - length (per_seq idx)) []\<rparr>
     else idx)"

definition emplace_in :: "int \<Rightarrow> int \<Rightarrow> nat \<Rightarrow> kv_seq_index \<Rightarrow> kv_seq_index" where
  "emplace_in s p i idx =
     (let idx' = map_for s idx
      in idx'\<lparr>per_seq := (per_seq idx')[nat s := mm_emplace p i (per_seq idx' ! nat s)]\<rparr>)"

definition note_add :: "int \<Rightarrow> int \<Rightarrow> nat \<Rightarrow> kv_seq_index \<Rightarrow> kv_seq_index" where
  "note_add s p i idx =
     (if \<not> valid idx \<or> s < 0 \<or> p < 0 then idx
      else let idx' = map_for s idx
           in if (p, i) \<in> set (per_seq idx' ! nat s) then idx'
              else emplace_in s p i idx')"

definition note_erase :: "int \<Rightarrow> int \<Rightarrow> nat \<Rightarrow> kv_seq_index \<Rightarrow> kv_seq_index" where
  "note_erase s p i idx =
     (if \<not> valid idx \<or> s < 0 \<or> p < 0 \<or> length (per_seq idx) \<le> nat s then idx
      else idx\<lparr>per_seq := (per_seq idx)[nat s := remove1 (p, i) (per_seq idx ! nat s)]\<rparr>)"

definition in_sync :: "nat \<Rightarrow> kv_seq_index \<Rightarrow> bool" where
  "in_sync te idx \<longleftrightarrow> valid idx \<and> idx_epoch idx = te"

definition sync :: "nat \<Rightarrow> kv_seq_index \<Rightarrow> kv_seq_index" where
  "sync te idx = idx\<lparr>idx_epoch := te\<rparr>"

definition invalidate :: "kv_seq_index \<Rightarrow> kv_seq_index" where
  "invalidate idx = idx\<lparr>valid := False, per_seq := []\<rparr>"

definition clear_all :: "nat \<Rightarrow> kv_seq_index \<Rightarrow> kv_seq_index" where
  "clear_all te idx = sync te (idx\<lparr>per_seq := map (\<lambda>_. []) (per_seq idx), valid := True\<rparr>)"

definition index_size :: "kv_seq_index \<Rightarrow> nat" where
  "index_size idx = sum_list (map length (per_seq idx))"

text \<open>The destructor of \<open>llama_kv_index_edit\<close>: an edit block that mirrors what it does leaves the
  index in sync exactly when it found it so.\<close>

definition index_edit_close :: "bool \<Rightarrow> nat \<Rightarrow> kv_seq_index \<Rightarrow> kv_seq_index" where
  "index_edit_close was_in_sync te idx = (if was_in_sync then sync te idx else idx)"

definition rebuild_cell :: "kv_cell \<Rightarrow> nat \<Rightarrow> kv_seq_index \<Rightarrow> kv_seq_index" where
  "rebuild_cell c i idx =
     (if pos c < 0 then idx
      else fold (\<lambda>s idx. if s < 0 then idx else emplace_in s (pos c) i idx)
             (sorted_list_of_set (seq_id c)) idx)"

definition index_rebuild :: "nat \<Rightarrow> kv_seq_index \<Rightarrow> kv_cell list \<Rightarrow> kv_seq_index" where
  "index_rebuild te idx cells =
     (let idx' = fold (\<lambda>i idx. rebuild_cell (cells ! i) i idx) [0..<length cells]
                   (idx\<lparr>per_seq := []\<rparr>)
      in (sync te (idx'\<lparr>valid := True\<rparr>))\<lparr>n_rebuild := n_rebuild idx + 1\<rparr>)"

definition seq_map :: "kv_seq_index \<Rightarrow> nat \<Rightarrow> (int \<times> nat) list" where
  "seq_map idx s = (if s < length (per_seq idx) then per_seq idx ! s else [])"

definition index_verify :: "kv_seq_index \<Rightarrow> kv_cell list \<Rightarrow> bool" where
  "index_verify idx cells =
     (if \<not> valid idx then True
      else let ref = index_rebuild 0 (new_index\<lparr>valid := True\<rparr>) cells;
               n = max (length (per_seq idx)) (length (per_seq ref))
           in list_all (\<lambda>s. sort (seq_map idx s) = sort (seq_map ref s)) [0..<n])"

subsection \<open>What an index means\<close>

definition owned :: "kv_cell list \<Rightarrow> nat \<Rightarrow> (int \<times> nat) set" where
  "owned cells s = {(pos (cells ! i), i) | i. i < length cells \<and> live (cells ! i) \<and> int s \<in> seq_id (cells ! i)}"

definition describes :: "kv_seq_index \<Rightarrow> kv_cell list \<Rightarrow> bool" where
  "describes idx cells \<longleftrightarrow>
     (\<forall>s. sorted (map fst (seq_map idx s)) \<and> distinct (seq_map idx s)
          \<and> set (seq_map idx s) = owned cells s)"

definition owned_rest :: "kv_cell list \<Rightarrow> nat \<Rightarrow> nat \<Rightarrow> (int \<times> nat) set" where
  "owned_rest cells i s = {e \<in> owned cells s. snd e \<noteq> i}"

lemma owned_rest_other [simp]: "(p, i) \<notin> owned_rest cells i s"
  by (simp add: owned_rest_def)

lemma owned_update:
  assumes "i < length cells"
  shows "owned (cells[i := c]) t = owned_rest cells i t
    \<union> (if live c \<and> int t \<in> seq_id c then {(pos c, i)} else {})"
  using assms by (auto simp: owned_rest_def owned_def nth_list_update split: if_splits)

lemma owned_split:
  "i < length cells \<Longrightarrow> owned cells t = owned_rest cells i t
    \<union> (if live (cells ! i) \<and> int t \<in> seq_id (cells ! i) then {(pos (cells ! i), i)} else {})"
  by (auto simp: owned_rest_def owned_def)

lemma owned_at:
  "{e \<in> owned cells t. snd e = i} = (if i < length cells \<and> live (cells ! i) \<and> int t \<in> seq_id (cells ! i)
     then {(pos (cells ! i), i)} else {})"
  by (auto simp: owned_def)

lemma owned_iff:
  "(p, i) \<in> owned cells s \<longleftrightarrow>
     i < length cells \<and> p = pos (cells ! i) \<and> 0 \<le> p \<and> int s \<in> seq_id (cells ! i)"
  by (auto simp: owned_def live_def)

subsection \<open>Lemmas on the multimap\<close>

lemma mm_emplace_simps [simp]:
  "mm_emplace p i [] = [(p, i)]"
  "mm_emplace p i (e # m) = (if fst e \<le> p then e # mm_emplace p i m else (p, i) # e # m)"
  by (simp_all add: mm_emplace_def)

lemma set_mm_emplace [simp]: "set (mm_emplace p i m) = insert (p, i) (set m)"
  by (induction m) auto

lemma distinct_mm_emplace [simp]:
  "distinct (mm_emplace p i m) \<longleftrightarrow> (p, i) \<notin> set m \<and> distinct m"
  by (induction m) auto

lemma sorted_mm_emplace:
  "sorted (map fst m) \<Longrightarrow> sorted (map fst (mm_emplace p i m))"
proof (induction m)
  case (Cons e m)
  then show ?case by (fastforce simp: image_iff)
qed simp

lemma sorted_remove1_fst: "sorted (map fst m) \<Longrightarrow> sorted (map fst (remove1 e m))"
  by (induction m) (auto dest: notin_set_remove1 set_mp[OF set_remove1_subset])

lemma mm_lower_bound_Cons [simp]:
  "mm_lower_bound p [] = 0"
  "mm_lower_bound p (e # m) = (if fst e < p then Suc (mm_lower_bound p m) else 0)"
  by (simp_all add: mm_lower_bound_def)

lemma lower_bound_range:
  assumes "sorted (map fst m)" and "p0 \<le> p1"
  shows "set (take (mm_lower_bound p1 m - mm_lower_bound p0 m) (drop (mm_lower_bound p0 m) m))
         = {e \<in> set m. p0 \<le> fst e \<and> fst e < p1}"
  using assms(1)
proof (induction m)
  case (Cons e m)
  then have IH: "set (take (mm_lower_bound p1 m - mm_lower_bound p0 m) (drop (mm_lower_bound p0 m) m))
      = {e \<in> set m. p0 \<le> fst e \<and> fst e < p1}" by simp
  consider "fst e < p0" | "p0 \<le> fst e" "fst e < p1" | "p1 \<le> fst e" by linarith
  then show ?case
  proof cases
    case 1
    then have "fst e < p1" using assms(2) by simp
    with 1 have "set (take (mm_lower_bound p1 (e # m) - mm_lower_bound p0 (e # m))
        (drop (mm_lower_bound p0 (e # m)) (e # m))) = {e \<in> set m. p0 \<le> fst e \<and> fst e < p1}"
      by (simp add: IH)
    also have "\<dots> = {x \<in> set (e # m). p0 \<le> fst x \<and> fst x < p1}" using 1 by auto
    finally show ?thesis .
  next
    case 2
    have "mm_lower_bound p0 m = 0"
      using Cons.prems 2(1) by (cases m) auto
    with 2 IH have "set (take (mm_lower_bound p1 m) m) = {e \<in> set m. p0 \<le> fst e \<and> fst e < p1}"
      by simp
    then have "set (take (mm_lower_bound p1 (e # m)) (e # m))
        = insert e {e \<in> set m. p0 \<le> fst e \<and> fst e < p1}" using 2 by simp
    moreover have "mm_lower_bound p0 (e # m) = 0" using 2 by simp
    moreover have "insert e {e \<in> set m. p0 \<le> fst e \<and> fst e < p1}
        = {x \<in> set (e # m). p0 \<le> fst x \<and> fst x < p1}" using 2 by auto
    ultimately show ?thesis by simp
  next
    case 3
    with Cons.prems have "\<forall>x \<in> set m. p1 \<le> fst x" by auto
    with 3 have "{x \<in> set (e # m). p0 \<le> fst x \<and> fst x < p1} = {}" by fastforce
    moreover have "mm_lower_bound p1 (e # m) = 0" using 3 by simp
    ultimately show ?thesis by simp
  qed
qed simp

subsection \<open>Lemmas on the index operations\<close>

lemma per_seq_map_for:
  "length (per_seq (map_for s idx)) = max (length (per_seq idx)) (Suc (nat s))"
  "seq_map (map_for s idx) t = seq_map idx t"
  "valid (map_for s idx) = valid idx" "idx_epoch (map_for s idx) = idx_epoch idx"
  by (auto simp: map_for_def seq_map_def nth_append)

lemma emplace_in_sel [simp]:
  "valid (emplace_in s p i idx) = valid idx" "idx_epoch (emplace_in s p i idx) = idx_epoch idx"
  "n_rebuild (emplace_in s p i idx) = n_rebuild idx"
  by (auto simp: emplace_in_def map_for_def Let_def)

lemma seq_map_emplace_in:
  "seq_map (emplace_in s p i idx) t
     = (if t = nat s then mm_emplace p i (seq_map idx t) else seq_map idx t)"
proof -
  have "nat s < length (per_seq (map_for s idx))" by (simp add: per_seq_map_for)
  moreover have "per_seq (map_for s idx) ! nat s = seq_map idx (nat s)"
    using per_seq_map_for(2)[of s idx "nat s"] calculation by (simp add: seq_map_def)
  moreover have "seq_map (emplace_in s p i idx) t
      = (if t = nat s then mm_emplace p i (per_seq (map_for s idx) ! nat s)
         else seq_map (map_for s idx) t)"
    using calculation(1) by (auto simp: emplace_in_def Let_def seq_map_def)
  ultimately show ?thesis by (simp add: per_seq_map_for)
qed

lemma seq_map_note_add:
  assumes "valid idx" "0 \<le> s" "0 \<le> p"
  shows "seq_map (note_add s p i idx) t
    = (if t = nat s \<and> (p, i) \<notin> set (seq_map idx t) then mm_emplace p i (seq_map idx t)
       else seq_map idx t)"
proof -
  have "per_seq (map_for s idx) ! nat s = seq_map (map_for s idx) (nat s)"
    by (simp add: seq_map_def per_seq_map_for(1) less_max_iff_disj del: nat_eq_iff)
  then have "per_seq (map_for s idx) ! nat s = seq_map idx (nat s)"
    by (simp add: per_seq_map_for(2))
  then show ?thesis
    using assms by (auto simp: note_add_def Let_def per_seq_map_for seq_map_emplace_in)
qed

lemma seq_map_note_erase:
  assumes "valid idx" "0 \<le> s" "0 \<le> p"
  shows "seq_map (note_erase s p i idx) t
    = (if t = nat s then remove1 (p, i) (seq_map idx t) else seq_map idx t)"
  using assms by (auto simp: note_erase_def seq_map_def)

lemma note_sel [simp]:
  "valid (note_add s p i idx) = valid idx" "idx_epoch (note_add s p i idx) = idx_epoch idx"
  "valid (note_erase s p i idx) = valid idx" "idx_epoch (note_erase s p i idx) = idx_epoch idx"
  by (auto simp: note_add_def note_erase_def Let_def per_seq_map_for)

lemma note_invalid [simp]:
  "\<not> valid idx \<Longrightarrow> note_add s p i idx = idx" "\<not> valid idx \<Longrightarrow> note_erase s p i idx = idx"
  by (simp_all add: note_add_def note_erase_def)

lemma describes_note_add:
  assumes "describes idx cells" "valid idx" "0 \<le> s" "0 \<le> p" "i < length cells"
    and "pos c = p" "seq_id c = insert s (seq_id (cells ! i))"
    and "seq_id (cells ! i) = {} \<or> pos (cells ! i) = p"
  shows "describes (note_add s p i idx) (cells[i := c])"
proof -
  have "owned (cells[i := c]) t = (if t = nat s then insert (p, i) (owned cells t) else owned cells t)" for t
  proof -
    have ts: "t = nat s \<longleftrightarrow> int t = s" using assms(3) by auto
    have "live c" using assms(4,6) by (simp add: live_def)
    then show ?thesis
      using assms(4,6-8) unfolding owned_update[OF assms(5)] owned_split[OF assms(5)] ts
      by (auto simp: live_def)
  qed
  moreover have "sorted (map fst (seq_map idx t)) \<and> distinct (seq_map idx t)
      \<and> set (seq_map idx t) = owned cells t" for t
    using assms(1) by (simp add: describes_def)
  ultimately show ?thesis
    using assms(2-4) by (auto simp: describes_def seq_map_note_add sorted_mm_emplace insert_absorb)
qed

lemma describes_note_erase:
  assumes "describes idx cells" "valid idx" "0 \<le> s" "0 \<le> pos (cells ! i)" "i < length cells"
    and "pos c = pos (cells ! i)" "seq_id c = seq_id (cells ! i) - {s}"
  shows "describes (note_erase s (pos (cells ! i)) i idx) (cells[i := c])"
proof -
  have "owned (cells[i := c]) t
      = (if t = nat s then owned cells t - {(pos (cells ! i), i)} else owned cells t)" for t
  proof -
    have ts: "t = nat s \<longleftrightarrow> int t = s" using assms(3) by auto
    have "live c" "live (cells ! i)" using assms(4,6) by (simp_all add: live_def)
    then show ?thesis
      using assms(6-7) unfolding owned_update[OF assms(5)] owned_split[OF assms(5)] ts
      by auto
  qed
  moreover have "sorted (map fst (seq_map idx t)) \<and> distinct (seq_map idx t)
      \<and> set (seq_map idx t) = owned cells t" for t
    using assms(1) by (simp add: describes_def)
  ultimately show ?thesis
    using assms(2-4) by (auto simp: describes_def seq_map_note_erase sorted_remove1_fst)
qed

subsection \<open>A rebuild describes the cells\<close>

lemma rebuild_cell_sel [simp]:
  "valid (rebuild_cell c i idx) = valid idx" "n_rebuild (rebuild_cell c i idx) = n_rebuild idx"
proof -
  have "valid (fold (\<lambda>s idx. if s < 0 then idx else emplace_in s p i idx) ss idx) = valid idx
      \<and> n_rebuild (fold (\<lambda>s idx. if s < 0 then idx else emplace_in s p i idx) ss idx) = n_rebuild idx"
    for p ss by (induction ss arbitrary: idx) auto
  then show "valid (rebuild_cell c i idx) = valid idx" "n_rebuild (rebuild_cell c i idx) = n_rebuild idx"
    by (simp_all add: rebuild_cell_def)
qed

lemma seq_map_rebuild_fold:
  assumes "distinct ss"
  shows "seq_map (fold (\<lambda>s idx. if s < 0 then idx else emplace_in s p i idx) ss idx) t
    = (if int t \<in> set ss then mm_emplace p i (seq_map idx t) else seq_map idx t)"
  using assms
proof (induction ss arbitrary: idx)
  case (Cons s ss)
  show ?case
  proof (cases "int t = s")
    case True
    with Cons.prems have "int t \<notin> set ss" by auto
    with True Cons show ?thesis by (auto simp: seq_map_emplace_in)
  next
    case False
    with Cons show ?thesis by (auto simp: seq_map_emplace_in)
  qed
qed simp

lemma seq_map_rebuild_cell:
  assumes "finite (seq_id c)"
  shows "seq_map (rebuild_cell c i idx) t
    = (if live c \<and> int t \<in> seq_id c then mm_emplace (pos c) i (seq_map idx t) else seq_map idx t)"
  using assms by (auto simp: rebuild_cell_def live_def seq_map_rebuild_fold)

lemma rebuild_prefix:
  assumes "\<forall>c \<in> set cells. finite (seq_id c)" and "k \<le> length cells"
  shows "let m = seq_map (fold (\<lambda>i idx. rebuild_cell (cells ! i) i idx) [0..<k] (idx\<lparr>per_seq := []\<rparr>)) s
         in sorted (map fst m) \<and> distinct m \<and> set m = {e \<in> owned cells s. snd e < k}"
  using assms(2)
proof (induction k)
  case 0
  show ?case by (simp add: seq_map_def)
next
  case (Suc k)
  let ?m = "seq_map (fold (\<lambda>i idx. rebuild_cell (cells ! i) i idx) [0..<k] (idx\<lparr>per_seq := []\<rparr>)) s"
  have IH: "sorted (map fst ?m)" "distinct ?m" "set ?m = {e \<in> owned cells s. snd e < k}"
    using Suc by (simp_all add: Let_def)
  have fin: "finite (seq_id (cells ! k))" using assms(1) Suc.prems by simp
  have new: "(pos (cells ! k), k) \<notin> set ?m" using IH(3) by simp
  have own: "{e \<in> owned cells s. snd e < Suc k}
      = (if live (cells ! k) \<and> int s \<in> seq_id (cells ! k)
         then insert (pos (cells ! k), k) (set ?m) else set ?m)"
  proof -
    have "{e \<in> owned cells s. snd e < Suc k} = {e \<in> owned cells s. snd e < k} \<union> {e \<in> owned cells s. snd e = k}"
      by (auto simp: less_Suc_eq)
    then show ?thesis using Suc.prems IH(3) by (simp add: owned_at)
  qed
  show ?case
    using IH(1,2) new own by (auto simp: Let_def seq_map_rebuild_cell[OF fin] sorted_mm_emplace)
qed

lemma seq_map_fields [simp]:
  "seq_map (idx\<lparr>valid := b\<rparr>) s = seq_map idx s" "seq_map (sync te idx) s = seq_map idx s"
  "seq_map (idx\<lparr>n_rebuild := n\<rparr>) s = seq_map idx s"
  "seq_map (idx\<lparr>n_indexed := n\<rparr>) s = seq_map idx s" "seq_map (idx\<lparr>n_stale := n\<rparr>) s = seq_map idx s"
  by (simp_all add: seq_map_def sync_def)

lemma describes_rebuild:
  assumes "\<forall>c \<in> set cells. finite (seq_id c)"
  shows "describes (index_rebuild te idx cells) cells"
proof -
  have "{e \<in> owned cells s. snd e < length cells} = owned cells s" for s
    by (auto simp: owned_iff)
  with rebuild_prefix[OF assms, of "length cells" idx] show ?thesis
    by (simp add: describes_def index_rebuild_def Let_def)
qed

lemma rebuild_in_sync [simp]: "in_sync te (index_rebuild te idx cells)"
  by (simp add: index_rebuild_def in_sync_def sync_def Let_def)

lemma describes_clear_all:
  assumes "\<forall>c \<in> set cells. seq_id c = {}"
  shows "describes (clear_all te idx) cells"
  using assms by (auto simp: describes_def clear_all_def seq_map_def sync_def owned_def)

subsection \<open>The check mode's verdict\<close>

text \<open>\<open>index_verify\<close> compares the entries per sequence as sorted vectors with those of a rebuild.
  On an index whose entries per sequence are distinct and ordered by position, which is what the
  multimap and the mirrored edits maintain, that verdict is exact.\<close>

lemma sort_eq_iff_set:
  fixes m :: "(int \<times> nat) list"
  assumes "distinct m" "distinct m'"
  shows "sort m = sort m' \<longleftrightarrow> set m = set m'"
proof
  assume "sort m = sort m'"
  then show "set m = set m'" by (metis set_sort)
next
  assume "set m = set m'"
  then show "sort m = sort m'"
    using assms by (intro sorted_distinct_set_eq) simp_all
qed

lemma index_verify_exact:
  assumes "valid idx" "\<forall>s. sorted (map fst (seq_map idx s)) \<and> distinct (seq_map idx s)"
    and "\<forall>c \<in> set cells. finite (seq_id c)"
  shows "index_verify idx cells \<longleftrightarrow> describes idx cells"
proof -
  let ?ref = "index_rebuild 0 (new_index\<lparr>valid := True\<rparr>) cells"
  let ?n = "max (length (per_seq idx)) (length (per_seq ?ref))"
  have ref: "distinct (seq_map ?ref s)" "set (seq_map ?ref s) = owned cells s" for s
    using describes_rebuild[OF assms(3)] by (simp_all add: describes_def)
  have "index_verify idx cells \<longleftrightarrow> (\<forall>s < ?n. set (seq_map idx s) = owned cells s)"
    using assms(1,2) ref by (auto simp: index_verify_def Let_def list_all_iff sort_eq_iff_set)
  moreover have "set (seq_map idx s) = owned cells s" if "\<not> s < ?n" for s
  proof -
    from that have "\<not> s < length (per_seq idx)" "\<not> s < length (per_seq ?ref)" by linarith+
    then have "seq_map idx s = []" "seq_map ?ref s = []" by (simp_all add: seq_map_def)
    with ref(2)[of s] show ?thesis by simp
  qed
  ultimately show ?thesis using assms(2) by (auto simp: describes_def)
qed

subsection \<open>The indexed removal\<close>

text \<open>What a removal leaves of a cell that lost its last owner: no position, and the identity state
  row when the cache carries recurrent state.\<close>

definition free_cell :: "bool \<Rightarrow> nat \<Rightarrow> kv_cell \<Rightarrow> kv_cell" where
  "free_cell has_qnext_state i c =
     (let c' = c\<lparr>pos := -1\<rparr> in if has_qnext_state then c'\<lparr>src := int i\<rparr> else c')"

record rm_state =
  rm_cells :: "kv_cell list"
  rm_used :: u32
  rm_new_head :: nat
  rm_stale :: nat
  rm_epoch :: nat

text \<open>One iteration of the walk.  Every branch drops the entry it looked at from the map.\<close>

definition index_rm_entry :: "int \<Rightarrow> bool \<Rightarrow> int \<times> nat \<Rightarrow> rm_state \<Rightarrow> rm_state" where
  "index_rm_entry s has_qnext_state e st =
     (let pk = fst e; i = snd e; n_cells = length (rm_cells st)
      in if n_cells \<le> i then st\<lparr>rm_stale := rm_stale st + 1\<rparr>
         else let cell = rm_cells st ! i
         in if pos cell \<noteq> pk \<or> \<not> has_seq_id s cell then st\<lparr>rm_stale := rm_stale st + 1\<rparr>
         else let cell' = erase_seq s cell
         in if is_empty_cell cell'
            then st\<lparr>rm_cells := (rm_cells st)[i := free_cell has_qnext_state i cell'],
                    rm_used := (if 0 \<le> pos cell' then rm_used st - 1 else rm_used st),
                    rm_new_head := (if i < rm_new_head st then i else rm_new_head st),
                    rm_epoch := rm_epoch st + 1\<rparr>
            else st\<lparr>rm_cells := (rm_cells st)[i := cell'], rm_epoch := rm_epoch st + 1\<rparr>)"

definition range_entries :: "int \<Rightarrow> int \<Rightarrow> (int \<times> nat) list \<Rightarrow> (int \<times> nat) list" where
  "range_entries p0 p1 m =
     (let a = mm_lower_bound p0 m; b = mm_lower_bound p1 m in take (b - a) (drop a m))"

definition index_rm_run ::
  "nat \<Rightarrow> kv_seq_index \<Rightarrow> kv_cell list \<Rightarrow> int \<Rightarrow> int \<Rightarrow> int \<Rightarrow> u32 \<Rightarrow> bool \<Rightarrow> rm_state" where
  "index_rm_run te idx cells s p0 p1 used has_qnext_state =
     fold (index_rm_entry s has_qnext_state) (range_entries p0 p1 (per_seq idx ! nat s))
       \<lparr>rm_cells = cells, rm_used = used, rm_new_head = length cells,
        rm_stale = n_stale idx, rm_epoch = te\<rparr>"

definition index_seq_rm ::
  "nat \<Rightarrow> kv_seq_index \<Rightarrow> kv_cell list \<Rightarrow> int \<Rightarrow> int \<Rightarrow> int \<Rightarrow> u32 \<Rightarrow> nat \<Rightarrow> bool
   \<Rightarrow> kv_seq_index \<times> kv_cell list \<times> u32 \<times> nat \<times> nat" where
  "index_seq_rm te idx cells s p0 p1 used head has_qnext_state =
     (let n_cells = length cells; idx1 = idx\<lparr>n_indexed := n_indexed idx + 1\<rparr>
      in if p1 \<le> p0 then (idx1, cells, used, head, te)
         else if length (per_seq idx1) \<le> nat s then (idx1, cells, used, head, te)
         else let m = per_seq idx1 ! nat s; a = mm_lower_bound p0 m; b = mm_lower_bound p1 m;
                  st = index_rm_run te idx1 cells s p0 p1 used has_qnext_state;
                  idx2 = idx1\<lparr>per_seq := (per_seq idx1)[nat s := take a m @ drop b m],
                              n_stale := rm_stale st\<rparr>;
                  head' = (if rm_new_head st \<noteq> n_cells \<and> rm_new_head st < head
                           then rm_new_head st else head)
              in (idx2, rm_cells st, rm_used st, head', rm_epoch st))"

text \<open>The effect of a removal on one cell it hits, and the count of live cells it conserves.\<close>

definition rm_cell :: "int \<Rightarrow> bool \<Rightarrow> nat \<Rightarrow> kv_cell \<Rightarrow> kv_cell" where
  "rm_cell s q i c = (let c' = erase_seq s c in if seq_id c' = {} then free_cell q i c' else c')"

definition n_live :: "kv_cell list \<Rightarrow> u32" where
  "n_live cs = sum_list (map (\<lambda>c. if live c then 1 else 0) cs)"

lemma free_cell_sel [simp, cell_simps]:
  "pos (free_cell q i c) = -1" "seq_id (free_cell q i c) = seq_id c"
  "seq0 (free_cell q i c) = seq0 c" "delta (free_cell q i c) = delta c"
  "shadow_ok (free_cell q i c) = shadow_ok c"
  by (simp_all add: free_cell_def Let_def shadow_ok_def)

lemma rm_cell_sel [cell_simps]:
  "seq_id (rm_cell s q i c) = seq_id c - {s}"
  "pos (rm_cell s q i c) = (if seq_id c - {s} = {} then -1 else pos c)"
  "cell_ok c \<Longrightarrow> s \<in> seq_id c \<Longrightarrow> cell_ok (rm_cell s q i c)"
  by (auto simp: rm_cell_def Let_def cell_ok_def shadow_ok_edits split: if_splits)

lemma n_live_update:
  assumes "i < length cs"
  shows "n_live (cs[i := c]) + (if live (cs ! i) then 1 else 0) = n_live cs + (if live c then 1 else 0)"
  using assms
proof (induction cs arbitrary: i)
  case (Cons d cs)
  show ?case
  proof (cases i)
    case 0
    then show ?thesis by (simp add: n_live_def)
  next
    case (Suc k)
    with Cons.prems Cons.IH[of k] show ?thesis by (simp add: n_live_def algebra_simps split: if_splits)
  qed
qed simp

subsection \<open>What the walk computes\<close>

definition valid_entries :: "int \<Rightarrow> kv_cell list \<Rightarrow> (int \<times> nat) list \<Rightarrow> bool" where
  "valid_entries s cells es \<longleftrightarrow> distinct (map snd es) \<and>
     (\<forall>(p, i) \<in> set es. i < length cells \<and> p = pos (cells ! i) \<and> 0 \<le> p \<and> s \<in> seq_id (cells ! i))"

definition freed_by :: "int \<Rightarrow> kv_cell list \<Rightarrow> nat set \<Rightarrow> nat set" where
  "freed_by s cells I = {i \<in> I. seq_id (cells ! i) - {s} = {}}"

lemma index_rm_entry_valid:
  assumes "i < length (rm_cells st)" "p = pos (rm_cells st ! i)" "0 \<le> p" "s \<in> seq_id (rm_cells st ! i)"
  shows "index_rm_entry s q (p, i) st = st\<lparr>rm_cells := (rm_cells st)[i := rm_cell s q i (rm_cells st ! i)],
     rm_used := rm_used st - (if seq_id (rm_cells st ! i) - {s} = {} then 1 else 0),
     rm_new_head := (if seq_id (rm_cells st ! i) - {s} = {} then min i (rm_new_head st) else rm_new_head st),
     rm_epoch := rm_epoch st + 1\<rparr>"
  using assms by (simp add: index_rm_entry_def rm_cell_def Let_def min_def)

lemma index_rm_walk:
  assumes "valid_entries s (rm_cells st) es"
  shows "let st' = fold (index_rm_entry s q) es st in
      length (rm_cells st') = length (rm_cells st)
    \<and> (\<forall>k < length (rm_cells st). rm_cells st' ! k
         = (if k \<in> snd ` set es then rm_cell s q k (rm_cells st ! k) else rm_cells st ! k))
    \<and> rm_used st' + n_live (rm_cells st) = rm_used st + n_live (rm_cells st')
    \<and> rm_new_head st' = low_mark (rm_new_head st) (freed_by s (rm_cells st) (snd ` set es))
    \<and> rm_stale st' = rm_stale st \<and> rm_epoch st' = rm_epoch st + length es"
  using assms
proof (induction es arbitrary: st)
  case Nil
  show ?case by (simp add: freed_by_def)
next
  case (Cons e es)
  obtain p i where e: "e = (p, i)" by fastforce
  let ?c = "rm_cells st ! i" and ?f = "seq_id (rm_cells st ! i) - {s} = {}"
  have v: "i < length (rm_cells st)" "p = pos ?c" "0 \<le> p" "s \<in> seq_id ?c"
    and ni: "i \<notin> snd ` set es"
    using Cons.prems e by (auto simp: valid_entries_def)
  let ?st = "index_rm_entry s q (p, i) st"
  have cells: "rm_cells ?st = (rm_cells st)[i := rm_cell s q i ?c]"
    by (simp add: index_rm_entry_valid[OF v])
  have other: "rm_cells ?st ! j = rm_cells st ! j" if "(r, j) \<in> set es" for r j
    using that ni unfolding cells by (metis image_eqI nth_list_update_neq snd_conv)
  have "valid_entries s (rm_cells st) es" using Cons.prems by (simp add: valid_entries_def)
  then have ve: "valid_entries s (rm_cells ?st) es"
    by (auto simp: valid_entries_def cells other[unfolded cells])
  have fr: "freed_by s (rm_cells ?st) (snd ` set es) = freed_by s (rm_cells st) (snd ` set es)"
    using ni unfolding cells freed_by_def by (intro Collect_cong) (metis nth_list_update_neq)
  have fr2: "freed_by s (rm_cells st) (snd ` set (e # es))
      = (if ?f then insert i (freed_by s (rm_cells st) (snd ` set es))
         else freed_by s (rm_cells st) (snd ` set es))"
    by (auto simp: freed_by_def e)
  have fin: "finite (freed_by s (rm_cells st) (snd ` set es))"
    by (simp add: freed_by_def)
  have mark: "low_mark (rm_new_head ?st) (freed_by s (rm_cells st) (snd ` set es))
      = low_mark (rm_new_head st) (freed_by s (rm_cells st) (snd ` set (e # es)))"
    using fin unfolding fr2 index_rm_entry_valid[OF v]
    by (auto simp: low_mark_min min.left_commute)
  have bal: "rm_used ?st + n_live (rm_cells st) = rm_used st + n_live (rm_cells ?st)"
    using n_live_update[OF v(1), of "rm_cell s q i ?c"] v(2,3) unfolding index_rm_entry_valid[OF v]
    by (auto simp: live_def rm_cell_sel algebra_simps split: if_splits)
  note IH = Cons.IH[OF ve, unfolded Let_def fr]
  show ?case
    unfolding Let_def e fold_simps o_apply
  proof (intro conjI allI impI)
    let ?r = "fold (index_rm_entry s q) es ?st"
    show "length (rm_cells ?r) = length (rm_cells st)" using IH cells by simp
    show "rm_used ?r + n_live (rm_cells st) = rm_used st + n_live (rm_cells ?r)"
    proof -
      have "rm_used ?r + n_live (rm_cells ?st) = rm_used ?st + n_live (rm_cells ?r)" using IH by blast
      with bal show ?thesis by (rule balance_trans)
    qed
    show "rm_new_head ?r = low_mark (rm_new_head st) (freed_by s (rm_cells st) (snd ` set ((p, i) # es)))"
      using IH mark e by simp
    show "rm_stale ?r = rm_stale st" "rm_epoch ?r = rm_epoch st + length ((p, i) # es)"
      using IH by (simp_all add: index_rm_entry_valid[OF v])
    fix k assume "k < length (rm_cells st)"
    with IH cells ni v(1) show "rm_cells ?r ! k = (if k \<in> snd ` set ((p, i) # es)
        then rm_cell s q k (rm_cells st ! k) else rm_cells st ! k)"
      by (auto simp: nth_list_update)
  qed
qed

lemma describes_range_entries:
  assumes "describes idx cells" "0 \<le> s" "0 \<le> p0" "p0 \<le> p1"
  shows "let es = range_entries p0 p1 (seq_map idx (nat s))
    in valid_entries s cells es \<and>
       snd ` set es = {i. i < length cells \<and> p0 \<le> pos (cells ! i) \<and> pos (cells ! i) < p1 \<and> s \<in> seq_id (cells ! i)}"
proof -
  let ?m = "seq_map idx (nat s)"
  let ?es = "take (mm_lower_bound p1 ?m - mm_lower_bound p0 ?m) (drop (mm_lower_bound p0 ?m) ?m)"
  have m: "sorted (map fst ?m)" "distinct ?m" "set ?m = owned cells (nat s)"
    using assms(1) by (simp_all add: describes_def)
  have es: "set ?es = {e \<in> owned cells (nat s). p0 \<le> fst e \<and> fst e < p1}"
    using lower_bound_range[OF m(1) assms(4)] m(3) by simp
  have "inj_on snd (owned cells (nat s))" by (auto simp: inj_on_def owned_def)
  then have "inj_on snd (set ?es)" by (rule inj_on_subset) (auto simp: es)
  moreover have "distinct ?es" using m(2) by simp
  ultimately have "distinct (map snd ?es)" by (simp add: distinct_map)
  moreover have "\<forall>(p, i) \<in> set ?es. i < length cells \<and> p = pos (cells ! i) \<and> 0 \<le> p \<and> s \<in> seq_id (cells ! i)"
    using es assms(2) by (auto simp: owned_iff)
  moreover have "snd ` set ?es
      = {i. i < length cells \<and> p0 \<le> pos (cells ! i) \<and> pos (cells ! i) < p1 \<and> s \<in> seq_id (cells ! i)}"
    using assms(2,3) unfolding es by (force simp: owned_def live_def)
  ultimately show ?thesis by (simp add: Let_def valid_entries_def range_entries_def)
qed

end
