(* ===== verification/KvCache.thy ===== *)
theory KvCache
  imports KvIndex
begin

section \<open>The unified KV cache (src/llama.cpp, src/llama-context.h)\<close>

text \<open>
  \<open>llama_kv_cache\<close>: a vector of cells, the search hint \<open>head\<close>, the count \<open>used\<close> (32 bits, as in
  the code), the position index and the memo of the highest occupied cell.  The operations are
  the ones the engine calls: clear, slot search and placement, range removal (scan and indexed),
  copy, prefix sharing, keep, shift and division of positions, and the queries.
  Positions are \<open>int\<close>; the code's \<open>llama_pos\<close> is 32 bits wide and every position here comes from
  a batch or from \<open>pos + delta\<close>, whose overflow is undefined in C++ and outside the model.  Cell
  indices and sizes are \<open>nat\<close>: the engine's caches have far fewer than \<open>2^31\<close> cells, so
  \<open>head + n_tokens\<close> does not wrap.  The tensors behind the cells enter through two counts:
  \<open>state_slots\<close> (\<open>llama_kv_qnext_state_slots\<close>) and \<open>rs_plane_rows\<close>.  \<open>cells_data\<close> is the identity
  of the cell vector's storage, \<open>tag_epoch\<close> the global counter \<open>llama_kv_tag_epoch\<close>.
\<close>

record kv_cache =
  recurrent :: bool
  has_shift :: bool
  do_defrag :: bool
  do_copy :: bool
  head :: nat
  size :: nat
  used :: u32
  kv_n :: u32
  cells :: "kv_cell list"
  seq_index :: kv_seq_index
  state_slots :: nat
  rs_plane_rows :: nat
  cmax_ub :: nat
  cmax_epoch :: nat
  cmax_data :: "nat option"
  cmax_size :: nat
  cells_data :: nat
  tag_epoch :: nat

record batch_tok =
  b_pos :: int
  b_seqs :: "int list"

definition POS_MAX :: int where "POS_MAX = 2147483647"

definition clamp_p0 :: "int \<Rightarrow> int" where "clamp_p0 p0 = (if p0 < 0 then 0 else p0)"

definition clamp_p1 :: "int \<Rightarrow> int" where "clamp_p1 p1 = (if p1 < 0 then POS_MAX else p1)"

definition has_qnext_state :: "kv_cache \<Rightarrow> bool" where
  "has_qnext_state c \<longleftrightarrow> state_slots c > 0"

definition qnext_plane_rows :: "kv_cache \<Rightarrow> nat" where
  "qnext_plane_rows c = (if rs_plane_rows c > 0 then rs_plane_rows c else state_slots c)"

definition qnext_seq_id_in_range :: "kv_cache \<Rightarrow> int \<Rightarrow> bool" where
  "qnext_seq_id_in_range c s \<longleftrightarrow>
     qnext_plane_rows c > 0 \<and> 0 \<le> s \<and> s < int (qnext_plane_rows c)"

subsection \<open>The highest occupied cell and its memo\<close>

fun cells_max_below :: "kv_cell list \<Rightarrow> nat \<Rightarrow> nat" where
  "cells_max_below cs 0 = 0"
| "cells_max_below cs (Suc i) =
     (if 0 \<le> pos (cs ! i) \<and> \<not> is_empty_cell (cs ! i) then Suc i else cells_max_below cs i)"

definition cmax_in_sync :: "kv_cache \<Rightarrow> bool" where
  "cmax_in_sync c \<longleftrightarrow> \<not> recurrent c \<and> cmax_data c = Some (cells_data c) \<and> cmax_size c = size c
     \<and> size c = length (cells c) \<and> cmax_epoch c = tag_epoch c \<and> cmax_ub c \<le> size c"

text \<open>The answer is \<open>None\<close> where the code aborts: mode 2 found the memo and the scan to differ.\<close>

definition cell_max_ub :: "nat \<Rightarrow> kv_cache \<Rightarrow> (nat \<times> kv_cache) option" where
  "cell_max_ub mode c =
     (if mode = 0 \<or> recurrent c then Some (cells_max_below (cells c) (size c), c)
      else let sy = cmax_in_sync c;
               r = cells_max_below (cells c) (if sy then cmax_ub c else size c)
      in if 2 \<le> mode \<and> sy \<and> cells_max_below (cells c) (size c) \<noteq> r then None
         else Some (r, c\<lparr>cmax_ub := r, cmax_epoch := tag_epoch c,
                         cmax_data := Some (cells_data c), cmax_size := size c\<rparr>))"

definition cell_max_widen :: "bool \<Rightarrow> nat \<Rightarrow> kv_cache \<Rightarrow> kv_cache" where
  "cell_max_widen was_sync hi c =
     (if \<not> was_sync then c
      else c\<lparr>cmax_ub := max (cmax_ub c) (min hi (size c)), cmax_epoch := tag_epoch c\<rparr>)"

subsection \<open>Clearing the cache\<close>

definition clear_step :: "nat \<Rightarrow> kv_cell \<Rightarrow> nat \<Rightarrow> kv_cell \<times> nat" where
  "clear_step i c te = (clear_seq (c\<lparr>pos := -1, src := int i\<rparr>), te + 1)"

definition kv_cache_clear :: "kv_cache \<Rightarrow> kv_cache" where
  "kv_cache_clear c =
     (let (cs, te) = sweep clear_step 0 (cells c) (tag_epoch c)
      in c\<lparr>cells := cs, head := 0, used := 0, tag_epoch := te,
           seq_index := clear_all te (seq_index c)\<rparr>)"

subsection \<open>Finding a slot\<close>

definition align_up :: "nat \<Rightarrow> nat \<Rightarrow> nat" where
  "align_up grain h = ((h + grain - 1) div grain) * grain"

text \<open>\<open>PXA_KV_ALIGN_BAND\<close>: keep the probe on the grain where the aligned run still fits.\<close>

definition align_probe :: "nat \<Rightarrow> nat \<Rightarrow> nat \<Rightarrow> nat \<times> nat \<Rightarrow> nat \<times> nat" where
  "align_probe grain sz n ht =
     (let (h, t) = ht; a = align_up grain h
      in if a + n \<le> sz then (a, t + (a - h)) else (h, t))"

text \<open>The search loop.  \<open>None\<close> would be a search that does not return; \<open>Some (found, head)\<close> is the
  outcome, with the value the loop leaves in \<open>cache.head\<close>.  \<open>grain = 0\<close> is the default, alignment
  off for this band.\<close>

partial_function (option) slot_search ::
  "nat \<Rightarrow> kv_cell list \<Rightarrow> nat \<Rightarrow> nat \<Rightarrow> nat \<Rightarrow> (bool \<times> nat) option" where
  "slot_search grain cs n h tested =
     (if length cs < h + n then slot_search grain cs n 0 (tested + (length cs - h))
      else case find (\<lambda>i. 0 \<le> pos (cs ! (h + i))) [0..<n] of
             None \<Rightarrow> Some (True, h)
           | Some i \<Rightarrow>
               let ht = (if grain > 1 then align_probe grain (length cs) n (h + i + 1, tested + i + 1)
                         else (h + i + 1, tested + i + 1))
               in if length cs \<le> snd ht then Some (False, fst ht)
                  else slot_search grain cs n (fst ht) (snd ht))"

text \<open>Placing a batch: each token's cell gets its position and its owners, mirrored into the index.\<close>

type_synonym place_state = "kv_cell list \<times> kv_seq_index \<times> nat"

definition place_seq :: "nat \<Rightarrow> int \<Rightarrow> int \<Rightarrow> place_state \<Rightarrow> place_state" where
  "place_seq k p s st =
     (case st of (cs, idx, te) \<Rightarrow> (cs[k := add_seq s (cs ! k)], note_add s p k idx, te + 1))"

definition place_token :: "nat \<Rightarrow> batch_tok \<Rightarrow> place_state \<Rightarrow> place_state" where
  "place_token k t st =
     (case st of (cs, idx, te) \<Rightarrow>
        fold (place_seq k (b_pos t)) (b_seqs t) (cs[k := (cs ! k)\<lparr>pos := b_pos t\<rparr>], idx, te))"

fun place_batch :: "nat \<Rightarrow> batch_tok list \<Rightarrow> place_state \<Rightarrow> place_state" where
  "place_batch h [] st = st"
| "place_batch h (t # ts) st = place_batch (Suc h) ts (place_token h t st)"

text \<open>The recurrent branch: one cell per sequence, indexed by the sequence id.  \<open>Inl\<close> is the early
  return \<open>false\<close> at a sequence id the cache is too small for.\<close>

type_synonym rec_state = "kv_cache \<times> int \<times> int"

fun rec_place_seqs :: "int \<Rightarrow> int list \<Rightarrow> rec_state \<Rightarrow> rec_state + rec_state" where
  "rec_place_seqs p [] st = Inr st"
| "rec_place_seqs p (s # ss) (c, mn, mx) =
     (if 0 \<le> s \<and> s < int (size c)
      then let cell = cells c ! nat s;
               c' = (if pos cell < 0 \<and> 0 \<le> p then c\<lparr>used := used c + 1\<rparr> else c)
           in rec_place_seqs p ss
                (c'\<lparr>cells := (cells c')[nat s := cell\<lparr>pos := p\<rparr>]\<rparr>,
                 (if s < mn then s else mn), (if s > mx then s else mx))
      else Inl (c, mn, mx))"

fun rec_place :: "batch_tok list \<Rightarrow> rec_state \<Rightarrow> rec_state + rec_state" where
  "rec_place [] st = Inr st"
| "rec_place (t # ts) st =
     (case rec_place_seqs (b_pos t) (b_seqs t) st of Inl st' \<Rightarrow> Inl st' | Inr st' \<Rightarrow> rec_place ts st')"

definition find_slot_recurrent :: "batch_tok list \<Rightarrow> kv_cache \<Rightarrow> bool \<times> kv_cache" where
  "find_slot_recurrent batch c =
     (let c0 = c\<lparr>seq_index := invalidate (seq_index c)\<rparr>
      in case rec_place batch (c0, int (size c) - 1, 0) of
           Inl (c', mn, mx) \<Rightarrow> (False, c')
         | Inr (c', mn, mx) \<Rightarrow>
             (mn \<le> mx, c'\<lparr>head := nat mn, kv_n := word_of_int (mx - mn + 1)\<rparr>))"

definition find_slot :: "nat \<Rightarrow> batch_tok list \<Rightarrow> kv_cache \<Rightarrow> (bool \<times> kv_cache) option" where
  "find_slot align_band batch c =
     (let n = length batch in
      if recurrent c then Some (find_slot_recurrent batch c)
      else if size c < n then Some (False, c)
      else
        let align_this = (align_band > 1 \<and> n > 0 \<and> b_pos (hd batch) = 0);
            (h, tested) = (if align_this then align_probe align_band (size c) n (head c, 0)
                           else (head c, 0))
        in case slot_search (if align_this then align_band else 0) (cells c) n h tested of
             None \<Rightarrow> None
           | Some (False, h') \<Rightarrow> Some (False, c\<lparr>head := h'\<rparr>)
           | Some (True, h') \<Rightarrow>
               let cmax_sync = cmax_in_sync (c\<lparr>head := h'\<rparr>);
                   was = in_sync (tag_epoch c) (seq_index c);
                   (cs, idx, te) = place_batch h' batch (cells c, seq_index c, tag_epoch c)
               in Some (True, cell_max_widen cmax_sync (h' + n)
                    (c\<lparr>head := h', cells := cs, seq_index := index_edit_close was te idx,
                       tag_epoch := te, used := used c + of_nat n\<rparr>)))"

subsection \<open>Removing a range of positions\<close>

type_synonym scan_acc = "u32 \<times> nat \<times> nat"

text \<open>One iteration of the scan; the scalars are \<open>used\<close>, \<open>new_head\<close> (\<open>n_cells\<close> means none yet)
  and the tag epoch.\<close>

definition scan_free :: "nat \<Rightarrow> bool \<Rightarrow> nat \<Rightarrow> kv_cell \<Rightarrow> scan_acc \<Rightarrow> kv_cell \<times> scan_acc" where
  "scan_free n_cells q i c acc =
     (case acc of (u, nh, te) \<Rightarrow>
        if is_empty_cell c
        then (free_cell q i c, ((if 0 \<le> pos c then u - 1 else u), (if nh = n_cells then i else nh), te + 1))
        else (c, (u, nh, te + 1)))"

definition rm_scan_step ::
  "nat \<Rightarrow> int \<Rightarrow> int \<Rightarrow> int \<Rightarrow> bool \<Rightarrow> nat \<Rightarrow> kv_cell \<Rightarrow> scan_acc \<Rightarrow> kv_cell \<times> scan_acc" where
  "rm_scan_step n_cells s p0 p1 q i c acc =
     (if p0 \<le> pos c \<and> pos c < p1
      then if s < 0 then scan_free n_cells q i (clear_seq c) acc
           else if has_seq_id s c then scan_free n_cells q i (erase_seq s c) acc
           else (c, acc)
      else (c, acc))"

definition seq_rm_scan ::
  "kv_cell list \<Rightarrow> int \<Rightarrow> int \<Rightarrow> int \<Rightarrow> u32 \<Rightarrow> nat \<Rightarrow> bool \<Rightarrow> nat \<Rightarrow> kv_cell list \<times> u32 \<times> nat \<times> nat" where
  "seq_rm_scan cs s p0 p1 u hd0 q te =
     (let n_cells = length cs;
          (cs', (u', nh, te')) = sweep (rm_scan_step n_cells s p0 p1 q) 0 cs (u, n_cells, te)
      in (cs', u', (if nh \<noteq> n_cells \<and> nh < hd0 then nh else hd0), te'))"

definition cells_agree :: "kv_cell \<Rightarrow> kv_cell \<Rightarrow> bool" where
  "cells_agree a b \<longleftrightarrow> pos a = pos b \<and> src a = src b \<and> delta a = delta b \<and> seq_id a = seq_id b"

text \<open>\<open>llama_kv_index_diff\<close>: true when the indexed removal and the scan left the same cache.\<close>

definition index_diff ::
  "kv_cell list \<Rightarrow> u32 \<Rightarrow> nat \<Rightarrow> kv_cell list \<Rightarrow> u32 \<Rightarrow> nat \<Rightarrow> bool" where
  "index_diff got gu gh want wu wh \<longleftrightarrow>
     (if length got \<noteq> length want then False
      else if gu \<noteq> wu then False
      else if gh \<noteq> wh then False
      else list_all (\<lambda>i. cells_agree (got ! i) (want ! i)) [0..<length got])"

text \<open>\<open>llama_kv_cache_seq_rm\<close>.  \<open>enabled\<close> and \<open>check\<close> are the levers \<open>PXA_KV_SEQ_RM_INDEX\<close> and
  \<open>PXA_KV_INDEX_CHECK\<close>.  In check mode the shadow scan runs on copies and the epoch it moved is
  put back before the indexed removal runs.  A copy of the cells (\<open>cache.cells = ref_cells\<close>) bumps
  the epoch once per cell.\<close>

definition apply_index_rm :: "int \<Rightarrow> int \<Rightarrow> int \<Rightarrow> kv_cache \<Rightarrow> kv_cache" where
  "apply_index_rm s p0 p1 c =
     (let was = in_sync (tag_epoch c) (seq_index c);
          (idx, cs, u, h, te) = index_seq_rm (tag_epoch c) (seq_index c) (cells c) s p0 p1
                                  (used c) (head c) (has_qnext_state c)
      in c\<lparr>cells := cs, used := u, head := h, tag_epoch := te,
           seq_index := index_edit_close was te idx\<rparr>)"

definition rebuilt :: "kv_cache \<Rightarrow> kv_cache" where
  "rebuilt c = c\<lparr>seq_index := index_rebuild (tag_epoch c) (seq_index c) (cells c)\<rparr>"

definition seq_rm_indexed :: "bool \<Rightarrow> int \<Rightarrow> int \<Rightarrow> int \<Rightarrow> kv_cache \<Rightarrow> kv_cache" where
  "seq_rm_indexed check s p0 p1 c =
     (let c1 = (if \<not> in_sync (tag_epoch c) (seq_index c) then rebuilt c
                else if check \<and> \<not> index_verify (seq_index c) (cells c) then rebuilt c
                else c)
      in if check
         then let (rcs, ru, rh, _) = seq_rm_scan (cells c1) s p0 p1 (used c1) (head c1)
                                       (has_qnext_state c1) (tag_epoch c1);
                  c2 = apply_index_rm s p0 p1 c1
              in if index_diff (cells c2) (used c2) (head c2) rcs ru rh then c2
                 else rebuilt (c2\<lparr>cells := rcs, used := ru, head := rh,
                                  tag_epoch := tag_epoch c2 + length rcs\<rparr>)
         else apply_index_rm s p0 p1 c1)"

definition seq_rm_recurrent_ok :: "int \<Rightarrow> int \<Rightarrow> int \<Rightarrow> kv_cache \<Rightarrow> bool" where
  "seq_rm_recurrent_ok s p0 p1 c \<longleftrightarrow>
     (if int (size c) \<le> s then False
      else if 0 \<le> s
      then \<not> ((0 < p0 \<and> p0 \<le> pos (cells c ! nat s)) \<or> (0 < p1 \<and> p1 \<le> pos (cells c ! nat s)))
      else \<not> (p0 \<noteq> p1 \<and> (p0 \<noteq> 0 \<or> p1 \<noteq> POS_MAX)))"

definition seq_rm :: "bool \<Rightarrow> bool \<Rightarrow> int \<Rightarrow> int \<Rightarrow> int \<Rightarrow> kv_cache \<Rightarrow> bool \<times> kv_cache" where
  "seq_rm enabled check s p0' p1' c =
     (let p0 = clamp_p0 p0'; p1 = clamp_p1 p1' in
      if recurrent c \<and> \<not> seq_rm_recurrent_ok s p0 p1 c then (False, c)
      else if 0 \<le> s \<and> \<not> recurrent c \<and> enabled then (True, seq_rm_indexed check s p0 p1 c)
      else let (cs, u, h, te) = seq_rm_scan (cells c) s p0 p1 (used c) (head c)
                                  (has_qnext_state c) (tag_epoch c)
           in (True, c\<lparr>cells := cs, used := u, head := h, tag_epoch := te,
                       seq_index := invalidate (seq_index c)\<rparr>))"

subsection \<open>Copying and sharing\<close>

definition in_range_of :: "int \<Rightarrow> int \<Rightarrow> int \<Rightarrow> kv_cell \<Rightarrow> bool" where
  "in_range_of s p0 p1 c \<longleftrightarrow> has_seq_id s c \<and> p0 \<le> pos c \<and> pos c < p1"

definition cp_step :: "int \<Rightarrow> int \<Rightarrow> int \<Rightarrow> int \<Rightarrow> nat \<Rightarrow> kv_cell \<Rightarrow> nat \<Rightarrow> kv_cell \<times> nat" where
  "cp_step s d p0 p1 i c te =
     (if in_range_of s p0 p1 c then (add_seq d c, te + 1) else (c, te))"

text \<open>\<open>llama_kv_cache_seq_cp\<close>.  \<open>None\<close> is the assertion that the redirected source row exists.\<close>

definition seq_cp_recurrent :: "int \<Rightarrow> int \<Rightarrow> kv_cache \<Rightarrow> kv_cache option" where
  "seq_cp_recurrent s d c =
     (if 0 \<le> d \<and> d < int (size c) \<and> 0 \<le> s \<and> s < int (size c)
      then let s' = src (cells c ! nat s) in
        if \<not> (0 \<le> s' \<and> s' < int (size c)) then None
        else let cs1 = (cells c)[nat d := (cells c ! nat d)\<lparr>src := s'\<rparr>];
                 cd = cs1 ! nat d;
                 cd' = (if has_seq_id s' (cs1 ! nat s') then add_seq d cd else erase_seq d cd);
                 cs2 = cs1[nat d := cd'];
                 cs3 = cs2[nat d := (cs2 ! nat d)\<lparr>pos := pos (cs2 ! nat s')\<rparr>]
             in Some (c\<lparr>cells := cs3, do_copy := True, tag_epoch := tag_epoch c + 1\<rparr>)
      else Some c)"

definition seq_cp :: "int \<Rightarrow> int \<Rightarrow> int \<Rightarrow> int \<Rightarrow> kv_cache \<Rightarrow> kv_cache option" where
  "seq_cp s d p0' p1' c0 =
     (let c = c0\<lparr>seq_index := invalidate (seq_index c0)\<rparr>;
          p0 = clamp_p0 p0'; p1 = clamp_p1 p1' in
      if recurrent c then seq_cp_recurrent s d c
      else
        let redirect = (has_qnext_state c \<and> qnext_seq_id_in_range c d \<and> qnext_seq_id_in_range c s
                        \<and> 0 \<le> d \<and> d < int (size c) \<and> 0 \<le> s \<and> s < int (size c));
            s' = (if redirect then src (cells c ! nat s) else s)
        in if redirect \<and> \<not> (0 \<le> s' \<and> s' < int (size c)) then None
           else
             let c1 = (if redirect
                       then let cs1 = (cells c)[nat d := (cells c ! nat d)\<lparr>src := s'\<rparr>]
                            in c\<lparr>cells := cs1[nat d := (cs1 ! nat d)\<lparr>pos := pos (cs1 ! nat s')\<rparr>],
                                 do_copy := True\<rparr>
                       else c);
                 (cs, te) = sweep (cp_step s' d p0 p1) 0 (cells c1) (tag_epoch c1)
             in Some (c1\<lparr>head := 0, cells := cs, tag_epoch := te\<rparr>))"

definition share_drop_step ::
  "nat \<Rightarrow> int \<Rightarrow> int \<Rightarrow> bool \<Rightarrow> nat \<Rightarrow> kv_cell \<Rightarrow> scan_acc \<Rightarrow> kv_cell \<times> scan_acc" where
  "share_drop_step n_cells d p1 q i c acc =
     (case acc of (u, nh, te) \<Rightarrow>
        if pos c < 0 \<or> p1 \<le> pos c then (c, acc)
        else if \<not> has_seq_id d c then (c, acc)
        else let c' = erase_seq d c in
          if is_empty_cell c'
          then (free_cell q i c', (u - 1, (if nh = n_cells then i else nh), te + 1))
          else (c', (u, nh, te + 1)))"

definition share_add_step :: "int \<Rightarrow> int \<Rightarrow> int \<Rightarrow> nat \<Rightarrow> kv_cell \<Rightarrow> nat \<times> nat \<Rightarrow> kv_cell \<times> nat \<times> nat" where
  "share_add_step s d p1 i c acc =
     (case acc of (n_shared, te) \<Rightarrow>
        if pos c < 0 \<or> p1 \<le> pos c then (c, acc)
        else if \<not> has_seq_id s c then (c, acc)
        else (add_seq d c, (n_shared + 1, te + 1)))"

text \<open>\<open>llama_kv_cache_seq_share_prefix\<close>: the exact-prefix fork.  The head the first pass computes is
  overwritten by the \<open>cache.head = 0\<close> that follows.\<close>

definition seq_share_prefix :: "int \<Rightarrow> int \<Rightarrow> int \<Rightarrow> kv_cache \<Rightarrow> int \<times> kv_cache" where
  "seq_share_prefix s d p1 c =
     (if s < 0 \<or> d < 0 \<or> s = d then (-1, c)
      else if p1 \<le> 0 then (0, c)
      else if recurrent c then (-1, c)
      else
        let q = has_qnext_state c;
            (cs1, (u, nh, te1)) = sweep (share_drop_step (size c) d p1 q) 0 (cells c)
                                    (used c, size c, tag_epoch c);
            (cs2, (n_shared, te2)) = sweep (share_add_step s d p1) 0 cs1 (0, te1);
            cs3 = (if q \<and> qnext_seq_id_in_range c d \<and> d < int (size c)
                   then cs2[nat d := (cs2 ! nat d)\<lparr>src := d\<rparr>] else cs2)
        in (int n_shared, c\<lparr>cells := cs3, used := u, head := 0, tag_epoch := te2,
                            seq_index := invalidate (seq_index c)\<rparr>))"

subsection \<open>Keeping one sequence, moving positions\<close>

definition keep_step :: "nat \<Rightarrow> int \<Rightarrow> bool \<Rightarrow> nat \<Rightarrow> kv_cell \<Rightarrow> scan_acc \<Rightarrow> kv_cell \<times> scan_acc" where
  "keep_step n_cells s q i c acc =
     (case acc of (u, nh, te) \<Rightarrow>
        if \<not> has_seq_id s c
        then (clear_seq (free_cell q i c),
              ((if 0 \<le> pos c then u - 1 else u), (if nh = n_cells then i else nh), te + 1))
        else (add_seq s (clear_seq c), (u, nh, te + 2)))"

definition seq_keep :: "int \<Rightarrow> kv_cache \<Rightarrow> kv_cache" where
  "seq_keep s c =
     (let (cs, (u, nh, te)) = sweep (keep_step (size c) s (has_qnext_state c)) 0 (cells c)
                                (used c, size c, tag_epoch c)
      in c\<lparr>cells := cs, used := u, head := (if nh \<noteq> size c \<and> nh < head c then nh else head c),
           tag_epoch := te, seq_index := invalidate (seq_index c)\<rparr>)"

type_synonym shift_acc = "bool \<times> u32 \<times> nat \<times> nat"

definition add_step :: "nat \<Rightarrow> int \<Rightarrow> int \<Rightarrow> int \<Rightarrow> int \<Rightarrow> nat \<Rightarrow> kv_cell \<Rightarrow> shift_acc \<Rightarrow> kv_cell \<times> shift_acc" where
  "add_step n_cells s p0 p1 dlt i c acc =
     (case acc of (sh, u, nh, te) \<Rightarrow>
        if in_range_of s p0 p1 c
        then let c' = c\<lparr>pos := pos c + dlt, delta := delta c + dlt\<rparr> in
          if pos c' < 0
          then (clear_seq (c'\<lparr>pos := -1\<rparr>),
                (True, (if \<not> is_empty_cell c' then u - 1 else u), (if nh = n_cells then i else nh), te + 1))
          else (c', (True, u, nh, te))
        else (c, acc))"

definition seq_add :: "int \<Rightarrow> int \<Rightarrow> int \<Rightarrow> int \<Rightarrow> kv_cache \<Rightarrow> kv_cache" where
  "seq_add s p0' p1' dlt c0 =
     (let c = c0\<lparr>seq_index := invalidate (seq_index c0)\<rparr>;
          p0 = clamp_p0 p0'; p1 = clamp_p1 p1' in
      if p0 = p1 then c
      else if recurrent c
      then if 0 \<le> s \<and> s < int (size c) \<and> in_range_of s p0 p1 (cells c ! nat s)
           then c\<lparr>cells := (cells c)[nat s := (cells c ! nat s)\<lparr>pos := pos (cells c ! nat s) + dlt\<rparr>]\<rparr>
           else c
      else let (cs, (sh, u, nh, te)) = sweep (add_step (size c) s p0 p1 dlt) 0 (cells c)
                                         (has_shift c, used c, size c, tag_epoch c)
           in c\<lparr>cells := cs, has_shift := sh, used := u, tag_epoch := te,
                head := (if nh \<noteq> size c then nh else 0)\<rparr>)"

text \<open>C++ division rounds towards zero.\<close>

definition trunc_div :: "int \<Rightarrow> int \<Rightarrow> int" where
  "trunc_div a b = sgn a * sgn b * (\<bar>a\<bar> div \<bar>b\<bar>)"

definition div_step :: "int \<Rightarrow> int \<Rightarrow> int \<Rightarrow> int \<Rightarrow> nat \<Rightarrow> kv_cell \<Rightarrow> bool \<Rightarrow> kv_cell \<times> bool" where
  "div_step s p0 p1 d i c sh =
     (if in_range_of s p0 p1 c
      then (c\<lparr>pos := trunc_div (pos c) d, delta := delta c + (trunc_div (pos c) d - pos c)\<rparr>, True)
      else (c, sh))"

definition seq_div :: "int \<Rightarrow> int \<Rightarrow> int \<Rightarrow> int \<Rightarrow> kv_cache \<Rightarrow> kv_cache" where
  "seq_div s p0' p1' d c0 =
     (let c = c0\<lparr>seq_index := invalidate (seq_index c0)\<rparr>;
          p0 = clamp_p0 p0'; p1 = clamp_p1 p1' in
      if p0 = p1 then c
      else if recurrent c
      then if 0 \<le> s \<and> s < int (size c) \<and> in_range_of s p0 p1 (cells c ! nat s)
           then c\<lparr>cells := (cells c)[nat s := (cells c ! nat s)\<lparr>pos := trunc_div (pos (cells c ! nat s)) d\<rparr>]\<rparr>
           else c
      else let (cs, sh) = sweep (div_step s p0 p1 d) 0 (cells c) (has_shift c)
           in c\<lparr>cells := cs, has_shift := sh\<rparr>)"

subsection \<open>Queries\<close>

definition seq_pos_max :: "kv_cache \<Rightarrow> int \<Rightarrow> int" where
  "seq_pos_max c s = fold (\<lambda>cell r. if has_seq_id s cell then max r (pos cell) else r) (cells c) 0"

definition seq_pos_min :: "kv_cache \<Rightarrow> int \<Rightarrow> int" where
  "seq_pos_min c s = fold (\<lambda>cell r. if pos cell < 0 \<or> \<not> has_seq_id s cell then r
      else if r < 0 \<or> pos cell < r then pos cell else r) (cells c) (-1)"

definition seq_span_cells :: "kv_cache \<Rightarrow> int \<Rightarrow> int \<times> int \<times> int" where
  "seq_span_cells c s = fold (\<lambda>cell (n, lo, hi). if \<not> has_seq_id s cell \<or> pos cell < 0 then (n, lo, hi)
      else (n + 1, (if n = 0 \<or> pos cell < lo then pos cell else lo), (if pos cell > hi then pos cell else hi)))
      (cells c) (0, -1, -1)"

definition kv_get_padding :: "bool \<Rightarrow> nat" where
  "kv_get_padding flash_attn = (if flash_attn then 256 else 32)"

definition kv_cache_request_defrag :: "kv_cache \<Rightarrow> kv_cache" where
  "kv_cache_request_defrag c = c\<lparr>do_defrag := True\<rparr>"

end
