(* ===== verification/KvSlot.thy ===== *)
theory KvSlot
  imports KvCache
begin

section \<open>The slot search\<close>

text \<open>
  The search of \<open>llama_kv_cache_find_slot\<close> returns on every cache, the run it returns is free and
  inside the cache, and when it gives up (with the alignment lever off) there is no free run of the
  wanted length anywhere in the ring.
\<close>

definition free_run :: "kv_cell list \<Rightarrow> nat \<Rightarrow> nat \<Rightarrow> bool" where
  "free_run cs n h \<longleftrightarrow> h + n \<le> length cs \<and> (\<forall>i < n. pos (cs ! (h + i)) < 0)"

lemma find_upt_None: "find P [0..<n] = None \<longleftrightarrow> (\<forall>i < n. \<not> P i)"
  by (auto simp: find_None_iff)

lemma find_upt_Some: "find P [0..<n] = Some i \<Longrightarrow> i < n \<and> P i \<and> (\<forall>j < i. \<not> P j)"
  by (auto simp: find_Some_iff)

lemma find_occupied_None:
  "find (\<lambda>i. 0 \<le> pos (cs ! (h + i))) [0..<n] = None \<Longrightarrow> h + n \<le> length cs \<Longrightarrow> free_run cs n h"
  by (auto simp: find_upt_None free_run_def not_le)

lemma find_occupied_Some:
  assumes "find (\<lambda>i. 0 \<le> pos (cs ! (h + i))) [0..<n] = Some i"
  shows "i < n" and "h \<le> j \<Longrightarrow> j \<le> h + i \<Longrightarrow> \<not> free_run cs n j"
proof -
  from find_upt_Some[OF assms] have i: "i < n" "0 \<le> pos (cs ! (h + i))" by auto
  show "i < n" by (rule i)
  assume "h \<le> j" "j \<le> h + i"
  then have "h + i - j < n" "j + (h + i - j) = h + i" using i(1) by auto
  with i(2) show "\<not> free_run cs n j" unfolding free_run_def by force
qed

lemma align_probe_bounds:
  assumes "(h', t') = align_probe grain sz n (h, t)"
  shows "t \<le> t'" and "h \<le> sz \<Longrightarrow> h' \<le> sz"
  using assms by (auto simp: align_probe_def Let_def split: if_splits)

lemma align_up_ge: "0 < grain \<Longrightarrow> h \<le> align_up grain h"
proof -
  assume g: "0 < grain"
  have "h + grain - 1 = ((h + grain - 1) div grain) * grain + (h + grain - 1) mod grain" by simp
  moreover have "(h + grain - 1) mod grain < grain" using g by simp
  ultimately show ?thesis unfolding align_up_def using g by linarith
qed

lemma align_probe_ge: "0 < grain \<Longrightarrow> (h', t') = align_probe grain sz n (h, t) \<Longrightarrow> h \<le> h'"
  using align_up_ge[of grain h] by (auto simp: align_probe_def Let_def split: if_splits)

text \<open>Termination.  Every pass either places, gives up, or has tested at least one more cell.\<close>

lemma slot_search_returns_inside:
  assumes "n \<le> length cs" "h + n \<le> length cs"
  shows "\<exists>r. slot_search grain cs n h tested = Some r"
  using assms(2)
proof (induction "length cs - tested" arbitrary: h tested rule: less_induct)
  case less
  let ?f = "find (\<lambda>i. 0 \<le> pos (cs ! (h + i))) [0..<n]"
  show ?case
  proof (cases ?f)
    case None
    with less.prems have "slot_search grain cs n h tested = Some (True, h)"
      by (simp add: slot_search.simps[of grain cs n h])
    then show ?thesis by blast
  next
    case (Some i)
    obtain h' t' where ht: "(if grain > 1 then align_probe grain (length cs) n (h + i + 1, tested + i + 1)
        else (h + i + 1, tested + i + 1)) = (h', t')" by fastforce
    have t': "tested < t'" and h': "h' \<le> length cs"
      using ht align_probe_bounds[of h' t' grain "length cs" n "h + i + 1" "tested + i + 1"]
        find_occupied_Some(1)[OF Some] less.prems by (auto split: if_splits)
    have eq: "slot_search grain cs n h tested
        = (if length cs \<le> t' then Some (False, h') else slot_search grain cs n h' t')"
      using less.prems Some ht by (simp add: slot_search.simps[of grain cs n h])
    show ?thesis
    proof (cases "length cs \<le> t'")
      case False
      show ?thesis
      proof (cases "h' + n \<le> length cs")
        case True
        then show ?thesis using less.hyps[of t' h'] t' False eq by auto
      next
        case wrap: False
        have "\<exists>r. slot_search grain cs n 0 (t' + (length cs - h')) = Some r"
          using less.hyps[of "t' + (length cs - h')" 0] assms(1) t' False by auto
        with wrap False eq show ?thesis by (simp add: slot_search.simps[of grain cs n h'])
      qed
    next
      case True
      with eq have "slot_search grain cs n h tested = Some (False, h')" by simp
      then show ?thesis by blast
    qed
  qed
qed

lemma slot_search_returns:
  assumes "n \<le> length cs"
  shows "\<exists>r. slot_search grain cs n h tested = Some r"
proof (cases "h + n \<le> length cs")
  case True
  with assms show ?thesis by (rule slot_search_returns_inside)
next
  case False
  have "\<exists>r. slot_search grain cs n 0 (tested + (length cs - h)) = Some r"
    using assms by (intro slot_search_returns_inside) simp_all
  with False show ?thesis by (simp add: slot_search.simps[of grain cs n h])
qed

text \<open>Soundness, and the bounds that keep \<open>head\<close> a valid index.\<close>

lemma slot_search_sound:
  assumes "slot_search grain cs n h tested = Some r"
  shows "(fst r \<longrightarrow> free_run cs n (snd r)) \<and> (h \<le> length cs \<longrightarrow> snd r \<le> length cs)"
proof -
  have "n' = n \<longrightarrow> cs' = cs \<longrightarrow> (fst r \<longrightarrow> free_run cs' n' (snd r)) \<and> (h \<le> length cs' \<longrightarrow> snd r \<le> length cs')"
    if "slot_search grain cs' n' h tested = Some r" for cs' n'
  proof (rule slot_search.raw_induct[where P = "\<lambda>grain cs' n' h tested r. n' = n \<longrightarrow> cs' = cs \<longrightarrow>
        (fst r \<longrightarrow> free_run cs' n' (snd r)) \<and> (h \<le> length cs' \<longrightarrow> snd r \<le> length cs')", OF _ that])
    fix f grain cs' n' h tested r
    assume IH: "\<And>grain cs' n' h tested r. f grain cs' n' h tested = Some r \<Longrightarrow> n' = n \<longrightarrow> cs' = cs \<longrightarrow>
          (fst r \<longrightarrow> free_run cs' n' (snd r)) \<and> (h \<le> length cs' \<longrightarrow> snd r \<le> length cs')"
      and eq: "(if length cs' < h + n' then f grain cs' n' 0 (tested + (length cs' - h))
          else case find (\<lambda>i. 0 \<le> pos (cs' ! (h + i))) [0..<n'] of
             None \<Rightarrow> Some (True, h)
           | Some i \<Rightarrow>
               let ht = (if grain > 1 then align_probe grain (length cs') n' (h + i + 1, tested + i + 1)
                         else (h + i + 1, tested + i + 1))
               in if length cs' \<le> snd ht then Some (False, fst ht)
                  else f grain cs' n' (fst ht) (snd ht)) = Some r"
    show "n' = n \<longrightarrow> cs' = cs \<longrightarrow> (fst r \<longrightarrow> free_run cs' n' (snd r)) \<and> (h \<le> length cs' \<longrightarrow> snd r \<le> length cs')"
    proof (cases "length cs' < h + n'")
      case True
      with eq IH show ?thesis by fastforce
    next
      case False
      show ?thesis
      proof (cases "find (\<lambda>i. 0 \<le> pos (cs' ! (h + i))) [0..<n']")
        case None
        with eq False find_occupied_None[OF None] show ?thesis by auto
      next
        case (Some i)
        obtain h' t' where ht: "(if grain > 1 then align_probe grain (length cs') n' (h + i + 1, tested + i + 1)
            else (h + i + 1, tested + i + 1)) = (h', t')" by fastforce
        have h': "h' \<le> length cs'"
          using ht align_probe_bounds[of h' t' grain "length cs'" n' "h + i + 1" "tested + i + 1"]
            find_occupied_Some(1)[OF Some] False by (auto split: if_splits)
        show ?thesis
        proof (cases "length cs' \<le> t'")
          case True
          with eq False Some ht h' show ?thesis by (auto simp: Let_def)
        next
          case go: False
          with eq False Some ht have "f grain cs' n' h' t' = Some r" by (simp add: Let_def)
          from IH[OF this] h' show ?thesis by blast
        qed
      qed
    qed
  qed
  with assms show ?thesis by blast
qed

text \<open>Completeness.  What the search has refuted so far: from the start \<open>h0\<close> up to \<open>h\<close>; after the
  wrap, from \<open>h0\<close> to the end and from 0 up to \<open>h\<close>; or everything.\<close>

definition refuted :: "kv_cell list \<Rightarrow> nat \<Rightarrow> nat \<Rightarrow> nat \<Rightarrow> nat \<Rightarrow> bool" where
  "refuted cs n h0 h tested \<longleftrightarrow>
     (h = h0 + tested \<and> (\<forall>j. h0 \<le> j \<and> j < h \<longrightarrow> \<not> free_run cs n j))
   \<or> (tested = length cs - h0 + h \<and> (\<forall>j. h0 \<le> j \<or> j < h \<longrightarrow> \<not> free_run cs n j))
   \<or> (\<forall>j. \<not> free_run cs n j)"

lemma refuted_wrap:
  assumes "refuted cs n h0 h tested" "length cs < h + n" "h0 \<le> length cs" "h \<le> length cs"
  shows "refuted cs n h0 0 (tested + (length cs - h))"
proof -
  have big: "\<not> free_run cs n j" if "h \<le> j" for j using that assms(2) by (auto simp: free_run_def)
  from assms(1) consider
      "h = h0 + tested" "\<forall>j. h0 \<le> j \<and> j < h \<longrightarrow> \<not> free_run cs n j"
    | "\<forall>j. h0 \<le> j \<or> j < h \<longrightarrow> \<not> free_run cs n j"
    | "\<forall>j. \<not> free_run cs n j"
    by (auto simp: refuted_def)
  then show ?thesis
  proof cases
    case 1
    then have "\<not> free_run cs n j" if "h0 \<le> j" for j using that big[of j] by (cases "j < h") auto
    moreover have "tested + (length cs - h) = length cs - h0" using 1(1) assms(4) by simp
    ultimately show ?thesis by (auto simp: refuted_def)
  next
    case 2
    then have "\<not> free_run cs n j" for j using big[of j] by (cases "j < h") auto
    then show ?thesis by (simp add: refuted_def)
  qed (simp add: refuted_def)
qed

lemma refuted_skip:
  assumes "refuted cs n h0 h tested" "\<And>j. h \<le> j \<Longrightarrow> j \<le> h + i \<Longrightarrow> \<not> free_run cs n j"
  shows "refuted cs n h0 (h + i + 1) (tested + i + 1)"
proof -
  have step: "\<not> free_run cs n j" if "\<not> j < h" "j < h + i + 1" for j
    using that by (intro assms(2)) auto
  from assms(1) consider
      "h = h0 + tested" "\<forall>j. h0 \<le> j \<and> j < h \<longrightarrow> \<not> free_run cs n j"
    | "tested = length cs - h0 + h" "\<forall>j. h0 \<le> j \<or> j < h \<longrightarrow> \<not> free_run cs n j"
    | "\<forall>j. \<not> free_run cs n j"
    by (auto simp: refuted_def)
  then show ?thesis
  proof cases
    case 1
    then have "\<forall>j. h0 \<le> j \<and> j < h + i + 1 \<longrightarrow> \<not> free_run cs n j" using step by blast
    with 1(1) show ?thesis by (simp add: refuted_def)
  next
    case 2
    then have "\<forall>j. h0 \<le> j \<or> j < h + i + 1 \<longrightarrow> \<not> free_run cs n j" using step by blast
    with 2(1) show ?thesis by (simp add: refuted_def)
  qed (simp add: refuted_def)
qed

lemma refuted_exhausted:
  assumes "refuted cs n h0 h tested" "length cs \<le> tested" "h0 \<le> length cs" "h \<le> length cs"
    and "0 < n"
  shows "\<not> free_run cs n j"
proof -
  from assms(1) consider
      "h = h0 + tested" "\<forall>j. h0 \<le> j \<and> j < h \<longrightarrow> \<not> free_run cs n j"
    | "tested = length cs - h0 + h" "\<forall>j. h0 \<le> j \<or> j < h \<longrightarrow> \<not> free_run cs n j"
    | "\<forall>j. \<not> free_run cs n j"
    by (auto simp: refuted_def)
  then show ?thesis
  proof cases
    case 1
    with assms have "h0 = 0" "h = length cs" by auto
    with 1(2) assms(5) show ?thesis by (cases "j < h") (auto simp: free_run_def)
  next
    case 2
    with assms show ?thesis by (cases "h0 \<le> j") auto
  qed simp
qed

lemma slot_search_complete_inv:
  assumes "slot_search grain cs' n' h tested = Some r"
  shows "cs' = cs \<longrightarrow> n' = n \<longrightarrow> grain \<le> 1 \<longrightarrow> 0 < n \<longrightarrow> h0 \<le> length cs \<longrightarrow> h \<le> length cs \<longrightarrow>
    refuted cs n h0 h tested \<longrightarrow> \<not> fst r \<longrightarrow> (\<forall>j. \<not> free_run cs n j)"
proof (rule slot_search.raw_induct[where P = "\<lambda>grain cs' n' h tested r. cs' = cs \<longrightarrow> n' = n \<longrightarrow> grain \<le> 1 \<longrightarrow>
      0 < n \<longrightarrow> h0 \<le> length cs \<longrightarrow> h \<le> length cs \<longrightarrow> refuted cs n h0 h tested \<longrightarrow> \<not> fst r \<longrightarrow> (\<forall>j. \<not> free_run cs n j)",
      OF _ assms])
  fix f grain cs' n' h tested r
  assume IH: "\<And>grain cs' n' h tested r. f grain cs' n' h tested = Some r \<Longrightarrow> cs' = cs \<longrightarrow> n' = n \<longrightarrow>
        grain \<le> 1 \<longrightarrow> 0 < n \<longrightarrow> h0 \<le> length cs \<longrightarrow> h \<le> length cs \<longrightarrow> refuted cs n h0 h tested \<longrightarrow> \<not> fst r \<longrightarrow>
        (\<forall>j. \<not> free_run cs n j)"
    and eq: "(if length cs' < h + n' then f grain cs' n' 0 (tested + (length cs' - h))
        else case find (\<lambda>i. 0 \<le> pos (cs' ! (h + i))) [0..<n'] of
           None \<Rightarrow> Some (True, h)
         | Some i \<Rightarrow>
             let ht = (if grain > 1 then align_probe grain (length cs') n' (h + i + 1, tested + i + 1)
                       else (h + i + 1, tested + i + 1))
             in if length cs' \<le> snd ht then Some (False, fst ht)
                else f grain cs' n' (fst ht) (snd ht)) = Some r"
  show "cs' = cs \<longrightarrow> n' = n \<longrightarrow> grain \<le> 1 \<longrightarrow> 0 < n \<longrightarrow> h0 \<le> length cs \<longrightarrow> h \<le> length cs \<longrightarrow>
      refuted cs n h0 h tested \<longrightarrow> \<not> fst r \<longrightarrow> (\<forall>j. \<not> free_run cs n j)"
  proof (intro impI)
    assume a: "cs' = cs" "n' = n" "grain \<le> 1" "0 < n" "h0 \<le> length cs" "h \<le> length cs"
      and ref: "refuted cs n h0 h tested" and nf: "\<not> fst r"
    show "\<forall>j. \<not> free_run cs n j"
    proof (cases "length cs < h + n")
      case True
      with eq a have "f grain cs n 0 (tested + (length cs - h)) = Some r" by simp
      from IH[OF this] refuted_wrap[OF ref True a(5,6)] a nf show ?thesis by blast
    next
      case False
      show ?thesis
      proof (cases "find (\<lambda>i. 0 \<le> pos (cs ! (h + i))) [0..<n]")
        case None
        with eq False a nf show ?thesis by auto
      next
        case (Some i)
        note skip = refuted_skip[OF ref find_occupied_Some(2)[OF Some]]
        have h': "h + i + 1 \<le> length cs" using find_occupied_Some(1)[OF Some] False by simp
        show ?thesis
        proof (cases "length cs \<le> tested + i + 1")
          case True
          then show ?thesis using refuted_exhausted[OF skip _ a(5) h' a(4)] by blast
        next
          case go: False
          with eq False a Some have "f grain cs n (h + i + 1) (tested + i + 1) = Some r"
            by (simp add: Let_def)
          from IH[OF this] skip a h' nf show ?thesis by blast
        qed
      qed
    qed
  qed
qed

lemma slot_search_complete:
  assumes "slot_search 0 cs n h 0 = Some (False, h')" "h \<le> length cs"
  shows "\<not> free_run cs n j"
proof (cases "n = 0")
  case True
  have "slot_search 0 cs 0 h 0 = Some (True, h)"
    using assms(2) by (simp add: slot_search.simps)
  with assms(1) True show ?thesis by simp
next
  case False
  have "refuted cs n h h 0" unfolding refuted_def by (rule disjI1) auto
  with slot_search_complete_inv[OF assms(1), of cs n h] False assms(2) show ?thesis by simp
qed

end
