(* ===== verification/KvInvariant.thy ===== *)
theory KvInvariant
  imports KvSlot
begin

section \<open>The invariant of the KV cache and what its operations do to the sequences\<close>

text \<open>
  The abstract state of the cache is, for every sequence, the set of cells it owns with their
  positions (\<open>kv_view\<close>): the attention of a sequence reads exactly those rows.  \<open>kv_inv\<close> is the
  invariant every operation keeps: cells are well formed, \<open>used\<close> counts the occupied cells, the
  head is a valid hint, the position index describes the cells whenever it claims to be in sync,
  and the memo of the highest occupied cell is a bound whenever it claims to be in sync.
\<close>

definition kv_view :: "kv_cache \<Rightarrow> int \<Rightarrow> (nat \<times> int) set" where
  "kv_view c s = {(i, pos (cells c ! i)) | i. i < length (cells c) \<and> s \<in> seq_id (cells c ! i)}"

definition index_ok :: "kv_cache \<Rightarrow> bool" where
  "index_ok c \<longleftrightarrow> (in_sync (tag_epoch c) (seq_index c) \<longrightarrow> describes (seq_index c) (cells c))
     \<and> (valid (seq_index c) \<longrightarrow> idx_epoch (seq_index c) \<le> tag_epoch c)"

definition memo_ok :: "kv_cache \<Rightarrow> bool" where
  "memo_ok c \<longleftrightarrow> (cmax_in_sync c \<longrightarrow> (\<forall>i. cmax_ub c \<le> i \<and> i < size c \<longrightarrow> \<not> live (cells c ! i)))
     \<and> (cmax_data c \<noteq> None \<longrightarrow> cmax_epoch c \<le> tag_epoch c)"

definition kv_inv :: "kv_cache \<Rightarrow> bool" where
  "kv_inv c \<longleftrightarrow> \<not> recurrent c \<and> length (cells c) = size c \<and> head c \<le> size c
     \<and> (\<forall>x \<in> set (cells c). cell_ok x) \<and> used c = n_live (cells c) \<and> index_ok c \<and> memo_ok c"

lemma kv_view_iff: "(i, p) \<in> kv_view c s \<longleftrightarrow>
    i < length (cells c) \<and> s \<in> seq_id (cells c ! i) \<and> p = pos (cells c ! i)"
  by (auto simp: kv_view_def)

lemma kv_view_eqI:
  assumes "length (cells c') = length (cells c)"
    and "\<And>i. i < length (cells c) \<Longrightarrow> s \<in> seq_id (cells c' ! i) \<longleftrightarrow> s \<in> seq_id (cells c ! i)"
    and "\<And>i. i < length (cells c) \<Longrightarrow> s \<in> seq_id (cells c ! i) \<Longrightarrow> pos (cells c' ! i) = pos (cells c ! i)"
  shows "kv_view c' s = kv_view c s"
  using assms by (auto simp: kv_view_iff)

lemma kv_inv_cell: "kv_inv c \<Longrightarrow> i < length (cells c) \<Longrightarrow> cell_ok (cells c ! i)"
  by (simp add: kv_inv_def)

lemma kv_inv_finite: "kv_inv c \<Longrightarrow> \<forall>x \<in> set (cells c). finite (seq_id x)"
  by (auto simp: kv_inv_def cell_ok_def shadow_ok_def)

lemma kv_view_pos: "kv_inv c \<Longrightarrow> (i, p) \<in> kv_view c s \<Longrightarrow> 0 \<le> p"
  using kv_inv_cell by (fastforce simp: kv_view_iff cell_ok_def split: if_splits)

lemma kv_view_owner: "kv_inv c \<Longrightarrow> (i, p) \<in> kv_view c s \<Longrightarrow> 0 \<le> s"
  using kv_inv_cell by (fastforce simp: kv_view_iff cell_ok_def shadow_ok_def)

lemma index_ok_invalid: "\<not> valid (seq_index c) \<Longrightarrow> index_ok c"
  by (simp add: index_ok_def in_sync_def)

lemma memo_ok_shrink:
  assumes "memo_ok c"
    and "recurrent c' = recurrent c" "size c' = size c" "cmax_ub c' = cmax_ub c"
    and "cmax_epoch c' = cmax_epoch c" "cmax_data c' = cmax_data c" "cmax_size c' = cmax_size c"
    and "cells_data c' = cells_data c" "length (cells c') = length (cells c)"
    and "tag_epoch c \<le> tag_epoch c'"
    and "\<And>i. i < length (cells c) \<Longrightarrow> live (cells c' ! i) \<Longrightarrow> live (cells c ! i)"
  shows "memo_ok c'"
proof -
  have "cmax_in_sync c" "i < length (cells c)" if "cmax_in_sync c'" "i < size c'" for i
    using that assms by (auto simp: cmax_in_sync_def memo_ok_def)
  with assms show ?thesis unfolding memo_ok_def by (metis order_trans)
qed

text \<open>The step rule the operations that place nothing share: cells stay well formed, no cell becomes
  occupied, \<open>used\<close> follows the occupied cells, the epoch does not go back.\<close>

lemma kv_inv_shrink:
  assumes "kv_inv c"
    and "recurrent c' = recurrent c" "size c' = size c" "cmax_ub c' = cmax_ub c"
    and "cmax_epoch c' = cmax_epoch c" "cmax_data c' = cmax_data c" "cmax_size c' = cmax_size c"
    and "cells_data c' = cells_data c" "length (cells c') = length (cells c)"
    and "tag_epoch c \<le> tag_epoch c'" "head c' \<le> size c"
    and "\<And>i. i < length (cells c) \<Longrightarrow> cell_ok (cells c' ! i)"
    and "\<And>i. i < length (cells c) \<Longrightarrow> live (cells c' ! i) \<Longrightarrow> live (cells c ! i)"
    and "used c' + n_live (cells c) = used c + n_live (cells c')"
    and "index_ok c'"
  shows "kv_inv c'"
proof -
  have "used c = n_live (cells c)" using assms(1) by (simp add: kv_inv_def)
  with assms(14) have "used c' = n_live (cells c')" by simp
  moreover have "memo_ok c'"
    by (rule memo_ok_shrink[of c]) (use assms in \<open>simp_all add: kv_inv_def\<close>)
  moreover have "\<forall>x \<in> set (cells c'). cell_ok x"
    using assms(9,12) by (auto simp: in_set_conv_nth)
  ultimately show ?thesis using assms by (simp add: kv_inv_def)
qed

subsection \<open>Counting occupied cells\<close>

lemma n_live_card: "n_live cs = of_nat (card {i. i < length cs \<and> live (cs ! i)})"
  unfolding n_live_def sum_list_indicator length_filter_nth ..

lemma used_counts:
  assumes "kv_inv c" "size c < 2 ^ 32"
  shows "unat (used c) = card {i. i < size c \<and> seq_id (cells c ! i) \<noteq> {}}"
proof -
  have eq: "{i. i < length (cells c) \<and> live (cells c ! i)} = {i. i < size c \<and> seq_id (cells c ! i) \<noteq> {}}"
    using assms(1) kv_inv_cell[OF assms(1)] by (auto simp: kv_inv_def cell_ok_live)
  have "card {i. i < size c \<and> seq_id (cells c ! i) \<noteq> {}} \<le> card {..<size c}"
    by (intro card_mono) auto
  then have "card {i. i < size c \<and> seq_id (cells c ! i) \<noteq> {}} < 2 ^ 32"
    using assms(2) by simp
  then show ?thesis
    using assms(1) by (simp add: kv_inv_def n_live_card eq unat_of_nat)
qed

subsection \<open>Clearing\<close>

lemma clear_sweep: "fst (sweep clear_step i cs te) = map (\<lambda>(k, c). clear_seq (c\<lparr>pos := -1, src := int k\<rparr>)) (enumerate i cs)
   \<and> snd (sweep clear_step i cs te) = te + length cs"
  by (induction cs arbitrary: i te) (simp_all add: clear_step_def case_prod_beta)

lemma n_live_none: "\<forall>c \<in> set cs. \<not> live c \<Longrightarrow> n_live cs = 0"
  by (induction cs) (auto simp: n_live_def)

lemma kv_cache_clear_empty:
  assumes "kv_inv c"
  shows "kv_inv (kv_cache_clear c)" and "kv_view (kv_cache_clear c) s = {}"
    and "in_sync (tag_epoch (kv_cache_clear c)) (seq_index (kv_cache_clear c))"
proof -
  let ?cs = "fst (sweep clear_step 0 (cells c) (tag_epoch c))"
  have te: "snd (sweep clear_step 0 (cells c) (tag_epoch c)) = tag_epoch c + length (cells c)"
    by (simp add: clear_sweep)
  have free: "\<forall>x \<in> set ?cs. seq_id x = {} \<and> cell_ok x \<and> \<not> live x"
    by (auto simp: clear_sweep cell_ok_def shadow_ok_def live_def)
  have def: "kv_cache_clear c = c\<lparr>cells := ?cs, head := 0, used := 0,
      tag_epoch := tag_epoch c + length (cells c),
      seq_index := clear_all (tag_epoch c + length (cells c)) (seq_index c)\<rparr>"
    using te by (simp add: kv_cache_clear_def case_prod_beta)
  have len: "length ?cs = length (cells c)" by simp
  have nth_free: "seq_id (?cs ! i) = {} \<and> \<not> live (?cs ! i)" if "i < length (cells c)" for i
    using free that len by (metis nth_mem)
  have "memo_ok (kv_cache_clear c)"
  proof (rule memo_ok_shrink[of c])
    show "memo_ok c" using assms by (simp add: kv_inv_def)
  qed (use nth_free in \<open>simp_all add: def\<close>)
  moreover have "index_ok (kv_cache_clear c)"
    using free describes_clear_all by (simp add: def index_ok_def clear_all_def sync_def)
  ultimately show "kv_inv (kv_cache_clear c)"
    using assms free n_live_none[of ?cs] by (simp add: kv_inv_def def)
  show "kv_view (kv_cache_clear c) s = {}"
    using nth_free by (auto simp: kv_view_def def)
  show "in_sync (tag_epoch (kv_cache_clear c)) (seq_index (kv_cache_clear c))"
    by (simp add: def in_sync_def clear_all_def sync_def)
qed

end
