(* ===== verification/KvRemove.thy ===== *)
theory KvRemove
  imports KvInvariant
begin

section \<open>Range removal: the scan, the indexed walk, and their contract\<close>

text \<open>
  \<open>llama_kv_cache_seq_rm\<close> has two implementations: the scan over all cells and the walk over the
  position index.  Here both are shown to satisfy one contract, the locale \<open>kv_remover\<close>, and to
  produce the same cells, count, head and epoch.  The lemmas a caller needs (idempotence, removals
  of different sequences commute, a full removal empties the sequence) are proved once, inside the
  locale.
\<close>

subsection \<open>What the scan computes\<close>

definition rm_hit :: "int \<Rightarrow> int \<Rightarrow> int \<Rightarrow> kv_cell \<Rightarrow> bool" where
  "rm_hit s p0 p1 c \<longleftrightarrow> p0 \<le> pos c \<and> pos c < p1 \<and> (s < 0 \<or> s \<in> seq_id c)"

definition rm_all_cell :: "bool \<Rightarrow> nat \<Rightarrow> kv_cell \<Rightarrow> kv_cell" where
  "rm_all_cell q i c = free_cell q i (clear_seq c)"

definition rm_result :: "int \<Rightarrow> int \<Rightarrow> int \<Rightarrow> bool \<Rightarrow> nat \<Rightarrow> kv_cell \<Rightarrow> kv_cell" where
  "rm_result s p0 p1 q i c =
     (if rm_hit s p0 p1 c then (if s < 0 then rm_all_cell q i c else rm_cell s q i c) else c)"

definition rm_frees :: "int \<Rightarrow> int \<Rightarrow> int \<Rightarrow> kv_cell \<Rightarrow> bool" where
  "rm_frees s p0 p1 c \<longleftrightarrow> rm_hit s p0 p1 c \<and> (s < 0 \<or> seq_id c - {s} = {})"

lemma rm_scan_step_eq:
  "rm_scan_step n s p0 p1 q i c (u, nh, te) =
     (rm_result s p0 p1 q i c,
      (if rm_frees s p0 p1 c \<and> 0 \<le> pos c then u - 1 else u),
      (if rm_frees s p0 p1 c \<and> nh = n then i else nh),
      (if rm_hit s p0 p1 c then te + 1 else te))"
  by (auto simp: rm_scan_step_def scan_free_def rm_result_def rm_frees_def rm_hit_def rm_cell_def
      rm_all_cell_def Let_def)

lemma rm_result_sel:
  "seq_id (rm_result s p0 p1 q i c)
     = (if rm_hit s p0 p1 c then (if s < 0 then {} else seq_id c - {s}) else seq_id c)"
  "pos (rm_result s p0 p1 q i c) = (if rm_frees s p0 p1 c then -1 else pos c)"
  by (auto simp: rm_result_def rm_frees_def rm_all_cell_def rm_cell_sel)

lemma cell_ok_rm_result: "cell_ok c \<Longrightarrow> cell_ok (rm_result s p0 p1 q i c)"
proof -
  assume c: "cell_ok c"
  have "cell_ok (rm_all_cell q i c)" by (simp add: rm_all_cell_def cell_ok_def shadow_ok_edits)
  moreover have "cell_ok (rm_cell s q i c)" if "s \<in> seq_id c" using c that by (rule rm_cell_sel)
  ultimately show ?thesis using c by (auto simp: rm_result_def rm_hit_def)
qed

lemma live_rm_result: "live (rm_result s p0 p1 q i c) \<Longrightarrow> live c"
  by (auto simp: live_def rm_result_sel split: if_splits)

lemma rm_sweep_mark:
  assumes "i + length cs \<le> n"
  shows "fst (snd (snd (sweep (rm_scan_step n s p0 p1 q) i cs (u, nh, te))))
    = (if nh = n then low_mark n {i + k | k. k < length cs \<and> rm_frees s p0 p1 (cs ! k)} else nh)"
  using assms
proof (induction cs arbitrary: i u nh te)
  case (Cons c cs)
  let ?S = "{Suc i + k | k. k < length cs \<and> rm_frees s p0 p1 (cs ! k)}"
  have split: "{i + k | k. k < length (c # cs) \<and> rm_frees s p0 p1 ((c # cs) ! k)}
      = (if rm_frees s p0 p1 c then insert i ?S else ?S)"
  proof (rule set_eqI)
    fix x
    show "x \<in> {i + k | k. k < length (c # cs) \<and> rm_frees s p0 p1 ((c # cs) ! k)} \<longleftrightarrow>
        x \<in> (if rm_frees s p0 p1 c then insert i ?S else ?S)"
      by (auto simp: less_Suc_eq_0_disj)
  qed
  have fin: "finite ?S" by (rule finite_subset[of _ "{..i + Suc (length cs)}"]) auto
  have bnd: "\<forall>x \<in> ?S. i < x" by auto
  have "low_mark n (insert i ?S) = i"
    unfolding low_mark_def using fin bnd Cons.prems by (intro Min_eqI) auto
  then show ?case
    using Cons.IH[of "Suc i"] Cons.prems unfolding split
    by (simp add: case_prod_beta rm_scan_step_eq)
qed simp

lemma rm_sweep_epoch:
  "snd (snd (snd (sweep (rm_scan_step n s p0 p1 q) i cs (u, nh, te))))
     = te + length (filter (rm_hit s p0 p1) cs)"
  by (induction cs arbitrary: i u nh te) (simp_all add: case_prod_beta rm_scan_step_eq)

lemma rm_sweep_used:
  "fst (snd (sweep (rm_scan_step n s p0 p1 q) i cs (u, nh, te))) + n_live cs
     = u + n_live (fst (sweep (rm_scan_step n s p0 p1 q) i cs (u, nh, te)))"
proof -
  have step: "fst (snd (rm_scan_step n s p0 p1 q i c st)) + (if live c then 1 else 0)
      = fst st + (if live (fst (rm_scan_step n s p0 p1 q i c st)) then 1 else 0)" for i c st
    by (cases st) (auto simp: rm_scan_step_eq rm_result_sel live_def)
  show ?thesis
    using sweep_balance[of fst "rm_scan_step n s p0 p1 q" "\<lambda>c. if live c then 1 else 0", OF step]
    unfolding n_live_def by (metis fst_conv)
qed

lemma rm_sweep_nth:
  "k < length cs \<Longrightarrow> fst (sweep (rm_scan_step n s p0 p1 q) 0 cs acc) ! k = rm_result s p0 p1 q k (cs ! k)"
  using sweep_nth[of "rm_scan_step n s p0 p1 q" "rm_result s p0 p1 q" k cs 0 acc]
  by (force simp: rm_scan_step_eq)

definition scan_cells :: "int \<Rightarrow> int \<Rightarrow> int \<Rightarrow> bool \<Rightarrow> kv_cell list \<Rightarrow> kv_cell list" where
  "scan_cells s p0 p1 q cs = map (\<lambda>i. rm_result s p0 p1 q i (cs ! i)) [0..<length cs]"

definition lower_head :: "nat \<Rightarrow> nat \<Rightarrow> nat \<Rightarrow> nat" where
  "lower_head n nh hd0 = (if nh \<noteq> n \<and> nh < hd0 then nh else hd0)"

lemma seq_rm_scan_eq:
  "seq_rm_scan cs s p0 p1 u hd0 q te =
     (scan_cells s p0 p1 q cs, u - n_live cs + n_live (scan_cells s p0 p1 q cs),
      lower_head (length cs) (low_mark (length cs) {k. k < length cs \<and> rm_frees s p0 p1 (cs ! k)}) hd0,
      te + length (filter (rm_hit s p0 p1) cs))"
proof -
  let ?r = "sweep (rm_scan_step (length cs) s p0 p1 q) 0 cs (u, length cs, te)"
  have cells: "fst ?r = scan_cells s p0 p1 q cs"
    by (rule nth_equalityI) (auto simp: scan_cells_def rm_sweep_nth)
  have "fst (snd ?r) + n_live cs = u + n_live (fst ?r)" by (rule rm_sweep_used)
  then have "fst (snd ?r) = u - n_live cs + n_live (fst ?r)" by (simp add: algebra_simps)
  moreover have "fst (snd (snd ?r)) = low_mark (length cs) {k. k < length cs \<and> rm_frees s p0 p1 (cs ! k)}"
    using rm_sweep_mark[of 0 cs "length cs"] by simp
  moreover have "snd (snd (snd ?r)) = te + length (filter (rm_hit s p0 p1) cs)"
    by (rule rm_sweep_epoch)
  ultimately show ?thesis
    using cells by (simp add: seq_rm_scan_def Let_def case_prod_beta lower_head_def)
qed

subsection \<open>The indexed removal computes the scan\<close>

lemma rm_frees_clip:
  assumes "0 \<le> s"
  shows "{k. k < length cs \<and> rm_frees s p0 p1 (cs ! k)}
    = freed_by s cs {i. i < length cs \<and> p0 \<le> pos (cs ! i) \<and> pos (cs ! i) < p1 \<and> s \<in> seq_id (cs ! i)}"
  using assms by (auto simp: freed_by_def rm_frees_def rm_hit_def)

lemma index_seq_rm_eq_scan:
  assumes "describes idx cs" "0 \<le> s" "0 \<le> p0"
  shows "snd (index_seq_rm te idx cs s p0 p1 u hd0 q) = seq_rm_scan cs s p0 p1 u hd0 q te"
proof (cases "p1 \<le> p0")
  case True
  then have none: "\<not> rm_hit s p0 p1 c" for c by (auto simp: rm_hit_def)
  then have "scan_cells s p0 p1 q cs = cs"
    by (simp add: scan_cells_def rm_result_def map_nth)
  with none True show ?thesis
    by (simp add: index_seq_rm_def seq_rm_scan_eq rm_frees_def lower_head_def)
next
  case False
  let ?m = "seq_map idx (nat s)"
  let ?es = "range_entries p0 p1 ?m"
  let ?I = "{i. i < length cs \<and> p0 \<le> pos (cs ! i) \<and> pos (cs ! i) < p1 \<and> s \<in> seq_id (cs ! i)}"
  define st0 where "st0 = \<lparr>rm_cells = cs, rm_used = u, rm_new_head = length cs,
      rm_stale = n_stale idx, rm_epoch = te\<rparr>"
  let ?st = "fold (index_rm_entry s q) ?es st0"
  have ve: "valid_entries s cs ?es" and I: "snd ` set ?es = ?I"
    using describes_range_entries[OF assms(1-3), of p1] False by (simp_all add: Let_def)
  have st0: "rm_cells st0 = cs" "rm_used st0 = u" "rm_new_head st0 = length cs"
    "rm_stale st0 = n_stale idx" "rm_epoch st0 = te" by (simp_all add: st0_def)
  note W = index_rm_walk[of s st0 ?es q, unfolded Let_def st0, OF ve]
  have hit: "rm_hit s p0 p1 (cs ! k) \<longleftrightarrow> k \<in> ?I" if "k < length cs" for k
    using assms(2) that by (auto simp: rm_hit_def)
  have cells: "rm_cells ?st = scan_cells s p0 p1 q cs"
  proof (rule nth_equalityI)
    show "length (rm_cells ?st) = length (scan_cells s p0 p1 q cs)" using W by (simp add: scan_cells_def)
    fix k assume "k < length (rm_cells ?st)"
    then have k: "k < length cs" using W by simp
    then show "rm_cells ?st ! k = scan_cells s p0 p1 q cs ! k"
      using W I assms(2) hit[OF k] by (simp add: scan_cells_def rm_result_def)
  qed
  have used: "rm_used ?st = u - n_live cs + n_live (scan_cells s p0 p1 q cs)"
    using W cells by (simp add: algebra_simps)
  have mark: "rm_new_head ?st = low_mark (length cs) {k. k < length cs \<and> rm_frees s p0 p1 (cs ! k)}"
    using W I by (simp add: rm_frees_clip[OF assms(2)])
  have "length ?es = card (snd ` set ?es)"
    using ve card_image_distinct[of snd ?es] unfolding valid_entries_def by simp
  also have "\<dots> = length (filter (rm_hit s p0 p1) cs)"
  proof -
    have "{k. k < length cs \<and> rm_hit s p0 p1 (cs ! k)} = ?I" using hit by blast
    with I show ?thesis by (simp add: length_filter_nth)
  qed
  finally have ep: "rm_epoch ?st = te + length (filter (rm_hit s p0 p1) cs)" using W by simp
  have scan: "seq_rm_scan cs s p0 p1 u hd0 q te
      = (rm_cells ?st, rm_used ?st, lower_head (length cs) (rm_new_head ?st) hd0, rm_epoch ?st)"
    unfolding seq_rm_scan_eq cells used mark ep ..
  show ?thesis
  proof (cases "length (per_seq idx) \<le> nat s")
    case True
    then have "?st = st0" by (simp add: seq_map_def range_entries_def)
    with scan have "seq_rm_scan cs s p0 p1 u hd0 q te = (cs, u, hd0, te)"
      by (simp add: st0 lower_head_def)
    with True False show ?thesis by (simp add: index_seq_rm_def)
  next
    case in_tab: False
    then have "index_rm_run te (idx\<lparr>n_indexed := n_indexed idx + 1\<rparr>) cs s p0 p1 u q = ?st"
      by (simp add: index_rm_run_def st0_def seq_map_def)
    with in_tab False show ?thesis
      unfolding scan by (simp add: index_seq_rm_def Let_def lower_head_def)
  qed
qed

subsection \<open>The contract of a removal\<close>

text \<open>The walk leaves an index that describes the cells it left.\<close>

lemma per_seq_index_seq_rm:
  assumes "0 \<le> s"
  shows "seq_map (fst (index_seq_rm te idx cs s p0 p1 u hd0 q)) t =
    (if p1 \<le> p0 \<or> t \<noteq> nat s then seq_map idx t
     else take (mm_lower_bound p0 (seq_map idx t)) (seq_map idx t)
        @ drop (mm_lower_bound p1 (seq_map idx t)) (seq_map idx t))"
  using assms by (auto simp: index_seq_rm_def Let_def seq_map_def)

lemma cut_range:
  assumes "sorted (map fst m)" "p0 \<le> p1"
  shows "take (mm_lower_bound p0 m) m @ drop (mm_lower_bound p1 m) m
    = filter (\<lambda>e. \<not> (p0 \<le> fst e \<and> fst e < p1)) m"
  using assms(1)
proof (induction m)
  case (Cons e m)
  then have IH: "take (mm_lower_bound p0 m) m @ drop (mm_lower_bound p1 m) m
      = filter (\<lambda>e. \<not> (p0 \<le> fst e \<and> fst e < p1)) m" by simp
  consider "fst e < p0" | "p0 \<le> fst e" "fst e < p1" | "p1 \<le> fst e" by linarith
  then show ?case
  proof cases
    case 2
    have "mm_lower_bound p0 m = 0" using Cons.prems 2(1) by (cases m) auto
    with 2 IH show ?thesis by simp
  next
    case 3
    with Cons.prems have "\<forall>x \<in> set m. p1 \<le> fst x" by auto
    with 3 assms(2) show ?thesis by (auto simp: filter_id_conv not_less)
  qed (use IH assms(2) in simp)
qed simp

lemma length_scan_cells [simp]: "length (scan_cells s p0 p1 q cs) = length cs"
  by (simp add: scan_cells_def)

lemma nth_scan_cells [simp]:
  "i < length cs \<Longrightarrow> scan_cells s p0 p1 q cs ! i = rm_result s p0 p1 q i (cs ! i)"
  by (simp add: scan_cells_def)

lemma owned_scan_cells:
  assumes "0 \<le> s" "0 \<le> p0" "\<forall>c \<in> set cs. cell_ok c"
  shows "owned (scan_cells s p0 p1 q cs) t
    = {e \<in> owned cs t. \<not> (t = nat s \<and> p0 \<le> fst e \<and> fst e < p1)}"
proof -
  have "cell_ok (cs ! i)" if "i < length cs" for i using assms(3) that by simp
  moreover have "int t = s \<longleftrightarrow> t = nat s" using assms(1) by auto
  ultimately show ?thesis
    using assms(1,2)
    by (auto simp: owned_def rm_result_sel rm_hit_def rm_frees_def live_def split: if_splits)
qed

lemma describes_index_seq_rm:
  assumes "describes idx cs" "0 \<le> s" "0 \<le> p0" "\<forall>c \<in> set cs. cell_ok c"
  shows "describes (fst (index_seq_rm te idx cs s p0 p1 u hd0 q)) (scan_cells s p0 p1 q cs)"
proof -
  have m: "sorted (map fst (seq_map idx t))" "distinct (seq_map idx t)" "set (seq_map idx t) = owned cs t" for t
    using assms(1) by (simp_all add: describes_def)
  show ?thesis
  proof (cases "p1 \<le> p0")
    case True
    then show ?thesis
      using m assms by (auto simp: describes_def per_seq_index_seq_rm owned_scan_cells)
  next
    case False
    then have "seq_map (fst (index_seq_rm te idx cs s p0 p1 u hd0 q)) t =
        (if t \<noteq> nat s then seq_map idx t
         else filter (\<lambda>e. \<not> (p0 \<le> fst e \<and> fst e < p1)) (seq_map idx t))" for t
      using assms(2) cut_range[OF m(1), of p0 p1 "nat s"] by (simp add: per_seq_index_seq_rm)
    then show ?thesis
      using m assms by (auto simp: describes_def owned_scan_cells sorted_filter)
  qed
qed

lemma index_seq_rm_valid [simp]:
  "valid (fst (index_seq_rm te idx cs s p0 p1 u hd0 q)) = valid idx"
  "idx_epoch (fst (index_seq_rm te idx cs s p0 p1 u hd0 q)) = idx_epoch idx"
  by (auto simp: index_seq_rm_def Let_def)

text \<open>The state a removal ends in, whichever way it was computed: the scan's cells and scalars, and
  some index that satisfies the index invariant.\<close>

definition removed :: "int \<Rightarrow> int \<Rightarrow> int \<Rightarrow> kv_seq_index \<Rightarrow> kv_cache \<Rightarrow> kv_cache" where
  "removed s p0 p1 idx c =
     (let (cs, u, h, te) = seq_rm_scan (cells c) s p0 p1 (used c) (head c) (has_qnext_state c) (tag_epoch c)
      in c\<lparr>cells := cs, used := u, head := h, tag_epoch := te, seq_index := idx\<rparr>)"

lemma kv_inv_removed:
  assumes "kv_inv c" "index_ok (removed s p0 p1 idx c)"
  shows "kv_inv (removed s p0 p1 idx c)"
proof -
  have nth: "cells (removed s p0 p1 idx c) ! i = rm_result s p0 p1 (has_qnext_state c) i (cells c ! i)"
    if "i < length (cells c)" for i
    using that by (simp add: removed_def seq_rm_scan_eq)
  show ?thesis
  proof (rule kv_inv_shrink[OF assms(1)])
    show "head (removed s p0 p1 idx c) \<le> size c"
      using assms(1) by (auto simp: removed_def seq_rm_scan_eq lower_head_def kv_inv_def)
    show "cell_ok (cells (removed s p0 p1 idx c) ! i)" if "i < length (cells c)" for i
      using nth[OF that] kv_inv_cell[OF assms(1) that] by (simp add: cell_ok_rm_result)
    show "live (cells c ! i)" if "i < length (cells c)" "live (cells (removed s p0 p1 idx c) ! i)" for i
      using that nth live_rm_result by metis
    show "index_ok (removed s p0 p1 idx c)" by (rule assms(2))
  qed (simp_all add: removed_def seq_rm_scan_eq)
qed

lemma kv_view_removed:
  "kv_view (removed s p0 p1 idx c) t
    = {e \<in> kv_view c t. \<not> ((s < 0 \<or> t = s) \<and> p0 \<le> snd e \<and> snd e < p1)}"
proof -
  have nth: "cells (removed s p0 p1 idx c) ! i = rm_result s p0 p1 (has_qnext_state c) i (cells c ! i)"
    if "i < length (cells c)" for i
    using that by (simp add: removed_def seq_rm_scan_eq)
  have len: "length (cells (removed s p0 p1 idx c)) = length (cells c)"
    by (simp add: removed_def seq_rm_scan_eq)
  have "(i, p) \<in> kv_view (removed s p0 p1 idx c) t
      \<longleftrightarrow> (i, p) \<in> kv_view c t \<and> \<not> ((s < 0 \<or> t = s) \<and> p0 \<le> p \<and> p < p1)" for i p
  proof (cases "i < length (cells c)")
    case True
    let ?c = "cells c ! i"
    have "t \<in> seq_id (rm_result s p0 p1 q i ?c)
        \<longleftrightarrow> t \<in> seq_id ?c \<and> \<not> ((s < 0 \<or> t = s) \<and> rm_hit s p0 p1 ?c)" for q
      by (auto simp: rm_result_sel)
    moreover have "pos (rm_result s p0 p1 q i ?c) = pos ?c" if "t \<in> seq_id (rm_result s p0 p1 q i ?c)" for q
      using that by (auto simp: rm_result_sel rm_frees_def split: if_splits)
    ultimately show ?thesis
      using True len nth[OF True] by (auto simp: kv_view_iff rm_hit_def)
  next
    case False
    then show ?thesis using len by (simp add: kv_view_iff)
  qed
  then show ?thesis by auto
qed

subsection \<open>Every lever setting ends in that state\<close>

lemma kv_inv_rebuilt:
  assumes "kv_inv c"
  shows "kv_inv (rebuilt c)" and "in_sync (tag_epoch (rebuilt c)) (seq_index (rebuilt c))"
    and "describes (seq_index (rebuilt c)) (cells (rebuilt c))"
proof -
  have d: "describes (index_rebuild (tag_epoch c) (seq_index c) (cells c)) (cells c)"
    by (intro describes_rebuild kv_inv_finite assms)
  show "in_sync (tag_epoch (rebuilt c)) (seq_index (rebuilt c))"
    and "describes (seq_index (rebuilt c)) (cells (rebuilt c))"
    using d by (simp_all add: rebuilt_def)
  have "index_ok (rebuilt c)"
    using d by (simp add: index_ok_def rebuilt_def index_rebuild_def Let_def sync_def)
  moreover have "memo_ok (rebuilt c)"
    using assms by (intro memo_ok_shrink[of c "rebuilt c"]) (simp_all add: kv_inv_def rebuilt_def)
  ultimately show "kv_inv (rebuilt c)"
    using assms by (simp add: kv_inv_def rebuilt_def)
qed

lemma removed_rebuilt: "removed s p0 p1 idx (rebuilt c) = removed s p0 p1 idx c"
  by (simp add: removed_def rebuilt_def has_qnext_state_def seq_rm_scan_eq)

lemma sync_valid [simp]: "valid (sync te idx) = valid idx" "idx_epoch (sync te idx) = te"
  by (simp_all add: sync_def)

lemma apply_index_rm_removed:
  assumes "kv_inv c" "in_sync (tag_epoch c) (seq_index c)" "describes (seq_index c) (cells c)"
    and "0 \<le> s" "0 \<le> p0"
  shows "\<exists>idx. apply_index_rm s p0 p1 c = removed s p0 p1 idx c \<and> index_ok (removed s p0 p1 idx c)
    \<and> in_sync (tag_epoch (removed s p0 p1 idx c)) idx"
proof -
  define r where "r = index_seq_rm (tag_epoch c) (seq_index c) (cells c) s p0 p1 (used c) (head c) (has_qnext_state c)"
  define w where "w = seq_rm_scan (cells c) s p0 p1 (used c) (head c) (has_qnext_state c) (tag_epoch c)"
  have r: "snd r = w" unfolding r_def w_def by (rule index_seq_rm_eq_scan) (use assms in auto)
  have ok: "\<forall>x \<in> set (cells c). cell_ok x" using assms(1) by (simp add: kv_inv_def)
  have "describes (fst r) (fst w)"
    unfolding r_def w_def seq_rm_scan_eq fst_conv
    by (rule describes_index_seq_rm[OF assms(3-5) ok])
  moreover have v: "valid (fst r)" using assms(2) by (simp add: r_def in_sync_def)
  obtain idx cs u h te where w: "r = (idx, cs, u, h, te)" "w = (cs, u, h, te)"
    using r by (metis prod.exhaust_sel snd_conv)
  ultimately have d: "describes idx cs" "valid idx" using v by simp_all
  have rem: "removed s p0 p1 i c = c\<lparr>cells := cs, used := u, head := h, tag_epoch := te, seq_index := i\<rparr>" for i
    using w(2) by (simp add: removed_def w_def)
  have "apply_index_rm s p0 p1 c = removed s p0 p1 (sync te idx) c"
    using w(1) assms(2) unfolding rem by (simp add: apply_index_rm_def r_def index_edit_close_def)
  moreover have "index_ok (removed s p0 p1 (sync te idx) c)"
    using d unfolding rem by (simp add: index_ok_def describes_def sync_valid)
  moreover have "in_sync (tag_epoch (removed s p0 p1 (sync te idx) c)) (sync te idx)"
    using d unfolding rem by (simp add: in_sync_def sync_def)
  ultimately show ?thesis by blast
qed

lemma index_diff_refl: "index_diff cs u h cs u h"
  by (simp add: index_diff_def cells_agree_def list_all_iff)

lemma seq_rm_indexed_removed:
  assumes "kv_inv c" "0 \<le> s" "0 \<le> p0"
  shows "\<exists>idx. seq_rm_indexed check s p0 p1 c = removed s p0 p1 idx c \<and> index_ok (removed s p0 p1 idx c)
    \<and> in_sync (tag_epoch (removed s p0 p1 idx c)) idx"
proof -
  define c1 where "c1 = (if \<not> in_sync (tag_epoch c) (seq_index c) then rebuilt c
                else if check \<and> \<not> index_verify (seq_index c) (cells c) then rebuilt c else c)"
  have c1: "kv_inv c1" "in_sync (tag_epoch c1) (seq_index c1)" "describes (seq_index c1) (cells c1)"
    using assms(1) kv_inv_rebuilt[OF assms(1)] by (auto simp: c1_def kv_inv_def index_ok_def)
  have rem: "removed s p0 p1 i c1 = removed s p0 p1 i c" for i
    by (simp add: c1_def removed_rebuilt)
  obtain idx where idx: "apply_index_rm s p0 p1 c1 = removed s p0 p1 idx c1"
      "index_ok (removed s p0 p1 idx c1)" "in_sync (tag_epoch (removed s p0 p1 idx c1)) idx"
    using apply_index_rm_removed[OF c1 assms(2,3)] by blast
  have "seq_rm_indexed check s p0 p1 c = apply_index_rm s p0 p1 c1"
    unfolding seq_rm_indexed_def c1_def[symmetric] Let_def idx(1)
    by (simp add: removed_def seq_rm_scan_eq index_diff_refl)
  with idx rem show ?thesis by metis
qed

lemma seq_rm_removed:
  assumes "kv_inv c"
  shows "\<exists>idx. seq_rm en ck s p0 p1 c = (True, removed s (clamp_p0 p0) (clamp_p1 p1) idx c)
    \<and> index_ok (removed s (clamp_p0 p0) (clamp_p1 p1) idx c)"
proof (cases "0 \<le> s \<and> en")
  case True
  have "0 \<le> clamp_p0 p0" by (simp add: clamp_p0_def)
  from seq_rm_indexed_removed[OF assms _ this, of s ck "clamp_p1 p1"] True assms
  show ?thesis by (auto simp: seq_rm_def kv_inv_def)
next
  case False
  have "index_ok (removed s a b (invalidate (seq_index c)) c)" for a b
    by (rule index_ok_invalid) (simp add: removed_def case_prod_beta invalidate_def)
  with False assms show ?thesis
    by (auto simp: seq_rm_def kv_inv_def removed_def case_prod_beta Let_def)
qed

subsection \<open>The contract, and what a caller gets from it\<close>

text \<open>A remover drops from one sequence the cells of a range of positions, keeps every other cell
  of every sequence where it is, and keeps the invariant.\<close>

locale kv_remover =
  fixes rm :: "int \<Rightarrow> int \<Rightarrow> int \<Rightarrow> kv_cache \<Rightarrow> kv_cache"
  assumes rm_inv: "kv_inv c \<Longrightarrow> 0 \<le> s \<Longrightarrow> kv_inv (rm s p0 p1 c)"
    and rm_view: "kv_inv c \<Longrightarrow> 0 \<le> s \<Longrightarrow> 0 \<le> p0 \<Longrightarrow> 0 \<le> p1 \<Longrightarrow>
      kv_view (rm s p0 p1 c) t = {e \<in> kv_view c t. \<not> (t = s \<and> p0 \<le> snd e \<and> snd e < p1)}"
begin

lemma rm_other:
  "kv_inv c \<Longrightarrow> 0 \<le> s \<Longrightarrow> 0 \<le> p0 \<Longrightarrow> 0 \<le> p1 \<Longrightarrow> t \<noteq> s \<Longrightarrow> kv_view (rm s p0 p1 c) t = kv_view c t"
  by (simp add: rm_view)

lemma rm_idem:
  assumes "kv_inv c" "0 \<le> s" "0 \<le> p0" "0 \<le> p1"
  shows "kv_view (rm s p0 p1 (rm s p0 p1 c)) t = kv_view (rm s p0 p1 c) t"
  using rm_view[OF rm_inv[OF assms(1,2)] assms(2-4)] rm_view[OF assms] by auto

lemma rm_commute:
  assumes "kv_inv c" "0 \<le> s" "0 \<le> p0" "0 \<le> p1" "0 \<le> s'" "0 \<le> q0" "0 \<le> q1"
  shows "kv_view (rm s p0 p1 (rm s' q0 q1 c)) t = kv_view (rm s' q0 q1 (rm s p0 p1 c)) t"
  using rm_view[OF rm_inv[OF assms(1,5)] assms(2-4)] rm_view[OF assms(1,5-7)]
    rm_view[OF rm_inv[OF assms(1,2)] assms(5-7)] rm_view[OF assms(1-4)] by auto

lemma rm_adjacent:
  assumes "kv_inv c" "0 \<le> s" "0 \<le> p0" "p0 \<le> p1" "p1 \<le> p2"
  shows "kv_view (rm s p0 p1 (rm s p1 p2 c)) t = kv_view (rm s p0 p2 c) t"
proof -
  have "0 \<le> p1" "0 \<le> p2" using assms by linarith+
  then show ?thesis
    using rm_view[OF rm_inv[OF assms(1,2)] assms(2,3)] rm_view[OF assms(1,2)] assms(3-5) by auto
qed

text \<open>The rollback of a speculative draft: dropping every position from \<open>p\<close> on leaves exactly the
  positions below \<open>p\<close>.\<close>

lemma rm_tail:
  assumes "kv_inv c" "0 \<le> s" "0 \<le> p" "\<forall>e \<in> kv_view c s. snd e < POS_MAX"
  shows "kv_view (rm s p POS_MAX c) s = {e \<in> kv_view c s. snd e < p}"
  using rm_view[OF assms(1-3), of POS_MAX s] assms(4) by (auto simp: POS_MAX_def)

end

lemma kv_inv_seq_rm: "kv_inv c \<Longrightarrow> kv_inv (snd (seq_rm en ck s p0 p1 c))"
  using seq_rm_removed[of c en ck s p0 p1] kv_inv_removed[of c] by fastforce

lemma kv_view_seq_rm:
  "kv_inv c \<Longrightarrow> kv_view (snd (seq_rm en ck s p0 p1 c)) t
     = {e \<in> kv_view c t. \<not> ((s < 0 \<or> t = s) \<and> clamp_p0 p0 \<le> snd e \<and> snd e < clamp_p1 p1)}"
proof -
  assume "kv_inv c"
  from seq_rm_removed[OF this] obtain idx where
    "seq_rm en ck s p0 p1 c = (True, removed s (clamp_p0 p0) (clamp_p1 p1) idx c)" by blast
  then show ?thesis by (simp add: kv_view_removed)
qed

text \<open>The program's removal, under every setting of the two levers (\<open>en\<close>, \<open>ck\<close>).\<close>

interpretation seq_rm: kv_remover "\<lambda>s p0 p1 c. snd (seq_rm en ck s p0 p1 c)" for en ck
proof (unfold_locales, goal_cases)
  case (1 c s p0 p1)
  then show ?case by (intro kv_inv_seq_rm)
next
  case (2 c s p0 p1 t)
  then show ?case by (simp only: kv_view_seq_rm clamp_p0_def clamp_p1_def) simp
qed

end
