(* ===== verification/KvPlace.thy ===== *)
theory KvPlace
  imports KvRemove
begin

section \<open>Placing a batch\<close>

text \<open>
  \<open>llama_kv_cache_find_slot\<close> returns on every cache; when it succeeds the batch has its own cells,
  every other cell is untouched, the index mirrors the placement and the memo is widened.  The
  locale \<open>slot_allocator\<close> states what the engine relies on, for this allocator and for the ring
  allocator of the sliding-window cache.
\<close>

definition batch_ok :: "batch_tok list \<Rightarrow> bool" where
  "batch_ok ts \<longleftrightarrow> (\<forall>t \<in> set ts. 0 \<le> b_pos t \<and> b_seqs t \<noteq> [] \<and> (\<forall>s \<in> set (b_seqs t). 0 \<le> s))"

definition placed :: "batch_tok \<Rightarrow> kv_cell \<Rightarrow> kv_cell" where
  "placed t c = fold add_seq (b_seqs t) (c\<lparr>pos := b_pos t\<rparr>)"

lemma fold_add_seq_sel:
  "pos (fold add_seq ss c) = pos c" "delta (fold add_seq ss c) = delta c"
  "src (fold add_seq ss c) = src c" "seq_id (fold add_seq ss c) = set ss \<union> seq_id c"
  by (induction ss arbitrary: c) auto

lemma shadow_ok_fold_add_seq:
  "shadow_ok c \<Longrightarrow> \<forall>s \<in> set ss. 0 \<le> s \<Longrightarrow> shadow_ok (fold add_seq ss c)"
  by (induction ss arbitrary: c) (auto simp: shadow_ok_edits)

lemma placed_sel [simp]:
  "pos (placed t c) = b_pos t" "seq_id (placed t c) = set (b_seqs t) \<union> seq_id c"
  by (simp_all add: placed_def fold_add_seq_sel)

lemma cell_ok_placed:
  assumes "cell_ok c" "0 \<le> b_pos t" "b_seqs t \<noteq> []" "\<forall>s \<in> set (b_seqs t). 0 \<le> s"
  shows "cell_ok (placed t c)"
proof -
  have "shadow_ok (c\<lparr>pos := b_pos t\<rparr>)" using assms(1) by (simp add: cell_ok_def)
  then have "shadow_ok (placed t c)"
    using assms(4) unfolding placed_def by (rule shadow_ok_fold_add_seq)
  then show ?thesis using assms(2,3) by (simp add: cell_ok_def)
qed

subsection \<open>The cells and the index after a placement\<close>

lemma place_seq_eq [simp]:
  "place_seq k p s (cs, idx, te) = (cs[k := add_seq s (cs ! k)], note_add s p k idx, te + 1)"
  by (simp add: place_seq_def)

lemma place_seqs_cells:
  "k < length cs \<Longrightarrow> fst (fold (place_seq k p) ss (cs, idx, te)) = cs[k := fold add_seq ss (cs ! k)]"
  by (induction ss arbitrary: cs idx te) simp_all

lemma place_seqs_epoch:
  "snd (snd (fold (place_seq k p) ss (cs, idx, te))) = te + length ss"
  by (induction ss arbitrary: cs idx te) simp_all

lemma place_seqs_index:
  "valid (fst (snd (fold (place_seq k p) ss (cs, idx, te)))) = valid idx
   \<and> idx_epoch (fst (snd (fold (place_seq k p) ss (cs, idx, te)))) = idx_epoch idx"
  by (induction ss arbitrary: cs idx te) simp_all

lemma place_seqs_describes:
  assumes "describes idx cs" "valid idx" "\<forall>s \<in> set ss. 0 \<le> s" "0 \<le> p" "k < length cs" "pos (cs ! k) = p"
  shows "describes (fst (snd (fold (place_seq k p) ss (cs, idx, te)))) (cs[k := fold add_seq ss (cs ! k)])"
  using assms
proof (induction ss arbitrary: cs idx te)
  case (Cons s ss)
  have "describes (note_add s p k idx) (cs[k := add_seq s (cs ! k)])"
    by (rule describes_note_add) (use Cons.prems in auto)
  then have "describes (fst (snd (fold (place_seq k p) ss (cs[k := add_seq s (cs ! k)], note_add s p k idx, te + 1))))
      ((cs[k := add_seq s (cs ! k)])[k := fold add_seq ss (cs[k := add_seq s (cs ! k)] ! k)])"
    using Cons.prems by (intro Cons.IH) simp_all
  then show ?case using Cons.prems(5) by simp
qed simp

lemma place_token_eq:
  assumes "k < length cs"
  shows "fst (place_token k t (cs, idx, te)) = cs[k := placed t (cs ! k)]"
    and "snd (snd (place_token k t (cs, idx, te))) = te + length (b_seqs t)"
    and "valid (fst (snd (place_token k t (cs, idx, te)))) = valid idx"
    and "idx_epoch (fst (snd (place_token k t (cs, idx, te)))) = idx_epoch idx"
  using assms by (simp_all add: place_token_def place_seqs_cells place_seqs_epoch place_seqs_index placed_def)

lemma describes_pos_free:
  assumes "describes idx cs" "k < length cs" "seq_id (cs ! k) = {}"
  shows "describes idx (cs[k := (cs ! k)\<lparr>pos := p\<rparr>])"
proof -
  have "owned (cs[k := (cs ! k)\<lparr>pos := p\<rparr>]) t = owned cs t" for t
    using assms(2,3) by (simp add: owned_update owned_split[of k cs t])
  with assms(1) show ?thesis by (simp add: describes_def)
qed

lemma place_token_describes:
  assumes "describes idx cs" "valid idx" "k < length cs" "seq_id (cs ! k) = {}"
    and "0 \<le> b_pos t" "\<forall>s \<in> set (b_seqs t). 0 \<le> s"
  shows "describes (fst (snd (place_token k t (cs, idx, te)))) (fst (place_token k t (cs, idx, te)))"
proof -
  let ?cs = "cs[k := (cs ! k)\<lparr>pos := b_pos t\<rparr>]"
  have "describes idx ?cs" using assms(1,3,4) by (rule describes_pos_free)
  then have "describes (fst (snd (fold (place_seq k (b_pos t)) (b_seqs t) (?cs, idx, te))))
      (?cs[k := fold add_seq (b_seqs t) (?cs ! k)])"
    using assms by (intro place_seqs_describes) simp_all
  with assms(3) show ?thesis by (simp add: place_token_def place_seqs_cells)
qed

lemma place_batch_cells:
  assumes "h + length ts \<le> length cs"
  shows "length (fst (place_batch h ts (cs, idx, te))) = length cs"
    and "k < length cs \<Longrightarrow> fst (place_batch h ts (cs, idx, te)) ! k
      = (if h \<le> k \<and> k < h + length ts then placed (ts ! (k - h)) (cs ! k) else cs ! k)"
    and "snd (snd (place_batch h ts (cs, idx, te))) = te + sum_list (map (\<lambda>t. length (b_seqs t)) ts)"
    and "valid (fst (snd (place_batch h ts (cs, idx, te)))) = valid idx
       \<and> idx_epoch (fst (snd (place_batch h ts (cs, idx, te)))) = idx_epoch idx"
  using assms
proof (induction ts arbitrary: h cs idx te)
  case (Cons t ts)
  {
    case 1
    obtain cs' idx' te' where p: "place_token h t (cs, idx, te) = (cs', idx', te')" by (metis prod_cases3)
    with place_token_eq(1)[of h cs t idx te] 1 have "cs' = cs[h := placed t (cs ! h)]" by simp
    then show ?case using Cons.IH(1)[of "Suc h" cs' idx' te'] 1 p by simp
  next
    case 2
    obtain cs' idx' te' where p: "place_token h t (cs, idx, te) = (cs', idx', te')" by (metis prod_cases3)
    with place_token_eq(1)[of h cs t idx te] 2 have cs': "cs' = cs[h := placed t (cs ! h)]" by simp
    consider "k = h" | "k < h" | "h < k" by linarith
    then show ?case
    proof cases
      case 3
      then obtain m where "k - h = Suc m" "k - Suc h = m" by (cases "k - h") auto
      then show ?thesis using Cons.IH(2)[where cs = cs' and h = "Suc h" and idx = idx' and te = te'] 2 p cs' 3 by simp
    qed (use Cons.IH(2)[where cs = cs' and h = "Suc h" and idx = idx' and te = te'] 2 p cs' in simp_all)
  next
    case 3
    obtain cs' idx' te' where p: "place_token h t (cs, idx, te) = (cs', idx', te')" by (metis prod_cases3)
    with place_token_eq(1,2)[of h cs t idx te] 3
    have "cs' = cs[h := placed t (cs ! h)]" "te' = te + length (b_seqs t)" by simp_all
    then show ?case using Cons.IH(3)[of "Suc h" cs' idx' te'] 3 p by simp
  next
    case 4
    obtain cs' idx' te' where p: "place_token h t (cs, idx, te) = (cs', idx', te')" by (metis prod_cases3)
    with place_token_eq(1,3,4)[of h cs t idx te] 4
    have "cs' = cs[h := placed t (cs ! h)]" "valid idx' = valid idx" "idx_epoch idx' = idx_epoch idx" by simp_all
    then show ?case using Cons.IH(4)[of "Suc h" cs' idx' te'] 4 p by simp
  }
qed auto

lemma place_batch_describes:
  assumes "describes idx cs" "valid idx" "h + length ts \<le> length cs"
    and "\<forall>i < length ts. seq_id (cs ! (h + i)) = {}" "batch_ok ts"
  shows "describes (fst (snd (place_batch h ts (cs, idx, te)))) (fst (place_batch h ts (cs, idx, te)))"
  using assms
proof (induction ts arbitrary: h cs idx te)
  case (Cons t ts)
  obtain cs' idx' te' where p: "place_token h t (cs, idx, te) = (cs', idx', te')" by (metis prod_cases3)
  have h: "h < length cs" "seq_id (cs ! h) = {}" and t: "0 \<le> b_pos t" "\<forall>s \<in> set (b_seqs t). 0 \<le> s"
    using Cons.prems(3,4,5) by (auto simp: batch_ok_def)
  have d: "describes idx' cs'"
    using place_token_describes[OF Cons.prems(1,2) h t, of te] p by simp
  have cs': "cs' = cs[h := placed t (cs ! h)]" and v: "valid idx'"
    using place_token_eq[OF h(1), of t idx te] p Cons.prems(2) by simp_all
  have "\<forall>i < length ts. seq_id (cs' ! (Suc h + i)) = {}"
    using Cons.prems(4) unfolding cs' by auto
  moreover have "batch_ok ts" using Cons.prems(5) by (simp add: batch_ok_def)
  ultimately have "describes (fst (snd (place_batch (Suc h) ts (cs', idx', te'))))
      (fst (place_batch (Suc h) ts (cs', idx', te')))"
    using d v Cons.prems(3) cs' by (intro Cons.IH) simp_all
  with p show ?case by simp
qed simp

subsection \<open>The cache after a placement\<close>

text \<open>The state both allocators leave when they have chosen the run that starts at \<open>h\<close>; \<open>w\<close> says
  whether the memo of the highest cell is widened.\<close>

definition after_place :: "bool \<Rightarrow> nat \<Rightarrow> batch_tok list \<Rightarrow> kv_cache \<Rightarrow> kv_cache" where
  "after_place w h ts c =
     (let was = in_sync (tag_epoch c) (seq_index c);
          (cs, idx, te) = place_batch h ts (cells c, seq_index c, tag_epoch c)
      in cell_max_widen w (h + length ts)
           (c\<lparr>head := h, cells := cs, seq_index := index_edit_close was te idx,
              tag_epoch := te, used := used c + of_nat (length ts)\<rparr>))"

lemma cell_max_widen_sel [simp]:
  "cells (cell_max_widen w hi c) = cells c" "head (cell_max_widen w hi c) = head c"
  "size (cell_max_widen w hi c) = size c" "used (cell_max_widen w hi c) = used c"
  "recurrent (cell_max_widen w hi c) = recurrent c" "seq_index (cell_max_widen w hi c) = seq_index c"
  "tag_epoch (cell_max_widen w hi c) = tag_epoch c" "cmax_data (cell_max_widen w hi c) = cmax_data c"
  "cmax_size (cell_max_widen w hi c) = cmax_size c" "cells_data (cell_max_widen w hi c) = cells_data c"
  by (simp_all add: cell_max_widen_def)

lemma after_place_sel [simp]:
  "cells (after_place w h ts c) = fst (place_batch h ts (cells c, seq_index c, tag_epoch c))"
  "head (after_place w h ts c) = h" "size (after_place w h ts c) = size c"
  "used (after_place w h ts c) = used c + of_nat (length ts)"
  "recurrent (after_place w h ts c) = recurrent c"
  "tag_epoch (after_place w h ts c) = snd (snd (place_batch h ts (cells c, seq_index c, tag_epoch c)))"
  by (simp_all add: after_place_def case_prod_beta Let_def)

definition placed_rows :: "nat \<Rightarrow> batch_tok list \<Rightarrow> int \<Rightarrow> (nat \<times> int) set" where
  "placed_rows h ts s = {(h + j, b_pos (ts ! j)) | j. j < length ts \<and> s \<in> set (b_seqs (ts ! j))}"

lemma free_run_empty:
  assumes "kv_inv c" "free_run (cells c) n h" "i < n"
  shows "seq_id (cells c ! (h + i)) = {}" and "\<not> live (cells c ! (h + i))"
proof -
  have "cell_ok (cells c ! (h + i))" using assms by (intro kv_inv_cell) (auto simp: free_run_def)
  moreover show "\<not> live (cells c ! (h + i))" using assms(2,3) by (auto simp: live_def free_run_def)
  ultimately show "seq_id (cells c ! (h + i)) = {}" by (simp add: cell_ok_live)
qed

lemma after_place_nth:
  assumes "free_run (cells c) (length ts) h" "k < length (cells c)"
  shows "cells (after_place w h ts c) ! k
    = (if h \<le> k \<and> k < h + length ts then placed (ts ! (k - h)) (cells c ! k) else cells c ! k)"
  using assms by (simp add: place_batch_cells(2) free_run_def)

lemma kv_view_after_place:
  assumes "kv_inv c" "free_run (cells c) (length ts) h"
  shows "kv_view (after_place w h ts c) s = kv_view c s \<union> placed_rows h ts s"
proof -
  have run: "h + length ts \<le> length (cells c)" using assms(2) by (simp add: free_run_def)
  have "(i, p) \<in> kv_view (after_place w h ts c) s \<longleftrightarrow> (i, p) \<in> kv_view c s \<or> (i, p) \<in> placed_rows h ts s" for i p
  proof (cases "h \<le> i \<and> i < h + length ts")
    case True
    then obtain j where j: "i = h + j" "j < length ts" by (metis add_less_cancel_left le_add_diff_inverse)
    then have i: "i < length (cells c)" using run by simp
    have e: "seq_id (cells c ! i) = {}" using free_run_empty(1)[OF assms j(2)] j(1) by simp
    show ?thesis
      using e True i j run after_place_nth[OF assms(2) i, of w]
      by (auto simp: kv_view_iff placed_rows_def place_batch_cells(1))
  next
    case False
    then have "(i, p) \<notin> placed_rows h ts s" by (auto simp: placed_rows_def)
    moreover have "length (cells (after_place w h ts c)) = length (cells c)"
      using run by (simp add: place_batch_cells(1))
    ultimately show ?thesis
      using False after_place_nth[OF assms(2), of i w] by (auto simp: kv_view_iff)
  qed
  then show ?thesis by auto
qed

lemma n_live_after_place:
  assumes "kv_inv c" "free_run (cells c) (length ts) h" "batch_ok ts"
  shows "n_live (cells (after_place w h ts c)) = n_live (cells c) + of_nat (length ts)"
proof -
  let ?L = "{i. i < length (cells c) \<and> live (cells c ! i)}"
  have run: "h + length ts \<le> length (cells c)" using assms(2) by (simp add: free_run_def)
  have len: "length (cells (after_place w h ts c)) = length (cells c)"
    using run by (simp add: place_batch_cells(1))
  have ok: "0 \<le> b_pos (ts ! j)" if "j < length ts" for j using assms(3) that by (simp add: batch_ok_def)
  have "live (cells (after_place w h ts c) ! i) \<longleftrightarrow> live (cells c ! i) \<or> i \<in> {h..<h + length ts}"
    if "i < length (cells c)" for i
    using after_place_nth[OF assms(2) that, of w] ok[of "i - h"] by (auto simp: live_def)
  then have "{i. i < length (cells c) \<and> live (cells (after_place w h ts c) ! i)} = ?L \<union> {h..<h + length ts}"
    using run by auto
  moreover have "?L \<inter> {h..<h + length ts} = {}"
  proof -
    have "\<not> live (cells c ! i)" if "i \<in> {h..<h + length ts}" for i
    proof -
      have "i - h < length ts" "h + (i - h) = i" using that by auto
      with free_run_empty(2)[OF assms(1,2), of "i - h"] show ?thesis by simp
    qed
    then show ?thesis by blast
  qed
  ultimately have "card {i. i < length (cells c) \<and> live (cells (after_place w h ts c) ! i)}
      = card ?L + length ts" by (simp add: card_Un_disjoint)
  then show ?thesis unfolding n_live_card len by simp
qed

lemma batch_epoch:
  assumes "batch_ok ts"
  shows "ts = [] \<or> 0 < sum_list (map (\<lambda>t. length (b_seqs t)) ts)"
  using assms by (cases ts) (auto simp: batch_ok_def)

lemma index_ok_after_place:
  assumes "kv_inv c" "free_run (cells c) (length ts) h" "batch_ok ts"
  shows "index_ok (after_place w h ts c)"
proof -
  let ?te = "tag_epoch c" and ?te' = "tag_epoch c + sum_list (map (\<lambda>t. length (b_seqs t)) ts)"
  let ?r = "place_batch h ts (cells c, seq_index c, ?te)"
  have run: "h + length ts \<le> length (cells c)" using assms(2) by (simp add: free_run_def)
  have te: "snd (snd ?r) = ?te'" and v: "valid (fst (snd ?r)) = valid (seq_index c)"
    and ep: "idx_epoch (fst (snd ?r)) = idx_epoch (seq_index c)"
    using place_batch_cells(3,4)[OF run] by auto
  have sel: "seq_index (after_place w h ts c)
      = index_edit_close (in_sync ?te (seq_index c)) ?te' (fst (snd ?r))"
    using te by (simp add: after_place_def case_prod_beta Let_def)
  show ?thesis
  proof (cases "in_sync ?te (seq_index c)")
    case True
    then have "describes (seq_index c) (cells c)" "valid (seq_index c)"
      using assms(1) by (simp_all add: kv_inv_def index_ok_def in_sync_def)
    then have "describes (fst (snd ?r)) (fst ?r)"
      by (rule place_batch_describes[OF _ _ run])
        (use free_run_empty(1)[OF assms(1,2)] assms(3) in auto)
    with True sel te show ?thesis by (simp add: index_ok_def index_edit_close_def describes_def)
  next
    case False
    have le: "valid (seq_index c) \<longrightarrow> idx_epoch (seq_index c) \<le> ?te"
      using assms(1) by (simp add: kv_inv_def index_ok_def)
    have "\<not> in_sync ?te' (fst (snd ?r))" if "ts \<noteq> []"
      using batch_epoch[OF assms(3)] that le v ep by (auto simp: in_sync_def)
    moreover have "?te' = ?te \<and> fst (snd ?r) = seq_index c" if "ts = []" using that by simp
    ultimately have "\<not> in_sync ?te' (fst (snd ?r))" using False by (cases "ts = []") auto
    then show ?thesis using False sel te v ep le by (auto simp: index_ok_def index_edit_close_def)
  qed
qed

lemma memo_ok_after_place:
  assumes "kv_inv c" "free_run (cells c) (length ts) h" "batch_ok ts" "w \<longrightarrow> cmax_in_sync c"
  shows "memo_ok (after_place w h ts c)"
proof -
  let ?c = "after_place w h ts c"
  have run: "h + length ts \<le> length (cells c)" using assms(2) by (simp add: free_run_def)
  have te: "tag_epoch ?c = tag_epoch c + sum_list (map (\<lambda>t. length (b_seqs t)) ts)"
    using place_batch_cells(3)[OF run] by simp
  have len: "length (cells ?c) = length (cells c)" using place_batch_cells(1)[OF run] by simp
  have data: "cmax_data ?c = cmax_data c" "cells_data ?c = cells_data c" "cmax_size ?c = cmax_size c"
    by (simp_all add: after_place_def case_prod_beta Let_def)
  have mo: "memo_ok c" and sz: "length (cells c) = size c"
    using assms(1) by (simp_all add: kv_inv_def)
  show ?thesis
  proof (cases w)
    case True
    have ub: "cmax_ub ?c = max (cmax_ub c) (min (h + length ts) (size c))" "cmax_epoch ?c = tag_epoch ?c"
      using True by (simp_all add: after_place_def cell_max_widen_def case_prod_beta Let_def)
    have "cmax_in_sync c" using assms(4) True by simp
    then have dead: "\<not> live (cells c ! i)" if "cmax_ub c \<le> i" "i < size c" for i
      using that mo by (simp add: memo_ok_def)
    have "\<not> live (cells ?c ! i)" if "cmax_ub ?c \<le> i" "i < size c" for i
      using that dead after_place_nth[OF assms(2), of i w] run sz unfolding ub(1) by simp
    with ub(2) show ?thesis by (simp add: memo_ok_def)
  next
    case False
    have ub: "cmax_ub ?c = cmax_ub c" "cmax_epoch ?c = cmax_epoch c"
      using False by (simp_all add: after_place_def cell_max_widen_def case_prod_beta Let_def)
    have le: "cmax_data c \<noteq> None \<longrightarrow> cmax_epoch c \<le> tag_epoch c" using mo by (simp add: memo_ok_def)
    show ?thesis
    proof (cases "ts = []")
      case True
      then have "cells ?c = cells c" "cmax_in_sync ?c = cmax_in_sync c"
        using ub data te by (simp_all add: cmax_in_sync_def)
      with mo ub data te le show ?thesis by (auto simp: memo_ok_def)
    next
      case False
      then have "tag_epoch c < tag_epoch ?c" using batch_epoch[OF assms(3)] te by auto
      with ub data le have "\<not> cmax_in_sync ?c" by (auto simp: cmax_in_sync_def)
      with ub data le \<open>tag_epoch c < tag_epoch ?c\<close> show ?thesis by (auto simp: memo_ok_def)
    qed
  qed
qed

lemma kv_inv_after_place:
  assumes "kv_inv c" "free_run (cells c) (length ts) h" "batch_ok ts" "w \<longrightarrow> cmax_in_sync c"
  shows "kv_inv (after_place w h ts c)"
proof -
  let ?c = "after_place w h ts c"
  have run: "h + length ts \<le> length (cells c)" using assms(2) by (simp add: free_run_def)
  have len: "length (cells ?c) = length (cells c)" using place_batch_cells(1)[OF run] by simp
  have "cell_ok (cells ?c ! i)" if "i < length (cells c)" for i
  proof (cases "h \<le> i \<and> i < h + length ts")
    case True
    then have "ts ! (i - h) \<in> set ts" by auto
    with assms(3) have "cell_ok (placed (ts ! (i - h)) (cells c ! i))"
      by (intro cell_ok_placed kv_inv_cell[OF assms(1) that]) (auto simp: batch_ok_def)
    with True show ?thesis using after_place_nth[OF assms(2) that, of w] by simp
  next
    case False
    then show ?thesis using after_place_nth[OF assms(2) that, of w] kv_inv_cell[OF assms(1) that] by auto
  qed
  then have "\<forall>x \<in> set (cells ?c). cell_ok x" using len by (metis in_set_conv_nth)
  moreover have "used ?c = n_live (cells ?c)"
    using n_live_after_place[OF assms(1-3)] assms(1) by (simp only: kv_inv_def after_place_sel)
  ultimately show ?thesis
    using assms run len index_ok_after_place[OF assms(1-3), of w] memo_ok_after_place[OF assms]
    by (simp add: kv_inv_def)
qed

subsection \<open>The engine's allocator\<close>

lemma find_slot_cases:
  assumes "kv_inv c"
  obtains "find_slot ab ts c = Some (False, c)" "size c < length ts"
  | h where "find_slot ab ts c = Some (False, c\<lparr>head := h\<rparr>)" "h \<le> size c"
  | h where "find_slot ab ts c = Some (True, after_place (cmax_in_sync c) h ts c)"
      "free_run (cells c) (length ts) h"
proof (cases "size c < length ts")
  case True
  with assms that(1) show ?thesis by (simp add: find_slot_def Let_def kv_inv_def)
next
  case False
  define al where "al = (ab > 1 \<and> length ts > 0 \<and> b_pos (hd ts) = 0)"
  define ht where "ht = (if al then align_probe ab (size c) (length ts) (head c, 0) else (head c, 0))"
  have sz: "length (cells c) = size c" "head c \<le> size c" "\<not> recurrent c" using assms by (simp_all add: kv_inv_def)
  have "fst ht \<le> size c"
    using align_probe_bounds(2)[of "fst ht" "snd ht" ab "size c" "length ts" "head c" 0] sz(2)
    by (simp add: ht_def split: if_splits)
  have "length ts \<le> length (cells c)" using False sz by simp
  from slot_search_returns[OF this] obtain r
    where r: "slot_search (if al then ab else 0) (cells c) (length ts) (fst ht) (snd ht) = Some r" by blast
  from slot_search_sound[OF r] \<open>fst ht \<le> size c\<close> sz
  have s: "fst r \<longrightarrow> free_run (cells c) (length ts) (snd r)" "snd r \<le> size c" by simp_all
  have cm: "cmax_in_sync (c\<lparr>head := h\<rparr>) = cmax_in_sync c" for h by (simp add: cmax_in_sync_def)
  have ht': "(if al then align_probe ab (size c) (length ts) (head c, 0) else (head c, 0)) = (fst ht, snd ht)"
    by (simp add: ht_def)
  have def: "find_slot ab ts c = (case r of (False, h') \<Rightarrow> Some (False, c\<lparr>head := h'\<rparr>)
      | (True, h') \<Rightarrow> Some (True, after_place (cmax_in_sync c) h' ts c))"
    using False sz r unfolding find_slot_def al_def[symmetric] Let_def ht' cm
    by (cases r) (auto simp: after_place_def case_prod_beta Let_def split: bool.splits)
  show ?thesis
  proof (cases "fst r")
    case True
    with def s that(3)[of "snd r"] show ?thesis by (cases r) auto
  next
    case False
    with def s that(2)[of "snd r"] show ?thesis by (cases r) auto
  qed
qed

lemma kv_inv_head: "kv_inv c \<Longrightarrow> h \<le> size c \<Longrightarrow> kv_inv (c\<lparr>head := h\<rparr>)"
  by (rule kv_inv_shrink[of c])
    (simp_all add: kv_inv_def index_ok_def)

lemma kv_view_head [simp]: "kv_view (c\<lparr>head := h\<rparr>) s = kv_view c s"
  by (simp add: kv_view_def)

text \<open>What the engine relies on in an allocator: it returns; a refusal changes no sequence; a
  success gives every token of the batch a free cell of its own and changes nothing else.\<close>

locale slot_allocator =
  fixes alloc :: "batch_tok list \<Rightarrow> kv_cache \<Rightarrow> (bool \<times> kv_cache) option"
  assumes alloc_returns: "kv_inv c \<Longrightarrow> alloc ts c \<noteq> None"
    and alloc_refuses: "kv_inv c \<Longrightarrow> alloc ts c = Some (False, c') \<Longrightarrow>
      kv_inv c' \<and> kv_view c' s = kv_view c s"
    and alloc_places: "kv_inv c \<Longrightarrow> batch_ok ts \<Longrightarrow> alloc ts c = Some (True, c') \<Longrightarrow>
      kv_inv c' \<and> size c' = size c \<and> free_run (cells c) (length ts) (head c')
      \<and> (\<forall>s. kv_view c' s = kv_view c s \<union> placed_rows (head c') ts s)"
begin

lemma alloc_inv:
  assumes "kv_inv c" "batch_ok ts" "alloc ts c = Some (b, c')"
  shows "kv_inv c'"
  using assms alloc_refuses[of c ts c'] alloc_places[of c ts c'] by (cases b) auto

lemma alloc_keeps:
  assumes "kv_inv c" "batch_ok ts" "alloc ts c = Some (b, c')"
  shows "kv_view c s \<subseteq> kv_view c' s"
  using assms alloc_refuses[of c ts c' s] alloc_places[of c ts c'] by (cases b) auto

text \<open>Sequences never share a new cell with an old one.\<close>

lemma alloc_fresh:
  assumes "kv_inv c" "batch_ok ts" "alloc ts c = Some (True, c')"
  shows "fst ` kv_view c s \<inter> fst ` placed_rows (head c') ts t = {}"
proof -
  have "free_run (cells c) (length ts) (head c')" using alloc_places[OF assms] by blast
  from free_run_empty(1)[OF assms(1) this] show ?thesis
    by (fastforce simp: kv_view_iff placed_rows_def)
qed

end

interpretation slots: slot_allocator "find_slot ab" for ab
proof (unfold_locales, goal_cases)
  case (1 c ts)
  then show ?case by (cases rule: find_slot_cases[OF 1, of ab ts]) auto
next
  case (2 c ts c' s)
  then show ?case by (cases rule: find_slot_cases[OF 2(1), of ab ts]) (auto intro: kv_inv_head)
next
  case (3 c ts c')
  show ?case
  proof (cases rule: find_slot_cases[OF 3(1), of ab ts])
    case (3 h)
    with \<open>find_slot ab ts c = Some (True, c')\<close>
    have c': "c' = after_place (cmax_in_sync c) h ts c" by simp
    show ?thesis
      unfolding c' using 3(2) kv_inv_after_place[OF \<open>kv_inv c\<close> 3(2) \<open>batch_ok ts\<close>]
      by (simp add: kv_view_after_place[OF \<open>kv_inv c\<close>, simplified] del: after_place_sel(1))
  qed (use 3 in auto)
qed

end
