(* ===== verification/KvOps.thy ===== *)
theory KvOps
  imports KvPlace
begin

section \<open>Copying, sharing, keeping and shifting\<close>

text \<open>
  The remaining operations on the unified cache: what each does to every sequence's view, and that
  each keeps the invariant.  They edit the cells in one or two sweeps and leave the position index
  invalid, so the invariant follows from the step rule \<open>kv_inv_shrink\<close> and four facts about the
  sweep: the element-wise effect, the count of occupied cells, the epoch and the head.
\<close>

definition in_window :: "int \<Rightarrow> int \<Rightarrow> nat \<times> int \<Rightarrow> bool" where
  "in_window p0 p1 e \<longleftrightarrow> p0 \<le> snd e \<and> snd e < p1"

lemma sweep_used:
  fixes m :: "'s \<Rightarrow> u32"
  assumes "\<And>i c st. m (snd (f i c st)) + (if live c then 1 else 0)
      = m st + (if live (fst (f i c st)) then 1 else 0)"
  shows "m (snd (sweep f i cs st)) + n_live cs = m st + n_live (fst (sweep f i cs st))"
  unfolding n_live_def by (rule sweep_balance) (rule assms)

lemma sweep_epoch:
  fixes m :: "'s \<Rightarrow> nat"
  assumes "\<And>i c st. m st \<le> m (snd (f i c st))"
  shows "m st \<le> m (snd (sweep f i cs st))"
proof -
  have "m st \<le> m (snd (sweep f i cs st))"
    by (rule sweep_inv[where P = "\<lambda>t. m st \<le> m t"]) (use assms le_trans in blast)+
  then show ?thesis .
qed

text \<open>The step rule for an operation that leaves the index invalid.\<close>

lemma kv_inv_unindexed:
  assumes "kv_inv c"
    and "recurrent c' = recurrent c" "size c' = size c" "cmax_ub c' = cmax_ub c"
    and "cmax_epoch c' = cmax_epoch c" "cmax_data c' = cmax_data c" "cmax_size c' = cmax_size c"
    and "cells_data c' = cells_data c" "\<not> valid (seq_index c')"
    and "length (cells c') = length (cells c)" "tag_epoch c \<le> tag_epoch c'" "head c' \<le> size c"
    and "\<And>i. i < length (cells c) \<Longrightarrow> cell_ok (cells c' ! i) \<and> (live (cells c' ! i) \<longrightarrow> live (cells c ! i))"
    and "used c' + n_live (cells c) = used c + n_live (cells c')"
  shows "kv_inv c'"
  by (rule kv_inv_shrink[OF assms(1-8,10-12) _ _ assms(14) index_ok_invalid[OF assms(9)]])
    (use assms(13) in auto)

lemma invalidate_valid [simp]: "\<not> valid (invalidate idx)"
  by (simp add: invalidate_def)

subsection \<open>Copy\<close>

lemma cp_sweep_nth:
  "k < length cs \<Longrightarrow> fst (sweep (cp_step s d p0 p1) 0 cs te) ! k
     = (if in_range_of s p0 p1 (cs ! k) then add_seq d (cs ! k) else cs ! k)"
  using sweep_nth[of "cp_step s d p0 p1" "\<lambda>i c. if in_range_of s p0 p1 c then add_seq d c else c" k cs 0 te]
  by (simp add: cp_step_def)

lemma seq_cp_plain:
  assumes "\<not> recurrent c" "\<not> has_qnext_state c"
  shows "seq_cp s d p0 p1 c = Some (c\<lparr>head := 0,
      cells := fst (sweep (cp_step s d (clamp_p0 p0) (clamp_p1 p1)) 0 (cells c) (tag_epoch c)),
      tag_epoch := snd (sweep (cp_step s d (clamp_p0 p0) (clamp_p1 p1)) 0 (cells c) (tag_epoch c)),
      seq_index := invalidate (seq_index c)\<rparr>)"
  using assms by (simp add: seq_cp_def has_qnext_state_def Let_def case_prod_beta)

lemma n_live_cong:
  assumes "length cs = length ds" "\<And>i. i < length cs \<Longrightarrow> live (cs ! i) = live (ds ! i)"
  shows "n_live cs = n_live ds"
proof -
  have "{i. i < length cs \<and> live (cs ! i)} = {i. i < length ds \<and> live (ds ! i)}"
    using assms by auto
  then show ?thesis by (simp add: n_live_card)
qed

text \<open>On a cache with state rows beside its cells the copy first redirects the row of the destination:
  it writes the row and the position of the cell whose index is the destination's id.
  \<open>cp_overwrites\<close> says that this write changes the position.\<close>

definition cp_redirects :: "int \<Rightarrow> int \<Rightarrow> kv_cache \<Rightarrow> bool" where
  "cp_redirects s d c \<longleftrightarrow> has_qnext_state c \<and> qnext_seq_id_in_range c d \<and> qnext_seq_id_in_range c s
     \<and> 0 \<le> d \<and> d < int (size c) \<and> 0 \<le> s \<and> s < int (size c)"

definition cp_row_pos :: "int \<Rightarrow> kv_cache \<Rightarrow> int" where
  "cp_row_pos s c = pos (cells c ! nat (src (cells c ! nat s)))"

definition cp_overwrites :: "int \<Rightarrow> int \<Rightarrow> kv_cache \<Rightarrow> bool" where
  "cp_overwrites s d c \<longleftrightarrow> cp_redirects s d c \<and> pos (cells c ! nat d) \<noteq> cp_row_pos s c"

definition cp_redirected :: "int \<Rightarrow> int \<Rightarrow> kv_cache \<Rightarrow> kv_cache" where
  "cp_redirected s d c =
     c\<lparr>seq_index := invalidate (seq_index c), do_copy := True,
       cells := (cells c)[nat d := (cells c ! nat d)\<lparr>src := src (cells c ! nat s), pos := cp_row_pos s c\<rparr>]\<rparr>"

lemma cp_redirected_sel [simp]:
  "cells (cp_redirected s d c) = (cells c)[nat d := (cells c ! nat d)\<lparr>src := src (cells c ! nat s), pos := cp_row_pos s c\<rparr>]"
  "tag_epoch (cp_redirected s d c) = tag_epoch c"
  "\<not> valid (seq_index (cp_redirected s d c))"
  "size (cp_redirected s d c) = size c" "recurrent (cp_redirected s d c) = recurrent c"
  by (simp_all add: cp_redirected_def)

lemma kv_inv_redirected:
  assumes "kv_inv c" "cp_redirects s d c" "\<not> cp_overwrites s d c"
  shows "kv_inv (cp_redirected s d c)"
proof -
  have p: "cp_row_pos s c = pos (cells c ! nat d)" using assms by (simp add: cp_overwrites_def)
  have ok: "cell_ok (cells (cp_redirected s d c) ! i)
      \<and> live (cells (cp_redirected s d c) ! i) = live (cells c ! i)" if "i < length (cells c)" for i
    using kv_inv_cell[OF assms(1) that] that
    by (cases "i = nat d") (simp_all add: p cell_ok_def shadow_ok_def live_def)
  have "n_live (cells (cp_redirected s d c)) = n_live (cells c)"
    by (rule n_live_cong) (use ok in auto)
  moreover have "head c \<le> size c" using assms(1) by (simp add: kv_inv_def)
  ultimately show ?thesis
    by (intro kv_inv_unindexed[OF assms(1)]) (use ok in \<open>simp_all add: cp_redirected_def\<close>)
qed

lemma kv_inv_invalidated: "kv_inv c \<Longrightarrow> kv_inv (c\<lparr>seq_index := invalidate (seq_index c)\<rparr>)"
  by (auto simp: kv_inv_def index_ok_def memo_ok_def in_sync_def cmax_in_sync_def)

lemma qnext_unindexed [simp]:
  "has_qnext_state (c\<lparr>seq_index := x\<rparr>) = has_qnext_state c"
  "qnext_seq_id_in_range (c\<lparr>seq_index := x\<rparr>) s = qnext_seq_id_in_range c s"
  by (simp_all add: has_qnext_state_def qnext_seq_id_in_range_def qnext_plane_rows_def)

definition cp_swept :: "int \<Rightarrow> int \<Rightarrow> int \<Rightarrow> int \<Rightarrow> kv_cache \<Rightarrow> kv_cache" where
  "cp_swept s d p0 p1 e =
     e\<lparr>head := 0, cells := fst (sweep (cp_step s d (clamp_p0 p0) (clamp_p1 p1)) 0 (cells e) (tag_epoch e)),
       tag_epoch := snd (sweep (cp_step s d (clamp_p0 p0) (clamp_p1 p1)) 0 (cells e) (tag_epoch e))\<rparr>"

lemma seq_cp_unredirected:
  assumes "\<not> recurrent c" "\<not> cp_redirects s d c"
  shows "seq_cp s d p0 p1 c = Some (cp_swept s d p0 p1 (c\<lparr>seq_index := invalidate (seq_index c)\<rparr>))"
  using assms by (auto simp: seq_cp_def cp_redirects_def cp_swept_def Let_def case_prod_beta)

lemma cp_redirected_eq:
  "cp_redirected s d c =
     (let cs = (cells c)[nat d := (cells c ! nat d)\<lparr>src := src (cells c ! nat s)\<rparr>] in
      c\<lparr>seq_index := invalidate (seq_index c),
        cells := cs[nat d := (cs ! nat d)\<lparr>pos := pos (cs ! nat (src (cells c ! nat s)))\<rparr>], do_copy := True\<rparr>)"
proof -
  let ?s = "src (cells c ! nat s)"
  let ?cs = "(cells c)[nat d := (cells c ! nat d)\<lparr>src := ?s\<rparr>]"
  have "pos (?cs ! nat ?s) = cp_row_pos s c"
    by (cases "nat d < length (cells c)") (auto simp: cp_row_pos_def nth_list_update list_update_beyond)
  moreover have "?cs[nat d := (?cs ! nat d)\<lparr>pos := q\<rparr>]
      = (cells c)[nat d := (cells c ! nat d)\<lparr>src := ?s, pos := q\<rparr>]" for q
    by (cases "nat d < length (cells c)") (simp_all add: list_update_beyond)
  ultimately show ?thesis by (simp add: cp_redirected_def Let_def)
qed

lemma seq_cp_redirected:
  assumes "\<not> recurrent c" "cp_redirects s d c"
  shows "seq_cp s d p0 p1 c =
    (if 0 \<le> src (cells c ! nat s) \<and> src (cells c ! nat s) < int (size c)
     then Some (cp_swept (src (cells c ! nat s)) d p0 p1 (cp_redirected s d c)) else None)"
  using assms unfolding cp_redirected_eq
  by (simp add: seq_cp_def cp_redirects_def cp_swept_def Let_def case_prod_beta)

lemma kv_inv_cp_swept:
  assumes "kv_inv c" "0 \<le> d" "\<not> valid (seq_index c)"
  shows "kv_inv (cp_swept s d p0 p1 c)"
proof -
  let ?r = "sweep (cp_step s d (clamp_p0 p0) (clamp_p1 p1)) 0 (cells c) (tag_epoch c)"
  have ok: "cell_ok (fst ?r ! i) \<and> live (fst ?r ! i) = live (cells c ! i)" if "i < length (cells c)" for i
    using kv_inv_cell[OF assms(1) that] cp_sweep_nth[OF that] assms(2)
    by (auto simp: cell_ok_def live_def shadow_ok_edits in_range_of_def clamp_p0_def split: if_splits)
  have "n_live (fst ?r) = n_live (cells c)" by (rule n_live_cong) (use ok in auto)
  moreover have "tag_epoch c \<le> snd ?r"
    by (rule sweep_epoch[where m = "\<lambda>t. t"]) (simp add: cp_step_def)
  ultimately show ?thesis
    by (intro kv_inv_unindexed[OF assms(1)]) (use ok assms(3) in \<open>simp_all add: cp_swept_def\<close>)
qed

lemma kv_inv_seq_cp:
  assumes "kv_inv c" "\<not> cp_overwrites s d c" "0 \<le> d" "seq_cp s d p0 p1 c = Some c'"
  shows "kv_inv c'"
proof -
  have nr: "\<not> recurrent c" using assms(1) by (simp add: kv_inv_def)
  show ?thesis
  proof (cases "cp_redirects s d c")
    case True
    with kv_inv_cp_swept[OF kv_inv_redirected[OF assms(1) True assms(2)] assms(3)]
      seq_cp_redirected[OF nr True, of p0 p1] assms(4)
    show ?thesis by (auto split: if_splits)
  next
    case False
    with kv_inv_cp_swept[OF kv_inv_invalidated[OF assms(1)] assms(3)]
      seq_cp_unredirected[OF nr False, of p0 p1] assms(4)
    show ?thesis by auto
  qed
qed

text \<open>A copy that does overwrite a position always does harm: either the cell held a token, which its
  owners then find at another position, or it was free and is now a cell without an owner that counts as
  occupied.\<close>

lemma cp_overwrites_breaks:
  assumes "kv_inv c" "cp_overwrites s d c" "seq_cp s d p0 p1 c = Some c'"
  shows "\<not> kv_inv c' \<or> (\<exists>t p. (nat d, p) \<in> kv_view c t \<and> (nat d, p) \<notin> kv_view c' t)"
proof -
  have nr: "\<not> recurrent c" and len: "length (cells c) = size c" using assms(1) by (simp_all add: kv_inv_def)
  have r: "cp_redirects s d c" and q: "pos (cells c ! nat d) \<noteq> cp_row_pos s c"
    using assms(2) by (simp_all add: cp_overwrites_def)
  obtain s' where c': "cells c' = fst (sweep (cp_step s' d (clamp_p0 p0) (clamp_p1 p1)) 0
      (cells (cp_redirected s d c)) (tag_epoch c))"
    using seq_cp_redirected[OF nr r, of p0 p1] assms(3) by (auto simp: cp_swept_def split: if_splits)
  have d: "nat d < length (cells c)" using r len by (auto simp: cp_redirects_def)
  let ?x = "(cells c ! nat d)\<lparr>src := src (cells c ! nat s), pos := cp_row_pos s c\<rparr>"
  have x: "cells c' ! nat d = (if in_range_of s' (clamp_p0 p0) (clamp_p1 p1) ?x then add_seq d ?x else ?x)"
    using cp_sweep_nth[of "nat d" "cells (cp_redirected s d c)"] d by (simp add: c')
  have len': "length (cells c') = length (cells c)" by (simp add: c')
  have px: "pos (cells c' ! nat d) = cp_row_pos s c" by (simp add: x)
  have okd: "cell_ok (cells c ! nat d)" by (rule kv_inv_cell[OF assms(1) d])
  show ?thesis
  proof (cases "seq_id (cells c ! nat d) = {}")
    case True
    then have "seq_id (cells c' ! nat d) = {}" by (simp add: x in_range_of_def)
    moreover have "cp_row_pos s c \<noteq> -1" using okd True q by (simp add: cell_ok_def)
    ultimately have "\<not> cell_ok (cells c' ! nat d)" using px by (simp add: cell_ok_def)
    then show ?thesis using kv_inv_cell[of c' "nat d"] d len' by auto
  next
    case False
    then obtain t where "t \<in> seq_id (cells c ! nat d)" by blast
    then have "(nat d, pos (cells c ! nat d)) \<in> kv_view c t" using d by (simp add: kv_view_iff)
    moreover have "(nat d, pos (cells c ! nat d)) \<notin> kv_view c' t" using px q by (simp add: kv_view_iff)
    ultimately show ?thesis by blast
  qed
qed

lemma kv_view_seq_cp:
  assumes "kv_inv c" "\<not> has_qnext_state c" "seq_cp s d p0 p1 c = Some c'"
  shows "kv_view c' t = kv_view c t \<union>
    (if t = d then {e \<in> kv_view c s. in_window (clamp_p0 p0) (clamp_p1 p1) e} else {})"
proof -
  have "\<not> recurrent c" using assms(1) by (simp add: kv_inv_def)
  from seq_cp_plain[OF this assms(2)] assms(3)
  have "cells c' = fst (sweep (cp_step s d (clamp_p0 p0) (clamp_p1 p1)) 0 (cells c) (tag_epoch c))"
    by auto
  then have len: "length (cells c') = length (cells c)"
    and nth: "\<And>i. i < length (cells c) \<Longrightarrow> cells c' ! i
      = (if in_range_of s (clamp_p0 p0) (clamp_p1 p1) (cells c ! i) then add_seq d (cells c ! i) else cells c ! i)"
    by (simp_all add: cp_sweep_nth)
  have "(i, p) \<in> kv_view c' t \<longleftrightarrow> (i, p) \<in> kv_view c t \<or>
      (t = d \<and> (i, p) \<in> kv_view c s \<and> in_window (clamp_p0 p0) (clamp_p1 p1) (i, p))" for i p
  proof (cases "i < length (cells c)")
    case True
    from nth[OF this] have "seq_id (cells c' ! i) = (if in_range_of s (clamp_p0 p0) (clamp_p1 p1) (cells c ! i)
        then insert d (seq_id (cells c ! i)) else seq_id (cells c ! i))" "pos (cells c' ! i) = pos (cells c ! i)"
      by simp_all
    with True len show ?thesis by (auto simp: kv_view_iff in_range_of_def in_window_def split: if_splits)
  qed (use len in \<open>simp add: kv_view_iff\<close>)
  then show ?thesis by auto
qed

subsection \<open>The exact-prefix fork\<close>

definition share_drop_cell :: "int \<Rightarrow> int \<Rightarrow> bool \<Rightarrow> nat \<Rightarrow> kv_cell \<Rightarrow> kv_cell" where
  "share_drop_cell d p1 q i c =
     (if 0 \<le> pos c \<and> pos c < p1 \<and> d \<in> seq_id c then rm_cell d q i c else c)"

definition share_add_cell :: "int \<Rightarrow> int \<Rightarrow> int \<Rightarrow> kv_cell \<Rightarrow> kv_cell" where
  "share_add_cell s d p1 c =
     (if 0 \<le> pos c \<and> pos c < p1 \<and> s \<in> seq_id c then add_seq d c else c)"

lemma share_drop_step_fst: "fst (share_drop_step n d p1 q i c acc) = share_drop_cell d p1 q i c"
  by (cases acc) (auto simp: share_drop_step_def share_drop_cell_def rm_cell_def Let_def)

lemma share_add_step_fst: "fst (share_add_step s d p1 i c acc) = share_add_cell s d p1 c"
  by (cases acc) (auto simp: share_add_step_def share_add_cell_def)

lemma share_drop_used:
  "fst (snd (share_drop_step n d p1 q i c acc)) + (if live c then 1 else 0)
     = fst acc + (if live (fst (share_drop_step n d p1 q i c acc)) then 1 else 0)"
  by (cases acc) (auto simp: share_drop_step_def live_def Let_def)

lemma share_drop_epoch: "snd (snd acc) \<le> snd (snd (snd (share_drop_step n d p1 q i c acc)))"
  by (cases acc) (auto simp: share_drop_step_def Let_def)

lemma share_add_epoch: "snd acc \<le> snd (snd (share_add_step s d p1 i c acc))"
  by (cases acc) (auto simp: share_add_step_def)

lemma cell_ok_share_drop: "cell_ok c \<Longrightarrow> cell_ok (share_drop_cell d p1 q i c)"
  using rm_cell_sel(3)[of c d q i] by (simp add: share_drop_cell_def)

lemma cell_ok_share_add:
  "cell_ok c \<Longrightarrow> 0 \<le> d \<Longrightarrow> cell_ok (share_add_cell s d p1 c) \<and> live (share_add_cell s d p1 c) = live c"
  by (auto simp: share_add_cell_def cell_ok_def live_def shadow_ok_edits split: if_splits)

lemma share_cell_sel:
  assumes "s \<noteq> d"
  shows "t \<in> seq_id (share_add_cell s d p1 (share_drop_cell d p1 q i c)) \<longleftrightarrow>
      (if 0 \<le> pos c \<and> pos c < p1 \<and> t = d then s \<in> seq_id c else t \<in> seq_id c)"
    and "t \<in> seq_id (share_add_cell s d p1 (share_drop_cell d p1 q i c)) \<Longrightarrow>
      pos (share_add_cell s d p1 (share_drop_cell d p1 q i c)) = pos c"
  using assms by (auto simp: share_add_cell_def share_drop_cell_def rm_cell_sel split: if_splits)

definition share_cells :: "int \<Rightarrow> int \<Rightarrow> int \<Rightarrow> kv_cache \<Rightarrow> kv_cell list" where
  "share_cells s d p1 c = fst (sweep (share_add_step s d p1) 0
      (fst (sweep (share_drop_step (size c) d p1 (has_qnext_state c)) 0 (cells c) (used c, size c, tag_epoch c)))
      (0, snd (snd (snd (sweep (share_drop_step (size c) d p1 (has_qnext_state c)) 0 (cells c)
         (used c, size c, tag_epoch c))))))"

lemma share_cells_nth:
  assumes "i < length (cells c)"
  shows "share_cells s d p1 c ! i
    = share_add_cell s d p1 (share_drop_cell d p1 (has_qnext_state c) i (cells c ! i))"
proof -
  let ?f = "share_drop_step (size c) d p1 (has_qnext_state c)"
  have "fst (sweep ?f 0 (cells c) st) ! i = share_drop_cell d p1 (has_qnext_state c) i (cells c ! i)" for st
    using sweep_nth[where f = ?f and i = 0, OF share_drop_step_fst assms] by simp
  then show ?thesis
    using sweep_nth[where f = "share_add_step s d p1" and g = "\<lambda>_. share_add_cell s d p1", OF share_add_step_fst]
      assms by (simp add: share_cells_def)
qed

lemma length_share_cells [simp]: "length (share_cells s d p1 c) = length (cells c)"
  by (simp add: share_cells_def)

lemma src_update_sel:
  assumes "i < length cs"
  shows "seq_id (cs[k := (cs ! k)\<lparr>src := j\<rparr>] ! i) = seq_id (cs ! i)"
    and "pos (cs[k := (cs ! k)\<lparr>src := j\<rparr>] ! i) = pos (cs ! i)"
    and "seq0 (cs[k := (cs ! k)\<lparr>src := j\<rparr>] ! i) = seq0 (cs ! i)"
  using assms by (cases "k = i", simp_all)+

lemma kv_view_share_prefix:
  assumes "kv_inv c" "0 \<le> s" "0 \<le> d" "s \<noteq> d" "0 < p1"
  shows "kv_view (snd (seq_share_prefix s d p1 c)) t =
    (if t = d then {e \<in> kv_view c d. p1 \<le> snd e} \<union> {e \<in> kv_view c s. snd e < p1} else kv_view c t)"
proof -
  let ?c = "snd (seq_share_prefix s d p1 c)"
  have cs: "cells ?c = share_cells s d p1 c \<or>
      cells ?c = (share_cells s d p1 c)[nat d := (share_cells s d p1 c ! nat d)\<lparr>src := d\<rparr>]"
    using assms by (simp add: seq_share_prefix_def kv_inv_def case_prod_beta Let_def share_cells_def)
  then have len: "length (cells ?c) = length (cells c)" by auto
  have sel: "seq_id (cells ?c ! i) = seq_id (share_cells s d p1 c ! i)"
      "pos (cells ?c ! i) = pos (share_cells s d p1 c ! i)" if "i < length (cells c)" for i
    using cs src_update_sel[of i "share_cells s d p1 c"] that by auto
  have "(i, p) \<in> kv_view ?c t \<longleftrightarrow> (i, p) \<in> (if t = d then {e \<in> kv_view c d. p1 \<le> snd e}
      \<union> {e \<in> kv_view c s. snd e < p1} else kv_view c t)" for i p
  proof (cases "i < length (cells c)")
    case True
    have ok: "cell_ok (cells c ! i)" by (rule kv_inv_cell[OF assms(1) True])
    then have nn: "u \<in> seq_id (cells c ! i) \<Longrightarrow> 0 \<le> pos (cells c ! i)" for u
      by (auto simp: cell_ok_def split: if_splits)
    show ?thesis
      using True len sel[OF True] share_cells_nth[OF True, of s d p1]
        share_cell_sel[OF assms(4), of t p1 "has_qnext_state c" i "cells c ! i"] nn[of s] nn[of d]
      by (simp add: kv_view_iff) (smt (verit, best))
  qed (use len in \<open>auto simp: kv_view_iff\<close>)
  then show ?thesis by (intro set_eqI) (auto split: if_splits)
qed

lemma kv_inv_share_prefix:
  assumes "kv_inv c"
  shows "kv_inv (snd (seq_share_prefix s d p1 c))"
proof (cases "s < 0 \<or> d < 0 \<or> s = d \<or> p1 \<le> 0")
  case True
  then show ?thesis using assms by (auto simp: seq_share_prefix_def)
next
  case False
  let ?c = "snd (seq_share_prefix s d p1 c)" and ?cs = "share_cells s d p1 c"
  let ?f = "share_drop_step (size c) d p1 (has_qnext_state c)" and ?g = "share_add_step s d p1"
  let ?r = "sweep ?f 0 (cells c) (used c, size c, tag_epoch c)"
  let ?q = "sweep ?g 0 (fst ?r) (0, snd (snd (snd ?r)))"
  have sel: "recurrent ?c = recurrent c" "size ?c = size c" "cmax_ub ?c = cmax_ub c"
    "cmax_epoch ?c = cmax_epoch c" "cmax_data ?c = cmax_data c" "cmax_size ?c = cmax_size c"
    "cells_data ?c = cells_data c" "\<not> valid (seq_index ?c)" "head ?c \<le> size c"
    "used ?c = fst (snd ?r)" "tag_epoch ?c = snd (snd ?q)"
    "cells ?c = ?cs \<or> cells ?c = ?cs[nat d := (?cs ! nat d)\<lparr>src := d\<rparr>]"
    using assms False by (simp_all add: seq_share_prefix_def kv_inv_def case_prod_beta Let_def share_cells_def)
  have ok: "cell_ok (?cs ! i) \<and> live (?cs ! i) = live (fst ?r ! i) \<and> (live (?cs ! i) \<longrightarrow> live (cells c ! i))"
    if "i < length (cells c)" for i
  proof -
    have r: "fst ?r ! i = share_drop_cell d p1 (has_qnext_state c) i (cells c ! i)"
      using sweep_nth[OF share_drop_step_fst that] by simp
    have "cell_ok (share_drop_cell d p1 (has_qnext_state c) i (cells c ! i))"
      using kv_inv_cell[OF assms that] by (rule cell_ok_share_drop)
    moreover have "live (share_drop_cell d p1 (has_qnext_state c) i (cells c ! i)) \<Longrightarrow> live (cells c ! i)"
      by (auto simp: share_drop_cell_def live_def rm_cell_sel split: if_splits)
    ultimately show ?thesis
      using cell_ok_share_add False unfolding share_cells_nth[OF that] r by auto
  qed
  have same: "live (cells ?c ! i) = live (?cs ! i)" "cell_ok (cells ?c ! i) = cell_ok (?cs ! i)"
    if "i < length (cells c)" for i
    using sel(12) src_update_sel[of i ?cs] that by (auto simp: live_def cell_ok_def shadow_ok_def)
  have len: "length (cells ?c) = length (cells c)" using sel(12) by auto
  have "n_live (cells ?c) = n_live (fst ?r)" by (rule n_live_cong) (use same ok len in auto)
  moreover have "fst (snd ?r) + n_live (cells c) = used c + n_live (fst ?r)"
    using sweep_used[where f = ?f and m = fst, OF share_drop_used] by simp
  ultimately have used: "used ?c + n_live (cells c) = used c + n_live (cells ?c)" using sel(10) by simp
  have "tag_epoch c \<le> snd (snd (snd ?r))"
    using sweep_epoch[where f = ?f and m = "\<lambda>a. snd (snd a)", OF share_drop_epoch] by (metis snd_conv)
  also have "\<dots> \<le> snd (snd ?q)"
    using sweep_epoch[where f = ?g and m = snd, OF share_add_epoch] by (metis snd_conv)
  finally have "tag_epoch c \<le> tag_epoch ?c" using sel(11) by simp
  then show ?thesis
    by (intro kv_inv_unindexed[OF assms sel(1-8) len _ sel(9) _ used]) (use same ok in auto)
qed

text \<open>The number the fork reports is the number of cells it shared.\<close>

lemma share_add_count:
  "fst (snd (sweep (share_add_step s d p1) i cs (n, te)))
     = n + length (filter (\<lambda>c. 0 \<le> pos c \<and> pos c < p1 \<and> s \<in> seq_id c) cs)"
  by (induction cs arbitrary: i n te) (simp_all add: share_add_step_def case_prod_beta)

lemma share_prefix_count:
  assumes "kv_inv c" "0 \<le> s" "0 \<le> d" "s \<noteq> d" "0 < p1"
  shows "fst (seq_share_prefix s d p1 c) = int (card {e \<in> kv_view c s. snd e < p1})"
proof -
  let ?f = "share_drop_step (size c) d p1 (has_qnext_state c)"
  let ?r = "sweep ?f 0 (cells c) (used c, size c, tag_epoch c)"
  let ?hit = "\<lambda>c. 0 \<le> pos c \<and> pos c < p1 \<and> s \<in> seq_id c"
  have nth: "?hit (fst ?r ! i) = ?hit (cells c ! i)" if "i < length (cells c)" for i
  proof -
    have "fst ?r ! i = share_drop_cell d p1 (has_qnext_state c) i (cells c ! i)"
      using sweep_nth[where f = ?f and i = 0, OF share_drop_step_fst that] by simp
    then show ?thesis using assms(4) by (auto simp: share_drop_cell_def rm_cell_sel)
  qed
  have "fst (seq_share_prefix s d p1 c) = int (length (filter ?hit (fst ?r)))"
    using assms by (simp add: seq_share_prefix_def kv_inv_def case_prod_beta Let_def share_add_count)
  also have "length (filter ?hit (fst ?r)) = card {i. i < length (cells c) \<and> ?hit (cells c ! i)}"
    unfolding length_filter_nth using nth by (intro arg_cong[where f = card]) auto
  also have "\<dots> = card {e \<in> kv_view c s. snd e < p1}"
  proof (rule bij_betw_same_card[of "\<lambda>i. (i, pos (cells c ! i))"], rule bij_betwI')
    fix i assume "i \<in> {i. i < length (cells c) \<and> ?hit (cells c ! i)}"
    then show "(i, pos (cells c ! i)) \<in> {e \<in> kv_view c s. snd e < p1}" by (simp add: kv_view_iff)
  next
    fix e assume "e \<in> {e \<in> kv_view c s. snd e < p1}"
    with kv_view_pos[OF assms(1)]
    show "\<exists>i \<in> {i. i < length (cells c) \<and> ?hit (cells c ! i)}. e = (i, pos (cells c ! i))"
      by (cases e) (auto simp: kv_view_iff)
  qed auto
  finally show ?thesis .
qed

subsection \<open>Keeping one sequence\<close>

definition keep_cell :: "int \<Rightarrow> bool \<Rightarrow> nat \<Rightarrow> kv_cell \<Rightarrow> kv_cell" where
  "keep_cell s q i c = (if s \<in> seq_id c then add_seq s (clear_seq c) else clear_seq (free_cell q i c))"

lemma keep_step_fst: "fst (keep_step n s q i c acc) = keep_cell s q i c"
  by (cases acc) (auto simp: keep_step_def keep_cell_def)

lemma keep_used:
  "fst (snd (keep_step n s q i c acc)) + (if live c then 1 else 0)
     = fst acc + (if live (fst (keep_step n s q i c acc)) then 1 else 0)"
  by (cases acc) (auto simp: keep_step_def live_def)

lemma keep_epoch: "snd (snd acc) \<le> snd (snd (snd (keep_step n s q i c acc)))"
  by (cases acc) (auto simp: keep_step_def)

lemma keep_cell_ok:
  assumes "cell_ok c"
  shows "cell_ok (keep_cell s q i c) \<and> (live (keep_cell s q i c) \<longrightarrow> live c)"
proof (cases "s \<in> seq_id c")
  case True
  then have "0 \<le> s" "0 \<le> pos c" using assms by (auto simp: cell_ok_def shadow_ok_def split: if_splits)
  with True show ?thesis by (simp add: keep_cell_def cell_ok_def live_def shadow_ok_edits)
next
  case False
  then show ?thesis by (simp add: keep_cell_def cell_ok_def live_def shadow_ok_edits)
qed

lemma keep_nth:
  assumes "i < length (cells c)"
  shows "cells (seq_keep s c) ! i = keep_cell s (has_qnext_state c) i (cells c ! i)"
  using sweep_nth[where f = "keep_step (size c) s (has_qnext_state c)" and i = 0, OF keep_step_fst assms]
  by (simp add: seq_keep_def case_prod_beta)

lemma length_seq_keep [simp]: "length (cells (seq_keep s c)) = length (cells c)"
  by (simp add: seq_keep_def case_prod_beta)

lemma kv_inv_seq_keep:
  assumes "kv_inv c"
  shows "kv_inv (seq_keep s c)"
proof -
  let ?f = "keep_step (size c) s (has_qnext_state c)"
  let ?r = "sweep ?f 0 (cells c) (used c, size c, tag_epoch c)"
  have sel: "used (seq_keep s c) = fst (snd ?r)" "tag_epoch (seq_keep s c) = snd (snd (snd ?r))"
    "cells (seq_keep s c) = fst ?r"
    by (simp_all add: seq_keep_def case_prod_beta)
  have "used (seq_keep s c) + n_live (cells c) = used c + n_live (cells (seq_keep s c))"
    using sweep_used[where f = ?f and m = fst, OF keep_used] unfolding sel by simp
  moreover have "tag_epoch c \<le> tag_epoch (seq_keep s c)"
    using sweep_epoch[where f = ?f and m = "\<lambda>a. snd (snd a)", OF keep_epoch] unfolding sel by (metis snd_conv)
  moreover have "head (seq_keep s c) \<le> size c"
    using assms by (auto simp: seq_keep_def case_prod_beta kv_inv_def)
  ultimately show ?thesis
    using keep_cell_ok[OF kv_inv_cell[OF assms]] keep_nth[of _ c s]
    by (intro kv_inv_unindexed[OF assms]) (simp_all add: seq_keep_def case_prod_beta)
qed

lemma kv_view_seq_keep: "kv_view (seq_keep s c) t = (if t = s then kv_view c s else {})"
proof -
  have "(i, p) \<in> kv_view (seq_keep s c) t \<longleftrightarrow> t = s \<and> (i, p) \<in> kv_view c s" for i p
  proof (cases "i < length (cells c)")
    case True
    then show ?thesis using keep_nth[OF True, of s] by (auto simp: kv_view_iff keep_cell_def)
  qed (simp add: kv_view_iff)
  then show ?thesis by auto
qed

subsection \<open>Shifting and dividing positions\<close>

definition add_cell :: "int \<Rightarrow> int \<Rightarrow> int \<Rightarrow> int \<Rightarrow> kv_cell \<Rightarrow> kv_cell" where
  "add_cell s p0 p1 dlt c =
     (if in_range_of s p0 p1 c
      then let c' = c\<lparr>pos := pos c + dlt, delta := delta c + dlt\<rparr>
           in if pos c' < 0 then clear_seq (c'\<lparr>pos := -1\<rparr>) else c'
      else c)"

lemma add_step_fst: "fst (add_step n s p0 p1 dlt i c acc) = add_cell s p0 p1 dlt c"
  by (cases acc) (auto simp: add_step_def add_cell_def Let_def)

lemma add_used:
  assumes "0 \<le> p0"
  shows "fst (snd (snd (add_step n s p0 p1 dlt i c acc))) + (if live c then 1 else 0)
     = fst (snd acc) + (if live (fst (add_step n s p0 p1 dlt i c acc)) then 1 else 0)"
  using assms by (cases acc) (auto simp: add_step_def live_def Let_def in_range_of_def)

lemma add_epoch: "snd (snd (snd acc)) \<le> snd (snd (snd (snd (add_step n s p0 p1 dlt i c acc))))"
  by (cases acc) (auto simp: add_step_def Let_def)

lemma add_cell_ok:
  assumes "cell_ok c" "0 \<le> p0"
  shows "cell_ok (add_cell s p0 p1 dlt c) \<and> (live (add_cell s p0 p1 dlt c) \<longrightarrow> live c)"
  using assms by (auto simp: add_cell_def cell_ok_def live_def in_range_of_def Let_def shadow_ok_def
      split: if_splits)

lemma seq_add_plain:
  assumes "\<not> recurrent c" "clamp_p0 p0 \<noteq> clamp_p1 p1"
  shows "seq_add s p0 p1 dlt c =
     (let r = sweep (add_step (size c) s (clamp_p0 p0) (clamp_p1 p1) dlt) 0 (cells c)
                (has_shift c, used c, size c, tag_epoch c)
      in c\<lparr>seq_index := invalidate (seq_index c), cells := fst r, has_shift := fst (snd r),
           used := fst (snd (snd r)), tag_epoch := snd (snd (snd (snd r))),
           head := (if fst (snd (snd (snd r))) \<noteq> size c then fst (snd (snd (snd r))) else 0)\<rparr>)"
  using assms by (simp add: seq_add_def Let_def case_prod_beta)

lemma kv_inv_invalidate:
  assumes "kv_inv c"
  shows "kv_inv (c\<lparr>seq_index := invalidate (seq_index c)\<rparr>)"
  by (rule kv_inv_unindexed[OF assms]) (use assms kv_inv_cell in \<open>auto simp: kv_inv_def\<close>)

lemma kv_inv_seq_add:
  assumes "kv_inv c"
  shows "kv_inv (seq_add s p0 p1 dlt c)"
proof (cases "clamp_p0 p0 = clamp_p1 p1")
  case True
  then show ?thesis using kv_inv_invalidate[OF assms] by (simp add: seq_add_def Let_def)
next
  case False
  have p0: "0 \<le> clamp_p0 p0" by (simp add: clamp_p0_def)
  let ?f = "add_step (size c) s (clamp_p0 p0) (clamp_p1 p1) dlt"
  let ?r = "sweep ?f 0 (cells c) (has_shift c, used c, size c, tag_epoch c)"
  have nr: "\<not> recurrent c" and sz: "length (cells c) = size c" using assms by (simp_all add: kv_inv_def)
  note def = seq_add_plain[OF nr False, unfolded Let_def]
  have "fst (snd (snd ?r)) + n_live (cells c) = used c + n_live (fst ?r)"
    using sweep_used[where f = ?f and m = "\<lambda>a. fst (snd a)", OF add_used[OF p0]] by simp
  moreover have "tag_epoch c \<le> snd (snd (snd (snd ?r)))"
    using sweep_epoch[where f = ?f and m = "\<lambda>a. snd (snd (snd a))", OF add_epoch] by (metis snd_conv)
  moreover have "fst (snd (snd (snd ?r))) \<le> size c"
  proof (rule sweep_inv[where P = "\<lambda>a :: shift_acc. fst (snd (snd a)) \<le> size c"])
    fix k and a :: shift_acc
    assume "k < length (cells c)" "fst (snd (snd a)) \<le> size c"
    then show "fst (snd (snd (snd (?f (0 + k) (cells c ! k) a)))) \<le> size c"
      using sz by (cases a) (auto simp: add_step_def Let_def)
  qed simp
  moreover have "cell_ok (fst ?r ! i) \<and> (live (fst ?r ! i) \<longrightarrow> live (cells c ! i))"
    if "i < length (cells c)" for i
    using sweep_nth[where f = ?f and i = 0, OF add_step_fst that]
      add_cell_ok[OF kv_inv_cell[OF assms that] p0] by simp
  ultimately show ?thesis
    unfolding def by (intro kv_inv_unindexed[OF assms]) simp_all
qed

lemma kv_view_seq_add:
  assumes "kv_inv c"
  shows "kv_view (seq_add s p0 p1 dlt c) t =
    {e \<in> kv_view c t. \<not> (e \<in> kv_view c s \<and> in_window (clamp_p0 p0) (clamp_p1 p1) e)}
    \<union> {(i, p + dlt) | i p. (i, p) \<in> kv_view c t \<and> (i, p) \<in> kv_view c s
         \<and> in_window (clamp_p0 p0) (clamp_p1 p1) (i, p) \<and> 0 \<le> p + dlt}"
proof (cases "clamp_p0 p0 = clamp_p1 p1")
  case True
  then show ?thesis by (auto simp: seq_add_def Let_def kv_view_def in_window_def)
next
  case False
  have nr: "\<not> recurrent c" using assms by (simp add: kv_inv_def)
  note def = seq_add_plain[OF nr False, unfolded Let_def]
  have len: "length (cells (seq_add s p0 p1 dlt c)) = length (cells c)" by (simp add: def)
  have nth: "cells (seq_add s p0 p1 dlt c) ! i = add_cell s (clamp_p0 p0) (clamp_p1 p1) dlt (cells c ! i)"
    if "i < length (cells c)" for i
    using sweep_nth[where f = "add_step (size c) s (clamp_p0 p0) (clamp_p1 p1) dlt" and i = 0,
        OF add_step_fst that] by (simp add: def)
  have "(i, p) \<in> kv_view (seq_add s p0 p1 dlt c) t \<longleftrightarrow>
      (i, p) \<in> kv_view c t \<and> \<not> ((i, p) \<in> kv_view c s \<and> in_window (clamp_p0 p0) (clamp_p1 p1) (i, p))
      \<or> (i, p - dlt) \<in> kv_view c t \<and> (i, p - dlt) \<in> kv_view c s
         \<and> in_window (clamp_p0 p0) (clamp_p1 p1) (i, p - dlt) \<and> 0 \<le> p" for i p
  proof (cases "i < length (cells c)")
    case True
    show ?thesis
      using len nth[OF True] True
      by (auto simp: kv_view_iff add_cell_def in_range_of_def in_window_def Let_def)
  qed (use len in \<open>simp add: kv_view_iff\<close>)
  then show ?thesis by (intro set_eqI) (force split: prod.splits)
qed

end
