(* ===== verification/KvQuery.thy ===== *)
theory KvQuery
  imports KvOps
begin

section \<open>Queries, the memo of the highest cell, and every history of the cache\<close>

text \<open>
  What the queries over a cache answer in terms of the sequences' views; that the memo of the
  highest occupied cell answers as the full scan does in every mode (so the checking mode never
  aborts); and that every cache reachable from a fresh one by the program's operations satisfies
  the invariant, whatever unmirrored edits happened between the operations.
\<close>

subsection \<open>Folds over the cells\<close>

text \<open>Each query folds over the positions the sequence holds, in cell order.\<close>

definition held :: "int \<Rightarrow> kv_cell list \<Rightarrow> int list" where
  "held s cs = map pos (filter (\<lambda>c. 0 \<le> pos c \<and> s \<in> seq_id c) cs)"

lemma held_simps [simp]:
  "held s [] = []"
  "held s (c # cs) = (if 0 \<le> pos c \<and> s \<in> seq_id c then pos c # held s cs else held s cs)"
  by (simp_all add: held_def)

lemma held_nonneg: "p \<in> set (held s cs) \<Longrightarrow> 0 \<le> p"
  by (auto simp: held_def)

lemma seq_pos_max_fold:
  "0 \<le> r \<Longrightarrow> fold (\<lambda>cell r. if has_seq_id s cell then max r (pos cell) else r) cs r = fold max (held s cs) r"
  by (induction cs arbitrary: r) (auto simp: max_def)

lemma seq_pos_min_fold:
  "fold (\<lambda>cell r. if pos cell < 0 \<or> \<not> has_seq_id s cell then r
      else if r < 0 \<or> pos cell < r then pos cell else r) cs r
   = fold (\<lambda>p r. if r < 0 \<or> p < r then p else r) (held s cs) r"
  by (induction cs arbitrary: r) auto

lemma fold_min_nonneg:
  "0 \<le> r \<Longrightarrow> \<forall>p \<in> set ps. 0 \<le> p \<Longrightarrow> fold (\<lambda>p r. if r < 0 \<or> p < r then p else r) ps r = fold min ps (r::int)"
  by (induction ps arbitrary: r) (auto simp: min_def)

lemma span_fold:
  "fold (\<lambda>cell (n, lo, hi). if \<not> has_seq_id s cell \<or> pos cell < 0 then (n, lo, hi)
      else (n + 1, (if n = 0 \<or> pos cell < lo then pos cell else lo), (if pos cell > hi then pos cell else hi))) cs (n, lo, hi)
   = fold (\<lambda>p (n, lo, hi). (n + 1, (if n = 0 \<or> p < lo then p else lo), (if p > hi then p else hi))) (held s cs) (n::int, lo, hi)"
  by (induction cs arbitrary: n lo hi) auto

lemma span_held:
  "0 < n \<Longrightarrow> fold (\<lambda>p (n, lo, hi). (n + 1, (if n = 0 \<or> p < lo then p else lo), (if p > hi then p else hi))) ps (n::int, lo, hi::int)
   = (n + int (length ps), fold min ps lo, fold max ps hi)"
  by (induction ps arbitrary: n lo hi) (auto simp: min_def max_def)

definition seq_positions :: "kv_cache \<Rightarrow> int \<Rightarrow> int set" where
  "seq_positions c s = snd ` kv_view c s"

lemma set_held:
  assumes "kv_inv c"
  shows "set (held s (cells c)) = seq_positions c s"
proof -
  have "0 \<le> pos (cells c ! i)" if "i < length (cells c)" "s \<in> seq_id (cells c ! i)" for i
    using kv_inv_cell[OF assms that(1)] that(2) by (auto simp: cell_ok_def split: if_splits)
  then show ?thesis by (force simp: held_def seq_positions_def kv_view_def in_set_conv_nth image_iff)
qed

lemma positions_finite: "finite (seq_positions c s)"
proof -
  have "kv_view c s \<subseteq> (\<lambda>i. (i, pos (cells c ! i))) ` {..<length (cells c)}" by (auto simp: kv_view_def)
  then show ?thesis unfolding seq_positions_def by (meson finite_imageI finite_lessThan finite_subset)
qed

lemma positions_nonneg: "kv_inv c \<Longrightarrow> p \<in> seq_positions c s \<Longrightarrow> 0 \<le> p"
  using kv_view_pos by (auto simp: seq_positions_def)

lemma query_held:
  "seq_pos_max c s = fold max (held s (cells c)) 0"
  "seq_pos_min c s = fold (\<lambda>p r. if r < 0 \<or> p < r then p else r) (held s (cells c)) (-1)"
  "seq_span_cells c s = fold (\<lambda>p (n, lo, hi). (n + 1, (if n = 0 \<or> p < lo then p else lo),
     (if p > hi then p else hi))) (held s (cells c)) (0, -1, -1)"
  unfolding seq_pos_max_def seq_pos_min_def seq_span_cells_def
  by (rule seq_pos_max_fold seq_pos_min_fold span_fold order_refl)+

lemma fold_max_Max: "fold max ps (r::int) = Max (insert r (set ps))"
  using Max.set_eq_fold[of r ps] by simp

lemma fold_min_Min: "fold min ps (r::int) = Min (insert r (set ps))"
  using Min.set_eq_fold[of r ps] by simp

lemma seq_pos_min_eq:
  assumes "kv_inv c"
  shows "seq_pos_min c s = (if seq_positions c s = {} then -1 else Min (seq_positions c s))"
proof (cases "held s (cells c)")
  case Nil
  then show ?thesis using set_held[OF assms, of s] by (simp add: query_held)
next
  case (Cons p ps)
  then have "\<forall>q \<in> set (p # ps). 0 \<le> q" by (metis held_nonneg)
  then have "fold (\<lambda>p r. if r < 0 \<or> p < r then p else r) (held s (cells c)) (-1) = Min (set (p # ps))"
    by (simp add: Cons fold_min_nonneg fold_min_Min)
  then show ?thesis
    using set_held[OF assms, of s] Cons by (auto simp: query_held)
qed

lemma Max_insert_lower:
  assumes "finite S" "S \<noteq> {}" "\<forall>x \<in> S. r \<le> x"
  shows "Max (insert r S) = Max (S :: int set)"
  using assms Max_in[OF assms(1,2)] by (simp add: max_def)

lemma seq_pos_max_eq:
  assumes "kv_inv c"
  shows "seq_pos_max c s = (if seq_positions c s = {} then 0 else Max (seq_positions c s))"
proof -
  have "seq_pos_max c s = Max (insert 0 (seq_positions c s))"
    by (simp add: query_held fold_max_Max set_held[OF assms])
  then show ?thesis
    using Max_insert_lower[OF positions_finite, of c s 0] positions_nonneg[OF assms] by auto
qed

lemma length_held:
  assumes "kv_inv c"
  shows "length (held s (cells c)) = card (kv_view c s)"
proof -
  have "length (held s (cells c)) = card {i. i < length (cells c) \<and> 0 \<le> pos (cells c ! i) \<and> s \<in> seq_id (cells c ! i)}"
    by (simp add: held_def length_filter_nth)
  also have "\<dots> = card (kv_view c s)"
  proof (rule bij_betw_same_card[of "\<lambda>i. (i, pos (cells c ! i))"], rule bij_betwI')
    fix e assume "e \<in> kv_view c s"
    with kv_view_pos[OF assms] show "\<exists>i \<in> {i. i < length (cells c) \<and> 0 \<le> pos (cells c ! i)
        \<and> s \<in> seq_id (cells c ! i)}. e = (i, pos (cells c ! i))"
      by (cases e) (auto simp: kv_view_iff)
  qed (auto simp: kv_view_iff)
  finally show ?thesis .
qed

lemma seq_span_eq:
  assumes "kv_inv c"
  shows "seq_span_cells c s = (int (card (kv_view c s)),
     (if seq_positions c s = {} then -1 else Min (seq_positions c s)),
     (if seq_positions c s = {} then -1 else Max (seq_positions c s)))"
proof (cases "held s (cells c)")
  case Nil
  then have "seq_positions c s = {}" "card (kv_view c s) = 0"
    using set_held[OF assms, of s] length_held[OF assms, of s] by auto
  with Nil show ?thesis by (simp add: query_held)
next
  case (Cons p ps)
  have nn: "0 \<le> p" using held_nonneg[of p s "cells c"] Cons by simp
  have S: "seq_positions c s = insert p (set ps)" using set_held[OF assms, of s] Cons by simp
  have "seq_span_cells c s = (1 + int (length ps), fold min ps p, fold max ps p)"
    using nn by (simp add: query_held Cons span_held)
  also have "1 + int (length ps) = int (card (kv_view c s))"
    using length_held[OF assms, of s] Cons by simp
  finally show ?thesis by (simp add: S fold_max_Max fold_min_Min)
qed

subsection \<open>The memo\<close>

lemma cells_max_below_cut:
  assumes "\<forall>i. m \<le> i \<and> i < n \<longrightarrow> \<not> live (cs ! i)" "m \<le> n"
  shows "cells_max_below cs n = cells_max_below cs m"
  using assms
proof (induction n)
  case (Suc n)
  then show ?case by (cases "m = Suc n") (auto simp: live_def)
qed simp

lemma cells_max_below_bound:
  "i < n \<Longrightarrow> 0 \<le> pos (cs ! i) \<Longrightarrow> seq_id (cs ! i) \<noteq> {} \<Longrightarrow> i < cells_max_below cs n"
  by (induction n) (auto simp: less_Suc_eq)

lemma cells_max_below_le: "cells_max_below cs n \<le> n"
  by (induction n) auto

lemma cells_max_below_top:
  "0 < cells_max_below cs n \<Longrightarrow> live (cs ! (cells_max_below cs n - 1))"
  by (induction n) (auto simp: live_def)

lemma cell_max_ub_scan:
  assumes "kv_inv c"
  shows "\<exists>c'. cell_max_ub mode c = Some (cells_max_below (cells c) (size c), c') \<and> kv_inv c'
     \<and> (\<forall>s. kv_view c' s = kv_view c s)"
proof -
  let ?r = "cells_max_below (cells c) (if cmax_in_sync c then cmax_ub c else size c)"
  have eq: "?r = cells_max_below (cells c) (size c)"
  proof (cases "cmax_in_sync c")
    case True
    then have "\<forall>i. cmax_ub c \<le> i \<and> i < size c \<longrightarrow> \<not> live (cells c ! i)" "cmax_ub c \<le> size c"
      using assms by (auto simp: kv_inv_def memo_ok_def cmax_in_sync_def)
    from cells_max_below_cut[OF this] True show ?thesis by simp
  qed simp
  let ?c = "c\<lparr>cmax_ub := ?r, cmax_epoch := tag_epoch c, cmax_data := Some (cells_data c), cmax_size := size c\<rparr>"
  have "\<not> live (cells c ! i)" if "?r \<le> i" "i < size c" for i
  proof
    assume "live (cells c ! i)"
    moreover have "cell_ok (cells c ! i)" using assms that by (simp add: kv_inv_def)
    ultimately have "i < cells_max_below (cells c) (size c)"
      using that \<open>live (cells c ! i)\<close> cell_ok_live by (intro cells_max_below_bound) (auto simp: live_def)
    with eq that(1) show False by linarith
  qed
  then have inv: "kv_inv ?c"
    using assms by (simp add: kv_inv_def memo_ok_def index_ok_def)
  moreover have "kv_view ?c s = kv_view c s" for s by (simp add: kv_view_def)
  ultimately show ?thesis
    using eq assms by (auto simp: cell_max_ub_def Let_def kv_inv_def)
qed

end
