(* ===== verification/KvReach.thy ===== *)
theory KvReach
  imports KvQuery
begin

section \<open>Every history of the cache\<close>

text \<open>
  \<open>cache_step\<close> is one operation of the program on the cache, with the arguments the program may
  pass: batches name positions and ids that are not negative, copies a destination that is not
  negative, divisions a positive divisor.  Caches with recurrent state rows beside their cells are
  included (\<open>state_slots\<close> of the fresh cache is arbitrary); the one call left out is a copy on such a
  cache that overwrites the position of the cell with the destination's index, since that call is the
  defect \<open>cp_overwrites_breaks\<close> pins.  Purely recurrent caches, one cell per sequence, start from no
  fresh cache here.  \<open>foreign_edit\<close> stands for code outside the mirrored blocks (state restore, defragmentation):
  it may replace the cells by any well-formed cells, and it moves the tag epoch, because every edit
  of a cell's owners goes through \<open>add_seq\<close>, \<open>erase_seq\<close> or \<open>clear_seq\<close>.  Every reachable cache
  satisfies the invariant; in particular its position index describes the cells whenever
  \<open>in_sync\<close> says so, which is what makes the indexed removal safe.
\<close>

subsection \<open>Division of positions\<close>

lemma trunc_div_nonneg: "0 \<le> a \<Longrightarrow> 0 < b \<Longrightarrow> trunc_div a b = a div b"
  by (simp add: trunc_div_def sgn_if)

definition div_cell :: "int \<Rightarrow> int \<Rightarrow> int \<Rightarrow> int \<Rightarrow> kv_cell \<Rightarrow> kv_cell" where
  "div_cell s p0 p1 d c =
     (if in_range_of s p0 p1 c
      then c\<lparr>pos := trunc_div (pos c) d, delta := delta c + (trunc_div (pos c) d - pos c)\<rparr> else c)"

lemma div_step_fst: "fst (div_step s p0 p1 d i c sh) = div_cell s p0 p1 d c"
  by (simp add: div_step_def div_cell_def)

lemma div_cell_ok:
  assumes "cell_ok c" "0 \<le> p0" "0 < d"
  shows "cell_ok (div_cell s p0 p1 d c) \<and> live (div_cell s p0 p1 d c) = live c"
  using assms by (auto simp: div_cell_def cell_ok_def live_def in_range_of_def shadow_ok_def
      trunc_div_nonneg pos_imp_zdiv_nonneg_iff split: if_splits)

lemma seq_div_plain:
  assumes "\<not> recurrent c" "clamp_p0 p0 \<noteq> clamp_p1 p1"
  shows "seq_div s p0 p1 d c =
     (let r = sweep (div_step s (clamp_p0 p0) (clamp_p1 p1) d) 0 (cells c) (has_shift c)
      in c\<lparr>seq_index := invalidate (seq_index c), cells := fst r, has_shift := snd r\<rparr>)"
  using assms by (simp add: seq_div_def Let_def case_prod_beta)

lemma seq_div_none:
  "clamp_p0 p0 = clamp_p1 p1 \<Longrightarrow> seq_div s p0 p1 d c = c\<lparr>seq_index := invalidate (seq_index c)\<rparr>"
  by (simp add: seq_div_def Let_def)

lemma kv_inv_seq_div:
  assumes "kv_inv c" "0 < d"
  shows "kv_inv (seq_div s p0 p1 d c)"
proof (cases "clamp_p0 p0 = clamp_p1 p1")
  case True
  then show ?thesis using kv_inv_invalidate[OF assms(1)] by (simp add: seq_div_none)
next
  case False
  let ?f = "div_step s (clamp_p0 p0) (clamp_p1 p1) d"
  let ?r = "sweep ?f 0 (cells c) (has_shift c)"
  have nr: "\<not> recurrent c" using assms(1) by (simp add: kv_inv_def)
  note def = seq_div_plain[OF nr False, unfolded Let_def]
  have p0: "0 \<le> clamp_p0 p0" by (simp add: clamp_p0_def)
  have ok: "cell_ok (fst ?r ! i) \<and> live (fst ?r ! i) = live (cells c ! i)" if "i < length (cells c)" for i
    using sweep_nth[where f = ?f and i = 0, OF div_step_fst that]
      div_cell_ok[OF kv_inv_cell[OF assms(1) that] p0 assms(2)] by simp
  have "n_live (fst ?r) = n_live (cells c)" by (rule n_live_cong) (use ok in auto)
  then show ?thesis
    unfolding def using assms(1) ok by (intro kv_inv_unindexed[OF assms(1)]) (auto simp: kv_inv_def)
qed

lemma kv_view_seq_div:
  assumes "kv_inv c" "0 < d"
  shows "kv_view (seq_div s p0 p1 d c) t =
    (\<lambda>e. if e \<in> kv_view c s \<and> in_window (clamp_p0 p0) (clamp_p1 p1) e then (fst e, snd e div d) else e) ` kv_view c t"
proof (cases "clamp_p0 p0 = clamp_p1 p1")
  case True
  have "\<not> in_window (clamp_p1 p1) (clamp_p1 p1) e" for e by (simp add: in_window_def)
  with True show ?thesis by (simp add: seq_div_none kv_view_def)
next
  case False
  have nr: "\<not> recurrent c" using assms by (simp add: kv_inv_def)
  note def = seq_div_plain[OF nr False, unfolded Let_def]
  let ?c = "seq_div s p0 p1 d c"
  have len: "length (cells ?c) = length (cells c)" by (simp add: def)
  have nth: "cells ?c ! i = div_cell s (clamp_p0 p0) (clamp_p1 p1) d (cells c ! i)"
    if "i < length (cells c)" for i
    using sweep_nth[where f = "div_step s (clamp_p0 p0) (clamp_p1 p1) d" and i = 0,
        OF div_step_fst that] by (simp add: def)
  have p0: "0 \<le> clamp_p0 p0" by (simp add: clamp_p0_def)
  have alt: "kv_view x u = (\<lambda>i. (i, pos (cells x ! i))) ` {i. i < length (cells x) \<and> u \<in> seq_id (cells x ! i)}" for x u
    by (auto simp: kv_view_def)
  have "{i. i < length (cells ?c) \<and> t \<in> seq_id (cells ?c ! i)} = {i. i < length (cells c) \<and> t \<in> seq_id (cells c ! i)}"
  proof -
    have "seq_id (div_cell s p q d x) = seq_id x" for p q x by (simp add: div_cell_def)
    then show ?thesis using len nth by auto
  qed
  moreover have "(i, pos (cells ?c ! i)) = (\<lambda>e. if e \<in> kv_view c s \<and> in_window (clamp_p0 p0) (clamp_p1 p1) e
      then (fst e, snd e div d) else e) (i, pos (cells c ! i))"
    if "i < length (cells c)" for i
    using that nth[OF that] p0 assms(2)
    by (auto simp: kv_view_iff in_window_def div_cell_def in_range_of_def trunc_div_nonneg)
  ultimately show ?thesis
    unfolding alt[of ?c t] alt[of c t] image_image by (intro image_cong) auto
qed

subsection \<open>A fresh cache\<close>

definition fresh_cache :: "nat \<Rightarrow> nat \<Rightarrow> kv_cache" where
  "fresh_cache n slots =
     \<lparr>recurrent = False, has_shift = False, do_defrag = False, do_copy = False,
      head = 0, size = n, used = 0, kv_n = 0, cells = replicate n new_cell, seq_index = new_index,
      state_slots = slots, rs_plane_rows = 0, cmax_ub = 0, cmax_epoch = 0, cmax_data = None,
      cmax_size = 0, cells_data = 0, tag_epoch = 0\<rparr>"

lemma kv_inv_fresh: "kv_inv (fresh_cache n slots)"
proof -
  have "n_live (replicate n new_cell) = 0"
    by (rule n_live_none) (auto simp: live_def new_cell_def)
  then show ?thesis
    by (simp add: kv_inv_def fresh_cache_def index_ok_def memo_ok_def in_sync_def cmax_in_sync_def new_index_def)
qed

subsection \<open>Steps and reachable caches\<close>

inductive cache_step :: "kv_cache \<Rightarrow> kv_cache \<Rightarrow> bool" where
  step_clear: "cache_step c (kv_cache_clear c)"
| step_place: "batch_ok ts \<Longrightarrow> find_slot ab ts c = Some (b, c') \<Longrightarrow> cache_step c c'"
| step_rm: "cache_step c (snd (seq_rm en ck s p0 p1 c))"
| step_cp: "\<not> cp_overwrites s d c \<Longrightarrow> 0 \<le> d \<Longrightarrow> seq_cp s d p0 p1 c = Some c' \<Longrightarrow> cache_step c c'"
| step_share: "cache_step c (snd (seq_share_prefix s d p1 c))"
| step_keep: "cache_step c (seq_keep s c)"
| step_add: "cache_step c (seq_add s p0 p1 dlt c)"
| step_div: "0 < d \<Longrightarrow> cache_step c (seq_div s p0 p1 d c)"
| step_max: "cell_max_ub mode c = Some (r, c') \<Longrightarrow> cache_step c c'"
| step_rebuild: "cache_step c (rebuilt c)"
| foreign_edit: "length cs = size c \<Longrightarrow> \<forall>x \<in> set cs. cell_ok x \<Longrightarrow> tag_epoch c < te \<Longrightarrow>
    cache_step c (c\<lparr>cells := cs, used := n_live cs, tag_epoch := te\<rparr>)"

inductive reachable :: "kv_cache \<Rightarrow> bool" where
  reach_fresh: "reachable (fresh_cache n slots)"
| reach_step: "reachable c \<Longrightarrow> cache_step c c' \<Longrightarrow> reachable c'"

lemma kv_inv_foreign:
  assumes "kv_inv c" "length cs = size c" "\<forall>x \<in> set cs. cell_ok x" "tag_epoch c < te"
  shows "kv_inv (c\<lparr>cells := cs, used := n_live cs, tag_epoch := te\<rparr>)"
  using assms by (auto simp: kv_inv_def index_ok_def memo_ok_def in_sync_def cmax_in_sync_def)

lemma kv_inv_step:
  assumes "cache_step c c'" "kv_inv c"
  shows "kv_inv c'"
  using assms
proof (induction rule: cache_step.induct)
  case (step_place ts ab c b c')
  then show ?case by (blast intro: slots.alloc_inv)
next
  case (step_max mode c r c')
  from cell_max_ub_scan[OF step_max(2), of mode] step_max(1) show ?case by auto
qed (auto intro: kv_cache_clear_empty kv_inv_seq_rm kv_inv_seq_cp kv_inv_share_prefix kv_inv_seq_keep
    kv_inv_seq_add kv_inv_seq_div kv_inv_rebuilt kv_inv_foreign)

lemma kv_inv_reachable: "reachable c \<Longrightarrow> kv_inv c"
  by (induction rule: reachable.induct) (auto intro: kv_inv_fresh kv_inv_step)

end
