(* ===== verification/KvMain.thy ===== *)
theory KvMain
  imports KvReach
begin

section \<open>The main results on the KV cache\<close>

text \<open>
  The properties of the unified cache that the rest of the engine relies on, each with an
  application to a concrete cache: six cells, two of which hold the tokens of two sequences that
  share their first token.
\<close>

definition demo_cell :: "int \<Rightarrow> int set \<Rightarrow> kv_cell" where
  "demo_cell p S = sync_shadow (new_cell\<lparr>pos := p, seq_id := S\<rparr>)"

definition demo_cache :: kv_cache where
  "demo_cache = (fresh_cache 6 0)\<lparr>used := 3, head := 3,
     cells := [demo_cell 0 {0, 1}, demo_cell 1 {0}, demo_cell 1 {1}, new_cell, new_cell, new_cell]\<rparr>"

definition demo_batch :: "batch_tok list" where
  "demo_batch = [\<lparr>b_pos = 2, b_seqs = [0]\<rparr>, \<lparr>b_pos = 3, b_seqs = [0]\<rparr>]"

lemma demo_cell_ok: "finite S \<Longrightarrow> S \<noteq> {} \<Longrightarrow> \<forall>s \<in> S. 0 \<le> s \<Longrightarrow> 0 \<le> p \<Longrightarrow> cell_ok (demo_cell p S)"
  by (auto simp: demo_cell_def cell_ok_def shadow_ok_def new_cell_def)

lemma demo_cell_sel [simp]:
  "pos (demo_cell p S) = p" "seq_id (demo_cell p S) = S" "live (demo_cell p S) \<longleftrightarrow> 0 \<le> p"
  by (simp_all add: demo_cell_def live_def)

lemma new_cell_free [simp]: "\<not> live new_cell" "seq_id new_cell = {}" "pos new_cell = -1"
  by (simp_all add: live_def new_cell_def)

lemma demo_inv: "kv_inv demo_cache"
  by (simp add: kv_inv_def demo_cache_def fresh_cache_def demo_cell_ok n_live_def index_ok_def
      memo_ok_def in_sync_def cmax_in_sync_def new_index_def)

lemma demo_batch_ok: "batch_ok demo_batch"
  by (simp add: batch_ok_def demo_batch_def)

lemma kv_view_code:
  "kv_view c s = (\<lambda>i. (i, pos (cells c ! i))) ` set (filter (\<lambda>i. s \<in> seq_id (cells c ! i)) [0..<length (cells c)])"
  by (auto simp: kv_view_def)

lemma demo_view:
  "kv_view demo_cache 0 = {(0, 0), (1, 1)}" "kv_view demo_cache 1 = {(0, 0), (2, 1)}"
  "kv_view demo_cache 2 = {}"
  by (simp_all add: kv_view_code demo_cache_def fresh_cache_def upt_rec numeral_2_eq_2)

subsection \<open>Histories\<close>

text \<open>C1: every cache that follows from a fresh one, with or without recurrent state rows beside its
  cells but not purely recurrent, by any interleaving of clearing, placing batches (ids and positions
  not negative), removing ranges, copying (to an id that is not negative), sharing, keeping, shifting,
  dividing by a positive number, querying the highest cell, rebuilding the index and unmirrored edits
  (which leave well-formed cells and move the tag epoch), satisfies the cache invariant: \<open>used\<close> counts
  the occupied cells, and an index that reports itself in sync lists exactly the cells every sequence
  owns.  One call is left out: a copy on a cache with state rows that overwrites the position of the
  cell whose index is the destination's id.  The last clause says that this is no convenience: from
  every cache of such a history each call of that kind breaks the invariant or takes a token of some
  sequence away from its position.\<close>

theorem cache_reachable_inv:
  assumes "reachable c"
  shows "kv_inv c \<and> (in_sync (tag_epoch c) (seq_index c) \<longrightarrow> describes (seq_index c) (cells c))
    \<and> (\<forall>s d p0 p1 c'. cp_overwrites s d c \<and> seq_cp s d p0 p1 c = Some c' \<longrightarrow>
        \<not> kv_inv c' \<or> (\<exists>t p. (nat d, p) \<in> kv_view c t \<and> (nat d, p) \<notin> kv_view c' t))"
proof (intro conjI allI impI)
  have inv: "kv_inv c" by (rule kv_inv_reachable[OF assms])
  then show "kv_inv c" and "in_sync (tag_epoch c) (seq_index c) \<Longrightarrow> describes (seq_index c) (cells c)"
    by (simp_all add: kv_inv_def index_ok_def)
  show "\<not> kv_inv c' \<or> (\<exists>t p. (nat d, p) \<in> kv_view c t \<and> (nat d, p) \<notin> kv_view c' t)"
    if "cp_overwrites s d c \<and> seq_cp s d p0 p1 c = Some c'" for s d p0 p1 c'
    using cp_overwrites_breaks[OF inv] that by blast
qed

definition row_cache :: kv_cache where
  "row_cache = (fresh_cache 4 2)\<lparr>cells := [demo_cell 0 {0}, demo_cell 1 {0}, new_cell, new_cell],
     used := n_live [demo_cell 0 {0}, demo_cell 1 {0}, new_cell, new_cell], tag_epoch := 1\<rparr>"

lemma row_cache_reachable: "reachable row_cache"
  unfolding row_cache_def
proof (rule reach_step[OF reach_fresh[of 4 2]])
  let ?cs = "[demo_cell 0 {0}, demo_cell 1 {0}, new_cell, new_cell]"
  have "cell_ok new_cell" by (simp add: cell_ok_def shadow_ok_edits)
  then show "cache_step (fresh_cache 4 2) ((fresh_cache 4 2)\<lparr>cells := ?cs, used := n_live ?cs, tag_epoch := 1\<rparr>)"
    by (intro foreign_edit) (auto simp: fresh_cache_def demo_cell_ok)
qed

theorem cache_reachable_inv_witness:
  "kv_inv row_cache \<and> cp_overwrites 0 1 row_cache
   \<and> (\<exists>c'. seq_cp 0 1 (-1) (-1) row_cache = Some c' \<and>
        (\<not> kv_inv c' \<or> (\<exists>t p. (1, p) \<in> kv_view row_cache t \<and> (1, p) \<notin> kv_view c' t)))"
proof -
  have src: "src (demo_cell p S) = 0" for p S by (simp add: demo_cell_def new_cell_def)
  have ow: "cp_overwrites 0 1 row_cache"
    by (simp add: cp_overwrites_def cp_redirects_def cp_row_pos_def row_cache_def fresh_cache_def src
        has_qnext_state_def qnext_seq_id_in_range_def qnext_plane_rows_def)
  obtain c' where c': "seq_cp 0 1 (-1) (-1) row_cache = Some c'"
    by (simp add: seq_cp_def row_cache_def fresh_cache_def has_qnext_state_def
        qnext_seq_id_in_range_def qnext_plane_rows_def Let_def src case_prod_beta)
  show ?thesis
    using cache_reachable_inv[OF row_cache_reachable] ow c' by fastforce
qed

subsection \<open>Removal\<close>

text \<open>C3: a range removal, under every setting of the levers, answers success, drops from the
  sequence exactly the positions of the half-open range (from every sequence when the id is
  negative), leaves every other cell of every sequence in place, and keeps the invariant.\<close>

theorem seq_rm_removes_range:
  assumes "kv_inv c"
  shows "fst (seq_rm en ck s p0 p1 c) \<and> kv_inv (snd (seq_rm en ck s p0 p1 c))
    \<and> kv_view (snd (seq_rm en ck s p0 p1 c)) t
      = {e \<in> kv_view c t. \<not> ((s < 0 \<or> t = s) \<and> in_window (clamp_p0 p0) (clamp_p1 p1) e)}"
proof -
  have "fst (seq_rm en ck s p0 p1 c)" using seq_rm_removed[OF assms, of en ck s p0 p1] by auto
  with kv_inv_seq_rm[OF assms, of en ck s p0 p1] kv_view_seq_rm[OF assms, of en ck s p0 p1 t]
  show ?thesis unfolding in_window_def by blast
qed

theorem seq_rm_removes_range_witness:
  "kv_view (snd (seq_rm True True 0 1 (-1) demo_cache)) 0 = {(0, 0)}"
  unfolding conjunct2[OF conjunct2[OF seq_rm_removes_range[OF demo_inv]]]
  by (auto simp: demo_view in_window_def clamp_p0_def clamp_p1_def POS_MAX_def)

text \<open>C2: the indexed removal, with or without its checking mode, leaves the same cells, count,
  head and epoch as the scan over all cells; only the index itself differs.\<close>

theorem seq_rm_levers_agree:
  assumes "kv_inv c"
  shows "(snd (seq_rm True ck s p0 p1 c))\<lparr>seq_index := idx\<rparr>
       = (snd (seq_rm False False s p0 p1 c))\<lparr>seq_index := idx\<rparr>"
proof -
  have "(removed s a b i c)\<lparr>seq_index := idx\<rparr> = removed s a b idx c" for a b i
    by (simp add: removed_def case_prod_beta)
  then show ?thesis
    using seq_rm_removed[OF assms, of True ck s p0 p1] seq_rm_removed[OF assms, of False False s p0 p1]
    by auto
qed

theorem seq_rm_levers_agree_witness:
  "cells (snd (seq_rm True False 1 0 1 demo_cache)) = cells (snd (seq_rm False False 1 0 1 demo_cache))"
  using arg_cong[where f = cells, OF seq_rm_levers_agree[OF demo_inv, where ck = False and s = 1 and ?p0.0 = 0 and ?p1.0 = 1]] by simp

text \<open>The checking mode's verification of an index accepts exactly the indexes that list, for
  every sequence, the cells it owns.\<close>

theorem index_verify_decides:
  assumes "valid idx" "\<forall>s. sorted (map fst (seq_map idx s)) \<and> distinct (seq_map idx s)"
    and "kv_inv c"
  shows "index_verify idx (cells c) \<longleftrightarrow> describes idx (cells c)"
  using assms(1,2) kv_inv_finite[OF assms(3)] by (rule index_verify_exact)

theorem index_verify_decides_witness:
  "index_verify (index_rebuild 0 new_index (cells demo_cache)) (cells demo_cache)"
proof -
  let ?idx = "index_rebuild 0 new_index (cells demo_cache)"
  have d: "describes ?idx (cells demo_cache)" by (intro describes_rebuild kv_inv_finite demo_inv)
  have "valid ?idx" using rebuild_in_sync[of 0 new_index "cells demo_cache"] by (simp add: in_sync_def)
  with index_verify_decides[OF this _ demo_inv] d show ?thesis by (auto simp: describes_def)
qed

subsection \<open>Placement\<close>

text \<open>C4: the slot search returns on every cache; when it succeeds it has given every token of the
  batch a free cell of its own, in one contiguous run that starts at the new head, changed no
  other cell of any sequence, and kept the invariant; when it refuses, no sequence has changed.\<close>

theorem find_slot_places:
  assumes "kv_inv c" "batch_ok ts"
  shows "\<exists>b c'. find_slot ab ts c = Some (b, c') \<and> kv_inv c' \<and>
    (if b then free_run (cells c) (length ts) (head c')
         \<and> (\<forall>s. kv_view c' s = kv_view c s \<union> placed_rows (head c') ts s)
     else \<forall>s. kv_view c' s = kv_view c s)"
proof -
  obtain b c' where r: "find_slot ab ts c = Some (b, c')"
    using slots.alloc_returns[OF assms(1), of ab ts] by (cases "find_slot ab ts c") auto
  show ?thesis
    using r slots.alloc_places[OF assms, of ab c'] slots.alloc_refuses[OF assms(1), of ab ts c']
    by (cases b) auto
qed

theorem find_slot_places_witness:
  "\<exists>b c'. find_slot 0 demo_batch demo_cache = Some (b, c') \<and> kv_inv c'"
  using find_slot_places[OF demo_inv demo_batch_ok, of 0] by blast

text \<open>C5: with the alignment lever off, a refusal means that no run of free cells of the wanted
  length exists anywhere in the cache.\<close>

theorem find_slot_refusal_exact:
  assumes "kv_inv c" "ab \<le> 1" "find_slot ab ts c = Some (False, c')"
  shows "\<not> free_run (cells c) (length ts) j"
proof (cases "size c < length ts")
  case True
  with assms(1) show ?thesis by (simp add: free_run_def kv_inv_def)
next
  case False
  have "length ts \<le> length (cells c)" using False assms(1) by (simp add: kv_inv_def)
  from slot_search_returns[OF this] obtain r
    where r: "slot_search 0 (cells c) (length ts) (head c) 0 = Some r" by blast
  have "\<not> fst r"
    using assms False r by (cases r) (auto simp: find_slot_def kv_inv_def Let_def case_prod_beta split: bool.splits)
  with r have "slot_search 0 (cells c) (length ts) (head c) 0 = Some (False, snd r)" by (cases r) auto
  then show ?thesis by (rule slot_search_complete) (use assms(1) in \<open>simp add: kv_inv_def\<close>)
qed

theorem find_slot_refusal_exact_witness:
  "\<not> free_run (cells (fresh_cache 2 0)) 3 0"
proof -
  have "find_slot 0 (replicate 3 \<lparr>b_pos = 0, b_seqs = [0]\<rparr>) (fresh_cache 2 0) = Some (False, fresh_cache 2 0)"
    by (simp add: find_slot_def fresh_cache_def)
  from find_slot_refusal_exact[OF kv_inv_fresh _ this, of 0] show ?thesis by simp
qed

text \<open>C6: placing a draft behind the positions a sequence holds and rolling it back, by removing
  every position from the draft's first one on, restores the view of every sequence, whichever
  removal the levers select.\<close>

theorem draft_rollback_restores:
  assumes "kv_inv c" "batch_ok ts" "\<forall>b \<in> set ts. b_seqs b = [s] \<and> p \<le> b_pos b \<and> b_pos b < POS_MAX"
    and "\<forall>e \<in> kv_view c s. snd e < p" "0 \<le> s" "0 \<le> p"
    and "find_slot ab ts c = Some (True, c')"
  shows "kv_view (snd (seq_rm en ck s p (-1) c')) t = kv_view c t"
proof -
  have c': "kv_inv c'" "\<And>t. kv_view c' t = kv_view c t \<union> placed_rows (head c') ts t"
    using slots.alloc_places[OF assms(1,2,7)] by auto
  have new: "(t = s \<and> p \<le> snd e \<and> snd e < POS_MAX)" if "e \<in> placed_rows h ts t" for e h
    using that assms(3) by (auto simp: placed_rows_def dest!: nth_mem)
  have rm: "kv_view (snd (seq_rm en ck s p (-1) c')) t
      = {e \<in> kv_view c' t. \<not> (t = s \<and> p \<le> snd e \<and> snd e < POS_MAX)}"
    using kv_view_seq_rm[OF c'(1), of en ck s p "-1" t] assms(5,6)
    by (simp add: clamp_p0_def clamp_p1_def)
  show ?thesis
    unfolding rm c'(2) using assms(4) by (auto simp: not_le dest: new)
qed

lemma demo_find: "find_slot 0 demo_batch demo_cache = Some (True, after_place False 3 demo_batch demo_cache)"
proof -
  have "\<not> cmax_in_sync (demo_cache\<lparr>head := h\<rparr>)" for h
    by (simp add: cmax_in_sync_def demo_cache_def fresh_cache_def)
  moreover have "find (\<lambda>i. 0 \<le> pos (cells demo_cache ! (3 + i))) [0..<2] = None"
    by (auto simp: find_None_iff demo_cache_def fresh_cache_def less_Suc_eq numeral_eq_Suc)
  then have "slot_search 0 (cells demo_cache) 2 3 0 = Some (True, 3)"
    by (subst slot_search.simps) (simp add: demo_cache_def fresh_cache_def)
  moreover have "\<not> recurrent demo_cache" "size demo_cache = 6" "head demo_cache = 3" "length demo_batch = 2"
    by (simp_all add: demo_cache_def fresh_cache_def demo_batch_def)
  ultimately show ?thesis
    by (simp add: find_slot_def after_place_def Let_def case_prod_beta)
qed

theorem draft_rollback_restores_witness:
  "kv_view (snd (seq_rm True False 0 2 (-1) (after_place False 3 demo_batch demo_cache))) 0 = {(0, 0), (1, 1)}"
proof -
  have "\<forall>b \<in> set demo_batch. b_seqs b = [0] \<and> 2 \<le> b_pos b \<and> b_pos b < POS_MAX"
    by (simp add: demo_batch_def POS_MAX_def)
  moreover have "\<forall>e \<in> kv_view demo_cache 0. snd e < 2" by (simp add: demo_view)
  ultimately show ?thesis
    using draft_rollback_restores[OF demo_inv demo_batch_ok _ _ _ _ demo_find] by (simp add: demo_view)
qed

subsection \<open>Copying, sharing and shifting\<close>

text \<open>C7: the exact-prefix fork gives the destination exactly the source's cells below \<open>p1\<close>
  in place of its own cells below \<open>p1\<close>, leaves every other sequence alone (whatever recurrent
  state the cache carries), reports the number of cells shared, and keeps the invariant.\<close>

theorem share_prefix_forks:
  assumes "kv_inv c" "0 \<le> s" "0 \<le> d" "s \<noteq> d" "0 < p1"
  shows "kv_inv (snd (seq_share_prefix s d p1 c))
    \<and> fst (seq_share_prefix s d p1 c) = int (card {e \<in> kv_view c s. snd e < p1})
    \<and> kv_view (snd (seq_share_prefix s d p1 c)) t =
      (if t = d then {e \<in> kv_view c d. p1 \<le> snd e} \<union> {e \<in> kv_view c s. snd e < p1} else kv_view c t)"
  using kv_inv_share_prefix[OF assms(1)] share_prefix_count[OF assms] kv_view_share_prefix[OF assms]
  by blast

theorem share_prefix_forks_witness:
  "kv_view (snd (seq_share_prefix 0 1 5 demo_cache)) 1 = {(0, 0), (1, 1)}"
proof -
  have e: "{e \<in> {(0, 0), (2, 1)}. (5::int) \<le> snd e} \<union> {e \<in> {(0, 0), (1, 1)}. snd e < 5} = {(0, 0), (1 :: nat, 1)}"
    by auto
  show ?thesis
    using share_prefix_forks[OF demo_inv, of 0 1 5 1] by (simp only: demo_view e) simp
qed

text \<open>a shift by \<open>dlt\<close> moves the cells of the sequence in the range, for every sequence that
  shares them, drops those whose position would become negative, changes nothing else, and keeps
  the invariant.\<close>

theorem seq_add_shifts:
  assumes "kv_inv c"
  shows "kv_inv (seq_add s p0 p1 dlt c) \<and> kv_view (seq_add s p0 p1 dlt c) t =
    {e \<in> kv_view c t. \<not> (e \<in> kv_view c s \<and> in_window (clamp_p0 p0) (clamp_p1 p1) e)}
    \<union> {(i, p + dlt) | i p. (i, p) \<in> kv_view c t \<and> (i, p) \<in> kv_view c s
         \<and> in_window (clamp_p0 p0) (clamp_p1 p1) (i, p) \<and> 0 \<le> p + dlt}"
  using kv_inv_seq_add[OF assms] kv_view_seq_add[OF assms] by blast

theorem seq_add_shifts_witness:
  "kv_view (seq_add 0 1 (-1) 4 demo_cache) 0 = {(0, 0), (1, 5)}"
  unfolding conjunct2[OF seq_add_shifts[OF demo_inv]]
  by (auto simp: demo_view in_window_def clamp_p0_def clamp_p1_def POS_MAX_def)

text \<open>On a cache without recurrent state rows, a copy adds the destination as an owner of the
  source's cells in the range and changes nothing else.\<close>

theorem seq_cp_shares_range:
  assumes "kv_inv c" "\<not> has_qnext_state c" "0 \<le> d" "seq_cp s d p0 p1 c = Some c'"
  shows "kv_inv c' \<and> kv_view c' t = kv_view c t \<union>
    (if t = d then {e \<in> kv_view c s. in_window (clamp_p0 p0) (clamp_p1 p1) e} else {})"
  using kv_inv_seq_cp[OF assms(1) _ assms(3,4)] kv_view_seq_cp[OF assms(1,2,4)] assms(2)
  by (auto simp: cp_overwrites_def cp_redirects_def)

theorem seq_cp_shares_range_witness:
  "kv_view (the (seq_cp 0 2 0 1 demo_cache)) 2 = {(0, 0)}"
proof -
  have q: "\<not> recurrent demo_cache" "\<not> has_qnext_state demo_cache"
    by (simp_all add: demo_cache_def fresh_cache_def has_qnext_state_def)
  obtain c' where c': "seq_cp 0 2 0 1 demo_cache = Some c'"
    using seq_cp_plain[OF q, of 0 2 0 1] by blast
  have e: "{e \<in> {(0, 0), (1, 1)}. in_window (clamp_p0 0) (clamp_p1 1) e} = {(0 :: nat, 0)}"
    by (auto simp: in_window_def clamp_p0_def clamp_p1_def)
  have "kv_view c' 2 = {(0, 0)}"
    using seq_cp_shares_range[OF demo_inv q(2) _ c', of 2] by (simp only: demo_view e) simp
  with c' show ?thesis by simp
qed

definition hybrid_cache :: kv_cache where
  "hybrid_cache = (fresh_cache 4 2)\<lparr>used := 2, head := 2,
     cells := [demo_cell 0 {0}, demo_cell 1 {0}, new_cell, new_cell]\<rparr>"

text \<open>on a cache that carries recurrent state rows beside its token cells, the same copy also
  overwrites the position of the cell whose index is the destination's sequence id: here the token
  of sequence 0 at position 1 is moved to position 0 by copying sequence 0 to sequence 1.\<close>

theorem seq_cp_hybrid_moves_token:
  "kv_inv hybrid_cache \<and> kv_view hybrid_cache 0 = {(0, 0), (1, 1)}
   \<and> (\<exists>c'. seq_cp 0 1 (-1) (-1) hybrid_cache = Some c' \<and> kv_view c' 0 = {(0, 0), (1, 0)})"
proof (intro conjI)
  show "kv_inv hybrid_cache"
    by (simp add: kv_inv_def hybrid_cache_def fresh_cache_def demo_cell_ok n_live_def index_ok_def
        memo_ok_def in_sync_def cmax_in_sync_def new_index_def)
  show "kv_view hybrid_cache 0 = {(0, 0), (1, 1)}"
    by (simp add: kv_view_code hybrid_cache_def fresh_cache_def upt_rec)
  have src: "src (demo_cell p S) = 0" for p S by (simp add: demo_cell_def new_cell_def)
  let ?cs = "[add_seq 1 (demo_cell 0 {0}), add_seq 1 ((demo_cell 1 {0})\<lparr>src := 0, pos := 0\<rparr>), new_cell, new_cell]"
  have "seq_cp 0 1 (-1) (-1) hybrid_cache = Some (hybrid_cache\<lparr>seq_index := invalidate new_index,
      head := 0, do_copy := True, cells := ?cs, tag_epoch := 2\<rparr>)"
    by (simp add: seq_cp_def hybrid_cache_def fresh_cache_def has_qnext_state_def
        qnext_seq_id_in_range_def qnext_plane_rows_def Let_def src cp_step_def in_range_of_def
        clamp_p0_def clamp_p1_def POS_MAX_def)
  moreover have "kv_view (hybrid_cache\<lparr>seq_index := invalidate new_index,
      head := 0, do_copy := True, cells := ?cs, tag_epoch := 2\<rparr>) 0 = {(0, 0), (1, 0)}"
    by (simp add: kv_view_code upt_rec)
  ultimately show "\<exists>c'. seq_cp 0 1 (-1) (-1) hybrid_cache = Some c' \<and> kv_view c' 0 = {(0, 0), (1, 0)}"
    by blast
qed

subsection \<open>Queries and memos\<close>

text \<open>The memo of the highest occupied cell answers as the scan over the whole cache does, in
  every mode: the mode that checks the memo never finds a difference, so it never aborts.\<close>

theorem cell_max_ub_exact:
  assumes "kv_inv c"
  shows "map_option fst (cell_max_ub mode c) = Some (cells_max_below (cells c) (size c))"
  using cell_max_ub_scan[OF assms, of mode] by auto

theorem cell_max_ub_exact_witness: "map_option fst (cell_max_ub 2 demo_cache) = Some 3"
proof -
  have "cells_max_below (cells demo_cache) (size demo_cache) = 3"
    by (simp add: demo_cache_def fresh_cache_def numeral_eq_Suc)
  with cell_max_ub_exact[OF demo_inv, of 2] show ?thesis by simp
qed

text \<open>The span query reports the number of cells a sequence holds with its least and greatest
  position, the minimum query its least position (\<open>-1\<close> for none) and the maximum query its greatest
  (0 for none).\<close>

theorem seq_queries_exact:
  assumes "kv_inv c"
  shows "seq_span_cells c s = (int (card (kv_view c s)),
       (if seq_positions c s = {} then -1 else Min (seq_positions c s)),
       (if seq_positions c s = {} then -1 else Max (seq_positions c s)))
    \<and> seq_pos_min c s = (if seq_positions c s = {} then -1 else Min (seq_positions c s))
    \<and> seq_pos_max c s = (if seq_positions c s = {} then 0 else Max (seq_positions c s))"
  by (intro conjI seq_span_eq[OF assms] seq_pos_min_eq[OF assms] seq_pos_max_eq[OF assms])

theorem seq_queries_exact_witness:
  "seq_span_cells demo_cache 1 = (2, 0, 1) \<and> seq_pos_max demo_cache 1 = 1"
  using seq_queries_exact[OF demo_inv, of 1] by (simp add: demo_view seq_positions_def)

text \<open>Asking the shadow of a cell whether a sequence owns it answers as the owner set does.\<close>

theorem has_seq_fast_agrees:
  assumes "cell_ok c" "0 \<le> s"
  shows "has_seq_fast s c \<longleftrightarrow> has_seq_id s c"
  using assms by (intro has_seq_fast_correct) (simp_all add: cell_ok_def)

theorem has_seq_fast_agrees_witness: "has_seq_fast 1 (demo_cell 0 {0, 1}) \<and> \<not> has_seq_fast 2 (demo_cell 0 {0, 1})"
  using has_seq_fast_agrees[of "demo_cell 0 {0, 1}" 1] has_seq_fast_agrees[of "demo_cell 0 {0, 1}" 2]
  by (simp add: demo_cell_ok)

end
