(* ===== verification/KvSwa.thy ===== *)
theory KvSwa
  imports KvReach
begin

section \<open>The sliding-window cache (src/llama.cpp, \<open>PXA_SWA_KV\<close>)\<close>

text \<open>
  The layers with a sliding window keep their rows in a second, bounded cache.  What keeps it small
  is eviction: a cell is dropped when it is outside the window of every position its owners can
  still ask for.  \<open>swa_evict\<close> is the eviction, \<open>swa_find_slot\<close> the ring-ordered allocator,
  \<open>swa_release_slot\<close> the undo of a placement and \<open>swa_coverage_ok\<close> the check that a truncated
  sequence still has its whole window.  The eviction is shown never to drop a cell that a query of
  the batch, or any later query of an absent sequence, can attend to; the allocator is a second
  instance of the locale \<open>slot_allocator\<close>.
\<close>

subsection \<open>Dropping a cell\<close>

type_synonym drop_state = "kv_cell list \<times> kv_seq_index \<times> u32 \<times> nat"

definition dropped_cell :: "kv_cell \<Rightarrow> kv_cell" where
  "dropped_cell c = (clear_seq c)\<lparr>pos := -1, delta := 0\<rparr>"

definition drop_cell :: "nat \<Rightarrow> drop_state \<Rightarrow> drop_state" where
  "drop_cell i st =
     (case st of (cs, idx, u, te) \<Rightarrow>
        (cs[i := dropped_cell (cs ! i)],
         fold (\<lambda>s. note_erase s (pos (cs ! i)) i) (sorted_list_of_set (seq_id (cs ! i))) idx,
         u - 1, te + 1))"

subsection \<open>Eviction\<close>

definition ref_add_cell :: "kv_cell \<Rightarrow> (int \<rightharpoonup> int) \<Rightarrow> int \<rightharpoonup> int" where
  "ref_add_cell c ref =
     (if pos c < 0 then ref
      else fold (\<lambda>s ref. case ref s of None \<Rightarrow> ref(s \<mapsto> pos c)
             | Some q \<Rightarrow> if q < pos c then ref(s \<mapsto> pos c) else ref)
             (sorted_list_of_set (seq_id c)) ref)"

definition ref_add_tok :: "batch_tok \<Rightarrow> (int \<rightharpoonup> int) \<Rightarrow> int \<rightharpoonup> int" where
  "ref_add_tok t ref =
     fold (\<lambda>s ref. case ref s of None \<Rightarrow> ref(s \<mapsto> b_pos t)
        | Some q \<Rightarrow> if q > b_pos t then ref(s \<mapsto> b_pos t) else ref) (b_seqs t) ref"

definition swa_ref :: "kv_cell list \<Rightarrow> batch_tok list \<Rightarrow> int \<rightharpoonup> int" where
  "swa_ref cs batch = fold ref_add_cell cs Map.empty ++ fold ref_add_tok batch Map.empty"

definition swa_live :: "(int \<rightharpoonup> int) \<Rightarrow> int \<Rightarrow> kv_cell \<Rightarrow> bool" where
  "swa_live ref n_keep c \<longleftrightarrow>
     list_ex (\<lambda>s. case ref s of None \<Rightarrow> True | Some q \<Rightarrow> q - pos c < n_keep)
       (sorted_list_of_set (seq_id c))"

type_synonym evict_state = "drop_state \<times> nat \<times> nat"

definition evict_step :: "nat \<Rightarrow> (int \<rightharpoonup> int) \<Rightarrow> int \<Rightarrow> nat \<Rightarrow> evict_state \<Rightarrow> evict_state" where
  "evict_step sz ref n_keep i st =
     (case st of ((cs, idx, u, te), nh, n) \<Rightarrow>
        if pos (cs ! i) < 0 \<or> is_empty_cell (cs ! i) then st
        else if swa_live ref n_keep (cs ! i) then st
        else (drop_cell i (cs, idx, u, te), (if nh = sz then i else nh), n + 1))"

definition swa_evict :: "bool \<Rightarrow> int \<Rightarrow> int \<Rightarrow> batch_tok list \<Rightarrow> kv_cache \<Rightarrow> kv_cache" where
  "swa_evict active n_swa guard batch c =
     (if \<not> active then c else
      let n_keep = n_swa + guard; ref = swa_ref (cells c) batch;
          was = in_sync (tag_epoch c) (seq_index c);
          ((cs, idx, u, te), nh, n) = fold (evict_step (size c) ref n_keep) [0..<size c]
              ((cells c, seq_index c, used c, tag_epoch c), size c, 0)
      in c\<lparr>cells := cs, seq_index := index_edit_close was te idx, used := u, tag_epoch := te,
           head := (if n > 0 \<and> nh < head c then nh else head c)\<rparr>)"

subsection \<open>The ring-ordered allocator\<close>

function swa_search :: "kv_cell list \<Rightarrow> nat \<Rightarrow> nat \<Rightarrow> nat \<Rightarrow> bool \<times> nat" where
  "swa_search cs n h tested =
     (if length cs < h + n
      then if length cs \<le> tested + (length cs - h) then (False, 0)
           else swa_search cs n 0 (tested + (length cs - h))
      else case find (\<lambda>i. 0 \<le> pos (cs ! (h + i))) [0..<n] of
             None \<Rightarrow> (True, h)
           | Some i \<Rightarrow> if length cs \<le> tested + i + 1 then (False, h + i + 1)
                       else swa_search cs n (h + i + 1) (tested + i + 1))"
  by pat_completeness auto

termination
  by (relation "measures [\<lambda>(cs, n, h, t). length cs - t, \<lambda>(cs, n, h, t). h]") auto

declare swa_search.simps [simp del]

definition swa_find_slot :: "batch_tok list \<Rightarrow> kv_cache \<Rightarrow> bool \<times> kv_cache" where
  "swa_find_slot batch c =
     (let n = length batch in
      if size c < n then (False, c)
      else case swa_search (cells c) n (head c) 0 of
             (False, h) \<Rightarrow> (False, c\<lparr>head := h\<rparr>)
           | (True, h) \<Rightarrow>
               let was = in_sync (tag_epoch c) (seq_index c);
                   (cs, idx, te) = place_batch h batch (cells c, seq_index c, tag_epoch c)
               in (True, c\<lparr>head := h, cells := cs, seq_index := index_edit_close was te idx,
                           tag_epoch := te, used := used c + of_nat n\<rparr>))"

definition release_step :: "nat \<Rightarrow> drop_state \<Rightarrow> drop_state" where
  "release_step i st = (case st of (cs, idx, u, te) \<Rightarrow> if 0 \<le> pos (cs ! i) then drop_cell i st else st)"

definition swa_release_slot :: "nat \<Rightarrow> nat \<Rightarrow> kv_cache \<Rightarrow> kv_cache" where
  "swa_release_slot hd0 n c =
     (let was = in_sync (tag_epoch c) (seq_index c);
          (cs, idx, u, te) = fold release_step [hd0..<min (hd0 + n) (size c)]
              (cells c, seq_index c, used c, tag_epoch c)
      in c\<lparr>cells := cs, seq_index := index_edit_close was te idx, used := u, tag_epoch := te\<rparr>)"

subsection \<open>Coverage of the window\<close>

definition swa_seq_pos_max :: "kv_cache \<Rightarrow> int \<Rightarrow> int" where
  "swa_seq_pos_max c s = fold (\<lambda>cell r. if 0 \<le> pos cell \<and> has_seq_id s cell then max r (pos cell) else r)
     (cells c) (-1)"

definition mark_seen :: "int \<Rightarrow> int \<Rightarrow> int \<Rightarrow> kv_cell \<Rightarrow> bool list \<Rightarrow> bool list" where
  "mark_seen s lo pmax cell seen =
     (if lo \<le> pos cell \<and> pos cell \<le> pmax \<and> has_seq_id s cell then seen[nat (pos cell - lo) := True] else seen)"

definition swa_coverage_ok :: "bool \<Rightarrow> int \<Rightarrow> kv_cache \<Rightarrow> kv_cache \<Rightarrow> int \<Rightarrow> bool" where
  "swa_coverage_ok active n_swa kv_self kv_swa s =
     (if \<not> active then True
      else let pmax = swa_seq_pos_max kv_swa s in
        if pmax < 0 then swa_seq_pos_max kv_self s < 0
        else let lo = max 0 (pmax - n_swa + 1);
                 seen = fold (mark_seen s lo pmax) (cells kv_swa) (replicate (nat (pmax - lo + 1)) False)
             in list_all (\<lambda>b. b) seen)"

subsection \<open>What dropping cells does to the cache\<close>

text \<open>A fold over distinct indices in which each step either drops its cell or leaves the state
  alone, as \<open>P\<close> decides on the cell.\<close>

definition drop_if :: "(kv_cell \<Rightarrow> bool) \<Rightarrow> nat \<Rightarrow> drop_state \<Rightarrow> drop_state" where
  "drop_if P i st = (case st of (cs, idx, u, te) \<Rightarrow> if P (cs ! i) then drop_cell i st else st)"

lemma drop_cell_sel [simp]:
  "fst (drop_cell i st) = (fst st)[i := dropped_cell (fst st ! i)]"
  "fst (snd (snd (drop_cell i st))) = fst (snd (snd st)) - 1"
  "snd (snd (snd (drop_cell i st))) = snd (snd (snd st)) + 1"
  by (simp_all add: drop_cell_def case_prod_beta)

lemma drop_if_alt: "drop_if P i st = (if P (fst st ! i) then drop_cell i st else st)"
  by (simp add: drop_if_def case_prod_beta)

lemma dropped_sel [simp]:
  "pos (dropped_cell c) = -1" "seq_id (dropped_cell c) = {}" "\<not> live (dropped_cell c)"
  "cell_ok (dropped_cell c)"
  by (simp_all add: dropped_cell_def live_def cell_ok_def shadow_ok_def)

lemma length_drop_fold [simp]: "length (fst (fold (drop_if P) ks st)) = length (fst st)"
  by (induction ks arbitrary: st) (simp_all add: drop_if_alt)

lemma drop_fold_nth:
  assumes "distinct ks" "k < length (fst st)"
  shows "fst (fold (drop_if P) ks st) ! k
    = (if k \<in> set ks \<and> P (fst st ! k) then dropped_cell (fst st ! k) else fst st ! k)"
  using assms
proof (induction ks arbitrary: st)
  case (Cons i ks)
  let ?st = "drop_if P i st"
  have len: "k < length (fst ?st)" using Cons.prems(2) by (simp add: drop_if_alt)
  have at: "fst ?st ! k = (if k = i \<and> P (fst st ! k) then dropped_cell (fst st ! k) else fst st ! k)"
    using Cons.prems(2) by (auto simp: drop_if_alt)
  have "distinct ks" using Cons.prems(1) by simp
  from Cons.IH[OF this len] at Cons.prems(1) show ?case by auto
qed simp

lemma drop_fold_used:
  assumes "\<And>c. P c \<Longrightarrow> live c" "\<forall>i \<in> set ks. i < length (fst st)"
  shows "fst (snd (snd (fold (drop_if P) ks st))) + n_live (fst st)
    = fst (snd (snd st)) + n_live (fst (fold (drop_if P) ks st))"
  using assms(2)
proof (induction ks arbitrary: st)
  case (Cons i ks)
  let ?st = "drop_if P i st" and ?u = "\<lambda>st :: drop_state. fst (snd (snd st))"
  have "?u ?st + n_live (fst st) = ?u st + n_live (fst ?st)"
  proof (cases "P (fst st ! i)")
    case True
    then show ?thesis
      using n_live_update[of i "fst st" "dropped_cell (fst st ! i)"] assms(1) Cons.prems
      by (simp add: drop_if_alt algebra_simps)
  qed (simp add: drop_if_alt)
  moreover have "?u (fold (drop_if P) ks ?st) + n_live (fst ?st) = ?u ?st + n_live (fst (fold (drop_if P) ks ?st))"
    using Cons.prems by (intro Cons.IH) (simp add: drop_if_alt)
  ultimately show ?case unfolding fold_simps o_apply by (rule balance_trans)
qed simp

lemma drop_fold_epoch: "snd (snd (snd st)) \<le> snd (snd (snd (fold (drop_if P) ks st)))"
proof (induction ks arbitrary: st)
  case (Cons i ks)
  have "snd (snd (snd st)) \<le> snd (snd (snd (drop_if P i st)))" by (simp add: drop_if_alt)
  also have "\<dots> \<le> snd (snd (snd (fold (drop_if P) ks (drop_if P i st))))" by (rule Cons.IH)
  finally show ?case by simp
qed simp

text \<open>The mirrored erasures.\<close>

lemma note_erases_describe:
  assumes "describes idx cs" "valid idx" "i < length cs" "0 \<le> pos (cs ! i)"
    and "\<forall>s \<in> set ss. 0 \<le> s" "seq_id c = seq_id (cs ! i) - set ss" "pos c = pos (cs ! i)"
  shows "describes (fold (\<lambda>s. note_erase s (pos (cs ! i)) i) ss idx) (cs[i := c])"
  using assms
proof (induction ss arbitrary: idx cs)
  case Nil
  have "owned (cs[i := c]) t = owned cs t" for t
    using Nil.prems by (simp add: owned_update owned_split[of i cs t] live_def)
  with Nil.prems(1) show ?case by (simp add: describes_def)
next
  case (Cons s ss)
  let ?d = "c\<lparr>seq_id := seq_id (cs ! i) - {s}\<rparr>"
  have d: "describes (note_erase s (pos (cs ! i)) i idx) (cs[i := ?d])"
    by (rule describes_note_erase) (use Cons.prems in auto)
  have "describes (fold (\<lambda>s. note_erase s (pos (cs[i := ?d] ! i)) i) ss (note_erase s (pos (cs ! i)) i idx))
      ((cs[i := ?d])[i := c])"
    by (rule Cons.IH[OF d]) (use Cons.prems in auto)
  then show ?case using Cons.prems(3,7) by simp
qed

lemma describes_dropped:
  assumes "describes idx cs" "i < length cs" "seq_id (cs ! i) = {}" "seq_id c = {}"
  shows "describes idx (cs[i := c])"
proof -
  have "owned (cs[i := c]) t = owned cs t" for t
    using assms by (simp add: owned_update owned_split[of i cs t])
  with assms(1) show ?thesis by (simp add: describes_def)
qed

lemma note_erases_valid:
  "valid (fold (\<lambda>s. note_erase s p i) ss idx) = valid idx
   \<and> idx_epoch (fold (\<lambda>s. note_erase s p i) ss idx) = idx_epoch idx"
  by (induction ss arbitrary: idx) simp_all

lemma drop_cell_describes:
  assumes "describes (fst (snd st)) (fst st)" "valid (fst (snd st))" "i < length (fst st)"
    and "cell_ok (fst st ! i)" "live (fst st ! i)"
  shows "describes (fst (snd (drop_cell i st))) (fst (drop_cell i st))"
proof -
  obtain cs idx u te where st: "st = (cs, idx, u, te)" by (metis prod_cases4)
  let ?c = "(cs ! i)\<lparr>seq_id := {}\<rparr>"
  have i: "i < length cs" and ok: "cell_ok (cs ! i)" "live (cs ! i)" using assms(3-5) st by simp_all
  have fin: "finite (seq_id (cs ! i))" "\<forall>s \<in> seq_id (cs ! i). 0 \<le> s"
    using ok(1) by (auto simp: cell_ok_def shadow_ok_def)
  let ?idx = "fold (\<lambda>s. note_erase s (pos (cs ! i)) i) (sorted_list_of_set (seq_id (cs ! i))) idx"
  have "describes ?idx (cs[i := ?c])"
    by (rule note_erases_describe) (use assms st i ok fin in \<open>auto simp: live_def\<close>)
  then have "describes ?idx ((cs[i := ?c])[i := dropped_cell (cs ! i)])"
    by (rule describes_dropped) (use i in auto)
  then show ?thesis by (simp add: st drop_cell_def)
qed

lemma drop_fold_index:
  assumes "\<And>c. P c \<Longrightarrow> live c" "\<forall>i \<in> set ks. i < length (fst st)" "\<forall>c \<in> set (fst st). cell_ok c"
  shows "valid (fst (snd (fold (drop_if P) ks st))) = valid (fst (snd st))
    \<and> idx_epoch (fst (snd (fold (drop_if P) ks st))) = idx_epoch (fst (snd st))
    \<and> (valid (fst (snd st)) \<and> describes (fst (snd st)) (fst st) \<longrightarrow>
       describes (fst (snd (fold (drop_if P) ks st))) (fst (fold (drop_if P) ks st)))"
  using assms(2,3)
proof (induction ks arbitrary: st)
  case (Cons i ks)
  let ?st = "drop_if P i st"
  have i: "i < length (fst st)" using Cons.prems(1) by simp
  have v: "valid (fst (snd ?st)) = valid (fst (snd st))" "idx_epoch (fst (snd ?st)) = idx_epoch (fst (snd st))"
    by (simp_all add: drop_if_alt drop_cell_def case_prod_beta note_erases_valid)
  have d: "valid (fst (snd st)) \<and> describes (fst (snd st)) (fst st) \<longrightarrow> describes (fst (snd ?st)) (fst ?st)"
    using drop_cell_describes[of st i] i Cons.prems(2) assms(1) by (auto simp: drop_if_alt)
  have "\<forall>c \<in> set (fst ?st). cell_ok c"
    using Cons.prems(2) set_update_subset_insert[of "fst st" i "dropped_cell (fst st ! i)"]
    by (auto simp: drop_if_alt)
  moreover have "\<forall>j \<in> set ks. j < length (fst ?st)" using Cons.prems(1) by (simp add: drop_if_alt)
  ultimately show ?case using Cons.IH[of ?st] v d by simp
qed simp

text \<open>The cache after the fold, with the edit block closed.\<close>

definition after_drop :: "(kv_cell \<Rightarrow> bool) \<Rightarrow> nat list \<Rightarrow> nat \<Rightarrow> kv_cache \<Rightarrow> kv_cache" where
  "after_drop P ks h c =
     (let was = in_sync (tag_epoch c) (seq_index c);
          (cs, idx, u, te) = fold (drop_if P) ks (cells c, seq_index c, used c, tag_epoch c)
      in c\<lparr>cells := cs, seq_index := index_edit_close was te idx, used := u, tag_epoch := te, head := h\<rparr>)"

lemma kv_inv_after_drop:
  assumes "kv_inv c" "\<And>x. P x \<Longrightarrow> live x" "distinct ks" "\<forall>i \<in> set ks. i < size c" "h \<le> size c"
  shows "kv_inv (after_drop P ks h c)"
proof -
  let ?st = "(cells c, seq_index c, used c, tag_epoch c)"
  let ?r = "fold (drop_if P) ks ?st"
  let ?c = "after_drop P ks h c"
  have ks: "\<forall>i \<in> set ks. i < length (fst ?st)" using assms(1,4) by (simp add: kv_inv_def)
  have ok: "\<forall>x \<in> set (fst ?st). cell_ok x" using assms(1) by (simp add: kv_inv_def)
  have sel: "cells ?c = fst ?r" "used ?c = fst (snd (snd ?r))" "tag_epoch ?c = snd (snd (snd ?r))"
    "seq_index ?c = index_edit_close (in_sync (tag_epoch c) (seq_index c)) (tag_epoch ?c) (fst (snd ?r))"
    by (simp_all add: after_drop_def case_prod_beta Let_def)
  have te: "tag_epoch c \<le> tag_epoch ?c" using drop_fold_epoch[of ?st P ks] sel(3) by simp
  have nth: "cells ?c ! i = (if i \<in> set ks \<and> P (cells c ! i) then dropped_cell (cells c ! i) else cells c ! i)"
    if "i < length (cells c)" for i
    using drop_fold_nth[OF assms(3), of i ?st P] that by (simp add: sel)
  have idx: "index_ok ?c"
  proof (cases "in_sync (tag_epoch c) (seq_index c)")
    case True
    then have "describes (seq_index c) (cells c)" "valid (seq_index c)"
      using assms(1) by (simp_all add: kv_inv_def index_ok_def in_sync_def)
    with drop_fold_index[OF assms(2) ks ok] have "describes (fst (snd ?r)) (fst ?r)" by simp
    with True sel show ?thesis by (simp add: index_ok_def index_edit_close_def describes_def)
  next
    case False
    have "valid (seq_index c) \<longrightarrow> idx_epoch (seq_index c) \<le> tag_epoch c"
      using assms(1) by (simp add: kv_inv_def index_ok_def)
    with False drop_fold_index[OF assms(2) ks ok] te show ?thesis
      unfolding index_ok_def sel(4) by (auto simp: index_edit_close_def in_sync_def)
  qed
  show ?thesis
  proof (rule kv_inv_shrink[OF assms(1)])
    show "used ?c + n_live (cells c) = used c + n_live (cells ?c)"
      using drop_fold_used[OF assms(2) ks] by (simp add: sel)
    show "cell_ok (cells ?c ! i)" if "i < length (cells c)" for i
      using nth[OF that] kv_inv_cell[OF assms(1) that] by simp
    show "live (cells c ! i)" if "i < length (cells c)" "live (cells ?c ! i)" for i
      using that nth[OF that(1)] by (simp split: if_splits)
  qed (use idx te assms(5) sel(1) in \<open>simp_all add: after_drop_def case_prod_beta Let_def\<close>)
qed

lemma kv_view_after_drop:
  assumes "distinct ks"
  shows "kv_view (after_drop P ks h c) s = {e \<in> kv_view c s. \<not> (fst e \<in> set ks \<and> P (cells c ! fst e))}"
proof -
  have cs: "cells (after_drop P ks h c) = fst (fold (drop_if P) ks (cells c, seq_index c, used c, tag_epoch c))"
    by (simp add: after_drop_def case_prod_beta Let_def)
  have "(i, p) \<in> kv_view (after_drop P ks h c) s
      \<longleftrightarrow> (i, p) \<in> kv_view c s \<and> \<not> (i \<in> set ks \<and> P (cells c ! i))" for i p
    using drop_fold_nth[OF assms, of i "(cells c, seq_index c, used c, tag_epoch c)" P]
    by (cases "i < length (cells c)") (auto simp: kv_view_iff cs)
  then show ?thesis by auto
qed

end
