(* ===== verification/KvSwaMain.thy ===== *)
theory KvSwaMain
  imports KvSwa KvMain
begin

section \<open>The sliding-window cache: eviction, allocation, coverage\<close>

text \<open>
  The eviction rule in terms of the sequences' views, its safety for the queries of the batch, the
  ring allocator as an instance of \<open>slot_allocator\<close>, and the meaning of the coverage check.
\<close>

subsection \<open>The reference positions\<close>

lemma ref_inner_cell:
  "distinct ss \<Longrightarrow> fold (\<lambda>s ref. case ref s of None \<Rightarrow> ref(s \<mapsto> p)
      | Some q \<Rightarrow> if q < p then ref(s \<mapsto> p) else ref) ss ref s
   = (if s \<in> set ss then Some (case ref s of None \<Rightarrow> p | Some q \<Rightarrow> max p q) else ref s)" for p :: int
proof (induction ss arbitrary: ref)
  case (Cons u ss)
  then show ?case by (cases "ref u"; cases "s = u") (auto simp: max_def split: option.splits)
qed simp

lemma ref_add_cell_at:
  assumes "finite (seq_id c)"
  shows "ref_add_cell c ref s = (if 0 \<le> pos c \<and> s \<in> seq_id c
     then Some (case ref s of None \<Rightarrow> pos c | Some q \<Rightarrow> max (pos c) q) else ref s)"
  using assms by (simp add: ref_add_cell_def ref_inner_cell)

lemma ref_cells:
  assumes "\<forall>c \<in> set cs. finite (seq_id c)"
  shows "fold ref_add_cell cs ref s
    = fold (\<lambda>p r. Some (case r of None \<Rightarrow> p | Some q \<Rightarrow> max p q)) (held s cs) (ref s)"
  using assms
proof (induction cs arbitrary: ref)
  case (Cons c cs)
  then show ?case by (simp add: ref_add_cell_at)
qed simp

lemma fold_opt_max:
  "fold (\<lambda>p r. Some (case r of None \<Rightarrow> p | Some q \<Rightarrow> max p q)) ps (Some r) = Some (fold max ps (r :: int))"
  by (induction ps arbitrary: r) (auto simp: max.commute)

lemma ref_tok_at:
  "ref_add_tok t ref s = (if s \<in> set (b_seqs t)
     then Some (case ref s of None \<Rightarrow> b_pos t | Some q \<Rightarrow> min (b_pos t) q) else ref s)"
proof -
  have "fold (\<lambda>s ref. case ref s of None \<Rightarrow> ref(s \<mapsto> p)
        | Some q \<Rightarrow> if q > p then ref(s \<mapsto> p) else ref) ss ref s
     = (if s \<in> set ss then Some (case ref s of None \<Rightarrow> p | Some q \<Rightarrow> min p q) else ref s)" for ss and p :: int
  proof (induction ss arbitrary: ref)
    case (Cons u ss)
    then show ?case by (cases "ref u"; cases "s = u") (auto simp: min_def split: option.splits)
  qed simp
  then show ?thesis by (simp add: ref_add_tok_def)
qed

definition batch_positions :: "batch_tok list \<Rightarrow> int \<Rightarrow> int list" where
  "batch_positions ts s = map b_pos (filter (\<lambda>t. s \<in> set (b_seqs t)) ts)"

lemma ref_toks:
  "fold ref_add_tok ts ref s
    = fold (\<lambda>p r. Some (case r of None \<Rightarrow> p | Some q \<Rightarrow> min p q)) (batch_positions ts s) (ref s)"
  by (induction ts arbitrary: ref) (simp_all add: ref_tok_at batch_positions_def)

lemma fold_opt_min:
  "fold (\<lambda>p r. Some (case r of None \<Rightarrow> p | Some q \<Rightarrow> min p q)) ps (Some r) = Some (fold min ps (r :: int))"
  by (induction ps arbitrary: r) (auto simp: min.commute)

text \<open>The reference of a sequence: the first position the batch asks for it, or the last position
  the cache holds when the batch does not mention it.\<close>

definition ref_pos :: "kv_cache \<Rightarrow> batch_tok list \<Rightarrow> int \<Rightarrow> int" where
  "ref_pos c ts s = (if batch_positions ts s \<noteq> [] then Min (set (batch_positions ts s))
                     else Max (seq_positions c s))"

lemma swa_ref_at:
  assumes "kv_inv c" "seq_positions c s \<noteq> {}"
  shows "swa_ref (cells c) ts s = Some (ref_pos c ts s)"
proof (cases "batch_positions ts s")
  case Nil
  obtain p ps where h: "held s (cells c) = p # ps"
    using set_held[OF assms(1), of s] assms(2) by (cases "held s (cells c)") auto
  have "fold ref_add_cell (cells c) Map.empty s = Some (Max (seq_positions c s))"
    unfolding ref_cells[OF kv_inv_finite[OF assms(1)]] h set_held[OF assms(1), of s, symmetric]
    by (simp add: fold_opt_max fold_max_Max)
  with Nil show ?thesis by (simp add: swa_ref_def map_add_def ref_toks ref_pos_def)
next
  case (Cons p ps)
  then have "fold ref_add_tok ts Map.empty s = Some (Min (set (batch_positions ts s)))"
    by (simp add: ref_toks fold_opt_min fold_min_Min)
  with Cons show ?thesis by (simp add: swa_ref_def map_add_def ref_pos_def)
qed

subsection \<open>Eviction\<close>

definition evictable :: "(int \<rightharpoonup> int) \<Rightarrow> int \<Rightarrow> kv_cell \<Rightarrow> bool" where
  "evictable ref nk c \<longleftrightarrow> 0 \<le> pos c \<and> seq_id c \<noteq> {} \<and> \<not> swa_live ref nk c"

lemma evict_fold:
  "fst (fold (evict_step sz ref nk) ks (st, nh, n)) = fold (drop_if (evictable ref nk)) ks st"
proof (induction ks arbitrary: st nh n)
  case (Cons i ks)
  obtain cs idx u te where st: "st = (cs, idx, u, te)" by (metis prod_cases4)
  have "fst (evict_step sz ref nk i (st, nh, n)) = drop_if (evictable ref nk) i st"
    by (auto simp: st evict_step_def drop_if_def evictable_def)
  then show ?case using Cons.IH by (metis fold_simps(2) prod.collapse)
qed simp

lemma swa_evict_after_drop:
  "\<exists>h. swa_evict True n_swa g ts c = after_drop (evictable (swa_ref (cells c) ts) (n_swa + g)) [0..<size c] h c
     \<and> (h = head c \<or> h < head c)"
proof -
  let ?r = "fold (evict_step (size c) (swa_ref (cells c) ts) (n_swa + g)) [0..<size c]
      ((cells c, seq_index c, used c, tag_epoch c), size c, 0)"
  let ?h = "if snd (snd ?r) > 0 \<and> fst (snd ?r) < head c then fst (snd ?r) else head c"
  have "swa_evict True n_swa g ts c
      = after_drop (evictable (swa_ref (cells c) ts) (n_swa + g)) [0..<size c] ?h c"
    unfolding swa_evict_def after_drop_def evict_fold[symmetric, where sz = "size c" and nh = "size c" and n = 0]
    by (simp add: case_prod_beta Let_def)
  then show ?thesis by auto
qed

lemma evictable_live: "evictable ref nk c \<Longrightarrow> live c"
  by (simp add: evictable_def live_def)

lemma kv_inv_swa_evict_active:
  assumes "kv_inv c"
  shows "kv_inv (swa_evict True n_swa g ts c)"
proof -
  from swa_evict_after_drop[of n_swa g ts c] obtain h where
    "swa_evict True n_swa g ts c = after_drop (evictable (swa_ref (cells c) ts) (n_swa + g)) [0..<size c] h c"
    and "h = head c \<or> h < head c" by blast
  then show ?thesis
    using assms kv_inv_after_drop[where ks = "[0..<size c]" and h = h, OF assms evictable_live]
    by (auto simp: kv_inv_def)
qed

lemma swa_evict_inactive [simp]: "swa_evict False n_swa g ts c = c"
  by (simp add: swa_evict_def)

lemma kv_inv_swa_evict: "kv_inv c \<Longrightarrow> kv_inv (swa_evict act n_swa g ts c)"
  by (cases act) (simp_all add: kv_inv_swa_evict_active)

lemma evictable_iff:
  assumes "kv_inv c" "(i, p) \<in> kv_view c s"
  shows "evictable (swa_ref (cells c) ts) nk (cells c ! i)
    \<longleftrightarrow> (\<forall>t. (i, p) \<in> kv_view c t \<longrightarrow> nk \<le> ref_pos c ts t - p)"
proof -
  have i: "i < length (cells c)" "s \<in> seq_id (cells c ! i)" "p = pos (cells c ! i)"
    using assms(2) by (simp_all add: kv_view_iff)
  have fin: "finite (seq_id (cells c ! i))" using kv_inv_finite[OF assms(1)] i(1) by simp
  have ref: "swa_ref (cells c) ts t = Some (ref_pos c ts t)" if "t \<in> seq_id (cells c ! i)" for t
  proof (rule swa_ref_at[OF assms(1)])
    have "(i, p) \<in> kv_view c t" using i that by (simp add: kv_view_iff)
    then show "seq_positions c t \<noteq> {}" by (auto simp: seq_positions_def)
  qed
  have "swa_live (swa_ref (cells c) ts) nk (cells c ! i)
      \<longleftrightarrow> (\<exists>t \<in> seq_id (cells c ! i). ref_pos c ts t - p < nk)"
    using fin ref i(3) by (auto simp: swa_live_def list_ex_iff)
  moreover have "0 \<le> pos (cells c ! i)" using kv_view_pos[OF assms] i by simp
  ultimately show ?thesis
    using i by (auto simp: evictable_def kv_view_iff not_less)
qed

lemma kv_view_swa_evict:
  assumes "kv_inv c"
  shows "kv_view (swa_evict True n_swa g ts c) s
    = {e \<in> kv_view c s. \<not> evictable (swa_ref (cells c) ts) (n_swa + g) (cells c ! fst e)}"
proof -
  let ?P = "evictable (swa_ref (cells c) ts) (n_swa + g)"
  from swa_evict_after_drop[of n_swa g ts c] obtain h where
    h: "swa_evict True n_swa g ts c = after_drop ?P [0..<size c] h c" by blast
  have "fst e \<in> set [0..<size c]" if "e \<in> kv_view c s" for e
    using assms that by (auto simp: kv_inv_def kv_view_def)
  then show ?thesis unfolding h kv_view_after_drop[OF distinct_upt] by blast
qed

lemma demo_refs:
  "ref_pos demo_cache demo_batch 0 = 2" "ref_pos demo_cache demo_batch 1 = 1"
proof -
  have b: "batch_positions demo_batch 0 = [2, 3]" "batch_positions demo_batch 1 = []"
    by (simp_all add: batch_positions_def demo_batch_def)
  show "ref_pos demo_cache demo_batch 0 = 2" "ref_pos demo_cache demo_batch 1 = 1"
    by (simp_all add: ref_pos_def b seq_positions_def demo_view)
qed

lemma demo_owners:
  "(\<exists>t. e \<in> kv_view demo_cache t \<and> ref_pos demo_cache demo_batch t - snd e < 1 + 0) \<longleftrightarrow>
      e \<in> kv_view demo_cache 0 \<and> 1 < snd e \<or> e \<in> kv_view demo_cache 1 \<and> 0 < snd e"
proof -
  have "t = 0 \<or> t = 1" if "e \<in> kv_view demo_cache t" for t
    using that by (auto simp: kv_view_def demo_cache_def fresh_cache_def less_Suc_eq numeral_eq_Suc)
  then have "(\<exists>t. e \<in> kv_view demo_cache t \<and> Q t) \<longleftrightarrow>
      e \<in> kv_view demo_cache 0 \<and> Q 0 \<or> e \<in> kv_view demo_cache 1 \<and> Q 1" for Q by blast
  then show ?thesis by (simp add: demo_refs)
qed

lemma demo_evicts: "(1, 1) \<notin> kv_view (swa_evict True 1 0 demo_batch demo_cache) 0"
proof -
  have v: "(1, 1) \<in> kv_view demo_cache 0" by (simp add: demo_view)
  have "t = 0" if "(1, 1) \<in> kv_view demo_cache t" for t
    using that by (auto simp: kv_view_def demo_cache_def fresh_cache_def)
  then have "evictable (swa_ref (cells demo_cache) demo_batch) (1 + 0) (cells demo_cache ! 1)"
    unfolding evictable_iff[OF demo_inv v] using demo_refs(1) by (metis add.right_neutral diff_add_cancel
        numeral_One one_add_one order_refl add_diff_cancel_left')
  then show ?thesis by (simp add: kv_view_swa_evict[OF demo_inv])
qed

text \<open>the eviction of an active cache keeps the invariant (the index mirrors it) and keeps of every sequence exactly
  the cells some owner of which still has its reference position inside the window widened by the
  guard; the reference is the first position the batch queries for that owner, or the owner's last
  position in the cache when the batch does not mention it.\<close>

theorem swa_evict_exact:
  assumes "kv_inv c"
  shows "kv_inv (swa_evict True n_swa g ts c) \<and> kv_view (swa_evict True n_swa g ts c) s
    = {e \<in> kv_view c s. \<exists>t. e \<in> kv_view c t \<and> ref_pos c ts t - snd e < n_swa + g}"
proof -
  let ?P = "evictable (swa_ref (cells c) ts) (n_swa + g)"
  note view = kv_view_swa_evict[OF assms]
  have "?P (cells c ! fst e) \<longleftrightarrow> (\<forall>t. e \<in> kv_view c t \<longrightarrow> n_swa + g \<le> ref_pos c ts t - snd e)"
    if "e \<in> kv_view c s" for e
    using evictable_iff[OF assms, of "fst e" "snd e" s ts "n_swa + g"] that by simp
  then have "{e \<in> kv_view c s. \<not> ?P (cells c ! fst e)}
      = {e \<in> kv_view c s. \<exists>t. e \<in> kv_view c t \<and> ref_pos c ts t - snd e < n_swa + g}"
    by (intro Collect_cong conj_cong refl) (simp only: not_all not_imp not_le)
  then show ?thesis using kv_inv_swa_evict[OF assms] unfolding view by blast
qed

theorem swa_evict_exact_witness:
  "kv_view (swa_evict True 1 0 demo_batch demo_cache) 1 = {(2, 1)}"
proof -
  have "{e \<in> kv_view demo_cache 1. \<exists>t. e \<in> kv_view demo_cache t
      \<and> ref_pos demo_cache demo_batch t - snd e < 1 + 0} = {(2, 1)}"
    unfolding demo_owners demo_view by auto
  then show ?thesis unfolding conjunct2[OF swa_evict_exact[OF demo_inv]] .
qed

text \<open>C8: the eviction never takes a row a query of the batch can attend to: whenever it drops a cell
  from a sequence, every token of the batch in that sequence is at least the window away from it.\<close>

theorem swa_evict_window_safe:
  assumes "kv_inv c" "0 \<le> g" "(i, p) \<in> kv_view c s" "(i, p) \<notin> kv_view (swa_evict act n_swa g ts c) s"
    and "b \<in> set ts" "s \<in> set (b_seqs b)"
  shows "n_swa \<le> b_pos b - p"
proof -
  have "act" using assms(3,4) by (cases act) simp_all
  then have "evictable (swa_ref (cells c) ts) (n_swa + g) (cells c ! i)"
    using assms(3,4) by (simp add: kv_view_swa_evict[OF assms(1)])
  then have "n_swa + g \<le> ref_pos c ts s - p"
    using evictable_iff[OF assms(1,3)] assms(3) by blast
  moreover have m: "b_pos b \<in> set (batch_positions ts s)"
    using assms(5,6) by (simp add: batch_positions_def)
  then have "ref_pos c ts s \<le> b_pos b" unfolding ref_pos_def by (auto intro: Min_le)
  ultimately show ?thesis using assms(2) by linarith
qed

theorem swa_evict_window_safe_witness: "1 \<le> b_pos (demo_batch ! 0) - 1"
  using swa_evict_window_safe[OF demo_inv _ _ demo_evicts, of "demo_batch ! 0"]
  by (simp add: demo_view demo_batch_def)

subsection \<open>The ring allocator\<close>

lemma swa_search_sound:
  "n \<le> length cs \<Longrightarrow> h \<le> length cs \<Longrightarrow>
   (fst (swa_search cs n h t) \<longrightarrow> free_run cs n (snd (swa_search cs n h t)))
   \<and> snd (swa_search cs n h t) \<le> length cs"
proof (induction cs n h t rule: swa_search.induct)
  case (1 cs n h t)
  show ?case
  proof (cases "length cs < h + n")
    case True
    with 1 show ?thesis by (subst (1 2 3) swa_search.simps) auto
  next
    case False
    show ?thesis
    proof (cases "find (\<lambda>i. 0 \<le> pos (cs ! (h + i))) [0..<n]")
      case None
      with False 1(4) find_occupied_None[OF None] show ?thesis
        by (subst (1 2 3) swa_search.simps) auto
    next
      case (Some i)
      with find_occupied_Some(1)[OF Some] False have "h + i + 1 \<le> length cs" by simp
      with False Some 1(2)[OF False Some _ 1(3)] show ?thesis
        by (subst (1 2 3) swa_search.simps) auto
    qed
  qed
qed

lemma swa_search_complete:
  "0 < n \<Longrightarrow> h0 \<le> length cs \<Longrightarrow> h \<le> length cs \<Longrightarrow> refuted cs n h0 h t \<Longrightarrow>
   \<not> fst (swa_search cs n h t) \<Longrightarrow> \<not> free_run cs n j"
proof (induction cs n h t rule: swa_search.induct)
  case (1 cs n h t)
  note ref = 1(6) and nf = 1(7) and n = 1(3) and h0 = 1(4) and h = 1(5)
  show ?case
  proof (cases "length cs < h + n")
    case True
    note wrap = refuted_wrap[OF ref True h0 h]
    show ?thesis
    proof (cases "length cs \<le> t + (length cs - h)")
      case full: True
      show ?thesis by (rule refuted_exhausted[OF wrap full h0 _ n]) simp
    next
      case False
      with nf True have "\<not> fst (swa_search cs n 0 (t + (length cs - h)))"
        by (subst (asm) swa_search.simps) simp
      from 1(1)[OF True False n h0 _ wrap this] show ?thesis by simp
    qed
  next
    case False
    show ?thesis
    proof (cases "find (\<lambda>i. 0 \<le> pos (cs ! (h + i))) [0..<n]")
      case None
      with nf False show ?thesis by (subst (asm) swa_search.simps) simp
    next
      case (Some i)
      note skip = refuted_skip[OF ref find_occupied_Some(2)[OF Some]]
      have h': "h + i + 1 \<le> length cs" using find_occupied_Some(1)[OF Some] False by simp
      show ?thesis
      proof (cases "length cs \<le> t + i + 1")
        case True
        then show ?thesis using refuted_exhausted[OF skip _ h0 h' n] by blast
      next
        case go: False
        with nf False Some have "\<not> fst (swa_search cs n (h + i + 1) (t + i + 1))"
          by (subst (asm) swa_search.simps) simp
        from 1(2)[OF False Some go n h0 h' _ this] skip show ?thesis by blast
      qed
    qed
  qed
qed

lemma swa_find_slot_cases:
  assumes "kv_inv c"
  obtains "swa_find_slot ts c = (False, c)" "size c < length ts"
  | h where "swa_find_slot ts c = (False, c\<lparr>head := h\<rparr>)" "h \<le> size c"
      "\<not> fst (swa_search (cells c) (length ts) (head c) 0)"
  | h where "swa_find_slot ts c = (True, after_place False h ts c)" "free_run (cells c) (length ts) h"
proof (cases "size c < length ts")
  case True
  with that(1) show ?thesis by (simp add: swa_find_slot_def)
next
  case False
  have sz: "length (cells c) = size c" "head c \<le> size c" using assms by (simp_all add: kv_inv_def)
  obtain b h where r: "swa_search (cells c) (length ts) (head c) 0 = (b, h)" by fastforce
  have s: "b \<longrightarrow> free_run (cells c) (length ts) h" "h \<le> size c"
    using swa_search_sound[of "length ts" "cells c" "head c" 0] False sz r by simp_all
  show ?thesis
  proof (cases b)
    case True
    with False r have "swa_find_slot ts c = (True, after_place False h ts c)"
      by (simp add: swa_find_slot_def after_place_def cell_max_widen_def case_prod_beta Let_def)
    with s True that(3) show ?thesis by blast
  next
    case no: False
    with False r have "swa_find_slot ts c = (False, c\<lparr>head := h\<rparr>)" by (simp add: swa_find_slot_def)
    with s no r that(2) show ?thesis by simp
  qed
qed

interpretation ring: slot_allocator "\<lambda>ts c. Some (swa_find_slot ts c)"
proof (unfold_locales, goal_cases)
  case (1 c ts)
  then show ?case by simp
next
  case (2 c ts c' s)
  then show ?case by (cases rule: swa_find_slot_cases[OF 2(1), of ts]) (auto intro: kv_inv_head)
next
  case (3 c ts c')
  show ?case
  proof (cases rule: swa_find_slot_cases[OF 3(1), of ts])
    case (3 h)
    with \<open>Some (swa_find_slot ts c) = Some (True, c')\<close>
    have c': "c' = after_place False h ts c" by simp
    have "\<forall>s. kv_view (after_place False h ts c) s = kv_view c s \<union> placed_rows h ts s"
      using kv_view_after_place[OF \<open>kv_inv c\<close> 3(2)] by blast
    then show ?thesis
      unfolding c' using 3(2) kv_inv_after_place[OF \<open>kv_inv c\<close> 3(2) \<open>batch_ok ts\<close>, of False] by simp
  qed (use 3 in auto)
qed

text \<open>the ring allocator of the sliding cache terminates; a success gives every token of the
  batch a free cell of its own in one run and changes nothing else (no live row is overwritten), and
  a refusal changes no sequence and means that no free run of that length exists (the allocator
  does not wedge).\<close>

theorem swa_find_slot_places:
  assumes "kv_inv c" "batch_ok ts" "ts \<noteq> []"
  shows "kv_inv (snd (swa_find_slot ts c)) \<and>
    (if fst (swa_find_slot ts c)
     then free_run (cells c) (length ts) (head (snd (swa_find_slot ts c)))
       \<and> kv_view (snd (swa_find_slot ts c)) s
         = kv_view c s \<union> placed_rows (head (snd (swa_find_slot ts c))) ts s
     else kv_view (snd (swa_find_slot ts c)) s = kv_view c s \<and> \<not> free_run (cells c) (length ts) j)"
proof -
  obtain b c' where r: "swa_find_slot ts c = (b, c')" by fastforce
  show ?thesis
  proof (cases b)
    case True
    then show ?thesis using ring.alloc_places[OF assms(1,2), of c'] r by simp
  next
    case False
    have "\<not> free_run (cells c) (length ts) j"
    proof (cases rule: swa_find_slot_cases[OF assms(1), of ts])
      case 1
      with assms(1) show ?thesis by (simp add: free_run_def kv_inv_def)
    next
      case (2 h)
      have "refuted (cells c) (length ts) (head c) (head c) 0" unfolding refuted_def by (rule disjI1) auto
      with 2(3) assms(1,3) show ?thesis
        by (intro swa_search_complete[where h = "head c" and t = 0]) (auto simp: kv_inv_def)
    next
      case (3 h)
      with r False show ?thesis by simp
    qed
    then show ?thesis using ring.alloc_refuses[OF assms(1), of ts c' s] r False by simp
  qed
qed

theorem swa_find_slot_places_witness: "kv_inv (snd (swa_find_slot demo_batch demo_cache))"
  using swa_find_slot_places[OF demo_inv demo_batch_ok] by (auto simp: demo_batch_def)

subsection \<open>Undoing a placement\<close>

lemma swa_release_after_drop:
  "swa_release_slot h n c = after_drop live [h..<min (h + n) (size c)] (head c) c"
proof -
  have "release_step i st = drop_if live i st" for i st
    by (simp add: release_step_def drop_if_def live_def case_prod_beta)
  then have "release_step = drop_if live" by blast
  then show ?thesis by (simp add: swa_release_slot_def after_drop_def case_prod_beta Let_def)
qed

text \<open>C9: undoing the placement of a batch in the sliding cache restores the view of every sequence
  and keeps the invariant, so a decode that fails after the placement leaves both caches agreeing
  on which tokens exist.\<close>

theorem swa_release_undoes_placement:
  assumes "kv_inv c" "batch_ok ts" "swa_find_slot ts c = (True, c')"
  shows "kv_inv (swa_release_slot (head c') (length ts) c')
    \<and> kv_view (swa_release_slot (head c') (length ts) c') s = kv_view c s"
proof -
  have c': "kv_inv c'" "size c' = size c" "free_run (cells c) (length ts) (head c')"
      "kv_view c' s = kv_view c s \<union> placed_rows (head c') ts s"
    using ring.alloc_places[OF assms(1,2), of c'] assms(3) by auto
  let ?ks = "[head c'..<min (head c' + length ts) (size c')]"
  have sz: "length (cells c) = size c" using assms(1) by (simp add: kv_inv_def)
  have run: "min (head c' + length ts) (size c') = head c' + length ts"
    using c'(2,3) sz by (simp add: free_run_def)
  have live: "live (cells c' ! fst e)" if "e \<in> kv_view c' s" for e
    using kv_view_pos[OF c'(1), of "fst e" "snd e" s] that by (auto simp: live_def kv_view_def)
  have old: "fst e \<notin> set ?ks" if "e \<in> kv_view c s" for e
  proof
    assume "fst e \<in> set ?ks"
    then obtain j where "fst e = head c' + j" "j < length ts" using run by (metis atLeastLessThan_iff
        set_upt add_less_cancel_left le_add_diff_inverse)
    with free_run_empty(1)[OF assms(1) c'(3)] that show False by (auto simp: kv_view_def)
  qed
  have new: "fst e \<in> set ?ks" if "e \<in> placed_rows (head c') ts s" for e
    using that run by (auto simp: placed_rows_def)
  have "kv_view (swa_release_slot (head c') (length ts) c') s
      = {e \<in> kv_view c' s. \<not> (fst e \<in> set ?ks \<and> live (cells c' ! fst e))}"
    unfolding swa_release_after_drop by (rule kv_view_after_drop) simp
  also have "\<dots> = {e \<in> kv_view c' s. fst e \<notin> set ?ks}" using live by blast
  also have "\<dots> = kv_view c s" unfolding c'(4) using old new by blast
  finally have view: "kv_view (swa_release_slot (head c') (length ts) c') s = kv_view c s" .
  have "kv_inv (swa_release_slot (head c') (length ts) c')"
    unfolding swa_release_after_drop by (rule kv_inv_after_drop[OF c'(1)]) (use c'(1) in \<open>auto simp: kv_inv_def\<close>)
  with view show ?thesis by blast
qed

lemma demo_ring: "swa_find_slot demo_batch demo_cache = (True, after_place False 3 demo_batch demo_cache)"
proof -
  have "find (\<lambda>i. 0 \<le> pos (cells demo_cache ! (3 + i))) [0..<2] = None"
    by (auto simp: find_None_iff demo_cache_def fresh_cache_def less_Suc_eq numeral_eq_Suc)
  then have "swa_search (cells demo_cache) 2 3 0 = (True, 3)"
    by (subst swa_search.simps) (simp add: demo_cache_def fresh_cache_def)
  moreover have "size demo_cache = 6" "head demo_cache = 3" "length demo_batch = 2"
    by (simp_all add: demo_cache_def fresh_cache_def demo_batch_def)
  ultimately show ?thesis
    by (simp add: swa_find_slot_def after_place_def cell_max_widen_def Let_def case_prod_beta)
qed

theorem swa_release_undoes_placement_witness:
  "kv_view (swa_release_slot 3 2 (after_place False 3 demo_batch demo_cache)) 0 = {(0, 0), (1, 1)}"
proof -
  have "length demo_batch = 2" by (simp add: demo_batch_def)
  with swa_release_undoes_placement[OF demo_inv demo_batch_ok demo_ring, of 0] show ?thesis
    by (simp add: demo_view)
qed

subsection \<open>Coverage\<close>

lemma swa_pos_max_eq:
  assumes "kv_inv c"
  shows "swa_seq_pos_max c s = (if seq_positions c s = {} then -1 else Max (seq_positions c s))"
proof -
  have "fold (\<lambda>cell r. if 0 \<le> pos cell \<and> has_seq_id s cell then max r (pos cell) else r) cs r
      = fold max (held s cs) r" for cs r
    by (induction cs arbitrary: r) (auto simp: max.commute)
  then have "swa_seq_pos_max c s = Max (insert (-1) (seq_positions c s))"
    unfolding swa_seq_pos_max_def by (simp only: fold_max_Max set_held[OF assms])
  moreover have "\<forall>x \<in> seq_positions c s. -1 \<le> x" using positions_nonneg[OF assms] by fastforce
  ultimately show ?thesis using Max_insert_lower[OF positions_finite, of c s "-1"] by auto
qed

lemma length_mark_seen [simp]: "length (fold (mark_seen s lo pmax) cs seen) = length seen"
  by (induction cs arbitrary: seen) (simp_all add: mark_seen_def)

lemma mark_seen_nth:
  assumes "length seen = nat (pmax - lo + 1)" "k < length seen"
  shows "fold (mark_seen s lo pmax) cs seen ! k \<longleftrightarrow>
    seen ! k \<or> (\<exists>c \<in> set cs. s \<in> seq_id c \<and> pos c = lo + int k)"
  using assms
proof (induction cs arbitrary: seen)
  case (Cons c cs)
  let ?seen = "mark_seen s lo pmax c seen"
  have "length ?seen = nat (pmax - lo + 1)" "k < length ?seen"
    using Cons.prems by (simp_all add: mark_seen_def)
  note IH = Cons.IH[OF this]
  have "?seen ! k \<longleftrightarrow> seen ! k \<or> (s \<in> seq_id c \<and> pos c = lo + int k)"
    using Cons.prems by (auto simp: mark_seen_def nth_list_update)
  with IH show ?case by auto
qed simp

text \<open>the coverage check accepts a sequence exactly when the sliding cache holds every position
  of its last window, or when neither cache holds anything of it.\<close>

theorem swa_coverage_exact:
  assumes "kv_inv c" "kv_inv kv_self" "1 \<le> n_swa"
  shows "swa_coverage_ok True n_swa kv_self c s \<longleftrightarrow>
    (if seq_positions c s = {} then seq_positions kv_self s = {}
     else {max 0 (Max (seq_positions c s) - n_swa + 1) .. Max (seq_positions c s)} \<subseteq> seq_positions c s)"
proof (cases "seq_positions c s = {}")
  case True
  have "0 \<le> Max (seq_positions kv_self s)" if "seq_positions kv_self s \<noteq> {}"
    using positions_nonneg[OF assms(2)] Max_in[OF positions_finite that] by blast
  then have "seq_positions kv_self s = {} \<or> \<not> Max (seq_positions kv_self s) < 0" by linarith
  with True show ?thesis
    by (auto simp: swa_coverage_ok_def swa_pos_max_eq[OF assms(1)] swa_pos_max_eq[OF assms(2)] Let_def)
next
  case False
  let ?P = "seq_positions c s" and ?m = "Max (seq_positions c s)"
  let ?lo = "max 0 (?m - n_swa + 1)"
  let ?seen = "replicate (nat (?m - ?lo + 1)) False"
  have m: "0 \<le> ?m" using positions_nonneg[OF assms(1)] Max_in[OF positions_finite False] by blast
  have P: "(\<exists>x \<in> set (cells c). s \<in> seq_id x \<and> pos x = p) \<longleftrightarrow> p \<in> ?P" for p
    by (force simp: seq_positions_def kv_view_def in_set_conv_nth)
  have "swa_coverage_ok True n_swa kv_self c s
      \<longleftrightarrow> (\<forall>k < nat (?m - ?lo + 1). fold (mark_seen s ?lo ?m) (cells c) ?seen ! k)"
    using m False by (simp add: swa_coverage_ok_def swa_pos_max_eq[OF assms(1)] Let_def list_all_length)
  also have "\<dots> \<longleftrightarrow> (\<forall>k < nat (?m - ?lo + 1). ?lo + int k \<in> ?P)"
    using mark_seen_nth[of ?seen ?m ?lo _ s "cells c"] P by simp
  also have "\<dots> \<longleftrightarrow> {?lo .. ?m} \<subseteq> ?P"
  proof
    assume all: "\<forall>k < nat (?m - ?lo + 1). ?lo + int k \<in> ?P"
    show "{?lo .. ?m} \<subseteq> ?P"
    proof
      fix p assume "p \<in> {?lo .. ?m}"
      then have "nat (p - ?lo) < nat (?m - ?lo + 1)" "?lo + int (nat (p - ?lo)) = p" by auto
      with all show "p \<in> ?P" by metis
    qed
  next
    assume sub: "{?lo .. ?m} \<subseteq> ?P"
    show "\<forall>k < nat (?m - ?lo + 1). ?lo + int k \<in> ?P"
    proof (intro allI impI)
      fix k assume "k < nat (?m - ?lo + 1)"
      then have "?lo + int k \<in> {?lo .. ?m}" by auto
      with sub show "?lo + int k \<in> ?P" by blast
    qed
  qed
  finally show ?thesis using False by simp
qed

theorem swa_coverage_exact_witness: "swa_coverage_ok True 2 demo_cache demo_cache 0"
  using swa_coverage_exact[OF demo_inv demo_inv, of 2 0] by (auto simp: demo_view seq_positions_def)

end
