(* ===== verification/KpoolGrid.thy ===== *)
theory KpoolGrid
  imports Prelude "HOL-Library.Multiset"
begin

section \<open>The pooled indexer grid (src/llama-kpool-grid.cpp)\<close>

text \<open>
  The indexer scores pools of \<open>K\<close> consecutive tokens of one sequence.  \<open>build_layout\<close> derives the
  pool grid from the occupied cells; \<open>append_layout\<close> extends a grid with cells newer than
  everything cached, resuming the scan at its cursor; \<open>mark_new\<close> and \<open>mark_new_appended\<close> flag the
  pools an ubatch completes; \<open>grid_diff\<close> (src/llama-kv-cache-kpool.cpp) compares two grids.
  The result of the theory: an appended grid is the grid built from scratch, flags included, and a
  grid's pools are exactly the complete aligned blocks.  The C++ asserts \<open>kpool > 1\<close> and
  \<open>n_seq_max > 0\<close> are the value \<open>None\<close>; counts are \<open>nat\<close>, far below the \<open>2^32\<close> of the code.
\<close>

record cell_desc =
  cd_pos :: int
  cd_cell :: nat
  cd_seqs :: "int list"

record tok_desc =
  td_pos :: int
  td_seqs :: "int list"

record kpool_seq =
  kp_min :: int
  kp_cells :: "(int \<times> nat) list"
  kp_pools :: "nat list"
  kp_new :: "bool list"
  kp_scan :: nat

record kpool_state =
  ks_seqs :: "kpool_seq list"
  n_pool_real :: nat
  n_new :: nat
  cache_safe :: bool

definition empty_seq :: kpool_seq where
  "empty_seq = \<lparr>kp_min = 0, kp_cells = [], kp_pools = [], kp_new = [], kp_scan = 0\<rparr>"

subsection \<open>Sizes\<close>

definition ggml_pad :: "nat \<Rightarrow> nat \<Rightarrow> nat" where
  "ggml_pad x n = (x + n - 1) div n * n"

definition kpool_pad :: "nat \<Rightarrow> nat" where
  "kpool_pad n = max 64 (ggml_pad (n + 1) 64)"

definition kpool_n_top :: "nat \<Rightarrow> nat \<Rightarrow> nat \<Rightarrow> nat" where
  "kpool_n_top n_pool top_k K = min n_pool (top_k div K)"

definition kpool_n_sel :: "nat \<Rightarrow> nat \<Rightarrow> bool \<Rightarrow> nat" where
  "kpool_n_sel n_top K select_tail = K * n_top + (if select_tail then K - 1 else 0)"

definition kpool_n_new_floor :: "nat \<Rightarrow> nat \<Rightarrow> nat \<Rightarrow> nat" where
  "kpool_n_new_floor n_pool n_tokens K = min (n_pool - 1) (n_tokens div K + 1)"

subsection \<open>The pool scan\<close>

definition consecutive :: "nat \<Rightarrow> (int \<times> nat) list \<Rightarrow> nat \<Rightarrow> bool" where
  "consecutive K cs j \<longleftrightarrow> list_all (\<lambda>k. fst (cs ! (j + k)) = fst (cs ! j) + int k) [1..<K]"

text \<open>The loop of the scan from index \<open>j\<close>; it returns the pools found and where it stopped.\<close>

function pool_scan :: "nat \<Rightarrow> int \<Rightarrow> (int \<times> nat) list \<Rightarrow> nat \<Rightarrow> nat list \<Rightarrow> nat list \<times> nat" where
  "pool_scan K pm cs j ps =
     (if K = 0 \<or> length cs < j + K then (ps, j)
      else if (fst (cs ! j) - pm) mod int K \<noteq> 0 then pool_scan K pm cs (j + 1) ps
      else if consecutive K cs j then pool_scan K pm cs (j + K) (ps @ [j])
      else pool_scan K pm cs (j + 1) ps)"
  by pat_completeness auto

termination
  by (relation "measure (\<lambda>(K, pm, cs, j, ps). length cs - j)") auto

declare pool_scan.simps [simp del]

subsection \<open>Building a layout from scratch\<close>

definition push_cell :: "int \<times> nat \<Rightarrow> nat \<Rightarrow> kpool_seq list \<Rightarrow> kpool_seq list" where
  "push_cell e s seqs = seqs[s := (seqs ! s)\<lparr>kp_cells := kp_cells (seqs ! s) @ [e]\<rparr>]"

definition add_desc :: "nat \<Rightarrow> cell_desc \<Rightarrow> kpool_seq list \<times> bool \<Rightarrow> kpool_seq list \<times> bool" where
  "add_desc n c st =
     (case st of (seqs, safe) \<Rightarrow>
        if cd_seqs c = [] then (seqs, safe)
        else (fold (\<lambda>s seqs. if s < 0 \<or> n \<le> nat s then seqs else push_cell (cd_pos c, cd_cell c) (nat s) seqs)
                (cd_seqs c) seqs,
              if length (cd_seqs c) > 1 then False else safe))"

definition scan_seq :: "nat \<Rightarrow> kpool_seq \<Rightarrow> kpool_seq" where
  "scan_seq K sq =
     (if kp_cells sq = [] then sq
      else let cs = (if sorted (kp_cells sq) then kp_cells sq else sort (kp_cells sq));
               pm = fst (hd cs);
               (ps, j) = pool_scan K pm cs 0 (kp_pools sq)
           in sq\<lparr>kp_cells := cs, kp_min := pm, kp_pools := ps, kp_scan := j\<rparr>)"

definition n_pools :: "kpool_seq list \<Rightarrow> nat" where
  "n_pools seqs = sum_list (map (\<lambda>sq. length (kp_pools sq)) seqs)"

definition layout_of :: "cell_desc list \<Rightarrow> nat \<Rightarrow> nat \<Rightarrow> kpool_state" where
  "layout_of cs K n =
     (let (seqs, safe) = fold (add_desc n) cs (replicate n empty_seq, True);
          seqs' = map (scan_seq K) seqs
      in \<lparr>ks_seqs = map (\<lambda>sq. sq\<lparr>kp_new := replicate (length (kp_pools sq)) False\<rparr>) seqs',
          n_pool_real = n_pools seqs', n_new = 0, cache_safe = safe\<rparr>)"

definition build_layout :: "cell_desc list \<Rightarrow> nat \<Rightarrow> nat \<Rightarrow> kpool_state option" where
  "build_layout cs K n = (if K \<le> 1 \<or> n = 0 then None else Some (layout_of cs K n))"

subsection \<open>Marking the pools an ubatch wrote\<close>

definition written_positions :: "tok_desc list \<Rightarrow> nat \<Rightarrow> int list" where
  "written_positions toks s =
     (let up = concat (map (\<lambda>t. map (\<lambda>_. td_pos t) (filter (\<lambda>u. u = int s) (td_seqs t))) toks)
      in if sorted up then up else sort up)"

text \<open>\<open>std::lower_bound\<close> finds the first written position that is not below the pool's first.\<close>

definition pool_written :: "nat \<Rightarrow> int list \<Rightarrow> int \<Rightarrow> bool" where
  "pool_written K up p0 =
     (case dropWhile (\<lambda>x. x < p0) up of [] \<Rightarrow> False | x # _ \<Rightarrow> x < p0 + int K)"

definition count_new :: "kpool_seq list \<Rightarrow> nat" where
  "count_new seqs = sum_list (map (\<lambda>sq. length (filter (\<lambda>b. b) (kp_new sq))) seqs)"

definition mark_seq :: "nat \<Rightarrow> bool \<Rightarrow> int list \<Rightarrow> kpool_seq \<Rightarrow> kpool_seq" where
  "mark_seq K all_new up sq = sq\<lparr>kp_new :=
     (if all_new then replicate (length (kp_pools sq)) True
      else if up = [] then replicate (length (kp_pools sq)) False
      else map (\<lambda>j. pool_written K up (fst (kp_cells sq ! j))) (kp_pools sq))\<rparr>"

definition mark_new :: "kpool_state \<Rightarrow> tok_desc list \<Rightarrow> nat \<Rightarrow> bool \<Rightarrow> kpool_state" where
  "mark_new st toks K all_new' =
     (let all_new = (all_new' \<or> \<not> cache_safe st);
          seqs = map (\<lambda>s. mark_seq K all_new (if all_new then [] else written_positions toks s) (ks_seqs st ! s))
                   [0..<length (ks_seqs st)]
      in st\<lparr>ks_seqs := seqs, n_new := count_new seqs\<rparr>)"

subsection \<open>Appending\<close>

text \<open>The validation pass; \<open>lst\<close> is the newest position of every sequence so far.\<close>

fun append_ok :: "int option list \<Rightarrow> cell_desc list \<Rightarrow> bool" where
  "append_ok lst [] = True"
| "append_ok lst (c # cs) =
     (if length (cd_seqs c) \<noteq> 1 then False
      else let s = hd (cd_seqs c) in
        if s < 0 \<or> length lst \<le> nat s then False
        else if (case lst ! nat s of None \<Rightarrow> False | Some p \<Rightarrow> cd_pos c \<le> p) then False
        else append_ok (lst[nat s := Some (cd_pos c)]) cs)"

definition newest :: "kpool_seq \<Rightarrow> int option" where
  "newest sq = (if kp_cells sq = [] then None else Some (fst (last (kp_cells sq))))"

definition append_cell :: "cell_desc \<Rightarrow> kpool_seq list \<Rightarrow> kpool_seq list" where
  "append_cell c seqs =
     (let s = nat (hd (cd_seqs c)); sq = seqs ! s;
          sq' = (if kp_cells sq = [] then sq\<lparr>kp_min := cd_pos c\<rparr> else sq)
      in seqs[s := sq'\<lparr>kp_cells := kp_cells sq' @ [(cd_pos c, cd_cell c)]\<rparr>])"

definition resume_seq :: "nat \<Rightarrow> kpool_seq \<Rightarrow> kpool_seq" where
  "resume_seq K sq =
     (if kp_cells sq = [] then sq
      else let (ps, j) = pool_scan K (kp_min sq) (kp_cells sq) (kp_scan sq) (kp_pools sq)
           in sq\<lparr>kp_pools := ps, kp_scan := j\<rparr>)"

definition append_layout :: "kpool_state \<Rightarrow> cell_desc list \<Rightarrow> nat \<Rightarrow> (bool \<times> kpool_state) option" where
  "append_layout st added K =
     (if K \<le> 1 then None
      else if added = [] then Some (True, st)
      else if \<not> cache_safe st then Some (False, st)
      else if \<not> append_ok (map newest (ks_seqs st)) added then Some (False, st)
      else let seqs = fold append_cell added (ks_seqs st);
               seqs' = map (resume_seq K) seqs
           in Some (True, st\<lparr>ks_seqs := seqs',
                n_pool_real := n_pool_real st + (n_pools seqs' - n_pools seqs)\<rparr>))"

text \<open>\<open>None\<close> is the assertion that the pools before the append are given for every sequence and
  are not more than the pools after it.\<close>

definition mark_new_appended :: "kpool_state \<Rightarrow> nat list \<Rightarrow> kpool_state option" where
  "mark_new_appended st before =
     (if length before \<noteq> length (ks_seqs st) then None
      else if list_ex (\<lambda>s. length (kp_pools (ks_seqs st ! s)) < before ! s) [0..<length before] then None
      else let seqs = map (\<lambda>s. (ks_seqs st ! s)\<lparr>kp_new :=
                 map (\<lambda>i. before ! s \<le> i) [0..<length (kp_pools (ks_seqs st ! s))]\<rparr>) [0..<length (ks_seqs st)]
           in Some (st\<lparr>ks_seqs := seqs, n_new := count_new seqs\<rparr>))"

subsection \<open>Comparing two grids (\<open>llama_kpool_grid_diff\<close>)\<close>

fun seqs_diff :: "nat \<Rightarrow> kpool_seq list \<Rightarrow> kpool_seq list \<Rightarrow> (string \<times> int) option" where
  "seqs_diff s (x # xs) (y # ys) =
     (if kp_min x \<noteq> kp_min y then Some (''pos_min'', int s)
      else if kp_cells x \<noteq> kp_cells y then Some (''cells'', int s)
      else if kp_pools x \<noteq> kp_pools y then Some (''pools'', int s)
      else seqs_diff (Suc s) xs ys)"
| "seqs_diff s xs ys = None"

definition grid_diff :: "kpool_state \<Rightarrow> kpool_state \<Rightarrow> (string \<times> int) option" where
  "grid_diff a b =
     (if n_pool_real a \<noteq> n_pool_real b then Some (''n_pool_real'', -1)
      else if cache_safe a \<noteq> cache_safe b then Some (''cache_safe'', -1)
      else if length (ks_seqs a) \<noteq> length (ks_seqs b) then Some (''seqs.size'', -1)
      else seqs_diff 0 (ks_seqs a) (ks_seqs b))"

subsection \<open>What the scan finds\<close>

definition pool_ok :: "nat \<Rightarrow> int \<Rightarrow> (int \<times> nat) list \<Rightarrow> nat \<Rightarrow> bool" where
  "pool_ok K pm cs j \<longleftrightarrow> j + K \<le> length cs \<and> (fst (cs ! j) - pm) mod int K = 0
     \<and> (\<forall>k < K. fst (cs ! (j + k)) = fst (cs ! j) + int k)"

lemma consecutive_iff:
  "0 < K \<Longrightarrow> consecutive K cs j \<longleftrightarrow> (\<forall>k < K. fst (cs ! (j + k)) = fst (cs ! j) + int k)"
proof -
  assume "0 < K"
  have "consecutive K cs j \<longleftrightarrow> (\<forall>k. 1 \<le> k \<and> k < K \<longrightarrow> fst (cs ! (j + k)) = fst (cs ! j) + int k)"
    by (auto simp: consecutive_def list_all_iff)
  also have "\<dots> \<longleftrightarrow> (\<forall>k < K. fst (cs ! (j + k)) = fst (cs ! j) + int k)"
  proof
    assume a: "\<forall>k. 1 \<le> k \<and> k < K \<longrightarrow> fst (cs ! (j + k)) = fst (cs ! j) + int k"
    show "\<forall>k < K. fst (cs ! (j + k)) = fst (cs ! j) + int k"
    proof (intro allI impI)
      fix k assume "k < K"
      with a show "fst (cs ! (j + k)) = fst (cs ! j) + int k" by (cases "k = 0") auto
    qed
  qed simp
  finally show ?thesis .
qed

text \<open>A pool blocks every index inside it: those are not on the grid.\<close>

lemma pool_ok_apart:
  assumes "pool_ok K pm cs j" "j < i" "i < j + K"
  shows "\<not> pool_ok K pm cs i"
proof
  assume "pool_ok K pm cs i"
  then have i: "(fst (cs ! i) - pm) mod int K = 0" by (simp add: pool_ok_def)
  obtain d where d: "i = j + d" "0 < d" "d < K" using assms(2,3) by (metis less_imp_add_positive nat_add_left_cancel_less)
  then have "fst (cs ! i) = fst (cs ! j) + int d" using assms(1) by (simp add: pool_ok_def)
  with i have "(fst (cs ! j) - pm + int d) mod int K = 0" by (simp add: algebra_simps)
  moreover have "(fst (cs ! j) - pm) mod int K = 0" using assms(1) by (simp add: pool_ok_def)
  ultimately have "int d mod int K = 0" by (metis add.right_neutral mod_add_left_eq add.left_neutral)
  with d(2,3) show False by simp
qed

lemma pool_scan_pools:
  assumes "0 < K"
  shows "fst (pool_scan K pm cs j ps) = ps @ filter (pool_ok K pm cs) [j..<length cs]"
  using assms
proof (induction K pm cs j ps rule: pool_scan.induct)
  case (1 K pm cs j ps)
  show ?case
  proof (cases "length cs < j + K")
    case True
    then have "\<forall>i \<in> set [j..<length cs]. \<not> pool_ok K pm cs i" by (auto simp: pool_ok_def)
    then have "filter (pool_ok K pm cs) [j..<length cs] = []" by (simp add: filter_empty_conv)
    with True 1(4) show ?thesis by (subst pool_scan.simps) simp
  next
    case in_range: False
    then have up: "[j..<length cs] = j # [j + 1..<length cs]" using 1(4) by (simp add: upt_conv_Cons)
    show ?thesis
    proof (cases "pool_ok K pm cs j")
      case True
      then have t: "(fst (cs ! j) - pm) mod int K = 0" "consecutive K cs j"
        using consecutive_iff[OF 1(4)] by (auto simp: pool_ok_def)
      have "[j..<length cs] = [j..<j + K] @ [j + K..<length cs]"
        using upt_add_eq_append[of j "j + K" "length cs - (j + K)"] in_range by simp
      moreover have "filter (pool_ok K pm cs) [j..<j + K] = [j]"
      proof -
        have "[j..<j + K] = j # [j + 1..<j + K]" using 1(4) by (simp add: upt_conv_Cons)
        moreover have "\<forall>i \<in> set [j + 1..<j + K]. \<not> pool_ok K pm cs i" using pool_ok_apart[OF True] by auto
        ultimately show ?thesis using True by (simp add: filter_empty_conv)
      qed
      ultimately show ?thesis
        using 1(2) t in_range 1(4) by (subst pool_scan.simps) simp
    next
      case False
      then have f: "(fst (cs ! j) - pm) mod int K \<noteq> 0 \<or> \<not> consecutive K cs j"
        using consecutive_iff[OF 1(4)] in_range by (auto simp: pool_ok_def)
      show ?thesis
        using f 1(1,3) in_range 1(4) False unfolding up by (subst pool_scan.simps) auto
    qed
  qed
qed

lemma pool_scan_stop:
  assumes "0 < K"
  shows "length cs < snd (pool_scan K pm cs j ps) + K"
  using assms
proof (induction K pm cs j ps rule: pool_scan.induct)
  case (1 K pm cs j ps)
  then show ?case by (subst pool_scan.simps) auto
qed

text \<open>Resuming at the cursor is the scan of the longer list.\<close>

lemma pool_scan_resume:
  "pool_scan K pm (cs @ new) j ps
    = pool_scan K pm (cs @ new) (snd (pool_scan K pm cs j ps)) (fst (pool_scan K pm cs j ps))"
proof (induction K pm cs j ps rule: pool_scan.induct)
  case (1 K pm cs j ps)
  show ?case
  proof (cases "K = 0 \<or> length cs < j + K")
    case True
    then show ?thesis by (simp add: pool_scan.simps[of K pm cs j])
  next
    case False
    then have in_range: "j + K \<le> length cs" "0 < K" by auto
    have "(cs @ new) ! (j + k) = cs ! (j + k)" if "k < K" for k
      using in_range that by (simp add: nth_append)
    moreover from this[of 0] in_range(2) have at: "(cs @ new) ! j = cs ! j" by simp
    ultimately have same: "(cs @ new) ! j = cs ! j" "consecutive K (cs @ new) j = consecutive K cs j"
      using in_range(2) by (simp_all only: consecutive_iff at simp_thms) (metis (no_types))
    have len: "\<not> length (cs @ new) < j + K" using in_range by simp
    show ?thesis
      using 1 False same len
      by (simp add: pool_scan.simps[of K pm cs j] pool_scan.simps[of K pm "cs @ new" j])
  qed
qed

subsection \<open>What a layout holds of each sequence\<close>

definition members :: "cell_desc list \<Rightarrow> nat \<Rightarrow> (int \<times> nat) list" where
  "members cs s = concat (map (\<lambda>c. map (\<lambda>_. (cd_pos c, cd_cell c)) (filter (\<lambda>u. u = int s) (cd_seqs c))) cs)"

lemma members_simps [simp]:
  "members [] s = []"
  "members (c # cs) s = map (\<lambda>_. (cd_pos c, cd_cell c)) (filter (\<lambda>u. u = int s) (cd_seqs c)) @ members cs s"
  "members (cs @ ds) s = members cs s @ members ds s"
  by (simp_all add: members_def)

lemma push_cell_sel:
  "length (push_cell e s seqs) = length seqs"
  "t < length seqs \<Longrightarrow> push_cell e s seqs ! t
     = (if t = s then (seqs ! t)\<lparr>kp_cells := kp_cells (seqs ! t) @ [e]\<rparr> else seqs ! t)"
  by (auto simp: push_cell_def)

text \<open>Sequences that differ from fresh ones only in their cells.\<close>

definition raw_seq :: "(int \<times> nat) list \<Rightarrow> kpool_seq" where
  "raw_seq es = empty_seq\<lparr>kp_cells := es\<rparr>"

lemma raw_seq_sel [simp]:
  "kp_cells (raw_seq es) = es" "kp_min (raw_seq es) = 0" "kp_pools (raw_seq es) = []"
  "kp_scan (raw_seq es) = 0" "(raw_seq es)\<lparr>kp_cells := es'\<rparr> = raw_seq es'"
  by (simp_all add: raw_seq_def empty_seq_def)

lemma push_fold:
  assumes "length seqs = n" "\<forall>t < n. seqs ! t = raw_seq (es t)"
  shows "length (fold (\<lambda>s seqs. if s < 0 \<or> n \<le> nat s then seqs else push_cell e (nat s) seqs) ss seqs) = n
    \<and> (\<forall>t < n. fold (\<lambda>s seqs. if s < 0 \<or> n \<le> nat s then seqs else push_cell e (nat s) seqs) ss seqs ! t
        = raw_seq (es t @ map (\<lambda>_. e) (filter (\<lambda>u. u = int t) ss)))"
  using assms
proof (induction ss arbitrary: seqs es)
  case (Cons s ss)
  let ?g = "\<lambda>s seqs. if s < 0 \<or> n \<le> nat s then seqs else push_cell e (nat s) seqs"
  let ?es = "\<lambda>t. if s = int t then es t @ [e] else es t"
  have "length (?g s seqs) = n" using Cons.prems(1) by (simp add: push_cell_sel)
  moreover have "\<forall>t < n. ?g s seqs ! t = raw_seq (?es t)"
    using Cons.prems by (auto simp: push_cell_sel)
  ultimately have "length (fold ?g ss (?g s seqs)) = n \<and> (\<forall>t < n. fold ?g ss (?g s seqs) ! t
      = raw_seq (?es t @ map (\<lambda>_. e) (filter (\<lambda>u. u = int t) ss)))" by (rule Cons.IH)
  moreover have "?es t @ map (\<lambda>_. e) (filter (\<lambda>u. u = int t) ss)
      = es t @ map (\<lambda>_. e) (filter (\<lambda>u. u = int t) (s # ss))" for t by simp
  ultimately show ?case by simp
qed simp

lemma add_desc_fold:
  assumes "length seqs = n" "\<forall>t < n. seqs ! t = raw_seq (es t)"
  shows "length (fst (fold (add_desc n) cs (seqs, safe))) = n
    \<and> (\<forall>t < n. fst (fold (add_desc n) cs (seqs, safe)) ! t = raw_seq (es t @ members cs t))
    \<and> snd (fold (add_desc n) cs (seqs, safe)) = (safe \<and> (\<forall>c \<in> set cs. length (cd_seqs c) \<le> 1))"
  using assms
proof (induction cs arbitrary: seqs es safe)
  case (Cons c cs)
  obtain seqs' safe' where st: "add_desc n c (seqs, safe) = (seqs', safe')" by fastforce
  have f: "length seqs' = n \<and> (\<forall>t < n. seqs' ! t
      = raw_seq (es t @ map (\<lambda>_. (cd_pos c, cd_cell c)) (filter (\<lambda>u. u = int t) (cd_seqs c))))"
  proof (cases "cd_seqs c = []")
    case True
    with st Cons.prems show ?thesis by (simp add: add_desc_def)
  next
    case False
    with st push_fold[OF Cons.prems, of "(cd_pos c, cd_cell c)" "cd_seqs c"] show ?thesis
      by (auto simp: add_desc_def)
  qed
  have "safe' = (safe \<and> length (cd_seqs c) \<le> 1)"
    using st by (auto simp: add_desc_def split: if_splits)
  with Cons.IH[OF conjunct1[OF f] conjunct2[OF f], of safe'] st show ?case by auto
qed simp

definition seq_layout :: "nat \<Rightarrow> (int \<times> nat) list \<Rightarrow> kpool_seq" where
  "seq_layout K es = (let sq = scan_seq K (raw_seq es) in sq\<lparr>kp_new := replicate (length (kp_pools sq)) False\<rparr>)"

lemma layout_of_eq:
  "length (ks_seqs (layout_of cs K n)) = n"
  "s < n \<Longrightarrow> ks_seqs (layout_of cs K n) ! s = seq_layout K (members cs s)"
  "n_pool_real (layout_of cs K n) = n_pools (ks_seqs (layout_of cs K n))"
  "cache_safe (layout_of cs K n) = (\<forall>c \<in> set cs. length (cd_seqs c) \<le> 1)"
proof -
  let ?r = "fold (add_desc n) cs (replicate n empty_seq, True)"
  have r: "length (fst ?r) = n" "\<forall>t < n. fst ?r ! t = raw_seq (members cs t)"
    "snd ?r = (\<forall>c \<in> set cs. length (cd_seqs c) \<le> 1)"
    using add_desc_fold[of "replicate n empty_seq" n "\<lambda>_. []" cs True] by (simp_all add: raw_seq_def empty_seq_def)
  have d: "ks_seqs (layout_of cs K n)
      = map (\<lambda>sq. sq\<lparr>kp_new := replicate (length (kp_pools sq)) False\<rparr>) (map (scan_seq K) (fst ?r))"
    "n_pool_real (layout_of cs K n) = n_pools (map (scan_seq K) (fst ?r))"
    "cache_safe (layout_of cs K n) = snd ?r"
    by (simp_all add: layout_of_def case_prod_beta Let_def)
  show "length (ks_seqs (layout_of cs K n)) = n" using d r by simp
  show "ks_seqs (layout_of cs K n) ! s = seq_layout K (members cs s)" if "s < n"
    using d r that by (simp add: seq_layout_def Let_def)
  show "n_pool_real (layout_of cs K n) = n_pools (ks_seqs (layout_of cs K n))"
    unfolding d by (simp add: n_pools_def o_def)
  show "cache_safe (layout_of cs K n) = (\<forall>c \<in> set cs. length (cd_seqs c) \<le> 1)" using d r by simp
qed

lemma seq_layout_sel:
  "kp_cells (seq_layout K es) = sort es"
  "kp_min (seq_layout K es) = (if es = [] then 0 else fst (hd (sort es)))"
  "0 < K \<Longrightarrow> kp_pools (seq_layout K es)
     = (if es = [] then [] else filter (pool_ok K (fst (hd (sort es))) (sort es)) [0..<length es])"
  "kp_scan (seq_layout K es)
     = (if es = [] then 0 else snd (pool_scan K (fst (hd (sort es))) (sort es) 0 []))"
proof -
  show "kp_cells (seq_layout K es) = sort es"
    by (auto simp: seq_layout_def scan_seq_def sorted_sort_id case_prod_beta Let_def)
  show "kp_min (seq_layout K es) = (if es = [] then 0 else fst (hd (sort es)))"
    by (auto simp: seq_layout_def scan_seq_def sorted_sort_id case_prod_beta Let_def)
  show "kp_pools (seq_layout K es)
     = (if es = [] then [] else filter (pool_ok K (fst (hd (sort es))) (sort es)) [0..<length es])" if "0 < K"
    by (auto simp: seq_layout_def scan_seq_def sorted_sort_id case_prod_beta Let_def pool_scan_pools[OF that])
  show "kp_scan (seq_layout K es)
     = (if es = [] then 0 else snd (pool_scan K (fst (hd (sort es))) (sort es) 0 []))"
    by (auto simp: seq_layout_def scan_seq_def sorted_sort_id case_prod_beta Let_def)
qed

subsection \<open>Appending is rebuilding\<close>

definition grid_eq :: "kpool_state \<Rightarrow> kpool_state \<Rightarrow> bool" where
  "grid_eq a b \<longleftrightarrow> length (ks_seqs a) = length (ks_seqs b) \<and> n_pool_real a = n_pool_real b
     \<and> cache_safe a = cache_safe b \<and> (\<forall>s < length (ks_seqs b).
         kp_min (ks_seqs a ! s) = kp_min (ks_seqs b ! s) \<and> kp_cells (ks_seqs a ! s) = kp_cells (ks_seqs b ! s)
       \<and> kp_pools (ks_seqs a ! s) = kp_pools (ks_seqs b ! s) \<and> kp_scan (ks_seqs a ! s) = kp_scan (ks_seqs b ! s))"

text \<open>What the validation pass establishes of the added cells.\<close>

lemma append_ok_Cons:
  "append_ok lst (c # cs) \<longleftrightarrow> (\<exists>s < length lst. cd_seqs c = [int s]
     \<and> (\<forall>p. lst ! s = Some p \<longrightarrow> p < cd_pos c) \<and> append_ok (lst[s := Some (cd_pos c)]) cs)"
proof (cases "\<exists>s < length lst. cd_seqs c = [int s]")
  case True
  then obtain s where s: "s < length lst" "cd_seqs c = [int s]" by blast
  then have "append_ok lst (c # cs) \<longleftrightarrow> (\<forall>p. lst ! s = Some p \<longrightarrow> p < cd_pos c)
      \<and> append_ok (lst[s := Some (cd_pos c)]) cs"
    by (cases "lst ! s") auto
  with s show ?thesis by auto
next
  case False
  have "\<not> append_ok lst (c # cs)"
  proof
    assume a: "append_ok lst (c # cs)"
    then obtain u where u: "cd_seqs c = [u]" by (auto split: if_splits simp: length_Suc_conv)
    with a have "0 \<le> u" "nat u < length lst" by (auto split: if_splits)
    with u False show False by (metis int_nat_eq)
  qed
  with False show ?thesis by blast
qed

lemma append_ok_added:
  assumes "append_ok lst added"
  shows "(\<forall>c \<in> set added. \<exists>s < length lst. cd_seqs c = [int s])
    \<and> (\<forall>s < length lst. sorted_wrt (<) (map fst (members added s))
        \<and> (\<forall>p. lst ! s = Some p \<longrightarrow> (\<forall>e \<in> set (members added s). p < fst e)))"
  using assms
proof (induction added arbitrary: lst)
  case (Cons c cs)
  from Cons.prems obtain u where u: "u < length lst" "cd_seqs c = [int u]"
      "\<forall>p. lst ! u = Some p \<longrightarrow> p < cd_pos c" and ok: "append_ok (lst[u := Some (cd_pos c)]) cs"
    unfolding append_ok_Cons by blast
  note IH = Cons.IH[OF ok]
  have mem: "members (c # cs) s = (if s = u then (cd_pos c, cd_cell c) # members cs s else members cs s)" for s
    using u(2) by simp
  have step: "sorted_wrt (<) (map fst (members (c # cs) s))
      \<and> (\<forall>p. lst ! s = Some p \<longrightarrow> (\<forall>e \<in> set (members (c # cs) s). p < fst e))" if "s < length lst" for s
  proof (cases "s = u")
    case True
    have new: "\<forall>e \<in> set (members cs u). cd_pos c < fst e" using IH u(1) by simp
    then have "\<forall>p. lst ! u = Some p \<longrightarrow> (\<forall>e \<in> set (members cs u). p < fst e)"
      using u(3) by force
    with True new IH u show ?thesis unfolding mem by auto
  next
    case False
    with IH that show ?thesis unfolding mem by auto
  qed
  then show ?case using IH u(1,2) by auto
qed simp

lemma append_cell_sel:
  assumes "cd_seqs c = [int u]" "u < length seqs" "s < length seqs"
  shows "length (append_cell c seqs) = length seqs"
    and "append_cell c seqs ! s = (if s = u then (seqs ! u)\<lparr>
       kp_min := (if kp_cells (seqs ! u) = [] then cd_pos c else kp_min (seqs ! u)),
       kp_cells := kp_cells (seqs ! u) @ [(cd_pos c, cd_cell c)]\<rparr> else seqs ! s)"
  using assms by (auto simp: append_cell_def Let_def)

lemma append_fold:
  assumes "\<forall>c \<in> set added. \<exists>u < length seqs. cd_seqs c = [int u]" "s < length seqs"
  shows "length (fold append_cell added seqs) = length seqs
    \<and> fold append_cell added seqs ! s = (seqs ! s)\<lparr>
        kp_min := (if kp_cells (seqs ! s) = [] \<and> members added s \<noteq> [] then fst (hd (members added s))
                   else kp_min (seqs ! s)),
        kp_cells := kp_cells (seqs ! s) @ members added s\<rparr>"
  using assms
proof (induction added arbitrary: seqs)
  case (Cons c cs)
  then obtain u where u: "u < length seqs" "cd_seqs c = [int u]" by auto
  note sel = append_cell_sel[OF u(2,1) Cons.prems(2)]
  have IH: "length (fold append_cell cs (append_cell c seqs)) = length (append_cell c seqs) \<and>
      fold append_cell cs (append_cell c seqs) ! s = (append_cell c seqs ! s)\<lparr>
        kp_min := (if kp_cells (append_cell c seqs ! s) = [] \<and> members cs s \<noteq> [] then fst (hd (members cs s))
                   else kp_min (append_cell c seqs ! s)),
        kp_cells := kp_cells (append_cell c seqs ! s) @ members cs s\<rparr>"
    by (rule Cons.IH) (use Cons.prems sel(1) in auto)
  show ?case
  proof (cases "s = u")
    case True
    with IH sel u(2) show ?thesis by simp
  next
    case False
    with IH sel u(2) show ?thesis by simp
  qed
qed simp

lemma sort_Nil_iff [simp]: "sort es = [] \<longleftrightarrow> es = []"
  by (metis length_0_conv length_sort)

lemma sorted_by_fst: "sorted_wrt (<) (map fst xs) \<Longrightarrow> sorted (xs :: (int \<times> nat) list)"
  by (induction xs) (auto simp: less_eq_prod_def)

lemma sort_append_newer:
  fixes es :: "(int \<times> nat) list"
  assumes "sorted_wrt (<) (map fst ns)" "es \<noteq> [] \<longrightarrow> (\<forall>e \<in> set ns. fst (last (sort es)) < fst e)"
  shows "sort (es @ ns) = sort es @ ns"
proof -
  have "x \<le> y" if "x \<in> set (sort es)" "y \<in> set ns" for x y
  proof -
    have ne: "sort es \<noteq> []" using that(1) by auto
    have "\<exists>i < length (sort es). sort es ! i = x" using that(1) by (simp only: in_set_conv_nth)
    then obtain i where i: "i < length (sort es)" "sort es ! i = x" by (elim exE conjE)
    have "sort es ! i \<le> sort es ! (length (sort es) - 1)"
      by (rule sorted_nth_mono[OF sorted_sort]) (use i(1) in auto)
    then have "x \<le> last (sort es)" using i(2) ne by (simp add: last_conv_nth)
    moreover have "last (sort es) < y" using assms(2) that ne by (auto simp: less_prod_def)
    ultimately show ?thesis by simp
  qed
  then have "sorted (sort es @ ns)" using sorted_by_fst[OF assms(1)] by (auto simp: sorted_append)
  then show ?thesis by (intro properties_for_sort) simp_all
qed

definition newest_of :: "(int \<times> nat) list \<Rightarrow> int option" where
  "newest_of cs = (if cs = [] then None else Some (fst (last cs)))"

lemma resume_is_rebuild:
  assumes "0 < K" "sorted_wrt (<) (map fst ns)"
    and "\<forall>p. newest_of (sort es) = Some p \<longrightarrow> (\<forall>e \<in> set ns. p < fst e)"
    and "kp_min sq = kp_min (seq_layout K es)" "kp_cells sq = kp_cells (seq_layout K es)"
    and "kp_pools sq = kp_pools (seq_layout K es)" "kp_scan sq = kp_scan (seq_layout K es)"
    and "sq' = resume_seq K (sq\<lparr>kp_min := (if kp_cells sq = [] \<and> ns \<noteq> [] then fst (hd ns) else kp_min sq),
           kp_cells := kp_cells sq @ ns\<rparr>)"
  shows "kp_min sq' = kp_min (seq_layout K (es @ ns)) \<and> kp_cells sq' = kp_cells (seq_layout K (es @ ns))
    \<and> kp_pools sq' = kp_pools (seq_layout K (es @ ns)) \<and> kp_scan sq' = kp_scan (seq_layout K (es @ ns))"
proof -
  have srt: "sort (es @ ns) = sort es @ ns"
    using assms(2,3) by (intro sort_append_newer) (auto simp: newest_of_def)
  have lay: "kp_pools (seq_layout K xs) = (if xs = [] then [] else fst (pool_scan K (fst (hd (sort xs))) (sort xs) 0 []))" for xs
    using seq_layout_sel(3)[OF assms(1)] pool_scan_pools[OF assms(1)] by simp
  show ?thesis
  proof (cases "es = []")
    case True
    then show ?thesis
      using assms(4-8) srt by (auto simp: resume_seq_def seq_layout_sel(1,2,4) lay case_prod_beta)
  next
    case False
    let ?pm = "fst (hd (sort es))"
    have ne: "sort es \<noteq> []" using False by simp
    have hd: "hd (sort es @ ns) = hd (sort es)" using ne by simp
    have "pool_scan K ?pm (sort es @ ns) (kp_scan sq) (kp_pools sq) = pool_scan K ?pm (sort es @ ns) 0 []"
      using assms(6,7) False pool_scan_resume[of K ?pm "sort es" ns 0 "[]"] by (simp add: lay seq_layout_sel(4))
    then show ?thesis
      using assms(4,5,8) False ne hd
      by (simp add: resume_seq_def seq_layout_sel(1,2,4) lay srt case_prod_beta)
  qed
qed

lemma resume_newer_pools:
  assumes "0 < K"
  shows "\<exists>rest. kp_pools (resume_seq K sq) = kp_pools sq @ rest \<and> (\<forall>j \<in> set rest. kp_scan sq \<le> j)"
  using pool_scan_pools[OF assms, of "kp_min sq" "kp_cells sq" "kp_scan sq" "kp_pools sq"]
  by (auto simp: resume_seq_def case_prod_beta intro!: exI[of _ "filter _ _"])

text \<open>The main equivalence: a successful append to the grid of the cached cells is the grid of the
  cached and the added cells.\<close>

lemma append_layout_rebuilds:
  assumes "grid_eq st (layout_of cs K n)" "append_layout st added K = Some (True, st')"
  shows "grid_eq st' (layout_of (cs @ added) K n)"
    and "\<forall>c \<in> set added. \<exists>s < n. cd_seqs c = [int s]"
    and "s < n \<Longrightarrow> sorted_wrt (<) (map fst (members added s))"
    and "s < n \<Longrightarrow> \<forall>p. newest_of (sort (members cs s)) = Some p \<longrightarrow> (\<forall>e \<in> set (members added s). p < fst e)"
proof -
  have K: "1 < K" using assms(2) by (auto simp: append_layout_def split: if_splits)
  have n: "length (ks_seqs st) = n" using assms(1) by (simp add: grid_eq_def layout_of_eq)
  have eq: "kp_min (ks_seqs st ! s) = kp_min (seq_layout K (members cs s))"
      "kp_cells (ks_seqs st ! s) = kp_cells (seq_layout K (members cs s))"
      "kp_pools (ks_seqs st ! s) = kp_pools (seq_layout K (members cs s))"
      "kp_scan (ks_seqs st ! s) = kp_scan (seq_layout K (members cs s))" if "s < n" for s
    using assms(1) that by (simp_all add: grid_eq_def layout_of_eq)
  have ok: "append_ok (map newest (ks_seqs st)) added"
    using assms(2) by (cases "added = []") (auto simp: append_layout_def split: if_splits)
  note A = append_ok_added[OF ok]
  show one: "\<forall>c \<in> set added. \<exists>s < n. cd_seqs c = [int s]" using A n by simp
  have srt: "sorted_wrt (<) (map fst (members added s))" if "s < n" for s using A n that by simp
  then show "s < n \<Longrightarrow> sorted_wrt (<) (map fst (members added s))" .
  have new: "\<forall>p. newest_of (sort (members cs s)) = Some p \<longrightarrow> (\<forall>e \<in> set (members added s). p < fst e)"
    if "s < n" for s
    using A n that eq(2)[OF that] by (simp add: newest_def newest_of_def seq_layout_sel(1))
  then show "s < n \<Longrightarrow> \<forall>p. newest_of (sort (members cs s)) = Some p \<longrightarrow> (\<forall>e \<in> set (members added s). p < fst e)" .
  show "grid_eq st' (layout_of (cs @ added) K n)"
  proof (cases "added = []")
    case True
    with assms K show ?thesis by (simp add: append_layout_def)
  next
    case False
    define seqs where "seqs = fold append_cell added (ks_seqs st)"
    have safe: "cache_safe st" and st': "st' = st\<lparr>ks_seqs := map (resume_seq K) seqs,
        n_pool_real := n_pool_real st + (n_pools (map (resume_seq K) seqs) - n_pools seqs)\<rparr>"
      using assms(2) K False ok by (auto simp: append_layout_def seqs_def Let_def split: if_splits)
    have fold: "length seqs = n \<and> seqs ! s = (ks_seqs st ! s)\<lparr>
        kp_min := (if kp_cells (ks_seqs st ! s) = [] \<and> members added s \<noteq> [] then fst (hd (members added s))
                   else kp_min (ks_seqs st ! s)),
        kp_cells := kp_cells (ks_seqs st ! s) @ members added s\<rparr>" if "s < n" for s
      using append_fold[of added "ks_seqs st" s] one n that unfolding seqs_def by simp
    have len: "length seqs = n"
    proof (cases n)
      case 0
      with one False show ?thesis by (cases added) auto
    qed (use fold in auto)
    have seq: "kp_min (ks_seqs st' ! s) = kp_min (seq_layout K (members (cs @ added) s))
      \<and> kp_cells (ks_seqs st' ! s) = kp_cells (seq_layout K (members (cs @ added) s))
      \<and> kp_pools (ks_seqs st' ! s) = kp_pools (seq_layout K (members (cs @ added) s))
      \<and> kp_scan (ks_seqs st' ! s) = kp_scan (seq_layout K (members (cs @ added) s))" if "s < n" for s
    proof -
      have "ks_seqs st' ! s = resume_seq K (seqs ! s)" using st' len that by simp
      with resume_is_rebuild[OF _ srt[OF that] new[OF that] eq[OF that]] fold[OF that] K
      show ?thesis by simp
    qed
    have lensum: "n_pools xs = (\<Sum>s < length xs. length (kp_pools (xs ! s)))" for xs
      by (simp add: n_pools_def sum_list_sum_nth atLeast0LessThan)
    have "n_pools seqs = n_pool_real st"
    proof -
      have "n_pools seqs = (\<Sum>s < n. length (kp_pools (seq_layout K (members cs s))))"
        unfolding lensum len using fold eq(3) by (intro sum.cong) auto
      also have "\<dots> = n_pools (ks_seqs (layout_of cs K n))"
        unfolding lensum by (simp add: layout_of_eq(1,2))
      finally show ?thesis using assms(1) by (simp add: grid_eq_def layout_of_eq(3))
    qed
    moreover have "n_pools seqs \<le> n_pools (map (resume_seq K) seqs)"
    proof -
      have "length (kp_pools sq) \<le> length (kp_pools (resume_seq K sq))" for sq
        using resume_newer_pools[of K sq] K by auto
      then show ?thesis unfolding n_pools_def map_map by (intro sum_list_mono) simp
    qed
    ultimately have "n_pool_real st' = n_pools (ks_seqs st')" using st' by simp
    also have "\<dots> = n_pools (ks_seqs (layout_of (cs @ added) K n))"
      unfolding lensum using seq st' len by (simp add: layout_of_eq(1,2))
    finally have npr: "n_pool_real st' = n_pool_real (layout_of (cs @ added) K n)" by (simp add: layout_of_eq(3))
    have "cache_safe st' = cache_safe (layout_of (cs @ added) K n)"
    proof -
      have "\<forall>c \<in> set added. length (cd_seqs c) \<le> 1" using one by force
      then show ?thesis using safe assms(1) st' by (auto simp: grid_eq_def layout_of_eq(4))
    qed
    with npr seq st' len show ?thesis by (simp add: grid_eq_def layout_of_eq(1,2))
  qed
qed

lemma seqs_diff_None:
  assumes "length xs = length ys"
  shows "seqs_diff k xs ys = None \<longleftrightarrow> (\<forall>s < length xs. kp_min (xs ! s) = kp_min (ys ! s)
    \<and> kp_cells (xs ! s) = kp_cells (ys ! s) \<and> kp_pools (xs ! s) = kp_pools (ys ! s))"
  using assms
proof (induction k xs ys rule: seqs_diff.induct)
  case (1 k x xs y ys)
  then show ?case by (auto simp: less_Suc_eq_0_disj)
qed auto

lemma grid_eq_no_diff: "grid_eq a b \<Longrightarrow> grid_diff a b = None"
  by (simp add: grid_eq_def grid_diff_def seqs_diff_None)

end
