(* ===== verification/KpoolMain.thy ===== *)
theory KpoolMain
  imports KpoolGrid
begin

section \<open>The pooled grid: the main results\<close>

text \<open>
  A grid holds exactly the complete aligned blocks of every sequence; the appended grid is the
  rebuilt one, so the verification lever of the engine never finds a difference; the pools flagged
  after an append are those the full marking flags; the padded size always leaves a spare pool.
\<close>

lemma pool_written_iff:
  assumes "sorted up"
  shows "pool_written K up p0 \<longleftrightarrow> (\<exists>x \<in> set up. p0 \<le> x \<and> x < p0 + int K)"
  using assms
proof (induction up)
  case (Cons x up)
  show ?case
  proof (cases "x < p0")
    case True
    with Cons show ?thesis by (auto simp: pool_written_def)
  next
    case False
    with Cons.prems show ?thesis by (auto simp: pool_written_def)
  qed
qed (simp add: pool_written_def)

lemma written_positions_sel:
  "set (written_positions toks s) = {td_pos t | t. t \<in> set toks \<and> int s \<in> set (td_seqs t)}"
  "sorted (written_positions toks s)"
  by (auto simp: written_positions_def Let_def)

definition tok_of :: "cell_desc \<Rightarrow> tok_desc" where
  "tok_of c = \<lparr>td_pos = cd_pos c, td_seqs = cd_seqs c\<rparr>"

lemma written_added:
  "set (written_positions (map tok_of added) s) = fst ` set (members added s)"
  by (auto simp: written_positions_sel members_def tok_of_def image_iff) force+

lemma members_Nil: "members added s = [] \<longleftrightarrow> written_positions (map tok_of added) s = []"
proof -
  have "set (members added s) = {} \<longleftrightarrow> set (written_positions (map tok_of added) s) = {}"
    unfolding written_added by simp
  then show ?thesis by simp
qed

text \<open>Per sequence: an old pool lies below every added position, a pool formed after the append
  ends with an added cell.\<close>

lemma appended_pool_written:
  assumes "0 < K" "sorted_wrt (<) (map fst ns)"
    and "\<forall>p. newest_of (sort es) = Some p \<longrightarrow> (\<forall>e \<in> set ns. p < fst e)"
    and "kp_pools (seq_layout K (es @ ns)) = kp_pools (seq_layout K es) @ rest"
    and "\<forall>j \<in> set rest. kp_scan (seq_layout K es) \<le> j"
    and "set up = fst ` set ns" "sorted up" "i < length (kp_pools (seq_layout K (es @ ns)))"
  shows "pool_written K up (fst (kp_cells (seq_layout K (es @ ns)) ! (kp_pools (seq_layout K (es @ ns)) ! i)))
    \<longleftrightarrow> length (kp_pools (seq_layout K es)) \<le> i"
proof -
  let ?old = "kp_pools (seq_layout K es)" and ?cs = "sort es @ ns"
  let ?j = "kp_pools (seq_layout K (es @ ns)) ! i"
  have srt: "sort (es @ ns) = ?cs"
    using assms(2,3) by (intro sort_append_newer) (auto simp: newest_of_def)
  have "?j \<in> set (kp_pools (seq_layout K (es @ ns)))" using assms(8) by simp
  then have "\<exists>pm. pool_ok K pm ?cs ?j"
    unfolding seq_layout_sel(3)[OF assms(1)] srt by (auto split: if_splits)
  then obtain pm where ok: "pool_ok K pm ?cs ?j" ..
  have "K - 1 < K" using assms(1) by simp
  with ok have j: "?j + K \<le> length ?cs" "fst (?cs ! (?j + (K - 1))) = fst (?cs ! ?j) + int (K - 1)"
    unfolding pool_ok_def by blast+
  show ?thesis
  proof (cases "i < length ?old")
    case True
    then have "?j = ?old ! i" using assms(4) by (simp add: nth_append)
    then have "?j \<in> set ?old" using True by simp
    then have es: "es \<noteq> []" and in_old: "?j + K \<le> length (sort es)"
      unfolding seq_layout_sel(3)[OF assms(1)] by (auto simp: pool_ok_def split: if_splits)
    have "?j + (K - 1) < length (sort es)" using in_old assms(1) by linarith
    then have "?cs ! (?j + (K - 1)) = sort es ! (?j + (K - 1))" by (rule nth_append_left)
    then have "fst (?cs ! ?j) + int (K - 1) = fst (sort es ! (?j + (K - 1)))" using j(2) by (simp only:)
    also have "\<dots> \<le> fst (last (sort es))"
    proof -
      have "sort es ! (?j + (K - 1)) \<le> sort es ! (length (sort es) - 1)"
        by (rule sorted_nth_mono[OF sorted_sort]) (use in_old assms(1) in auto)
      then show ?thesis using es by (auto simp: last_conv_nth less_eq_prod_def)
    qed
    finally have "fst (?cs ! ?j) + int (K - 1) < fst e" if "e \<in> set ns" for e
      using assms(3) es that by (fastforce simp: newest_of_def)
    then have "\<not> (\<exists>x \<in> set up. fst (?cs ! ?j) \<le> x \<and> x < fst (?cs ! ?j) + int K)"
      unfolding assms(6) using assms(1) by (fastforce simp: of_nat_diff)
    with True show ?thesis by (simp add: pool_written_iff[OF assms(7)] seq_layout_sel(1) srt)
  next
    case False
    then have "?j = rest ! (i - length ?old)" "i - length ?old < length rest"
      using assms(4,8) by (auto simp: nth_append)
    then have "kp_scan (seq_layout K es) \<le> ?j" using assms(5) by (metis nth_mem)
    moreover have "length (sort es) < kp_scan (seq_layout K es) + K"
      using pool_scan_stop[OF assms(1), of "sort es" "fst (hd (sort es))" 0 "[]"] assms(1)
      by (auto simp: seq_layout_sel(4))
    ultimately have "\<not> ?j + (K - 1) < length (sort es)" using assms(1) by linarith
    moreover have "?j + (K - 1) < length ?cs" using j(1) assms(1) by linarith
    ultimately have "?cs ! (?j + (K - 1)) \<in> set ns" by (auto simp: nth_append)
    then have "fst (?cs ! ?j) + int (K - 1) \<in> set up" unfolding assms(6) j(2)[symmetric] by simp
    then have "\<exists>x \<in> set up. fst (?cs ! ?j) \<le> x \<and> x < fst (?cs ! ?j) + int K"
      using assms(1) by (intro bexI) (auto simp: of_nat_diff)
    with False show ?thesis by (simp add: pool_written_iff[OF assms(7)] seq_layout_sel(1) srt)
  qed
qed

lemma grid_eq_refl: "grid_eq st st"
  by (simp add: grid_eq_def)

definition demo_cells :: "cell_desc list" where
  "demo_cells = [\<lparr>cd_pos = 1, cd_cell = 11, cd_seqs = [0]\<rparr>, \<lparr>cd_pos = 0, cd_cell = 10, cd_seqs = [0]\<rparr>]"

definition demo_added :: "cell_desc list" where
  "demo_added = [\<lparr>cd_pos = 2, cd_cell = 12, cd_seqs = [0]\<rparr>, \<lparr>cd_pos = 3, cd_cell = 13, cd_seqs = [0]\<rparr>]"

lemma demo_append: "\<exists>st'. append_layout (layout_of demo_cells 2 1) demo_added 2 = Some (True, st')"
proof -
  have "map_option fst (append_layout (layout_of demo_cells 2 1) demo_added 2) = Some True" by code_simp
  then show ?thesis by (cases "append_layout (layout_of demo_cells 2 1) demo_added 2") auto
qed

text \<open>the append-only update of the pool grid is the grid built from scratch: when appending
  cells to a grid of the cached cells succeeds, the result has the fields (positions, cells, pools,
  scan cursors, counts, safety) of the grid of the cached and the added cells together, so the
  engine's verification of the fast path finds no difference.\<close>

theorem append_layout_equals_rebuild:
  assumes "grid_eq st (layout_of cs K n)" "append_layout st added K = Some (True, st')"
  shows "grid_eq st' (layout_of (cs @ added) K n) \<and> grid_diff st' (layout_of (cs @ added) K n) = None"
  using append_layout_rebuilds(1)[OF assms] grid_eq_no_diff by blast

theorem append_layout_equals_rebuild_witness:
  "\<exists>st'. append_layout (layout_of demo_cells 2 1) demo_added 2 = Some (True, st')
    \<and> grid_diff st' (layout_of (demo_cells @ demo_added) 2 1) = None"
proof -
  obtain st' where st': "append_layout (layout_of demo_cells 2 1) demo_added 2 = Some (True, st')"
    using demo_append by blast
  with append_layout_equals_rebuild[OF grid_eq_refl st'] show ?thesis by blast
qed

lemma appended_marks:
  assumes "grid_eq st (layout_of cs K n)" "cache_safe st" "append_layout st added K = Some (True, st')"
  shows "mark_new_appended st' (map (\<lambda>sq. length (kp_pools sq)) (ks_seqs st))
    = Some (mark_new st' (map tok_of added) K False)"
proof -
  have K: "0 < K" using assms(3) by (auto simp: append_layout_def split: if_splits)
  note app = append_layout_rebuilds[OF assms(1,3)]
  have n: "length (ks_seqs st) = n" "length (ks_seqs st') = n"
    using assms(1) app(1) by (simp_all add: grid_eq_def layout_of_eq)
  have safe: "cache_safe st'"
    using assms(2,3) by (auto simp: append_layout_def Let_def split: if_splits)
  have old: "kp_pools (ks_seqs st ! s) = kp_pools (seq_layout K (members cs s))"
      "kp_scan (ks_seqs st ! s) = kp_scan (seq_layout K (members cs s))" if "s < n" for s
    using assms(1) that by (simp_all add: grid_eq_def layout_of_eq)
  have new: "kp_pools (ks_seqs st' ! s) = kp_pools (seq_layout K (members cs s @ members added s))"
      "kp_cells (ks_seqs st' ! s) = kp_cells (seq_layout K (members cs s @ members added s))" if "s < n" for s
    using app(1) that by (simp_all add: grid_eq_def layout_of_eq)
  have ext: "\<exists>rest. kp_pools (ks_seqs st' ! s) = kp_pools (ks_seqs st ! s) @ rest
      \<and> (\<forall>j \<in> set rest. kp_scan (ks_seqs st ! s) \<le> j)" if "s < n" for s
  proof (cases "added = []")
    case True
    then have "st' = st" using assms(3) by (auto simp: append_layout_def split: if_splits)
    then show ?thesis by simp
  next
    case False
    define seqs where "seqs = fold append_cell added (ks_seqs st)"
    have "append_ok (map newest (ks_seqs st)) added" and st': "ks_seqs st' = map (resume_seq K) seqs"
      using assms(2,3) False by (auto simp: append_layout_def seqs_def Let_def split: if_splits)
    have "length seqs = length (ks_seqs st) \<and> seqs ! s = (ks_seqs st ! s)\<lparr>
        kp_min := (if kp_cells (ks_seqs st ! s) = [] \<and> members added s \<noteq> [] then fst (hd (members added s))
                   else kp_min (ks_seqs st ! s)),
        kp_cells := kp_cells (ks_seqs st ! s) @ members added s\<rparr>"
      unfolding seqs_def by (rule append_fold) (use app(2) n that in auto)
    then have "kp_pools (seqs ! s) = kp_pools (ks_seqs st ! s)" "kp_scan (seqs ! s) = kp_scan (ks_seqs st ! s)"
      "s < length seqs" using n that by simp_all
    with resume_newer_pools[OF K, of "seqs ! s"] st' show ?thesis by simp
  qed
  let ?before = "map (\<lambda>sq. length (kp_pools sq)) (ks_seqs st)"
  let ?A = "map (\<lambda>s. (ks_seqs st' ! s)\<lparr>kp_new :=
      map (\<lambda>i. ?before ! s \<le> i) [0..<length (kp_pools (ks_seqs st' ! s))]\<rparr>) [0..<n]"
  let ?B = "map (\<lambda>s. mark_seq K False (written_positions (map tok_of added) s) (ks_seqs st' ! s)) [0..<n]"
  have flags: "?A ! s = ?B ! s" if s: "s < n" for s
  proof -
    let ?up = "written_positions (map tok_of added) s"
    obtain rest where rest: "kp_pools (ks_seqs st' ! s) = kp_pools (ks_seqs st ! s) @ rest"
        "\<forall>j \<in> set rest. kp_scan (ks_seqs st ! s) \<le> j" using ext[OF s] by blast
    have "pool_written K ?up (fst (kp_cells (ks_seqs st' ! s) ! (kp_pools (ks_seqs st' ! s) ! i)))
        \<longleftrightarrow> ?before ! s \<le> i" if "i < length (kp_pools (ks_seqs st' ! s))" for i
      using appended_pool_written[OF K app(3)[OF s] app(4)[OF s], of rest ?up i]
        rest old[OF s] new[OF s] that n s written_added written_positions_sel(2) by simp
    moreover have "?before ! s = length (kp_pools (ks_seqs st' ! s))" if "?up = []"
    proof -
      from that have "members added s = []" by (simp add: members_Nil)
      with old[OF s] new[OF s] n s show ?thesis by simp
    qed
    ultimately have "map (\<lambda>i. ?before ! s \<le> i) [0..<length (kp_pools (ks_seqs st' ! s))]
        = kp_new (mark_seq K False ?up (ks_seqs st' ! s))"
      by (intro nth_equalityI) (auto simp: mark_seq_def)
    with s show ?thesis by (simp add: mark_seq_def)
  qed
  have AB: "?A = ?B" by (rule nth_equalityI) (use flags in simp_all)
  have le: "\<not> length (kp_pools (ks_seqs st' ! s)) < ?before ! s" if "s < n" for s
    using ext[OF that] n that by auto
  have "mark_new_appended st' ?before = Some (st'\<lparr>ks_seqs := ?A, n_new := count_new ?A\<rparr>)"
    using le n by (auto simp: mark_new_appended_def Let_def list_ex_iff)
  also have "\<dots> = Some (mark_new st' (map tok_of added) K False)"
    unfolding AB using safe n by (simp add: mark_new_def Let_def)
  finally show ?thesis .
qed

text \<open>After an append, flagging exactly the pools the append formed gives the same flags and the
  same count as searching every pool for a position the ubatch wrote.\<close>

theorem mark_new_appended_agrees:
  assumes "grid_eq st (layout_of cs K n)" "cache_safe st" "append_layout st added K = Some (True, st')"
  shows "mark_new_appended st' (map (\<lambda>sq. length (kp_pools sq)) (ks_seqs st))
    = Some (mark_new st' (map tok_of added) K False)"
  using assms by (rule appended_marks)

theorem mark_new_appended_agrees_witness:
  "\<exists>st'. append_layout (layout_of demo_cells 2 1) demo_added 2 = Some (True, st')
    \<and> mark_new_appended st' [1] = Some (mark_new st' (map tok_of demo_added) 2 False)"
proof -
  obtain st' where st': "append_layout (layout_of demo_cells 2 1) demo_added 2 = Some (True, st')"
    using demo_append by blast
  have "cache_safe (layout_of demo_cells 2 1)" by code_simp
  moreover have "map (\<lambda>sq. length (kp_pools sq)) (ks_seqs (layout_of demo_cells 2 1)) = [1]" by code_simp
  ultimately show ?thesis using mark_new_appended_agrees[OF grid_eq_refl _ st'] st' by auto
qed

subsection \<open>The pools of a grid\<close>

lemma adjacent_positions:
  fixes cs :: "(int \<times> nat) list"
  assumes "sorted_wrt (<) (map fst cs)" "j < length cs" "fst (cs ! j) = p"
    and "\<forall>i \<le> k. p + int i \<in> fst ` set cs"
  shows "j + k < length cs \<and> fst (cs ! (j + k)) = p + int k"
  using assms(4)
proof (induction k)
  case 0
  with assms(2,3) show ?case by simp
next
  case (Suc k)
  then have IH: "j + k < length cs" "fst (cs ! (j + k)) = p + int k" by auto
  have mono: "fst (cs ! a) < fst (cs ! b)" if "a < b" "b < length cs" for a b
    using assms(1) that by (auto simp: sorted_wrt_iff_nth_less)
  from Suc.prems obtain i where i: "i < length cs" "fst (cs ! i) = p + int k + 1"
    by (force simp: in_set_conv_nth)
  have "i = j + k + 1"
  proof (rule ccontr)
    assume "i \<noteq> j + k + 1"
    then consider "i \<le> j + k" | "j + k + 1 < i" by linarith
    then show False
    proof cases
      case 1
      then have "fst (cs ! i) \<le> fst (cs ! (j + k))" using mono[of i "j + k"] IH(1) by (cases "i = j + k") auto
      with IH(2) i(2) show False by simp
    next
      case 2
      with mono[of "j + k" "j + k + 1"] mono[of "j + k + 1" i] i IH show False by simp
    qed
  qed
  with i show ?case by simp
qed

lemma pools_are_blocks:
  assumes "0 < K" "s < n" "distinct (map fst (members cs s))"
  shows "(\<exists>j \<in> set (kp_pools (ks_seqs (layout_of cs K n) ! s)).
        j + K \<le> length (kp_cells (ks_seqs (layout_of cs K n) ! s))
      \<and> (\<forall>k < K. fst (kp_cells (ks_seqs (layout_of cs K n) ! s) ! (j + k)) = p + int k))
    \<longleftrightarrow> (p - kp_min (ks_seqs (layout_of cs K n) ! s)) mod int K = 0
      \<and> (\<forall>k < K. p + int k \<in> fst ` set (members cs s))"
proof (cases "members cs s = []")
  case True
  then show ?thesis
    using assms(1,2) seq_layout_sel(3)[OF assms(1), of "[]"] by (auto simp: layout_of_eq(2))
next
  case False
  let ?es = "members cs s" and ?cs = "sort (members cs s)"
  let ?pm = "fst (hd ?cs)"
  have sel: "kp_cells (ks_seqs (layout_of cs K n) ! s) = ?cs" "kp_min (ks_seqs (layout_of cs K n) ! s) = ?pm"
    "kp_pools (ks_seqs (layout_of cs K n) ! s) = filter (pool_ok K ?pm ?cs) [0..<length ?cs]"
    using False assms(1,2) seq_layout_sel by (simp_all add: layout_of_eq(2))
  have srt: "sorted_wrt (<) (map fst ?cs)"
  proof -
    have "sorted (map fst ?cs)"
    proof -
      have "sorted_wrt (\<lambda>a b. fst a \<le> fst b) ?cs"
        by (rule sorted_wrt_mono_rel[OF _ sorted_sort[of ?es]]) (auto simp: less_eq_prod_def)
      then show ?thesis by (simp add: sorted_map)
    qed
    moreover have "distinct (map fst ?cs)"
    proof -
      have "mset (map fst ?cs) = mset (map fst ?es)" by simp
      with assms(3) show ?thesis using mset_eq_imp_distinct_iff by blast
    qed
    ultimately show ?thesis by (simp add: strict_sorted_iff)
  qed
  show ?thesis
    unfolding sel
  proof
    assume "\<exists>j \<in> set (filter (pool_ok K ?pm ?cs) [0..<length ?cs]). j + K \<le> length ?cs
      \<and> (\<forall>k < K. fst (?cs ! (j + k)) = p + int k)"
    then obtain j where j: "pool_ok K ?pm ?cs j" "j + K \<le> length ?cs" "\<forall>k < K. fst (?cs ! (j + k)) = p + int k"
      by auto
    from j(3) assms(1) have p: "fst (?cs ! j) = p" by (elim allE[of _ 0]) simp
    have "p + int k \<in> fst ` set ?es" if "k < K" for k
    proof -
      have "?cs ! (j + k) \<in> set ?es" using nth_mem[of "j + k" ?cs] j(2) that by simp
      moreover have "p + int k = fst (?cs ! (j + k))" using j(3) that by simp
      ultimately show ?thesis by (rule rev_image_eqI)
    qed
    with j(1) p show "(p - ?pm) mod int K = 0 \<and> (\<forall>k < K. p + int k \<in> fst ` set ?es)"
      by (simp add: pool_ok_def)
  next
    assume a: "(p - ?pm) mod int K = 0 \<and> (\<forall>k < K. p + int k \<in> fst ` set ?es)"
    then have "p + int 0 \<in> fst ` set ?es" using assms(1) by blast
    then obtain e where e: "e \<in> set ?cs" "fst e = p" by auto
    from e(1) have "\<exists>j < length ?cs. ?cs ! j = e" by (simp only: in_set_conv_nth)
    then obtain j where j: "j < length ?cs" "fst (?cs ! j) = p" using e(2) by (elim exE conjE) simp
    have at: "j + k < length ?cs \<and> fst (?cs ! (j + k)) = p + int k" if "k < K" for k
      by (rule adjacent_positions[OF srt j]) (use a that in auto)
    have len: "j + K \<le> length ?cs" using at[of "K - 1"] assms(1) by linarith
    with at a j(2) have "pool_ok K ?pm ?cs j" by (simp add: pool_ok_def)
    then show "\<exists>j \<in> set (filter (pool_ok K ?pm ?cs) [0..<length ?cs]). j + K \<le> length ?cs
      \<and> (\<forall>k < K. fst (?cs ! (j + k)) = p + int k)"
      using at len j(1) by auto
  qed
qed

text \<open>When no two cached cells of a sequence have the same position, the grid has a pool that
  starts at position \<open>p\<close> exactly when \<open>p\<close> is a multiple of the pool size away from the first cached
  position and all positions of the block are cached; every pool's members are those cells in order.\<close>

theorem layout_pools_exact:
  assumes "0 < K" "s < n" "distinct (map fst (members cs s))"
  shows "(\<exists>j \<in> set (kp_pools (ks_seqs (layout_of cs K n) ! s)).
        j + K \<le> length (kp_cells (ks_seqs (layout_of cs K n) ! s))
      \<and> (\<forall>k < K. fst (kp_cells (ks_seqs (layout_of cs K n) ! s) ! (j + k)) = p + int k))
    \<longleftrightarrow> (p - kp_min (ks_seqs (layout_of cs K n) ! s)) mod int K = 0
      \<and> (\<forall>k < K. p + int k \<in> fst ` set (members cs s))"
  using assms by (rule pools_are_blocks)

theorem layout_pools_exact_witness:
  "\<exists>j \<in> set (kp_pools (ks_seqs (layout_of demo_cells 2 1) ! 0)).
     \<forall>k < 2. fst (kp_cells (ks_seqs (layout_of demo_cells 2 1) ! 0) ! (j + k)) = 0 + int k"
proof -
  have m: "members demo_cells 0 = [(1, 11), (0, 10)]" by (simp add: demo_cells_def)
  have "kp_min (ks_seqs (layout_of demo_cells 2 1) ! 0) = 0" by code_simp
  moreover have "\<forall>k < 2. 0 + int k \<in> fst ` set (members demo_cells 0)"
    unfolding m by (auto simp: less_Suc_eq numeral_2_eq_2)
  ultimately show ?thesis using layout_pools_exact[of 2 0 1 demo_cells 0] m by auto
qed

lemma kpool_pad_eq: "kpool_pad n = (n div 64 + 1) * 64"
proof -
  have "(n + 1 + 64 - 1) div 64 = n div 64 + 1" by simp
  then have "ggml_pad (n + 1) 64 = (n div 64 + 1) * 64" by (simp add: ggml_pad_def)
  then show ?thesis by (simp add: kpool_pad_def)
qed

lemma pad_exceeds: "n < kpool_pad n" "kpool_pad n \<le> n + 64" "64 \<le> kpool_pad n"
proof -
  have "n div 64 * 64 \<le> n" by simp
  moreover have "n < (n div 64 + 1) * 64" by presburger
  ultimately show "n < kpool_pad n" "kpool_pad n \<le> n + 64" "64 \<le> kpool_pad n"
    unfolding kpool_pad_eq by simp_all
qed

text \<open>The padded pool count is a multiple of 64 and always leaves the last padded pool unused;
  the fixed number of new-pool rows is at least one and leaves that spare pool free.\<close>

theorem kpool_pad_spare:
  assumes "0 < K"
  shows "n < kpool_pad n \<and> 64 dvd kpool_pad n \<and> kpool_pad n \<le> n + 64
    \<and> 1 \<le> kpool_n_new_floor (kpool_pad n) n_tokens K
    \<and> kpool_n_new_floor (kpool_pad n) n_tokens K < kpool_pad n"
  using kpool_pad_eq[of n] pad_exceeds[of n] by (auto simp: kpool_n_new_floor_def)

theorem kpool_pad_spare_witness: "(100::nat) < kpool_pad 100 \<and> kpool_n_new_floor (kpool_pad 100) 8 4 < kpool_pad 100"
  using kpool_pad_spare[of 4 100 8] by simp

definition four_cells :: "cell_desc list" where
  "four_cells = map (\<lambda>s. \<lparr>cd_pos = 0, cd_cell = s, cd_seqs = [int s]\<rparr>) [0..<4]"

definition four_added :: "cell_desc list" where
  "four_added = map (\<lambda>s. \<lparr>cd_pos = 1, cd_cell = s + 4, cd_seqs = [int s]\<rparr>) [0..<4]"

text \<open>An ubatch of \<open>n\<close> tokens can complete more than \<open>n / kpool + 1\<close> pools: four tokens of four
  sequences complete four pools of size two, one more than the floor of three rows, so the row count
  of the graph is not constant in the ubatch width when sequences are batched.\<close>

theorem new_floor_exceeded:
  "map_option (\<lambda>(b, st). (b, n_new (mark_new st (map tok_of four_added) 2 False),
       kpool_n_new_floor (kpool_pad (n_pool_real st)) (length four_added) 2))
     (append_layout (layout_of four_cells 2 4) four_added 2) = Some (True, 4, 3)"
  by code_simp

end
