(* ===== verification/KpoolFill.thy ===== *)
theory KpoolFill
  imports KpoolMain
begin

section \<open>Filling the inputs of one ubatch (\<open>llama_kpool_fill\<close>)\<close>

text \<open>
  The host side of the pooled indexer: which cells each pool reads, which pools a token may see,
  the incomplete tail, the pools to recompute and where their keys are written.  Every buffer is
  the list of its rows; a mask value is a \<open>bool\<close> (\<open>True\<close> for \<open>0.0f\<close>, \<open>False\<close> for \<open>-INFINITY\<close>).
  \<open>None\<close> is a failed assertion.  The main result: a token sees, through the visible pools and the
  tail, exactly the cached cells of its sequence at or before its own position.
\<close>

record kpool_dims =
  d_kpool :: nat
  d_n_pool :: nat
  d_n_tokens :: nat
  d_n_kv :: nat
  d_n_new :: nat
  d_n_new_g :: nat
  d_sink :: nat
  d_n_sel :: nat
  d_n_top :: nat
  d_gather :: bool
  d_blk :: nat

record kpool_bufs =
  pool_cells :: "nat list"
  pool_idxs :: "nat list list"
  pool_mask :: "bool list list"
  tail_idxs :: "nat list list"
  gather_mask :: "bool list list option"
  new_pool_idxs :: "nat list list"
  new_pool_rep :: "nat list option"
  new_blk_pos :: "int list list option"

text \<open>\<open>std::lower_bound\<close> for \<open>(p, 0)\<close> in the sorted cells, with the test that follows it.\<close>

definition find_cell :: "(int \<times> nat) list \<Rightarrow> int \<Rightarrow> nat option" where
  "find_cell cs p = (case dropWhile (\<lambda>e. e < (p, 0)) cs of
     [] \<Rightarrow> None | e # _ \<Rightarrow> if fst e = p then Some (snd e) else None)"

definition pool_members :: "nat \<Rightarrow> (int \<times> nat) list \<Rightarrow> nat \<Rightarrow> nat list" where
  "pool_members K cs j = map (\<lambda>k. snd (cs ! (j + k))) [0..<K]"

text \<open>A pool in the order of the buffers: the cells of its sequence, its first index, its flag.\<close>

type_synonym pool_ref = "(int \<times> nat) list \<times> nat \<times> bool"

definition seq_refs :: "kpool_seq \<Rightarrow> pool_ref list" where
  "seq_refs sq = map (\<lambda>(j, nw). (kp_cells sq, j, nw)) (zip (kp_pools sq) (kp_new sq))"

definition pool_refs :: "kpool_state \<Rightarrow> pool_ref list" where
  "pool_refs st = concat (map seq_refs (ks_seqs st))"

definition ref_rep :: "nat \<Rightarrow> pool_ref \<Rightarrow> nat" where
  "ref_rep K r = (case r of (cs, j, _) \<Rightarrow> snd (cs ! (j + K - 1)))"

definition ref_end :: "nat \<Rightarrow> pool_ref \<Rightarrow> int" where
  "ref_end K r = (case r of (cs, j, _) \<Rightarrow> fst (cs ! (j + K - 1)))"

definition ref_members :: "nat \<Rightarrow> pool_ref \<Rightarrow> nat list" where
  "ref_members K r = (case r of (cs, j, _) \<Rightarrow> pool_members K cs j)"

definition ref_blk :: "nat \<Rightarrow> pool_ref \<Rightarrow> int" where
  "ref_blk b r = (case r of (cs, j, _) \<Rightarrow> fst (cs ! (j + b)))"

definition ref_new :: "pool_ref \<Rightarrow> bool" where
  "ref_new r = (case r of (_, _, nw) \<Rightarrow> nw)"

definition seq_pool_start :: "kpool_state \<Rightarrow> nat \<Rightarrow> nat" where
  "seq_pool_start st s = length (concat (map seq_refs (take s (ks_seqs st))))"

text \<open>\<open>std::upper_bound\<close> over the pools of the sequence.\<close>

definition n_visible :: "nat \<Rightarrow> kpool_state \<Rightarrow> nat \<Rightarrow> int \<Rightarrow> nat" where
  "n_visible K st s p =
     (let ends = map (ref_end K) (pool_refs st);
          p0 = seq_pool_start st s; p1 = p0 + length (kp_pools (ks_seqs st ! s))
      in length (takeWhile (\<lambda>e. e \<le> p) (take (p1 - p0) (drop p0 ends))))"

definition mask_row :: "kpool_dims \<Rightarrow> kpool_state \<Rightarrow> nat \<Rightarrow> int \<Rightarrow> bool list" where
  "mask_row d st s p =
     (let p0 = seq_pool_start st s; nv = n_visible (d_kpool d) st s p
      in map (\<lambda>ip. p0 \<le> ip \<and> ip < p0 + nv) [0..<d_n_pool d])"

text \<open>The remainder of C truncates towards zero and the result is cast to 32 unsigned bits.\<close>

definition n_tail :: "nat \<Rightarrow> kpool_seq \<Rightarrow> int \<Rightarrow> nat" where
  "n_tail K sq p = (if kp_cells sq = [] then 0
     else let d = p - kp_min sq + 1 in
       if 0 \<le> d then nat (d mod int K)
       else if (- d) mod int K = 0 then 0 else 2 ^ 32 - nat ((- d) mod int K))"

definition tail_cell :: "nat \<Rightarrow> kpool_seq \<Rightarrow> int \<Rightarrow> nat \<Rightarrow> nat option" where
  "tail_cell K sq p k = (if k < n_tail K sq p then find_cell (kp_cells sq) (p - int k) else None)"

definition tail_row :: "nat \<Rightarrow> kpool_seq \<Rightarrow> int \<Rightarrow> nat \<Rightarrow> nat list" where
  "tail_row K sq p sentinel =
     map (\<lambda>k. case tail_cell K sq p k of Some c \<Rightarrow> c | None \<Rightarrow> sentinel) [0..<K - 1]"

definition gather_row :: "kpool_dims \<Rightarrow> kpool_state \<Rightarrow> nat \<Rightarrow> int \<Rightarrow> bool list" where
  "gather_row d st s p =
     (let K = d_kpool d; nvc = min (n_visible K st s p) (d_n_top d)
      in replicate (nvc * K) True @ replicate ((d_n_top d - nvc) * K) False
         @ (if d_n_sel d mod K \<noteq> 0
            then map (\<lambda>k. tail_cell K (ks_seqs st ! s) p k \<noteq> None) [0..<K - 1] else []))"

definition tok_ok :: "kpool_state \<Rightarrow> tok_desc \<Rightarrow> bool" where
  "tok_ok st t \<longleftrightarrow> td_seqs t \<noteq> [] \<and> 0 \<le> hd (td_seqs t) \<and> nat (hd (td_seqs t)) < length (ks_seqs st)"

definition tok_seq :: "tok_desc \<Rightarrow> nat" where
  "tok_seq t = nat (hd (td_seqs t))"

definition fill_dims_ok :: "kpool_state \<Rightarrow> kpool_dims \<Rightarrow> tok_desc list \<Rightarrow> bool" where
  "fill_dims_ok st d toks \<longleftrightarrow>
     1 < d_kpool d \<and> 0 < d_n_tokens d \<and> length toks = d_n_tokens d
   \<and> d_n_pool d = kpool_pad (n_pool_real st) \<and> d_n_new d = n_new st
   \<and> d_n_new d \<le> d_n_new_g d \<and> 1 \<le> d_n_new_g d \<and> d_n_new_g d < d_n_pool d"

definition kpool_fill :: "bool \<Rightarrow> kpool_state \<Rightarrow> kpool_dims \<Rightarrow> tok_desc list \<Rightarrow> kpool_bufs option" where
  "kpool_fill want_blk st d toks =
     (if \<not> fill_dims_ok st d toks \<or> \<not> tok_ok st (hd toks) then None
      else case find_cell (kp_cells (ks_seqs st ! tok_seq (hd toks))) (td_pos (hd toks)) of
        None \<Rightarrow> None
      | Some dummy \<Rightarrow>
          let K = d_kpool d;
              sentinel = (if d_gather d then dummy else d_n_kv d);
              refs = pool_refs st;
              fresh = filter ref_new refs;
              n_pad = d_n_new_g d - d_n_new d
          in if \<not> list_all (\<lambda>ip. ip + 1 < d_n_pool d) [0..<length refs] then None
             else if length fresh \<noteq> d_n_new d \<or> length refs \<noteq> n_pool_real st then None
             else if want_blk \<and> fresh \<noteq> [] \<and> K \<le> d_blk d then None
             else if \<not> list_all (tok_ok st) toks then None
             else Some
               \<lparr>pool_cells = map (ref_rep K) refs @ replicate (d_n_pool d - length refs) dummy,
                pool_idxs = map (ref_members K) refs @ replicate (d_n_pool d - length refs) (replicate K sentinel),
                pool_mask = map (\<lambda>t. mask_row d st (tok_seq t) (td_pos t)) toks,
                tail_idxs = map (\<lambda>t. tail_row K (ks_seqs st ! tok_seq t) (td_pos t) sentinel) toks,
                gather_mask = (if d_gather d then Some (map (\<lambda>t. gather_row d st (tok_seq t) (td_pos t)) toks) else None),
                new_pool_idxs = map (ref_members K) fresh @ replicate n_pad (replicate K dummy),
                new_pool_rep = (if cache_safe st then Some (map (ref_rep K) fresh @ replicate n_pad (d_sink d)) else None),
                new_blk_pos = (if want_blk then Some (replicate 3 (map (ref_blk (d_blk d)) fresh @ replicate n_pad 0)
                                 @ [replicate (d_n_new_g d) 0]) else None)\<rparr>)"

subsection \<open>Looking up a position\<close>

lemma find_cell_Some: "find_cell cs p = Some c \<Longrightarrow> (p, c) \<in> set cs"
proof (induction cs)
  case (Cons e cs)
  then show ?case by (cases e) (auto simp: find_cell_def split: if_splits)
qed (simp add: find_cell_def)

lemma find_cell_in:
  assumes "sorted cs" "(p, c) \<in> set cs" "distinct (map fst cs)"
  shows "find_cell cs p = Some c"
  using assms
proof (induction cs)
  case (Cons e cs)
  show ?case
  proof (cases "e < (p, 0)")
    case True
    then have "e \<noteq> (p, c)" by auto
    with Cons True show ?thesis by (auto simp: find_cell_def)
  next
    case False
    show ?thesis
    proof (cases "e = (p, c)")
      case True
      with False show ?thesis by (simp add: find_cell_def)
    next
      case ne: False
      with Cons.prems have in_cs: "(p, c) \<in> set cs" by auto
      with Cons.prems(1) have "e \<le> (p, c)" by auto
      moreover have "fst e \<noteq> p"
      proof -
        have "p \<in> fst ` set cs" using imageI[OF in_cs, of fst] by simp
        then show ?thesis using Cons.prems(3) by auto
      qed
      ultimately have "e < (p, 0)" by (cases e) (auto simp: less_prod_def less_eq_prod_def)
      with False show ?thesis by simp
    qed
  qed
qed simp

subsection \<open>Visible pools\<close>

lemma seq_refs_length: "length (kp_new sq) = length (kp_pools sq) \<Longrightarrow> length (seq_refs sq) = length (kp_pools sq)"
  by (simp add: seq_refs_def)

lemma concat_segment:
  assumes "s < length xss"
  shows "take (length (xss ! s)) (drop (length (concat (take s xss))) (concat xss)) = xss ! s"
proof -
  have "concat xss = concat (take s xss) @ xss ! s @ concat (drop (Suc s) xss)"
    using assms by (metis concat.simps(2) concat_append id_take_nth_drop)
  then show ?thesis by simp
qed

lemma seq_segment:
  assumes "s < length (ks_seqs st)" "length (kp_new (ks_seqs st ! s)) = length (kp_pools (ks_seqs st ! s))"
  shows "take (length (kp_pools (ks_seqs st ! s))) (drop (seq_pool_start st s) (pool_refs st)) = seq_refs (ks_seqs st ! s)"
  using concat_segment[of s "map seq_refs (ks_seqs st)"] assms seq_refs_length[OF assms(2)]
  by (simp add: seq_pool_start_def pool_refs_def take_map)

lemma n_visible_eq:
  assumes "s < length (ks_seqs st)" "length (kp_new (ks_seqs st ! s)) = length (kp_pools (ks_seqs st ! s))"
  shows "n_visible K st s p = length (takeWhile (\<lambda>j. fst (kp_cells (ks_seqs st ! s) ! (j + K - 1)) \<le> p)
     (kp_pools (ks_seqs st ! s)))"
proof -
  let ?sq = "ks_seqs st ! s"
  have "map (ref_end K) (seq_refs ?sq) = map (\<lambda>j. fst (kp_cells ?sq ! (j + K - 1))) (kp_pools ?sq)"
    using assms(2) by (intro nth_equalityI) (simp_all add: seq_refs_def ref_end_def)
  moreover have "take (length (kp_pools ?sq)) (drop (seq_pool_start st s) (map (ref_end K) (pool_refs st)))
      = map (ref_end K) (seq_refs ?sq)"
    unfolding seq_segment[OF assms, symmetric] by (simp add: take_map drop_map)
  ultimately show ?thesis by (simp add: n_visible_def Let_def takeWhile_map o_def)
qed

lemma takeWhile_sorted:
  fixes f :: "nat \<Rightarrow> int"
  assumes "sorted (map f js)" "i < length js"
  shows "i < length (takeWhile (\<lambda>j. f j \<le> p) js) \<longleftrightarrow> f (js ! i) \<le> p"
  using assms
proof (induction js arbitrary: i)
  case (Cons j js)
  show ?case
  proof (cases i)
    case (Suc k)
    have "f j \<le> f (js ! k)" using Cons.prems Suc by simp
    then have "\<not> f j \<le> p \<Longrightarrow> \<not> f (js ! k) \<le> p" by linarith
    then show ?thesis using Cons Suc by (cases "f j \<le> p") simp_all
  qed (use Cons in auto)
qed simp

subsection \<open>What a token sees\<close>

text \<open>The grid of one sequence whose cached cells have distinct positions.\<close>

definition grid_seq :: "nat \<Rightarrow> (int \<times> nat) list \<Rightarrow> kpool_seq \<Rightarrow> bool" where
  "grid_seq K es sq \<longleftrightarrow> kp_cells sq = kp_cells (seq_layout K es) \<and> kp_min sq = kp_min (seq_layout K es)
     \<and> kp_pools sq = kp_pools (seq_layout K es) \<and> length (kp_new sq) = length (kp_pools sq)"

lemma pools_end_sorted:
  assumes "0 < K"
  shows "sorted (map (\<lambda>j. fst (kp_cells (seq_layout K es) ! (j + K - 1))) (kp_pools (seq_layout K es)))"
proof -
  let ?cs = "sort es" and ?P = "pool_ok K (fst (hd (sort es))) (sort es)"
  let ?f = "\<lambda>j. fst (?cs ! (j + K - 1))"
  have "?f i \<le> ?f j" if "i \<le> j" "?P j" for i j
  proof -
    have "?cs ! (i + K - 1) \<le> ?cs ! (j + K - 1)"
      by (rule sorted_nth_mono[OF sorted_sort]) (use that assms in \<open>auto simp: pool_ok_def\<close>)
    then show ?thesis by (auto simp: less_eq_prod_def)
  qed
  moreover have "filter ?P [0..<length es] ! a \<le> filter ?P [0..<length es] ! b"
      "?P (filter ?P [0..<length es] ! b)" if "a \<le> b" "b < length (filter ?P [0..<length es])" for a b
    using that sorted_nth_mono[OF sorted_wrt_filter[OF sorted_upt, of ?P 0 "length es"] that] nth_mem[OF that(2)]
    by auto
  ultimately have "sorted (map ?f (filter ?P [0..<length es]))"
    by (simp add: sorted_iff_nth_mono)
  then show ?thesis
    using seq_layout_sel(1,3)[of K es] assms by simp
qed

definition visible_pools :: "nat \<Rightarrow> kpool_seq \<Rightarrow> int \<Rightarrow> nat list" where
  "visible_pools K sq p = takeWhile (\<lambda>j. fst (kp_cells sq ! (j + K - 1)) \<le> p) (kp_pools sq)"

lemma visible_pools_iff:
  assumes "0 < K" "grid_seq K es sq"
  shows "j \<in> set (visible_pools K sq p) \<longleftrightarrow> j \<in> set (kp_pools sq) \<and> fst (kp_cells sq ! (j + K - 1)) \<le> p"
proof -
  let ?f = "\<lambda>j. fst (kp_cells sq ! (j + K - 1))"
  have srt: "sorted (map ?f (kp_pools sq))"
    using pools_end_sorted[OF assms(1)] assms(2) by (simp add: grid_seq_def)
  show ?thesis
  proof
    assume "j \<in> set (visible_pools K sq p)"
    then show "j \<in> set (kp_pools sq) \<and> ?f j \<le> p"
      unfolding visible_pools_def by (auto dest: set_takeWhileD)
  next
    assume a: "j \<in> set (kp_pools sq) \<and> ?f j \<le> p"
    then obtain i where i: "i < length (kp_pools sq)" "kp_pools sq ! i = j" by (auto simp: in_set_conv_nth)
    then have "i < length (visible_pools K sq p)"
      using takeWhile_sorted[OF srt i(1)] a by (simp add: visible_pools_def)
    with i show "j \<in> set (visible_pools K sq p)"
      unfolding visible_pools_def by (metis nth_mem takeWhile_nth)
  qed
qed

definition seen_cells :: "nat \<Rightarrow> kpool_seq \<Rightarrow> int \<Rightarrow> nat set" where
  "seen_cells K sq p = (\<Union>j \<in> set (visible_pools K sq p). set (pool_members K (kp_cells sq) j))
     \<union> {c. \<exists>k < K - 1. tail_cell K sq p k = Some c}"

text \<open>A token at position \<open>p\<close>, whose sequence is cached without holes from its first position up
  to \<open>p\<close>, sees exactly the cells at or before \<open>p\<close>.\<close>

lemma seen_cells_exact:
  assumes "1 < K" "grid_seq K es sq" "distinct (map fst es)" "es \<noteq> []"
    and "\<forall>q. kp_min sq \<le> q \<and> q \<le> p \<longrightarrow> q \<in> fst ` set es"
  shows "seen_cells K sq p = {c. \<exists>q \<le> p. (q, c) \<in> set es}"
proof -
  let ?cs = "sort es" and ?pm = "fst (hd (sort es))"
  have K: "0 < K" using assms(1) by simp
  have sel: "kp_cells sq = ?cs" "kp_min sq = ?pm"
      "kp_pools sq = filter (pool_ok K ?pm ?cs) [0..<length es]"
    using assms(2,4) seq_layout_sel(1,2,3)[of K es] K by (simp_all add: grid_seq_def)
  have uniq: "c = c'" if "(q, c) \<in> set es" "(q, c') \<in> set es" for q c c'
    using inj_onD[of fst "set es" "(q, c)" "(q, c')"] assms(3) that by (simp add: distinct_map)
  have pm_le: "?pm \<le> q" if "(q, c) \<in> set es" for q c
  proof -
    have "?cs ! 0 \<le> e" if "e \<in> set ?cs" for e
    proof -
      have "\<exists>i < length ?cs. ?cs ! i = e" using that by (simp only: in_set_conv_nth)
      then obtain i where "i < length ?cs" "?cs ! i = e" by (elim exE conjE)
      then show ?thesis using sorted_nth_mono[OF sorted_sort[of es], of 0 i] by simp
    qed
    from this[of "(q, c)"] that assms(4) show ?thesis by (auto simp: hd_conv_nth less_eq_prod_def)
  qed
  have find: "find_cell (kp_cells sq) q = Some c" if "(q, c) \<in> set es" for q c
    unfolding sel
  proof (rule find_cell_in)
    have "mset (map fst ?cs) = mset (map fst es)" by simp
    with assms(3) show "distinct (map fst ?cs)" using mset_eq_imp_distinct_iff by blast
  qed (use that in simp_all)
  have member: "(fst (?cs ! (j + k)), snd (?cs ! (j + k))) \<in> set es \<and>
    fst (?cs ! (j + k)) = fst (?cs ! j) + int k" if "pool_ok K ?pm ?cs j" "k < K" for j k
  proof (intro conjI)
    have "j + k < length ?cs" using that by (simp add: pool_ok_def)
    then have "?cs ! (j + k) \<in> set ?cs" by (rule nth_mem)
    then show "(fst (?cs ! (j + k)), snd (?cs ! (j + k))) \<in> set es" by (simp only: prod.collapse set_sort)
  qed (use that in \<open>simp add: pool_ok_def\<close>)
  note member = conjunct1[OF member] conjunct2[OF member]
  show ?thesis
  proof (intro set_eqI iffI)
    fix c assume "c \<in> seen_cells K sq p"
    then consider j k where "j \<in> set (visible_pools K sq p)" "k < K" "c = snd (?cs ! (j + k))"
      | k where "tail_cell K sq p k = Some c"
      by (auto simp: seen_cells_def pool_members_def sel(1))
    then show "c \<in> {c. \<exists>q \<le> p. (q, c) \<in> set es}"
    proof cases
      case 1
      then have j: "pool_ok K ?pm ?cs j" "fst (?cs ! (j + K - 1)) \<le> p"
        using visible_pools_iff[OF K assms(2)] sel by auto
      have "fst (?cs ! (j + (K - 1))) = fst (?cs ! j) + int (K - 1)" by (rule member(2)[OF j(1)]) (use K in simp)
      then have "fst (?cs ! (j + k)) \<le> p" using member(2)[OF j(1) 1(2)] j(2) 1(2) K by simp
      with member(1)[OF j(1) 1(2)] 1(3) show ?thesis by auto
    next
      case 2
      then have "(p - int k, c) \<in> set es"
        using find_cell_Some[of "kp_cells sq" "p - int k" c] by (auto simp: tail_cell_def sel(1) split: if_splits)
      then have "p - int k \<le> p \<and> (p - int k, c) \<in> set es" by simp
      then show ?thesis by blast
    qed
  next
    fix c assume "c \<in> {c. \<exists>q \<le> p. (q, c) \<in> set es}"
    then obtain q where q: "q \<le> p" "(q, c) \<in> set es" by blast
    define r where "r = (q - ?pm) div int K"
    define b where "b = ?pm + int K * r"
    have m: "0 \<le> (q - ?pm) mod int K" "(q - ?pm) mod int K < int K" using K by simp_all
    have "q - ?pm = int K * r + (q - ?pm) mod int K" unfolding r_def by simp
    then have bq: "b \<le> q" "q < b + int K" unfolding b_def using m by linarith+
    have "0 \<le> q - ?pm" using pm_le[OF q(2)] by simp
    then have "0 \<le> r" unfolding r_def using K by (simp add: pos_imp_zdiv_nonneg_iff)
    then have pb: "?pm \<le> b" unfolding b_def by simp
    show "c \<in> seen_cells K sq p"
    proof (cases "b + int K - 1 \<le> p")
      case True
      have "b + int k \<in> fst ` set es" if "k < K" for k
        by (rule assms(5)[rule_format]) (use pb True that sel(2) in auto)
      moreover have "(b - ?pm) mod int K = 0" by (simp add: b_def)
      ultimately have "\<exists>j \<in> set (kp_pools (seq_layout K es)). j + K \<le> length ?cs \<and> (\<forall>k < K. fst (?cs ! (j + k)) = b + int k)"
        using pools_are_blocks[OF K, of 0 1 "map (\<lambda>e. \<lparr>cd_pos = fst e, cd_cell = snd e, cd_seqs = [0]\<rparr>) es" b]
          assms(3,4) sel by (simp add: layout_of_eq(2) members_def o_def seq_layout_sel(1,2))
      then obtain j where j: "j \<in> set (kp_pools sq)" "\<forall>k < K. fst (?cs ! (j + k)) = b + int k"
        using assms(2) by (auto simp: grid_seq_def)
      have ok: "pool_ok K ?pm ?cs j" using j(1) sel by auto
      have "fst (?cs ! (j + (K - 1))) = b + int (K - 1)" using j(2)[rule_format, of "K - 1"] K by simp
      then have vis: "j \<in> set (visible_pools K sq p)"
        using visible_pools_iff[OF K assms(2)] j(1) True K sel by simp
      let ?k = "nat (q - b)"
      have k: "?k < K" "fst (?cs ! (j + ?k)) = q" using j(2) bq by auto
      with member(1)[OF ok k(1)] uniq[OF q(2)] have "c = snd (?cs ! (j + ?k))" by simp
      then have "c \<in> set (pool_members K (kp_cells sq) j)" using k(1) by (auto simp: pool_members_def sel)
      with vis show ?thesis by (auto simp: seen_cells_def)
    next
      case False
      have "p - ?pm + 1 = int K * r + (p - b + 1)" by (simp add: b_def)
      then have "(p - ?pm + 1) mod int K = (p - b + 1) mod int K" by (simp only: mod_mult_self4)
      also have "\<dots> = p - b + 1" using False bq q(1) by (intro mod_pos_pos_trivial) auto
      finally have nt: "n_tail K sq p = nat (p - b + 1)"
        using assms(4) sel pb bq(1) q(1) by (simp add: n_tail_def Let_def)
      let ?k = "nat (p - q)"
      have "?k < n_tail K sq p" "?k < K - 1" using nt False bq q(1) by auto
      moreover have "p - int ?k = q" using q(1) by simp
      ultimately have "?k < K - 1" "tail_cell K sq p ?k = Some c" using find[OF q(2)] by (simp_all add: tail_cell_def)
      then show ?thesis unfolding seen_cells_def by blast
    qed
  qed
qed

subsection \<open>The fill never trips an assertion\<close>

definition flags_ok :: "kpool_state \<Rightarrow> bool" where
  "flags_ok st \<longleftrightarrow> (\<forall>sq \<in> set (ks_seqs st). length (kp_new sq) = length (kp_pools sq)) \<and> n_new st = count_new (ks_seqs st)"

lemma length_pool_refs: "\<forall>sq \<in> set seqs. length (kp_new sq) = length (kp_pools sq) \<Longrightarrow>
    length (concat (map seq_refs seqs)) = n_pools seqs"
  by (induction seqs) (simp_all add: n_pools_def seq_refs_length)

lemma fresh_zip: "length js = length nws \<Longrightarrow>
    length (filter (ref_new \<circ> Pair cs) (zip js nws)) = length (filter (\<lambda>b. b) nws)"
  by (induction js nws rule: list_induct2) (simp_all add: ref_new_def)

lemma fresh_seq_refs: "length (kp_new sq) = length (kp_pools sq) \<Longrightarrow>
    length (filter ref_new (seq_refs sq)) = length (filter (\<lambda>b. b) (kp_new sq))"
  using fresh_zip[of "kp_pools sq" "kp_new sq" "kp_cells sq"] by (simp add: seq_refs_def filter_map o_def)

lemma length_fresh: "\<forall>sq \<in> set seqs. length (kp_new sq) = length (kp_pools sq) \<Longrightarrow>
    length (filter ref_new (concat (map seq_refs seqs))) = count_new seqs"
  by (induction seqs) (simp_all add: count_new_def fresh_seq_refs)

lemma fill_defined:
  assumes "fill_dims_ok st d toks" "flags_ok st" "n_pool_real st = n_pools (ks_seqs st)"
    and "list_all (tok_ok st) toks" "want_blk \<longrightarrow> d_blk d < d_kpool d"
    and "find_cell (kp_cells (ks_seqs st ! tok_seq (hd toks))) (td_pos (hd toks)) = Some dummy"
  shows "\<exists>b. kpool_fill want_blk st d toks = Some b"
proof -
  have toks: "toks \<noteq> []" using assms(1) by (auto simp: fill_dims_ok_def)
  have refs: "length (pool_refs st) = n_pool_real st"
    using assms(2,3) by (simp add: pool_refs_def flags_ok_def length_pool_refs)
  have fresh: "length (filter ref_new (pool_refs st)) = d_n_new d"
    using assms(1,2) by (simp add: pool_refs_def flags_ok_def length_fresh fill_dims_ok_def)
  have "length (pool_refs st) < d_n_pool d"
    using refs assms(1) pad_exceeds[of "n_pool_real st"] by (simp add: fill_dims_ok_def)
  then have "list_all (\<lambda>ip. ip + 1 < d_n_pool d) [0..<length (pool_refs st)]" by (auto simp: list_all_iff)
  moreover have "tok_ok st (hd toks)" using assms(4) toks by (cases toks) auto
  ultimately show ?thesis
    using assms refs fresh toks by (auto simp: kpool_fill_def Let_def)
qed

subsection \<open>The buffers\<close>

lemma fill_bufs:
  assumes "kpool_fill want_blk st d toks = Some b" "\<not> d_gather d"
  shows "length (pool_refs st) < d_n_pool d" "1 < d_kpool d"
    and "ip < length (pool_refs st) \<Longrightarrow> pool_idxs b ! ip = ref_members (d_kpool d) (pool_refs st ! ip)"
    and "i < length toks \<Longrightarrow> pool_mask b ! i = mask_row d st (tok_seq (toks ! i)) (td_pos (toks ! i))"
    and "i < length toks \<Longrightarrow> tail_idxs b ! i
      = tail_row (d_kpool d) (ks_seqs st ! tok_seq (toks ! i)) (td_pos (toks ! i)) (d_n_kv d)"
    and "i < length toks \<Longrightarrow> tok_ok st (toks ! i)"
proof -
  show K: "1 < d_kpool d"
    using assms(1) by (auto simp: kpool_fill_def fill_dims_ok_def Let_def split: if_splits option.splits)
  have "length (pool_refs st) = n_pool_real st \<and> d_n_pool d = kpool_pad (n_pool_real st)"
    using assms(1) by (auto simp: kpool_fill_def fill_dims_ok_def Let_def split: if_splits option.splits)
  with pad_exceeds(1)[of "n_pool_real st"] show "length (pool_refs st) < d_n_pool d" by simp
  show "i < length toks \<Longrightarrow> tok_ok st (toks ! i)"
    using assms(1) by (auto simp: kpool_fill_def Let_def list_all_length split: if_splits option.splits)
qed (use assms in \<open>auto simp: kpool_fill_def Let_def nth_append split: if_splits option.splits\<close>)

lemma refs_at:
  assumes "s < length (ks_seqs st)" "length (kp_new (ks_seqs st ! s)) = length (kp_pools (ks_seqs st ! s))"
    and "k < length (kp_pools (ks_seqs st ! s))"
  shows "seq_pool_start st s + k < length (pool_refs st)
    \<and> ref_members K (pool_refs st ! (seq_pool_start st s + k))
      = pool_members K (kp_cells (ks_seqs st ! s)) (kp_pools (ks_seqs st ! s) ! k)"
proof -
  let ?sq = "ks_seqs st ! s" and ?p0 = "seq_pool_start st s"
  note seg = seq_segment[OF assms(1,2)]
  have "length (take (length (kp_pools ?sq)) (drop ?p0 (pool_refs st))) = length (kp_pools ?sq)"
    unfolding seg using seq_refs_length[OF assms(2)] .
  then have len: "?p0 + k < length (pool_refs st)" using assms(3) by simp
  have "pool_refs st ! (?p0 + k) = take (length (kp_pools ?sq)) (drop ?p0 (pool_refs st)) ! k"
    using assms(3) len by simp
  also have "\<dots> = seq_refs ?sq ! k" unfolding seg ..
  finally show ?thesis using len assms(2,3) by (simp add: seq_refs_def ref_members_def)
qed

lemma masked_cells:
  assumes "kpool_fill want_blk st d toks = Some b" "\<not> d_gather d" "i < length toks" "flags_ok st"
    and "s = tok_seq (toks ! i)" "p = td_pos (toks ! i)"
  shows "(\<Union>ip \<in> {ip. ip < d_n_pool d \<and> pool_mask b ! i ! ip}. set (pool_idxs b ! ip))
    = (\<Union>j \<in> set (visible_pools (d_kpool d) (ks_seqs st ! s) p). set (pool_members (d_kpool d) (kp_cells (ks_seqs st ! s)) j))"
proof -
  let ?K = "d_kpool d" and ?sq = "ks_seqs st ! s" and ?p0 = "seq_pool_start st s"
  let ?vis = "visible_pools ?K ?sq p"
  note bufs = fill_bufs[OF assms(1,2)]
  have s: "s < length (ks_seqs st)" using bufs(6)[OF assms(3)] assms(5) by (simp add: tok_ok_def tok_seq_def)
  then have new: "length (kp_new ?sq) = length (kp_pools ?sq)" using assms(4) by (simp add: flags_ok_def)
  have nv: "n_visible ?K st s p = length ?vis" using n_visible_eq[OF s new] by (simp add: visible_pools_def)
  have vis: "length ?vis \<le> length (kp_pools ?sq)" "k < length ?vis \<Longrightarrow> ?vis ! k = kp_pools ?sq ! k" for k
    unfolding visible_pools_def by (simp_all add: length_takeWhile_le takeWhile_nth)
  note at = refs_at[OF s new, of _ ?K]
  have row: "{ip. ip < d_n_pool d \<and> pool_mask b ! i ! ip} = (\<lambda>k. ?p0 + k) ` {..<length ?vis}"
  proof (intro set_eqI iffI)
    fix ip assume "ip \<in> {ip. ip < d_n_pool d \<and> pool_mask b ! i ! ip}"
    then have "?p0 \<le> ip" "ip - ?p0 < length ?vis"
      using bufs(4)[OF assms(3)] assms(5,6) nv by (auto simp: mask_row_def Let_def)
    then show "ip \<in> (\<lambda>k. ?p0 + k) ` {..<length ?vis}" by (intro image_eqI[of _ _ "ip - ?p0"]) auto
  next
    fix ip assume "ip \<in> (\<lambda>k. ?p0 + k) ` {..<length ?vis}"
    then obtain k where k: "k < length ?vis" "ip = ?p0 + k" by auto
    with at[of k] vis(1) bufs(1) have "ip < d_n_pool d" by simp
    with k show "ip \<in> {ip. ip < d_n_pool d \<and> pool_mask b ! i ! ip}"
      using bufs(4)[OF assms(3)] assms(5,6) nv by (auto simp: mask_row_def Let_def)
  qed
  have idx: "pool_idxs b ! (?p0 + k) = pool_members ?K (kp_cells ?sq) (?vis ! k)" if "k < length ?vis" for k
    using at[of k] bufs(3)[of "?p0 + k"] vis that by simp
  have "(\<Union>ip \<in> {ip. ip < d_n_pool d \<and> pool_mask b ! i ! ip}. set (pool_idxs b ! ip))
      = (\<Union>k < length ?vis. set (pool_members ?K (kp_cells ?sq) (?vis ! k)))"
    unfolding row using idx by simp
  also have "\<dots> = (\<Union>j \<in> (!) ?vis ` {..<length ?vis}. set (pool_members ?K (kp_cells ?sq) j))" by simp
  also have "(!) ?vis ` {..<length ?vis} = set ?vis" by (auto simp: in_set_conv_nth)
  finally show ?thesis .
qed

lemma tail_cells: "set (tail_row K sq p sentinel) - {sentinel} = {c. \<exists>k < K - 1. tail_cell K sq p k = Some c} - {sentinel}"
  by (auto simp: tail_row_def split: option.splits) force+

lemma token_sees:
  assumes "kpool_fill want_blk st d toks = Some b" "\<not> d_gather d" "i < length toks" "flags_ok st"
    and "grid_seq (d_kpool d) es (ks_seqs st ! tok_seq (toks ! i))" "distinct (map fst es)" "es \<noteq> []"
    and "\<forall>e \<in> set es. snd e < d_n_kv d"
    and "\<forall>q. kp_min (ks_seqs st ! tok_seq (toks ! i)) \<le> q \<and> q \<le> td_pos (toks ! i) \<longrightarrow> q \<in> fst ` set es"
  shows "(\<Union>ip \<in> {ip. ip < d_n_pool d \<and> pool_mask b ! i ! ip}. set (pool_idxs b ! ip))
      \<union> (set (tail_idxs b ! i) - {d_n_kv d}) = {c. \<exists>q \<le> td_pos (toks ! i). (q, c) \<in> set es}"
proof -
  let ?sq = "ks_seqs st ! tok_seq (toks ! i)" and ?p = "td_pos (toks ! i)"
  note bufs = fill_bufs[OF assms(1,2)]
  have seen: "seen_cells (d_kpool d) ?sq ?p = {c. \<exists>q \<le> ?p. (q, c) \<in> set es}"
    by (rule seen_cells_exact[OF bufs(2) assms(5-7,9)])
  then have "d_n_kv d \<notin> seen_cells (d_kpool d) ?sq ?p" using assms(8) by auto
  then have "(\<Union>ip \<in> {ip. ip < d_n_pool d \<and> pool_mask b ! i ! ip}. set (pool_idxs b ! ip))
      \<union> (set (tail_idxs b ! i) - {d_n_kv d}) = seen_cells (d_kpool d) ?sq ?p"
    unfolding masked_cells[OF assms(1-4) refl refl] bufs(5)[OF assms(3)] tail_cells seen_cells_def by blast
  with seen show ?thesis by simp
qed

end
