(* ===== verification/KpoolPlan.thy ===== *)
theory KpoolPlan
  imports KpoolFill KvCache
begin

section \<open>The per-context plan of the pooled indexer (src/llama-kv-cache-kpool.cpp)\<close>

text \<open>
  One plan is carried across ubatches.  \<open>build_plan\<close> sizes the worst case for a reserve, or derives
  the grid of the cache: it recognises a plan already applied, appends the cells of the ubatch, or
  rebuilds.  \<open>reserve_begin\<close> and \<open>reserve_end\<close> bracket a synthetic build; \<open>replan_for_reuse\<close>
  decides whether a built graph may be reused; \<open>set_inputs\<close> fills the buffers.  The input tensors
  are a parameter type; \<open>None\<close> is a failed assertion or the abort of the verification lever.
\<close>

record 'i kpool_plan =
  pl_st :: kpool_state
  pl_dims :: kpool_dims
  pl_inputs :: 'i
  pl_stale :: bool
  pl_built :: bool
  pl_reserve_only :: bool
  pl_toks :: "tok_desc list"
  pl_st_ws :: kpool_state
  pl_have_state :: bool
  pl_applied_used :: u32
  pl_applied_size :: nat
  pl_applied_nseq :: nat
  pl_applied_kpool :: nat
  pl_n_occupied :: nat

text \<open>The hyperparameters, context parameters and environment levers the plan reads.\<close>

record kpool_params =
  h_kpool :: nat
  h_top_k :: nat
  h_select_tail :: bool
  c_n_seq_max :: nat
  lv_incr :: bool
  lv_verify :: bool
  lv_blkpos :: nat

record ubatch =
  ub_n_tokens :: nat
  ub_pos :: "int list option"
  ub_all_pos_0 :: int
  ub_all_pos_1 :: int
  ub_n_seq_id :: "nat list option"
  ub_seq_id :: "int list option list option"
  ub_all_seq_id :: int

subsection \<open>Reading the batch and the cache\<close>

definition kpool_batch_pos :: "ubatch \<Rightarrow> nat \<Rightarrow> int" where
  "kpool_batch_pos b i = (case ub_pos b of Some ps \<Rightarrow> ps ! i | None \<Rightarrow> ub_all_pos_0 b + int i * ub_all_pos_1 b)"

definition kpool_batch_seqs :: "ubatch \<Rightarrow> nat \<Rightarrow> int list" where
  "kpool_batch_seqs b i =
     (let n = (case ub_n_seq_id b of Some ns \<Rightarrow> ns ! i | None \<Rightarrow> 1);
          out = map (\<lambda>k. case ub_seq_id b of None \<Rightarrow> ub_all_seq_id b
                   | Some rows \<Rightarrow> (case rows ! i of None \<Rightarrow> ub_all_seq_id b | Some r \<Rightarrow> r ! k)) [0..<n]
      in if out = [] then [ub_all_seq_id b] else out)"

definition batch_toks :: "ubatch \<Rightarrow> tok_desc list" where
  "batch_toks b = map (\<lambda>i. \<lparr>td_pos = kpool_batch_pos b i, td_seqs = kpool_batch_seqs b i\<rparr>) [0..<ub_n_tokens b]"

definition desc_of :: "kv_cache \<Rightarrow> nat \<Rightarrow> cell_desc" where
  "desc_of kv i = \<lparr>cd_pos = pos (cells kv ! i), cd_cell = i, cd_seqs = sorted_list_of_set (seq_id (cells kv ! i))\<rparr>"

definition cache_descs :: "kv_cache \<Rightarrow> cell_desc list" where
  "cache_descs kv = map (desc_of kv) (filter (\<lambda>i. \<not> is_empty_cell (cells kv ! i)) [0..<size kv])"

definition layout_holds :: "kpool_state \<Rightarrow> int \<Rightarrow> int \<Rightarrow> nat \<Rightarrow> bool" where
  "layout_holds st s p c \<longleftrightarrow>
     0 \<le> s \<and> nat s < length (ks_seqs st) \<and> find_cell (kp_cells (ks_seqs st ! nat s)) p = Some c"

subsection \<open>Planning one ubatch\<close>

definition base_dims :: "kpool_params \<Rightarrow> kv_cache \<Rightarrow> ubatch \<Rightarrow> kpool_dims \<Rightarrow> kpool_dims" where
  "base_dims pp kv b d = d\<lparr>d_kpool := h_kpool pp, d_n_tokens := ub_n_tokens b, d_n_kv := unat (kv_n kv),
     d_blk := min (lv_blkpos pp) (h_kpool pp - 1)\<rparr>"

definition max_ub :: nat where "max_ub = 16"

definition size_dims :: "kpool_params \<Rightarrow> kv_cache \<Rightarrow> nat \<Rightarrow> nat option \<Rightarrow> nat \<Rightarrow> kpool_dims \<Rightarrow> kpool_dims" where
  "size_dims pp kv n_real nnew occupied d =
     (let K = h_kpool pp; np = kpool_pad n_real;
          nf = kpool_n_new_floor np (d_n_tokens d) K;
          nn = (case nnew of Some n \<Rightarrow> n | None \<Rightarrow> nf);
          nt = kpool_n_top np (h_top_k pp) K;
          ns = kpool_n_sel nt K (h_select_tail pp)
      in d\<lparr>d_n_pool := np, d_n_new := nn, d_n_new_g := max nn nf, d_sink := size kv,
           d_n_top := nt, d_n_sel := ns, d_gather := (d_n_tokens d \<le> max_ub \<and> ns < occupied)\<rparr>)"

definition already_applied :: "kv_cache \<Rightarrow> kpool_state \<Rightarrow> tok_desc list \<Rightarrow> bool" where
  "already_applied kv st toks \<longleftrightarrow> head kv + length toks \<le> size kv
     \<and> list_all (\<lambda>i. let c = cells kv ! (head kv + i); t = toks ! i in
           \<not> is_empty_cell c \<and> pos c = td_pos t \<and> td_seqs t \<noteq> []
         \<and> layout_holds st (hd (td_seqs t)) (pos c) (head kv + i)) [0..<length toks]"

definition added_descs :: "kv_cache \<Rightarrow> tok_desc list \<Rightarrow> cell_desc list option" where
  "added_descs kv toks =
     (if head kv + length toks \<le> size kv
       \<and> list_all (\<lambda>i. let c = cells kv ! (head kv + i); t = toks ! i in
             \<not> is_empty_cell c \<and> pos c = td_pos t
           \<and> cd_seqs (desc_of kv (head kv + i)) = td_seqs t) [0..<length toks]
      then Some (map (desc_of kv) [head kv..<head kv + length toks]) else None)"

definition carried :: "kpool_params \<Rightarrow> kv_cache \<Rightarrow> 'i kpool_plan \<Rightarrow> bool" where
  "carried pp kv P \<longleftrightarrow> lv_incr pp \<and> pl_have_state P \<and> \<not> pl_stale P \<and> pl_applied_size P = size kv
     \<and> pl_applied_nseq P = max 1 (c_n_seq_max pp) \<and> pl_applied_kpool P = h_kpool pp"

text \<open>\<open>Some (True, \<dots>)\<close>: the carried layout describes the cache, with its occupied count;
  \<open>Some (False, \<dots>)\<close>: it must be rebuilt.\<close>

definition append_plan ::
  "kpool_params \<Rightarrow> kv_cache \<Rightarrow> tok_desc list \<Rightarrow> 'i kpool_plan \<Rightarrow> (bool \<times> kpool_state \<times> nat) option" where
  "append_plan pp kv toks P =
     (let keep = (False, pl_st P, pl_n_occupied P) in
      if \<not> carried pp kv P then Some keep
      else if pl_applied_used P = used kv then Some (already_applied kv (pl_st P) toks, snd keep)
      else if pl_applied_used P + of_nat (length toks) = used kv then
        (case added_descs kv toks of
          None \<Rightarrow> Some keep
        | Some added \<Rightarrow>
            let before = map (\<lambda>sq. length (kp_pools sq)) (ks_seqs (pl_st P)) in
            (case append_layout (pl_st P) added (h_kpool pp) of
              None \<Rightarrow> None
            | Some (False, st) \<Rightarrow> Some (False, st, pl_n_occupied P)
            | Some (True, st) \<Rightarrow>
                (case mark_new_appended st before of
                  None \<Rightarrow> None
                | Some st' \<Rightarrow> Some (True, st', pl_n_occupied P + length added))))
      else Some keep)"

definition verify_ok :: "kpool_params \<Rightarrow> kv_cache \<Rightarrow> kpool_state \<Rightarrow> tok_desc list \<Rightarrow> bool" where
  "verify_ok pp kv st toks \<longleftrightarrow>
     (case build_layout (cache_descs kv) (h_kpool pp) (max 1 (c_n_seq_max pp)) of
        None \<Rightarrow> False
      | Some ref \<Rightarrow> grid_diff st (mark_new ref toks (h_kpool pp) False) = None)"

definition finish_plan :: "kpool_params \<Rightarrow> kv_cache \<Rightarrow> kpool_state \<Rightarrow> nat \<Rightarrow> 'i kpool_plan \<Rightarrow> 'i kpool_plan" where
  "finish_plan pp kv st occupied P = P\<lparr>pl_st := st, pl_n_occupied := occupied, pl_stale := False,
     pl_have_state := True, pl_applied_used := used kv, pl_applied_size := size kv,
     pl_applied_nseq := max 1 (c_n_seq_max pp), pl_applied_kpool := h_kpool pp,
     pl_dims := size_dims pp kv (n_pool_real st) (Some (n_new st)) occupied (pl_dims P),
     pl_built := True, pl_reserve_only := False\<rparr>"

definition worst_plan :: "kpool_params \<Rightarrow> kv_cache \<Rightarrow> 'i kpool_plan \<Rightarrow> 'i kpool_plan" where
  "worst_plan pp kv P = P\<lparr>pl_st_ws := \<lparr>ks_seqs = replicate (max 1 (c_n_seq_max pp)) empty_seq,
       n_pool_real = 0, n_new = 0, cache_safe = True\<rparr>, pl_toks := [],
     pl_dims := size_dims pp kv (size kv div h_kpool pp) None (size kv) (pl_dims P),
     pl_built := True, pl_reserve_only := True\<rparr>"

definition rebuild_plan :: "kpool_params \<Rightarrow> kv_cache \<Rightarrow> tok_desc list \<Rightarrow> 'i kpool_plan \<Rightarrow> 'i kpool_plan option" where
  "rebuild_plan pp kv toks P =
     (case build_layout (cache_descs kv) (h_kpool pp) (max 1 (c_n_seq_max pp)) of
        None \<Rightarrow> None
      | Some st \<Rightarrow> Some (finish_plan pp kv (mark_new st toks (h_kpool pp) (pl_stale P)) (length (cache_descs kv)) P))"

definition build_plan :: "kpool_params \<Rightarrow> kv_cache \<Rightarrow> ubatch \<Rightarrow> bool \<Rightarrow> 'i kpool_plan \<Rightarrow> 'i kpool_plan option" where
  "build_plan pp kv b worst P0 =
     (if h_kpool pp \<le> 1 then None
      else let P1 = P0\<lparr>pl_dims := base_dims pp kv b (pl_dims P0)\<rparr>
        in if worst then Some (worst_plan pp kv P1)
        else let toks = batch_toks b; P = P1\<lparr>pl_toks := toks\<rparr> in
          (case append_plan pp kv toks P of
            None \<Rightarrow> None
          | Some (True, st, occ) \<Rightarrow>
              if lv_verify pp \<and> \<not> verify_ok pp kv st toks then None
              else Some (finish_plan pp kv st occ P)
          | Some (False, st, occ) \<Rightarrow> rebuild_plan pp kv toks (P\<lparr>pl_st := st\<rparr>)))"

subsection \<open>Edits, reserves, reuse and the inputs\<close>

definition mark_stale :: "'i kpool_plan \<Rightarrow> 'i kpool_plan" where
  "mark_stale P = P\<lparr>pl_stale := True, pl_have_state := False\<rparr>"

definition get_state :: "'i kpool_plan \<Rightarrow> kpool_state option" where
  "get_state P = (if \<not> pl_built P then None else Some (if pl_reserve_only P then pl_st_ws P else pl_st P))"

definition get_dims :: "'i kpool_plan \<Rightarrow> kpool_dims option" where
  "get_dims P = (if \<not> pl_built P then None else Some (pl_dims P))"

text \<open>The plan with the saved copy of an open reserve scope.\<close>

type_synonym 'i kpool_ctx = "'i kpool_plan \<times> 'i kpool_plan option"

definition reserve_begin :: "'i kpool_ctx \<Rightarrow> 'i kpool_ctx option" where
  "reserve_begin c = (case c of (P, None) \<Rightarrow> Some (P, Some P) | (P, Some _) \<Rightarrow> None)"

definition reserve_end :: "'i kpool_ctx \<Rightarrow> 'i kpool_ctx option" where
  "reserve_end c = (case c of (P, Some S) \<Rightarrow> Some (S\<lparr>pl_inputs := pl_inputs P\<rparr>, None) | (P, None) \<Rightarrow> None)"

definition replan_for_reuse :: "kpool_params \<Rightarrow> kv_cache \<Rightarrow> ubatch \<Rightarrow> 'i kpool_plan \<Rightarrow> (bool \<times> 'i kpool_plan) option" where
  "replan_for_reuse pp kv b P =
     (if \<not> pl_built P \<or> pl_reserve_only P then Some (False, P)
      else case build_plan pp kv b False P of
        None \<Rightarrow> None
      | Some P' \<Rightarrow> let d = pl_dims P'; o' = pl_dims P in
          Some (d_kpool d = d_kpool o' \<and> d_n_pool d = d_n_pool o' \<and> d_n_tokens d = d_n_tokens o'
              \<and> d_n_kv d = d_n_kv o' \<and> d_n_new_g d = d_n_new_g o' \<and> d_n_sel d = d_n_sel o'
              \<and> d_n_top d = d_n_top o' \<and> d_gather d = d_gather o' \<and> d_sink d = d_sink o', P'))"

definition set_inputs :: "bool \<Rightarrow> ubatch \<Rightarrow> 'i kpool_plan \<Rightarrow> kpool_bufs option" where
  "set_inputs want_blk b P =
     (if \<not> pl_built P \<or> pl_reserve_only P \<or> ub_n_tokens b \<noteq> d_n_tokens (pl_dims P) then None
      else kpool_fill want_blk (pl_st P) (pl_dims P) (pl_toks P))"

subsection \<open>What a carried plan describes\<close>

abbreviation n_slots :: "kpool_params \<Rightarrow> nat" where
  "n_slots pp \<equiv> max 1 (c_n_seq_max pp)"

definition tracks :: "kpool_params \<Rightarrow> kv_cache \<Rightarrow> 'i kpool_plan \<Rightarrow> bool" where
  "tracks pp kv P \<longleftrightarrow> grid_eq (pl_st P) (layout_of (cache_descs kv) (h_kpool pp) (n_slots pp))
     \<and> flags_ok (pl_st P) \<and> pl_applied_used P = used kv \<and> pl_n_occupied P = length (cache_descs kv)"

text \<open>The cache grew by the tokens of an ubatch, written at its head.\<close>

definition grown :: "kv_cache \<Rightarrow> kv_cache \<Rightarrow> nat \<Rightarrow> bool" where
  "grown kv0 kv n \<longleftrightarrow> size kv0 = size kv \<and> head kv + n \<le> size kv \<and> used kv = used kv0 + of_nat n
     \<and> (\<forall>i < size kv. i < head kv \<or> head kv + n \<le> i \<longrightarrow> cells kv ! i = cells kv0 ! i)
     \<and> (\<forall>i < n. is_empty_cell (cells kv0 ! (head kv + i)) \<and> \<not> is_empty_cell (cells kv ! (head kv + i)))"

lemma grid_eq_sym: "grid_eq a b \<Longrightarrow> grid_eq b a"
  by (simp add: grid_eq_def)

lemma grid_eq_trans: "grid_eq a b \<Longrightarrow> grid_eq b c \<Longrightarrow> grid_eq a c"
  by (simp add: grid_eq_def)

text \<open>Marking overwrites everything \<open>grid_eq\<close> does not compare.\<close>

lemma mark_new_cong:
  assumes "grid_eq a b"
  shows "mark_new a toks K al = mark_new b toks K al"
proof -
  have seq: "mark_seq K x up (ks_seqs a ! s) = mark_seq K x up (ks_seqs b ! s)" if "s < length (ks_seqs b)" for s x up
    using assms that by (simp add: grid_eq_def mark_seq_def)
  have seqs: "ks_seqs (mark_new a toks K al) = ks_seqs (mark_new b toks K al)"
    using assms seq by (simp add: mark_new_def Let_def grid_eq_def)
  have new: "n_new (mark_new c toks K al) = count_new (ks_seqs (mark_new c toks K al))"
    "n_pool_real (mark_new c toks K al) = n_pool_real c" "cache_safe (mark_new c toks K al) = cache_safe c" for c
    by (simp_all add: mark_new_def Let_def)
  show ?thesis
    by (rule kpool_state.equality) (use assms in \<open>simp_all add: seqs new grid_eq_def\<close>)
qed

lemma mark_new_grid: "grid_eq (mark_new st toks K al) st"
  by (simp add: grid_eq_def mark_new_def mark_seq_def Let_def)

lemma mark_new_flags: "flags_ok (mark_new st toks K al)"
  by (auto simp: flags_ok_def mark_new_def mark_seq_def Let_def)

text \<open>The order of the cells does not matter.\<close>

lemma members_mset: "mset cs = mset ds \<Longrightarrow> mset (members cs s) = mset (members ds s)"
proof -
  have "mset (members cs s) = \<Sum>\<^sub># (image_mset (\<lambda>c. mset (map (\<lambda>_. (cd_pos c, cd_cell c)) (filter (\<lambda>u. u = int s) (cd_seqs c)))) (mset cs))" for cs
    by (induction cs) simp_all
  then show "mset cs = mset ds \<Longrightarrow> mset (members cs s) = mset (members ds s)" by simp
qed

lemma seq_layout_mset: "mset es = mset fs \<Longrightarrow> seq_layout K es = seq_layout K fs"
proof -
  assume m: "mset es = mset fs"
  then have "sort es = sort fs" by (intro properties_for_sort) simp_all
  moreover have "es = [] \<longleftrightarrow> fs = []" using m by (metis mset_zero_iff)
  moreover have "seq_layout K es = (if es = [] then seq_layout K [] else seq_layout K (sort es))" for es
    by (simp add: seq_layout_def scan_seq_def Let_def sorted_sort_id case_prod_beta)
  ultimately show ?thesis by metis
qed

lemma layout_mset:
  assumes "mset cs = mset ds"
  shows "layout_of cs K n = layout_of ds K n"
proof -
  have "ks_seqs (layout_of cs K n) = ks_seqs (layout_of ds K n)"
    using seq_layout_mset[OF members_mset[OF assms]] by (intro nth_equalityI) (simp_all add: layout_of_eq)
  moreover have "set cs = set ds" using assms by (metis set_mset_mset)
  moreover have "n_new (layout_of cs K n) = 0" for cs by (simp add: layout_of_def case_prod_beta Let_def)
  ultimately show ?thesis
    by (intro kpool_state.equality) (simp_all add: layout_of_eq)
qed

lemma grown_descs:
  assumes "grown kv0 kv n"
  shows "mset (cache_descs kv) = mset (cache_descs kv0 @ map (desc_of kv) [head kv..<head kv + n])"
    and "length (cache_descs kv) = length (cache_descs kv0) + n"
proof -
  let ?h = "head kv"
  have split: "[0..<size kv] = [0..<?h] @ [?h..<?h + n] @ [?h + n..<size kv]"
  proof -
    have "?h + n \<le> size kv" using assms by (simp add: grown_def)
    then have "[0..<size kv] = [0..<?h + n] @ [?h + n..<size kv]" "[0..<?h + n] = [0..<?h] @ [?h..<?h + n]"
      using upt_add_eq_append[of 0 "?h + n" "size kv - (?h + n)"] upt_add_eq_append[of 0 ?h n] by simp_all
    then show ?thesis by simp
  qed
  have same: "filter (\<lambda>i. \<not> is_empty_cell (cells kv0 ! i)) is = filter (\<lambda>i. \<not> is_empty_cell (cells kv ! i)) is"
      "map (desc_of kv0) is = map (desc_of kv) is" if "set is \<subseteq> {..<?h} \<union> {?h + n..<size kv}" for "is"
  proof -
    have c: "cells kv0 ! i = cells kv ! i" if i: "i \<in> set is" for i
    proof -
      have "i < ?h \<or> ?h + n \<le> i \<and> i < size kv" using \<open>set is \<subseteq> _\<close> i by auto
      moreover have "?h + n \<le> size kv" using assms by (simp add: grown_def)
      ultimately have "i < size kv" "i < ?h \<or> ?h + n \<le> i" by linarith+
      moreover have "\<forall>i < size kv. i < ?h \<or> ?h + n \<le> i \<longrightarrow> cells kv ! i = cells kv0 ! i"
        using assms by (simp add: grown_def)
      ultimately show ?thesis by (metis (no_types))
    qed
    show "filter (\<lambda>i. \<not> is_empty_cell (cells kv0 ! i)) is = filter (\<lambda>i. \<not> is_empty_cell (cells kv ! i)) is"
      by (rule filter_cong) (use c in simp_all)
    show "map (desc_of kv0) is = map (desc_of kv) is" by (rule map_cong) (use c in \<open>simp_all add: desc_of_def\<close>)
  qed
  have mid: "filter (\<lambda>i. \<not> is_empty_cell (cells kv0 ! i)) [?h..<?h + n] = []"
      "filter (\<lambda>i. \<not> is_empty_cell (cells kv ! i)) [?h..<?h + n] = [?h..<?h + n]"
  proof -
    have "is_empty_cell (cells kv0 ! i) \<and> \<not> is_empty_cell (cells kv ! i)" if "?h \<le> i" "i < ?h + n" for i
      using assms that by (auto simp: grown_def dest!: spec[of _ "i - ?h"])
    then show "filter (\<lambda>i. \<not> is_empty_cell (cells kv0 ! i)) [?h..<?h + n] = []"
      "filter (\<lambda>i. \<not> is_empty_cell (cells kv ! i)) [?h..<?h + n] = [?h..<?h + n]"
      by (auto simp: filter_empty_conv filter_id_conv)
  qed
  have part: "map (desc_of kv0) (filter (\<lambda>i. \<not> is_empty_cell (cells kv0 ! i)) is)
      = map (desc_of kv) (filter (\<lambda>i. \<not> is_empty_cell (cells kv ! i)) is)"
    if "set is \<subseteq> {..<?h} \<union> {?h + n..<size kv}" for "is"
    unfolding same(1)[OF that] by (rule same(2)) (use that in auto)
  have part: "map (desc_of kv0) (filter (\<lambda>i. \<not> is_empty_cell (cells kv0 ! i)) [0..<?h])
      = map (desc_of kv) (filter (\<lambda>i. \<not> is_empty_cell (cells kv ! i)) [0..<?h])"
    "map (desc_of kv0) (filter (\<lambda>i. \<not> is_empty_cell (cells kv0 ! i)) [?h + n..<size kv])
      = map (desc_of kv) (filter (\<lambda>i. \<not> is_empty_cell (cells kv ! i)) [?h + n..<size kv])"
    by (rule part; auto)+
  have size: "size kv0 = size kv" and le: "?h + n \<le> size kv" using assms by (simp_all add: grown_def)
  have kv0: "cache_descs kv0 = map (desc_of kv) (filter (\<lambda>i. \<not> is_empty_cell (cells kv ! i)) [0..<?h])
      @ map (desc_of kv) (filter (\<lambda>i. \<not> is_empty_cell (cells kv ! i)) [?h + n..<size kv])"
    unfolding cache_descs_def size split filter_append map_append mid(1)
    by (simp only: part append_Nil list.map(1))
  have kv: "cache_descs kv = map (desc_of kv) (filter (\<lambda>i. \<not> is_empty_cell (cells kv ! i)) [0..<?h])
      @ map (desc_of kv) [?h..<?h + n]
      @ map (desc_of kv) (filter (\<lambda>i. \<not> is_empty_cell (cells kv ! i)) [?h + n..<size kv])"
    unfolding cache_descs_def split filter_append map_append mid(2) ..
  show "mset (cache_descs kv) = mset (cache_descs kv0 @ map (desc_of kv) [?h..<?h + n])"
    "length (cache_descs kv) = length (cache_descs kv0) + n"
    unfolding kv kv0 by simp_all
qed

subsection \<open>The incremental plan is the rebuilt plan\<close>

lemma layout_flags: "build_layout cs K n = Some st \<Longrightarrow> st = layout_of cs K n \<and> 1 < K \<and> 0 < n"
  by (auto simp: build_layout_def split: if_splits)

lemma rebuild_plan_eq:
  assumes "1 < h_kpool pp"
  shows "rebuild_plan pp kv toks P = Some (finish_plan pp kv
    (mark_new (layout_of (cache_descs kv) (h_kpool pp) (n_slots pp)) toks (h_kpool pp) (pl_stale P))
    (length (cache_descs kv)) P)"
  using assms by (simp add: rebuild_plan_def build_layout_def)

lemma added_descs_Some:
  assumes "added_descs kv toks = Some added"
  shows "added = map (desc_of kv) [head kv..<head kv + length toks]" and "map tok_of added = toks"
proof -
  show a: "added = map (desc_of kv) [head kv..<head kv + length toks]"
    using assms by (auto simp: added_descs_def split: if_splits)
  show "map tok_of added = toks"
  proof (rule nth_equalityI)
    fix i assume "i < length (map tok_of added)"
    then have "i < length toks" unfolding a by simp
    moreover have "pos (cells kv ! (head kv + i)) = td_pos (toks ! i)"
      "cd_seqs (desc_of kv (head kv + i)) = td_seqs (toks ! i)"
      using assms \<open>i < length toks\<close> by (auto simp: added_descs_def Let_def list_all_length split: if_splits)
    ultimately show "map tok_of added ! i = toks ! i"
      unfolding a by (simp add: tok_of_def desc_of_def)
  qed (simp add: a)
qed

lemma mark_appended_grid: "mark_new_appended st before = Some st' \<Longrightarrow> grid_eq st' st"
  by (auto simp: mark_new_appended_def grid_eq_def Let_def split: if_splits)

text \<open>When the append succeeds, its state is the one a rebuild of the grown cache gives, flags
  included.\<close>

lemma append_plan_exact:
  assumes "1 < h_kpool pp" "0 < length toks" "size kv < 2 ^ 32" "grown kv0 kv (length toks)"
    and "pl_have_state P \<and> \<not> pl_stale P \<longrightarrow> tracks pp kv0 P"
  shows "(\<exists>st occ. append_plan pp kv toks P = Some (False, st, occ))
    \<or> append_plan pp kv toks P
      = Some (True, mark_new (layout_of (cache_descs kv) (h_kpool pp) (n_slots pp)) toks (h_kpool pp) False,
          length (cache_descs kv)) \<and> \<not> pl_stale P"
proof (cases "carried pp kv P \<and> added_descs kv toks \<noteq> None")
  case True
  let ?K = "h_kpool pp" and ?L = "layout_of (cache_descs kv) (h_kpool pp) (n_slots pp)"
  obtain added where added: "added_descs kv toks = Some added" using True by blast
  have stale: "\<not> pl_stale P" and tr: "tracks pp kv0 P" using True assms(5) by (auto simp: carried_def)
  have used: "pl_applied_used P + of_nat (length toks) = used kv"
    using tr assms(4) by (simp add: tracks_def grown_def)
  have "length toks < 2 ^ 32" using assms(3,4) by (simp add: grown_def)
  with assms(2) have "(of_nat (length toks) :: u32) \<noteq> 0" by (simp add: of_nat_eq_0_iff take_bit_eq_mod word_of_nat_eq_0_iff dvd_imp_le not_le nat_dvd_not_less)
  with used have ne: "pl_applied_used P \<noteq> used kv" by auto
  have old: "grid_eq (pl_st P) (layout_of (cache_descs kv0) ?K (n_slots pp))" using tr by (simp add: tracks_def)
  note ad = added_descs_Some[OF added]
  have len: "length added = length toks" using ad(1) by simp
  let ?before = "map (\<lambda>sq. length (kp_pools sq)) (ks_seqs (pl_st P))"
  obtain r where r: "append_layout (pl_st P) added ?K = Some r"
    using assms(1) by (cases "append_layout (pl_st P) added ?K") (auto simp: append_layout_def Let_def split: if_splits)
  show ?thesis
  proof (cases r)
    case (Pair ok st)
    show ?thesis
    proof (cases ok)
      case False
      with r Pair True added used ne show ?thesis by (simp add: append_plan_def Let_def)
    next
      case ok: True
      have r: "append_layout (pl_st P) added ?K = Some (True, st)" using r Pair ok by simp
      have safe: "cache_safe (pl_st P)"
        using r assms(1,2) len by (auto simp: append_layout_def Let_def split: if_splits)
      have m: "mark_new_appended st ?before = Some (mark_new st toks ?K False)"
        using appended_marks[OF old safe r] ad(2) by simp
      have "grid_eq st (layout_of (cache_descs kv0 @ added) ?K (n_slots pp))"
        by (rule append_layout_rebuilds(1)[OF old r])
      moreover have "layout_of (cache_descs kv0 @ added) ?K (n_slots pp) = ?L"
        by (rule layout_mset) (use grown_descs(1)[OF assms(4)] ad(1) in simp)
      ultimately have "mark_new st toks ?K False = mark_new ?L toks ?K False" by (simp add: mark_new_cong)
      moreover have "pl_n_occupied P + length added = length (cache_descs kv)"
        using tr grown_descs(2)[OF assms(4)] len by (simp add: tracks_def)
      ultimately show ?thesis
        using r m True added used ne stale by (simp add: append_plan_def Let_def)
    qed
  qed
next
  case False
  have "append_plan pp kv toks P = Some (False, pl_st P, pl_n_occupied P)
      \<or> pl_applied_used P = used kv \<and> carried pp kv P"
    using False by (auto simp: append_plan_def Let_def split: option.splits)
  moreover have "\<not> (pl_applied_used P = used kv \<and> carried pp kv P)"
  proof
    assume a: "pl_applied_used P = used kv \<and> carried pp kv P"
    then have "tracks pp kv0 P" using assms(5) by (simp add: carried_def)
    then have "(of_nat (length toks) :: u32) = 0" using a assms(4) by (simp add: tracks_def grown_def)
    moreover have "length toks < 2 ^ 32" using assms(3,4) by (simp add: grown_def)
    ultimately show False using assms(2) by (simp add: word_of_nat_eq_0_iff nat_dvd_not_less)
  qed
  ultimately show ?thesis by blast
qed

end
