(* ===== verification/KpoolPlanMain.thy ===== *)
theory KpoolPlanMain
  imports KpoolPlan KvMain
begin

section \<open>The plan of the pooled indexer: the main results\<close>

text \<open>
  The carried plan is the plan of a rebuild, building it again for the same ubatch changes nothing,
  a reserve leaves it as it was, and its buffers are defined and let every token see exactly the
  cached tokens of its own sequence at or before its position.
\<close>

subsection \<open>Building\<close>

lemma finish_plan_sel [simp]:
  "finish_plan (pp\<lparr>lv_incr := v\<rparr>) kv st occ P = finish_plan pp kv st occ P"
  "finish_plan pp kv st occ (P\<lparr>pl_st := st'\<rparr>) = finish_plan pp kv st occ P"
  "finish_plan pp kv st occ (finish_plan pp kv st' occ' P) = finish_plan pp kv st occ P"
  by (simp_all add: finish_plan_def size_dims_def Let_def)

lemma verify_rebuilt:
  assumes "1 < h_kpool pp"
  shows "verify_ok pp kv (mark_new (layout_of (cache_descs kv) (h_kpool pp) (n_slots pp)) toks (h_kpool pp) al) toks"
proof -
  let ?L = "layout_of (cache_descs kv) (h_kpool pp) (n_slots pp)"
  have "grid_diff (mark_new ?L toks (h_kpool pp) al) (mark_new ?L toks (h_kpool pp) False) = None"
    by (rule grid_eq_no_diff[OF grid_eq_trans[OF mark_new_grid grid_eq_sym[OF mark_new_grid]]])
  then show ?thesis using assms by (simp add: verify_ok_def build_layout_def)
qed

lemma finish_tracks:
  "grid_eq st (layout_of (cache_descs kv) (h_kpool pp) (n_slots pp)) \<Longrightarrow> flags_ok st \<Longrightarrow>
    tracks pp kv (finish_plan pp kv st (length (cache_descs kv)) P)"
  by (simp add: tracks_def finish_plan_def)

lemma length_batch_toks [simp]: "length (batch_toks b) = ub_n_tokens b"
  by (simp add: batch_toks_def)

text \<open>The plan a build from scratch makes.\<close>

definition scratch_plan :: "kpool_params \<Rightarrow> kv_cache \<Rightarrow> ubatch \<Rightarrow> 'i kpool_plan \<Rightarrow> 'i kpool_plan" where
  "scratch_plan pp kv b P = finish_plan pp kv
     (mark_new (layout_of (cache_descs kv) (h_kpool pp) (n_slots pp)) (batch_toks b) (h_kpool pp) (pl_stale P))
     (length (cache_descs kv)) (P\<lparr>pl_dims := base_dims pp kv b (pl_dims P), pl_toks := batch_toks b\<rparr>)"

lemma scratch_tracks: "tracks pp kv (scratch_plan pp kv b P)"
  unfolding scratch_plan_def by (rule finish_tracks[OF mark_new_grid mark_new_flags])

lemma build_plan_scratch:
  assumes "1 < h_kpool pp" "0 < ub_n_tokens b" "size kv < 2 ^ 32" "grown kv0 kv (ub_n_tokens b)"
    and "pl_have_state P \<and> \<not> pl_stale P \<longrightarrow> tracks pp kv0 P"
  shows "build_plan pp kv b False P = Some (scratch_plan pp kv b P)"
proof -
  let ?P = "P\<lparr>pl_dims := base_dims pp kv b (pl_dims P), pl_toks := batch_toks b\<rparr>"
  have "pl_have_state ?P \<and> \<not> pl_stale ?P \<longrightarrow> tracks pp kv0 ?P" using assms(5) by (simp add: tracks_def)
  note ap = append_plan_exact[OF assms(1) _ assms(3) _ this, of "batch_toks b"]
  from ap assms(2,4) consider (no) st occ where "append_plan pp kv (batch_toks b) ?P = Some (False, st, occ)"
    | (yes) "append_plan pp kv (batch_toks b) ?P = Some (True, mark_new (layout_of (cache_descs kv) (h_kpool pp)
        (n_slots pp)) (batch_toks b) (h_kpool pp) False, length (cache_descs kv))" "\<not> pl_stale P"
    by auto
  then show ?thesis
  proof cases
    case no
    then show ?thesis
      using assms(1) by (simp add: build_plan_def Let_def rebuild_plan_eq scratch_plan_def)
  next
    case yes
    then show ?thesis
      using assms(1) verify_rebuilt[OF assms(1), of kv "batch_toks b" False]
      by (simp add: build_plan_def Let_def scratch_plan_def)
  qed
qed

lemma no_incr_scratch:
  assumes "1 < h_kpool pp" "\<not> lv_incr pp"
  shows "build_plan pp kv b False P = Some (scratch_plan pp kv b P)"
  using assms by (simp add: build_plan_def append_plan_def carried_def Let_def rebuild_plan_eq scratch_plan_def)

lemma scratch_plan_lever [simp]: "scratch_plan (pp\<lparr>lv_incr := v\<rparr>) kv b P = scratch_plan pp kv b P"
  by (simp add: scratch_plan_def base_dims_def)

subsection \<open>The cache after a placement\<close>

lemma after_place_grown:
  assumes "kv_inv c" "free_run (cells c) (length ts) h" "batch_ok ts"
  shows "grown c (after_place w h ts c) (length ts)"
proof -
  have run: "h + length ts \<le> length (cells c)" "length (cells c) = size c"
    using assms(1,2) by (simp_all add: free_run_def kv_inv_def)
  have "b_seqs (ts ! j) \<noteq> []" if "j < length ts" for j using assms(3) that by (simp add: batch_ok_def)
  then show ?thesis
    using run after_place_nth[OF assms(2), of _ w] free_run_empty(1)[OF assms(1,2)]
    by (auto simp: grown_def placed_def fold_add_seq_sel)
qed

text \<open>C11: the incremental plan is the plan built from scratch: for a cache that grew by the tokens of
  the ubatch since the carried plan was applied (or with no carried plan), building with the
  append-only lever on gives, whatever the verification lever, the very plan the build with the lever
  off gives (grid, new-pool flags, dimensions and counters), and that plan describes the cache.\<close>

theorem build_plan_incremental_exact:
  assumes "1 < h_kpool pp" "0 < ub_n_tokens b" "size kv < 2 ^ 32" "grown kv0 kv (ub_n_tokens b)"
    and "pl_have_state P \<and> \<not> pl_stale P \<longrightarrow> tracks pp kv0 P"
  shows "build_plan pp kv b False P = build_plan (pp\<lparr>lv_incr := False\<rparr>) kv b False P
    \<and> (\<exists>P'. build_plan pp kv b False P = Some P' \<and> tracks pp kv P')"
  using build_plan_scratch[OF assms] no_incr_scratch[of "pp\<lparr>lv_incr := False\<rparr>" kv b P] assms(1) scratch_tracks by auto

definition demo_pp :: kpool_params where
  "demo_pp = \<lparr>h_kpool = 2, h_top_k = 4, h_select_tail = True, c_n_seq_max = 2, lv_incr = True,
     lv_verify = True, lv_blkpos = 0\<rparr>"

definition demo_ub :: ubatch where
  "demo_ub = \<lparr>ub_n_tokens = 2, ub_pos = Some [2, 3], ub_all_pos_0 = 0, ub_all_pos_1 = 0,
     ub_n_seq_id = Some [1, 1], ub_seq_id = Some [Some [0], Some [0]], ub_all_seq_id = 0\<rparr>"

definition demo_dims :: kpool_dims where
  "demo_dims = \<lparr>d_kpool = 0, d_n_pool = 0, d_n_tokens = 0, d_n_kv = 0, d_n_new = 0, d_n_new_g = 0,
     d_sink = 0, d_n_sel = 0, d_n_top = 0, d_gather = False, d_blk = 0\<rparr>"

definition fresh_plan :: "unit kpool_plan" where
  "fresh_plan = \<lparr>pl_st = \<lparr>ks_seqs = [], n_pool_real = 0, n_new = 0, cache_safe = True\<rparr>, pl_dims = demo_dims,
     pl_inputs = (), pl_stale = True, pl_built = False, pl_reserve_only = False, pl_toks = [],
     pl_st_ws = \<lparr>ks_seqs = [], n_pool_real = 0, n_new = 0, cache_safe = True\<rparr>, pl_have_state = False,
     pl_applied_used = 0, pl_applied_size = 0, pl_applied_nseq = 0, pl_applied_kpool = 0, pl_n_occupied = 0\<rparr>"

definition grown_cache :: kv_cache where
  "grown_cache = after_place False 3 demo_batch demo_cache"

lemma demo_run: "free_run (cells demo_cache) (length demo_batch) 3"
  by (auto simp: free_run_def demo_cache_def fresh_cache_def demo_batch_def less_Suc_eq numeral_eq_Suc)

lemma demo_grown: "grown demo_cache grown_cache 2" "size grown_cache = 6" "kv_inv grown_cache"
proof -
  show "grown demo_cache grown_cache 2"
    using after_place_grown[OF demo_inv demo_run demo_batch_ok, of False]
    by (simp add: grown_cache_def demo_batch_def numeral_2_eq_2)
  show "size grown_cache = 6" by (simp add: grown_cache_def demo_cache_def fresh_cache_def)
  show "kv_inv grown_cache" unfolding grown_cache_def
    by (rule kv_inv_after_place[OF demo_inv demo_run demo_batch_ok]) simp
qed

theorem build_plan_incremental_exact_witness:
  "\<exists>P'. build_plan demo_pp grown_cache demo_ub False (scratch_plan demo_pp demo_cache demo_ub fresh_plan) = Some P'
    \<and> tracks demo_pp grown_cache P'"
proof -
  have "1 < h_kpool demo_pp" "0 < ub_n_tokens demo_ub" "size grown_cache < 2 ^ 32"
    "grown demo_cache grown_cache (ub_n_tokens demo_ub)"
    using demo_grown by (simp_all add: demo_pp_def demo_ub_def)
  from build_plan_incremental_exact[OF this, of "scratch_plan demo_pp demo_cache demo_ub fresh_plan"] scratch_tracks
  show ?thesis by blast
qed

subsection \<open>Building again for the same ubatch\<close>

text \<open>The cells at the head hold the tokens of the ubatch; no sequence has two cells at one position.\<close>

definition in_cache :: "kpool_params \<Rightarrow> kv_cache \<Rightarrow> tok_desc list \<Rightarrow> bool" where
  "in_cache pp kv toks \<longleftrightarrow> head kv + length toks \<le> size kv
     \<and> (\<forall>i < length toks. pos (cells kv ! (head kv + i)) = td_pos (toks ! i) \<and> td_seqs (toks ! i) \<noteq> []
         \<and> set (td_seqs (toks ! i)) = seq_id (cells kv ! (head kv + i))
         \<and> 0 \<le> hd (td_seqs (toks ! i)) \<and> nat (hd (td_seqs (toks ! i))) < n_slots pp)"

definition pos_unique :: "kv_cache \<Rightarrow> bool" where
  "pos_unique kv \<longleftrightarrow> (\<forall>i < size kv. \<forall>j < size kv. \<forall>s. s \<in> seq_id (cells kv ! i) \<and> s \<in> seq_id (cells kv ! j)
     \<and> pos (cells kv ! i) = pos (cells kv ! j) \<longrightarrow> i = j)"

lemma filter_eq_distinct: "distinct xs \<Longrightarrow> filter (\<lambda>u. u = a) xs = (if a \<in> set xs then [a] else [])"
  by (induction xs) auto

lemma members_cache:
  assumes "kv_inv kv"
  shows "members (cache_descs kv) s
    = map (\<lambda>i. (pos (cells kv ! i), i)) (filter (\<lambda>i. int s \<in> seq_id (cells kv ! i)) [0..<size kv])"
proof -
  have fin: "finite (seq_id (cells kv ! i))" if "i < size kv" for i
    using assms that by (auto simp: kv_inv_def cell_ok_def shadow_ok_def)
  have "members (map (desc_of kv) (filter (\<lambda>i. \<not> is_empty_cell (cells kv ! i)) is)) s
      = map (\<lambda>i. (pos (cells kv ! i), i)) (filter (\<lambda>i. int s \<in> seq_id (cells kv ! i)) is)"
    if "set is \<subseteq> {..<size kv}" for "is"
    using that fin by (induction "is") (auto simp: desc_of_def filter_eq_distinct)
  from this[of "[0..<size kv]"] show ?thesis unfolding cache_descs_def by (simp add: atLeast0LessThan)
qed

lemma members_cache_set:
  assumes "kv_inv kv"
  shows "(q, c) \<in> set (members (cache_descs kv) s)
    \<longleftrightarrow> c < size kv \<and> int s \<in> seq_id (cells kv ! c) \<and> pos (cells kv ! c) = q"
  unfolding members_cache[OF assms] by auto

lemma members_distinct:
  assumes "kv_inv kv" "pos_unique kv"
  shows "distinct (map fst (members (cache_descs kv) s))"
  unfolding members_cache[OF assms(1)] map_map
proof (rule distinct_map[THEN iffD2], intro conjI)
  show "inj_on (fst \<circ> (\<lambda>i. (pos (cells kv ! i), i))) (set (filter (\<lambda>i. int s \<in> seq_id (cells kv ! i)) [0..<size kv]))"
    using assms(2) by (auto simp: inj_on_def pos_unique_def)
qed simp

lemma tracks_cells:
  assumes "tracks pp kv P" "s < n_slots pp"
  shows "s < length (ks_seqs (pl_st P))"
    and "grid_seq (h_kpool pp) (members (cache_descs kv) s) (ks_seqs (pl_st P) ! s)"
proof -
  show "s < length (ks_seqs (pl_st P))"
    using assms by (simp add: tracks_def grid_eq_def layout_of_eq)
  then show "grid_seq (h_kpool pp) (members (cache_descs kv) s) (ks_seqs (pl_st P) ! s)"
    using assms by (auto simp: tracks_def grid_eq_def layout_of_eq grid_seq_def flags_ok_def)
qed

lemma find_in_grid:
  assumes "kv_inv kv" "pos_unique kv" "tracks pp kv P" "s < n_slots pp" "c < size kv" "int s \<in> seq_id (cells kv ! c)"
  shows "find_cell (kp_cells (ks_seqs (pl_st P) ! s)) (pos (cells kv ! c)) = Some c"
proof -
  have cs: "kp_cells (ks_seqs (pl_st P) ! s) = sort (members (cache_descs kv) s)"
    using tracks_cells(2)[OF assms(3,4)] by (simp add: grid_seq_def seq_layout_sel(1))
  have "distinct (map fst (sort (members (cache_descs kv) s)))"
  proof -
    have "mset (map fst (sort (members (cache_descs kv) s))) = mset (map fst (members (cache_descs kv) s))" by simp
    with members_distinct[OF assms(1,2)] show ?thesis using mset_eq_imp_distinct_iff by blast
  qed
  then show ?thesis
    unfolding cs by (intro find_cell_in) (use assms(5,6) members_cache_set[OF assms(1)] in simp_all)
qed

lemma already_applied_tracked:
  assumes "kv_inv kv" "pos_unique kv" "tracks pp kv P" "in_cache pp kv toks"
  shows "already_applied kv (pl_st P) toks"
proof -
  have "layout_holds (pl_st P) (hd (td_seqs (toks ! i))) (pos (cells kv ! (head kv + i))) (head kv + i)
      \<and> seq_id (cells kv ! (head kv + i)) \<noteq> {}" if i: "i < length toks" for i
  proof -
    let ?t = "toks ! i" and ?c = "head kv + i"
    have t: "td_seqs ?t \<noteq> []" "set (td_seqs ?t) = seq_id (cells kv ! ?c)" "0 \<le> hd (td_seqs ?t)"
      "nat (hd (td_seqs ?t)) < n_slots pp" "?c < size kv"
      using assms(4) i by (auto simp: in_cache_def)
    have "int (nat (hd (td_seqs ?t))) \<in> seq_id (cells kv ! ?c)"
      using t(1,2,3) by (metis hd_in_set int_nat_eq)
    from find_in_grid[OF assms(1-3) t(4,5) this] tracks_cells(1)[OF assms(3) t(4)] t
    show ?thesis by (auto simp: layout_holds_def)
  qed
  then show ?thesis
    using assms(4) by (auto simp: already_applied_def in_cache_def list_all_length Let_def is_empty_cell_def)
qed

lemma scratch_again:
  assumes "1 < h_kpool pp" "lv_incr pp" "kv_inv kv" "pos_unique kv" "in_cache pp kv (batch_toks b)"
  shows "build_plan pp kv b False (scratch_plan pp kv b P) = Some (scratch_plan pp kv b P)"
proof -
  let ?S = "scratch_plan pp kv b P"
  have same: "?S\<lparr>pl_dims := base_dims pp kv b (pl_dims ?S), pl_toks := batch_toks b\<rparr> = ?S"
    by (simp add: scratch_plan_def finish_plan_def size_dims_def base_dims_def Let_def)
  have "carried pp kv ?S" "pl_applied_used ?S = used kv"
    using assms(2) by (simp_all add: carried_def scratch_plan_def finish_plan_def)
  then have ap: "append_plan pp kv (batch_toks b) ?S = Some (True, pl_st ?S, pl_n_occupied ?S)"
    using already_applied_tracked[OF assms(3,4) scratch_tracks assms(5)] by (simp add: append_plan_def)
  have "finish_plan pp kv (pl_st ?S) (pl_n_occupied ?S) ?S = ?S"
    by (simp add: scratch_plan_def finish_plan_def size_dims_def Let_def)
  moreover have "verify_ok pp kv (pl_st ?S) (batch_toks b)"
    using verify_rebuilt[OF assms(1)] by (simp add: scratch_plan_def finish_plan_def)
  ultimately show ?thesis
    using assms(1) ap same by (simp add: build_plan_def Let_def)
qed

text \<open>Building the plan a second time for the same ubatch, as the graph-reuse check followed by
  the build does, changes nothing: the pools flagged as new by the first build keep their flags.\<close>

theorem build_plan_idempotent:
  assumes "1 < h_kpool pp" "lv_incr pp" "0 < ub_n_tokens b" "size kv < 2 ^ 32" "grown kv0 kv (ub_n_tokens b)"
    and "pl_have_state P \<and> \<not> pl_stale P \<longrightarrow> tracks pp kv0 P"
    and "kv_inv kv" "pos_unique kv" "in_cache pp kv (batch_toks b)" "build_plan pp kv b False P = Some P'"
  shows "build_plan pp kv b False P' = Some P'"
  using build_plan_scratch[OF assms(1,3-6)] scratch_again[OF assms(1,2,7-9), of P] assms(10) by simp

lemma seq_id_grown: "i < 6 \<Longrightarrow> cells grown_cache ! i
    = (if i = 3 \<or> i = 4 then placed (demo_batch ! (i - 3)) new_cell else cells demo_cache ! i)"
proof -
  assume i: "i < 6"
  then have "i < length (cells demo_cache)" by (simp add: demo_cache_def fresh_cache_def)
  from after_place_nth[OF demo_run this, of False] i
  show ?thesis
    by (auto simp: grown_cache_def demo_batch_def demo_cache_def fresh_cache_def numeral_eq_Suc less_Suc_eq)
qed

lemma grown_cells: "i < 6 \<Longrightarrow> pos (cells grown_cache ! i) = [0, 1, 1, 2, 3, -1] ! i
    \<and> seq_id (cells grown_cache ! i) = [{0, 1}, {0}, {1}, {0}, {0}, {}] ! i"
  by (auto simp: seq_id_grown demo_batch_def placed_def fold_add_seq_sel demo_cache_def fresh_cache_def
      less_Suc_eq numeral_eq_Suc)

lemma demo_in_cache: "in_cache demo_pp grown_cache (batch_toks demo_ub)" "pos_unique grown_cache"
proof -
  have h: "head grown_cache = 3" by (simp add: grown_cache_def)
  show "in_cache demo_pp grown_cache (batch_toks demo_ub)"
    unfolding in_cache_def h demo_grown(2)
    by (auto simp: seq_id_grown batch_toks_def demo_ub_def kpool_batch_pos_def kpool_batch_seqs_def
        demo_batch_def placed_def fold_add_seq_sel demo_pp_def less_Suc_eq numeral_eq_Suc)
  show "pos_unique grown_cache"
    unfolding pos_unique_def demo_grown(2) by (auto simp: grown_cells less_Suc_eq numeral_eq_Suc)
qed

theorem build_plan_idempotent_witness:
  "\<exists>P'. build_plan demo_pp grown_cache demo_ub False fresh_plan = Some P'
    \<and> build_plan demo_pp grown_cache demo_ub False P' = Some P'"
proof -
  have pre: "1 < h_kpool demo_pp" "lv_incr demo_pp" "0 < ub_n_tokens demo_ub" "size grown_cache < 2 ^ 32"
    "grown demo_cache grown_cache (ub_n_tokens demo_ub)"
    "pl_have_state fresh_plan \<and> \<not> pl_stale fresh_plan \<longrightarrow> tracks demo_pp demo_cache fresh_plan"
    using demo_grown by (simp_all add: demo_pp_def demo_ub_def fresh_plan_def)
  from build_plan_scratch[OF pre(1,3-6)] build_plan_idempotent[OF pre demo_grown(3) demo_in_cache(2,1)]
  show ?thesis by blast
qed

subsection \<open>Reserves\<close>

lemma build_keeps_inputs: "build_plan pp kv b w P = Some Q \<Longrightarrow> pl_inputs Q = pl_inputs P"
  by (auto simp: build_plan_def Let_def worst_plan_def finish_plan_def rebuild_plan_def
      split: if_splits option.splits bool.splits)

text \<open>A reserve: a synthetic build between two builds of the real ubatch.\<close>

definition reserve_build :: "kpool_params \<Rightarrow> kv_cache \<Rightarrow> ubatch \<Rightarrow> bool \<Rightarrow> 'i kpool_ctx \<Rightarrow> 'i kpool_ctx option" where
  "reserve_build pp kv b w c = Option.bind (reserve_begin c) (\<lambda>(P, S).
     Option.bind (build_plan pp kv b w P) (\<lambda>Q. reserve_end (Q, S)))"

text \<open>A reserve in between two builds of the real ubatch, whatever synthetic batch and cache head
  it plans with, leaves the plan exactly as it found it, so the next build of the real ubatch is the
  one it would have been; a reserve scope opened inside another fails.\<close>

theorem reserve_restores_plan:
  assumes "build_plan pp kv b w P = Some Q"
  shows "reserve_build pp kv b w (P, None) = Some (P, None) \<and> reserve_build pp kv b w (P, Some S) = None"
  using assms build_keeps_inputs[OF assms] by (simp add: reserve_build_def reserve_begin_def reserve_end_def)

theorem reserve_restores_plan_witness:
  "reserve_build demo_pp demo_cache demo_ub True (fresh_plan, None) = Some (fresh_plan, None)"
proof -
  have "\<exists>Q. build_plan demo_pp demo_cache demo_ub True fresh_plan = Some Q"
    by (simp add: build_plan_def demo_pp_def Let_def)
  then show ?thesis using reserve_restores_plan by blast
qed

subsection \<open>The inputs\<close>

lemma count_new_le: "\<forall>sq \<in> set seqs. length (kp_new sq) = length (kp_pools sq) \<Longrightarrow> count_new seqs \<le> n_pools seqs"
proof (induction seqs)
  case (Cons sq seqs)
  have "length (filter (\<lambda>b. b) (kp_new sq)) \<le> length (kp_pools sq)" using Cons.prems length_filter_le[of _ "kp_new sq"] by simp
  with Cons show ?case by (simp add: count_new_def n_pools_def)
qed (simp add: count_new_def n_pools_def)

lemma grid_pools: "grid_eq st (layout_of cs K n) \<Longrightarrow> n_pool_real st = n_pools (ks_seqs st)"
proof -
  assume g: "grid_eq st (layout_of cs K n)"
  then have "map kp_pools (ks_seqs st) = map kp_pools (ks_seqs (layout_of cs K n))"
    by (intro nth_equalityI) (auto simp: grid_eq_def)
  then have "map (length \<circ> kp_pools) (ks_seqs st) = map (length \<circ> kp_pools) (ks_seqs (layout_of cs K n))"
    by (metis map_map)
  then have "n_pools (ks_seqs st) = n_pools (ks_seqs (layout_of cs K n))" by (simp add: n_pools_def o_def)
  with g show ?thesis by (simp add: grid_eq_def layout_of_eq(3))
qed

lemma finished_dims:
  fixes kv :: kv_cache and P S :: "'i kpool_plan"
  assumes "1 < h_kpool pp" "0 < ub_n_tokens b"
  defines "S \<equiv> scratch_plan pp kv b P"
  shows "fill_dims_ok (pl_st S) (pl_dims S) (batch_toks b)" "d_blk (pl_dims S) < d_kpool (pl_dims S)"
    "d_kpool (pl_dims S) = h_kpool pp" "d_n_kv (pl_dims S) = unat (kv_n kv)" "pl_toks S = batch_toks b"
    "pl_built S" "\<not> pl_reserve_only S" "d_n_tokens (pl_dims S) = ub_n_tokens b"
proof -
  let ?d = "pl_dims S"
  have tr: "tracks pp kv S" unfolding S_def by (rule scratch_tracks)
  have dims: "?d = size_dims pp kv (n_pool_real (pl_st S)) (Some (n_new (pl_st S))) (length (cache_descs kv))
      (base_dims pp kv b (pl_dims P))"
    by (simp add: S_def scratch_plan_def finish_plan_def)
  show sel: "d_blk ?d < d_kpool ?d" "d_kpool ?d = h_kpool pp" "d_n_kv ?d = unat (kv_n kv)"
    "pl_toks S = batch_toks b" "pl_built S" "\<not> pl_reserve_only S" "d_n_tokens ?d = ub_n_tokens b"
    using assms(1) unfolding dims by (simp_all add: size_dims_def base_dims_def Let_def S_def scratch_plan_def finish_plan_def)
  have np: "n_pool_real (pl_st S) = n_pools (ks_seqs (pl_st S))" using tr grid_pools by (auto simp: tracks_def)
  have "n_new (pl_st S) \<le> n_pool_real (pl_st S)"
    using tr count_new_le np by (auto simp: tracks_def flags_ok_def)
  then have "n_new (pl_st S) < kpool_pad (n_pool_real (pl_st S))" using pad_exceeds(1) le_less_trans by blast
  moreover have "d_n_pool ?d = kpool_pad (n_pool_real (pl_st S))" "d_n_new ?d = n_new (pl_st S)"
    "d_n_new_g ?d = max (n_new (pl_st S)) (kpool_n_new_floor (kpool_pad (n_pool_real (pl_st S))) (ub_n_tokens b) (h_kpool pp))"
    unfolding dims by (simp_all add: size_dims_def base_dims_def Let_def)
  moreover have "1 \<le> kpool_n_new_floor (kpool_pad m) t K \<and> kpool_n_new_floor (kpool_pad m) t K < kpool_pad m" for m t K
    using pad_exceeds(3)[of m] by (auto simp: kpool_n_new_floor_def)
  ultimately show "fill_dims_ok (pl_st S) ?d (batch_toks b)"
    using assms(1,2) sel by (auto simp: fill_dims_ok_def le_max_iff_disj)
qed

lemma token_in_grid:
  assumes "kv_inv kv" "pos_unique kv" "tracks pp kv P" "in_cache pp kv toks" "i < length toks"
  shows "tok_ok (pl_st P) (toks ! i)" "tok_seq (toks ! i) < n_slots pp"
    "find_cell (kp_cells (ks_seqs (pl_st P) ! tok_seq (toks ! i))) (td_pos (toks ! i)) = Some (head kv + i)"
    "head kv + i < size kv" "int (tok_seq (toks ! i)) \<in> seq_id (cells kv ! (head kv + i))"
    "pos (cells kv ! (head kv + i)) = td_pos (toks ! i)"
proof -
  let ?t = "toks ! i" and ?c = "head kv + i"
  show t: "tok_seq ?t < n_slots pp" "?c < size kv" "pos (cells kv ! ?c) = td_pos ?t"
    using assms(4,5) by (auto simp: in_cache_def tok_seq_def)
  have s: "td_seqs ?t \<noteq> []" "set (td_seqs ?t) = seq_id (cells kv ! ?c)" "0 \<le> hd (td_seqs ?t)"
    using assms(4,5) by (auto simp: in_cache_def)
  then show own: "int (tok_seq ?t) \<in> seq_id (cells kv ! ?c)"
    unfolding tok_seq_def by (metis hd_in_set int_nat_eq)
  show "tok_ok (pl_st P) ?t"
    using s tracks_cells(1)[OF assms(3) t(1)] by (simp add: tok_ok_def tok_seq_def)
  show "find_cell (kp_cells (ks_seqs (pl_st P) ! tok_seq ?t)) (td_pos ?t) = Some ?c"
    using find_in_grid[OF assms(1-3) t(1,2) own] t(3) by simp
qed

lemma inputs_scratch:
  assumes "1 < h_kpool pp" "0 < ub_n_tokens b" "kv_inv kv" "pos_unique kv" "in_cache pp kv (batch_toks b)"
  shows "\<exists>bufs. set_inputs wb b (scratch_plan pp kv b P) = Some bufs"
proof -
  let ?S = "scratch_plan pp kv b P"
  note dims = finished_dims[OF assms(1,2), of kv P]
  have tr: "tracks pp kv ?S" by (rule scratch_tracks)
  have toks: "batch_toks b \<noteq> []" using assms(2) by (metis length_batch_toks list.size(3) less_irrefl)
  note tok = token_in_grid[OF assms(3,4) tr assms(5)]
  have all: "list_all (tok_ok (pl_st ?S)) (batch_toks b)" using tok(1) by (simp add: list_all_length)
  have hd: "find_cell (kp_cells (ks_seqs (pl_st ?S) ! tok_seq (hd (batch_toks b)))) (td_pos (hd (batch_toks b))) = Some (head kv + 0)"
    using tok(3)[of 0] assms(2) toks by (simp add: hd_conv_nth)
  have flags: "flags_ok (pl_st ?S)" "n_pool_real (pl_st ?S) = n_pools (ks_seqs (pl_st ?S))"
    using tr grid_pools by (auto simp: tracks_def)
  have "wb \<longrightarrow> d_blk (pl_dims ?S) < d_kpool (pl_dims ?S)" using dims(2) by simp
  from fill_defined[OF dims(1) flags all this hd] show ?thesis
    using dims(5-8) by (simp add: set_inputs_def)
qed

text \<open>Filling the inputs of a planned ubatch trips none of its assertions: after a build for a cache
  that holds the tokens of the ubatch at its head, every buffer is defined.\<close>

theorem plan_inputs_defined:
  assumes "1 < h_kpool pp" "0 < ub_n_tokens b" "size kv < 2 ^ 32" "grown kv0 kv (ub_n_tokens b)"
    and "pl_have_state P \<and> \<not> pl_stale P \<longrightarrow> tracks pp kv0 P"
    and "kv_inv kv" "pos_unique kv" "in_cache pp kv (batch_toks b)"
  shows "\<exists>P' bufs. build_plan pp kv b False P = Some P' \<and> set_inputs want_blk b P' = Some bufs"
  using build_plan_scratch[OF assms(1-5)] inputs_scratch[OF assms(1,2,6-8)] by blast

theorem plan_inputs_defined_witness:
  "\<exists>P' bufs. build_plan demo_pp grown_cache demo_ub False fresh_plan = Some P' \<and> set_inputs True demo_ub P' = Some bufs"
proof -
  have pre: "1 < h_kpool demo_pp" "0 < ub_n_tokens demo_ub" "size grown_cache < 2 ^ 32"
    "grown demo_cache grown_cache (ub_n_tokens demo_ub)"
    "pl_have_state fresh_plan \<and> \<not> pl_stale fresh_plan \<longrightarrow> tracks demo_pp demo_cache fresh_plan"
    using demo_grown by (simp_all add: demo_pp_def demo_ub_def fresh_plan_def)
  from plan_inputs_defined[OF pre demo_grown(3) demo_in_cache(2,1)] show ?thesis .
qed

text \<open>C10: causality and completeness of the pooled attention: when the scatter path is taken, the
  cells a token of the ubatch can read, through the pools its mask leaves visible and through its
  tail, are exactly the cells of its own sequence at or before its position, provided that sequence
  is cached without holes.\<close>

theorem token_reads_its_past:
  assumes "1 < h_kpool pp" "0 < ub_n_tokens b" "size kv < 2 ^ 32" "grown kv0 kv (ub_n_tokens b)"
    and "pl_have_state P \<and> \<not> pl_stale P \<longrightarrow> tracks pp kv0 P"
    and "kv_inv kv" "pos_unique kv" "in_cache pp kv (batch_toks b)"
    and "build_plan pp kv b False P = Some P'" "set_inputs want_blk b P' = Some bufs" "\<not> d_gather (pl_dims P')"
    and "\<forall>c < size kv. seq_id (cells kv ! c) \<noteq> {} \<longrightarrow> c < unat (kv_n kv)"
    and "i < ub_n_tokens b" "s = int (tok_seq (batch_toks b ! i))" "p = td_pos (batch_toks b ! i)"
    and "\<forall>c < size kv. \<forall>q. s \<in> seq_id (cells kv ! c) \<and> pos (cells kv ! c) \<le> q \<and> q \<le> p
          \<longrightarrow> (\<exists>c' < size kv. s \<in> seq_id (cells kv ! c') \<and> pos (cells kv ! c') = q)"
  shows "(\<Union>ip \<in> {ip. ip < d_n_pool (pl_dims P') \<and> pool_mask bufs ! i ! ip}. set (pool_idxs bufs ! ip))
      \<union> (set (tail_idxs bufs ! i) - {unat (kv_n kv)})
    = {c. c < size kv \<and> s \<in> seq_id (cells kv ! c) \<and> pos (cells kv ! c) \<le> p}"
proof -
  let ?S = "scratch_plan pp kv b P" and ?t = "batch_toks b ! i"
  let ?es = "members (cache_descs kv) (tok_seq ?t)"
  have P': "P' = ?S" using build_plan_scratch[OF assms(1-5)] assms(9) by simp
  note dims = finished_dims[OF assms(1,2), of kv P]
  have tr: "tracks pp kv ?S" by (rule scratch_tracks)
  have i: "i < length (batch_toks b)" using assms(13) by simp
  note tok = token_in_grid[OF assms(6,7) tr assms(8) i]
  note grid = tracks_cells(2)[OF tr tok(2)]
  have fill: "kpool_fill want_blk (pl_st ?S) (pl_dims ?S) (batch_toks b) = Some bufs"
    using assms(10) dims(5-8) unfolding P' by (simp add: set_inputs_def)
  note mem = members_cache_set[OF assms(6), of _ _ "tok_seq ?t"]
  have in_es: "(td_pos ?t, head kv + i) \<in> set ?es" using mem tok(4-6) by simp
  then have ne: "?es \<noteq> []" by auto
  have low: "\<exists>c < size kv. s \<in> seq_id (cells kv ! c) \<and> pos (cells kv ! c) = kp_min (ks_seqs (pl_st ?S) ! tok_seq ?t)"
  proof -
    have "hd (sort ?es) \<in> set (sort ?es)" by (rule hd_in_set) (simp add: ne)
    then have "hd (sort ?es) \<in> set ?es" by simp
    moreover have "kp_min (ks_seqs (pl_st ?S) ! tok_seq ?t) = fst (hd (sort ?es))"
      using grid ne by (simp add: grid_seq_def seq_layout_sel(2))
    ultimately show ?thesis using mem[of "fst (hd (sort ?es))" "snd (hd (sort ?es))"] assms(14) by auto
  qed
  have below: "\<forall>e \<in> set ?es. snd e < d_n_kv (pl_dims ?S)"
  proof
    fix e assume "e \<in> set ?es"
    then have "snd e < size kv" "int (tok_seq ?t) \<in> seq_id (cells kv ! snd e)"
      using mem[of "fst e" "snd e"] by simp_all
    then show "snd e < d_n_kv (pl_dims ?S)" using assms(12) dims(4) by auto
  qed
  have full: "\<forall>q. kp_min (ks_seqs (pl_st ?S) ! tok_seq ?t) \<le> q \<and> q \<le> td_pos ?t \<longrightarrow> q \<in> fst ` set ?es"
  proof (intro allI impI)
    fix q assume q: "kp_min (ks_seqs (pl_st ?S) ! tok_seq ?t) \<le> q \<and> q \<le> td_pos ?t"
    with low assms(16)[folded assms(15)] assms(15) obtain c' where
      "c' < size kv" "s \<in> seq_id (cells kv ! c')" "pos (cells kv ! c') = q" by metis
    then have "(q, c') \<in> set ?es" using mem assms(14) by simp
    then show "q \<in> fst ` set ?es" by force
  qed
  have flags: "flags_ok (pl_st ?S)" using tr by (simp add: tracks_def)
  have "\<not> d_gather (pl_dims ?S)" using assms(11) P' by simp
  from token_sees[OF fill this i flags _ members_distinct[OF assms(6,7)] ne below full] grid dims(3)
  show ?thesis
    unfolding P' assms(15) dims(4)[symmetric] using mem assms(14) by auto
qed

definition read_cache :: kv_cache where
  "read_cache = grown_cache\<lparr>kv_n := 6\<rparr>"

lemma read_cache_ok:
  "grown demo_cache read_cache 2" "size read_cache = 6" "kv_inv read_cache" "pos_unique read_cache"
  "in_cache demo_pp read_cache (batch_toks demo_ub)" "unat (kv_n read_cache) = 6"
  "cells read_cache = cells grown_cache" "batch_toks demo_ub ! 1 = \<lparr>td_pos = 3, td_seqs = [0]\<rparr>"
  using demo_grown demo_in_cache
  by (simp_all add: read_cache_def grown_def pos_unique_def in_cache_def kv_inv_def index_ok_def memo_ok_def
      cmax_in_sync_def batch_toks_def demo_ub_def kpool_batch_pos_def kpool_batch_seqs_def)

lemma read_scatter: "\<not> d_gather (pl_dims (scratch_plan demo_pp read_cache demo_ub fresh_plan))"
proof -
  let ?d = "pl_dims (scratch_plan demo_pp read_cache demo_ub fresh_plan)"
  have "length (cache_descs read_cache) \<le> 5"
  proof -
    have "[0..<6] = [0, 1, 2, 3, 4, 5 :: nat]" by (simp add: upt_rec)
    then show ?thesis by (simp add: cache_descs_def read_cache_ok(2,7) grown_cells is_empty_cell_def)
  qed
  then show ?thesis
    by (simp add: scratch_plan_def finish_plan_def size_dims_def Let_def demo_pp_def kpool_n_sel_def
        kpool_n_top_def kpool_pad_def min_def)
qed

theorem token_reads_its_past_witness:
  "\<exists>P' bufs. build_plan demo_pp read_cache demo_ub False fresh_plan = Some P'
    \<and> set_inputs True demo_ub P' = Some bufs \<and> (\<Union>ip \<in> {ip. ip < d_n_pool (pl_dims P') \<and> pool_mask bufs ! 1 ! ip}. set (pool_idxs bufs ! ip))
      \<union> (set (tail_idxs bufs ! 1) - {6})
    = {c. c < 6 \<and> 0 \<in> seq_id (cells grown_cache ! c) \<and> pos (cells grown_cache ! c) \<le> 3}"
proof -
  have pre: "1 < h_kpool demo_pp" "0 < ub_n_tokens demo_ub" "size read_cache < 2 ^ 32"
    "grown demo_cache read_cache (ub_n_tokens demo_ub)"
    "pl_have_state fresh_plan \<and> \<not> pl_stale fresh_plan \<longrightarrow> tracks demo_pp demo_cache fresh_plan"
    using read_cache_ok by (simp_all add: demo_pp_def demo_ub_def fresh_plan_def)
  let ?P' = "scratch_plan demo_pp read_cache demo_ub fresh_plan"
  have b: "build_plan demo_pp read_cache demo_ub False fresh_plan = Some ?P'" by (rule build_plan_scratch[OF pre])
  obtain bufs where s: "set_inputs True demo_ub ?P' = Some bufs"
    using inputs_scratch[OF pre(1,2) read_cache_ok(3,4,5)] by blast
  have one: "1 < ub_n_tokens demo_ub" by (simp add: demo_ub_def)
  have seq: "0 = int (tok_seq (batch_toks demo_ub ! 1))" "3 = td_pos (batch_toks demo_ub ! 1)"
    unfolding read_cache_ok(8) by (simp_all add: tok_seq_def)
  have used: "\<forall>c < size read_cache. seq_id (cells read_cache ! c) \<noteq> {} \<longrightarrow> c < unat (kv_n read_cache)"
    by (simp add: read_cache_ok)
  have at: "\<exists>c' < 6. 0 \<in> seq_id (cells grown_cache ! c') \<and> pos (cells grown_cache ! c') = q"
    if q: "0 \<le> q" "q \<le> 3" for q
  proof -
    have c: "0 \<in> seq_id (cells grown_cache ! c) \<and> pos (cells grown_cache ! c) = p"
      if "(c, p) \<in> {(0, 0), (1, 1), (3, 2), (4, 3)}" for c p
      using that grown_cells[of c] by auto
    have "q = 0 \<or> q = 1 \<or> q = 2 \<or> q = 3" using q by presburger
    then show ?thesis
    proof (elim disjE)
      assume "q = 0" then show ?thesis using c[of 0 0] by (intro exI[of _ 0]) simp
    next
      assume "q = 1" then show ?thesis using c[of 1 1] by (intro exI[of _ 1]) simp
    next
      assume "q = 2" then show ?thesis using c[of 3 2] by (intro exI[of _ 3]) simp
    next
      assume "q = 3" then show ?thesis using c[of 4 3] by (intro exI[of _ 4]) simp
    qed
  qed
  have nn: "0 \<le> pos (cells grown_cache ! c)" if "c < 6" "seq_id (cells grown_cache ! c) \<noteq> {}" for c
    using that read_cache_ok(2,3,7) by (auto simp: kv_inv_def cell_ok_def split: if_splits)
  have full: "\<forall>c < size read_cache. \<forall>q. 0 \<in> seq_id (cells read_cache ! c) \<and> pos (cells read_cache ! c) \<le> q \<and> q \<le> 3
      \<longrightarrow> (\<exists>c' < size read_cache. 0 \<in> seq_id (cells read_cache ! c') \<and> pos (cells read_cache ! c') = q)"
    unfolding read_cache_ok(2,7) using at nn by (metis empty_iff order_trans)
  note reads = token_reads_its_past[OF pre read_cache_ok(3,4,5) b s read_scatter used one seq full,
      unfolded read_cache_ok(2,6,7)]
  show ?thesis by (intro exI[of _ ?P'] exI[of _ bufs] conjI b s reads)
qed

end
