(* ===== verification/GramUtf8.thy ===== *)
theory GramUtf8
  imports Prelude
begin

section \<open>Decoding UTF-8 in pieces (\<open>decode_utf8\<close> of src/llama-grammar.cpp)\<close>

text \<open>
  Tokens may end in the middle of a character, so the decoder starts from the value and the number
  of bytes left by the previous piece and returns those of its own end.  Bytes are naturals below
  256; the \<open>uint32_t\<close> arithmetic is written out modulo \<open>2 ^ 32\<close>.  The result list is without
  the terminating zero the code appends.  The theory shows that encoding and then decoding, with
  the bytes cut anywhere, gives the code points back.
\<close>

record partial_utf8 =
  pu_value :: nat
  pu_remain :: int

definition utf8_len :: "nat \<Rightarrow> nat" where
  "utf8_len b = [1, 1, 1, 1, 1, 1, 1, 1, 0, 0, 0, 0, 2, 2, 3, 4] ! (b div 16)"

definition shift_in :: "nat \<Rightarrow> nat \<Rightarrow> nat" where
  "shift_in v b = (v * 64 mod 2 ^ 32 + b mod 64) mod 2 ^ 32"

text \<open>The first loop; \<open>None\<close> is an invalid continuation byte.\<close>

fun continue_seq :: "nat list \<Rightarrow> nat \<Rightarrow> nat \<Rightarrow> (nat \<times> nat \<times> nat list) option" where
  "continue_seq (b # bs) v (Suc n) =
     (if b div 64 \<noteq> 2 then None else continue_seq bs (shift_in v b) n)"
| "continue_seq bs v n = Some (v, n, bs)"

text \<open>The inner loop of the second one, which does not look at the high bits.\<close>

fun take_cont :: "nat list \<Rightarrow> nat \<Rightarrow> nat \<Rightarrow> nat \<times> nat \<times> nat list" where
  "take_cont (b # bs) v (Suc n) = take_cont bs (shift_in v b) n"
| "take_cont bs v n = (v, n, bs)"

lemma take_cont_le: "take_cont bs v n = (v', n', bs') \<Longrightarrow> length bs' \<le> length bs"
  by (induction bs v n rule: take_cont.induct) auto

function decode_rest :: "nat list \<Rightarrow> nat \<Rightarrow> int \<Rightarrow> nat list \<Rightarrow> nat list \<times> partial_utf8" where
  "decode_rest [] v n acc = (acc, \<lparr>pu_value = v, pu_remain = n\<rparr>)"
| "decode_rest (b # bs) v n acc =
     (if utf8_len b = 0 then ([], \<lparr>pu_value = 0, pu_remain = -1\<rparr>)
      else case take_cont bs (b mod 2 ^ (8 - utf8_len b)) (utf8_len b - 1) of
        (v', n', bs') \<Rightarrow> decode_rest bs' v' (int n') (if n' = 0 then acc @ [v'] else acc))"
  by pat_completeness auto

termination
  by (relation "measure (\<lambda>(bs, v, n, acc). length bs)") (auto dest: take_cont_le[OF sym] simp: less_Suc_eq_le)

definition decode_utf8 :: "nat list \<Rightarrow> partial_utf8 \<Rightarrow> nat list \<times> partial_utf8" where
  "decode_utf8 src start =
     (let bytes = takeWhile (\<lambda>b. b \<noteq> 0) src in
      case continue_seq bytes (pu_value start) (nat (pu_remain start)) of
        None \<Rightarrow> ([], \<lparr>pu_value = 0, pu_remain = -1\<rparr>)
      | Some (v, n, bs) \<Rightarrow>
          let n' = (if pu_remain start > 0 then int n else pu_remain start)
          in decode_rest bs v n' (if pu_remain start > 0 \<and> n = 0 then [v] else []))"

text \<open>The decoder of one code point of a grammar text, which assumes valid input but stops at its end.\<close>

definition utf8_len_lead :: "nat \<Rightarrow> nat" where
  "utf8_len_lead b = [1, 1, 1, 1, 1, 1, 1, 1, 1, 1, 1, 1, 2, 2, 3, 4] ! (b div 16)"

definition decode_one :: "nat list \<Rightarrow> nat \<times> nat list" where
  "decode_one src = (case src of [] \<Rightarrow> (0, [])
     | b # bs \<Rightarrow> case take_cont bs (b mod 2 ^ (8 - utf8_len_lead b)) (utf8_len_lead b - 1) of (v, _, bs') \<Rightarrow> (v, bs'))"

subsection \<open>The decoder as an automaton\<close>

fun ustep :: "nat \<Rightarrow> nat list \<times> nat \<times> nat \<Rightarrow> nat list \<times> nat \<times> nat" where
  "ustep b (acc, v, 0) =
     (let n = utf8_len b - 1; v' = b mod 2 ^ (8 - utf8_len b) in (if n = 0 then acc @ [v'] else acc, v', n))"
| "ustep b (acc, v, Suc n) = (let v' = shift_in v b in (if n = 0 then acc @ [v'] else acc, v', n))"

fun valid_bytes :: "nat \<Rightarrow> nat list \<Rightarrow> bool" where
  "valid_bytes n [] = True"
| "valid_bytes 0 (b # bs) \<longleftrightarrow> b \<noteq> 0 \<and> utf8_len b \<noteq> 0 \<and> valid_bytes (utf8_len b - 1) bs"
| "valid_bytes (Suc n) (b # bs) \<longleftrightarrow> b div 64 = 2 \<and> valid_bytes n bs"

lemma ustep_numeral [simp]:
  "ustep b (acc, v, 2) = (acc, shift_in v b, 1)" "ustep b (acc, v, 3) = (acc, shift_in v b, 2)"
  "valid_bytes 2 (b # bs) \<longleftrightarrow> b div 64 = 2 \<and> valid_bytes 1 bs" "valid_bytes 3 (b # bs) \<longleftrightarrow> b div 64 = 2 \<and> valid_bytes 2 bs"
  by (simp_all add: numeral_2_eq_2 numeral_3_eq_3 Let_def)

lemma fold_take_cont:
  "valid_bytes n bs \<Longrightarrow> take_cont bs v n = (v', n', bs') \<Longrightarrow> 0 < n \<Longrightarrow>
    fold ustep bs (acc, v, n) = fold ustep bs' (if n' = 0 then acc @ [v'] else acc, v', n') \<and> valid_bytes n' bs'
    \<and> (n' \<noteq> 0 \<longrightarrow> bs' = [])"
proof (induction bs v n rule: take_cont.induct)
  case (1 b bs v n)
  then show ?case by (cases n) auto
qed auto

lemma decode_rest_fold:
  assumes "valid_bytes 0 bs"
  shows "decode_rest bs v 0 acc = (case fold ustep bs (acc, v, 0) of (acc', v', n') \<Rightarrow> (acc', \<lparr>pu_value = v', pu_remain = int n'\<rparr>))"
  using assms
proof (induction "length bs" arbitrary: bs v acc rule: less_induct)
  case less
  show ?case
  proof (cases bs)
    case (Cons b bs0)
    let ?n = "utf8_len b - 1" and ?v = "b mod 2 ^ (8 - utf8_len b)"
    have b: "utf8_len b \<noteq> 0" "valid_bytes ?n bs0" using less.prems Cons by simp_all
    obtain v' n' bs' where t: "take_cont bs0 ?v ?n = (v', n', bs')" by (metis prod_cases3)
    have len: "length bs' < length bs" using take_cont_le[OF t] Cons by simp
    show ?thesis
    proof (cases "?n = 0")
      case True
      then have "v' = ?v" "n' = 0" "bs' = bs0" using t by (cases bs0; simp)+
      moreover from this True b(2) have "valid_bytes 0 bs'" by simp
      ultimately show ?thesis using Cons b less.hyps[OF len] t True by (simp add: Let_def)
    next
      case False
      from fold_take_cont[OF b(2) t, of acc] False have f:
        "fold ustep bs0 (acc, ?v, ?n) = fold ustep bs' (if n' = 0 then acc @ [v'] else acc, v', n')"
        "valid_bytes n' bs'" "n' \<noteq> 0 \<longrightarrow> bs' = []" by auto
      show ?thesis
      proof (cases "n' = 0")
        case True
        with f(1,2) Cons b less.hyps[OF len] t False show ?thesis by (simp add: Let_def)
      next
        case nz: False
        with f(3) have "bs' = []" by simp
        with f(1) Cons b t False nz show ?thesis by (simp add: Let_def)
      qed
    qed
  qed simp
qed

lemma continue_take: "valid_bytes n bs \<Longrightarrow> continue_seq bs v n = Some (take_cont bs v n)"
  by (induction bs v n rule: take_cont.induct) auto

lemma valid_nonzero: "valid_bytes n bs \<Longrightarrow> takeWhile ((<) 0) bs = bs"
  by (induction n bs rule: valid_bytes.induct) auto

text \<open>On valid bytes, whatever the piece starts with, the decoder is the automaton.\<close>

lemma decode_fold:
  assumes "valid_bytes n bs"
  shows "decode_utf8 bs \<lparr>pu_value = v, pu_remain = int n\<rparr>
    = (case fold ustep bs ([], v, n) of (acc', v', n') \<Rightarrow> (acc', \<lparr>pu_value = v', pu_remain = int n'\<rparr>))"
proof (cases "n = 0")
  case True
  have "continue_seq bs v 0 = Some (v, 0, bs)" by (cases bs) simp_all
  with True assms show ?thesis
    by (simp add: decode_utf8_def valid_nonzero[OF assms] decode_rest_fold)
next
  case False
  obtain v' n' bs' where t: "take_cont bs v n = (v', n', bs')" by (metis prod_cases3)
  from fold_take_cont[OF assms t, of "[]"] False have f:
    "fold ustep bs ([], v, n) = fold ustep bs' (if n' = 0 then [v'] else [], v', n')"
    "valid_bytes n' bs'" "n' \<noteq> 0 \<longrightarrow> bs' = []" by auto
  have d: "decode_utf8 bs \<lparr>pu_value = v, pu_remain = int n\<rparr> = decode_rest bs' v' (int n') (if n' = 0 then [v'] else [])"
    using False continue_take[OF assms, of v] t by (simp add: decode_utf8_def valid_nonzero[OF assms])
  show ?thesis
  proof (cases "n' = 0")
    case True
    with d f(1,2) show ?thesis by (simp add: decode_rest_fold)
  next
    case nz: False
    with f(3) d f(1) show ?thesis by simp
  qed
qed

subsection \<open>Encoding\<close>

definition encode :: "nat \<Rightarrow> nat list" where
  "encode c =
     (if c < 2 ^ 7 then [c]
      else if c < 2 ^ 11 then [192 + c div 2 ^ 6, 128 + c mod 2 ^ 6]
      else if c < 2 ^ 16 then [224 + c div 2 ^ 12, 128 + c div 2 ^ 6 mod 2 ^ 6, 128 + c mod 2 ^ 6]
      else [240 + c div 2 ^ 18, 128 + c div 2 ^ 12 mod 2 ^ 6, 128 + c div 2 ^ 6 mod 2 ^ 6, 128 + c mod 2 ^ 6])"

definition scalar :: "nat \<Rightarrow> bool" where
  "scalar c \<longleftrightarrow> 0 < c \<and> c \<le> 0x10FFFF"

lemma lead_len:
  "x < 128 \<Longrightarrow> utf8_len x = 1" "x < 32 \<Longrightarrow> utf8_len (192 + x) = 2" "x < 16 \<Longrightarrow> utf8_len (224 + x) = 3"
  "x < 16 \<Longrightarrow> utf8_len (240 + x) = 4"
proof -
  assume "x < 128"
  then have "x div 16 \<in> {0, 1, 2, 3, 4, 5, 6, 7}" by auto
  then show "utf8_len x = 1" by (auto simp: utf8_len_def)
next
  assume "x < 32"
  then have "(192 + x) div 16 = 12 \<or> (192 + x) div 16 = 13" by linarith
  then show "utf8_len (192 + x) = 2" by (auto simp: utf8_len_def)
next
  assume "x < 16"
  then have "(224 + x) div 16 = 14" by linarith
  then show "utf8_len (224 + x) = 3" by (simp add: utf8_len_def)
next
  assume "x < 16"
  then have "(240 + x) div 16 = 15" by linarith
  then show "utf8_len (240 + x) = 4" by (simp add: utf8_len_def)
qed

lemma mod_above: "x < m \<Longrightarrow> (k * m + x) mod m = (x :: nat)"
  by simp

lemma cont_byte: "x < 64 \<Longrightarrow> (128 + x) div 64 = 2" "x < 64 \<Longrightarrow> v < 2 ^ 20 \<Longrightarrow> shift_in v (128 + x) = v * 64 + x"
proof -
  assume x: "x < 64"
  show "(128 + x) div 64 = 2" using x by linarith
  assume v: "v < 2 ^ 20"
  have "(128 + x) mod 64 = x" using mod_above[OF x, of 2] by simp
  then show "shift_in v (128 + x) = v * 64 + x" using x v by (simp add: shift_in_def)
qed

lemma lead_bits: "x < 64 \<Longrightarrow> (192 + x) mod 2 ^ 6 = (x :: nat)" "x < 32 \<Longrightarrow> (224 + x) mod 2 ^ 5 = (x :: nat)"
  "x < 16 \<Longrightarrow> (240 + x) mod 2 ^ 4 = (x :: nat)"
  using mod_above[of x 64 3] mod_above[of x 32 7] mod_above[of x 16 15] by simp_all

lemma split_bits:
  "(c div 2 ^ 12 * 64 + c div 2 ^ 6 mod 2 ^ 6) * 64 + c mod 2 ^ 6 = (c :: nat)"
  "((c div 2 ^ 18 * 64 + c div 2 ^ 12 mod 2 ^ 6) * 64 + c div 2 ^ 6 mod 2 ^ 6) * 64 + c mod 2 ^ 6 = (c :: nat)"
proof -
  have d: "c div 2 ^ 12 = c div 64 div 64" "c div 2 ^ 18 = c div 64 div 64 div 64"
    by (simp_all add: div_mult2_eq[symmetric])
  show "(c div 2 ^ 12 * 64 + c div 2 ^ 6 mod 2 ^ 6) * 64 + c mod 2 ^ 6 = c"
    "((c div 2 ^ 18 * 64 + c div 2 ^ 12 mod 2 ^ 6) * 64 + c div 2 ^ 6 mod 2 ^ 6) * 64 + c mod 2 ^ 6 = c"
    unfolding d by simp_all
qed

text \<open>The bytes of one code point take the automaton from a boundary to a boundary.\<close>

lemma encode_step:
  assumes "scalar c"
  shows "fold ustep (encode c) (acc, v, 0) = (acc @ [c], c, 0)" and "valid_bytes 0 (encode c @ bs) = valid_bytes 0 bs"
proof -
  consider (one) "c < 2 ^ 7" | (two) "2 ^ 7 \<le> c" "c < 2 ^ 11" | (three) "2 ^ 11 \<le> c" "c < 2 ^ 16" | (four) "2 ^ 16 \<le> c" "c < 2 ^ 21"
    using assms by (fastforce simp: scalar_def)
  then have "fold ustep (encode c) (acc, v, 0) = (acc @ [c], c, 0) \<and> valid_bytes 0 (encode c @ bs) = valid_bytes 0 bs"
  proof cases
    case one
    then have "encode c = [c]" "utf8_len c = 1" "c mod 2 ^ 7 = c" by (simp_all add: encode_def lead_len(1))
    with assms show ?thesis by (simp add: scalar_def)
  next
    case two
    define x y where "x = c div 2 ^ 6" and "y = c mod 2 ^ 6"
    have b: "x < 32" "y < 64" "c = x * 64 + y" unfolding x_def y_def using two by (simp_all add: div_mult_mod_eq)
    have e: "encode c = [192 + x, 128 + y]" using two by (simp add: encode_def x_def y_def)
    show ?thesis
      unfolding e using b lead_len(2)[of x] cont_byte[of y] lead_bits(1)[of x]
      by (simp add: Let_def)
  next
    case three
    define x y z where "x = c div 2 ^ 12" and "y = c div 2 ^ 6 mod 2 ^ 6" and "z = c mod 2 ^ 6"
    have b: "x < 16" "y < 64" "z < 64" "c = (x * 64 + y) * 64 + z"
      unfolding x_def y_def z_def using three by (simp, simp, simp, simp only: split_bits)
    have e: "encode c = [224 + x, 128 + y, 128 + z]" using three by (simp add: encode_def x_def y_def z_def)
    show ?thesis
      unfolding e using b lead_len(3)[of x] cont_byte[of y] cont_byte[of z] lead_bits(2)[of x]
      by (simp add: Let_def)
  next
    case four
    define w x y z where "w = c div 2 ^ 18" and "x = c div 2 ^ 12 mod 2 ^ 6" and "y = c div 2 ^ 6 mod 2 ^ 6" and "z = c mod 2 ^ 6"
    have b: "w < 8" "x < 64" "y < 64" "z < 64" "c = ((w * 64 + x) * 64 + y) * 64 + z"
      unfolding w_def x_def y_def z_def using four by (simp, simp, simp, simp, simp only: split_bits)
    have e: "encode c = [240 + w, 128 + x, 128 + y, 128 + z]" using four by (simp add: encode_def w_def x_def y_def z_def)
    show ?thesis
      unfolding e using b lead_len(4)[of w] cont_byte[of x] cont_byte[of y] cont_byte[of z] lead_bits(3)[of w]
      by (simp add: Let_def)
  qed
  then show "fold ustep (encode c) (acc, v, 0) = (acc @ [c], c, 0)" "valid_bytes 0 (encode c @ bs) = valid_bytes 0 bs" by blast+
qed

definition encode_all :: "nat list \<Rightarrow> nat list" where
  "encode_all cs = concat (map encode cs)"

lemma encode_all_fold:
  assumes "\<forall>c \<in> set cs. scalar c"
  shows "\<exists>v'. fold ustep (encode_all cs) (acc, v, 0) = (acc @ cs, v', 0)" and "valid_bytes 0 (encode_all cs)"
proof -
  have "(\<exists>v'. fold ustep (encode_all cs) (acc, v, 0) = (acc @ cs, v', 0)) \<and> valid_bytes 0 (encode_all cs)"
    using assms
  proof (induction cs arbitrary: acc v)
    case (Cons c cs)
    then have "scalar c" by simp
    note st = encode_step[OF this]
    have IH: "(\<exists>v'. fold ustep (encode_all cs) (acc @ [c], c, 0) = (acc @ c # cs, v', 0)) \<and> valid_bytes 0 (encode_all cs)"
      using Cons.IH[of "acc @ [c]" c] Cons.prems by simp
    have e: "encode_all (c # cs) = encode c @ encode_all cs" by (simp add: encode_all_def)
    show ?case unfolding e fold_append o_apply st using IH by simp
  qed (simp add: encode_all_def)
  then show "\<exists>v'. fold ustep (encode_all cs) (acc, v, 0) = (acc @ cs, v', 0)" "valid_bytes 0 (encode_all cs)" by blast+
qed

text \<open>Cutting the bytes: the automaton state carries over.\<close>

lemma ustep_acc: "fold ustep bs (acc, v, n) = (case fold ustep bs ([], v, n) of (o', v', n') \<Rightarrow> (acc @ o', v', n'))"
proof (induction bs arbitrary: acc v n)
  case (Cons b bs)
  have "ustep b (acc, v, n) = (case ustep b ([], v, n) of (o', v', n') \<Rightarrow> (acc @ o', v', n'))"
    by (cases n) (simp_all add: Let_def)
  moreover obtain o1 v1 n1 where s: "ustep b ([], v, n) = (o1, v1, n1)" by (metis prod_cases3)
  ultimately show ?case
    using Cons[of "acc @ o1" v1 n1] Cons[of o1 v1 n1] by (simp add: s split: prod.splits)
qed simp

lemma valid_bytes_append:
  assumes "valid_bytes n (as @ bs)" "fold ustep as (acc, v, n) = (acc', v', n')"
  shows "valid_bytes n as \<and> valid_bytes n' bs"
  using assms
proof (induction as arbitrary: acc v n)
  case (Cons b as)
  then show ?case by (cases n) (auto simp: Let_def)
qed auto

lemma decode_pieces:
  assumes "valid_bytes n (as @ bs)" "decode_utf8 as \<lparr>pu_value = v, pu_remain = int n\<rparr> = (c1, p)" "decode_utf8 bs p = (c2, q)"
  shows "decode_utf8 (as @ bs) \<lparr>pu_value = v, pu_remain = int n\<rparr> = (c1 @ c2, q)"
proof -
  obtain o1 v1 n1 where f: "fold ustep as ([], v, n) = (o1, v1, n1)" by (metis prod_cases3)
  note val = valid_bytes_append[OF assms(1) f]
  have p: "c1 = o1" "p = \<lparr>pu_value = v1, pu_remain = int n1\<rparr>"
    using assms(2) decode_fold[of n as v] val f by auto
  have "decode_utf8 (as @ bs) \<lparr>pu_value = v, pu_remain = int n\<rparr>
      = (case fold ustep bs (o1, v1, n1) of (acc', v', n') \<Rightarrow> (acc', \<lparr>pu_value = v', pu_remain = int n'\<rparr>))"
    unfolding decode_fold[OF assms(1)] fold_append o_apply f by simp
  also have "\<dots> = (c1 @ c2, q)"
    using assms(3) decode_fold[of n1 bs v1] val p ustep_acc[of bs o1 v1 n1] by (auto split: prod.splits)
  finally show ?thesis .
qed

lemma decode_encode:
  assumes "\<forall>c \<in> set cs. scalar c"
  shows "\<exists>v. decode_utf8 (encode_all cs) \<lparr>pu_value = 0, pu_remain = 0\<rparr> = (cs, \<lparr>pu_value = v, pu_remain = 0\<rparr>)"
  using encode_all_fold(1)[OF assms, of "[]" 0] encode_all_fold(2)[OF assms] decode_fold[of 0 "encode_all cs" 0] by auto

end
