(* ===== verification/GramRules.thy ===== *)
theory GramRules
  imports GramUtf8
begin

section \<open>Grammar rules and the pushdown stacks (src/llama-grammar.cpp)\<close>

text \<open>
  A rule is a vector of elements that ends with \<open>G_END\<close>, its alternates separated by \<open>G_ALT\<close>.  A
  pointer into the rules is a pair of a rule index and an element index; a stack is listed top
  first.  \<open>advance\<close> turns a stack into the stacks with a terminal on top (a depth-first worklist
  with a set of seen stacks), \<open>accept_chr\<close> consumes one code point, \<open>reject\<close> filters candidate
  tokens, \<open>detect_left_recursion\<close> is the check made before a grammar is used.  A call may not
  return; \<open>Some (Inl _)\<close> is an abort of the process, a thrown exception, a null dereference or the
  exhaustion of memory.
\<close>

datatype gretype = G_END | G_ALT | G_RULE_REF | G_CHAR | G_CHAR_NOT | G_CHAR_RNG_UPPER
  | G_CHAR_ALT | G_CHAR_ANY | G_TOKEN | G_TOKEN_NOT

record gelem =
  g_type :: gretype
  g_value :: nat

type_synonym rule = "gelem list"
type_synonym rules = "rule list"
type_synonym ptr = "nat \<times> nat"
type_synonym stack = "ptr list"

datatype gfail = GAbort | GThrow | GNull | GMemory

type_synonym 'a run = "(gfail + 'a) option"

definition run_bind :: "'a run \<Rightarrow> ('a \<Rightarrow> 'b run) \<Rightarrow> 'b run" where
  "run_bind m f = (case m of None \<Rightarrow> None | Some (Inl e) \<Rightarrow> Some (Inl e) | Some (Inr x) \<Rightarrow> f x)"

abbreviation ret :: "'a \<Rightarrow> 'a run" where
  "ret x \<equiv> Some (Inr x)"

text \<open>A loop over a vector whose body may fail.\<close>

fun run_fold :: "('a \<Rightarrow> 's \<Rightarrow> 's run) \<Rightarrow> 'a list \<Rightarrow> 's \<Rightarrow> 's run" where
  "run_fold f [] s = ret s"
| "run_fold f (x # xs) s = run_bind (f x s) (run_fold f xs)"

subsection \<open>Elements\<close>

definition elem_at :: "rules \<Rightarrow> ptr \<Rightarrow> gelem" where
  "elem_at rs p = rs ! fst p ! snd p"

definition next_ptr :: "ptr \<Rightarrow> ptr" where
  "next_ptr p = (fst p, Suc (snd p))"

definition is_end_type :: "gretype \<Rightarrow> bool" where
  "is_end_type t \<longleftrightarrow> t = G_END \<or> t = G_ALT"

definition is_end_of_sequence :: "rules \<Rightarrow> ptr \<Rightarrow> bool" where
  "is_end_of_sequence rs p \<longleftrightarrow> is_end_type (g_type (elem_at rs p))"

definition is_token_type :: "gretype \<Rightarrow> bool" where
  "is_token_type t \<longleftrightarrow> t = G_TOKEN \<or> t = G_TOKEN_NOT"

definition is_start_type :: "gretype \<Rightarrow> bool" where
  "is_start_type t \<longleftrightarrow> t = G_CHAR \<or> t = G_CHAR_NOT \<or> t = G_CHAR_ANY"

definition is_positive :: "gretype \<Rightarrow> bool" where
  "is_positive t \<longleftrightarrow> t = G_CHAR \<or> t = G_CHAR_ANY"

text \<open>The \<open>do \<dots> while\<close> loop of \<open>llama_grammar_match_char\<close> over the elements from the pointer on: whether
  one of the alternatives is met, and how many elements were passed.\<close>

fun class_scan :: "gelem list \<Rightarrow> nat \<Rightarrow> bool \<Rightarrow> bool \<times> nat" where
  "class_scan (e # u # es) chr found =
     (if g_type u = G_CHAR_RNG_UPPER then
        (let f = (found \<or> g_value e \<le> chr \<and> chr \<le> g_value u)
         in if es \<noteq> [] \<and> g_type (hd es) = G_CHAR_ALT
            then (let (f', n) = class_scan es chr f in (f', n + 2)) else (f, 2))
      else
        (let f = (if g_type e = G_CHAR_ANY then True else found \<or> g_value e = chr)
         in if g_type u = G_CHAR_ALT
            then (let (f', n) = class_scan (u # es) chr f in (f', n + 1)) else (f, 1)))"
| "class_scan [e] chr found = (if g_type e = G_CHAR_ANY then True else found \<or> g_value e = chr, 1)"
| "class_scan [] chr found = (found, 0)"

definition elems_from :: "rules \<Rightarrow> ptr \<Rightarrow> gelem list" where
  "elems_from rs p = drop (snd p) (rs ! fst p)"

definition match_char :: "rules \<Rightarrow> ptr \<Rightarrow> nat \<Rightarrow> (bool \<times> ptr) option" where
  "match_char rs p chr =
     (if \<not> is_start_type (g_type (elem_at rs p)) then None
      else let (found, n) = class_scan (elems_from rs p) chr False
           in Some (found = is_positive (g_type (elem_at rs p)), (fst p, snd p + n)))"

definition match_token :: "rules \<Rightarrow> ptr \<Rightarrow> nat \<Rightarrow> bool option" where
  "match_token rs p tok =
     (if g_type (elem_at rs p) = G_TOKEN then Some (g_value (elem_at rs p) = tok)
      else if g_type (elem_at rs p) = G_TOKEN_NOT then Some (g_value (elem_at rs p) \<noteq> tok)
      else None)"

text \<open>The loop of \<open>llama_grammar_match_partial_char\<close> for the code points from \<open>low\<close> to \<open>high\<close>; the
  result when an alternative meets the range, if any.\<close>

fun partial_scan :: "gelem list \<Rightarrow> nat \<Rightarrow> nat \<Rightarrow> bool \<Rightarrow> bool option" where
  "partial_scan (e # u # es) low high pos =
     (if g_type u = G_CHAR_RNG_UPPER then
        (if g_value e \<le> high \<and> low \<le> g_value u then Some pos
         else if es \<noteq> [] \<and> g_type (hd es) = G_CHAR_ALT then partial_scan es low high pos else None)
      else if g_type e = G_CHAR_ANY then Some True
      else if low \<le> g_value e \<and> g_value e \<le> high then Some pos
      else if g_type u = G_CHAR_ALT then partial_scan (u # es) low high pos else None)"
| "partial_scan [e] low high pos =
     (if g_type e = G_CHAR_ANY then Some True
      else if low \<le> g_value e \<and> g_value e \<le> high then Some pos else None)"
| "partial_scan [] low high pos = None"

text \<open>The shift works on 32 bits; the mask is \<open>2 ^ (6 * n_remain) - 1\<close> with \<open>n_remain \<le> 3\<close>.\<close>

definition partial_low :: "nat \<Rightarrow> nat \<Rightarrow> nat" where
  "partial_low v n = v * 2 ^ (6 * n) mod 2 ^ 32"

definition partial_high :: "nat \<Rightarrow> nat \<Rightarrow> nat" where
  "partial_high v n = partial_low v n + (2 ^ (6 * n) - 1)"

definition class_meets :: "gelem list \<Rightarrow> bool \<Rightarrow> partial_utf8 \<Rightarrow> bool" where
  "class_meets es pos pu =
     (let v = pu_value pu; n = nat (pu_remain pu) in
      if pu_remain pu < 0 \<or> (pu_remain pu = 1 \<and> v < 2) then False
      else let low = partial_low v n; high = partial_high v n;
               low' = (if low = 0 then (if n = 2 then 2 ^ 11 else if n = 3 then 2 ^ 16 else low) else low)
           in (case partial_scan es low' high pos of Some b \<Rightarrow> b | None \<Rightarrow> \<not> pos))"

definition match_partial_char :: "rules \<Rightarrow> ptr \<Rightarrow> partial_utf8 \<Rightarrow> bool option" where
  "match_partial_char rs p pu =
     (if \<not> is_start_type (g_type (elem_at rs p)) then None
      else Some (class_meets (elems_from rs p) (is_positive (g_type (elem_at rs p))) pu))"

subsection \<open>Advancing a stack\<close>

text \<open>The indices at which the alternates of a rule start.\<close>

fun alt_starts_from :: "nat \<Rightarrow> rule \<Rightarrow> nat list" where
  "alt_starts_from i [] = []"
| "alt_starts_from i (e # es) =
     (if g_type e = G_ALT then Suc i # alt_starts_from (Suc i) es
      else if g_type e = G_END then [] else alt_starts_from (Suc i) es)"

definition alt_starts :: "rule \<Rightarrow> nat list" where
  "alt_starts r = 0 # alt_starts_from 0 r"

definition push_if :: "rules \<Rightarrow> ptr \<Rightarrow> stack \<Rightarrow> stack" where
  "push_if rs p st = (if is_end_of_sequence rs p then st else p # st)"

text \<open>The stacks an expansion of the rule reference on top pushes, in the order it pushes them.\<close>

definition expand :: "rules \<Rightarrow> ptr \<Rightarrow> stack \<Rightarrow> stack list" where
  "expand rs p st = map (\<lambda>i. push_if rs (g_value (elem_at rs p), i) (push_if rs (next_ptr p) st))
     (alt_starts (rs ! g_value (elem_at rs p)))"

definition add_new :: "'a \<Rightarrow> 'a list \<Rightarrow> 'a list" where
  "add_new x xs = (if x \<in> set xs then xs else xs @ [x])"

definition is_terminal :: "gretype \<Rightarrow> bool" where
  "is_terminal t \<longleftrightarrow> is_start_type t \<or> is_token_type t"

text \<open>The worklist is listed with its back first.\<close>

partial_function (option) advance_loop ::
  "rules \<Rightarrow> stack list \<Rightarrow> stack set \<Rightarrow> stack list \<Rightarrow> (gfail + stack list) option" where
  "advance_loop rs todo seen out =
     (case todo of
        [] \<Rightarrow> Some (Inr out)
      | st # todo' \<Rightarrow>
          if st \<in> seen then advance_loop rs todo' seen out
          else (case st of
            [] \<Rightarrow> advance_loop rs todo' (insert st seen) (add_new st out)
          | p # st' \<Rightarrow>
              if g_type (elem_at rs p) = G_RULE_REF
              then advance_loop rs (rev (expand rs p st') @ todo') (insert st seen) out
              else if is_terminal (g_type (elem_at rs p))
              then advance_loop rs todo' (insert st seen) (add_new st out)
              else Some (Inl GAbort)))"

declare advance_loop.simps [code]

definition advance_stack :: "rules \<Rightarrow> stack \<Rightarrow> stack list \<Rightarrow> stack list run" where
  "advance_stack rs st out = advance_loop rs [st] {} out"

subsection \<open>Accepting a code point\<close>

definition accept_chr :: "rules \<Rightarrow> stack \<Rightarrow> nat \<Rightarrow> stack list \<Rightarrow> stack list run" where
  "accept_chr rs st chr out =
     (case st of
        [] \<Rightarrow> ret out
      | p # st' \<Rightarrow>
          if is_token_type (g_type (elem_at rs p)) then ret out
          else (case match_char rs p chr of
            None \<Rightarrow> Some (Inl GAbort)
          | Some (ok, q) \<Rightarrow> if ok then advance_stack rs (push_if rs q st') out else ret out))"

definition accept_stacks :: "rules \<Rightarrow> nat \<Rightarrow> stack list \<Rightarrow> stack list run" where
  "accept_stacks rs chr stacks = run_fold (\<lambda>st out. accept_chr rs st chr out) stacks []"

fun accept_all :: "rules \<Rightarrow> nat list \<Rightarrow> stack list \<Rightarrow> stack list run" where
  "accept_all rs [] stacks = ret stacks"
| "accept_all rs (c # cs) stacks = run_bind (accept_stacks rs c stacks) (accept_all rs cs)"

subsection \<open>Rejecting candidate tokens\<close>

text \<open>\<open>cd_points\<close> is the decoded piece without its terminating zero and \<open>cd_at\<close> the place the
  candidate's pointer has reached in it.\<close>

record candidate =
  cd_index :: nat
  cd_points :: "nat list"
  cd_at :: nat
  cd_partial :: partial_utf8
  cd_id :: nat

definition cd_done :: "candidate \<Rightarrow> bool" where
  "cd_done t \<longleftrightarrow> length (cd_points t) \<le> cd_at t"

definition cd_next :: "candidate \<Rightarrow> candidate" where
  "cd_next t = t\<lparr>cd_at := cd_at t + 1\<rparr>"

definition cd_prev :: "candidate \<Rightarrow> candidate" where
  "cd_prev t = t\<lparr>cd_at := cd_at t - 1\<rparr>"

text \<open>The pass over the candidates at a character: those rejected here and those that go on.\<close>

fun split_candidates :: "rules \<Rightarrow> ptr \<Rightarrow> candidate list \<Rightarrow> (candidate list \<times> candidate list) option" where
  "split_candidates rs p [] = Some ([], [])"
| "split_candidates rs p (t # ts) =
     (case split_candidates rs p ts of None \<Rightarrow> None
      | Some (rej, nxt) \<Rightarrow>
          if cd_done t then
            (if pu_remain (cd_partial t) = 0 then Some (rej, nxt)
             else case match_partial_char rs p (cd_partial t) of None \<Rightarrow> None
               | Some ok \<Rightarrow> Some (if ok then (rej, nxt) else (t # rej, nxt)))
          else case match_char rs p (cd_points t ! cd_at t) of None \<Rightarrow> None
            | Some (ok, _) \<Rightarrow> Some (if ok then (rej, cd_next t # nxt) else (t # rej, nxt)))"

definition reject_at_token :: "rules \<Rightarrow> ptr \<Rightarrow> candidate list \<Rightarrow> candidate list" where
  "reject_at_token rs p ts = filter (\<lambda>t. if cd_done t then pu_remain (cd_partial t) \<noteq> 0
     else match_token rs p (cd_id t) = Some False) ts"

text \<open>\<open>rec\<close> is the recursive call \<open>llama_grammar_reject_candidates\<close>.\<close>

definition reject_for_stack ::
  "(stack list \<Rightarrow> candidate list \<Rightarrow> candidate list run) \<Rightarrow> rules \<Rightarrow> stack \<Rightarrow> candidate list \<Rightarrow> candidate list run" where
  "reject_for_stack rec rs st ts =
     (case st of
        [] \<Rightarrow> ret (filter (\<lambda>t. \<not> cd_done t \<or> pu_remain (cd_partial t) \<noteq> 0) ts)
      | p # st' \<Rightarrow>
          if is_token_type (g_type (elem_at rs p)) then ret (reject_at_token rs p ts)
          else (case (split_candidates rs p ts, match_char rs p 0) of
            (Some (rej, nxt), Some (_, q)) \<Rightarrow>
              run_bind (advance_stack rs (push_if rs q st') []) (\<lambda>stacks.
              run_bind (rec stacks nxt) (\<lambda>rej'. ret (rej @ map cd_prev rej')))
          | _ \<Rightarrow> Some (Inl GAbort)))"

text \<open>Each level consumes one code point of every candidate, so the longest candidate bounds the depth.\<close>

fun reject_depth :: "nat \<Rightarrow> rules \<Rightarrow> stack list \<Rightarrow> candidate list \<Rightarrow> candidate list run" where
  "reject_depth 0 rs stacks ts = None"
| "reject_depth (Suc n) rs stacks ts =
     (if stacks = [] then Some (Inl GAbort)
      else if ts = [] then ret []
      else run_fold (\<lambda>st rej. reject_for_stack (reject_depth n rs) rs st rej) stacks ts)"

definition cd_left :: "candidate \<Rightarrow> nat" where
  "cd_left t = length (cd_points t) - cd_at t"

definition reject_candidates :: "rules \<Rightarrow> stack list \<Rightarrow> candidate list \<Rightarrow> candidate list run" where
  "reject_candidates rs stacks ts = reject_depth (fold max (map cd_left ts) 0 + 2) rs stacks ts"

subsection \<open>Left recursion\<close>

record lr_state =
  lr_visited :: "bool list"
  lr_in_progress :: "bool list"
  lr_may_be_empty :: "bool list"

text \<open>The first loop: is one of the alternates empty as written?\<close>

fun has_empty_alt :: "bool \<Rightarrow> rule \<Rightarrow> bool" where
  "has_empty_alt at_start [] = False"
| "has_empty_alt at_start (e # es) =
     (if is_end_type (g_type e) then (if at_start then True else has_empty_alt True es)
      else has_empty_alt False es)"

text \<open>The second loop, over the elements of the rule; \<open>rec\<close> is the recursive call.\<close>

fun lr_scan :: "(nat \<Rightarrow> lr_state \<Rightarrow> (bool \<times> lr_state) option) \<Rightarrow> rule \<Rightarrow> bool \<Rightarrow> lr_state \<Rightarrow> (bool \<times> lr_state) option" where
  "lr_scan rec [] go s = Some (False, s)"
| "lr_scan rec (e # es) go s =
     (if g_type e = G_RULE_REF \<and> go then
        (case rec (g_value e) s of None \<Rightarrow> None
         | Some (True, s') \<Rightarrow> Some (True, s')
         | Some (False, s') \<Rightarrow> lr_scan rec es (lr_may_be_empty s' ! g_value e) s')
      else lr_scan rec es (is_end_type (g_type e)) s)"

text \<open>Entering a rule marks it in progress and records an alternate that is empty as written; leaving
  it clears the mark.\<close>

definition lr_enter :: "rules \<Rightarrow> nat \<Rightarrow> lr_state \<Rightarrow> lr_state" where
  "lr_enter rs r s = s\<lparr>lr_in_progress := (lr_in_progress s)[r := True],
     lr_may_be_empty := (if has_empty_alt True (rs ! r) then (lr_may_be_empty s)[r := True] else lr_may_be_empty s)\<rparr>"

definition lr_leave :: "nat \<Rightarrow> lr_state \<Rightarrow> lr_state" where
  "lr_leave r s = s\<lparr>lr_in_progress := (lr_in_progress s)[r := False], lr_visited := (lr_visited s)[r := True]\<rparr>"

text \<open>A nested call marks one more rule as in progress, so the number of rules bounds the depth.\<close>

fun detect_left_recursion :: "nat \<Rightarrow> rules \<Rightarrow> nat \<Rightarrow> lr_state \<Rightarrow> (bool \<times> lr_state) option" where
  "detect_left_recursion 0 rs r s = None"
| "detect_left_recursion (Suc n) rs r s =
     (if lr_in_progress s ! r then Some (True, s)
      else case lr_scan (detect_left_recursion n rs) (rs ! r) True (lr_enter rs r s) of
             None \<Rightarrow> None
           | Some (True, s') \<Rightarrow> Some (True, s')
           | Some (False, s') \<Rightarrow> Some (False, lr_leave r s'))"

fun check_rules :: "rules \<Rightarrow> nat list \<Rightarrow> lr_state \<Rightarrow> bool option" where
  "check_rules rs [] s = Some False"
| "check_rules rs (i # is) s =
     (if lr_visited s ! i then check_rules rs is s
      else case detect_left_recursion (length rs + 1) rs i s of
        None \<Rightarrow> None
      | Some (True, _) \<Rightarrow> Some True
      | Some (False, s') \<Rightarrow> check_rules rs is s')"

definition left_recursive :: "rules \<Rightarrow> bool option" where
  "left_recursive rs = (let z = replicate (length rs) False in
     check_rules rs [0..<length rs] \<lparr>lr_visited = z, lr_in_progress = z, lr_may_be_empty = z\<rparr>)"

subsection \<open>Initial stacks\<close>

definition initial_stacks :: "rules \<Rightarrow> nat \<Rightarrow> stack list run" where
  "initial_stacks rs root =
     run_fold (\<lambda>i out. advance_stack rs (push_if rs (root, i) []) out) (alt_starts (rs ! root)) []"

text \<open>Copying a rule stops at its first end marker.\<close>

definition copy_rule :: "rule \<Rightarrow> rule" where
  "copy_rule r = takeWhile (\<lambda>e. g_type e \<noteq> G_END) r @ [\<lparr>g_type = G_END, g_value = 0\<rparr>]"

definition init_rules :: "rules \<Rightarrow> nat \<Rightarrow> (rules \<times> stack list) option run" where
  "init_rules raw root =
     (let rs = map copy_rule raw in
      case left_recursive rs of
        None \<Rightarrow> None
      | Some True \<Rightarrow> ret None
      | Some False \<Rightarrow> run_bind (initial_stacks rs root) (\<lambda>stacks. ret (Some (rs, stacks))))"

end
