(* ===== verification/GramSem.thy ===== *)
theory GramSem
  imports GramRules
begin

section \<open>What a grammar generates\<close>

text \<open>
  The elements of a rule read as symbols of a context-free grammar over code points, the words the
  symbols derive, the well-formed rules and stacks, and the words a stack generates.  The lemmas
  relate the code's pointer arithmetic (\<open>match_char\<close>, \<open>expand\<close>) to the symbols.
\<close>

datatype gsym = Nonterminal nat | Class bool "(nat \<times> nat) list" | Any | Tok bool nat

definition is_modifier :: "gelem \<Rightarrow> bool" where
  "is_modifier e \<longleftrightarrow> g_type e = G_CHAR_RNG_UPPER \<or> g_type e = G_CHAR_ALT"

fun ranges :: "gelem list \<Rightarrow> (nat \<times> nat) list" where
  "ranges (a # b # es) = (if g_type b = G_CHAR_RNG_UPPER then (g_value a, g_value b) # ranges es
     else (g_value a, g_value a) # ranges (b # es))"
| "ranges [a] = [(g_value a, g_value a)]"
| "ranges [] = []"

function (sequential) symbols :: "gelem list \<Rightarrow> gsym list" where
  "symbols [] = []"
| "symbols (e # es) =
     (case g_type e of
        G_RULE_REF \<Rightarrow> Nonterminal (g_value e) # symbols es
      | G_CHAR \<Rightarrow> Class True (ranges (e # takeWhile is_modifier es)) # symbols (dropWhile is_modifier es)
      | G_CHAR_NOT \<Rightarrow> Class False (ranges (e # takeWhile is_modifier es)) # symbols (dropWhile is_modifier es)
      | G_CHAR_ANY \<Rightarrow> Any # symbols es
      | G_TOKEN \<Rightarrow> Tok True (g_value e) # symbols es
      | G_TOKEN_NOT \<Rightarrow> Tok False (g_value e) # symbols es
      | _ \<Rightarrow> [])"
  by pat_completeness auto

termination
  by (relation "measure length") (auto simp: length_dropWhile_le less_Suc_eq_le)

definition in_ranges :: "nat \<Rightarrow> (nat \<times> nat) list \<Rightarrow> bool" where
  "in_ranges c rgs \<longleftrightarrow> list_ex (\<lambda>(a, b). a \<le> c \<and> c \<le> b) rgs"

fun sym_ok :: "gsym \<Rightarrow> nat \<Rightarrow> bool" where
  "sym_ok (Class pos rgs) c = (in_ranges c rgs = pos)"
| "sym_ok Any c = True"
| "sym_ok _ c = False"

definition alternates :: "rule \<Rightarrow> gsym list list" where
  "alternates r = map (\<lambda>i. symbols (drop i r)) (alt_starts r)"

inductive derives :: "rules \<Rightarrow> gsym list \<Rightarrow> nat list \<Rightarrow> bool" for rs where
  derives_nil: "derives rs [] []"
| derives_chr: "sym_ok s c \<Longrightarrow> derives rs ss w \<Longrightarrow> derives rs (s # ss) (c # w)"
| derives_nt: "a \<in> set (alternates (rs ! r)) \<Longrightarrow> derives rs a u \<Longrightarrow> derives rs ss v
    \<Longrightarrow> derives rs (Nonterminal r # ss) (u @ v)"

inductive_simps derives_Nil [simp]: "derives rs [] w"
inductive_simps derives_Cons: "derives rs (s # ss) w"

text \<open>The number of rule applications of a derivation, for inductions.\<close>

inductive derives_in :: "rules \<Rightarrow> nat \<Rightarrow> gsym list \<Rightarrow> nat list \<Rightarrow> bool" for rs where
  "derives_in rs 0 [] []"
| "sym_ok s c \<Longrightarrow> derives_in rs n ss w \<Longrightarrow> derives_in rs n (s # ss) (c # w)"
| "a \<in> set (alternates (rs ! r)) \<Longrightarrow> derives_in rs m a u \<Longrightarrow> derives_in rs n ss v
    \<Longrightarrow> derives_in rs (Suc (m + n)) (Nonterminal r # ss) (u @ v)"

inductive_simps derives_in_Nil [simp]: "derives_in rs n [] w"
inductive_simps derives_in_Cons: "derives_in rs n (s # ss) w"

lemma derives_in_iff: "derives rs ss w \<longleftrightarrow> (\<exists>n. derives_in rs n ss w)"
proof
  assume "derives rs ss w"
  then show "\<exists>n. derives_in rs n ss w"
    by induction (blast intro: derives_in.intros)+
next
  assume "\<exists>n. derives_in rs n ss w"
  then obtain n where "derives_in rs n ss w" ..
  then show "derives rs ss w" by induction (auto intro: derives.intros)
qed

subsection \<open>Well-formed rules\<close>

text \<open>The second argument is what may follow: nothing special, a range end or another alternative, or
  another alternative only.\<close>

fun wf_elems :: "nat \<Rightarrow> nat \<Rightarrow> gelem list \<Rightarrow> bool" where
  "wf_elems n m [] = False"
| "wf_elems n m (e # es) =
     (case g_type e of
        G_END \<Rightarrow> es = []
      | G_ALT \<Rightarrow> wf_elems n 0 es
      | G_RULE_REF \<Rightarrow> g_value e < n \<and> wf_elems n 0 es
      | G_CHAR \<Rightarrow> wf_elems n 1 es
      | G_CHAR_NOT \<Rightarrow> wf_elems n 1 es
      | G_CHAR_RNG_UPPER \<Rightarrow> m = 1 \<and> wf_elems n 2 es
      | G_CHAR_ALT \<Rightarrow> 1 \<le> m \<and> wf_elems n 1 es
      | G_CHAR_ANY \<Rightarrow> wf_elems n 0 es
      | G_TOKEN \<Rightarrow> wf_elems n 0 es
      | G_TOKEN_NOT \<Rightarrow> wf_elems n 0 es)"

definition wf_rules :: "rules \<Rightarrow> bool" where
  "wf_rules rs \<longleftrightarrow> list_all (wf_elems (length rs) 0) rs"

definition wf_ptr :: "rules \<Rightarrow> ptr \<Rightarrow> bool" where
  "wf_ptr rs p \<longleftrightarrow> fst p < length rs \<and> wf_elems (length rs) 0 (elems_from rs p)"

definition wf_stack :: "rules \<Rightarrow> stack \<Rightarrow> bool" where
  "wf_stack rs st \<longleftrightarrow> (\<forall>p \<in> set st. wf_ptr rs p \<and> \<not> is_end_of_sequence rs p)"

lemma wf_elems_mode: "wf_elems n m es \<Longrightarrow> es = [] \<or> \<not> is_modifier (hd es) \<Longrightarrow> wf_elems n k es"
  by (cases es) (auto simp: is_modifier_def split: gretype.splits)

lemma elems_from_cons:
  assumes "elems_from rs p \<noteq> []"
  shows "elems_from rs p = elem_at rs p # elems_from rs (next_ptr p)"
proof -
  have "snd p < length (rs ! fst p)" using assms by (simp add: elems_from_def)
  then show ?thesis by (simp add: elems_from_def elem_at_def next_ptr_def Cons_nth_drop_Suc)
qed

lemma wf_ptr_cons: "wf_ptr rs p \<Longrightarrow> elems_from rs p = elem_at rs p # elems_from rs (next_ptr p)"
  by (rule elems_from_cons) (auto simp: wf_ptr_def)

lemma elems_from_drop: "elems_from rs (fst p, snd p + k) = drop k (elems_from rs p)"
  by (simp add: elems_from_def add.commute)

lemma wf_alt_starts_from:
  assumes "wf_elems n m es" "i \<in> set (alt_starts_from j es)"
  shows "\<exists>k. i = j + k \<and> wf_elems n 0 (drop k es)"
  using assms
proof (induction j es arbitrary: m rule: alt_starts_from.induct)
  case (2 j e es)
  have ex: "\<exists>k. i = j + k \<and> wf_elems n 0 (drop k (e # es))"
    if "\<exists>k. i = Suc j + k \<and> wf_elems n 0 (drop k es)"
    using that by (metis add_Suc_shift drop_Suc_Cons)
  show ?case
  proof (cases "g_type e = G_ALT")
    case True
    then have wf: "wf_elems n 0 es" using 2(3) by simp
    from True 2(4) consider "i = Suc j" | "i \<in> set (alt_starts_from (Suc j) es)" by auto
    then show ?thesis
    proof cases
      case 1
      with wf show ?thesis by (intro exI[of _ 1]) simp
    next
      case 2
      with \<open>g_type e = G_ALT\<close> "2.IH"(1) wf ex show ?thesis by blast
    qed
  next
    case False
    then have ne: "g_type e \<noteq> G_END" "i \<in> set (alt_starts_from (Suc j) es)" using 2(4) by (auto split: if_splits)
    obtain m' where "wf_elems n m' es" using 2(3) ne False by (auto split: gretype.splits)
    with "2.IH"(2)[OF False ne(1)] ne(2) ex show ?thesis by blast
  qed
qed simp

lemma wf_alt_starts:
  assumes "wf_rules rs" "r < length rs" "i \<in> set (alt_starts (rs ! r))"
  shows "wf_ptr rs (r, i)"
proof -
  have wf: "wf_elems (length rs) 0 (rs ! r)" using assms by (simp add: wf_rules_def list_all_length)
  with wf_alt_starts_from[OF this] assms(2,3) show ?thesis
    by (fastforce simp: alt_starts_def wf_ptr_def elems_from_def)
qed

lemma wf_next:
  assumes "wf_ptr rs p" "g_type (elem_at rs p) = G_RULE_REF"
  shows "wf_ptr rs (next_ptr p)" "g_value (elem_at rs p) < length rs"
  using assms wf_ptr_cons[OF assms(1)] by (auto simp: wf_ptr_def next_ptr_def)

lemma wf_push_if: "wf_ptr rs p \<Longrightarrow> wf_stack rs st \<Longrightarrow> wf_stack rs (push_if rs p st)"
  by (simp add: wf_stack_def push_if_def)

lemma wf_expand:
  assumes "wf_rules rs" "wf_stack rs (p # st)" "g_type (elem_at rs p) = G_RULE_REF" "st' \<in> set (expand rs p st)"
  shows "wf_stack rs st'"
proof -
  have p: "wf_ptr rs p" "wf_stack rs st" using assms(2) by (simp_all add: wf_stack_def)
  note nx = wf_next[OF p(1) assms(3)]
  obtain i where "i \<in> set (alt_starts (rs ! g_value (elem_at rs p)))"
    "st' = push_if rs (g_value (elem_at rs p), i) (push_if rs (next_ptr p) st)"
    using assms(4) by (auto simp: expand_def)
  with wf_alt_starts[OF assms(1) nx(2)] wf_push_if[OF nx(1) p(2)] show ?thesis by (auto intro: wf_push_if)
qed

text \<open>The top of a well-formed stack is a rule reference or a terminal, so the walk never aborts.\<close>

lemma wf_top:
  assumes "wf_stack rs (p # st)"
  shows "g_type (elem_at rs p) = G_RULE_REF \<or> is_terminal (g_type (elem_at rs p))"
proof -
  have "wf_ptr rs p" "\<not> is_end_of_sequence rs p" using assms by (simp_all add: wf_stack_def)
  with wf_ptr_cons[of rs p] show ?thesis
    by (auto simp: wf_ptr_def is_end_of_sequence_def is_end_type_def is_terminal_def is_start_type_def
        is_token_type_def split: gretype.splits)
qed

subsection \<open>Characters\<close>

lemma class_scan_ranges:
  assumes "wf_elems n 1 es" "g_type e \<noteq> G_CHAR_ANY"
  shows "class_scan (e # es) c found
    = (found \<or> in_ranges c (ranges (e # takeWhile is_modifier es)), Suc (length (takeWhile is_modifier es)))"
  using assms
proof (induction "e # es" c found arbitrary: e es rule: class_scan.induct)
  case (1 e u es chr found)
  show ?case
  proof (cases "g_type u = G_CHAR_RNG_UPPER")
    case True
    then have wf: "wf_elems n 2 es" using 1(3) by simp
    have mod: "is_modifier u" using True by (simp add: is_modifier_def)
    show ?thesis
    proof (cases "es \<noteq> [] \<and> g_type (hd es) = G_CHAR_ALT")
      case alt: True
      then obtain a es' where es: "es = a # es'" "g_type a = G_CHAR_ALT" by (cases es) auto
      then have "wf_elems n 1 es'" using wf by simp
      with 1(1)[OF True refl alt es(1)] es True mod show ?thesis
        by (auto simp: in_ranges_def is_modifier_def)
    next
      case False
      have "es \<noteq> []" using wf by auto
      with False wf have "\<not> is_modifier (hd es)" by (cases es) (auto simp: is_modifier_def)
      then have "takeWhile is_modifier es = []" by (cases es) auto
      with True mod False show ?thesis by (auto simp: in_ranges_def)
    qed
  next
    case no_range: False
    show ?thesis
    proof (cases "g_type u = G_CHAR_ALT")
      case True
      then have "wf_elems n 1 es" using 1(3) by simp
      with 1(2)[OF no_range refl True] True 1(4) no_range show ?thesis
        by (auto simp: in_ranges_def is_modifier_def)
    next
      case False
      with no_range 1(4) show ?thesis by (auto simp: in_ranges_def is_modifier_def)
    qed
  qed
qed simp_all

lemma wf_elems_skip:
  assumes "wf_elems n 1 es \<or> wf_elems n 2 es"
  shows "wf_elems n 0 (dropWhile is_modifier es)"
  using assms
proof (induction es)
  case (Cons e es)
  show ?case
  proof (cases "is_modifier e")
    case True
    with Cons have "wf_elems n 1 es \<or> wf_elems n 2 es" by (auto simp: is_modifier_def)
    with Cons.IH True show ?thesis by simp
  next
    case False
    with Cons.prems show ?thesis using wf_elems_mode[of n _ "e # es" 0] by auto
  qed
qed simp

text \<open>A character on top: the code's match decides the symbol and stops at the next one.\<close>

lemma match_char_symbol:
  assumes "wf_ptr rs p" "is_start_type (g_type (elem_at rs p))"
  shows "\<exists>s k. symbols (elems_from rs p) = s # symbols (elems_from rs (fst p, snd p + k))
    \<and> (\<forall>c. match_char rs p c = Some (sym_ok s c, (fst p, snd p + k))) \<and> wf_ptr rs (fst p, snd p + k) \<and> (\<forall>r. s \<noteq> Nonterminal r)"
proof -
  let ?e = "elem_at rs p" and ?es = "elems_from rs (next_ptr p)"
  note cons = wf_ptr_cons[OF assms(1)]
  show ?thesis
  proof (cases "g_type ?e = G_CHAR_ANY")
    case True
    then have wf: "wf_elems (length rs) 0 ?es" "fst p < length rs" using assms(1) cons by (simp_all add: wf_ptr_def)
    have next1: "elems_from rs (fst p, snd p + 1) = ?es" by (simp add: elems_from_def next_ptr_def)
    obtain u es where es: "?es = u # es" "\<not> is_modifier u"
      using wf(1) by (cases ?es) (auto simp: is_modifier_def split: gretype.splits)
    have scan: "class_scan (elems_from rs p) c False = (True, 1)" for c
      using es(2) True unfolding cons es(1) by (auto simp: is_modifier_def)
    show ?thesis
      by (rule exI[of _ Any], rule exI[of _ 1])
        (use wf next1 scan True cons in \<open>simp add: wf_ptr_def match_char_def is_start_type_def is_positive_def\<close>)
  next
    case False
    let ?mods = "takeWhile is_modifier ?es" and ?k = "Suc (length (takeWhile is_modifier ?es))"
    have ty: "g_type ?e = G_CHAR \<or> g_type ?e = G_CHAR_NOT" using assms(2) False by (auto simp: is_start_type_def)
    then have wf: "wf_elems (length rs) 1 ?es" "fst p < length rs" using assms(1) cons by (auto simp: wf_ptr_def)
    have rest: "elems_from rs (fst p, snd p + ?k) = dropWhile is_modifier ?es"
      unfolding elems_from_drop cons by (simp add: dropWhile_eq_drop)
    have scan: "class_scan (elems_from rs p) c False = (in_ranges c (ranges (?e # ?mods)), ?k)" for c
      using class_scan_ranges[OF wf(1) False] unfolding cons by simp
    have sym: "symbols (elems_from rs p) = Class (g_type ?e = G_CHAR) (ranges (?e # ?mods)) # symbols (dropWhile is_modifier ?es)"
      using ty unfolding cons by auto
    show ?thesis
      by (rule exI[of _ "Class (g_type ?e = G_CHAR) (ranges (?e # ?mods))"], rule exI[of _ ?k])
        (use rest scan sym ty wf wf_elems_skip[of "length rs" ?es] assms(2) in
          \<open>auto simp: match_char_def wf_ptr_def is_positive_def simp del: ranges.simps\<close>)
  qed
qed

subsection \<open>Stacks\<close>

fun generates :: "rules \<Rightarrow> stack \<Rightarrow> nat list \<Rightarrow> bool" where
  "generates rs [] w \<longleftrightarrow> w = []"
| "generates rs (p # st) w \<longleftrightarrow> (\<exists>u v. w = u @ v \<and> derives rs (symbols (elems_from rs p)) u \<and> generates rs st v)"

fun generates_in :: "rules \<Rightarrow> nat \<Rightarrow> stack \<Rightarrow> nat list \<Rightarrow> bool" where
  "generates_in rs n [] w \<longleftrightarrow> w = []"
| "generates_in rs n (p # st) w \<longleftrightarrow> (\<exists>k m u v. n = k + m \<and> w = u @ v
     \<and> derives_in rs k (symbols (elems_from rs p)) u \<and> generates_in rs m st v)"

lemma generates_in_iff: "generates rs st w \<longleftrightarrow> (\<exists>n. generates_in rs n st w)"
proof (induction st arbitrary: w)
  case (Cons p st)
  then show ?case by (simp add: derives_in_iff) blast
qed simp

lemma end_symbols: "is_end_of_sequence rs p \<Longrightarrow> symbols (elems_from rs p) = []"
  by (cases "elems_from rs p = []")
    (auto simp: elems_from_cons is_end_of_sequence_def is_end_type_def)

lemma generates_push_if:
  "generates rs (push_if rs p st) w \<longleftrightarrow> generates rs (p # st) w"
  by (auto simp: push_if_def end_symbols)

lemma generates_in_push_if:
  assumes "generates_in rs n (p # st) w"
  shows "\<exists>m \<le> n. generates_in rs m (push_if rs p st) w"
proof (cases "is_end_of_sequence rs p")
  case True
  with assms show ?thesis by (auto simp: push_if_def end_symbols)
next
  case False
  with assms show ?thesis by (intro exI[of _ n]) (simp add: push_if_def)
qed

text \<open>A rule reference on top generates what its expansions generate, in one application less.\<close>

lemma ref_symbols:
  assumes "wf_ptr rs p" "g_type (elem_at rs p) = G_RULE_REF"
  shows "symbols (elems_from rs p) = Nonterminal (g_value (elem_at rs p)) # symbols (elems_from rs (next_ptr p))"
  using assms(2) unfolding wf_ptr_cons[OF assms(1)] by simp

lemma derives_nonterminal:
  "derives rs (Nonterminal r # ss) w
    \<longleftrightarrow> (\<exists>a \<in> set (alternates (rs ! r)). \<exists>u v. w = u @ v \<and> derives rs a u \<and> derives rs ss v)"
  by (auto simp: derives_Cons)

lemma derives_in_nonterminal:
  assumes "derives_in rs n (Nonterminal r # ss) w"
  shows "\<exists>a \<in> set (alternates (rs ! r)). \<exists>k m u v. n = Suc (k + m) \<and> w = u @ v
    \<and> derives_in rs k a u \<and> derives_in rs m ss v"
  using assms unfolding derives_in_Cons by simp blast

lemma alternates_iff: "a \<in> set (alternates (rs ! r)) \<longleftrightarrow> (\<exists>i \<in> set (alt_starts (rs ! r)). a = symbols (elems_from rs (r, i)))"
  by (auto simp: alternates_def elems_from_def)

lemma expand_sound:
  assumes "wf_ptr rs p" "g_type (elem_at rs p) = G_RULE_REF" "st' \<in> set (expand rs p st)" "generates rs st' w"
  shows "generates rs (p # st) w"
proof -
  let ?r = "g_value (elem_at rs p)"
  obtain i where i: "i \<in> set (alt_starts (rs ! ?r))" "st' = push_if rs (?r, i) (push_if rs (next_ptr p) st)"
    using assms(3) by (auto simp: expand_def)
  then obtain u v where uv: "w = u @ v" "derives rs (symbols (elems_from rs (?r, i))) u"
      "generates rs (push_if rs (next_ptr p) st) v"
    using assms(4) by (auto simp: generates_push_if)
  then obtain x y where xy: "v = x @ y" "derives rs (symbols (elems_from rs (next_ptr p))) x" "generates rs st y"
    by (auto simp: generates_push_if)
  have "derives rs (Nonterminal ?r # symbols (elems_from rs (next_ptr p))) (u @ x)"
    using uv(2) xy(2) i(1) by (intro derives_nt) (auto simp: alternates_iff)
  with xy(3) show ?thesis
    unfolding generates.simps ref_symbols[OF assms(1,2)] uv(1) xy(1)
    by (intro exI[of _ "u @ x"] exI[of _ y]) simp
qed

lemma expand_complete:
  assumes "wf_ptr rs p" "g_type (elem_at rs p) = G_RULE_REF" "generates_in rs n (p # st) w"
  shows "\<exists>st' \<in> set (expand rs p st). \<exists>m < n. generates_in rs m st' w"
proof -
  let ?r = "g_value (elem_at rs p)"
  obtain k m u v where kv: "n = k + m" "w = u @ v" "generates_in rs m st v"
      "derives_in rs k (Nonterminal ?r # symbols (elems_from rs (next_ptr p))) u"
    using assms(3) unfolding generates_in.simps ref_symbols[OF assms(1,2)] by blast
  then obtain a k1 k2 u1 u2 where a: "a \<in> set (alternates (rs ! ?r))" "k = Suc (k1 + k2)" "u = u1 @ u2"
      "derives_in rs k1 a u1" "derives_in rs k2 (symbols (elems_from rs (next_ptr p))) u2"
    using derives_in_nonterminal by blast
  then obtain i where i: "i \<in> set (alt_starts (rs ! ?r))" "a = symbols (elems_from rs (?r, i))"
    unfolding alternates_iff by blast
  have "generates_in rs (k2 + m) (next_ptr p # st) (u2 @ v)" using a(5) kv(3) by auto
  then obtain m' where m': "m' \<le> k2 + m" "generates_in rs m' (push_if rs (next_ptr p) st) (u2 @ v)"
    using generates_in_push_if by blast
  then have "generates_in rs (k1 + m') ((?r, i) # push_if rs (next_ptr p) st) w"
    using a(3,4) i(2) kv(2) by auto
  then obtain m'' where "m'' \<le> k1 + m'" "generates_in rs m'' (push_if rs (?r, i) (push_if rs (next_ptr p) st)) w"
    using generates_in_push_if by blast
  moreover have "k1 + m' < n" using m'(1) a(2) kv(1) by simp
  ultimately show ?thesis using i(1) by (auto simp: expand_def intro!: bexI[of _ i] exI[of _ m''])
qed

subsection \<open>The stacks below a stack\<close>

definition final :: "rules \<Rightarrow> stack \<Rightarrow> bool" where
  "final rs st \<longleftrightarrow> (case st of [] \<Rightarrow> True | p # _ \<Rightarrow> is_terminal (g_type (elem_at rs p)))"

inductive reaches :: "rules \<Rightarrow> stack \<Rightarrow> stack \<Rightarrow> bool" for rs where
  reaches_refl: "reaches rs st st"
| reaches_step: "g_type (elem_at rs p) = G_RULE_REF \<Longrightarrow> st' \<in> set (expand rs p st) \<Longrightarrow> reaches rs st' f
    \<Longrightarrow> reaches rs (p # st) f"

lemma reaches_wf: "reaches rs st f \<Longrightarrow> wf_rules rs \<Longrightarrow> wf_stack rs st \<Longrightarrow> wf_stack rs f"
  by (induction rule: reaches.induct) (auto intro: wf_expand)

lemma reaches_generates:
  "reaches rs st f \<Longrightarrow> wf_rules rs \<Longrightarrow> wf_stack rs st \<Longrightarrow> generates rs f w \<Longrightarrow> generates rs st w"
proof (induction rule: reaches.induct)
  case (reaches_step p st' st f)
  then have "wf_stack rs st'" by (meson wf_expand)
  with reaches_step have "generates rs st' w" by blast
  moreover have "wf_ptr rs p" using reaches_step.prems(2) by (simp add: wf_stack_def)
  ultimately show ?case using expand_sound reaches_step.hyps(1,2) by blast
qed

lemma generates_reaches:
  assumes "generates_in rs n st w" "wf_rules rs" "wf_stack rs st"
  shows "\<exists>f. reaches rs st f \<and> final rs f \<and> generates rs f w"
  using assms(1,3)
proof (induction n arbitrary: st rule: less_induct)
  case (less n)
  show ?case
  proof (cases st)
    case Nil
    then show ?thesis using less.prems by (intro exI[of _ "[]"]) (auto simp: final_def intro: reaches_refl)
  next
    case (Cons p st0)
    show ?thesis
    proof (cases "g_type (elem_at rs p) = G_RULE_REF")
      case True
      have "wf_ptr rs p" using less.prems(2) Cons by (simp add: wf_stack_def)
      from expand_complete[OF this True] less.prems(1) Cons obtain st' m where
        st': "st' \<in> set (expand rs p st0)" "m < n" "generates_in rs m st' w" by blast
      have "wf_stack rs st'" using wf_expand[OF assms(2) _ True st'(1)] less.prems(2) Cons by simp
      from less.IH[OF st'(2,3) this] Cons True st'(1) show ?thesis by (auto intro: reaches_step)
    next
      case False
      with wf_top[of rs p st0] less.prems(2) Cons have "final rs st" by (simp add: final_def)
      then show ?thesis using less.prems(1) generates_in_iff by (blast intro: reaches_refl)
    qed
  qed
qed

text \<open>The words of a stack are those of the stacks with a terminal on top below it.\<close>

lemma generates_closure:
  assumes "wf_rules rs" "wf_stack rs st"
  shows "generates rs st w \<longleftrightarrow> (\<exists>f. reaches rs st f \<and> final rs f \<and> generates rs f w)"
  using assms generates_reaches reaches_generates generates_in_iff by metis

end
