(* ===== verification/GramAccept.thy ===== *)
theory GramAccept
  imports GramSem
begin

section \<open>Advancing and accepting\<close>

text \<open>
  What the worklist of \<open>advance_stack\<close> computes: when it returns, the new stacks are exactly those
  reachable by expansions with a terminal on top (or empty), each once.  Accepting a code point
  keeps the words of the grammar: the stacks after \<open>c\<close> generate \<open>w\<close> exactly when those before it
  generate \<open>c # w\<close>.
\<close>

definition succs :: "rules \<Rightarrow> stack \<Rightarrow> stack list" where
  "succs rs s = (case s of [] \<Rightarrow> [] | p # st \<Rightarrow> if g_type (elem_at rs p) = G_RULE_REF then expand rs p st else [])"

definition explored :: "rules \<Rightarrow> stack list \<Rightarrow> stack set \<Rightarrow> stack list \<Rightarrow> bool" where
  "explored rs todo seen out \<longleftrightarrow>
     (\<forall>s \<in> seen. (final rs s \<longrightarrow> s \<in> set out) \<and> set (succs rs s) \<subseteq> seen \<union> set todo)"

lemma succs_ref: "g_type (elem_at rs p) = G_RULE_REF \<Longrightarrow> succs rs (p # st) = expand rs p st"
  by (simp add: succs_def)

lemma set_add_new [simp]: "set (add_new x xs) = insert x (set xs)"
  by (auto simp: add_new_def)

lemma distinct_add_new [simp]: "distinct (add_new x xs) = distinct xs"
  by (simp add: add_new_def)

lemma explored_reaches:
  assumes "reaches rs s f" "explored rs [] seen out" "s \<in> seen" "final rs f"
  shows "f \<in> set out"
  using assms
proof (induction rule: reaches.induct)
  case (reaches_step p st' st f)
  have "set (succs rs (p # st)) \<subseteq> seen \<union> set []"
    using bspec[OF reaches_step.prems(1)[unfolded explored_def] reaches_step.prems(2)] by (rule conjunct2)
  then have "st' \<in> seen" using succs_ref[of rs p st] reaches_step.hyps(1,2) by auto
  with reaches_step show ?case by blast
qed (simp add: explored_def)

lemma succs_final: "final rs s \<Longrightarrow> succs rs s = []"
  by (auto simp: succs_def final_def is_terminal_def is_start_type_def is_token_type_def split: list.splits)

lemma not_terminal_ref [simp]: "\<not> is_terminal G_RULE_REF"
  by (simp add: is_terminal_def is_start_type_def is_token_type_def)

lemma reaches_final: "reaches rs s f \<Longrightarrow> final rs s \<Longrightarrow> f = s"
  by (induction rule: reaches.induct) (auto simp: final_def)

lemma advance_loop_exact:
  assumes "advance_loop rs todo seen out = Some y"
    and "wf_rules rs" "\<forall>s \<in> set todo. wf_stack rs s" "explored rs todo seen out"
  shows "\<exists>out'. y = Inr out' \<and> set out \<subseteq> set out' \<and> (distinct out \<longrightarrow> distinct out')
    \<and> (\<forall>f \<in> set out'. f \<in> set out \<or> (\<exists>s \<in> set todo. reaches rs s f \<and> final rs f))
    \<and> (\<forall>s \<in> seen \<union> set todo. \<forall>f. reaches rs s f \<and> final rs f \<longrightarrow> f \<in> set out')"
proof -
  let ?P = "\<lambda>rs todo seen out y. wf_rules rs \<longrightarrow> (\<forall>s \<in> set todo. wf_stack rs s) \<longrightarrow> explored rs todo seen out \<longrightarrow>
    (\<exists>out'. y = Inr out' \<and> set out \<subseteq> set out' \<and> (distinct out \<longrightarrow> distinct out')
    \<and> (\<forall>f \<in> set out'. f \<in> set out \<or> (\<exists>s \<in> set todo. reaches rs s f \<and> final rs f))
    \<and> (\<forall>s \<in> seen \<union> set todo. \<forall>f. reaches rs s f \<and> final rs f \<longrightarrow> f \<in> set out'))"
  have "?P rs todo seen out y"
  proof (rule advance_loop.raw_induct[where P = ?P, OF _ assms(1)], intro impI)
    fix loop rs todo seen out y
    assume IH: "\<And>rs todo seen out y. loop rs todo seen out = Some y \<Longrightarrow> ?P rs todo seen out y"
      and body: "(case todo of [] \<Rightarrow> Some (Inr out)
        | st # todo' \<Rightarrow> if st \<in> seen then loop rs todo' seen out
          else (case st of [] \<Rightarrow> loop rs todo' (insert st seen) (add_new st out)
          | p # st' \<Rightarrow> if g_type (elem_at rs p) = G_RULE_REF
              then loop rs (rev (expand rs p st') @ todo') (insert st seen) out
              else if is_terminal (g_type (elem_at rs p))
              then loop rs todo' (insert st seen) (add_new st out) else Some (Inl GAbort))) = Some y"
      and wf: "wf_rules rs" and wt: "\<forall>s \<in> set todo. wf_stack rs s" and ex: "explored rs todo seen out"
    show "\<exists>out'. y = Inr out' \<and> set out \<subseteq> set out' \<and> (distinct out \<longrightarrow> distinct out')
      \<and> (\<forall>f \<in> set out'. f \<in> set out \<or> (\<exists>s \<in> set todo. reaches rs s f \<and> final rs f))
      \<and> (\<forall>s \<in> seen \<union> set todo. \<forall>f. reaches rs s f \<and> final rs f \<longrightarrow> f \<in> set out')"
    proof (cases todo)
      case Nil
      with body ex show ?thesis by (auto intro: explored_reaches)
    next
      case (Cons st todo')
      show ?thesis
      proof (cases "st \<in> seen")
        case True
        then have "explored rs todo' seen out" using ex Cons by (auto simp: explored_def)
        moreover have "loop rs todo' seen out = Some y" using body Cons True by simp
        ultimately have "\<exists>out'. y = Inr out' \<and> set out \<subseteq> set out' \<and> (distinct out \<longrightarrow> distinct out')
            \<and> (\<forall>f \<in> set out'. f \<in> set out \<or> (\<exists>s \<in> set todo'. reaches rs s f \<and> final rs f))
            \<and> (\<forall>s \<in> seen \<union> set todo'. \<forall>f. reaches rs s f \<and> final rs f \<longrightarrow> f \<in> set out')"
          using IH[of rs todo' seen out y] wf wt Cons by simp
        then obtain out' where "y = Inr out'" "set out \<subseteq> set out'" "distinct out \<longrightarrow> distinct out'"
          "\<forall>f \<in> set out'. f \<in> set out \<or> (\<exists>s \<in> set todo'. reaches rs s f \<and> final rs f)"
          "\<forall>s \<in> seen \<union> set todo'. \<forall>f. reaches rs s f \<and> final rs f \<longrightarrow> f \<in> set out'" by (elim exE conjE)
        moreover have "seen \<union> set todo = seen \<union> set todo'" using True Cons by auto
        ultimately show ?thesis using Cons by (intro exI[of _ out']) auto
      next
        case new: False
        show ?thesis
        proof (cases "final rs st")
          case True
          then have call: "loop rs todo' (insert st seen) (add_new st out) = Some y"
            using body Cons new by (auto simp: final_def split: list.splits if_splits)
          have "explored rs todo' (insert st seen) (add_new st out)"
            using ex Cons True by (auto simp: explored_def succs_final)
          from IH[OF call, rule_format, OF wf _ this] wt Cons obtain out' where
            "y = Inr out'" "set (add_new st out) \<subseteq> set out'" "distinct out \<longrightarrow> distinct out'"
            "\<forall>f \<in> set out'. f \<in> set (add_new st out) \<or> (\<exists>s \<in> set todo'. reaches rs s f \<and> final rs f)"
            "\<forall>s \<in> insert st seen \<union> set todo'. \<forall>f. reaches rs s f \<and> final rs f \<longrightarrow> f \<in> set out'" by auto
          then show ?thesis using Cons True by (auto intro: reaches_refl)
        next
          case False
          then obtain p st' where st: "st = p # st'" by (cases st) (auto simp: final_def)
          have ref: "g_type (elem_at rs p) = G_RULE_REF"
            using wf_top[of rs p st'] wt Cons st False by (auto simp: final_def)
          then have call: "loop rs (rev (expand rs p st') @ todo') (insert st seen) out = Some y"
            using body Cons new st by auto
          have wt': "\<forall>s \<in> set (rev (expand rs p st') @ todo'). wf_stack rs s"
            using wt Cons st wf_expand[OF wf _ ref] by auto
          have "explored rs (rev (expand rs p st') @ todo') (insert st seen) out"
            using ex Cons st False succs_ref[OF ref, of st'] by (auto simp: explored_def)
          from IH[OF call, rule_format, OF wf _ this] wt' obtain out' where o:
            "y = Inr out'" "set out \<subseteq> set out'" "distinct out \<longrightarrow> distinct out'"
            "\<forall>f \<in> set out'. f \<in> set out \<or> (\<exists>s \<in> set (rev (expand rs p st') @ todo'). reaches rs s f \<and> final rs f)"
            "\<forall>s \<in> insert st seen \<union> set (rev (expand rs p st') @ todo'). \<forall>f. reaches rs s f \<and> final rs f \<longrightarrow> f \<in> set out'"
            by auto
          then show ?thesis using Cons st by (auto intro: reaches_step[OF ref])
        qed
      qed
    qed
  qed
  with assms(2-4) show ?thesis by blast
qed

lemma advance_stack_exact:
  assumes "wf_rules rs" "wf_stack rs st" "advance_stack rs st out = Some y"
  shows "\<exists>out'. y = Inr out' \<and> set out' = set out \<union> {f. reaches rs st f \<and> final rs f} \<and> (distinct out \<longrightarrow> distinct out')"
proof -
  have "explored rs [st] {} out" by (simp add: explored_def)
  from advance_loop_exact[OF assms(3)[unfolded advance_stack_def] assms(1) _ this] assms(2)
  obtain out' where "y = Inr out'" "set out \<subseteq> set out'" "distinct out \<longrightarrow> distinct out'"
    "\<forall>f \<in> set out'. f \<in> set out \<or> reaches rs st f \<and> final rs f"
    "\<forall>f. reaches rs st f \<and> final rs f \<longrightarrow> f \<in> set out'" by auto
  then show ?thesis by blast
qed

subsection \<open>One code point\<close>

definition ready :: "rules \<Rightarrow> stack list \<Rightarrow> bool" where
  "ready rs stacks \<longleftrightarrow> (\<forall>s \<in> set stacks. wf_stack rs s \<and> final rs s)"

text \<open>The stack after a code point, before it is advanced.\<close>

definition after_chr :: "rules \<Rightarrow> stack \<Rightarrow> nat \<Rightarrow> stack option" where
  "after_chr rs st c = (case st of [] \<Rightarrow> None | p # st' \<Rightarrow>
     if is_token_type (g_type (elem_at rs p)) then None
     else case match_char rs p c of Some (True, q) \<Rightarrow> Some (push_if rs q st') | _ \<Rightarrow> None)"

lemma chr_top:
  assumes "wf_stack rs (p # st)" "final rs (p # st)" "\<not> is_token_type (g_type (elem_at rs p))"
  obtains s q where "symbols (elems_from rs p) = s # symbols (elems_from rs q)" "\<forall>r. s \<noteq> Nonterminal r"
    "\<And>c. match_char rs p c = Some (sym_ok s c, q)" "wf_stack rs (push_if rs q st)"
proof -
  have p: "wf_ptr rs p" "is_start_type (g_type (elem_at rs p))" "wf_stack rs st"
    using assms by (auto simp: wf_stack_def final_def is_terminal_def)
  from match_char_symbol[OF p(1,2)] wf_push_if[OF _ p(3)] that show ?thesis by blast
qed

lemma token_symbols:
  assumes "wf_stack rs (p # st)" "is_token_type (g_type (elem_at rs p))"
  shows "\<exists>b t ss. symbols (elems_from rs p) = Tok b t # ss"
proof -
  have "wf_ptr rs p" using assms(1) by (simp add: wf_stack_def)
  from assms(2) show ?thesis unfolding wf_ptr_cons[OF \<open>wf_ptr rs p\<close>] by (auto simp: is_token_type_def)
qed

lemma derives_chr_iff:
  "\<forall>r. s \<noteq> Nonterminal r \<Longrightarrow> derives rs (s # ss) u \<longleftrightarrow> (\<exists>c u'. u = c # u' \<and> sym_ok s c \<and> derives rs ss u')"
  by (auto simp: derives_Cons)

lemma generates_chr:
  assumes "symbols (elems_from rs p) = s # symbols (elems_from rs q)" "\<forall>r. s \<noteq> Nonterminal r"
  shows "generates rs (p # st) (c # w) \<longleftrightarrow> sym_ok s c \<and> generates rs (q # st) w" "\<not> generates rs (p # st) []"
  by (auto simp: assms(1) derives_chr_iff[OF assms(2)] Cons_eq_append_conv)

lemma after_chr_generates:
  assumes "wf_stack rs st" "final rs st"
  shows "generates rs st (c # w) \<longleftrightarrow> (\<exists>st'. after_chr rs st c = Some st' \<and> generates rs st' w)"
    and "after_chr rs st c = Some st' \<Longrightarrow> wf_stack rs st'"
    and "generates rs st [] \<longleftrightarrow> st = []"
proof -
  show "generates rs st (c # w) \<longleftrightarrow> (\<exists>st'. after_chr rs st c = Some st' \<and> generates rs st' w)"
  proof (cases st)
    case (Cons p st0)
    show ?thesis
    proof (cases "is_token_type (g_type (elem_at rs p))")
      case True
      with token_symbols[of rs p st0] assms Cons show ?thesis by (auto simp: after_chr_def derives_Cons)
    next
      case False
      from chr_top[OF assms[unfolded Cons] False] obtain s q where
        s: "symbols (elems_from rs p) = s # symbols (elems_from rs q)" "\<forall>r. s \<noteq> Nonterminal r"
          "\<And>c. match_char rs p c = Some (sym_ok s c, q)" by metis
      from generates_chr(1)[OF s(1,2)] s(3)[of c] False show ?thesis
        unfolding Cons by (auto simp: after_chr_def generates_push_if simp del: generates.simps split: bool.splits)
    qed
  qed (simp add: after_chr_def)
  show "after_chr rs st c = Some st' \<Longrightarrow> wf_stack rs st'"
  proof -
    assume a: "after_chr rs st c = Some st'"
    then obtain p st0 where st: "st = p # st0" and tok: "\<not> is_token_type (g_type (elem_at rs p))"
      by (auto simp: after_chr_def split: list.splits if_splits)
    from chr_top[OF assms[unfolded st] tok] obtain s q where "wf_stack rs (push_if rs q st0)"
      "\<And>c. match_char rs p c = Some (sym_ok s c, q)" by metis
    with a st tok show ?thesis by (auto simp: after_chr_def split: bool.splits)
  qed
  show "generates rs st [] \<longleftrightarrow> st = []"
  proof (cases st)
    case (Cons p st0)
    show ?thesis
    proof (cases "is_token_type (g_type (elem_at rs p))")
      case True
      with token_symbols[of rs p st0] assms Cons show ?thesis by (auto simp: derives_Cons)
    next
      case False
      from chr_top[OF assms[unfolded Cons] False] obtain s q where
        "symbols (elems_from rs p) = s # symbols (elems_from rs q)" "\<forall>r. s \<noteq> Nonterminal r" by metis
      from generates_chr(2)[OF this] Cons show ?thesis by simp
    qed
  qed simp
qed

lemma accept_chr_cases:
  assumes "wf_stack rs st" "final rs st"
  shows "accept_chr rs st c out = (case after_chr rs st c of None \<Rightarrow> ret out | Some st' \<Rightarrow> advance_stack rs st' out)"
proof (cases st)
  case (Cons p st0)
  show ?thesis
  proof (cases "is_token_type (g_type (elem_at rs p))")
    case False
    from chr_top[OF assms[unfolded Cons] False] obtain s q where "\<And>c. match_char rs p c = Some (sym_ok s c, q)" by metis
    with Cons False show ?thesis by (simp add: accept_chr_def after_chr_def split: bool.splits)
  qed (use Cons in \<open>simp add: accept_chr_def after_chr_def\<close>)
qed (simp add: accept_chr_def after_chr_def)

text \<open>The stacks below the one after the code point.\<close>

definition chr_stacks :: "rules \<Rightarrow> nat \<Rightarrow> stack \<Rightarrow> stack set" where
  "chr_stacks rs c st = {f. \<exists>st'. after_chr rs st c = Some st' \<and> reaches rs st' f \<and> final rs f}"

lemma accept_chr_exact:
  assumes "wf_rules rs" "wf_stack rs st" "final rs st" "accept_chr rs st c out = Some y"
  shows "\<exists>out'. y = Inr out' \<and> set out' = set out \<union> chr_stacks rs c st \<and> (distinct out \<longrightarrow> distinct out')"
proof (cases "after_chr rs st c")
  case None
  with assms accept_chr_cases[OF assms(2,3)] show ?thesis by (auto simp: chr_stacks_def)
next
  case (Some st')
  then have "advance_stack rs st' out = Some y" "wf_stack rs st'"
    using assms accept_chr_cases[OF assms(2,3)] after_chr_generates(2)[OF assms(2,3)] by auto
  from advance_stack_exact[OF assms(1) this(2,1)] Some show ?thesis by (simp add: chr_stacks_def)
qed

lemma accept_fold_exact:
  assumes "wf_rules rs" "ready rs stacks" "run_fold (\<lambda>st out. accept_chr rs st c out) stacks out = Some y"
  shows "\<exists>out'. y = Inr out' \<and> set out' = set out \<union> (\<Union>st \<in> set stacks. chr_stacks rs c st)
    \<and> (distinct out \<longrightarrow> distinct out')"
  using assms(2,3)
proof (induction stacks arbitrary: out)
  case (Cons st stacks)
  then have st: "wf_stack rs st" "final rs st" "ready rs stacks" by (simp_all add: ready_def)
  obtain y1 where y1: "accept_chr rs st c out = Some y1"
    using Cons.prems(2) by (cases "accept_chr rs st c out") (auto simp: run_bind_def)
  from accept_chr_exact[OF assms(1) st(1,2) this] obtain out1 where
    o1: "y1 = Inr out1" "set out1 = set out \<union> chr_stacks rs c st" "distinct out \<longrightarrow> distinct out1" by blast
  have "run_fold (\<lambda>st out. accept_chr rs st c out) stacks out1 = Some y"
    using Cons.prems(2) y1 o1(1) by (simp add: run_bind_def)
  from Cons.IH[OF st(3) this] o1(2,3) show ?case by auto
qed auto

lemma accept_stacks_exact:
  assumes "wf_rules rs" "ready rs stacks" "accept_stacks rs c stacks = Some y"
  shows "\<exists>out'. y = Inr out' \<and> set out' = (\<Union>st \<in> set stacks. chr_stacks rs c st) \<and> distinct out' \<and> ready rs out'"
proof -
  from accept_fold_exact[OF assms(1,2) assms(3)[unfolded accept_stacks_def]] obtain out' where
    out: "y = Inr out'" "set out' = (\<Union>st \<in> set stacks. chr_stacks rs c st)" "distinct out'" by auto
  have "wf_stack rs f \<and> final rs f" if "f \<in> set out'" for f
  proof -
    from that out(2) obtain st st' where "st \<in> set stacks" "after_chr rs st c = Some st'" "reaches rs st' f" "final rs f"
      by (auto simp: chr_stacks_def)
    then show ?thesis
      using assms(1,2) after_chr_generates(2)[of rs st c st'] reaches_wf[of rs st' f] by (auto simp: ready_def)
  qed
  with out show ?thesis by (auto simp: ready_def)
qed

text \<open>The words a set of stacks generates.\<close>

definition language :: "rules \<Rightarrow> stack set \<Rightarrow> nat list \<Rightarrow> bool" where
  "language rs S w \<longleftrightarrow> (\<exists>st \<in> S. generates rs st w)"

lemma chr_stacks_language:
  assumes "wf_rules rs" "ready rs stacks"
  shows "language rs (\<Union>st \<in> set stacks. chr_stacks rs c st) w \<longleftrightarrow> language rs (set stacks) (c # w)"
proof -
  have "generates rs st (c # w) \<longleftrightarrow> (\<exists>f \<in> chr_stacks rs c st. generates rs f w)" if "st \<in> set stacks" for st
  proof -
    have st: "wf_stack rs st" "final rs st" using assms(2) that by (simp_all add: ready_def)
    note a = after_chr_generates[OF st]
    show ?thesis
      unfolding a(1) using generates_closure[OF assms(1) a(2)] by (auto simp: chr_stacks_def)
  qed
  then show ?thesis by (auto simp: language_def)
qed

lemma accept_all_language:
  assumes "wf_rules rs" "ready rs stacks" "accept_all rs cs stacks = Some y"
  shows "\<exists>out. y = Inr out \<and> ready rs out \<and> (\<forall>w. language rs (set out) w \<longleftrightarrow> language rs (set stacks) (cs @ w))"
  using assms(2,3)
proof (induction cs arbitrary: stacks)
  case (Cons c cs)
  obtain y1 where y1: "accept_stacks rs c stacks = Some y1"
    using Cons.prems(2) by (cases "accept_stacks rs c stacks") (auto simp: run_bind_def)
  from accept_stacks_exact[OF assms(1) Cons.prems(1) this] obtain out1 where
    o1: "y1 = Inr out1" "set out1 = (\<Union>st \<in> set stacks. chr_stacks rs c st)" "ready rs out1" by blast
  have "accept_all rs cs out1 = Some y" using Cons.prems(2) y1 o1(1) by (simp add: run_bind_def)
  from Cons.IH[OF o1(3) this] show ?case
    using chr_stacks_language[OF assms(1) Cons.prems(1)] o1(2) by auto
qed auto

lemma language_Nil: "ready rs stacks \<Longrightarrow> language rs (set stacks) [] \<longleftrightarrow> [] \<in> set stacks"
  using after_chr_generates(3) by (auto simp: language_def ready_def)

subsection \<open>The initial stacks\<close>

lemma initial_fold_exact:
  assumes "wf_rules rs" "\<forall>i \<in> set is. wf_ptr rs (root, i)"
    and "run_fold (\<lambda>i out. advance_stack rs (push_if rs (root, i) []) out) is out = Some y"
  shows "\<exists>out'. y = Inr out' \<and> (distinct out \<longrightarrow> distinct out')
    \<and> set out' = set out \<union> {f. final rs f \<and> (\<exists>i \<in> set is. reaches rs (push_if rs (root, i) []) f)}"
  using assms(2,3)
proof (induction "is" arbitrary: out)
  case (Cons i "is")
  have wf: "wf_stack rs (push_if rs (root, i) [])"
    using Cons.prems(1) by (intro wf_push_if) (simp_all add: wf_stack_def)
  obtain y1 where y1: "advance_stack rs (push_if rs (root, i) []) out = Some y1"
    using Cons.prems(2) by (cases "advance_stack rs (push_if rs (root, i) []) out") (auto simp: run_bind_def)
  from advance_stack_exact[OF assms(1) wf this] obtain out1 where
    o1: "y1 = Inr out1" "set out1 = set out \<union> {f. reaches rs (push_if rs (root, i) []) f \<and> final rs f}"
      "distinct out \<longrightarrow> distinct out1" by blast
  have "run_fold (\<lambda>i out. advance_stack rs (push_if rs (root, i) []) out) is out1 = Some y"
    using Cons.prems(2) y1 o1(1) by (simp add: run_bind_def)
  from Cons.IH[OF _ this] Cons.prems(1) obtain out' where "y = Inr out'" "distinct out1 \<longrightarrow> distinct out'"
    "set out' = set out1 \<union> {f. final rs f \<and> (\<exists>i \<in> set is. reaches rs (push_if rs (root, i) []) f)}" by auto
  with o1(2,3) show ?case by auto
qed auto

text \<open>The initial stacks generate the words of the root rule.\<close>

lemma initial_stacks_language:
  assumes "wf_rules rs" "root < length rs" "initial_stacks rs root = Some y"
  shows "\<exists>stacks. y = Inr stacks \<and> ready rs stacks \<and> (\<forall>w. language rs (set stacks) w \<longleftrightarrow> derives rs [Nonterminal root] w)"
proof -
  let ?start = "\<lambda>i. push_if rs (root, i) []"
  have wf: "\<forall>i \<in> set (alt_starts (rs ! root)). wf_ptr rs (root, i)" using wf_alt_starts assms(1,2) by blast
  then have wfs: "wf_stack rs (?start i)" if "i \<in> set (alt_starts (rs ! root))" for i
    using that by (intro wf_push_if) (simp_all add: wf_stack_def)
  from initial_fold_exact[OF assms(1) wf assms(3)[unfolded initial_stacks_def]] obtain stacks where
    y: "y = Inr stacks" and st: "set stacks = {f. final rs f \<and> (\<exists>i \<in> set (alt_starts (rs ! root)). reaches rs (?start i) f)}"
    by auto
  have "ready rs stacks"
    unfolding ready_def st using reaches_wf assms(1) wfs by auto
  moreover have "language rs (set stacks) w \<longleftrightarrow> derives rs [Nonterminal root] w" for w
  proof -
    have "language rs (set stacks) w \<longleftrightarrow> (\<exists>i \<in> set (alt_starts (rs ! root)). generates rs (?start i) w)"
      unfolding language_def st using generates_closure[OF assms(1) wfs] by auto
    also have "\<dots> \<longleftrightarrow> (\<exists>i \<in> set (alt_starts (rs ! root)). derives rs (symbols (elems_from rs (root, i))) w)"
      by (simp add: generates_push_if)
    also have "\<dots> \<longleftrightarrow> derives rs [Nonterminal root] w"
      unfolding derives_nonterminal by (auto simp: alternates_iff Bex_def)
    finally show ?thesis .
  qed
  ultimately show ?thesis using y by blast
qed

end
