(* ===== verification/GramLeft.thy ===== *)
theory GramLeft
  imports GramAccept
begin

section \<open>Left recursion and termination\<close>

text \<open>
  \<open>left_recursive\<close> decides whether the leftmost-reference relation it follows has a cycle.  That
  relation skips a rule only when one of its alternates is empty as written.  A grammar in which no
  rule is left recursive, counting every rule that derives the empty word as one that may be skipped
  (\<open>left_free\<close>), passes the check, and makes \<open>advance_stack\<close> return on every well-formed stack.  Where
  every rule that derives the empty word shows an empty alternate (\<open>lit_exact\<close>) the check decides
  \<open>left_free\<close>.
\<close>

definition lit_empty :: "rules \<Rightarrow> nat \<Rightarrow> bool" where
  "lit_empty rs r \<longleftrightarrow> has_empty_alt True (rs ! r)"

fun left_refs :: "(nat \<Rightarrow> bool) \<Rightarrow> rule \<Rightarrow> bool \<Rightarrow> nat list" where
  "left_refs emp [] go = []"
| "left_refs emp (e # es) go =
     (if g_type e = G_RULE_REF \<and> go then g_value e # left_refs emp es (emp (g_value e))
      else left_refs emp es (is_end_type (g_type e)))"

definition lefts :: "rules \<Rightarrow> nat \<Rightarrow> nat list" where
  "lefts rs r = left_refs (lit_empty rs) (rs ! r) True"

definition left_edges :: "rules \<Rightarrow> (nat \<times> nat) set" where
  "left_edges rs = {(r, v). r < length rs \<and> v \<in> set (lefts rs r)}"

inductive safe :: "rules \<Rightarrow> nat \<Rightarrow> bool" for rs where
  safeI: "(\<And>v. v \<in> set (lefts rs r) \<Longrightarrow> safe rs v) \<Longrightarrow> safe rs r"

subsection \<open>What the check computes\<close>

definition lr_ok :: "rules \<Rightarrow> lr_state \<Rightarrow> bool" where
  "lr_ok rs s \<longleftrightarrow> length (lr_visited s) = length rs \<and> length (lr_in_progress s) = length rs
     \<and> length (lr_may_be_empty s) = length rs
     \<and> (\<forall>r < length rs. lr_may_be_empty s ! r \<longrightarrow> lit_empty rs r) \<and> (\<forall>r < length rs. lr_visited s ! r \<longrightarrow> safe rs r)"

text \<open>What one call establishes.\<close>

definition lr_call :: "rules \<Rightarrow> (nat \<Rightarrow> lr_state \<Rightarrow> (bool \<times> lr_state) option) \<Rightarrow> bool" where
  "lr_call rs f \<longleftrightarrow> (\<forall>v s s'. v < length rs \<longrightarrow> lr_ok rs s \<longrightarrow> f v s = Some (False, s') \<longrightarrow>
     lr_ok rs s' \<and> lr_in_progress s' = lr_in_progress s \<and> lr_may_be_empty s' ! v = lit_empty rs v \<and> safe rs v
     \<and> (\<forall>r < length rs. lr_may_be_empty s ! r \<longrightarrow> lr_may_be_empty s' ! r))"

lemma lr_scan_false:
  assumes "lr_call rs f" "lr_ok rs s" "lr_scan f es go s = Some (False, s')"
    and "\<forall>v \<in> set (left_refs (lit_empty rs) es go). v < length rs"
  shows "lr_ok rs s' \<and> lr_in_progress s' = lr_in_progress s
    \<and> (\<forall>v \<in> set (left_refs (lit_empty rs) es go). safe rs v)
    \<and> (\<forall>r < length rs. lr_may_be_empty s ! r \<longrightarrow> lr_may_be_empty s' ! r)"
  using assms(2-4)
proof (induction es arbitrary: go s)
  case (Cons e es)
  show ?case
  proof (cases "g_type e = G_RULE_REF \<and> go")
    case True
    then obtain s1 where s1: "f (g_value e) s = Some (False, s1)"
        "lr_scan f es (lr_may_be_empty s1 ! g_value e) s1 = Some (False, s')"
      using Cons.prems(2) by (auto split: option.splits prod.splits bool.splits)
    have v: "g_value e < length rs" using Cons.prems(3) True by simp
    with assms(1) s1(1) Cons.prems(1) have c: "lr_ok rs s1" "lr_in_progress s1 = lr_in_progress s"
      "lr_may_be_empty s1 ! g_value e = lit_empty rs (g_value e)" "safe rs (g_value e)"
      "\<forall>r < length rs. lr_may_be_empty s ! r \<longrightarrow> lr_may_be_empty s1 ! r"
      unfolding lr_call_def by blast+
    from Cons.IH[OF c(1) s1(2)] Cons.prems(3) True c show ?thesis by simp
  next
    case False
    then show ?thesis using Cons.IH[OF Cons.prems(1)] Cons.prems(2,3) by (auto split: if_splits)
  qed
qed simp

lemma lefts_bound:
  assumes "wf_rules rs" "r < length rs" "v \<in> set (lefts rs r)"
  shows "v < length rs"
proof -
  have "v \<in> set (left_refs emp es go) \<Longrightarrow> wf_elems n m es \<Longrightarrow> v < n" for emp es go n m
    by (induction emp es go arbitrary: m rule: left_refs.induct) (auto split: if_splits gretype.splits)
  moreover have "wf_elems (length rs) 0 (rs ! r)" using assms(1,2) by (simp add: wf_rules_def list_all_length)
  ultimately show ?thesis using assms(3) unfolding lefts_def by blast
qed

lemma lr_enter_sel [simp]:
  "lr_in_progress (lr_enter rs r s) = (lr_in_progress s)[r := True]" "lr_visited (lr_enter rs r s) = lr_visited s"
  "lr_in_progress (lr_leave r s) = (lr_in_progress s)[r := False]" "lr_visited (lr_leave r s) = (lr_visited s)[r := True]"
  "lr_may_be_empty (lr_leave r s) = lr_may_be_empty s"
  by (simp_all add: lr_enter_def lr_leave_def)

lemma lr_enter_ok:
  assumes "lr_ok rs s" "r < length rs"
  shows "lr_ok rs (lr_enter rs r s)" "lr_may_be_empty (lr_enter rs r s) ! r = lit_empty rs r"
    and "q < length rs \<Longrightarrow> lr_may_be_empty s ! q \<Longrightarrow> lr_may_be_empty (lr_enter rs r s) ! q"
proof -
  have e: "lr_may_be_empty (lr_enter rs r s) = (if lit_empty rs r then (lr_may_be_empty s)[r := True] else lr_may_be_empty s)"
    by (simp add: lr_enter_def lit_empty_def)
  show "lr_ok rs (lr_enter rs r s)"
    using assms unfolding lr_ok_def e by (auto simp: nth_list_update)
  show "lr_may_be_empty (lr_enter rs r s) ! r = lit_empty rs r" "q < length rs \<Longrightarrow> lr_may_be_empty s ! q \<Longrightarrow> lr_may_be_empty (lr_enter rs r s) ! q"
    using assms unfolding lr_ok_def e by (auto simp: nth_list_update)
qed

lemma lr_leave_ok: "lr_ok rs s \<Longrightarrow> r < length rs \<Longrightarrow> safe rs r \<Longrightarrow> lr_ok rs (lr_leave r s)"
  by (auto simp: lr_ok_def nth_list_update)

lemma detect_false:
  assumes "wf_rules rs"
  shows "lr_call rs (detect_left_recursion n rs)"
proof (induction n)
  case 0
  then show ?case by (simp add: lr_call_def)
next
  case (Suc n)
  show ?case
    unfolding lr_call_def
  proof (intro allI impI)
    fix v s s'
    assume v: "v < length rs" and ok: "lr_ok rs s" and r: "detect_left_recursion (Suc n) rs v s = Some (False, s')"
    have free: "\<not> lr_in_progress s ! v" using r by (auto split: if_splits)
    with r obtain s3 where s3: "lr_scan (detect_left_recursion n rs) (rs ! v) True (lr_enter rs v s) = Some (False, s3)"
      "s' = lr_leave v s3" by (auto split: option.splits prod.splits bool.splits)
    note en = lr_enter_ok[OF ok v]
    from lr_scan_false[OF Suc.IH en(1) s3(1)] lefts_bound[OF assms v]
    have sc: "lr_ok rs s3" "lr_in_progress s3 = (lr_in_progress s)[v := True]" "\<forall>u \<in> set (lefts rs v). safe rs u"
      "\<forall>r < length rs. lr_may_be_empty (lr_enter rs v s) ! r \<longrightarrow> lr_may_be_empty s3 ! r" by (auto simp: lefts_def)
    have safe: "safe rs v" using sc(3) by (auto intro: safeI)
    have "lr_in_progress s' = (lr_in_progress s)[v := False]" using s3(2) sc(2) by simp
    also have "\<dots> = lr_in_progress s" using free by (metis list_update_id)
    finally have prog: "lr_in_progress s' = lr_in_progress s" .
    have "lr_may_be_empty s' ! v = lit_empty rs v"
      using sc(1,4) en(2) v unfolding s3(2) by (auto simp: lr_ok_def)
    moreover have "\<forall>r < length rs. lr_may_be_empty s ! r \<longrightarrow> lr_may_be_empty s' ! r"
      using sc(4) en(3) unfolding s3(2) by simp
    ultimately show "lr_ok rs s' \<and> lr_in_progress s' = lr_in_progress s \<and> lr_may_be_empty s' ! v = lit_empty rs v
      \<and> safe rs v \<and> (\<forall>r < length rs. lr_may_be_empty s ! r \<longrightarrow> lr_may_be_empty s' ! r)"
      using safe prog lr_leave_ok[OF sc(1) v safe] unfolding s3(2) by blast
  qed
qed

text \<open>A positive answer is a cycle.\<close>

lemma lr_scan_true:
  assumes "lr_call rs f" "lr_ok rs s" "lr_scan f es go s = Some (True, s')"
    and "\<forall>v \<in> set (left_refs (lit_empty rs) es go). v < length rs"
  shows "\<exists>v \<in> set (left_refs (lit_empty rs) es go). \<exists>s0 s1. lr_ok rs s0 \<and> lr_in_progress s0 = lr_in_progress s
    \<and> f v s0 = Some (True, s1)"
  using assms(2-4)
proof (induction es arbitrary: go s)
  case (Cons e es)
  show ?case
  proof (cases "g_type e = G_RULE_REF \<and> go")
    case True
    have v: "g_value e < length rs" using Cons.prems(3) True by simp
    from True Cons.prems(2) consider (hit) s1 where "f (g_value e) s = Some (True, s1)"
      | (go) s1 where "f (g_value e) s = Some (False, s1)" "lr_scan f es (lr_may_be_empty s1 ! g_value e) s1 = Some (True, s')"
      by (auto split: option.splits prod.splits bool.splits)
    then show ?thesis
    proof cases
      case hit
      with True Cons.prems(1) show ?thesis by auto
    next
      case (go s1)
      with assms(1) v Cons.prems(1) have c: "lr_ok rs s1" "lr_in_progress s1 = lr_in_progress s"
        "lr_may_be_empty s1 ! g_value e = lit_empty rs (g_value e)" unfolding lr_call_def by blast+
      from Cons.IH[OF c(1) go(2)] Cons.prems(3) True c show ?thesis by auto
    qed
  next
    case False
    then show ?thesis using Cons.IH[OF Cons.prems(1)] Cons.prems(2,3) by (auto split: if_splits)
  qed
qed simp

lemma detect_true:
  assumes "wf_rules rs" "r < length rs" "lr_ok rs s" "detect_left_recursion n rs r s = Some (True, s')"
    and "\<forall>q < length rs. lr_in_progress s ! q \<longrightarrow> (q, r) \<in> (left_edges rs)\<^sup>+"
  shows "\<exists>q < length rs. (q, q) \<in> (left_edges rs)\<^sup>+"
  using assms(2-5)
proof (induction n arbitrary: r s s')
  case (Suc n)
  show ?case
  proof (cases "lr_in_progress s ! r")
    case True
    with Suc.prems(1,4) show ?thesis by blast
  next
    case False
    have sc: "\<exists>s3. lr_scan (detect_left_recursion n rs) (rs ! r) True (lr_enter rs r s) = Some (True, s3)"
      using Suc.prems(3) False by (auto split: option.splits prod.splits bool.splits)
    note ok2 = lr_enter_ok(1)[OF Suc.prems(2,1)]
    from sc lr_scan_true[OF detect_false[OF assms(1)] ok2, of n "rs ! r" True] lefts_bound[OF assms(1) Suc.prems(1)]
    obtain v s0 s3 where v: "v \<in> set (lefts rs r)" "lr_ok rs s0" "lr_in_progress s0 = (lr_in_progress s)[r := True]"
      "detect_left_recursion n rs v s0 = Some (True, s3)" by (fastforce simp: lefts_def)
    have edge: "(r, v) \<in> left_edges rs" using v(1) Suc.prems(1) by (simp add: left_edges_def)
    have "(q, v) \<in> (left_edges rs)\<^sup>+" if "q < length rs" "lr_in_progress s0 ! q" for q
    proof (cases "q = r")
      case True
      with edge show ?thesis by blast
    next
      case False
      then have "lr_in_progress s ! q" using that v(3) by simp
      then show ?thesis using Suc.prems(4) that(1) edge by (meson trancl.trancl_into_trancl)
    qed
    with Suc.IH[OF lefts_bound[OF assms(1) Suc.prems(1) v(1)] v(2,4)] show ?thesis by blast
  qed
qed simp

text \<open>The depth given is enough: every nested call has one more rule in progress.\<close>

definition idle :: "lr_state \<Rightarrow> nat" where
  "idle s = length (filter (\<lambda>b. \<not> b) (lr_in_progress s))"

lemma lr_scan_defined:
  assumes "lr_call rs f" "lr_ok rs s" "\<forall>v \<in> set (left_refs (lit_empty rs) es go). v < length rs"
    and "\<forall>v s0. v < length rs \<longrightarrow> lr_ok rs s0 \<longrightarrow> lr_in_progress s0 = lr_in_progress s \<longrightarrow> f v s0 \<noteq> None"
  shows "lr_scan f es go s \<noteq> None"
  using assms(2-4)
proof (induction es arbitrary: go s)
  case (Cons e es)
  show ?case
  proof (cases "g_type e = G_RULE_REF \<and> go")
    case True
    have v: "g_value e < length rs" using Cons.prems(2) True by simp
    then obtain b s1 where b: "f (g_value e) s = Some (b, s1)" using Cons.prems(1,3) by fastforce
    show ?thesis
    proof (cases b)
      case False
      then have b: "f (g_value e) s = Some (False, s1)" using b by simp
      with assms(1) v Cons.prems(1) have c: "lr_ok rs s1" "lr_in_progress s1 = lr_in_progress s"
        "lr_may_be_empty s1 ! g_value e = lit_empty rs (g_value e)" unfolding lr_call_def by blast+
      have "lr_scan f es (lr_may_be_empty s1 ! g_value e) s1 \<noteq> None"
      proof (rule Cons.IH[OF c(1)])
        show "\<forall>v \<in> set (left_refs (lit_empty rs) es (lr_may_be_empty s1 ! g_value e)). v < length rs"
          using Cons.prems(2) True c(3) by simp
        show "\<forall>v s0. v < length rs \<longrightarrow> lr_ok rs s0 \<longrightarrow> lr_in_progress s0 = lr_in_progress s1 \<longrightarrow> f v s0 \<noteq> None"
          unfolding c(2) by (rule Cons.prems(3))
      qed
      with True b False show ?thesis by auto
    qed (use True b in auto)
  next
    case False
    then show ?thesis using Cons.IH[OF Cons.prems(1)] Cons.prems(2,3) by (auto split: if_splits)
  qed
qed simp

lemma filter_update_less:
  "i < length xs \<Longrightarrow> \<not> xs ! i \<Longrightarrow> length (filter (\<lambda>b. \<not> b) (xs[i := True])) < length (filter (\<lambda>b. \<not> b) xs)"
proof (induction xs arbitrary: i)
  case (Cons x xs)
  then show ?case by (cases i) auto
qed simp

lemma detect_defined:
  assumes "wf_rules rs" "r < length rs" "lr_ok rs s" "idle s < n"
  shows "detect_left_recursion n rs r s \<noteq> None"
  using assms(2-4)
proof (induction n arbitrary: r s)
  case (Suc n)
  show ?case
  proof (cases "lr_in_progress s ! r")
    case False
    note ok2 = lr_enter_ok(1)[OF Suc.prems(2,1)]
    have "idle (lr_enter rs r s) < idle s"
      using filter_update_less[of r "lr_in_progress s"] False Suc.prems(1,2) by (simp add: idle_def lr_ok_def)
    with Suc.prems(3) have "idle (lr_enter rs r s) < n" by simp
    then have "\<forall>v s0. v < length rs \<longrightarrow> lr_ok rs s0 \<longrightarrow> lr_in_progress s0 = lr_in_progress (lr_enter rs r s)
        \<longrightarrow> detect_left_recursion n rs v s0 \<noteq> None"
      using Suc.IH by (simp add: idle_def)
    then have "lr_scan (detect_left_recursion n rs) (rs ! r) True (lr_enter rs r s) \<noteq> None"
      using lr_scan_defined[OF detect_false[OF assms(1)] ok2, of "rs ! r" True n] lefts_bound[OF assms(1) Suc.prems(1)]
      by (auto simp: lefts_def)
    then show ?thesis
      using False by (auto split: option.splits prod.splits bool.splits)
  qed simp
qed simp

lemma check_rules_exact:
  assumes "wf_rules rs" "lr_ok rs s" "\<forall>i < length rs. \<not> lr_in_progress s ! i" "set is \<subseteq> {..<length rs}"
  shows "\<exists>b. check_rules rs is s = Some b \<and> (b \<longrightarrow> (\<exists>q < length rs. (q, q) \<in> (left_edges rs)\<^sup>+))
    \<and> (\<not> b \<longrightarrow> (\<forall>i \<in> set is. safe rs i))"
  using assms(2-4)
proof (induction "is" arbitrary: s)
  case (Cons i "is")
  then have i: "i < length rs" by simp
  show ?case
  proof (cases "lr_visited s ! i")
    case True
    then have "safe rs i" using Cons.prems(1) i by (simp add: lr_ok_def)
    with Cons.IH[OF Cons.prems(1,2)] Cons.prems(3) True show ?thesis by auto
  next
    case False
    have "idle s < length rs + 1"
    proof -
      have "length (filter (\<lambda>b. \<not> b) (lr_in_progress s)) \<le> length (lr_in_progress s)" by (rule length_filter_le)
      also have "\<dots> = length rs" using Cons.prems(1) by (simp add: lr_ok_def)
      finally show ?thesis by (simp add: idle_def)
    qed
    from detect_defined[OF assms(1) i Cons.prems(1) this] obtain b s' where
      d: "detect_left_recursion (length rs + 1) rs i s = Some (b, s')" by fastforce
    show ?thesis
    proof (cases b)
      case True
      with d have "detect_left_recursion (length rs + 1) rs i s = Some (True, s')" by simp
      from detect_true[OF assms(1) i Cons.prems(1) this] Cons.prems(2) d True False show ?thesis by auto
    next
      case nb: False
      then have d: "detect_left_recursion (length rs + 1) rs i s = Some (False, s')" using d by simp
      with detect_false[OF assms(1), of "length rs + 1"] i Cons.prems(1)
      have c: "lr_ok rs s'" "lr_in_progress s' = lr_in_progress s" "safe rs i" unfolding lr_call_def by blast+
      from Cons.IH[OF c(1)] Cons.prems(2,3) c(2,3) d False show ?thesis by auto
    qed
  qed
qed auto

lemma safe_no_cycle:
  assumes "safe rs r"
  shows "(r, r) \<notin> (left_edges rs)\<^sup>+"
proof -
  have "safe rs r \<Longrightarrow> (r, q) \<in> (left_edges rs)\<^sup>+ \<Longrightarrow> q \<noteq> r" for q
  proof (induction arbitrary: q rule: safe.induct)
    case (safeI r)
    show ?case
    proof
      assume "q = r"
      with safeI.prems obtain v where v: "v \<in> set (lefts rs r)" "(v, r) \<in> (left_edges rs)\<^sup>*"
        by (auto simp: left_edges_def dest!: tranclD)
      have "(v, v) \<in> (left_edges rs)\<^sup>+"
      proof -
        obtain w where "(r, w) \<in> left_edges rs" "w = v"
          using v(1) safeI.prems by (auto simp: left_edges_def dest: tranclD)
        with v(2) show ?thesis by (metis rtrancl_into_trancl1)
      qed
      with safeI.IH[OF v(1)] show False by blast
    qed
  qed
  with assms show ?thesis by blast
qed

text \<open>The check always answers, and its answer is whether the relation has a cycle.\<close>

lemma left_recursive_exact:
  assumes "wf_rules rs"
  shows "\<exists>b. left_recursive rs = Some b \<and> (b \<longleftrightarrow> (\<exists>q < length rs. (q, q) \<in> (left_edges rs)\<^sup>+))
    \<and> (\<not> b \<longrightarrow> (\<forall>r < length rs. safe rs r))"
proof -
  let ?z = "replicate (length rs) False"
  let ?s = "\<lparr>lr_visited = ?z, lr_in_progress = ?z, lr_may_be_empty = ?z\<rparr>"
  have "lr_ok rs ?s" "\<forall>i < length rs. \<not> lr_in_progress ?s ! i" by (simp_all add: lr_ok_def)
  from check_rules_exact[OF assms this, of "[0..<length rs]"] obtain b where
    "left_recursive rs = Some b" "b \<longrightarrow> (\<exists>q < length rs. (q, q) \<in> (left_edges rs)\<^sup>+)"
    "\<not> b \<longrightarrow> (\<forall>i < length rs. safe rs i)"
    by (auto simp: left_recursive_def Let_def atLeast0LessThan)
  moreover have "\<not> b \<Longrightarrow> \<not> (\<exists>q < length rs. (q, q) \<in> (left_edges rs)\<^sup>+)" using calculation(3) safe_no_cycle by blast
  ultimately show ?thesis by blast
qed

text \<open>Every rule that derives the empty word has an alternate that is empty as written.\<close>

definition lit_exact :: "rules \<Rightarrow> bool" where
  "lit_exact rs \<longleftrightarrow> (\<forall>r < length rs. derives rs [Nonterminal r] [] \<longrightarrow> lit_empty rs r)"

lemma has_empty_alt_start:
  assumes "has_empty_alt at_start es" "wf_elems n m es"
  shows "(at_start \<and> symbols es = []) \<or> (\<exists>i \<in> set (alt_starts_from j es). \<exists>k. i = j + k \<and> symbols (drop k es) = [])"
  using assms
proof (induction at_start es arbitrary: j m rule: has_empty_alt.induct)
  case (2 at_start e es)
  have up: "\<exists>i \<in> set (alt_starts_from (Suc j) es). \<exists>k. i = Suc j + k \<and> symbols (drop k es) = [] \<Longrightarrow>
      \<exists>i \<in> set (alt_starts_from (Suc j) es). \<exists>k. i = j + k \<and> symbols (drop k (e # es)) = []"
    by (metis add_Suc_shift drop_Suc_Cons)
  show ?case
  proof (cases "is_end_type (g_type e)")
    case True
    show ?thesis
    proof (cases at_start)
      case True
      with \<open>is_end_type (g_type e)\<close> show ?thesis by (auto simp: is_end_type_def)
    next
      case False
      with True 2(3,4) have es: "has_empty_alt True es" by simp
      have alt: "g_type e = G_ALT" "wf_elems n 0 es"
        using True es 2(4) by (auto simp: is_end_type_def)
      from "2.IH"(1)[OF True False es alt(2), of "Suc j"] consider "symbols es = []"
        | "\<exists>i \<in> set (alt_starts_from (Suc j) es). \<exists>k. i = Suc j + k \<and> symbols (drop k es) = []" by auto
      then show ?thesis
      proof cases
        case 1
        with alt show ?thesis by (intro disjI2 bexI[of _ "Suc j"] exI[of _ 1]) simp_all
      next
        case 2
        from up[OF this] alt show ?thesis by auto
      qed
    qed
  next
    case False
    then have ne: "g_type e \<noteq> G_ALT" "g_type e \<noteq> G_END" by (auto simp: is_end_type_def)
    obtain m' where "wf_elems n m' es" using 2(4) ne by (auto split: gretype.splits)
    with "2.IH"(2)[OF False _ this, of "Suc j"] 2(3) False
    have "\<exists>i \<in> set (alt_starts_from (Suc j) es). \<exists>k. i = Suc j + k \<and> symbols (drop k es) = []" by auto
    from up[OF this] ne show ?thesis by auto
  qed
qed simp

lemma lit_empty_derives:
  assumes "wf_rules rs" "r < length rs" "lit_empty rs r"
  shows "derives rs [Nonterminal r] []"
proof -
  have wf: "wf_elems (length rs) 0 (rs ! r)" using assms(1,2) by (simp add: wf_rules_def list_all_length)
  from has_empty_alt_start[OF assms(3)[unfolded lit_empty_def] wf, of 0]
  have "[] \<in> set (alternates (rs ! r))" by (force simp: alternates_def alt_starts_def)
  then show ?thesis using derives_nt[of "[]" rs r "[]" "[]" "[]"] by (simp add: derives_nil)
qed

subsection \<open>Left recursion through rules that derive the empty word\<close>

definition nullable :: "rules \<Rightarrow> nat \<Rightarrow> bool" where
  "nullable rs r \<longleftrightarrow> derives rs [Nonterminal r] []"

definition heads :: "rules \<Rightarrow> nat \<Rightarrow> nat list" where
  "heads rs r = left_refs (nullable rs) (rs ! r) True"

definition head_edges :: "rules \<Rightarrow> (nat \<times> nat) set" where
  "head_edges rs = {(r, v). r < length rs \<and> v \<in> set (heads rs r)}"

text \<open>No rule is left recursive, directly, through other rules or behind rules that may be empty.\<close>

definition left_free :: "rules \<Rightarrow> bool" where
  "left_free rs \<longleftrightarrow> (\<forall>q < length rs. (q, q) \<notin> (head_edges rs)\<^sup>+)"

lemma left_refs_wf: "v \<in> set (left_refs emp es go) \<Longrightarrow> wf_elems n m es \<Longrightarrow> v < n"
  by (induction emp es go arbitrary: m rule: left_refs.induct) (auto split: if_splits gretype.splits)

lemma wf_rule: "wf_rules rs \<Longrightarrow> r < length rs \<Longrightarrow> wf_elems (length rs) 0 (rs ! r)"
  by (simp add: wf_rules_def list_all_length)

lemma heads_bound: "wf_rules rs \<Longrightarrow> r < length rs \<Longrightarrow> v \<in> set (heads rs r) \<Longrightarrow> v < length rs"
  unfolding heads_def using left_refs_wf wf_rule by blast

lemma left_refs_mono:
  assumes "\<And>v. v < n \<Longrightarrow> emp v \<Longrightarrow> emp' v" "go \<longrightarrow> go'" "wf_elems n m es"
  shows "set (left_refs emp es go) \<subseteq> set (left_refs emp' es go')"
  using assms(2,3)
proof (induction es arbitrary: go go' m)
  case (Cons e es)
  have v: "g_value e < n" if "g_type e = G_RULE_REF" using Cons.prems(2) that by simp
  show ?case
  proof (cases "es = []")
    case False
    then obtain m' where wf: "wf_elems n m' es" using Cons.prems(2) by (auto split: gretype.splits if_splits)
    note IH = Cons.IH[OF _ wf]
    show ?thesis
    using IH[of "emp (g_value e)" "emp' (g_value e)"] IH[of "is_end_type (g_type e)" "is_end_type (g_type e)"]
      IH[of "False" "emp' (g_value e)"] Cons.prems(1) assms(1) v by (auto simp: is_end_type_def)
  qed (use Cons.prems(1) in auto)
qed simp

lemma left_edges_sub: "wf_rules rs \<Longrightarrow> left_edges rs \<subseteq> head_edges rs"
  using left_refs_mono[of "length rs" "lit_empty rs" "nullable rs" True True] lit_empty_derives wf_rule
  by (fastforce simp: left_edges_def head_edges_def lefts_def heads_def nullable_def)

text \<open>Such a grammar passes the check, and the check is exact where emptiness shows.\<close>

lemma left_free_passes:
  assumes "wf_rules rs" "left_free rs"
  shows "left_recursive rs = Some False"
proof -
  have "(q, q) \<in> (head_edges rs)\<^sup>+" if "(q, q) \<in> (left_edges rs)\<^sup>+" for q
    using trancl_mono[OF that left_edges_sub[OF assms(1)]] .
  with left_recursive_exact[OF assms(1)] assms(2) show ?thesis unfolding left_free_def by fastforce
qed

lemma lit_exact_left_free:
  assumes "wf_rules rs" "lit_exact rs" "left_recursive rs = Some False"
  shows "left_free rs"
proof -
  have "head_edges rs \<subseteq> left_edges rs"
    using left_refs_mono[of "length rs" "nullable rs" "lit_empty rs" True True] assms(2) wf_rule[OF assms(1)]
    by (fastforce simp: left_edges_def head_edges_def lefts_def heads_def nullable_def lit_exact_def)
  then have "(q, q) \<in> (left_edges rs)\<^sup>+" if "(q, q) \<in> (head_edges rs)\<^sup>+" for q using trancl_mono[OF that] by blast
  with left_recursive_exact[OF assms(1)] assms(3) show ?thesis unfolding left_free_def by fastforce
qed

text \<open>A numbering of the rules that every leftmost reference lowers is enough.\<close>

lemma left_freeI:
  assumes "\<And>r v. r < length rs \<Longrightarrow> v \<in> set (heads rs r) \<Longrightarrow> rk v < (rk r :: nat)"
  shows "left_free rs"
proof -
  have "(a, b) \<in> (head_edges rs)\<^sup>+ \<Longrightarrow> rk b < rk a" for a b
    by (induction rule: trancl.induct) (use assms in \<open>auto simp: head_edges_def intro: less_trans\<close>)
  then show ?thesis unfolding left_free_def by blast
qed

inductive grounded :: "rules \<Rightarrow> nat \<Rightarrow> bool" for rs where
  groundedI: "(\<And>v. v \<in> set (heads rs r) \<Longrightarrow> grounded rs v) \<Longrightarrow> grounded rs r"

lemma left_free_grounded:
  assumes "wf_rules rs" "left_free rs"
  shows "r < length rs \<Longrightarrow> grounded rs r"
proof -
  have sub: "head_edges rs \<subseteq> {..<length rs} \<times> {..<length rs}"
    using heads_bound[OF assms(1)] by (auto simp: head_edges_def)
  then have fin: "finite (head_edges rs)" by (rule finite_subset) simp
  have "(q, q) \<notin> (head_edges rs)\<^sup>+" for q
  proof
    assume c: "(q, q) \<in> (head_edges rs)\<^sup>+"
    then obtain y where "(q, y) \<in> head_edges rs" by (blast dest: tranclD)
    with c assms(2) show False by (simp add: left_free_def head_edges_def)
  qed
  then have "wf ((head_edges rs)\<inverse>)" using finite_acyclic_wf_converse[OF fin] by (simp add: acyclic_def)
  then show "r < length rs \<Longrightarrow> grounded rs r"
  proof (induction r rule: wf_induct_rule)
    case (less r)
    show ?case
    proof (rule groundedI)
      fix v assume v: "v \<in> set (heads rs r)"
      with less.prems have "(v, r) \<in> (head_edges rs)\<inverse>" by (simp add: head_edges_def)
      from less.IH[OF this heads_bound[OF assms(1) less.prems v]] show "grounded rs v" .
    qed
  qed
qed

subsection \<open>Termination of the walk\<close>

text \<open>The walk below a stack ends.\<close>

inductive halts :: "rules \<Rightarrow> stack \<Rightarrow> bool" for rs where
  haltsI: "(\<And>s'. s' \<in> set (succs rs s) \<Longrightarrow> halts rs s') \<Longrightarrow> halts rs s"

text \<open>The positions of a rule that the walk reaches with nothing consumed.\<close>

inductive at_front :: "rules \<Rightarrow> nat \<Rightarrow> nat \<Rightarrow> bool" for rs r where
  front_start: "i \<in> set (alt_starts (rs ! r)) \<Longrightarrow> at_front rs r i"
| front_next: "at_front rs r i \<Longrightarrow> g_type (elem_at rs (r, i)) = G_RULE_REF \<Longrightarrow> nullable rs (g_value (elem_at rs (r, i)))
    \<Longrightarrow> at_front rs r (Suc i)"

lemma left_refs_at_alt:
  "i \<in> set (alt_starts_from j es) \<Longrightarrow> \<exists>k. i = j + k \<and> k \<le> length es \<and> (\<forall>go. \<exists>pre. left_refs emp es go = pre @ left_refs emp (drop k es) True)"
proof (induction j es rule: alt_starts_from.induct)
  case (2 j e es)
  have up: "\<exists>k. i = j + k \<and> k \<le> length (e # es) \<and> (\<forall>go. \<exists>pre. left_refs emp (e # es) go = pre @ left_refs emp (drop k (e # es)) True)"
    if i: "i \<in> set (alt_starts_from (Suc j) es)" and IH: "i \<in> set (alt_starts_from (Suc j) es) \<Longrightarrow> \<exists>k. i = Suc j + k \<and> k \<le> length es
      \<and> (\<forall>go. \<exists>pre. left_refs emp es go = pre @ left_refs emp (drop k es) True)"
  proof -
    from IH[OF i] obtain k where k: "i = Suc j + k" "k \<le> length es" "\<forall>go. \<exists>pre. left_refs emp es go = pre @ left_refs emp (drop k es) True" by blast
    have "\<exists>pre. left_refs emp (e # es) go = pre @ left_refs emp (drop k es) True" for go
      using k(3)[rule_format, of "emp (g_value e)"] k(3)[rule_format, of "is_end_type (g_type e)"]
      by (auto simp: Cons_eq_append_conv)
    with k(1,2) show ?thesis by (intro exI[of _ "Suc k"]) simp
  qed
  show ?case
  proof (cases "g_type e = G_ALT")
    case True
    from True 2(3) consider "i = Suc j" | "i \<in> set (alt_starts_from (Suc j) es)" by auto
    then show ?thesis
    proof cases
      case 1
      with True show ?thesis by (intro exI[of _ 1]) (simp add: is_end_type_def)
    next
      case 2
      then show ?thesis using up "2.IH"(1)[OF True] by blast
    qed
  next
    case False
    then have "g_type e \<noteq> G_END" "i \<in> set (alt_starts_from (Suc j) es)" using 2(3) by (auto split: if_splits)
    then show ?thesis using up "2.IH"(2)[OF False] by blast
  qed
qed simp

lemma at_front_heads:
  assumes "at_front rs r i"
  shows "\<exists>pre. heads rs r = pre @ left_refs (nullable rs) (elems_from rs (r, i)) True"
  using assms
proof induction
  case (front_start i)
  then consider "i = 0" | "i \<in> set (alt_starts_from 0 (rs ! r))" by (auto simp: alt_starts_def)
  then show ?case
  proof cases
    case 2
    from left_refs_at_alt[OF this] show ?thesis by (auto simp: heads_def elems_from_def)
  qed (simp add: heads_def elems_from_def)
next
  case (front_next i)
  show ?case
  proof (cases "elems_from rs (r, i) = []")
    case True
    then have "elems_from rs (r, Suc i) = []" by (simp add: elems_from_def)
    with front_next True show ?thesis by simp
  next
    case False
    from elems_from_cons[OF this] front_next show ?thesis by (auto simp: next_ptr_def)
  qed
qed

lemma at_front_ref:
  assumes "at_front rs r i" "wf_ptr rs (r, i)" "g_type (elem_at rs (r, i)) = G_RULE_REF"
  shows "g_value (elem_at rs (r, i)) \<in> set (heads rs r)"
  using at_front_heads[OF assms(1)] assms(3) wf_ptr_cons[OF assms(2)] by auto

lemma halts_final: "final rs st \<Longrightarrow> halts rs st"
  by (rule haltsI) (simp add: succs_final)

lemma succs_push_if:
  assumes "wf_rules rs" "wf_ptr rs p" "\<not> is_end_of_sequence rs p" "s' \<in> set (succs rs (p # st))"
  shows "g_type (elem_at rs p) = G_RULE_REF \<and> (\<exists>j \<in> set (alt_starts (rs ! g_value (elem_at rs p))).
    s' = push_if rs (g_value (elem_at rs p), j) (push_if rs (next_ptr p) st))"
  using assms(4) by (auto simp: succs_def expand_def split: if_splits)

text \<open>One position of a rule at its front, by induction on what is left of the rule.\<close>

lemma halts_front:
  assumes "wf_rules rs" "r < length rs"
    and IH: "\<And>v st j. v \<in> set (heads rs r) \<Longrightarrow> (nullable rs v \<longrightarrow> halts rs st) \<Longrightarrow> j \<in> set (alt_starts (rs ! v))
      \<Longrightarrow> halts rs (push_if rs (v, j) st)"
    and "at_front rs r i" "wf_ptr rs (r, i)"
    and "derives rs (symbols (elems_from rs (r, i))) [] \<longrightarrow> halts rs st"
  shows "halts rs (push_if rs (r, i) st)"
  using assms(4-6)
proof (induction "length (rs ! r) - i" arbitrary: i rule: less_induct)
  case less
  show ?case
  proof (cases "is_end_of_sequence rs (r, i)")
    case True
    with less.prems(3) show ?thesis by (simp add: push_if_def end_symbols)
  next
    case False
    have "halts rs ((r, i) # st)"
    proof (rule haltsI)
      fix s' assume "s' \<in> set (succs rs ((r, i) # st))"
      from succs_push_if[OF assms(1) less.prems(2) False this] obtain j where
        ref: "g_type (elem_at rs (r, i)) = G_RULE_REF" and j: "j \<in> set (alt_starts (rs ! g_value (elem_at rs (r, i))))"
        and s': "s' = push_if rs (g_value (elem_at rs (r, i)), j) (push_if rs (next_ptr (r, i)) st)" by blast
      let ?v = "g_value (elem_at rs (r, i))"
      note v = at_front_ref[OF less.prems(1,2) ref]
      have vlen: "?v < length rs" by (rule wf_next(2)[OF less.prems(2) ref])
      have len: "i < length (rs ! r)" using less.prems(2) by (auto simp: wf_ptr_def elems_from_def intro: ccontr)
      have "halts rs (push_if rs (next_ptr (r, i)) st)" if e: "nullable rs ?v"
      proof -
        have front: "at_front rs r (Suc i)" by (rule front_next[OF less.prems(1) ref e])
        have wf: "wf_ptr rs (r, Suc i)" using wf_next(1)[OF less.prems(2) ref] by (simp add: next_ptr_def)
        have "halts rs st" if "derives rs (symbols (elems_from rs (r, Suc i))) []"
        proof -
          have "derives rs [Nonterminal ?v] []" using e by (simp add: nullable_def)
          then obtain a where "a \<in> set (alternates (rs ! ?v))" "derives rs a []" unfolding derives_nonterminal by auto
          with that have "derives rs (symbols (elems_from rs (r, i))) []"
            unfolding ref_symbols[OF less.prems(2) ref] derives_nonterminal by (auto simp: next_ptr_def)
          with less.prems(3) show ?thesis by blast
        qed
        from less.hyps[OF _ front wf] this len show ?thesis by (simp add: next_ptr_def)
      qed
      then show "halts rs s'" unfolding s' using IH[OF v _ j] by blast
    qed
    with False show ?thesis by (simp add: push_if_def)
  qed
qed

lemma halts_rule:
  assumes "grounded rs r" "wf_rules rs" "r < length rs"
    and "nullable rs r \<longrightarrow> halts rs st" "i \<in> set (alt_starts (rs ! r))"
  shows "halts rs (push_if rs (r, i) st)"
  using assms(1,3-5)
proof (induction arbitrary: st i rule: grounded.induct)
  case (groundedI r)
  note wf = wf_alt_starts[OF assms(2) groundedI.prems(1,3)]
  show ?case
  proof (rule halts_front[OF assms(2) groundedI.prems(1) _ front_start[OF groundedI.prems(3)] wf])
    fix v st j
    assume "v \<in> set (heads rs r)" "nullable rs v \<longrightarrow> halts rs st" "j \<in> set (alt_starts (rs ! v))"
    then show "halts rs (push_if rs (v, j) st)"
      using groundedI.IH heads_bound[OF assms(2) groundedI.prems(1)] by blast
  next
    have "derives rs [Nonterminal r] []" if "derives rs (symbols (elems_from rs (r, i))) []"
      unfolding derives_nonterminal alternates_iff using groundedI.prems(3) that by (auto simp: Bex_def alternates_iff)
    then show "derives rs (symbols (elems_from rs (r, i))) [] \<longrightarrow> halts rs st"
      using groundedI.prems(2) by (auto simp: nullable_def)
  qed
qed

lemma halts_push:
  assumes "wf_rules rs" "\<forall>r < length rs. grounded rs r" "wf_ptr rs p" "halts rs st"
  shows "halts rs (push_if rs p st)"
  using assms(3)
proof (induction "length (elems_from rs p)" arbitrary: p rule: less_induct)
  case less
  show ?case
  proof (cases "is_end_of_sequence rs p")
    case True
    with assms(4) show ?thesis by (simp add: push_if_def)
  next
    case False
    have "halts rs (p # st)"
    proof (rule haltsI)
      fix s' assume "s' \<in> set (succs rs (p # st))"
      from succs_push_if[OF assms(1) less.prems False this] obtain j where
        ref: "g_type (elem_at rs p) = G_RULE_REF" and j: "j \<in> set (alt_starts (rs ! g_value (elem_at rs p)))"
        and s': "s' = push_if rs (g_value (elem_at rs p), j) (push_if rs (next_ptr p) st)" by blast
      note nx = wf_next[OF less.prems ref]
      have "length (elems_from rs (next_ptr p)) < length (elems_from rs p)" using wf_ptr_cons[OF less.prems] by simp
      from less.hyps[OF this nx(1)] have "halts rs (push_if rs (next_ptr p) st)" .
      then show "halts rs s'"
        unfolding s' using halts_rule[OF _ assms(1) nx(2) _ j] assms(2) nx(2) by blast
    qed
    with False show ?thesis by (simp add: push_if_def)
  qed
qed

lemma halts_stack:
  assumes "wf_rules rs" "\<forall>r < length rs. grounded rs r" "wf_stack rs st"
  shows "halts rs st"
  using assms(3)
proof (induction st)
  case Nil
  then show ?case by (intro halts_final) (simp add: final_def)
next
  case (Cons p st)
  then have "wf_ptr rs p" "\<not> is_end_of_sequence rs p" "halts rs st" by (simp_all add: wf_stack_def)
  from halts_push[OF assms(1,2) this(1,3)] this(2) show ?case by (simp add: push_if_def)
qed

text \<open>A worklist whose stacks halt is worked off.\<close>

lemma advance_loop_step:
  assumes "\<And>seen out. advance_loop rs todo seen out \<noteq> None"
    and "\<And>todo seen out. (\<And>seen out. advance_loop rs todo seen out \<noteq> None)
      \<Longrightarrow> advance_loop rs (rev (succs rs st) @ todo) seen out \<noteq> None"
  shows "advance_loop rs (st # todo) seen out \<noteq> None"
proof (cases "st \<in> seen")
  case True
  then show ?thesis using assms(1) by (subst advance_loop.simps) simp
next
  case new: False
  show ?thesis
  proof (cases st)
    case Nil
    then show ?thesis using new assms(1) by (subst advance_loop.simps) simp
  next
    case (Cons p st')
    show ?thesis
    proof (cases "g_type (elem_at rs p) = G_RULE_REF")
      case True
      then show ?thesis
        using new Cons assms(2)[OF assms(1), of "insert st seen" out] by (subst advance_loop.simps) (simp add: succs_def)
    next
      case False
      then show ?thesis using new Cons assms(1) by (subst advance_loop.simps) simp
    qed
  qed
qed

lemma advance_halts:
  assumes "halts rs st" "\<And>seen out. advance_loop rs todo seen out \<noteq> None"
  shows "advance_loop rs (st # todo) seen out \<noteq> None"
  using assms
proof (induction arbitrary: todo seen out rule: halts.induct)
  case (haltsI s)
  have many: "(\<And>seen out. advance_loop rs todo seen out \<noteq> None) \<Longrightarrow> set ts \<subseteq> set (succs rs s)
      \<Longrightarrow> advance_loop rs (ts @ todo) seen out \<noteq> None" for ts todo seen out
  proof (induction ts arbitrary: seen out)
    case (Cons t ts)
    then show ?case using haltsI.IH[of t "ts @ todo" seen out] by simp
  qed simp
  show ?case by (rule advance_loop_step[OF haltsI.prems]) (rule many, auto)
qed

lemma advance_returns:
  assumes "wf_rules rs" "left_free rs" "wf_stack rs st"
  shows "advance_stack rs st out \<noteq> None"
proof -
  have "\<forall>r < length rs. grounded rs r" using left_free_grounded[OF assms(1,2)] by blast
  from halts_stack[OF assms(1) this assms(3)] show ?thesis
    unfolding advance_stack_def by (rule advance_halts) (subst advance_loop.simps, simp)
qed

end
