(* ===== verification/GramReject.thy ===== *)
theory GramReject
  imports GramLeft
begin

section \<open>Rejecting candidates\<close>

text \<open>
  For rules without token elements, \<open>reject_candidates\<close> returns exactly the candidates that cannot
  be consumed: a candidate survives when accepting its code points leaves a stack that its
  incomplete last character, if it has one, can still meet.  The recursion depth given is enough.
\<close>

definition token_free :: "rules \<Rightarrow> bool" where
  "token_free rs \<longleftrightarrow> (\<forall>r \<in> set rs. \<forall>e \<in> set r. \<not> is_token_type (g_type e))"

definition follow :: "rules \<Rightarrow> stack set \<Rightarrow> nat \<Rightarrow> stack set" where
  "follow rs S c = (\<Union>st \<in> S. chr_stacks rs c st)"

fun follow_all :: "rules \<Rightarrow> stack set \<Rightarrow> nat list \<Rightarrow> stack set" where
  "follow_all rs S [] = S"
| "follow_all rs S (c # cs) = follow_all rs (follow rs S c) cs"

lemma follow_all_Union: "follow_all rs S cs = (\<Union>st \<in> S. follow_all rs {st} cs)"
proof (induction cs arbitrary: S)
  case (Cons c cs)
  have "follow_all rs S (c # cs) = (\<Union>f \<in> follow rs S c. follow_all rs {f} cs)" using Cons[of "follow rs S c"] by simp
  also have "\<dots> = (\<Union>st \<in> S. \<Union>f \<in> follow rs {st} c. follow_all rs {f} cs)" by (auto simp: follow_def)
  also have "\<dots> = (\<Union>st \<in> S. follow_all rs (follow rs {st} c) cs)" using Cons by blast
  finally show ?case by simp
qed simp

definition partial_ok :: "rules \<Rightarrow> stack \<Rightarrow> partial_utf8 \<Rightarrow> bool" where
  "partial_ok rs f pu \<longleftrightarrow> pu_remain pu = 0 \<or> (f \<noteq> [] \<and> match_partial_char rs (hd f) pu = Some True)"

definition viable :: "rules \<Rightarrow> stack set \<Rightarrow> candidate \<Rightarrow> bool" where
  "viable rs S t \<longleftrightarrow> (\<exists>f \<in> follow_all rs S (drop (cd_at t) (cd_points t)). partial_ok rs f (cd_partial t))"

lemma viable_Union: "viable rs S t \<longleftrightarrow> (\<exists>st \<in> S. viable rs {st} t)"
  unfolding viable_def by (subst follow_all_Union) blast

lemma cd_prev_next [simp]: "cd_prev (cd_next t) = t"
  by (simp add: cd_prev_def cd_next_def)

lemma viable_done: "cd_done t \<Longrightarrow> viable rs {st} t \<longleftrightarrow> partial_ok rs st (cd_partial t)"
  by (simp add: viable_def cd_done_def)

lemma viable_next:
  assumes "\<not> cd_done t"
  shows "viable rs {st} t \<longleftrightarrow> viable rs (chr_stacks rs (cd_points t ! cd_at t) st) (cd_next t)"
proof -
  have "drop (cd_at t) (cd_points t) = cd_points t ! cd_at t # drop (cd_at t + 1) (cd_points t)"
    using assms by (simp add: cd_done_def Cons_nth_drop_Suc)
  then show ?thesis by (simp add: viable_def cd_next_def follow_def)
qed

lemma viable_empty [simp]: "\<not> viable rs {} t"
  by (subst viable_Union) simp

lemma top_not_token:
  assumes "token_free rs" "wf_stack rs (p # st)"
  shows "\<not> is_token_type (g_type (elem_at rs p))"
proof -
  have p: "wf_ptr rs p" using assms(2) by (simp add: wf_stack_def)
  then have "elem_at rs p \<in> set (elems_from rs p)" by (subst wf_ptr_cons) simp_all
  then have "elem_at rs p \<in> set (rs ! fst p)" unfolding elems_from_def by (rule in_set_dropD)
  then show ?thesis using assms(1) p by (auto simp: token_free_def wf_ptr_def)
qed

lemma partial_char_defined:
  "is_start_type (g_type (elem_at rs p)) \<Longrightarrow> \<exists>b. match_partial_char rs p pu = Some b"
  by (simp add: match_partial_char_def)

text \<open>The pass at a character splits the candidates into those rejected, those kept and those that
  go on with the next code point.\<close>

lemma split_candidates_exact:
  assumes "is_start_type (g_type (elem_at rs p))" "\<And>c. match_char rs p c = Some (sym_ok s c, q)"
  shows "\<exists>rej nxt. split_candidates rs p ts = Some (rej, nxt)
    \<and> set rej = {t \<in> set ts. if cd_done t then \<not> partial_ok rs (p # st) (cd_partial t)
        else \<not> sym_ok s (cd_points t ! cd_at t)}
    \<and> set nxt = cd_next ` {t \<in> set ts. \<not> cd_done t \<and> sym_ok s (cd_points t ! cd_at t)}"
proof (induction ts)
  case (Cons t ts)
  then obtain rej nxt where IH: "split_candidates rs p ts = Some (rej, nxt)"
    "set rej = {t \<in> set ts. if cd_done t then \<not> partial_ok rs (p # st) (cd_partial t)
        else \<not> sym_ok s (cd_points t ! cd_at t)}"
    "set nxt = cd_next ` {t \<in> set ts. \<not> cd_done t \<and> sym_ok s (cd_points t ! cd_at t)}" by blast
  obtain b where b: "match_partial_char rs p (cd_partial t) = Some b" using partial_char_defined[OF assms(1)] by blast
  show ?case
  proof (cases "cd_done t")
    case True
    then show ?thesis using IH b by (cases "pu_remain (cd_partial t) = 0"; cases b) (auto simp: partial_ok_def)
  next
    case False
    then show ?thesis using IH assms(2) by (cases "sym_ok s (cd_points t ! cd_at t)") auto
  qed
qed simp

text \<open>What is asked of the recursive call on stacks that are ready.\<close>

definition reject_ok :: "rules \<Rightarrow> stack list \<Rightarrow> candidate list \<Rightarrow> candidate list run \<Rightarrow> bool" where
  "reject_ok rs stacks ts r \<longleftrightarrow> (\<exists>rej. r = ret rej \<and> set rej = {t \<in> set ts. \<not> viable rs (set stacks) t})"

lemma reaches_some_final:
  assumes "halts rs st" "wf_rules rs" "wf_stack rs st"
  shows "\<exists>f. reaches rs st f \<and> final rs f"
  using assms(1,3)
proof induction
  case (haltsI s)
  show ?case
  proof (cases "final rs s")
    case True
    then show ?thesis by (blast intro: reaches_refl)
  next
    case False
    then obtain p st where s: "s = p # st" by (cases s) (auto simp: final_def)
    have ref: "g_type (elem_at rs p) = G_RULE_REF" using wf_top[of rs p st] haltsI.prems s False by (auto simp: final_def)
    obtain s' where s': "s' \<in> set (expand rs p st)" by (auto simp: expand_def alt_starts_def)
    then have "s' \<in> set (succs rs s)" using s succs_ref[OF ref] by simp
    from haltsI.IH[OF this] wf_expand[OF assms(2) _ ref s'] haltsI.prems s
    obtain f where "reaches rs s' f" "final rs f" by blast
    then show ?thesis unfolding s by (blast intro: reaches_step[OF ref s'])
  qed
qed

text \<open>A grammar the walk terminates on: well formed and without left recursion, hidden or not.\<close>

definition good_rules :: "rules \<Rightarrow> bool" where
  "good_rules rs \<longleftrightarrow> wf_rules rs \<and> left_free rs"

lemma good_halts: "good_rules rs \<Longrightarrow> wf_stack rs st \<Longrightarrow> halts rs st"
  using halts_stack left_free_grounded by (simp add: good_rules_def)

lemma good_rulesI: "wf_rules rs \<Longrightarrow> lit_exact rs \<Longrightarrow> left_recursive rs = Some False \<Longrightarrow> good_rules rs"
  by (simp add: good_rules_def lit_exact_left_free)

lemma advance_good:
  assumes "good_rules rs" "wf_stack rs st"
  shows "\<exists>out'. advance_stack rs st out = ret out' \<and> set out' = set out \<union> {f. reaches rs st f \<and> final rs f}
    \<and> (distinct out \<longrightarrow> distinct out')"
proof -
  have "advance_stack rs st out \<noteq> None" using advance_returns assms by (auto simp: good_rules_def)
  then obtain y where y: "advance_stack rs st out = Some y" by blast
  have "wf_rules rs" using assms(1) by (simp add: good_rules_def)
  from advance_stack_exact[OF this assms(2) y] y show ?thesis by blast
qed

lemma reject_for_stack_exact:
  assumes "good_rules rs" "token_free rs" "wf_stack rs st" "final rs st"
    and rec: "\<And>stacks nxt. ready rs stacks \<Longrightarrow> stacks \<noteq> [] \<Longrightarrow>
      (\<forall>t \<in> set nxt. \<exists>u \<in> set ts. \<not> cd_done u \<and> t = cd_next u) \<Longrightarrow> reject_ok rs stacks nxt (rec stacks nxt)"
  shows "\<exists>rej. reject_for_stack rec rs st ts = ret rej \<and> set rej = {t \<in> set ts. \<not> viable rs {st} t}"
proof (cases st)
  case Nil
  have "viable rs {[]} t \<longleftrightarrow> cd_done t \<and> pu_remain (cd_partial t) = 0" for t
  proof (cases "cd_done t")
    case True
    then show ?thesis by (simp add: viable_done partial_ok_def)
  next
    case False
    then show ?thesis by (simp add: viable_next chr_stacks_def after_chr_def)
  qed
  with Nil show ?thesis by (auto simp: reject_for_stack_def)
next
  case (Cons p st0)
  note tok = top_not_token[OF assms(2) assms(3)[unfolded Cons]]
  from chr_top[OF assms(3,4)[unfolded Cons] tok] obtain s q where
    q: "wf_stack rs (push_if rs q st0)" "\<And>c. match_char rs p c = Some (sym_ok s c, q)" by metis
  have start: "is_start_type (g_type (elem_at rs p))"
    using assms(4) Cons tok by (auto simp: final_def is_terminal_def)
  from split_candidates_exact[OF start q(2), of ts st0] obtain rej nxt where
    sp: "split_candidates rs p ts = Some (rej, nxt)"
      "set rej = {t \<in> set ts. if cd_done t then \<not> partial_ok rs (p # st0) (cd_partial t) else \<not> sym_ok s (cd_points t ! cd_at t)}"
      "set nxt = cd_next ` {t \<in> set ts. \<not> cd_done t \<and> sym_ok s (cd_points t ! cd_at t)}" by blast
  from advance_good[OF assms(1) q(1), of "[]"] obtain stacks where
    ad: "advance_stack rs (push_if rs q st0) [] = ret stacks"
      "set stacks = {f. reaches rs (push_if rs q st0) f \<and> final rs f}" by auto
  have after: "after_chr rs st c = (if sym_ok s c then Some (push_if rs q st0) else None)" for c
    using tok q(2) Cons by (simp add: after_chr_def split: bool.splits)
  then have chr: "chr_stacks rs c st = (if sym_ok s c then set stacks else {})" for c
    using ad(2) by (simp add: chr_stacks_def)
  have wf: "wf_rules rs" using assms(1) by (simp add: good_rules_def)
  have "ready rs stacks" unfolding ready_def ad(2) using reaches_wf wf q(1) by auto
  moreover have "stacks \<noteq> []" using reaches_some_final[OF good_halts[OF assms(1) q(1)] wf q(1)] ad(2) by auto
  moreover have "\<forall>t \<in> set nxt. \<exists>u \<in> set ts. \<not> cd_done u \<and> t = cd_next u" unfolding sp(3) by auto
  ultimately have "reject_ok rs stacks nxt (rec stacks nxt)" by (rule rec)
  then obtain rej' where rej': "rec stacks nxt = ret rej'" "set rej' = {t \<in> set nxt. \<not> viable rs (set stacks) t}"
    by (auto simp: reject_ok_def)
  have "reject_for_stack rec rs st ts = ret (rej @ map cd_prev rej')"
    using Cons tok sp(1) q(2) ad(1) rej'(1) by (simp add: reject_for_stack_def run_bind_def)
  moreover have "set (rej @ map cd_prev rej') = {t \<in> set ts. \<not> viable rs {st} t}"
  proof -
    have v: "viable rs {st} t \<longleftrightarrow> (if cd_done t then partial_ok rs (p # st0) (cd_partial t)
        else sym_ok s (cd_points t ! cd_at t) \<and> viable rs (set stacks) (cd_next t))" for t
      using Cons viable_done[of t rs st] viable_next[of t rs st] chr by auto
    show ?thesis
    proof (rule set_eqI)
      fix t
      have "t \<in> cd_prev ` set rej' \<longleftrightarrow> t \<in> set ts \<and> \<not> cd_done t \<and> sym_ok s (cd_points t ! cd_at t)
          \<and> \<not> viable rs (set stacks) (cd_next t)"
        unfolding rej'(2) sp(3) by force
      then show "t \<in> set (rej @ map cd_prev rej') \<longleftrightarrow> t \<in> {t \<in> set ts. \<not> viable rs {st} t}"
        using v[of t] unfolding set_append set_map Un_iff sp(2) by auto
    qed
  qed
  ultimately show ?thesis by blast
qed

lemma reject_fold_exact:
  assumes "\<And>st ts'. st \<in> set stacks \<Longrightarrow> set ts' \<subseteq> set ts \<Longrightarrow>
      \<exists>rej. f st ts' = ret rej \<and> set rej = {t \<in> set ts'. \<not> viable rs {st} t}"
    and "set ts' \<subseteq> set ts"
  shows "\<exists>rej. run_fold f stacks ts' = ret rej \<and> set rej = {t \<in> set ts'. \<forall>st \<in> set stacks. \<not> viable rs {st} t}"
  using assms
proof (induction stacks arbitrary: ts')
  case (Cons st stacks)
  from Cons.prems obtain rej where r: "f st ts' = ret rej" "set rej = {t \<in> set ts'. \<not> viable rs {st} t}"
    by (metis list.set_intros(1))
  then have "set rej \<subseteq> set ts" using Cons.prems(2) by auto
  from Cons.IH[OF _ this] Cons.prems(1) obtain rej' where
    "run_fold f stacks rej = ret rej'" "set rej' = {t \<in> set rej. \<forall>st \<in> set stacks. \<not> viable rs {st} t}" by auto
  with r show ?case by (auto simp: run_bind_def)
qed simp

lemma reject_depth_exact:
  assumes "good_rules rs" "token_free rs" "ready rs stacks" "stacks \<noteq> []"
    and "\<forall>t \<in> set ts. cd_left t + 2 \<le> n" "0 < n"
  shows "reject_ok rs stacks ts (reject_depth n rs stacks ts)"
  using assms(3-6)
proof (induction n arbitrary: stacks ts)
  case (Suc n)
  show ?case
  proof (cases "ts = []")
    case True
    with Suc.prems(2) show ?thesis by (simp add: reject_ok_def)
  next
    case False
    then obtain t0 where "t0 \<in> set ts" by (cases ts) auto
    with Suc.prems(3) have n: "0 < n" by fastforce
    have "\<exists>rej. reject_for_stack (reject_depth n rs) rs st ts' = ret rej \<and> set rej = {t \<in> set ts'. \<not> viable rs {st} t}"
      if st: "st \<in> set stacks" and sub: "set ts' \<subseteq> set ts" for st ts'
    proof (rule reject_for_stack_exact[OF assms(1,2)])
      show "wf_stack rs st" "final rs st" using Suc.prems(1) st by (auto simp: ready_def)
      fix stacks' nxt
      assume r: "ready rs stacks'" "stacks' \<noteq> []" and nx: "\<forall>t \<in> set nxt. \<exists>u \<in> set ts'. \<not> cd_done u \<and> t = cd_next u"
      have "\<forall>t \<in> set nxt. cd_left t + 2 \<le> n"
      proof
        fix t assume "t \<in> set nxt"
        with nx obtain u where u: "u \<in> set ts'" "\<not> cd_done u" "t = cd_next u" by blast
        with sub Suc.prems(3) have "cd_left u + 2 \<le> Suc n" by blast
        with u(2,3) show "cd_left t + 2 \<le> n" by (simp add: cd_left_def cd_next_def cd_done_def)
      qed
      from Suc.IH[OF r this n] show "reject_ok rs stacks' nxt (reject_depth n rs stacks' nxt)" .
    qed
    from reject_fold_exact[of stacks ts "reject_for_stack (reject_depth n rs) rs" rs ts] this obtain rej where
      "run_fold (\<lambda>st rej. reject_for_stack (reject_depth n rs) rs st rej) stacks ts = ret rej"
      "set rej = {t \<in> set ts. \<forall>st \<in> set stacks. \<not> viable rs {st} t}" by auto
    then show ?thesis
      using Suc.prems(2) False viable_Union[of rs "set stacks"] by (simp add: reject_ok_def)
  qed
qed simp

lemma fold_max_base: "(m :: nat) \<le> fold max xs m"
proof (induction xs arbitrary: m)
  case (Cons x xs)
  have "m \<le> max x m" by simp
  also have "\<dots> \<le> fold max xs (max x m)" by (rule Cons)
  finally show ?case by simp
qed simp

lemma fold_max_ge: "x \<in> set xs \<Longrightarrow> (x :: nat) \<le> fold max xs m"
proof (induction xs arbitrary: m)
  case (Cons y xs)
  have "y \<le> fold max xs (max y m)" using fold_max_base[of "max y m" xs] by simp
  with Cons show ?case by auto
qed simp

lemma reject_candidates_exact:
  assumes "good_rules rs" "token_free rs" "ready rs stacks" "stacks \<noteq> []"
  shows "\<exists>rej. reject_candidates rs stacks ts = ret rej \<and> set rej = {t \<in> set ts. \<not> viable rs (set stacks) t}"
proof -
  have "\<forall>t \<in> set ts. cd_left t + 2 \<le> fold max (map cd_left ts) 0 + 2"
    using fold_max_ge[of _ "map cd_left ts" 0] by simp
  from reject_depth_exact[OF assms this] show ?thesis by (simp add: reject_candidates_def reject_ok_def)
qed

end
