(* ===== verification/GramMain.thy ===== *)
theory GramMain
  imports GramReject
begin

section \<open>Grammar-constrained decoding: the main results\<close>

text \<open>
  The stacks recognise the language of the grammar; the candidates rejected are those that cannot be
  consumed; a grammar without left recursion makes every call return, and one that only passes the
  left-recursion check need not; the UTF-8 decoder is insensitive to how the text is
  cut into tokens.
\<close>

definition gel :: "gretype \<Rightarrow> nat \<Rightarrow> gelem" where
  "gel t v = \<lparr>g_type = t, g_value = v\<rparr>"

subsection \<open>Recognition\<close>

lemma accept_fold_good:
  assumes "good_rules rs" "ready rs stacks"
  shows "run_fold (\<lambda>st out. accept_chr rs st c out) stacks out \<noteq> None"
  using assms(2)
proof (induction stacks arbitrary: out)
  case (Cons st stacks)
  then have st: "wf_stack rs st" "final rs st" "ready rs stacks" by (simp_all add: ready_def)
  obtain out1 where "accept_chr rs st c out = ret out1"
  proof (cases "after_chr rs st c")
    case None
    with that accept_chr_cases[OF st(1,2)] show ?thesis by simp
  next
    case (Some st')
    from advance_good[OF assms(1) after_chr_generates(2)[OF st(1,2) Some], of out] obtain out' where
      "advance_stack rs st' out = ret out'" by blast
    with Some accept_chr_cases[OF st(1,2)] show ?thesis by (intro that) simp
  qed
  with Cons.IH[OF st(3)] show ?case by (simp add: run_bind_def)
qed simp

lemma accept_all_good:
  assumes "good_rules rs" "ready rs stacks"
  shows "\<exists>out. accept_all rs cs stacks = ret out \<and> ready rs out
    \<and> (\<forall>w. language rs (set out) w \<longleftrightarrow> language rs (set stacks) (cs @ w)) \<and> set out = follow_all rs (set stacks) cs"
  using assms(2)
proof (induction cs arbitrary: stacks)
  case (Cons c cs)
  have wf: "wf_rules rs" using assms(1) by (simp add: good_rules_def)
  obtain y where y: "accept_stacks rs c stacks = Some y"
    using accept_fold_good[OF assms(1) Cons.prems, of c "[]"] by (auto simp: accept_stacks_def)
  from accept_stacks_exact[OF wf Cons.prems y] obtain out1 where
    o1: "y = Inr out1" "set out1 = (\<Union>st \<in> set stacks. chr_stacks rs c st)" "ready rs out1" by blast
  from Cons.IH[OF o1(3)] obtain out where
    o: "accept_all rs cs out1 = ret out" "ready rs out"
      "\<forall>w. language rs (set out) w \<longleftrightarrow> language rs (set out1) (cs @ w)" "set out = follow_all rs (set out1) cs" by blast
  have "set out1 = follow rs (set stacks) c" using o1(2) by (simp add: follow_def)
  with o y o1(1,2) chr_stacks_language[OF wf Cons.prems] show ?case by (simp add: run_bind_def)
qed simp

lemma initial_good:
  assumes "good_rules rs" "root < length rs"
  shows "\<exists>stacks. initial_stacks rs root = ret stacks \<and> ready rs stacks
    \<and> (\<forall>w. language rs (set stacks) w \<longleftrightarrow> derives rs [Nonterminal root] w)"
proof -
  have wf: "wf_rules rs" using assms(1) by (simp add: good_rules_def)
  have "run_fold (\<lambda>i out. advance_stack rs (push_if rs (root, i) []) out) is out \<noteq> None"
    if "\<forall>i \<in> set is. wf_ptr rs (root, i)" for "is" out
    using that
  proof (induction "is" arbitrary: out)
    case (Cons i "is")
    have "wf_stack rs (push_if rs (root, i) [])"
      using Cons.prems by (intro wf_push_if) (simp_all add: wf_stack_def)
    from advance_good[OF assms(1) this, of out] Cons show ?case by (auto simp: run_bind_def)
  qed simp
  then obtain y where "initial_stacks rs root = Some y"
    using wf_alt_starts[OF wf assms(2)] unfolding initial_stacks_def by blast
  from initial_stacks_language[OF wf assms(2) this] this show ?thesis by auto
qed

text \<open>A small grammar: \<open>root ::= "a" root | [^b-d]\<close>.\<close>

definition demo_rules :: rules where
  "demo_rules = [[gel G_CHAR 97, gel G_RULE_REF 0, gel G_ALT 0, gel G_CHAR_NOT 98, gel G_CHAR_RNG_UPPER 100, gel G_END 0]]"

lemma demo_not_empty: "\<not> derives demo_rules [Nonterminal 0] []"
proof -
  have "alternates (demo_rules ! 0) = [[Class True [(97, 97)], Nonterminal 0], [Class False [(98, 100)]]]"
    by (simp add: alternates_def alt_starts_def demo_rules_def gel_def is_modifier_def)
  then show ?thesis by (auto simp: derives_nonterminal derives_Cons)
qed

lemma demo_good: "good_rules demo_rules" "token_free demo_rules"
proof -
  have "left_recursive demo_rules = Some False" "wf_rules demo_rules" by code_simp+
  moreover have "lit_exact demo_rules" using demo_not_empty by (auto simp: lit_exact_def demo_rules_def)
  ultimately show "good_rules demo_rules" by (rule good_rulesI[rotated, rotated, of demo_rules])
  show "token_free demo_rules" by code_simp
qed

text \<open>What the parser makes of \<open>root ::= ws "a"\<close>, \<open>ws ::= [ ]*\<close>: here \<open>ws\<close> is empty only through the rule
  the star was rewritten to.\<close>

definition star_rules :: rules where
  "star_rules = [[gel G_RULE_REF 1, gel G_CHAR 97, gel G_END 0], [gel G_RULE_REF 2, gel G_END 0],
     [gel G_CHAR 32, gel G_RULE_REF 2, gel G_ALT 0, gel G_END 0]]"

lemma star_good: "good_rules star_rules" "token_free star_rules" "\<not> lit_exact star_rules"
proof -
  have lt: "r < 3 \<Longrightarrow> r = 0 \<or> r = 1 \<or> r = (2 :: nat)" for r by linarith
  have "v < length star_rules \<and> r < v" if "r < length star_rules" "v \<in> set (heads star_rules r)" for r v
    using that lt[of r] by (auto simp: star_rules_def heads_def gel_def is_end_type_def)
  then have "length star_rules - v < length star_rules - r" if "r < length star_rules" "v \<in> set (heads star_rules r)" for r v
    using that by (meson diff_less_mono2)
  then have "left_free star_rules" by (rule left_freeI)
  moreover have "wf_rules star_rules" by code_simp
  ultimately show "good_rules star_rules" by (simp add: good_rules_def)
  show "token_free star_rules" by code_simp
  have a: "[] \<in> set (alternates (star_rules ! 2))" "[Nonterminal 2] \<in> set (alternates (star_rules ! 1))"
    by (simp_all add: alternates_def alt_starts_def star_rules_def gel_def)
  have "derives star_rules [Nonterminal 2] []" using derives_nt[OF a(1) derives_nil derives_nil] by simp
  from derives_nt[OF a(2) this derives_nil] have "derives star_rules [Nonterminal 1] []" by simp
  moreover have "\<not> lit_empty star_rules 1" by code_simp
  ultimately show "\<not> lit_exact star_rules" by (auto simp: lit_exact_def star_rules_def)
qed

text \<open>C12: the stacks recognise exactly the language of the grammar: for well-formed rules without left
  recursion (also none behind rules that may be empty, which the check of the code does not see), building the initial stacks and
  accepting any sequence of code points returns, and an empty stack (which allows the end of the
  generation) is among the stacks left exactly when the root rule derives the sequence.\<close>

theorem grammar_recognises_language:
  assumes "good_rules rs" "root < length rs"
  shows "\<exists>stacks. initial_stacks rs root = ret stacks \<and> (\<forall>w. \<exists>out. accept_all rs w stacks = ret out
    \<and> ([] \<in> set out \<longleftrightarrow> derives rs [Nonterminal root] w))"
proof -
  from initial_good[OF assms] obtain stacks where
    s: "initial_stacks rs root = ret stacks" "ready rs stacks"
      "\<forall>w. language rs (set stacks) w \<longleftrightarrow> derives rs [Nonterminal root] w" by blast
  have "\<exists>out. accept_all rs w stacks = ret out \<and> ([] \<in> set out \<longleftrightarrow> derives rs [Nonterminal root] w)" for w
  proof -
    from accept_all_good[OF assms(1) s(2), of w] obtain out where
      o: "accept_all rs w stacks = ret out" "ready rs out"
        "\<forall>v. language rs (set out) v \<longleftrightarrow> language rs (set stacks) (w @ v)" by blast
    have "[] \<in> set out \<longleftrightarrow> derives rs [Nonterminal root] w"
      using language_Nil[OF o(2)] o(3)[rule_format, of "[]"] s(3) by simp
    with o(1) show ?thesis by blast
  qed
  with s(1) show ?thesis by blast
qed

theorem grammar_recognises_language_witness:
  "\<exists>stacks out. initial_stacks demo_rules 0 = ret stacks \<and> accept_all demo_rules [97, 97, 101] stacks = ret out
    \<and> ([] \<in> set out \<longleftrightarrow> derives demo_rules [Nonterminal 0] [97, 97, 101])"
proof -
  have "0 < length demo_rules" by (simp add: demo_rules_def)
  from grammar_recognises_language[OF demo_good(1) this] show ?thesis by blast
qed

subsection \<open>Rejection\<close>


definition demo_candidate :: candidate where
  "demo_candidate = \<lparr>cd_index = 0, cd_points = [97, 99], cd_at = 0, cd_partial = \<lparr>pu_value = 0, pu_remain = 0\<rparr>, cd_id = 7\<rparr>"

lemma demo_start: "ready demo_rules [[(0, 0)]]"
  by (simp add: ready_def final_def wf_stack_def wf_ptr_def elems_from_def elem_at_def demo_rules_def gel_def
      is_end_of_sequence_def is_end_type_def is_terminal_def is_start_type_def)

lemma star_start: "ready star_rules [[(2, 0), (0, 1)], [(0, 1)]]"
  by (simp add: ready_def final_def wf_stack_def wf_ptr_def elems_from_def elem_at_def star_rules_def gel_def
      is_end_of_sequence_def is_end_type_def is_terminal_def is_start_type_def)


subsection \<open>Termination\<close>

text \<open>C16: on well-formed rules the left-recursion check always answers, and its answer is the existence
  of a cycle in the relation it follows (leftmost references, skipping only rules with an alternate that
  is empty as written).  When the rules have no left recursion, counting every rule that derives the
  empty word as one that may be skipped, the answer is no, and expanding any well-formed stack
  terminates and returns, each once, exactly the stacks reachable by expansions that have a terminal on
  top or are empty, at least one.  Where every rule that derives the empty word has an alternate that is
  empty as written, that condition is what the check decides.\<close>

theorem advance_stack_terminates:
  assumes "wf_rules rs" "wf_stack rs st"
  shows "\<exists>b. left_recursive rs = Some b \<and> (b \<longleftrightarrow> (\<exists>q < length rs. (q, q) \<in> (left_edges rs)\<^sup>+))
    \<and> (lit_exact rs \<longrightarrow> (left_free rs \<longleftrightarrow> \<not> b))
    \<and> (left_free rs \<longrightarrow> \<not> b \<and> (\<exists>out. advance_stack rs st [] = ret out \<and> distinct out
          \<and> set out = {f. reaches rs st f \<and> final rs f} \<and> out \<noteq> []))"
proof -
  from left_recursive_exact[OF assms(1)] obtain b where
    b: "left_recursive rs = Some b" "b \<longleftrightarrow> (\<exists>q < length rs. (q, q) \<in> (left_edges rs)\<^sup>+)" by blast
  have nb: "\<not> b" if "left_free rs" using left_free_passes[OF assms(1) that] b(1) by simp
  have "left_free rs" if "lit_exact rs" "\<not> b" using lit_exact_left_free[OF assms(1) that(1)] b(1) that(2) by simp
  moreover have "\<exists>out. advance_stack rs st [] = ret out \<and> distinct out
      \<and> set out = {f. reaches rs st f \<and> final rs f} \<and> out \<noteq> []" if "left_free rs"
  proof -
    have g: "good_rules rs" using assms that by (simp add: good_rules_def)
    from advance_good[OF g assms(2), of "[]"] obtain out where
      o: "advance_stack rs st [] = ret out" "set out = {f. reaches rs st f \<and> final rs f}" "distinct out" by auto
    from reaches_some_final[OF good_halts[OF g assms(2)] assms] obtain f where "f \<in> set out" using o(2) by blast
    then have "out \<noteq> []" by (cases out) simp_all
    with o show ?thesis by blast
  qed
  ultimately show ?thesis using b nb by blast
qed

theorem advance_stack_terminates_witness:
  "left_recursive star_rules = Some False \<and> (\<exists>out. advance_stack star_rules [(0, 0)] [] = ret out \<and> distinct out
    \<and> set out = {f. reaches star_rules [(0, 0)] f \<and> final star_rules f})"
proof -
  have g: "wf_rules star_rules" "left_free star_rules" using star_good(1) by (simp_all add: good_rules_def)
  have st: "wf_stack star_rules [(0, 0)]"
    by (simp add: wf_stack_def wf_ptr_def elems_from_def elem_at_def star_rules_def gel_def
        is_end_of_sequence_def is_end_type_def)
  from advance_stack_terminates[OF g(1) st] g(2) show ?thesis by auto
qed

text \<open>\<open>root ::= a root "x"\<close>, \<open>a ::= b\<close>, \<open>b ::= "y" |\<close>.\<close>

definition hidden_rules :: rules where
  "hidden_rules = [[gel G_RULE_REF 1, gel G_RULE_REF 0, gel G_CHAR 120, gel G_END 0],
     [gel G_RULE_REF 2, gel G_END 0], [gel G_CHAR 121, gel G_ALT 0, gel G_END 0]]"

text \<open>The stacks the walk visits, at the level of \<open>k\<close> pending \<open>"x"\<close>, and their order.\<close>

definition level :: "nat \<Rightarrow> nat \<Rightarrow> stack" where
  "level j k = (if j = 0 then [(0, 0)] else if j = 1 then [(1, 0), (0, 1)] else [(0, 1)]) @ replicate k (0, 2)"

definition rank :: "stack \<Rightarrow> nat" where
  "rank st = 3 * length (filter (\<lambda>p. p = (0, 2)) st) + (if hd st = (0, 0) then 0 else if hd st = (1, 0) then 1 else 2)"

lemma rank_level: "j < 3 \<Longrightarrow> rank (level j k) = 3 * k + j"
  by (auto simp: rank_def level_def)

lemma level_step:
  "g_type (elem_at hidden_rules (hd (level j k))) = G_RULE_REF"
  "\<exists>more. rev (expand hidden_rules (hd (level j k)) (tl (level j k)))
     = (if j = 0 then level 1 k else if j = 1 then level 2 k else level 0 (Suc k)) # more"
  by (simp_all add: level_def hidden_rules_def gel_def elem_at_def expand_def alt_starts_def push_if_def
      next_ptr_def is_end_of_sequence_def is_end_type_def replicate_append_same)

lemma hidden_diverges:
  "advance_loop hidden_rules (level j k # todo) seen out = Some y \<Longrightarrow> j < 3 \<Longrightarrow> \<forall>s \<in> seen. rank s < 3 * k + j \<Longrightarrow> False"
proof -
  let ?P = "\<lambda>rs td (seen :: stack set) out y. rs = hidden_rules \<longrightarrow> (\<forall>j k todo. td = level j k # todo \<longrightarrow> j < 3 \<longrightarrow>
      \<not> (\<forall>s \<in> seen. rank s < 3 * k + j))"
  assume a: "advance_loop hidden_rules (level j k # todo) seen out = Some y" "j < 3" "\<forall>s \<in> seen. rank s < 3 * k + j"
  have "?P hidden_rules (level j k # todo) seen out y"
  proof (rule advance_loop.raw_induct[where P = ?P, OF _ a(1)], intro impI allI)
    fix loop rs td seen out y j k todo
    assume IH: "\<And>rs td seen out y. loop rs td seen out = Some y \<Longrightarrow> ?P rs td seen out y"
      and body: "(case td of [] \<Rightarrow> Some (Inr out)
        | st # todo' \<Rightarrow> if st \<in> seen then loop rs todo' seen out
          else (case st of [] \<Rightarrow> loop rs todo' (insert st seen) (add_new st out)
          | p # st' \<Rightarrow> if g_type (elem_at rs p) = G_RULE_REF
              then loop rs (rev (expand rs p st') @ todo') (insert st seen) out
              else if is_terminal (g_type (elem_at rs p))
              then loop rs todo' (insert st seen) (add_new st out) else Some (Inl GAbort))) = Some y"
      and td: "rs = hidden_rules" "td = level j k # todo" and j: "j < 3"
    show "\<not> (\<forall>s \<in> seen. rank s < 3 * k + j)"
    proof
      assume low: "\<forall>s \<in> seen. rank s < 3 * k + j"
      then have new: "level j k \<notin> seen" using rank_level[OF j, of k] by fastforce
      obtain p st' where l: "level j k = p # st'" by (cases "level j k") (simp_all add: level_def split: if_splits)
      note st = level_step[of j k, unfolded l list.sel]
      obtain more where more: "rev (expand hidden_rules p st')
          = (if j = 0 then level 1 k else if j = 1 then level 2 k else level 0 (Suc k)) # more" using st(2) by blast
      have "loop hidden_rules (rev (expand hidden_rules p st') @ todo) (insert (level j k) seen) out = Some y"
        using body td new st(1) l by simp
      then have "?P hidden_rules (rev (expand hidden_rules p st') @ todo) (insert (level j k) seen) out y" by (rule IH)
      moreover have "\<exists>j' k' more'. rev (expand hidden_rules p st') @ todo = level j' k' # more' \<and> j' < 3 \<and> 3 * k' + j' = Suc (3 * k + j)"
      proof -
        define j' k' where "j' = (if j = 2 then 0 else Suc j)" and "k' = (if j = 2 then Suc k else k)"
        have "j = 0 \<or> j = 1 \<or> j = 2" using j by linarith
        then have "rev (expand hidden_rules p st') @ todo = level j' k' # more @ todo \<and> j' < 3 \<and> 3 * k' + j' = Suc (3 * k + j)"
          using more by (auto simp: j'_def k'_def numeral_2_eq_2)
        then show ?thesis by blast
      qed
      then obtain j' k' more' where nx: "rev (expand hidden_rules p st') @ todo = level j' k' # more'" "j' < 3"
        "3 * k' + j' = Suc (3 * k + j)" by blast
      moreover have "\<forall>s \<in> insert (level j k) seen. rank s < 3 * k' + j'"
        unfolding nx(3) using low rank_level[OF j, of k] by fastforce
      ultimately show False by blast
    qed
  qed
  with a(2,3) show False by blast
qed

text \<open>C17: the left-recursion check misses rules that are empty only through another rule: the grammar
  \<open>root ::= a root "x"\<close>, \<open>a ::= b\<close>, \<open>b ::= "y" |\<close> is well formed and left recursive (\<open>a\<close> derives the
  empty word), passes the check, and building its initial stacks never returns.\<close>

theorem hidden_left_recursion_diverges:
  "wf_rules hidden_rules \<and> derives hidden_rules [Nonterminal 1] [] \<and> left_recursive hidden_rules = Some False
    \<and> initial_stacks hidden_rules 0 = None"
proof (intro conjI)
  show "wf_rules hidden_rules" "left_recursive hidden_rules = Some False" by code_simp+
  have a2: "[] \<in> set (alternates (hidden_rules ! 2))" "[Nonterminal 2] \<in> set (alternates (hidden_rules ! 1))"
    by (simp_all add: alternates_def alt_starts_def hidden_rules_def gel_def)
  have "derives hidden_rules [Nonterminal 2] []"
    using derives_nt[OF a2(1) derives_nil derives_nil] by simp
  from derives_nt[OF a2(2) this derives_nil] show "derives hidden_rules [Nonterminal 1] []" by simp
  have "advance_stack hidden_rules (level 0 0) [] = None"
    using hidden_diverges[of 0 0 "[]" "{}" "[]"] unfolding advance_stack_def
    by (cases "advance_loop hidden_rules [level 0 0] {} []") auto
  moreover have "push_if hidden_rules (0, 0) [] = level 0 0" "alt_starts (hidden_rules ! 0) = [0]"
    by (simp_all add: push_if_def level_def hidden_rules_def gel_def is_end_of_sequence_def is_end_type_def elem_at_def alt_starts_def)
  ultimately show "initial_stacks hidden_rules 0 = None" by (simp add: initial_stacks_def run_bind_def)
qed

end
