(* ===== verification/GramEngine.thy ===== *)
theory GramEngine
  imports GramMain
begin

section \<open>The grammar object: sampling and accepting tokens (src/llama-grammar.cpp)\<close>

text \<open>
  The object a sampler holds: the rules, the current stacks, the unfinished character of the last
  token, and for a lazy grammar the text buffered until a trigger.  \<open>sample_impl\<close> masks the
  candidates that cannot come next, \<open>accept_impl\<close> consumes the token chosen.  The vocabulary
  (\<open>piece_of\<close>, \<open>is_eog\<close>) and the regular expressions (\<open>rx_match\<close>, \<open>rx_search\<close>, which give the position
  and the length of each group) are parameters.  A logit is \<open>None\<close> when it is minus infinity;
  \<open>GNull\<close> is the dereference of a null pointer.
\<close>

record 'r trigger_pattern =
  tp_pattern :: "nat list"
  tp_regex :: 'r

record 'r grammar =
  gr_rules :: rules
  gr_stacks :: "stack list"
  gr_partial :: partial_utf8
  gr_awaiting :: bool
  gr_buffer :: "nat list"
  gr_positions :: "(nat \<times> nat \<times> nat) list"
  gr_trigger_tokens :: "nat list"
  gr_trigger_patterns :: "'r trigger_pattern list"

subsection \<open>Triggers\<close>

type_synonym groups = "(nat \<times> nat) list"

definition find_start_pos :: "groups \<Rightarrow> nat" where
  "find_start_pos gs = (case find (\<lambda>(p, n). 0 < n) (tl gs) of Some (p, n) \<Rightarrow> p | None \<Rightarrow> fst (hd gs))"

definition trigger_find ::
  "('r \<Rightarrow> nat list \<Rightarrow> groups option) \<Rightarrow> ('r \<Rightarrow> nat list \<Rightarrow> groups option) \<Rightarrow> 'r trigger_pattern \<Rightarrow> nat list \<Rightarrow> nat option" where
  "trigger_find rx_match rx_search tp input =
     (let p = tp_pattern tp in
      case (if p \<noteq> [] \<and> hd p = 94 \<and> last p = 36 then rx_match (tp_regex tp) input else None) of
        Some gs \<Rightarrow> Some (find_start_pos gs)
      | None \<Rightarrow> map_option find_start_pos (rx_search (tp_regex tp) input))"

fun first_trigger :: "('r trigger_pattern \<Rightarrow> nat list \<Rightarrow> nat option) \<Rightarrow> 'r trigger_pattern list \<Rightarrow> nat list \<Rightarrow> nat option" where
  "first_trigger fnd [] buf = None"
| "first_trigger fnd (tp # tps) buf = (case fnd tp buf of Some s \<Rightarrow> Some s | None \<Rightarrow> first_trigger fnd tps buf)"

subsection \<open>Accepting a token\<close>

fun accept_until :: "rules \<Rightarrow> nat list \<Rightarrow> stack list \<Rightarrow> stack list run" where
  "accept_until rs [] cur = ret cur"
| "accept_until rs (c # cs) cur =
     run_bind (accept_stacks rs c cur) (\<lambda>nxt. if nxt = [] then ret [] else accept_until rs cs nxt)"

definition accept_token_stack :: "rules \<Rightarrow> nat \<Rightarrow> nat list \<Rightarrow> stack \<Rightarrow> stack list \<Rightarrow> stack list run" where
  "accept_token_stack rs tok pts st new =
     (case st of
        [] \<Rightarrow> ret new
      | p # st' \<Rightarrow>
          if is_token_type (g_type (elem_at rs p)) then
            (if match_token rs p tok = Some True then advance_stack rs (push_if rs (next_ptr p) st') new else ret new)
          else run_bind (accept_until rs pts [st]) (\<lambda>cur. ret (fold add_new cur new)))"

definition accept_token :: "nat \<Rightarrow> nat list \<Rightarrow> 'r grammar \<Rightarrow> 'r grammar run" where
  "accept_token tok piece g =
     (case decode_utf8 piece (gr_partial g) of (pts, pu) \<Rightarrow>
        run_bind (run_fold (accept_token_stack (gr_rules g) tok pts) (gr_stacks g) []) (\<lambda>new.
          if new = [] then Some (Inl GThrow) else ret (g\<lparr>gr_stacks := new, gr_partial := pu\<rparr>)))"

definition accept_str :: "nat list \<Rightarrow> 'r grammar \<Rightarrow> 'r grammar run" where
  "accept_str piece g =
     (case decode_utf8 piece (gr_partial g) of (pts, pu) \<Rightarrow>
        run_bind (accept_all (gr_rules g) pts (gr_stacks g)) (\<lambda>new.
          if new = [] then Some (Inl GThrow) else ret (g\<lparr>gr_stacks := new, gr_partial := pu\<rparr>)))"

text \<open>The tokens of the buffer that overlap the text from the trigger on, with the part of each that does.\<close>

fun replay_pieces :: "nat \<Rightarrow> nat list \<Rightarrow> (nat \<times> nat \<times> nat) list \<Rightarrow> (nat \<times> nat list) list" where
  "replay_pieces start buf [] = []"
| "replay_pieces start buf ((tok, s, e) # ps) =
     (if e \<le> start then replay_pieces start buf ps
      else (let b = (if s < start then start else s) in (tok, take (e - b) (drop b buf)) # replay_pieces start buf ps))"

definition feed :: "(nat \<times> nat list) list \<Rightarrow> 'r grammar \<Rightarrow> 'r grammar run" where
  "feed ps g = run_fold (\<lambda>(tok, piece). accept_token tok piece) ps g"

definition accept_impl ::
  "(nat \<Rightarrow> nat list) \<Rightarrow> (nat \<Rightarrow> bool) \<Rightarrow> ('r trigger_pattern \<Rightarrow> nat list \<Rightarrow> nat option) \<Rightarrow> nat \<Rightarrow> 'r grammar \<Rightarrow> 'r grammar run" where
  "accept_impl piece_of is_eog fnd tok g =
     (let piece = piece_of tok in
      if gr_awaiting g then
        (if tok \<in> set (gr_trigger_tokens g)
         then accept_token tok piece (g\<lparr>gr_awaiting := False, gr_buffer := []\<rparr>)
         else
           let g1 = g\<lparr>gr_positions := gr_positions g @ [(tok, length (gr_buffer g), length (gr_buffer g) + length piece)],
                      gr_buffer := gr_buffer g @ piece\<rparr>
           in (case first_trigger fnd (gr_trigger_patterns g1) (gr_buffer g1) of
                 None \<Rightarrow> ret g1
               | Some start \<Rightarrow>
                   run_bind (feed (replay_pieces start (gr_buffer g1) (gr_positions g1)) (g1\<lparr>gr_awaiting := False\<rparr>))
                     (\<lambda>g2. ret (g2\<lparr>gr_buffer := [], gr_positions := []\<rparr>))))
      else if is_eog tok then (if [] \<in> set (gr_stacks g) then ret g else Some (Inl GAbort))
      else accept_token tok piece g)"

subsection \<open>Masking the candidates\<close>

text \<open>The pass over the candidates: those masked at once, and those decoded for the grammar.  A decoded
  piece is read up to its first zero.\<close>

fun sample_pass ::
  "(nat \<Rightarrow> nat list) \<Rightarrow> (nat \<Rightarrow> bool) \<Rightarrow> bool \<Rightarrow> partial_utf8 \<Rightarrow> nat \<Rightarrow> 'l token_data list \<Rightarrow> 'l token_data list \<times> candidate list" where
  "sample_pass piece_of is_eog allow_eog pu i [] = ([], [])"
| "sample_pass piece_of is_eog allow_eog pu i (d # ds) =
     (case sample_pass piece_of is_eog allow_eog pu (Suc i) ds of (ds', cs) \<Rightarrow>
        let piece = piece_of (td_id d) in
        if is_eog (td_id d) then ((if allow_eog then d else d\<lparr>td_logit := None\<rparr>) # ds', cs)
        else if piece = [] \<or> hd piece = 0 then (d\<lparr>td_logit := None\<rparr> # ds', cs)
        else (case decode_utf8 piece pu of (pts, pu') \<Rightarrow>
          (d # ds', \<lparr>cd_index = i, cd_points = takeWhile (\<lambda>c. c \<noteq> 0) pts, cd_at = 0, cd_partial = pu', cd_id = td_id d\<rparr> # cs)))"

fun mask_rejects :: "candidate list \<Rightarrow> 'l token_data list \<Rightarrow> 'l token_data list" where
  "mask_rejects [] ds = ds"
| "mask_rejects (r # rs) ds = mask_rejects rs (ds[cd_index r := (ds ! cd_index r)\<lparr>td_logit := None\<rparr>])"

text \<open>The condition on the timing object is inverted: a missing one is dereferenced.\<close>

definition sample_impl ::
  "(nat \<Rightarrow> nat list) \<Rightarrow> (nat \<Rightarrow> bool) \<Rightarrow> bool \<Rightarrow> 'r grammar \<Rightarrow> 'l token_data list \<Rightarrow> 'l token_data list run" where
  "sample_impl piece_of is_eog has_smpl g cands =
     (if gr_awaiting g then ret cands
      else case sample_pass piece_of is_eog ([] \<in> set (gr_stacks g)) (gr_partial g) 0 cands of (ds, cs) \<Rightarrow>
        run_bind (reject_candidates (gr_rules g) (gr_stacks g) cs) (\<lambda>rejects.
          if has_smpl then ret (mask_rejects rejects ds) else Some (Inl GNull)))"

subsection \<open>Accepting is following\<close>

lemma follow_all_empty [simp]: "follow_all rs {} cs = {}"
  by (induction cs) (simp_all add: follow_def)

lemma follow_all_append: "follow_all rs S (as @ bs) = follow_all rs (follow_all rs S as) bs"
  by (induction as arbitrary: S) simp_all

lemma accept_stacks_good:
  assumes "good_rules rs" "ready rs stacks"
  shows "\<exists>out. accept_stacks rs c stacks = ret out \<and> ready rs out \<and> set out = follow rs (set stacks) c"
proof -
  obtain y where y: "accept_stacks rs c stacks = Some y"
    using accept_fold_good[OF assms, of c "[]"] by (auto simp: accept_stacks_def)
  have "wf_rules rs" using assms(1) by (simp add: good_rules_def)
  from accept_stacks_exact[OF this assms(2) y] y show ?thesis by (auto simp: follow_def)
qed

lemma accept_until_exact:
  assumes "good_rules rs" "ready rs cur"
  shows "\<exists>out. accept_until rs cs cur = ret out \<and> ready rs out \<and> set out = follow_all rs (set cur) cs"
  using assms(2)
proof (induction cs arbitrary: cur)
  case (Cons c cs)
  from accept_stacks_good[OF assms(1) Cons.prems] obtain nxt where
    n: "accept_stacks rs c cur = ret nxt" "ready rs nxt" "set nxt = follow rs (set cur) c" by blast
  show ?case
  proof (cases "nxt = []")
    case True
    with n show ?thesis by (simp add: run_bind_def)
  next
    case False
    with n Cons.IH[OF n(2)] show ?thesis by (simp add: run_bind_def)
  qed
qed simp

lemma set_fold_add_new [simp]: "set (fold add_new xs ys) = set xs \<union> set ys"
  by (induction xs arbitrary: ys) auto

lemma ready_iff: "ready rs xs \<longleftrightarrow> (\<forall>st \<in> set xs. wf_stack rs st \<and> final rs st)"
  by (auto simp: ready_def)

lemma accept_token_fold:
  assumes "good_rules rs" "token_free rs" "ready rs stacks" "ready rs new"
  shows "\<exists>out. run_fold (accept_token_stack rs tok pts) stacks new = ret out \<and> ready rs out
    \<and> set out = set new \<union> (\<Union>st \<in> set stacks. if st = [] then {} else follow_all rs {st} pts)"
  using assms(3,4)
proof (induction stacks arbitrary: new)
  case (Cons st stacks)
  have st: "wf_stack rs st" "final rs st" and rest: "ready rs stacks" using Cons.prems(1) by (simp_all add: ready_iff)
  have "\<exists>out. accept_token_stack rs tok pts st new = ret out \<and> ready rs out
    \<and> set out = set new \<union> (if st = [] then {} else follow_all rs {st} pts)"
  proof (cases st)
    case Nil
    then show ?thesis using Cons.prems(2) by (simp add: accept_token_stack_def)
  next
    case (Cons p st')
    have nt: "\<not> is_token_type (g_type (elem_at rs p))" using top_not_token[OF assms(2)] st(1) Cons by blast
    have "ready rs [st]" using st by (simp add: ready_iff)
    from accept_until_exact[OF assms(1) this, of pts] obtain cur where
      cur: "accept_until rs pts [st] = ret cur" "ready rs cur" "set cur = follow_all rs {st} pts" by auto
    then show ?thesis
      using Cons nt Cons.prems(2) \<open>ready rs new\<close> by (auto simp: accept_token_stack_def run_bind_def ready_iff)
  qed
  then obtain out1 where o1: "accept_token_stack rs tok pts st new = ret out1" "ready rs out1"
    "set out1 = set new \<union> (if st = [] then {} else follow_all rs {st} pts)" by blast
  from Cons.IH[OF rest o1(2)] o1 show ?case by (auto simp: run_bind_def)
qed simp

lemma follow_all_no_empty: "cs \<noteq> [] \<Longrightarrow> follow_all rs {[]} cs = {}"
  by (cases cs) (simp_all add: follow_def chr_stacks_def after_chr_def)

definition engine_ok :: "'r grammar \<Rightarrow> bool" where
  "engine_ok g \<longleftrightarrow> good_rules (gr_rules g) \<and> token_free (gr_rules g) \<and> ready (gr_rules g) (gr_stacks g) \<and> gr_stacks g \<noteq> []"

end
