(* ===== verification/GramPartial.thy ===== *)
theory GramPartial
  imports GramReject
begin

section \<open>Unfinished characters (\<open>llama_grammar_match_partial_char\<close>)\<close>

text \<open>
  The code points an unfinished UTF-8 sequence can still become are an interval; the loop over the
  alternatives of a character class compares that interval with each of the ranges.
\<close>

text \<open>The values \<open>n\<close> more continuation bytes can lead to.\<close>

definition continuations :: "nat \<Rightarrow> nat \<Rightarrow> nat set" where
  "continuations v n = {foldl shift_in v bs | bs. length bs = n \<and> (\<forall>b \<in> set bs. b div 64 = 2)}"

lemma continuations_0 [simp]: "continuations v 0 = {v}"
  by (auto simp: continuations_def)

lemma continuations_Suc: "continuations v (Suc n) = (\<Union>b \<in> {b. b div 64 = 2}. continuations (shift_in v b) n)"
proof -
  have "c \<in> continuations v (Suc n) \<longleftrightarrow> (\<exists>b. b div 64 = 2 \<and> c \<in> continuations (shift_in v b) n)" for c
  proof
    assume "c \<in> continuations v (Suc n)"
    then obtain bs where "length bs = Suc n" "\<forall>b \<in> set bs. b div 64 = 2" "c = foldl shift_in v bs"
      by (auto simp: continuations_def)
    then show "\<exists>b. b div 64 = 2 \<and> c \<in> continuations (shift_in v b) n"
      by (cases bs) (auto simp: continuations_def)
  next
    assume "\<exists>b. b div 64 = 2 \<and> c \<in> continuations (shift_in v b) n"
    then obtain b bs where "b div 64 = 2" "length bs = n" "\<forall>b \<in> set bs. b div 64 = 2" "c = foldl shift_in (shift_in v b) bs"
      by (auto simp: continuations_def)
    then have "length (b # bs) = Suc n \<and> (\<forall>b \<in> set (b # bs). b div 64 = 2) \<and> c = foldl shift_in v (b # bs)" by simp
    then show "c \<in> continuations v (Suc n)" unfolding continuations_def by blast
  qed
  then show ?thesis by auto
qed

lemma continuations_interval:
  "v * 64 ^ n + 64 ^ n \<le> 2 ^ 32 \<Longrightarrow> continuations v n = {v * 64 ^ n ..< v * 64 ^ n + 64 ^ n}"
proof (induction n arbitrary: v)
  case (Suc n)
  have small: "v * 64 + 64 \<le> 2 ^ 32"
  proof -
    have "(v * 64 + 64) * 1 \<le> (v * 64 + 64) * 64 ^ n" by (intro mult_le_mono2) simp
    also have "\<dots> \<le> 2 ^ 32" using Suc.prems by (simp add: algebra_simps)
    finally show ?thesis by simp
  qed
  have sh: "shift_in v (128 + r) = v * 64 + r" if "r < 64" for r
  proof -
    have "(128 + r) mod 64 = r" using mod_above[OF that, of 2] by simp
    with small that show ?thesis by (simp add: shift_in_def)
  qed
  have bytes: "{b. b div 64 = 2} = (\<lambda>r. 128 + r) ` {..<64 :: nat}"
  proof -
    have "b \<in> (\<lambda>r. 128 + r) ` {..<64}" if "b div 64 = 2" for b :: nat
      using that by (intro image_eqI[of _ _ "b - 128"]) simp_all
    then show ?thesis by auto
  qed
  have IH: "continuations (v * 64 + r) n = {(v * 64 + r) * 64 ^ n ..< (v * 64 + r) * 64 ^ n + 64 ^ n}" if "r < 64" for r
  proof (rule Suc.IH)
    have "(v * 64 + r) * 64 ^ n + 64 ^ n = (v * 64 + Suc r) * 64 ^ n" by (simp add: algebra_simps)
    also have "\<dots> \<le> (v * 64 + 64) * 64 ^ n" using that by (intro mult_le_mono1) simp
    also have "\<dots> \<le> 2 ^ 32" using Suc.prems by (simp add: algebra_simps)
    finally show "(v * 64 + r) * 64 ^ n + 64 ^ n \<le> 2 ^ 32" .
  qed
  have "continuations v (Suc n) = (\<Union>r \<in> {..<64}. {(v * 64 + r) * 64 ^ n ..< (v * 64 + r) * 64 ^ n + 64 ^ n})"
    unfolding continuations_Suc bytes using sh IH by simp
  also have "\<dots> = {v * 64 ^ Suc n ..< v * 64 ^ Suc n + 64 ^ Suc n}"
  proof -
    have "c \<in> (\<Union>r \<in> {..<64}. {(v * 64 + r) * 64 ^ n ..< (v * 64 + r) * 64 ^ n + 64 ^ n})"
      if c: "v * 64 ^ Suc n \<le> c" "c < v * 64 ^ Suc n + 64 ^ Suc n" for c
    proof -
      let ?q = "c div 64 ^ n"
      have "v * 64 \<le> ?q" using c(1) by (simp add: less_eq_div_iff_mult_less_eq algebra_simps)
      moreover have "?q < v * 64 + 64" using c(2) by (simp add: div_less_iff_less_mult algebra_simps)
      ultimately have "?q - v * 64 \<in> {..<64}" "v * 64 + (?q - v * 64) = ?q" by auto
      moreover have "?q * 64 ^ n \<le> c" "c < ?q * 64 ^ n + 64 ^ n"
        using dividend_less_div_times[of "64 ^ n" c] by (simp_all add: add.commute)
      ultimately show ?thesis by (intro UN_I[of "?q - v * 64"]) simp_all
    qed
    moreover have "v * 64 ^ Suc n \<le> c \<and> c < v * 64 ^ Suc n + 64 ^ Suc n"
      if r: "r < 64" and c: "(v * 64 + r) * 64 ^ n \<le> c" "c < (v * 64 + r) * 64 ^ n + 64 ^ n" for r c
    proof -
      have "(v * 64 + Suc r) * 64 ^ n \<le> (v * 64 + 64) * 64 ^ n" using r by (intro mult_le_mono1) simp
      then have "(v * 64 + r) * 64 ^ n + 64 ^ n \<le> v * 64 ^ Suc n + 64 ^ Suc n" "v * 64 ^ Suc n \<le> (v * 64 + r) * 64 ^ n"
        by (simp_all add: algebra_simps)
      with c show ?thesis by linarith
    qed
    ultimately show ?thesis by fastforce
  qed
  finally show ?case .
qed simp

text \<open>Those that are not the value of a shorter encoding, as far as the first byte of the rest decides it.\<close>

definition completions :: "partial_utf8 \<Rightarrow> nat set" where
  "completions pu = {c \<in> continuations (pu_value pu) (nat (pu_remain pu)).
     0 \<le> pu_remain pu \<and> (pu_remain pu = 1 \<longrightarrow> 2 \<le> pu_value pu)
     \<and> (pu_value pu = 0 \<and> pu_remain pu = 2 \<longrightarrow> 2 ^ 11 \<le> c) \<and> (pu_value pu = 0 \<and> pu_remain pu = 3 \<longrightarrow> 2 ^ 16 \<le> c)}"

definition meets :: "nat \<Rightarrow> nat \<Rightarrow> (nat \<times> nat) list \<Rightarrow> bool" where
  "meets low high rgs \<longleftrightarrow> list_ex (\<lambda>(a, b). a \<le> high \<and> low \<le> b) rgs"

lemma partial_scan_ranges:
  assumes "wf_elems n 1 es" "g_type e \<noteq> G_CHAR_ANY"
  shows "partial_scan (e # es) low high pos = (if meets low high (ranges (e # takeWhile is_modifier es)) then Some pos else None)"
  using assms
proof (induction "e # es" low high pos arbitrary: e es rule: partial_scan.induct)
  case (1 e u es low high pos)
  show ?case
  proof (cases "g_type u = G_CHAR_RNG_UPPER")
    case True
    then have wf: "wf_elems n 2 es" using 1(3) by simp
    have mod: "is_modifier u" using True by (simp add: is_modifier_def)
    show ?thesis
    proof (cases "es \<noteq> [] \<and> g_type (hd es) = G_CHAR_ALT")
      case alt: True
      then obtain a es' where es: "es = a # es'" "g_type a = G_CHAR_ALT" by (cases es) auto
      then have "wf_elems n 1 es'" using wf by simp
      with 1(1)[OF True _ alt es(1)] es True mod show ?thesis by (auto simp: meets_def is_modifier_def)
    next
      case False
      have "es \<noteq> []" using wf by auto
      with False wf have "\<not> is_modifier (hd es)" by (cases es) (auto simp: is_modifier_def)
      then have "takeWhile is_modifier es = []" by (cases es) auto
      with True mod False show ?thesis by (auto simp: meets_def)
    qed
  next
    case no_range: False
    show ?thesis
    proof (cases "g_type u = G_CHAR_ALT")
      case True
      then have "wf_elems n 1 es" using 1(3) by simp
      with 1(2)[OF no_range 1(4) _ True] True 1(4) no_range show ?thesis by (auto simp: meets_def is_modifier_def)
    next
      case False
      with no_range 1(4) show ?thesis by (auto simp: meets_def is_modifier_def)
    qed
  qed
qed simp_all

lemma meets_in_ranges:
  assumes "list_all (\<lambda>(a, b). a \<le> b) rgs" "low \<le> high"
  shows "meets low high rgs \<longleftrightarrow> (\<exists>c \<in> {low..high}. in_ranges c rgs)"
  using assms(1)
proof (induction rgs)
  case (Cons r rgs)
  obtain a b where r: "r = (a, b)" by (cases r)
  with Cons.prems have ab: "a \<le> b" by simp
  have "a \<le> high \<and> low \<le> b \<longleftrightarrow> (\<exists>c \<in> {low..high}. a \<le> c \<and> c \<le> b)"
  proof
    assume "a \<le> high \<and> low \<le> b"
    with ab assms(2) have "max a low \<in> {low..high} \<and> a \<le> max a low \<and> max a low \<le> b" by simp
    then show "\<exists>c \<in> {low..high}. a \<le> c \<and> c \<le> b" by blast
  qed auto
  with Cons r show ?case by (auto simp: meets_def in_ranges_def)
qed (simp add: meets_def in_ranges_def)

lemma interval_top: "0 < (m :: nat) \<Longrightarrow> {a ..< a + m} = {a..a + (m - 1)}"
  by auto

lemma completions_interval:
  assumes "0 \<le> pu_remain pu" "pu_remain pu \<le> 3" "\<not> (pu_remain pu = 1 \<and> pu_value pu < 2)"
    and "(pu_value pu + 1) * 64 ^ nat (pu_remain pu) \<le> 2 ^ 32"
  defines "low \<equiv> partial_low (pu_value pu) (nat (pu_remain pu))"
    and "high \<equiv> partial_high (pu_value pu) (nat (pu_remain pu))"
  defines "low' \<equiv> (if low = 0 then (if pu_remain pu = 2 then 2 ^ 11 else if pu_remain pu = 3 then 2 ^ 16 else low) else low)"
  shows "completions pu = {low'..high}" "low' \<le> high"
proof -
  let ?v = "pu_value pu" and ?n = "nat (pu_remain pu)"
  have pw: "(2 :: nat) ^ (6 * ?n) = 64 ^ ?n" by (simp add: power_mult)
  have fit: "?v * 64 ^ ?n + 64 ^ ?n \<le> 2 ^ 32" using assms(4) by (simp add: algebra_simps)
  have pos: "(0 :: nat) < 64 ^ ?n" by simp
  have lo: "low = ?v * 64 ^ ?n" using fit pos unfolding low_def partial_low_def pw by (intro mod_less) linarith
  have hi: "high = ?v * 64 ^ ?n + (64 ^ ?n - 1)" using lo unfolding high_def partial_high_def pw low_def[symmetric] by simp
  have int: "continuations ?v ?n = {low..high}"
    unfolding continuations_interval[OF fit] lo hi using interval_top[OF pos] by blast
  have n: "?n = 0 \<or> ?n = 1 \<or> ?n = 2 \<or> ?n = 3" using assms(1,2) by linarith
  have z: "low = 0 \<longleftrightarrow> ?v = 0" unfolding lo by simp
  show "completions pu = {low'..high}"
    unfolding completions_def int low'_def using assms(1-3) z by auto
  show "low' \<le> high"
  proof (cases "?v = 0")
    case True
    with n lo hi show ?thesis using assms(1) unfolding low'_def by auto
  next
    case False
    have "low \<le> high" unfolding lo hi using pos by linarith
    with False z show ?thesis unfolding low'_def by simp
  qed
qed

lemma class_symbol:
  assumes "wf_ptr rs p" "symbols (elems_from rs p) = Class pos rgs # ss"
  shows "\<exists>e es. elems_from rs p = e # es \<and> g_type e \<noteq> G_CHAR_ANY \<and> wf_elems (length rs) 1 es
    \<and> elem_at rs p = e \<and> is_start_type (g_type e) \<and> pos = is_positive (g_type e) \<and> rgs = ranges (e # takeWhile is_modifier es)"
proof -
  have wf: "wf_elems (length rs) 0 (elem_at rs p # elems_from rs (next_ptr p))"
    using assms(1) unfolding wf_ptr_def wf_ptr_cons[OF assms(1)] by blast
  show ?thesis
    using assms(2) wf unfolding wf_ptr_cons[OF assms(1)]
    by (auto simp: is_start_type_def is_positive_def simp del: ranges.simps split: gretype.splits)
qed

lemma class_meets_exact:
  assumes "wf_ptr rs p" "symbols (elems_from rs p) = Class pos rgs # ss" "list_all (\<lambda>(a, b). a \<le> b) rgs"
    and "pu_remain pu \<le> 3" "(pu_value pu + 1) * 64 ^ nat (pu_remain pu) \<le> 2 ^ 32"
  shows "match_partial_char rs p pu = Some (completions pu \<noteq> {} \<and>
    (if pos then \<exists>c \<in> completions pu. sym_ok (Class pos rgs) c else \<forall>c \<in> completions pu. sym_ok (Class pos rgs) c))"
proof -
  from class_symbol[OF assms(1,2)] obtain e es where
    e: "elems_from rs p = e # es" "g_type e \<noteq> G_CHAR_ANY" "wf_elems (length rs) 1 es" "elem_at rs p = e"
       "is_start_type (g_type e)" "pos = is_positive (g_type e)" "rgs = ranges (e # takeWhile is_modifier es)" by blast
  have m: "match_partial_char rs p pu = Some (class_meets (e # es) pos pu)"
    using e by (simp add: match_partial_char_def)
  show ?thesis
  proof (cases "pu_remain pu < 0 \<or> (pu_remain pu = 1 \<and> pu_value pu < 2)")
    case True
    then have "\<not> class_meets (e # es) pos pu" "completions pu = {}" by (auto simp: class_meets_def completions_def)
    with m show ?thesis by simp
  next
    case False
    then have b: "0 \<le> pu_remain pu" "\<not> (pu_remain pu = 1 \<and> pu_value pu < 2)" by auto
    let ?low = "partial_low (pu_value pu) (nat (pu_remain pu))"
    let ?high = "partial_high (pu_value pu) (nat (pu_remain pu))"
    let ?low' = "if ?low = 0 then (if pu_remain pu = 2 then 2 ^ 11 else if pu_remain pu = 3 then 2 ^ 16 else ?low) else ?low"
    note c = completions_interval[OF b(1) assms(4) b(2) assms(5)]
    have nz: "(nat (pu_remain pu) = 2) = (pu_remain pu = 2)" "(nat (pu_remain pu) = 3) = (pu_remain pu = 3)" by auto
    have "class_meets (e # es) pos pu = (if meets ?low' ?high rgs then pos else \<not> pos)"
      unfolding class_meets_def Let_def partial_scan_ranges[OF e(3,2)] e(7)[symmetric] nz if_not_P[OF False] by simp
    also have "\<dots> = (completions pu \<noteq> {} \<and>
        (if pos then \<exists>c \<in> completions pu. sym_ok (Class pos rgs) c else \<forall>c \<in> completions pu. sym_ok (Class pos rgs) c))"
      unfolding meets_in_ranges[OF assms(3) c(2)] c(1)[symmetric] using c by auto
    finally show ?thesis using m by simp
  qed
qed

end
