(* ===== verification/GramEngineMain.thy ===== *)
theory GramEngineMain
  imports GramEngine GramPartial
begin

section \<open>The grammar object: the main results\<close>

text \<open>
  A candidate the sampler leaves unmasked can be accepted; a lazy grammar that is triggered is in the
  state it would be in had it read the text from the trigger on; a grammar with token elements can
  leave a candidate unmasked whose acceptance throws; the UTF-8 decoder does not depend on how the
  text is cut.
\<close>

lemma decode_rest_progress:
  "decode_rest bs v n acc = (pts, q) \<Longrightarrow> pu_remain q = 0 \<Longrightarrow> n \<noteq> 0 \<or> acc \<noteq> [] \<or> bs \<noteq> [] \<Longrightarrow> pts \<noteq> []"
proof (induction bs v n acc arbitrary: pts q rule: decode_rest.induct)
  case (2 b bs v n acc)
  have u: "utf8_len b \<noteq> 0" using 2(2,3) by (auto split: if_splits)
  obtain v' n' bs' where t: "take_cont bs (b mod 2 ^ (8 - utf8_len b)) (utf8_len b - 1) = (v', n', bs')" by (metis prod_cases3)
  show ?case
    by (rule 2(1)[OF u t[symmetric] refl, of pts q]) (use 2(2,3) u t in auto)
qed auto

lemma decode_progress:
  assumes "decode_utf8 src start = (pts, q)" "pu_remain q = 0" "pu_remain start > 0 \<or> takeWhile (\<lambda>b. b \<noteq> 0) src \<noteq> []"
  shows "pts \<noteq> []"
proof (cases "continue_seq (takeWhile (\<lambda>b. b \<noteq> 0) src) (pu_value start) (nat (pu_remain start))")
  case None
  with assms(1,2) show ?thesis by (auto simp: decode_utf8_def)
next
  case (Some r)
  obtain v n bs where r: "r = (v, n, bs)" by (metis prod_cases3)
  show ?thesis
  proof (cases "pu_remain start > 0")
    case True
    then have "decode_rest bs v (int n) (if n = 0 then [v] else []) = (pts, q)"
      using assms(1) Some r by (simp add: decode_utf8_def)
    from decode_rest_progress[OF this assms(2)] show ?thesis by (cases "n = 0") simp_all
  next
    case False
    then have "continue_seq (takeWhile (\<lambda>b. b \<noteq> 0) src) (pu_value start) 0 = Some (v, n, bs)" using Some r by simp
    then have "bs = takeWhile (\<lambda>b. b \<noteq> 0) src" by (cases "takeWhile (\<lambda>b. b \<noteq> 0) src") simp_all
    moreover have "decode_rest bs v (pu_remain start) [] = (pts, q)"
      using assms(1) Some r False by (simp add: decode_utf8_def)
    ultimately show ?thesis using decode_rest_progress[of bs v "pu_remain start" "[]" pts q] assms(2,3) False by simp
  qed
qed

lemma follow_all_drop_empty: "cs \<noteq> [] \<Longrightarrow> follow_all rs (S - {[]}) cs = follow_all rs S cs"
  using follow_all_no_empty[of cs rs] follow_all_Union[of rs S cs] follow_all_Union[of rs "S - {[]}" cs] by auto

lemma accept_token_exact:
  assumes "engine_ok g" "decode_utf8 piece (gr_partial g) = (pts, pu)"
  shows "if follow_all (gr_rules g) (set (gr_stacks g) - {[]}) pts = {} then accept_token tok piece g = Some (Inl GThrow)
    else \<exists>new. accept_token tok piece g = ret (g\<lparr>gr_stacks := new, gr_partial := pu\<rparr>) \<and> ready (gr_rules g) new
      \<and> set new = follow_all (gr_rules g) (set (gr_stacks g) - {[]}) pts"
proof -
  have "ready (gr_rules g) []" by (simp add: ready_iff)
  from accept_token_fold[OF _ _ _ this, of "gr_stacks g" tok pts] assms(1) obtain new where
    n: "run_fold (accept_token_stack (gr_rules g) tok pts) (gr_stacks g) [] = ret new" "ready (gr_rules g) new"
       "set new = (\<Union>st \<in> set (gr_stacks g). if st = [] then {} else follow_all (gr_rules g) {st} pts)"
    by (auto simp: engine_ok_def)
  have s: "set new = follow_all (gr_rules g) (set (gr_stacks g) - {[]}) pts"
    unfolding n(3) follow_all_Union[of "gr_rules g" "set (gr_stacks g) - {[]}"] by (auto split: if_splits)
  show ?thesis
  proof (cases "new = []")
    case True
    with n(1) s assms(2) show ?thesis by (simp add: accept_token_def run_bind_def)
  next
    case False
    then have "set new \<noteq> {}" by simp
    moreover have "accept_token tok piece g = ret (g\<lparr>gr_stacks := new, gr_partial := pu\<rparr>)"
      using n(1) assms(2) False by (simp add: accept_token_def run_bind_def)
    ultimately show ?thesis using n(2) s by auto
  qed
qed

subsection \<open>Sampling and accepting\<close>

text \<open>When a candidate may be chosen.\<close>

definition choosable :: "(nat \<Rightarrow> nat list) \<Rightarrow> (nat \<Rightarrow> bool) \<Rightarrow> 'r grammar \<Rightarrow> nat \<Rightarrow> bool" where
  "choosable piece_of is_eog g tok \<longleftrightarrow>
     (if is_eog tok then [] \<in> set (gr_stacks g)
      else piece_of tok \<noteq> [] \<and> hd (piece_of tok) \<noteq> 0 \<and>
        (case decode_utf8 (piece_of tok) (gr_partial g) of (pts, pu) \<Rightarrow>
          \<exists>f \<in> follow_all (gr_rules g) (set (gr_stacks g)) (takeWhile (\<lambda>c. c \<noteq> 0) pts). partial_ok (gr_rules g) f pu))"

definition to_candidate :: "(nat \<Rightarrow> nat list) \<Rightarrow> partial_utf8 \<Rightarrow> nat \<Rightarrow> nat \<Rightarrow> candidate" where
  "to_candidate piece_of pu i tok = (case decode_utf8 (piece_of tok) pu of (pts, pu') \<Rightarrow>
     \<lparr>cd_index = i, cd_points = takeWhile (\<lambda>c. c \<noteq> 0) pts, cd_at = 0, cd_partial = pu', cd_id = tok\<rparr>)"

definition is_decoded :: "(nat \<Rightarrow> nat list) \<Rightarrow> (nat \<Rightarrow> bool) \<Rightarrow> nat \<Rightarrow> bool" where
  "is_decoded piece_of is_eog tok \<longleftrightarrow> \<not> is_eog tok \<and> piece_of tok \<noteq> [] \<and> hd (piece_of tok) \<noteq> 0"

lemma ex_nat_split: "(\<exists>i. Q i) \<longleftrightarrow> Q 0 \<or> (\<exists>i. Q (Suc i))"
  by (metis not0_implies_Suc)

lemma indexed_Cons:
  "{h (k + i) ((x # xs) ! i) | i. i < length (x # xs) \<and> P ((x # xs) ! i)}
    = (if P x then {h k x} else {}) \<union> {h (Suc k + i) (xs ! i) | i. i < length xs \<and> P (xs ! i)}"
proof -
  have "(\<exists>i. y = h (k + i) ((x # xs) ! i) \<and> i < length (x # xs) \<and> P ((x # xs) ! i))
      \<longleftrightarrow> (P x \<and> y = h k x) \<or> (\<exists>i. y = h (Suc k + i) (xs ! i) \<and> i < length xs \<and> P (xs ! i))" for y
    by (subst ex_nat_split) auto
  then show ?thesis by auto
qed

lemma sample_pass_exact:
  assumes "sample_pass piece_of is_eog eog pu k ds = (ds', cs)"
  shows "length ds' = length ds"
    and "i < length ds \<Longrightarrow> ds' ! i = (if is_decoded piece_of is_eog (td_id (ds ! i)) \<or> (is_eog (td_id (ds ! i)) \<and> eog)
           then ds ! i else (ds ! i)\<lparr>td_logit := None\<rparr>)"
    and "set cs = {to_candidate piece_of pu (k + i) (td_id (ds ! i)) | i. i < length ds \<and> is_decoded piece_of is_eog (td_id (ds ! i))}"
proof -
  have "length ds' = length ds \<and> (\<forall>i < length ds. ds' ! i = (if is_decoded piece_of is_eog (td_id (ds ! i)) \<or> (is_eog (td_id (ds ! i)) \<and> eog)
           then ds ! i else (ds ! i)\<lparr>td_logit := None\<rparr>))
     \<and> set cs = {to_candidate piece_of pu (k + i) (td_id (ds ! i)) | i. i < length ds \<and> is_decoded piece_of is_eog (td_id (ds ! i))}"
    using assms
  proof (induction ds arbitrary: k ds' cs)
    case (Cons d ds)
    obtain ds0 cs0 where r: "sample_pass piece_of is_eog eog pu (Suc k) ds = (ds0, cs0)" by fastforce
    note IH = Cons.IH[OF r]
    obtain pts pu' where dec: "decode_utf8 (piece_of (td_id d)) pu = (pts, pu')" by fastforce
    note split = indexed_Cons[of "\<lambda>i d. to_candidate piece_of pu i (td_id d)" k d ds "\<lambda>d. is_decoded piece_of is_eog (td_id d)"]
    have "ds' = (if is_decoded piece_of is_eog (td_id d) \<or> (is_eog (td_id d) \<and> eog) then d else d\<lparr>td_logit := None\<rparr>) # ds0
        \<and> cs = (if is_decoded piece_of is_eog (td_id d) then [to_candidate piece_of pu k (td_id d)] else []) @ cs0"
      using Cons.prems r dec by (auto simp: is_decoded_def to_candidate_def split: if_splits)
    moreover have "\<forall>i < length (d # ds). ((if is_decoded piece_of is_eog (td_id d) \<or> (is_eog (td_id d) \<and> eog) then d else d\<lparr>td_logit := None\<rparr>) # ds0) ! i
        = (if is_decoded piece_of is_eog (td_id ((d # ds) ! i)) \<or> (is_eog (td_id ((d # ds) ! i)) \<and> eog)
           then (d # ds) ! i else ((d # ds) ! i)\<lparr>td_logit := None\<rparr>)"
      using IH by (auto simp: less_Suc_eq_0_disj)
    ultimately show ?case using IH unfolding split by simp
  qed simp
  then show "length ds' = length ds"
    "i < length ds \<Longrightarrow> ds' ! i = (if is_decoded piece_of is_eog (td_id (ds ! i)) \<or> (is_eog (td_id (ds ! i)) \<and> eog)
           then ds ! i else (ds ! i)\<lparr>td_logit := None\<rparr>)"
    "set cs = {to_candidate piece_of pu (k + i) (td_id (ds ! i)) | i. i < length ds \<and> is_decoded piece_of is_eog (td_id (ds ! i))}"
    by blast+
qed

lemma mask_rejects_exact:
  assumes "\<forall>r \<in> set rs. cd_index r < length ds"
  shows "length (mask_rejects rs ds) = length ds \<and> (\<forall>i < length ds. mask_rejects rs ds ! i
    = (if i \<in> cd_index ` set rs then (ds ! i)\<lparr>td_logit := None\<rparr> else ds ! i))"
  using assms
proof (induction rs arbitrary: ds)
  case (Cons r rs)
  let ?ds = "ds[cd_index r := (ds ! cd_index r)\<lparr>td_logit := None\<rparr>]"
  have "\<forall>r \<in> set rs. cd_index r < length ?ds" using Cons.prems by simp
  note IH = Cons.IH[OF this]
  show ?case using IH Cons.prems by (auto simp: nth_list_update)
qed simp

lemma to_candidate_index [simp]: "cd_index (to_candidate piece_of pu i tok) = i"
  by (simp add: to_candidate_def split: prod.splits)

lemma sample_impl_exact:
  assumes "engine_ok g" "\<not> gr_awaiting g"
  shows "\<exists>out. sample_impl piece_of is_eog True g cands = ret out \<and> length out = length cands
    \<and> (\<forall>i < length cands. out ! i = (if choosable piece_of is_eog g (td_id (cands ! i)) then cands ! i
         else (cands ! i)\<lparr>td_logit := None\<rparr>))"
proof -
  let ?rs = "gr_rules g" and ?S = "set (gr_stacks g)"
  obtain ds cs where p: "sample_pass piece_of is_eog ([] \<in> ?S) (gr_partial g) 0 cands = (ds, cs)" by fastforce
  note ex = sample_pass_exact[OF p]
  from assms(1) obtain rej where
    r: "reject_candidates ?rs (gr_stacks g) cs = ret rej" "set rej = {t \<in> set cs. \<not> viable ?rs ?S t}"
    using reject_candidates_exact[of ?rs "gr_stacks g" cs] by (auto simp: engine_ok_def)
  have idx: "i \<in> cd_index ` set rej \<longleftrightarrow> is_decoded piece_of is_eog (td_id (cands ! i))
      \<and> \<not> choosable piece_of is_eog g (td_id (cands ! i))" if "i < length cands" for i
  proof -
    have v: "viable ?rs ?S (to_candidate piece_of (gr_partial g) i tok) \<longleftrightarrow> choosable piece_of is_eog g tok"
      if "is_decoded piece_of is_eog tok" for tok i
      using that by (auto simp: viable_def choosable_def to_candidate_def is_decoded_def split: prod.splits)
    show ?thesis using that v unfolding r(2) ex(3) by (force simp: image_iff)
  qed
  have "\<forall>r \<in> set rej. cd_index r < length ds" using ex(1,3) r(2) by auto
  note mk = mask_rejects_exact[OF this]
  have "mask_rejects rej ds ! i = (if choosable piece_of is_eog g (td_id (cands ! i)) then cands ! i
         else (cands ! i)\<lparr>td_logit := None\<rparr>)" if "i < length cands" for i
    using mk that ex(1) ex(2)[of i] idx[OF that] by (auto simp: is_decoded_def choosable_def)
  with mk ex(1) r(1) p assms(2) show ?thesis by (simp add: sample_impl_def run_bind_def)
qed

lemma choosable_accepted:
  assumes "engine_ok g" "\<not> gr_awaiting g" "choosable piece_of is_eog g tok"
    and "0 \<notin> set (fst (decode_utf8 (piece_of tok) (gr_partial g)))"
  shows "\<exists>g'. accept_impl piece_of is_eog fnd tok g = ret g' \<and> engine_ok g' \<and> \<not> gr_awaiting g'"
proof (cases "is_eog tok")
  case True
  with assms show ?thesis by (simp add: accept_impl_def choosable_def)
next
  case False
  obtain pts pu where d: "decode_utf8 (piece_of tok) (gr_partial g) = (pts, pu)" by fastforce
  have z: "takeWhile (\<lambda>c. c \<noteq> 0) pts = pts"
    unfolding takeWhile_eq_all_conv using assms(4) d by (metis fst_conv)
  let ?S = "set (gr_stacks g)"
  have c: "piece_of tok \<noteq> []" "hd (piece_of tok) \<noteq> 0"
    "\<exists>f \<in> follow_all (gr_rules g) ?S pts. partial_ok (gr_rules g) f pu"
    using assms(3) False d unfolding choosable_def by (simp_all only: if_False z prod.case not_False_eq_True)
  then obtain f where f: "f \<in> follow_all (gr_rules g) ?S pts" "partial_ok (gr_rules g) f pu" by blast
  have ne: "follow_all (gr_rules g) (?S - {[]}) pts \<noteq> {}"
  proof (cases "pts = []")
    case True
    have "takeWhile (\<lambda>b. b \<noteq> 0) (piece_of tok) \<noteq> []" using c(1,2) by (cases "piece_of tok") simp_all
    then have "pu_remain pu \<noteq> 0" using decode_progress[OF d] True by blast
    then have "f \<noteq> []" using f(2) by (simp add: partial_ok_def)
    with f(1) True show ?thesis by auto
  next
    case False
    with f(1) follow_all_drop_empty[OF False] show ?thesis by blast
  qed
  from accept_token_exact[OF assms(1) d, of tok] ne obtain new where
    n: "accept_token tok (piece_of tok) g = ret (g\<lparr>gr_stacks := new, gr_partial := pu\<rparr>)" "ready (gr_rules g) new"
       "set new = follow_all (gr_rules g) (?S - {[]}) pts" by auto
  have "new \<noteq> []" using n(3) ne by auto
  with n(1,2) assms(1,2) False show ?thesis by (simp add: accept_impl_def engine_ok_def)
qed


text \<open>C13: take a grammar object with well-formed rules, without token elements and without left recursion
  (also none behind rules that may be empty; repetitions are allowed), holding at least one stack, each
  empty or with a character on top, and not waiting for a trigger.  With a timing object masking the
  candidates returns, every candidate it leaves with its logit can then be accepted, which neither
  aborts nor throws and leaves a grammar object that satisfies all this again, and every other candidate
  is masked.  Acceptance is stated for a candidate whose decoded piece has no zero, because the mask reads
  a piece only up to its first zero.  Without a timing object, as the sampler chain calls it, the same
  masking dereferences a null pointer.\<close>

theorem sampled_token_accepted:
  assumes "engine_ok g" "\<not> gr_awaiting g"
  shows "\<exists>out. sample_impl piece_of is_eog has_smpl g cands = (if has_smpl then ret out else Some (Inl GNull))
    \<and> length out = length cands
    \<and> (\<forall>i < length cands. (choosable piece_of is_eog g (td_id (cands ! i)) \<and> out ! i = cands ! i
          \<and> (0 \<notin> set (fst (decode_utf8 (piece_of (td_id (cands ! i))) (gr_partial g))) \<longrightarrow>
             (\<exists>g'. accept_impl piece_of is_eog fnd (td_id (cands ! i)) g = ret g' \<and> engine_ok g' \<and> \<not> gr_awaiting g')))
        \<or> (\<not> choosable piece_of is_eog g (td_id (cands ! i)) \<and> out ! i = (cands ! i)\<lparr>td_logit := None\<rparr>))"
proof -
  from sample_impl_exact[OF assms(1,2)] obtain out where
    o: "sample_impl piece_of is_eog True g cands = ret out" "length out = length cands"
       "\<forall>i < length cands. out ! i = (if choosable piece_of is_eog g (td_id (cands ! i)) then cands ! i
          else (cands ! i)\<lparr>td_logit := None\<rparr>)" by blast
  have "sample_impl piece_of is_eog False g cands = Some (Inl GNull)"
    using o(1) assms(2) by (auto simp: sample_impl_def run_bind_def split: prod.splits option.splits sum.splits)
  with o(1) have "sample_impl piece_of is_eog has_smpl g cands = (if has_smpl then ret out else Some (Inl GNull))"
    by (cases has_smpl) simp_all
  with o(2,3) choosable_accepted[OF assms] show ?thesis by (intro exI[of _ out]) simp
qed

text \<open>The small grammar at its start, with one token per letter.\<close>

definition demo_grammar :: "nat grammar" where
  "demo_grammar = \<lparr>gr_rules = demo_rules, gr_stacks = [[(0, 0)]], gr_partial = \<lparr>pu_value = 0, pu_remain = 0\<rparr>,
     gr_awaiting = False, gr_buffer = [], gr_positions = [], gr_trigger_tokens = [], gr_trigger_patterns = []\<rparr>"

definition letters :: "nat \<Rightarrow> nat list" where
  "letters tok = [tok mod 128]"

lemma demo_engine_ok: "engine_ok demo_grammar" "\<not> gr_awaiting demo_grammar"
  using demo_good demo_start by (simp_all add: engine_ok_def demo_grammar_def)

lemma decode_letter: "decode_utf8 (letters tok) \<lparr>pu_value = 0, pu_remain = 0\<rparr>
  = (if tok mod 128 = 0 then ([], \<lparr>pu_value = 0, pu_remain = 0\<rparr>) else ([tok mod 128], \<lparr>pu_value = tok mod 128, pu_remain = 0\<rparr>))"
proof -
  have "utf8_len (tok mod 128) = 1" by (rule lead_len(1)) simp
  then show ?thesis by (simp add: decode_utf8_def letters_def)
qed

definition star_grammar :: "nat grammar" where
  "star_grammar = demo_grammar\<lparr>gr_rules := star_rules, gr_stacks := [[(2, 0), (0, 1)], [(0, 1)]]\<rparr>"

theorem sampled_token_accepted_witness:
  "\<exists>out. sample_impl letters (\<lambda>t. t = 0) True star_grammar [\<lparr>td_id = 97, td_logit = Some (1 :: int)\<rparr>] = ret out
    \<and> (choosable letters (\<lambda>t. t = 0) star_grammar 97 \<longrightarrow>
        (\<exists>g'. accept_impl letters (\<lambda>t. t = 0) (\<lambda>tp buf. None) 97 star_grammar = ret g' \<and> engine_ok g'))"
proof -
  have "engine_ok star_grammar" "\<not> gr_awaiting star_grammar"
    using star_good(1,2) star_start by (simp_all add: engine_ok_def star_grammar_def demo_grammar_def)
  moreover have "0 \<notin> set (fst (decode_utf8 (letters tok) (gr_partial star_grammar)))" for tok
    by (auto simp: star_grammar_def demo_grammar_def decode_letter)
  ultimately show ?thesis
    using sampled_token_accepted[of star_grammar letters "\<lambda>t. t = 0" True "[\<lparr>td_id = 97, td_logit = Some (1 :: int)\<rparr>]" "\<lambda>tp buf. None"]
    by auto
qed

subsection \<open>Lazy grammars\<close>

text \<open>The buffered tokens tile the buffer, and none is empty.\<close>

fun tiles :: "nat \<Rightarrow> (nat \<times> nat \<times> nat) list \<Rightarrow> nat \<Rightarrow> bool" where
  "tiles a [] b \<longleftrightarrow> a = b"
| "tiles a ((tok, s, e) # ps) b \<longleftrightarrow> s = a \<and> s < e \<and> tiles e ps b"

lemma tiles_le: "tiles a ps b \<Longrightarrow> a \<le> b"
  by (induction a ps b rule: tiles.induct) auto

lemma tiles_snoc: "tiles a ps b \<Longrightarrow> b < c \<Longrightarrow> tiles a (ps @ [(tok, b, c)]) c"
  by (induction a ps b rule: tiles.induct) auto

lemma replay_concat:
  assumes "tiles a ps (length buf)" "start \<le> length buf"
  shows "concat (map snd (replay_pieces start buf ps)) = drop (max start a) buf"
    and "\<forall>(tok, piece) \<in> set (replay_pieces start buf ps). piece \<noteq> []"
proof -
  have "concat (map snd (replay_pieces start buf ps)) = drop (max start a) buf
      \<and> (\<forall>(tok, piece) \<in> set (replay_pieces start buf ps). piece \<noteq> [])"
    using assms
  proof (induction a ps "length buf" rule: tiles.induct)
    case (1 a)
    then show ?case by simp
  next
    case (2 a tok s e ps)
    then have t: "s = a" "a < e" "tiles e ps (length buf)" by simp_all
    note IH = 2(1)[OF t(3) 2(3)]
    show ?case
    proof (cases "e \<le> start")
      case True
      with IH t(1,2) show ?thesis by (simp add: max_def)
    next
      case False
      let ?b = "max start a"
      have b: "?b < e" "e \<le> length buf" using False t(2) tiles_le[OF t(3)] by simp_all
      have "take (e - ?b) (drop ?b buf) @ drop e buf = drop ?b buf"
        using b append_take_drop_id[of "e - ?b" "drop ?b buf"] by simp
      moreover have "(if s < start then start else s) = ?b" using t(1) by simp
      ultimately show ?thesis using IH t False b by (auto simp: Let_def max_def)
    qed
  qed
  then show "concat (map snd (replay_pieces start buf ps)) = drop (max start a) buf"
    "\<forall>(tok, piece) \<in> set (replay_pieces start buf ps). piece \<noteq> []" by blast+
qed

lemma valid_hd: "valid_bytes n bs \<Longrightarrow> bs \<noteq> [] \<Longrightarrow> takeWhile (\<lambda>b. b \<noteq> 0) bs \<noteq> []"
  by (cases n; cases bs) (auto intro!: gr0I)

text \<open>Feeding nonempty pieces whose text ends at a character boundary is feeding the text: in between,
  only the empty stack may be missing, while a character is unfinished.\<close>

lemma feed_exact:
  assumes "engine_ok g" "\<forall>(tok, piece) \<in> set ps. piece \<noteq> []" "valid_bytes n (concat (map snd ps))"
    and "gr_partial g = \<lparr>pu_value = v, pu_remain = int n\<rparr>"
    and "decode_utf8 (concat (map snd ps)) (gr_partial g) = (pts, q)" "pu_remain q = 0"
    and "set (gr_stacks g) = U \<or> (set (gr_stacks g) = U - {[]} \<and> n \<noteq> 0)"
  shows "if follow_all (gr_rules g) U pts = {} then feed ps g = Some (Inl GThrow)
    else \<exists>new. feed ps g = ret (g\<lparr>gr_stacks := new, gr_partial := q\<rparr>) \<and> ready (gr_rules g) new
      \<and> set new = follow_all (gr_rules g) U pts"
  using assms
proof (induction ps arbitrary: g n v pts U)
  case Nil
  have "decode_utf8 [] (gr_partial g) = ([], gr_partial g)"
    unfolding Nil(4) using decode_fold[of n "[]" v] by simp
  then have e: "pts = []" "q = gr_partial g" using Nil(5) by simp_all
  with Nil(4,6) have "n = 0" by simp
  with Nil(7) have U: "set (gr_stacks g) = U" by simp
  have r: "ready (gr_rules g) (gr_stacks g)" "gr_stacks g \<noteq> []" using Nil(1) by (simp_all add: engine_ok_def)
  have "feed [] g = ret (g\<lparr>gr_stacks := gr_stacks g, gr_partial := q\<rparr>)" by (simp add: feed_def e(2))
  then have "\<exists>new. feed [] g = ret (g\<lparr>gr_stacks := new, gr_partial := q\<rparr>) \<and> ready (gr_rules g) new \<and> set new = U"
    using r(1) U by (intro exI[of _ "gr_stacks g"]) simp
  moreover have "U \<noteq> {}" using U r(2) by auto
  ultimately show ?case using e(1) by simp
next
  case (Cons tp ps)
  obtain tok piece where tp: "tp = (tok, piece)" by (cases tp)
  obtain c1 p1 where d1: "decode_utf8 piece (gr_partial g) = (c1, p1)" by fastforce
  obtain c2 q' where d2: "decode_utf8 (concat (map snd ps)) p1 = (c2, q')" by fastforce
  have val: "valid_bytes n (piece @ concat (map snd ps))" using Cons.prems(3) tp by simp
  from decode_pieces[OF val d1[unfolded Cons.prems(4)] d2] Cons.prems(4,5) tp have pts: "pts = c1 @ c2" "q' = q" by simp_all
  obtain o1 v1 n1 where f: "fold ustep piece ([], v, n) = (o1, v1, n1)" by (metis prod_cases3)
  note vs = valid_bytes_append[OF val f]
  have p1: "p1 = \<lparr>pu_value = v1, pu_remain = int n1\<rparr>"
    using d1 decode_fold[of n piece v] vs f Cons.prems(4) by simp
  have "piece \<noteq> []" using Cons.prems(2) tp by simp
  then have prog1: "c1 \<noteq> [] \<or> n1 \<noteq> 0" using decode_progress[OF d1] valid_hd[of n piece] vs p1 by auto
  have prog2: "c2 \<noteq> []" if "n1 \<noteq> 0"
    by (rule decode_progress[OF d2]) (use that pts(2) Cons.prems(6) p1 in simp_all)
  let ?S = "set (gr_stacks g)" and ?rs = "gr_rules g"
  have same: "follow_all ?rs (?S - {[]}) c1 = follow_all ?rs U c1 \<or>
      (follow_all ?rs (?S - {[]}) c1 = follow_all ?rs U c1 - {[]} \<and> n1 \<noteq> 0)"
  proof (cases "c1 = []")
    case True
    with prog1 Cons.prems(7) show ?thesis by auto
  next
    case False
    from Cons.prems(7) have "?S - {[]} = U - {[]}" by auto
    with follow_all_drop_empty[OF False] show ?thesis by simp
  qed
  note acc = accept_token_exact[OF Cons.prems(1) d1, of tok]
  have fold1: "feed (tp # ps) g = run_bind (accept_token tok piece g) (feed ps)"
    unfolding feed_def tp run_fold.simps prod.case by (simp add: feed_def[abs_def])
  show ?case
  proof (cases "follow_all ?rs (?S - {[]}) c1 = {}")
    case True
    have "follow_all ?rs U pts = {}"
      using same
    proof
      assume "follow_all ?rs (?S - {[]}) c1 = follow_all ?rs U c1"
      with True show ?thesis by (simp add: pts(1) follow_all_append)
    next
      assume a: "follow_all ?rs (?S - {[]}) c1 = follow_all ?rs U c1 - {[]} \<and> n1 \<noteq> 0"
      then have e: "follow_all ?rs U c1 - {[]} = {}" using True by metis
      have "c2 \<noteq> []" using a prog2 by blast
      from follow_all_drop_empty[OF this, of ?rs "follow_all ?rs U c1"] show ?thesis
        unfolding e follow_all_empty pts(1) follow_all_append by (rule sym)
    qed
    with True acc fold1 show ?thesis by (simp add: run_bind_def)
  next
    case False
    with acc obtain new where n: "accept_token tok piece g = ret (g\<lparr>gr_stacks := new, gr_partial := p1\<rparr>)"
      "ready ?rs new" "set new = follow_all ?rs (?S - {[]}) c1" by auto
    let ?g = "g\<lparr>gr_stacks := new, gr_partial := p1\<rparr>"
    have ok: "engine_ok ?g" using Cons.prems(1) n False by (auto simp: engine_ok_def)
    have pieces: "\<forall>(tok, piece) \<in> set ps. piece \<noteq> []" using Cons.prems(2) by simp
    have start: "gr_partial ?g = \<lparr>pu_value = v1, pu_remain = int n1\<rparr>" using p1 by simp
    have dec: "decode_utf8 (concat (map snd ps)) (gr_partial ?g) = (c2, q)" using d2 pts(2) by simp
    have cur: "set (gr_stacks ?g) = follow_all ?rs U c1 \<or> (set (gr_stacks ?g) = follow_all ?rs U c1 - {[]} \<and> n1 \<noteq> 0)"
      using same n(3) by simp
    from Cons.IH[OF ok pieces conjunct2[OF vs] start dec Cons.prems(6) cur]
    have "if follow_all ?rs (follow_all ?rs U c1) c2 = {} then feed ps ?g = Some (Inl GThrow)
      else \<exists>new. feed ps ?g = ret (?g\<lparr>gr_stacks := new, gr_partial := q\<rparr>) \<and> ready ?rs new
        \<and> set new = follow_all ?rs (follow_all ?rs U c1) c2" by (simp cong: if_cong)
    then show ?thesis using n(1) fold1 by (simp add: run_bind_def pts(1) follow_all_append cong: if_cong)
  qed
qed


text \<open>C14: take a lazy grammar object that is waiting for a trigger, with well-formed rules, without token
  elements and without left recursion (also none behind rules that may be empty; repetitions are
  allowed), with at least one stack, each empty or with a character on top, with no character cut off
  before, and with buffered tokens that tile its buffer.  When a token that is no trigger token and not
  empty completes a text in which a trigger pattern is found, the grammar ends in the state reached by
  reading the text from the trigger on, and accepting throws exactly when no stack survives that text.
  The text from the trigger on is taken to be whole characters.\<close>

theorem lazy_trigger_replays:
  assumes "engine_ok g" "gr_awaiting g" "gr_partial g = \<lparr>pu_value = 0, pu_remain = 0\<rparr>"
    and "tok \<notin> set (gr_trigger_tokens g)" "tiles 0 (gr_positions g) (length (gr_buffer g))" "piece_of tok \<noteq> []"
    and "first_trigger fnd (gr_trigger_patterns g) (gr_buffer g @ piece_of tok) = Some start"
    and "start \<le> length (gr_buffer g @ piece_of tok)"
    and "drop start (gr_buffer g @ piece_of tok) = encode_all cs" "\<forall>c \<in> set cs. scalar c"
  shows "\<exists>q. decode_utf8 (drop start (gr_buffer g @ piece_of tok)) (gr_partial g) = (cs, q)
    \<and> (if follow_all (gr_rules g) (set (gr_stacks g)) cs = {} then accept_impl piece_of is_eog fnd tok g = Some (Inl GThrow)
       else \<exists>new. accept_impl piece_of is_eog fnd tok g = ret (g\<lparr>gr_stacks := new, gr_partial := q, gr_awaiting := False,
              gr_buffer := [], gr_positions := []\<rparr>) \<and> set new = follow_all (gr_rules g) (set (gr_stacks g)) cs)"
proof -
  let ?buf = "gr_buffer g @ piece_of tok"
  let ?pos = "gr_positions g @ [(tok, length (gr_buffer g), length ?buf)]"
  let ?g1 = "g\<lparr>gr_positions := ?pos, gr_buffer := ?buf\<rparr>"
  let ?g2 = "?g1\<lparr>gr_awaiting := False\<rparr>" and ?ps = "replay_pieces start ?buf ?pos"
  from decode_encode[OF assms(10)] obtain v where
    d: "decode_utf8 (encode_all cs) \<lparr>pu_value = 0, pu_remain = 0\<rparr> = (cs, \<lparr>pu_value = v, pu_remain = 0\<rparr>)" by blast
  let ?q = "\<lparr>pu_value = v, pu_remain = 0\<rparr>"
  have t: "tiles 0 ?pos (length ?buf)" using tiles_snoc[OF assms(5)] assms(6) by simp
  note rep = replay_concat[OF t assms(8)]
  have whole: "concat (map snd ?ps) = encode_all cs" using rep(1) assms(9) by simp
  have f: "feed ?ps ?g2 = (if follow_all (gr_rules g) (set (gr_stacks g)) cs = {} then Some (Inl GThrow) else feed ?ps ?g2)
    \<and> (follow_all (gr_rules g) (set (gr_stacks g)) cs \<noteq> {} \<longrightarrow> (\<exists>new. feed ?ps ?g2 = ret (?g2\<lparr>gr_stacks := new, gr_partial := ?q\<rparr>)
      \<and> set new = follow_all (gr_rules g) (set (gr_stacks g)) cs))"
    using feed_exact[of ?g2 ?ps 0 0 cs ?q "set (gr_stacks g)"] assms(1,3) rep(2) whole d encode_all_fold(2)[OF assms(10)]
    by (auto simp: engine_ok_def split: if_splits)
  have step: "accept_impl piece_of is_eog fnd tok g
      = run_bind (feed ?ps ?g2) (\<lambda>g2. ret (g2\<lparr>gr_buffer := [], gr_positions := []\<rparr>))"
    using assms(2,4,7) by (simp add: accept_impl_def Let_def)
  show ?thesis
  proof (cases "follow_all (gr_rules g) (set (gr_stacks g)) cs = {}")
    case True
    with f step d assms(3,9) show ?thesis by (simp add: run_bind_def)
  next
    case False
    with f obtain new where n: "feed ?ps ?g2 = ret (?g2\<lparr>gr_stacks := new, gr_partial := ?q\<rparr>)"
      "set new = follow_all (gr_rules g) (set (gr_stacks g)) cs" by blast
    have "accept_impl piece_of is_eog fnd tok g = ret (g\<lparr>gr_stacks := new, gr_partial := ?q, gr_awaiting := False,
              gr_buffer := [], gr_positions := []\<rparr>)"
      using step n(1) by (simp add: run_bind_def)
    with n(2) False d assms(3,9) show ?thesis by auto
  qed
qed

text \<open>A lazy grammar that has buffered the token \<open>60\<close> and is triggered by the next one.\<close>

definition demo_lazy :: "nat grammar" where
  "demo_lazy = demo_grammar\<lparr>gr_awaiting := True, gr_buffer := [60], gr_positions := [(60, 0, 1)],
     gr_trigger_patterns := [\<lparr>tp_pattern = [], tp_regex = 0\<rparr>]\<rparr>"

theorem lazy_trigger_replays_witness:
  "\<exists>q. decode_utf8 [97] \<lparr>pu_value = 0, pu_remain = 0\<rparr> = ([97], q)
    \<and> (follow_all demo_rules {[(0, 0)]} [97] \<noteq> {} \<longrightarrow>
       (\<exists>g'. accept_impl letters (\<lambda>t. False) (\<lambda>tp buf. Some 1) 97 demo_lazy = ret g' \<and> gr_buffer g' = []))"
proof -
  have "engine_ok demo_lazy" using demo_engine_ok(1) by (simp add: engine_ok_def demo_lazy_def demo_grammar_def)
  moreover have "gr_awaiting demo_lazy" "97 \<notin> set (gr_trigger_tokens demo_lazy)"
    "gr_partial demo_lazy = \<lparr>pu_value = 0, pu_remain = 0\<rparr>" "tiles 0 (gr_positions demo_lazy) (length (gr_buffer demo_lazy))"
    "letters 97 \<noteq> []" "first_trigger (\<lambda>tp buf. Some 1) (gr_trigger_patterns demo_lazy) (gr_buffer demo_lazy @ letters 97) = Some 1"
    "1 \<le> length (gr_buffer demo_lazy @ letters 97)" "drop 1 (gr_buffer demo_lazy @ letters 97) = encode_all [97]"
    "\<forall>c \<in> set [97]. scalar c" "gr_rules demo_lazy = demo_rules" "gr_stacks demo_lazy = [[(0, 0)]]"
    by (simp_all add: demo_lazy_def demo_grammar_def letters_def encode_all_def encode_def scalar_def)
  ultimately show ?thesis
    using lazy_trigger_replays[of demo_lazy 97 letters "\<lambda>tp buf. Some 1" 1 "[97]" "\<lambda>t. False"]
    by (auto simp: encode_all_def encode_def split: if_splits)
qed

subsection \<open>Token elements\<close>

text \<open>\<open>root ::= "a" <[5]>\<close>.\<close>

definition token_rules :: rules where
  "token_rules = [[gel G_CHAR 97, gel G_TOKEN 5, gel G_END 0]]"

definition token_grammar :: "nat grammar" where
  "token_grammar = demo_grammar\<lparr>gr_rules := token_rules\<rparr>"

text \<open>with a token element a candidate can pass the mask and then throw: against \<open>"a" <[5]>\<close> the token
  5 with the text \<open>ab\<close> keeps its logit (its first character is consumed and the whole token is then
  compared with the token element), and accepting it leaves no stack.\<close>

theorem token_element_divergence:
  "initial_stacks token_rules 0 = ret (gr_stacks token_grammar)
    \<and> sample_impl (\<lambda>t. [97, 98]) (\<lambda>t. False) True token_grammar [\<lparr>td_id = 5, td_logit = Some (1 :: int)\<rparr>]
        = ret [\<lparr>td_id = 5, td_logit = Some 1\<rparr>]
    \<and> accept_impl (\<lambda>t. [97, 98]) (\<lambda>t. False) (\<lambda>tp buf. None) 5 token_grammar = Some (Inl GThrow)"
proof (intro conjI)
  show "initial_stacks token_rules 0 = ret (gr_stacks token_grammar)" by code_simp
  show "sample_impl (\<lambda>t. [97, 98]) (\<lambda>t. False) True token_grammar [\<lparr>td_id = 5, td_logit = Some (1 :: int)\<rparr>]
        = ret [\<lparr>td_id = 5, td_logit = Some 1\<rparr>]" by code_simp
  show "accept_impl (\<lambda>t. [97, 98]) (\<lambda>t. False) (\<lambda>tp buf. None) 5 token_grammar = Some (Inl GThrow)" by code_simp
qed

subsection \<open>Characters cut by tokens\<close>

fun decode_all :: "nat list list \<Rightarrow> partial_utf8 \<Rightarrow> nat list \<times> partial_utf8" where
  "decode_all [] p = ([], p)"
| "decode_all (bs # bss) p = (case decode_utf8 bs p of (c, q) \<Rightarrow> case decode_all bss q of (cs, r) \<Rightarrow> (c @ cs, r))"

lemma decode_all_concat:
  "valid_bytes n (concat bss) \<Longrightarrow> decode_all bss \<lparr>pu_value = v, pu_remain = int n\<rparr>
    = decode_utf8 (concat bss) \<lparr>pu_value = v, pu_remain = int n\<rparr>"
proof (induction bss arbitrary: n v)
  case Nil
  show ?case using decode_fold[of n "[]" v] by simp
next
  case (Cons bs bss)
  obtain o1 v1 n1 where f: "fold ustep bs ([], v, n) = (o1, v1, n1)" by (metis prod_cases3)
  have val: "valid_bytes n (bs @ concat bss)" using Cons.prems by simp
  note vs = valid_bytes_append[OF val f]
  have d1: "decode_utf8 bs \<lparr>pu_value = v, pu_remain = int n\<rparr> = (o1, \<lparr>pu_value = v1, pu_remain = int n1\<rparr>)"
    using decode_fold[of n bs v] vs f by simp
  obtain c2 q where d2: "decode_utf8 (concat bss) \<lparr>pu_value = v1, pu_remain = int n1\<rparr> = (c2, q)" by fastforce
  show ?case using decode_pieces[OF val d1 d2] d1 d2 Cons.IH[of n1 v1] vs by simp
qed

text \<open>C21: The decoder does not depend on where the text is cut: decoding the pieces of an encoded text one
  after the other, each from where the last one stopped, gives the code points back and ends at a
  character boundary. The text is the UTF-8 encoding of any code points from 1 to
  0x10FFFF, surrogates included.\<close>

theorem decoding_any_cut:
  assumes "\<forall>c \<in> set cs. scalar c" "concat bss = encode_all cs"
  shows "\<exists>v. decode_all bss \<lparr>pu_value = 0, pu_remain = 0\<rparr> = (cs, \<lparr>pu_value = v, pu_remain = 0\<rparr>)"
  using decode_encode[OF assms(1)] decode_all_concat[of 0 bss 0] encode_all_fold(2)[OF assms(1)] assms(2) by simp

theorem decoding_any_cut_witness:
  "\<exists>v. decode_all [[226], [130, 172, 240], [], [159, 153, 130, 65]] \<lparr>pu_value = 0, pu_remain = 0\<rparr>
    = ([0x20AC, 0x1F642, 65], \<lparr>pu_value = v, pu_remain = 0\<rparr>)"
  by (rule decoding_any_cut) (simp_all add: scalar_def encode_all_def encode_def)

text \<open>The interval test for an unfinished character is exact: for a class with ordered ranges it says
  whether some completion of the sequence is in a regular class, and whether all of them are outside
  the ranges of an inverse class, the completions being the values the missing continuation bytes can
  lead to, less the overlong ones the code excludes.\<close>

theorem match_partial_char_exact:
  assumes "wf_ptr rs p" "symbols (elems_from rs p) = Class pos rgs # ss" "list_all (\<lambda>(a, b). a \<le> b) rgs"
    and "pu_remain pu \<le> 3" "(pu_value pu + 1) * 64 ^ nat (pu_remain pu) \<le> 2 ^ 32"
  shows "match_partial_char rs p pu = Some (completions pu \<noteq> {} \<and>
    (if pos then \<exists>c \<in> completions pu. sym_ok (Class pos rgs) c else \<forall>c \<in> completions pu. sym_ok (Class pos rgs) c))"
  by (rule class_meets_exact[OF assms])

theorem match_partial_char_exact_witness:
  "match_partial_char demo_rules (0, 3) \<lparr>pu_value = 2, pu_remain = 1\<rparr> = Some (completions \<lparr>pu_value = 2, pu_remain = 1\<rparr> \<noteq> {}
    \<and> (\<forall>c \<in> completions \<lparr>pu_value = 2, pu_remain = 1\<rparr>. sym_ok (Class False [(98, 100)]) c))"
proof -
  have "wf_ptr demo_rules (0, 3)" "symbols (elems_from demo_rules (0, 3)) = Class False [(98, 100)] # []"
    by (simp_all add: wf_ptr_def elems_from_def demo_rules_def gel_def is_modifier_def)
  from match_partial_char_exact[OF this, of "\<lparr>pu_value = 2, pu_remain = 1\<rparr>"] show ?thesis by simp
qed

end
