(* ===== verification/GramParse.thy ===== *)
theory GramParse
  imports GramEngine "HOL-Library.AList"
begin

section \<open>The grammar parser (\<open>llama_grammar_parser\<close> of src/llama-grammar.cpp)\<close>

text \<open>
  The text is a list of bytes, a position the rest of the list; the terminating zero is the end of the
  list.  An exception is \<open>GThrow\<close>, a loop that no memory can hold \<open>GMemory\<close>.  The recursion between
  alternates, sequences and groups is on fuel (\<open>None\<close> when it is spent), which \<open>parse_fuel\<close> shows to be enough.  \<open>tokenize\<close> is the
  vocabulary's tokenizer, absent when the parser has no vocabulary.
\<close>

abbreviation throw :: "'a run" where
  "throw \<equiv> Some (Inl GThrow)"

definition hd0 :: "nat list \<Rightarrow> nat" where
  "hd0 s = (case s of [] \<Rightarrow> 0 | b # _ \<Rightarrow> b)"

abbreviation c_tab :: nat where "c_tab \<equiv> 9"
abbreviation c_nl :: nat where "c_nl \<equiv> 10"
abbreviation c_cr :: nat where "c_cr \<equiv> 13"
abbreviation c_space :: nat where "c_space \<equiv> 32"
abbreviation c_bang :: nat where "c_bang \<equiv> 33"
abbreviation c_quote :: nat where "c_quote \<equiv> 34"
abbreviation c_hash :: nat where "c_hash \<equiv> 35"
abbreviation c_open :: nat where "c_open \<equiv> 40"
abbreviation c_close :: nat where "c_close \<equiv> 41"
abbreviation c_star :: nat where "c_star \<equiv> 42"
abbreviation c_plus :: nat where "c_plus \<equiv> 43"
abbreviation c_comma :: nat where "c_comma \<equiv> 44"
abbreviation c_minus :: nat where "c_minus \<equiv> 45"
abbreviation c_dot :: nat where "c_dot \<equiv> 46"
abbreviation c_colon :: nat where "c_colon \<equiv> 58"
abbreviation c_lt :: nat where "c_lt \<equiv> 60"
abbreviation c_eq :: nat where "c_eq \<equiv> 61"
abbreviation c_gt :: nat where "c_gt \<equiv> 62"
abbreviation c_question :: nat where "c_question \<equiv> 63"
abbreviation c_lbracket :: nat where "c_lbracket \<equiv> 91"
abbreviation c_backslash :: nat where "c_backslash \<equiv> 92"
abbreviation c_rbracket :: nat where "c_rbracket \<equiv> 93"
abbreviation c_caret :: nat where "c_caret \<equiv> 94"
abbreviation c_underscore :: nat where "c_underscore \<equiv> 95"
abbreviation c_lbrace :: nat where "c_lbrace \<equiv> 123"
abbreviation c_bar :: nat where "c_bar \<equiv> 124"
abbreviation c_rbrace :: nat where "c_rbrace \<equiv> 125"

subsection \<open>Lexical helpers\<close>

definition is_digit_char :: "nat \<Rightarrow> bool" where
  "is_digit_char c \<longleftrightarrow> 48 \<le> c \<and> c \<le> 57"

definition is_word_char :: "nat \<Rightarrow> bool" where
  "is_word_char c \<longleftrightarrow> (97 \<le> c \<and> c \<le> 122) \<or> (65 \<le> c \<and> c \<le> 90) \<or> c = c_minus \<or> is_digit_char c"

definition hex_digit :: "nat \<Rightarrow> nat option" where
  "hex_digit c = (if 97 \<le> c \<and> c \<le> 102 then Some (c - 97 + 10)
     else if 65 \<le> c \<and> c \<le> 70 then Some (c - 65 + 10)
     else if 48 \<le> c \<and> c \<le> 57 then Some (c - 48) else None)"

fun parse_hex :: "nat \<Rightarrow> nat list \<Rightarrow> nat \<Rightarrow> (nat \<times> nat list) option" where
  "parse_hex 0 s v = Some (v, s)"
| "parse_hex (Suc n) [] v = None"
| "parse_hex (Suc n) (b # s) v = (case hex_digit b of None \<Rightarrow> None | Some d \<Rightarrow> parse_hex n s ((v * 16 + d) mod 2 ^ 32))"

function parse_space :: "bool \<Rightarrow> nat list \<Rightarrow> nat list" where
  "parse_space nl [] = []"
| "parse_space nl (b # s) =
     (if b = c_hash then parse_space nl (dropWhile (\<lambda>c. c \<noteq> c_cr \<and> c \<noteq> c_nl) s)
      else if b = c_space \<or> b = c_tab \<or> (nl \<and> (b = c_cr \<or> b = c_nl)) then parse_space nl s
      else b # s)"
  by pat_completeness auto

termination
  by (relation "measure (\<lambda>(nl, s). length s)") (auto simp: le_imp_less_Suc length_dropWhile_le)

definition parse_name :: "nat list \<Rightarrow> (nat list \<times> nat list) option" where
  "parse_name s = (let n = takeWhile is_word_char s in if n = [] then None else Some (n, dropWhile is_word_char s))"

definition parse_int :: "nat list \<Rightarrow> (nat list \<times> nat list) option" where
  "parse_int s = (let n = takeWhile is_digit_char s in if n = [] then None else Some (n, dropWhile is_digit_char s))"

text \<open>\<open>std::stoul\<close> and \<open>std::stoull\<close>, which throw above 64 bits.\<close>

definition stoull :: "nat list \<Rightarrow> nat option" where
  "stoull ds = (let v = foldl (\<lambda>v d. v * 10 + (d - 48)) 0 ds in if v < 2 ^ 64 then Some v else None)"

definition parse_char :: "nat list \<Rightarrow> (nat \<times> nat list) option" where
  "parse_char s =
     (case s of
        [] \<Rightarrow> None
      | b # r \<Rightarrow>
          if b = c_backslash then
            (let e = hd0 r in
             if e = 120 then parse_hex 2 (tl r) 0
             else if e = 117 then parse_hex 4 (tl r) 0
             else if e = 85 then parse_hex 8 (tl r) 0
             else if e = 116 then Some (c_tab, tl r)
             else if e = 114 then Some (c_cr, tl r)
             else if e = 110 then Some (c_nl, tl r)
             else if e = c_backslash \<or> e = c_quote \<or> e = c_lbracket \<or> e = c_rbracket then Some (e, tl r)
             else None)
          else Some (decode_one s))"

definition parse_token :: "(nat list \<Rightarrow> nat list) option \<Rightarrow> nat list \<Rightarrow> (nat \<times> nat list) option" where
  "parse_token tokenize s =
     (if hd0 s \<noteq> c_lt then None
      else if hd0 (tl s) = c_lbracket then
        (case parse_int (tl (tl s)) of None \<Rightarrow> None
         | Some (ds, r) \<Rightarrow> (case stoull ds of None \<Rightarrow> None
             | Some v \<Rightarrow> if hd0 r \<noteq> c_rbracket \<or> hd0 (tl r) \<noteq> c_gt then None else Some (v mod 2 ^ 32, tl (tl r))))
      else (case tokenize of None \<Rightarrow> None
        | Some f \<Rightarrow>
            let body = takeWhile (\<lambda>c. c \<noteq> c_gt) (tl s); r = dropWhile (\<lambda>c. c \<noteq> c_gt) (tl s) in
            if hd0 r \<noteq> c_gt then None
            else (case f (c_lt # body @ [c_gt]) of [t] \<Rightarrow> Some (t mod 2 ^ 32, tl r) | _ \<Rightarrow> None)))"

subsection \<open>The tables\<close>

record parser =
  ps_ids :: "(nat list \<times> nat) list"
  ps_rules :: rules

definition get_symbol_id :: "nat list \<Rightarrow> parser \<Rightarrow> nat \<times> parser" where
  "get_symbol_id nm ps =
     (case map_of (ps_ids ps) nm of
        Some v \<Rightarrow> (v, ps)
      | None \<Rightarrow> let v = length (ps_ids ps) mod 2 ^ 32 in (v, ps\<lparr>ps_ids := ps_ids ps @ [(nm, v)]\<rparr>))"

fun digits :: "nat \<Rightarrow> nat list" where
  "digits n = (if n < 10 then [48 + n] else digits (n div 10) @ [48 + n mod 10])"

declare digits.simps [simp del]

definition generate_symbol_id :: "nat list \<Rightarrow> parser \<Rightarrow> nat \<times> parser" where
  "generate_symbol_id base ps =
     (let v = length (ps_ids ps) mod 2 ^ 32
      in (v, ps\<lparr>ps_ids := AList.update (base @ [c_underscore] @ digits v) v (ps_ids ps)\<rparr>))"

definition add_rule :: "nat \<Rightarrow> rule \<Rightarrow> parser \<Rightarrow> parser" where
  "add_rule i r ps = ps\<lparr>ps_rules := (ps_rules ps @ replicate (Suc i - length (ps_rules ps)) [])[i := r]\<rparr>"

abbreviation elem :: "gretype \<Rightarrow> nat \<Rightarrow> gelem" where
  "elem t v \<equiv> \<lparr>g_type = t, g_value = v\<rparr>"

subsection \<open>Repetitions\<close>

abbreviation u64_max :: nat where
  "u64_max \<equiv> 2 ^ 64 - 1"

definition max_repetition :: nat where
  "max_repetition = 2000"

text \<open>The loop that adds the recursive rules: \<open>k\<close> turns to go, \<open>first\<close> at the first one.\<close>

fun rep_loop :: "nat list \<Rightarrow> rule \<Rightarrow> bool \<Rightarrow> nat \<Rightarrow> bool \<Rightarrow> nat \<Rightarrow> parser \<Rightarrow> nat \<times> parser" where
  "rep_loop base prev no_max 0 first last_id ps = (last_id, ps)"
| "rep_loop base prev no_max (Suc k) first last_id ps =
     (case generate_symbol_id base ps of (i, ps1) \<Rightarrow>
        let r = prev @ (if \<not> first \<or> no_max then [elem G_RULE_REF (if no_max then i else last_id)] else [])
                  @ [elem G_ALT 0, elem G_END 0]
        in rep_loop base prev no_max k False i (add_rule i r ps1))"

record seq_state =
  sq_rule :: rule
  sq_last :: nat
  sq_n_prev :: nat
  sq_parser :: parser

definition n_opt :: "nat \<Rightarrow> nat \<Rightarrow> nat" where
  "n_opt min_times max_times = (if max_times = u64_max then 1 else (max_times + 2 ^ 64 - min_times) mod 2 ^ 64)"

text \<open>The difference of the bounds is unsigned: with the upper bound below the lower one the loop is to
  add \<open>2 ^ 64 - (min - max)\<close> rules, more than any memory holds; that outcome is \<open>GMemory\<close>.\<close>

definition handle_repetitions :: "nat list \<Rightarrow> nat \<Rightarrow> nat \<Rightarrow> seq_state \<Rightarrow> seq_state run" where
  "handle_repetitions base min_times max_times st =
     (let no_max = max_times = u64_max; rule = sq_rule st; prev = drop (sq_last st) rule;
          total = (if \<not> no_max \<and> max_times > 0 then max_times else if min_times > 0 then min_times else 1)
      in if sq_last st = length rule then throw
         else if max_repetition \<le> sq_n_prev st * total mod 2 ^ 64 then throw
         else if \<not> no_max \<and> max_times < min_times then Some (Inl GMemory)
         else
           let rule1 = (if min_times = 0 then take (sq_last st) rule else rule @ concat (replicate (min_times - 1) prev)) in
           (case rep_loop base prev no_max (n_opt min_times max_times) True 0 (sq_parser st) of (i, ps) \<Rightarrow>
              let rule2 = (if n_opt min_times max_times > 0 then rule1 @ [elem G_RULE_REF i] else rule1);
                  n_prev = sq_n_prev st * total mod 2 ^ 64
              in if n_prev = 0 then Some (Inl GAbort)
                 else ret (st\<lparr>sq_rule := rule2, sq_n_prev := n_prev, sq_parser := ps\<rparr>)))"

subsection \<open>Sequences\<close>

lemma parse_hex_shorter: "parse_hex n s v = Some (c, r) \<Longrightarrow> length r \<le> length s"
  by (induction n s v rule: parse_hex.induct) (auto split: option.splits)

lemma decode_one_shorter: "decode_one (b # s) = (v, r) \<Longrightarrow> length r \<le> length s"
  by (auto simp: decode_one_def dest: take_cont_le split: prod.splits)

lemma parse_char_shorter: "parse_char s = Some (c, r) \<Longrightarrow> length r < length s"
  by (auto simp: parse_char_def Let_def le_imp_less_Suc less_Suc_eq_le dest!: parse_hex_shorter decode_one_shorter
      intro: le_trans split: list.splits if_splits)

function parse_literal :: "nat list \<Rightarrow> rule \<Rightarrow> (nat list \<times> rule) option" where
  "parse_literal s rule =
     (if hd0 s = c_quote then Some (tl s, rule)
      else case parse_char s of None \<Rightarrow> None
        | Some (c, r) \<Rightarrow> parse_literal r (rule @ [elem G_CHAR c]))"
  by pat_completeness auto

termination
  by (relation "measure (\<lambda>(s, rule). length s)") (auto dest: parse_char_shorter)

function parse_class :: "gretype \<Rightarrow> nat \<Rightarrow> nat list \<Rightarrow> rule \<Rightarrow> (nat list \<times> rule) option" where
  "parse_class start at s rule =
     (if hd0 s = c_rbracket then Some (tl s, rule)
      else case parse_char s of None \<Rightarrow> None
        | Some (c, r) \<Rightarrow>
            let rule1 = rule @ [elem (if at < length rule then G_CHAR_ALT else start) c] in
            if hd0 r = c_minus \<and> hd0 (tl r) \<noteq> c_rbracket then
              (case parse_char (tl r) of None \<Rightarrow> None
               | Some (c2, r2) \<Rightarrow> parse_class start at r2 (rule1 @ [elem G_CHAR_RNG_UPPER c2]))
            else parse_class start at r rule1)"
  by pat_completeness auto

termination
  by (relation "measure (\<lambda>(start, at, s, rule). length s)") (auto dest!: parse_char_shorter)

declare parse_literal.simps [simp del] parse_class.simps [simp del]

text \<open>The bounds of \<open>{m}\<close>, \<open>{m,}\<close> and \<open>{m,n}\<close> after the brace: the minimum, the maximum and the rest.\<close>

definition parse_bounds :: "bool \<Rightarrow> nat list \<Rightarrow> (nat \<times> nat \<times> nat list) option" where
  "parse_bounds nested s0 =
     (let s = parse_space nested s0 in
      case parse_int s of None \<Rightarrow> None
      | Some (ds, r) \<Rightarrow> (case stoull ds of None \<Rightarrow> None
        | Some mn \<Rightarrow>
            let r1 = parse_space nested r in
            if hd0 r1 = c_rbrace then Some (mn, mn, parse_space nested (tl r1))
            else if hd0 r1 = c_comma then
              let r2 = parse_space nested (tl r1) in
              (case (if is_digit_char (hd0 r2) then
                       (case parse_int r2 of None \<Rightarrow> None
                        | Some (ds2, r3) \<Rightarrow> (case stoull ds2 of None \<Rightarrow> None | Some mx \<Rightarrow> Some (mx, parse_space nested r3)))
                     else Some (u64_max, r2)) of
                 None \<Rightarrow> None
               | Some (mx, r4) \<Rightarrow> if hd0 r4 \<noteq> c_rbrace then None else Some (mn, mx, parse_space nested (tl r4)))
            else None))"

datatype seq_next = Stop | Group "nat list" | Next "nat list" seq_state

definition start_sym :: "seq_state \<Rightarrow> seq_state" where
  "start_sym st = st\<lparr>sq_last := length (sq_rule st), sq_n_prev := 1\<rparr>"

text \<open>The symbols of a sequence, each from its first byte on.\<close>

definition item_literal :: "bool \<Rightarrow> nat list \<Rightarrow> seq_state \<Rightarrow> seq_next run" where
  "item_literal nested s st =
     (case parse_literal (tl s) (sq_rule st) of None \<Rightarrow> throw
      | Some (r, rule) \<Rightarrow> ret (Next (parse_space nested r) ((start_sym st)\<lparr>sq_rule := rule\<rparr>)))"

definition item_class :: "bool \<Rightarrow> nat list \<Rightarrow> seq_state \<Rightarrow> seq_next run" where
  "item_class nested s st =
     (let inv = hd0 (tl s) = c_caret in
      case parse_class (if inv then G_CHAR_NOT else G_CHAR) (length (sq_rule st)) (if inv then tl (tl s) else tl s) (sq_rule st) of
        None \<Rightarrow> throw
      | Some (r, rule) \<Rightarrow> ret (Next (parse_space nested r) ((start_sym st)\<lparr>sq_rule := rule\<rparr>)))"

definition item_token :: "(nat list \<Rightarrow> nat list) option \<Rightarrow> bool \<Rightarrow> nat list \<Rightarrow> seq_state \<Rightarrow> seq_next run" where
  "item_token tokenize nested s st =
     (let inv = hd0 s = c_bang in
      case parse_token tokenize (if inv then tl s else s) of None \<Rightarrow> throw
      | Some (t, r) \<Rightarrow> ret (Next (parse_space nested r)
          ((start_sym st)\<lparr>sq_rule := sq_rule st @ [elem (if inv then G_TOKEN_NOT else G_TOKEN) t]\<rparr>)))"

definition item_ref :: "bool \<Rightarrow> nat list \<Rightarrow> seq_state \<Rightarrow> seq_next run" where
  "item_ref nested s st =
     (case parse_name s of None \<Rightarrow> throw
      | Some (nm, r) \<Rightarrow> (case get_symbol_id nm (sq_parser st) of (i, ps) \<Rightarrow>
          ret (Next (parse_space nested r) ((start_sym st)\<lparr>sq_rule := sq_rule st @ [elem G_RULE_REF i], sq_parser := ps\<rparr>))))"

definition item_any :: "bool \<Rightarrow> nat list \<Rightarrow> seq_state \<Rightarrow> seq_next run" where
  "item_any nested s st =
     ret (Next (parse_space nested (tl s)) ((start_sym st)\<lparr>sq_rule := sq_rule st @ [elem G_CHAR_ANY 0]\<rparr>))"

definition item_repeat :: "nat list \<Rightarrow> nat \<Rightarrow> nat \<Rightarrow> nat list \<Rightarrow> seq_state \<Rightarrow> seq_next run" where
  "item_repeat name mn mx r st = run_bind (handle_repetitions name mn mx st) (\<lambda>st'. ret (Next r st'))"

definition item_braces :: "bool \<Rightarrow> nat list \<Rightarrow> nat list \<Rightarrow> seq_state \<Rightarrow> seq_next run" where
  "item_braces nested name s st =
     (case parse_bounds nested (tl s) of None \<Rightarrow> throw
      | Some (mn, mx, r) \<Rightarrow>
          if max_repetition < mn \<or> (mx \<noteq> u64_max \<and> max_repetition < mx) then throw else item_repeat name mn mx r st)"

definition seq_item :: "(nat list \<Rightarrow> nat list) option \<Rightarrow> bool \<Rightarrow> nat list \<Rightarrow> nat list \<Rightarrow> seq_state \<Rightarrow> seq_next run" where
  "seq_item tokenize nested name s st =
     (let b = hd0 s in
      if b = 0 then ret Stop
      else if b = c_quote then item_literal nested s st
      else if b = c_lbracket then item_class nested s st
      else if b = c_lt \<or> b = c_bang then item_token tokenize nested s st
      else if is_word_char b then item_ref nested s st
      else if b = c_open then ret (Group (parse_space True (tl s)))
      else if b = c_dot then item_any nested s st
      else if b = c_star then item_repeat name 0 u64_max (parse_space nested (tl s)) st
      else if b = c_plus then item_repeat name 1 u64_max (parse_space nested (tl s)) st
      else if b = c_question then item_repeat name 0 1 (parse_space nested (tl s)) st
      else if b = c_lbrace then item_braces nested name s st
      else ret Stop)"

definition seq_group :: "nat list \<Rightarrow> seq_state \<Rightarrow> nat \<times> seq_state" where
  "seq_group name st = (case generate_symbol_id name (sq_parser st) of (i, ps) \<Rightarrow> (i, st\<lparr>sq_parser := ps\<rparr>))"

text \<open>After the group: \<open>st\<close> is the state before it, \<open>ps\<close> the tables after it.\<close>

definition seq_after_group :: "nat \<Rightarrow> parser \<Rightarrow> seq_state \<Rightarrow> seq_state" where
  "seq_after_group i ps st =
     st\<lparr>sq_last := length (sq_rule st),
        sq_n_prev := max 1 ((length (ps_ids ps) + 2 ^ 32 - length (ps_ids (sq_parser st)) mod 2 ^ 32) mod 2 ^ 32), sq_rule := sq_rule st @ [elem G_RULE_REF i], sq_parser := ps\<rparr>"

fun parse_alternates :: "nat \<Rightarrow> (nat list \<Rightarrow> nat list) option \<Rightarrow> bool \<Rightarrow> nat list \<Rightarrow> nat \<Rightarrow> nat list \<Rightarrow> parser \<Rightarrow> (nat list \<times> parser) run"
  and alt_loop :: "nat \<Rightarrow> (nat list \<Rightarrow> nat list) option \<Rightarrow> bool \<Rightarrow> nat list \<Rightarrow> nat list \<Rightarrow> rule \<Rightarrow> parser \<Rightarrow> (nat list \<times> rule \<times> parser) run"
  and parse_sequence :: "nat \<Rightarrow> (nat list \<Rightarrow> nat list) option \<Rightarrow> bool \<Rightarrow> nat list \<Rightarrow> nat list \<Rightarrow> seq_state \<Rightarrow> (nat list \<times> seq_state) run" where
  "parse_alternates 0 tokenize nested name i s ps = None"
| "parse_alternates (Suc n) tokenize nested name i s ps =
     run_bind (parse_sequence n tokenize nested name s \<lparr>sq_rule = [], sq_last = 0, sq_n_prev = 1, sq_parser = ps\<rparr>) (\<lambda>(s1, st).
     run_bind (alt_loop n tokenize nested name s1 (sq_rule st) (sq_parser st)) (\<lambda>(s2, rule, ps2).
     ret (s2, add_rule i (rule @ [elem G_END 0]) ps2)))"
| "alt_loop 0 tokenize nested name s rule ps = None"
| "alt_loop (Suc n) tokenize nested name s rule ps =
     (if hd0 s \<noteq> c_bar then ret (s, rule, ps)
      else
        let rule1 = rule @ [elem G_ALT 0] in
        run_bind (parse_sequence n tokenize nested name (parse_space True (tl s))
          \<lparr>sq_rule = rule1, sq_last = length rule1, sq_n_prev = 1, sq_parser = ps\<rparr>) (\<lambda>(s1, st).
        alt_loop n tokenize nested name s1 (sq_rule st) (sq_parser st)))"
| "parse_sequence 0 tokenize nested name s st = None"
| "parse_sequence (Suc n) tokenize nested name s st =
     run_bind (seq_item tokenize nested name s st) (\<lambda>nx.
       case nx of
         Stop \<Rightarrow> ret (s, st)
       | Next s1 st1 \<Rightarrow> parse_sequence n tokenize nested name s1 st1
       | Group s1 \<Rightarrow>
           (case seq_group name st of (i, st1) \<Rightarrow>
             run_bind (parse_alternates n tokenize True name i s1 (sq_parser st1)) (\<lambda>(s2, ps2).
               if hd0 s2 \<noteq> c_close then throw
               else parse_sequence n tokenize nested name (parse_space nested (tl s2)) (seq_after_group i ps2 st))))"

subsection \<open>Rules and grammars\<close>

definition alternates_fuel :: "nat list \<Rightarrow> nat" where
  "alternates_fuel s = 2 * length s + 2"

definition line_end :: "nat list \<Rightarrow> nat list option" where
  "line_end s =
     (if hd0 s = c_cr then Some (if hd0 (tl s) = c_nl then tl (tl s) else tl s)
      else if hd0 s = c_nl then Some (tl s)
      else if hd0 s \<noteq> 0 then None else Some s)"

definition parse_rule :: "(nat list \<Rightarrow> nat list) option \<Rightarrow> nat list \<Rightarrow> parser \<Rightarrow> (nat list \<times> parser) run" where
  "parse_rule tokenize s ps =
     (case parse_name s of None \<Rightarrow> throw
      | Some (name, r) \<Rightarrow>
          let r1 = parse_space False r in
          (case get_symbol_id name ps of (i, ps1) \<Rightarrow>
            if \<not> (hd0 r1 = c_colon \<and> hd0 (tl r1) = c_colon \<and> hd0 (tl (tl r1)) = c_eq) then throw
            else
              let r2 = parse_space True (drop 3 r1) in
              run_bind (parse_alternates (alternates_fuel r2) tokenize False name i r2 ps1) (\<lambda>(r3, ps2).
                case line_end r3 of None \<Rightarrow> throw | Some r4 \<Rightarrow> ret (parse_space True r4, ps2))))"

fun parse_rules :: "nat \<Rightarrow> (nat list \<Rightarrow> nat list) option \<Rightarrow> nat list \<Rightarrow> parser \<Rightarrow> parser run" where
  "parse_rules 0 tokenize s ps = None"
| "parse_rules (Suc n) tokenize s ps =
     (if s = [] then ret ps else run_bind (parse_rule tokenize s ps) (\<lambda>(s1, ps1). parse_rules n tokenize s1 ps1))"

text \<open>The check that all rules are defined.\<close>

definition elem_defined :: "parser \<Rightarrow> gelem \<Rightarrow> bool" where
  "elem_defined ps e \<longleftrightarrow> g_type e \<noteq> G_RULE_REF
     \<or> \<not> (length (ps_rules ps) \<le> g_value e \<or> ps_rules ps ! g_value e = [])
     \<or> \<not> list_ex (\<lambda>(k, v). v = g_value e) (ps_ids ps)"

definition rules_defined :: "parser \<Rightarrow> bool" where
  "rules_defined ps \<longleftrightarrow> list_all (\<lambda>r. r \<noteq> [] \<and> list_all (elem_defined ps) r) (ps_rules ps)"

definition parse :: "(nat list \<Rightarrow> nat list) option \<Rightarrow> nat list \<Rightarrow> parser run" where
  "parse tokenize src =
     (let s0 = takeWhile (\<lambda>b. b \<noteq> 0) src; s = parse_space True s0 in
      run_bind (parse_rules (Suc (length s)) tokenize s \<lparr>ps_ids = [], ps_rules = []\<rparr>) (\<lambda>ps.
        if rules_defined ps then ret ps else throw))"

text \<open>The whole construction from a text; the result is \<open>None\<close> when the code returns a null pointer, and
  an index outside the rules is a fault.\<close>

definition init_impl ::
  "(nat list \<Rightarrow> nat list) option \<Rightarrow> nat list \<Rightarrow> nat list \<Rightarrow> bool \<Rightarrow> 'r trigger_pattern list \<Rightarrow> nat list \<Rightarrow> 'r grammar option run" where
  "init_impl tokenize text root lazy patterns tokens =
     (case parse tokenize text of
        None \<Rightarrow> None
      | Some (Inl GThrow) \<Rightarrow> ret None
      | Some (Inl e) \<Rightarrow> Some (Inl e)
      | Some (Inr ps) \<Rightarrow>
          if ps_rules ps = [] then ret None
          else (case map_of (ps_ids ps) root of None \<Rightarrow> ret None
            | Some i \<Rightarrow>
                if length (ps_rules ps) \<le> i then Some (Inl GNull)
                else run_bind (init_rules (ps_rules ps) i) (\<lambda>r. case r of None \<Rightarrow> ret None
                  | Some (rs, stacks) \<Rightarrow> ret (Some \<lparr>gr_rules = rs, gr_stacks = stacks,
                      gr_partial = \<lparr>pu_value = 0, pu_remain = 0\<rparr>, gr_awaiting = lazy, gr_buffer = [], gr_positions = [],
                      gr_trigger_tokens = tokens, gr_trigger_patterns = patterns\<rparr>))))"

end
