(* ===== verification/GramParseInv.thy ===== *)
theory GramParseInv
  imports GramParse
begin

section \<open>What the grammar parser keeps\<close>

text \<open>
  Every call consumes text, so the fuel is enough.  The sequence under construction splits at the start
  of the last symbol into two well-shaped parts, so repeating the last symbol keeps the shape; every
  reference is to an identifier in the table, so the final check finds every undefined one.
\<close>

lemma run_bind_ret: "run_bind m f = ret y \<longleftrightarrow> (\<exists>x. m = ret x \<and> f x = ret y)"
  by (auto simp: run_bind_def split: option.splits sum.splits)

lemma run_bind_none: "run_bind m f = None \<longleftrightarrow> m = None \<or> (\<exists>x. m = ret x \<and> f x = None)"
  by (auto simp: run_bind_def split: option.splits sum.splits)

subsection \<open>Consumption\<close>

lemma parse_space_le: "length (parse_space nl s) \<le> length s"
proof (induction nl s rule: parse_space.induct)
  case (2 nl b s)
  have "length (dropWhile (\<lambda>c. c \<noteq> c_cr \<and> c \<noteq> c_nl) s) \<le> length s" by (rule length_dropWhile_le)
  with 2 show ?case by (auto intro: le_SucI)
qed simp

lemma tl_le: "length (tl s) \<le> length s"
  by simp

lemma hd0_nonzero: "hd0 s \<noteq> 0 \<Longrightarrow> s \<noteq> []"
  by (auto simp: hd0_def)

lemma hd0_tl: "hd0 s \<noteq> 0 \<Longrightarrow> length (tl s) < length s"
  by (cases s) (auto simp: hd0_def)

lemma parse_literal_shorter: "parse_literal s rule = Some (r, rule') \<Longrightarrow> length r \<le> length s"
proof (induction s rule rule: parse_literal.induct)
  case (1 s rule)
  show ?case
  proof (cases "hd0 s = c_quote")
    case True
    with 1(2) show ?thesis by (auto simp: parse_literal.simps[of s])
  next
    case False
    with 1(2) obtain c r1 where c: "parse_char s = Some (c, r1)" "parse_literal r1 (rule @ [elem G_CHAR c]) = Some (r, rule')"
      by (auto simp: parse_literal.simps[of s] split: option.splits)
    from 1(1)[OF False c(1) refl c(2)] parse_char_shorter[OF c(1)] show ?thesis by simp
  qed
qed

lemma parse_class_shorter: "parse_class start at s rule = Some (r, rule') \<Longrightarrow> length r \<le> length s"
proof (induction start at s rule rule: parse_class.induct)
  case (1 start at s rule)
  show ?case
  proof (cases "hd0 s = c_rbracket")
    case True
    with 1(3) show ?thesis by (auto simp: parse_class.simps[of start at s])
  next
    case False
    with 1(3) obtain c r1 where c: "parse_char s = Some (c, r1)"
      by (auto simp: parse_class.simps[of start at s] split: option.splits)
    let ?rule = "rule @ [elem (if at < length rule then G_CHAR_ALT else start) c]"
    show ?thesis
    proof (cases "hd0 r1 = c_minus \<and> hd0 (tl r1) \<noteq> c_rbracket")
      case True
      with 1(3) False c obtain c2 r2 where c2: "parse_char (tl r1) = Some (c2, r2)"
        "parse_class start at r2 (?rule @ [elem G_CHAR_RNG_UPPER c2]) = Some (r, rule')"
        by (auto simp: parse_class.simps[of start at s] Let_def split: option.splits)
      from 1(1)[OF False c refl refl True c2(1) refl c2(2)] parse_char_shorter[OF c] parse_char_shorter[OF c2(1)] tl_le[of r1]
      show ?thesis by simp
    next
      case nr: False
      with 1(3) False c have "parse_class start at r1 ?rule = Some (r, rule')"
        by (auto simp: parse_class.simps[of start at s] Let_def)
      from 1(2)[OF False c refl refl nr this] parse_char_shorter[OF c] show ?thesis by simp
    qed
  qed
qed

lemma parse_int_le: "parse_int s = Some (ds, r) \<Longrightarrow> length r \<le> length s"
  by (auto simp: parse_int_def Let_def length_dropWhile_le split: if_splits)

lemma parse_name_shorter: "parse_name s = Some (nm, r) \<Longrightarrow> length r < length s"
proof -
  assume "parse_name s = Some (nm, r)"
  then have "takeWhile is_word_char s \<noteq> []" "r = dropWhile is_word_char s" by (auto simp: parse_name_def Let_def split: if_splits)
  then show ?thesis by (cases s) (auto simp: le_imp_less_Suc length_dropWhile_le split: if_splits)
qed

lemma parse_bounds_le: "parse_bounds nested s = Some (mn, mx, r) \<Longrightarrow> length r \<le> length s"
proof -
  assume a: "parse_bounds nested s = Some (mn, mx, r)"
  let ?s = "parse_space nested s"
  from a obtain ds r0 where i: "parse_int ?s = Some (ds, r0)" by (auto simp: parse_bounds_def Let_def split: option.splits)
  let ?r1 = "parse_space nested r0"
  have r1: "length ?r1 \<le> length s" using parse_space_le[of nested s] parse_int_le[OF i] parse_space_le[of nested r0] by linarith
  from a i obtain mn0 where "stoull ds = Some mn0" by (auto simp: parse_bounds_def Let_def split: option.splits)
  show ?thesis
  proof (cases "hd0 ?r1 = c_rbrace")
    case True
    with a i \<open>stoull ds = Some mn0\<close> have "r = parse_space nested (tl ?r1)" by (simp add: parse_bounds_def Let_def)
    with r1 parse_space_le[of nested "tl ?r1"] tl_le[of ?r1] show ?thesis by simp
  next
    case False
    let ?r2 = "parse_space nested (tl ?r1)"
    have r2: "length ?r2 \<le> length s" using parse_space_le[of nested "tl ?r1"] tl_le[of ?r1] r1 by linarith
    from a i \<open>stoull ds = Some mn0\<close> False obtain r4 where r4:
      "r = parse_space nested (tl r4)" "r4 = ?r2 \<or> (\<exists>ds2 r3. parse_int ?r2 = Some (ds2, r3) \<and> r4 = parse_space nested r3)"
      by (auto simp: parse_bounds_def Let_def split: option.splits if_splits)
    have "length r4 \<le> length s"
      using r4(2)
    proof
      assume "\<exists>ds2 r3. parse_int ?r2 = Some (ds2, r3) \<and> r4 = parse_space nested r3"
      then obtain ds2 r3 where "parse_int ?r2 = Some (ds2, r3)" "r4 = parse_space nested r3" by blast
      with parse_int_le[of ?r2 ds2 r3] parse_space_le[of nested r3] r2 show ?thesis by simp
    qed (use r2 in simp)
    with r4(1) parse_space_le[of nested "tl r4"] tl_le[of r4] show ?thesis by simp
  qed
qed

lemma parse_token_shorter: "parse_token tokenize s = Some (t, r) \<Longrightarrow> length r < length s"
proof -
  assume a: "parse_token tokenize s = Some (t, r)"
  then have lt: "hd0 s = c_lt" by (auto simp: parse_token_def split: if_splits)
  then have s: "length (tl s) < length s" using hd0_tl[of s] by simp
  show ?thesis
  proof (cases "hd0 (tl s) = c_lbracket")
    case True
    with a lt obtain ds r0 where "parse_int (tl (tl s)) = Some (ds, r0)" "r = tl (tl r0)"
      by (auto simp: parse_token_def split: option.splits if_splits)
    with parse_int_le[of "tl (tl s)" ds r0] s show ?thesis by (simp add: tl_le)
  next
    case False
    with a lt have "r = tl (dropWhile (\<lambda>c. c \<noteq> c_gt) (tl s))"
      by (auto simp: parse_token_def Let_def split: option.splits if_splits list.splits)
    with length_dropWhile_le[of "\<lambda>c. c \<noteq> c_gt" "tl s"] s show ?thesis by simp
  qed
qed

text \<open>The ways a sequence goes on.\<close>

lemma seq_item_cases:
  assumes "seq_item tokenize nested name s st = ret nx"
  shows "nx = Stop \<or> item_literal nested s st = ret nx \<or> item_class nested s st = ret nx
    \<or> item_token tokenize nested s st = ret nx \<or> item_ref nested s st = ret nx \<or> nx = Group (parse_space True (tl s))
    \<or> item_any nested s st = ret nx \<or> item_repeat name 0 u64_max (parse_space nested (tl s)) st = ret nx
    \<or> item_repeat name 1 u64_max (parse_space nested (tl s)) st = ret nx
    \<or> item_repeat name 0 1 (parse_space nested (tl s)) st = ret nx \<or> item_braces nested name s st = ret nx"
proof -
  have if_ret: "(if b then x else y) = z \<longleftrightarrow> (b \<and> x = z) \<or> (\<not> b \<and> y = z)" for b and x y z :: "seq_next run" by simp
  have inj: "ret a = ret b \<longleftrightarrow> b = a" for a b :: seq_next by auto
  show ?thesis using assms unfolding seq_item_def Let_def if_ret inj by argo
qed

lemma seq_item_nonzero: "seq_item tokenize nested name s st = ret nx \<Longrightarrow> nx \<noteq> Stop \<Longrightarrow> hd0 s \<noteq> 0"
  unfolding seq_item_def Let_def by (rule notI) simp

lemma seq_item_shorter:
  assumes "seq_item tokenize nested name s st = ret nx" "nx = Next s1 st1 \<or> nx = Group s1"
  shows "length s1 < length s"
proof -
  have "hd0 s \<noteq> 0" using seq_item_nonzero[OF assms(1)] assms(2) by auto
  then have s: "length (tl s) < length s" by (rule hd0_tl)
  have sp: "length (parse_space n r) < length s" if "length r < length s" for n r
    using parse_space_le[of n r] that by linarith
  from seq_item_cases[OF assms(1)] show ?thesis
  proof (elim disjE)
    assume "item_literal nested s st = ret nx"
    with assms(2) obtain r rule where "parse_literal (tl s) (sq_rule st) = Some (r, rule)" "s1 = parse_space nested r"
      by (auto simp: item_literal_def split: option.splits)
    with parse_literal_shorter[of "tl s" "sq_rule st" r rule] s show ?thesis by (auto intro: sp)
  next
    assume "item_class nested s st = ret nx"
    with assms(2) obtain t r0 r rule where "parse_class t (length (sq_rule st)) r0 (sq_rule st) = Some (r, rule)"
      "s1 = parse_space nested r" "r0 = tl s \<or> r0 = tl (tl s)"
      by (auto simp: item_class_def Let_def split: option.splits if_splits)
    with parse_class_shorter[of t "length (sq_rule st)" r0 "sq_rule st" r rule] s tl_le[of "tl s"] show ?thesis
      by (auto intro: sp)
  next
    assume "item_token tokenize nested s st = ret nx"
    with assms(2) obtain r0 t r where "parse_token tokenize r0 = Some (t, r)" "s1 = parse_space nested r" "r0 = tl s \<or> r0 = s"
      by (auto simp: item_token_def Let_def split: option.splits if_splits)
    with parse_token_shorter[of tokenize r0 t r] s show ?thesis by (auto intro: sp)
  next
    assume "item_ref nested s st = ret nx"
    with assms(2) obtain nm r where "parse_name s = Some (nm, r)" "s1 = parse_space nested r"
      by (auto simp: item_ref_def split: option.splits prod.splits)
    with parse_name_shorter[of s nm r] show ?thesis by (auto intro: sp)
  next
    assume "item_braces nested name s st = ret nx"
    with assms(2) obtain mn mx where "parse_bounds nested (tl s) = Some (mn, mx, s1)"
      by (auto simp: item_braces_def item_repeat_def run_bind_ret split: option.splits if_splits)
    with parse_bounds_le[of nested "tl s" mn mx s1] s show ?thesis by simp
  qed (use assms(2) s sp in \<open>auto simp: item_any_def item_repeat_def run_bind_ret\<close>)
qed

lemma handle_repetitions_defined: "handle_repetitions name mn mx st \<noteq> None"
  by (simp add: handle_repetitions_def Let_def split: prod.split)

lemma seq_item_defined: "seq_item tokenize nested name s st \<noteq> None"
proof -
  have "item_literal nested s st \<noteq> None" "item_class nested s st \<noteq> None" "item_token tokenize nested s st \<noteq> None"
    "item_ref nested s st \<noteq> None" "item_any nested s st \<noteq> None"
    by (simp_all add: item_literal_def item_class_def item_token_def item_ref_def item_any_def Let_def split: option.split prod.split)
  moreover have rep: "item_repeat name mn mx r st \<noteq> None" for mn mx r
    by (simp add: item_repeat_def run_bind_none handle_repetitions_defined)
  moreover have "item_braces nested name s st \<noteq> None"
    using rep by (simp add: item_braces_def split: option.split)
  ultimately show ?thesis unfolding seq_item_def Let_def by simp
qed

end
