(* ===== verification/GramParseOk.thy ===== *)
theory GramParseOk
  imports GramParseInv
begin

section \<open>The fuel is enough, and what a parsed grammar satisfies\<close>

text \<open>
  A nested call starts on a shorter text, so twice the length bounds the depth of the recursion.  The
  invariant of the parser is shown for each symbol and then for the three functions at once.
\<close>

subsection \<open>Fuel\<close>

lemma parse_lengths:
  "(\<forall>nested name i s ps s' ps'. parse_alternates n tokenize nested name i s ps = ret (s', ps') \<longrightarrow> length s' \<le> length s)
    \<and> (\<forall>nested name s rule ps s' r. alt_loop n tokenize nested name s rule ps = ret (s', r) \<longrightarrow> length s' \<le> length s)
    \<and> (\<forall>nested name s st s' st'. parse_sequence n tokenize nested name s st = ret (s', st') \<longrightarrow> length s' \<le> length s)"
proof (induction n)
  case (Suc n)
  have A: "length s' \<le> length s" if a: "parse_alternates n tokenize nested name i s ps = ret (s', ps')" for nested name i s ps s' ps'
    using Suc.IH a by blast
  have L: "length s' \<le> length s" if a: "alt_loop n tokenize nested name s rule ps = ret (s', r)" for nested name s rule ps s' r
    using Suc.IH a by (cases r) blast
  have S: "length s' \<le> length s" if a: "parse_sequence n tokenize nested name s st = ret (s', st')" for nested name s st s' st'
    using Suc.IH a by blast
  have A': "length s' \<le> length s" if a: "parse_alternates (Suc n) tokenize nested name i s ps = ret (s', ps')" for nested name i s ps s' ps'
  proof -
    from a obtain s1 st r where "parse_sequence n tokenize nested name s \<lparr>sq_rule = [], sq_last = 0, sq_n_prev = 1, sq_parser = ps\<rparr> = ret (s1, st)"
      "alt_loop n tokenize nested name s1 (sq_rule st) (sq_parser st) = ret (s', r)"
      by (auto simp: run_bind_ret)
    with S L show ?thesis by (meson le_trans)
  qed
  have L': "length s' \<le> length s" if a: "alt_loop (Suc n) tokenize nested name s rule ps = ret (s', r)" for nested name s rule ps s' r
  proof (cases "hd0 s = c_bar")
    case True
    let ?s = "parse_space True (tl s)"
    from a True obtain s1 st where "parse_sequence n tokenize nested name ?s
        \<lparr>sq_rule = rule @ [elem G_ALT 0], sq_last = length (rule @ [elem G_ALT 0]), sq_n_prev = 1, sq_parser = ps\<rparr> = ret (s1, st)"
      "alt_loop n tokenize nested name s1 (sq_rule st) (sq_parser st) = ret (s', r)"
      by (auto simp: run_bind_ret Let_def)
    with S L have "length s' \<le> length ?s" by (meson le_trans)
    also have "\<dots> \<le> length s" using parse_space_le[of True "tl s"] by simp
    finally show ?thesis .
  qed (use a in simp)
  have S': "length s' \<le> length s" if a: "parse_sequence (Suc n) tokenize nested name s st = ret (s', st')" for nested name s st s' st'
  proof -
    from a obtain nx where nx: "seq_item tokenize nested name s st = ret nx" by (auto simp: run_bind_ret)
    show ?thesis
    proof (cases nx)
      case (Next s1 st1)
      with a nx have "parse_sequence n tokenize nested name s1 st1 = ret (s', st')" by (simp add: run_bind_def)
      from S[OF this] seq_item_shorter[OF nx, of s1 st1] Next show ?thesis by simp
    next
      case (Group s1)
      obtain i st1 where g: "seq_group name st = (i, st1)" by fastforce
      from a nx Group g obtain s2 ps2 where
        "parse_alternates n tokenize True name i s1 (sq_parser st1) = ret (s2, ps2)"
        "parse_sequence n tokenize nested name (parse_space nested (tl s2)) (seq_after_group i ps2 st) = ret (s', st')"
        by (auto simp: run_bind_ret split: if_splits)
      with A S have "length s' \<le> length (parse_space nested (tl s2))" "length s2 \<le> length s1" by blast+
      with parse_space_le[of nested "tl s2"] seq_item_shorter[OF nx, of s1] Group tl_le[of s2] show ?thesis by simp
    qed (use a nx in \<open>simp add: run_bind_def\<close>)
  qed
  from A' L' S' show ?case by blast
qed simp

lemma parse_fuel_enough:
  "(\<forall>nested name i s ps. 2 * length s + 2 \<le> n \<longrightarrow> parse_alternates n tokenize nested name i s ps \<noteq> None)
    \<and> (\<forall>nested name s rule ps. 2 * length s + 1 \<le> n \<longrightarrow> alt_loop n tokenize nested name s rule ps \<noteq> None)
    \<and> (\<forall>nested name s st. 2 * length s + 1 \<le> n \<longrightarrow> parse_sequence n tokenize nested name s st \<noteq> None)"
proof (induction n)
  case (Suc n)
  have A: "parse_alternates n tokenize nested name i s ps \<noteq> None" if "2 * length s + 2 \<le> n" for nested name i s ps
    using Suc.IH that by blast
  have L: "alt_loop n tokenize nested name s rule ps \<noteq> None" if "2 * length s + 1 \<le> n" for nested name s rule ps
    using Suc.IH that by blast
  have S: "parse_sequence n tokenize nested name s st \<noteq> None" if "2 * length s + 1 \<le> n" for nested name s st
    using Suc.IH that by blast
  have len: "length s' \<le> length s" if "parse_sequence n tokenize nested name s st = ret (s', st')" for nested name s st s' st'
    using parse_lengths[of n tokenize] that by blast
  have lenA: "length s' \<le> length s" if "parse_alternates n tokenize nested name i s ps = ret (s', ps')" for nested name i s ps s' ps'
    using parse_lengths[of n tokenize] that by blast
  have A': "parse_alternates (Suc n) tokenize nested name i s ps \<noteq> None" if f: "2 * length s + 2 \<le> Suc n" for nested name i s ps
  proof
    let ?st = "\<lparr>sq_rule = [], sq_last = 0, sq_n_prev = 1, sq_parser = ps\<rparr>"
    assume "parse_alternates (Suc n) tokenize nested name i s ps = None"
    then obtain s1 st where p: "parse_sequence n tokenize nested name s ?st = ret (s1, st)"
        "alt_loop n tokenize nested name s1 (sq_rule st) (sq_parser st) = None"
      using S[of s nested name ?st] f by (auto simp: run_bind_none)
    have "2 * length s1 + 1 \<le> n" using len[OF p(1)] f by linarith
    from L[OF this] p(2) show False by blast
  qed
  have L': "alt_loop (Suc n) tokenize nested name s rule ps \<noteq> None" if f: "2 * length s + 1 \<le> Suc n" for nested name s rule ps
  proof
    let ?s = "parse_space True (tl s)" and ?rule = "rule @ [elem G_ALT 0]"
    let ?st = "\<lparr>sq_rule = ?rule, sq_last = length ?rule, sq_n_prev = 1, sq_parser = ps\<rparr>"
    assume a: "alt_loop (Suc n) tokenize nested name s rule ps = None"
    then have bar: "hd0 s = c_bar" by (auto split: if_splits)
    then have "length (tl s) < length s" using hd0_tl[of s] by simp
    then have f1: "2 * length ?s + 1 \<le> n" using parse_space_le[of True "tl s"] f by linarith
    from a bar S[OF f1, of nested name ?st] obtain s1 st where p:
      "parse_sequence n tokenize nested name ?s ?st = ret (s1, st)" "alt_loop n tokenize nested name s1 (sq_rule st) (sq_parser st) = None"
      by (auto simp: run_bind_none Let_def)
    have "2 * length s1 + 1 \<le> n" using len[OF p(1)] f1 by linarith
    from L[OF this] p(2) show False by blast
  qed
  have S': "parse_sequence (Suc n) tokenize nested name s st \<noteq> None" if f: "2 * length s + 1 \<le> Suc n" for nested name s st
  proof
    assume a: "parse_sequence (Suc n) tokenize nested name s st = None"
    then obtain nx where nx: "seq_item tokenize nested name s st = ret nx"
      using seq_item_defined[of tokenize nested name s st] by (auto simp: run_bind_none)
    show False
    proof (cases nx)
      case (Next s1 st1)
      with a nx have "parse_sequence n tokenize nested name s1 st1 = None" by (simp add: run_bind_def)
      moreover have "2 * length s1 + 1 \<le> n" using seq_item_shorter[OF nx, of s1 st1] Next f by simp
      ultimately show False using S by blast
    next
      case (Group s1)
      have sh: "length s1 < length s" using seq_item_shorter[OF nx, of s1] Group by blast
      obtain i st1 where g: "seq_group name st = (i, st1)" by fastforce
      have fA: "2 * length s1 + 2 \<le> n" using sh f by linarith
      from a nx Group g A[OF fA, of True name i "sq_parser st1"] obtain s2 ps2 where p:
        "parse_alternates n tokenize True name i s1 (sq_parser st1) = ret (s2, ps2)"
        "parse_sequence n tokenize nested name (parse_space nested (tl s2)) (seq_after_group i ps2 st) = None"
        by (auto simp: run_bind_none run_bind_ret split: if_splits)
      have "length (parse_space nested (tl s2)) \<le> length s1"
        using lenA[OF p(1)] parse_space_le[of nested "tl s2"] tl_le[of s2] by linarith
      then have "2 * length (parse_space nested (tl s2)) + 1 \<le> n" using fA by linarith
      from S[OF this] p(2) show False by blast
    qed (use a nx in \<open>simp add: run_bind_def\<close>)
  qed
  from A' L' S' show ?case by blast
qed simp

lemma parse_rule_defined: "parse_rule tokenize s ps \<noteq> None"
proof -
  have "parse_alternates (alternates_fuel r) tokenize False name i r ps1 \<noteq> None" for name i r ps1
    using parse_fuel_enough[of "alternates_fuel r" tokenize] unfolding alternates_fuel_def by blast
  then show ?thesis
    by (simp add: parse_rule_def Let_def run_bind_none del: parse_alternates.simps not_None_eq
        split: option.split prod.split)
qed

lemma parse_rule_shorter: "parse_rule tokenize s ps = ret (s', ps') \<Longrightarrow> length s' < length s"
proof -
  assume a: "parse_rule tokenize s ps = ret (s', ps')"
  then obtain name r where n: "parse_name s = Some (name, r)" by (auto simp: parse_rule_def split: option.splits)
  obtain i ps1 where g: "get_symbol_id name ps = (i, ps1)" by fastforce
  let ?r2 = "parse_space True (drop 3 (parse_space False r))"
  from a n g obtain r3 ps2 r4 where r: "parse_alternates (alternates_fuel ?r2) tokenize False name i ?r2 ps1 = ret (r3, ps2)"
    "line_end r3 = Some r4" "s' = parse_space True r4"
    by (auto simp: parse_rule_def Let_def run_bind_ret split: if_splits option.splits)
  have "length r3 \<le> length ?r2" using parse_lengths[of "alternates_fuel ?r2" tokenize] r(1) by blast
  moreover have "length r4 \<le> length r3" using r(2) tl_le[of r3] tl_le[of "tl r3"] by (auto simp: line_end_def split: if_splits)
  moreover have "length ?r2 \<le> length r"
    using parse_space_le[of True "drop 3 (parse_space False r)"] parse_space_le[of False r] by simp
  ultimately show ?thesis using parse_name_shorter[OF n] parse_space_le[of True r4] r(3) by simp
qed

lemma parse_rules_defined: "length s < n \<Longrightarrow> parse_rules n tokenize s ps \<noteq> None"
proof (induction n arbitrary: s ps)
  case (Suc n)
  show ?case
  proof
    assume "parse_rules (Suc n) tokenize s ps = None"
    then obtain s1 ps1 where "parse_rule tokenize s ps = ret (s1, ps1)" "parse_rules n tokenize s1 ps1 = None"
      using parse_rule_defined[of tokenize s ps] by (auto simp: run_bind_none split: if_splits)
    with Suc.IH[of s1 ps1] parse_rule_shorter[of tokenize s ps s1 ps1] Suc.prems show False by simp
  qed
qed simp

lemma parse_defined: "parse tokenize src \<noteq> None"
  by (simp add: parse_def Let_def run_bind_none parse_rules_defined del: parse_rules.simps not_None_eq)

end
