(* ===== verification/GramParseWf.thy ===== *)
theory GramParseWf
  imports GramParseOk
begin

section \<open>A parsed grammar is well formed\<close>

text \<open>
  \<open>shape\<close> is the order of elements a rule must have, without the end marker and without looking at
  the references.  The tables keep: every rule has the shape and refers to known identifiers, and
  only a generated name contains an underscore, so generating a name never changes the identifier of
  an earlier one.
\<close>

subsection \<open>Shapes\<close>

definition mode_after :: "gelem \<Rightarrow> nat" where
  "mode_after e = (case g_type e of G_CHAR \<Rightarrow> 1 | G_CHAR_NOT \<Rightarrow> 1 | G_CHAR_ALT \<Rightarrow> 1 | G_CHAR_RNG_UPPER \<Rightarrow> 2 | _ \<Rightarrow> 0)"

definition allowed :: "nat \<Rightarrow> gelem \<Rightarrow> bool" where
  "allowed m e \<longleftrightarrow> g_type e \<noteq> G_END \<and> (g_type e = G_CHAR_RNG_UPPER \<longrightarrow> m = 1) \<and> (g_type e = G_CHAR_ALT \<longrightarrow> 1 \<le> m)"

fun shape :: "nat \<Rightarrow> gelem list \<Rightarrow> bool" where
  "shape m [] = True"
| "shape m (e # es) \<longleftrightarrow> allowed m e \<and> shape (mode_after e) es"

lemma shape_0: "shape 0 es \<Longrightarrow> shape m es"
  by (cases es) (auto simp: allowed_def)

lemma shape_append [intro]: "shape m xs \<Longrightarrow> shape 0 ys \<Longrightarrow> shape m (xs @ ys)"
  by (induction m xs rule: shape.induct) (auto intro: shape_0)

lemma shape_snoc: "shape m (xs @ [e]) \<longleftrightarrow> shape m xs \<and> allowed (if xs = [] then m else mode_after (last xs)) e"
  by (induction m xs rule: shape.induct) auto

lemma shape_single: "shape 0 [elem t v] \<longleftrightarrow> t \<noteq> G_END \<and> t \<noteq> G_CHAR_RNG_UPPER \<and> t \<noteq> G_CHAR_ALT"
  by (auto simp: allowed_def)

lemma shape_concat_replicate: "shape 0 xs \<Longrightarrow> shape 0 (concat (replicate n xs))"
  by (induction n) auto

lemma shape_no_end: "shape m es \<Longrightarrow> \<forall>e \<in> set es. g_type e \<noteq> G_END"
  by (induction m es rule: shape.induct) (auto simp: allowed_def)

definition refs_in :: "nat set \<Rightarrow> gelem list \<Rightarrow> bool" where
  "refs_in R es \<longleftrightarrow> (\<forall>e \<in> set es. g_type e = G_RULE_REF \<longrightarrow> g_value e \<in> R)"

lemma refs_in_simps [simp]:
  "refs_in R []" "refs_in R (e # es) \<longleftrightarrow> (g_type e = G_RULE_REF \<longrightarrow> g_value e \<in> R) \<and> refs_in R es"
  "refs_in R (xs @ ys) \<longleftrightarrow> refs_in R xs \<and> refs_in R ys"
  by (auto simp: refs_in_def)

lemma refs_in_mono: "refs_in R es \<Longrightarrow> R \<subseteq> S \<Longrightarrow> refs_in S es"
  by (auto simp: refs_in_def)

lemma refs_in_sub: "refs_in R es \<Longrightarrow> set xs \<subseteq> set es \<Longrightarrow> refs_in R xs"
  by (auto simp: refs_in_def)

lemma wf_elems_shape: "shape m es \<Longrightarrow> refs_in {..<n} es \<Longrightarrow> m \<le> 2 \<Longrightarrow> wf_elems n m (es @ [elem G_END 0])"
proof (induction m es rule: shape.induct)
  case (2 m e es)
  have wf0: "wf_elems n k (es @ [elem G_END 0])" if "wf_elems n 0 (es @ [elem G_END 0])" for k
  proof (cases es)
    case (Cons a as)
    with that have "\<not> is_modifier a" by (auto simp: is_modifier_def)
    then show ?thesis using wf_elems_mode[OF that] Cons by auto
  qed simp
  have "mode_after e \<le> 2" by (simp add: mode_after_def split: gretype.split)
  with 2 have "wf_elems n (mode_after e) (es @ [elem G_END 0])" by simp
  then show ?case using 2(2,3) wf0 by (auto simp: allowed_def mode_after_def split: gretype.splits)
qed simp

subsection \<open>Names\<close>

lemma digits_no_underscore: "c_underscore \<notin> set (digits n)"
  by (induction n rule: digits.induct) (subst digits.simps, auto)

lemma digits_nonempty: "digits n \<noteq> []"
  by (subst digits.simps) simp

lemma digits_inj: "digits m = digits n \<Longrightarrow> m = n"
proof (induction m arbitrary: n rule: digits.induct)
  case (1 m)
  show ?case
  proof (cases "m < 10")
    case True
    then have "digits n = [48 + m]" using 1(2) digits.simps[of m] by simp
    then show ?thesis using digits.simps[of n] digits_nonempty[of "n div 10"] by (auto split: if_splits)
  next
    case False
    then have m: "digits m = digits (m div 10) @ [48 + m mod 10]" using digits.simps[of m] by simp
    show ?thesis
    proof (cases "n < 10")
      case True
      then have "digits n = [48 + n]" using digits.simps[of n] by simp
      with m 1(2) digits_nonempty[of "m div 10"] show ?thesis by auto
    next
      case n: False
      then have "digits n = digits (n div 10) @ [48 + n mod 10]" using digits.simps[of n] by simp
      with m 1(2) have "digits (m div 10) = digits (n div 10)" "m mod 10 = n mod 10" by simp_all
      with 1(1)[OF False] show ?thesis by (metis div_mult_mod_eq)
    qed
  qed
qed

definition name_ok :: "nat list \<Rightarrow> nat \<Rightarrow> bool" where
  "name_ok k v \<longleftrightarrow> c_underscore \<notin> set k \<or> (\<exists>b. k = b @ [c_underscore] @ digits v \<and> c_underscore \<notin> set b)"

definition ids_ok :: "(nat list \<times> nat) list \<Rightarrow> bool" where
  "ids_ok ids \<longleftrightarrow> (\<forall>(k, v) \<in> set ids. name_ok k v)"

definition id_set :: "parser \<Rightarrow> nat set" where
  "id_set ps = snd ` set (ps_ids ps)"

definition rule_ok :: "nat set \<Rightarrow> rule \<Rightarrow> bool" where
  "rule_ok R r \<longleftrightarrow> r = [] \<or> (\<exists>b. r = b @ [elem G_END 0] \<and> shape 0 b \<and> refs_in R b)"

text \<open>The identifiers are the numbers below the size of the table, as long as that fits 32 bits.\<close>

definition dense :: "parser \<Rightarrow> bool" where
  "dense ps \<longleftrightarrow> (length (ps_ids ps) \<le> 2 ^ 32 \<longrightarrow> id_set ps = {..<length (ps_ids ps)} \<and> length (ps_rules ps) \<le> length (ps_ids ps))"

definition parser_ok :: "parser \<Rightarrow> bool" where
  "parser_ok ps \<longleftrightarrow> ids_ok (ps_ids ps) \<and> (\<forall>r \<in> set (ps_rules ps). rule_ok (id_set ps) r) \<and> dense ps"

lemma rule_ok_mono: "rule_ok R r \<Longrightarrow> R \<subseteq> S \<Longrightarrow> rule_ok S r"
  unfolding rule_ok_def using refs_in_mono by blast

lemma word_no_underscore: "is_word_char c \<Longrightarrow> c \<noteq> c_underscore"
  by (auto simp: is_word_char_def is_digit_char_def)

lemma parse_name_ok: "parse_name s = Some (nm, r) \<Longrightarrow> c_underscore \<notin> set nm"
  using word_no_underscore by (auto simp: parse_name_def Let_def dest: set_takeWhileD split: if_splits)

lemma name_split_unique:
  assumes "xs @ [c] @ us = ys @ [c] @ vs" "c \<notin> set us" "c \<notin> set vs"
  shows "us = (vs :: nat list)"
proof -
  have "takeWhile (\<lambda>x. x \<noteq> c) (rev us @ [c] @ rev xs) = rev us" using assms(2) by (subst takeWhile_append2) auto
  moreover have "takeWhile (\<lambda>x. x \<noteq> c) (rev vs @ [c] @ rev ys) = rev vs" using assms(3) by (subst takeWhile_append2) auto
  moreover have "rev us @ [c] @ rev xs = rev vs @ [c] @ rev ys" using arg_cong[OF assms(1), of rev] by simp
  ultimately show ?thesis by simp
qed

lemma get_symbol_id_ok:
  assumes "get_symbol_id nm ps = (i, ps')" "parser_ok ps" "c_underscore \<notin> set nm"
  shows "parser_ok ps' \<and> id_set ps \<subseteq> id_set ps' \<and> i \<in> id_set ps' \<and> ps_rules ps' = ps_rules ps"
proof (cases "map_of (ps_ids ps) nm")
  case None
  with assms(1) have ps': "ps' = ps\<lparr>ps_ids := ps_ids ps @ [(nm, i)]\<rparr>" by (auto simp: get_symbol_id_def Let_def)
  then have sub: "id_set ps \<subseteq> id_set ps'" "i \<in> id_set ps'" by (auto simp: id_set_def)
  moreover have "dense ps'"
  proof -
    have "i = length (ps_ids ps) mod 2 ^ 32" using assms(1) None by (auto simp: get_symbol_id_def Let_def)
    then show ?thesis using assms(2) ps' by (auto simp: parser_ok_def dense_def id_set_def lessThan_Suc)
  qed
  moreover have "ids_ok (ps_ids ps')" "\<forall>r \<in> set (ps_rules ps'). rule_ok (id_set ps') r"
    using assms(2,3) rule_ok_mono[OF _ sub(1)] ps' by (auto simp: parser_ok_def ids_ok_def name_ok_def)
  ultimately show ?thesis using ps' by (simp add: parser_ok_def)
next
  case (Some v)
  with assms(1) have "ps' = ps" "v = i" by (auto simp: get_symbol_id_def)
  with Some assms(2) show ?thesis by (force simp: id_set_def dest: map_of_SomeD)
qed

lemma update_range:
  assumes "\<forall>w. (k, w) \<in> set ids \<longrightarrow> w = v"
  shows "snd ` set (AList.update k v ids) = insert v (snd ` set ids)"
  using assms by (induction ids) (auto split: if_splits)

lemma update_length: "length (AList.update k v ids) = (if k \<in> fst ` set ids then length ids else Suc (length ids))"
  by (induction ids) auto

lemma update_set: "set (AList.update k v ids) \<subseteq> insert (k, v) (set ids)"
  by (induction ids) auto

lemma generate_symbol_id_ok:
  assumes "generate_symbol_id base ps = (i, ps')" "parser_ok ps" "c_underscore \<notin> set base"
  shows "parser_ok ps' \<and> id_set ps \<subseteq> id_set ps' \<and> i \<in> id_set ps' \<and> ps_rules ps' = ps_rules ps"
proof -
  let ?nm = "base @ [c_underscore] @ digits i"
  have ps': "ps' = ps\<lparr>ps_ids := AList.update ?nm i (ps_ids ps)\<rparr>" using assms(1) by (auto simp: generate_symbol_id_def Let_def)
  have same: "w = i" if "(?nm, w) \<in> set (ps_ids ps)" for w
  proof -
    have "name_ok ?nm w" using assms(2) that by (auto simp: parser_ok_def ids_ok_def)
    then obtain b where "?nm = b @ [c_underscore] @ digits w" by (auto simp: name_ok_def)
    then have "digits i = digits w" using name_split_unique digits_no_underscore by metis
    then show ?thesis using digits_inj by metis
  qed
  have rng: "id_set ps' = insert i (id_set ps)"
    using update_range[of ?nm "ps_ids ps" i] same ps' by (simp add: id_set_def)
  have "name_ok ?nm i" using assms(3) by (auto simp: name_ok_def)
  then have "ids_ok (ps_ids ps')"
    using assms(2) update_set[of ?nm i "ps_ids ps"] ps' by (auto simp: parser_ok_def ids_ok_def)
  moreover have "\<forall>r \<in> set (ps_rules ps'). rule_ok (id_set ps') r"
    using assms(2) rule_ok_mono[of "id_set ps" _ "id_set ps'"] rng ps' by (auto simp: parser_ok_def)
  moreover have "dense ps'"
    unfolding dense_def
  proof
    assume len: "length (ps_ids ps') \<le> 2 ^ 32"
    then have d: "id_set ps = {..<length (ps_ids ps)}" "length (ps_rules ps) \<le> length (ps_ids ps)"
      using assms(2) ps' by (auto simp: parser_ok_def dense_def update_length split: if_splits)
    have i: "i = length (ps_ids ps) mod 2 ^ 32" using assms(1) by (auto simp: generate_symbol_id_def Let_def)
    show "id_set ps' = {..<length (ps_ids ps')} \<and> length (ps_rules ps') \<le> length (ps_ids ps')"
    proof (cases "?nm \<in> fst ` set (ps_ids ps)")
      case True
      then have "(?nm, i) \<in> set (ps_ids ps)" using same by force
      then have "i \<in> id_set ps" by (force simp: id_set_def)
      with True rng d ps' show ?thesis by (auto simp: update_length)
    next
      case False
      then have "length (ps_ids ps) < 2 ^ 32" using len ps' by (simp add: update_length)
      with i False rng d ps' show ?thesis by (auto simp: update_length)
    qed
  qed
  ultimately show ?thesis using rng ps' by (auto simp: parser_ok_def)
qed

lemma add_rule_ok:
  assumes "parser_ok ps" "rule_ok (id_set ps) r" "i \<in> id_set ps"
  shows "parser_ok (add_rule i r ps) \<and> id_set (add_rule i r ps) = id_set ps"
proof -
  have ids: "id_set (add_rule i r ps) = id_set ps" by (simp add: id_set_def add_rule_def)
  moreover have "rule_ok R []" for R by (simp add: rule_ok_def)
  moreover have "dense (add_rule i r ps)"
    using assms(1,3) ids by (auto simp: parser_ok_def dense_def add_rule_def)
  ultimately show ?thesis
    using assms set_update_subset_insert[of "ps_rules ps @ replicate (Suc i - length (ps_rules ps)) []" i r]
    by (fastforce simp: parser_ok_def add_rule_def)
qed

subsection \<open>Symbols\<close>

definition seq_ok :: "seq_state \<Rightarrow> bool" where
  "seq_ok st \<longleftrightarrow> sq_last st \<le> length (sq_rule st) \<and> shape 0 (take (sq_last st) (sq_rule st)) \<and> shape 0 (drop (sq_last st) (sq_rule st))
     \<and> parser_ok (sq_parser st) \<and> refs_in (id_set (sq_parser st)) (sq_rule st)"

lemma seq_ok_shape: "seq_ok st \<Longrightarrow> shape 0 (sq_rule st)"
  using shape_append[of 0 "take (sq_last st) (sq_rule st)" "drop (sq_last st) (sq_rule st)"] by (simp add: seq_ok_def)

definition extends :: "seq_state \<Rightarrow> seq_state \<Rightarrow> bool" where
  "extends st st' \<longleftrightarrow> seq_ok st' \<and> id_set (sq_parser st) \<subseteq> id_set (sq_parser st')"

text \<open>A new symbol at the end.\<close>

lemma extends_symbol:
  assumes "seq_ok st" "shape 0 es" "parser_ok ps" "id_set (sq_parser st) \<subseteq> id_set ps" "refs_in (id_set ps) es"
  shows "extends st (st\<lparr>sq_last := length (sq_rule st), sq_n_prev := k, sq_rule := sq_rule st @ es, sq_parser := ps\<rparr>)"
  using assms seq_ok_shape[OF assms(1)] refs_in_mono[OF _ assms(4)] by (simp add: extends_def seq_ok_def)

lemma parse_literal_app: "parse_literal s rule = Some (r, rule') \<Longrightarrow> \<exists>es. rule' = rule @ es \<and> shape 0 es \<and> refs_in R es"
proof (induction s rule rule: parse_literal.induct)
  case (1 s rule)
  show ?case
  proof (cases "hd0 s = c_quote")
    case True
    with 1(2) have "rule' = rule" by (auto simp: parse_literal.simps[of s])
    then show ?thesis by simp
  next
    case False
    with 1(2) obtain c r1 where c: "parse_char s = Some (c, r1)" "parse_literal r1 (rule @ [elem G_CHAR c]) = Some (r, rule')"
      by (auto simp: parse_literal.simps[of s] split: option.splits)
    from 1(1)[OF False c(1) refl c(2)] obtain es where "rule' = rule @ ([elem G_CHAR c] @ es)" "shape 0 es" "refs_in R es" by auto
    moreover from this have "shape 0 ([elem G_CHAR c] @ es)" by (intro shape_append) (simp_all add: allowed_def)
    ultimately show ?thesis by (intro exI[of _ "[elem G_CHAR c] @ es"]) simp
  qed
qed

lemma parse_class_app:
  assumes "parse_class start (length pre) s (pre @ cls) = Some (r, rule')" "start = G_CHAR \<or> start = G_CHAR_NOT"
    and "shape 0 cls" "refs_in R cls" "cls \<noteq> [] \<longrightarrow> 1 \<le> mode_after (last cls)"
  shows "\<exists>es. rule' = pre @ es \<and> shape 0 es \<and> refs_in R es"
  using assms
proof (induction "length s" arbitrary: s cls rule: less_induct)
  case less
  show ?case
  proof (cases "hd0 s = c_rbracket")
    case True
    with less.prems have "rule' = pre @ cls" by (auto simp: parse_class.simps[of start "length pre" s])
    with less.prems show ?thesis by blast
  next
    case False
    with less.prems(1) obtain c r1 where c: "parse_char s = Some (c, r1)"
      by (auto simp: parse_class.simps[of start "length pre" s] split: option.splits)
    let ?t = "if length pre < length (pre @ cls) then G_CHAR_ALT else start"
    let ?cls = "cls @ [elem ?t c]"
    have sh: "shape 0 ?cls" unfolding shape_snoc using less.prems(2-5) by (auto simp: allowed_def)
    have md: "mode_after (last ?cls) = 1" using less.prems(2) by (auto simp: mode_after_def)
    have rf: "refs_in R ?cls" using less.prems(2,4) by auto
    show ?thesis
    proof (cases "hd0 r1 = c_minus \<and> hd0 (tl r1) \<noteq> c_rbracket")
      case True
      with less.prems(1) False c obtain c2 r2 where c2: "parse_char (tl r1) = Some (c2, r2)"
        "parse_class start (length pre) r2 (pre @ (?cls @ [elem G_CHAR_RNG_UPPER c2])) = Some (r, rule')"
        by (auto simp: parse_class.simps[of start "length pre" s] Let_def split: option.splits)
      have "shape 0 (?cls @ [elem G_CHAR_RNG_UPPER c2])" unfolding shape_snoc[of 0 ?cls] using sh md by (simp add: allowed_def)
      moreover have "length r2 < length s" using parse_char_shorter[OF c] parse_char_shorter[OF c2(1)] tl_le[of r1] by linarith
      moreover have "refs_in R (?cls @ [elem G_CHAR_RNG_UPPER c2])"
        "(?cls @ [elem G_CHAR_RNG_UPPER c2]) \<noteq> [] \<longrightarrow> 1 \<le> mode_after (last (?cls @ [elem G_CHAR_RNG_UPPER c2]))"
        using rf by (simp_all add: mode_after_def)
      ultimately show ?thesis using less.hyps[OF _ c2(2) less.prems(2)] by blast
    next
      case nr: False
      with less.prems(1) False c have p: "parse_class start (length pre) r1 (pre @ ?cls) = Some (r, rule')"
        by (auto simp: parse_class.simps[of start "length pre" s] Let_def)
      have "?cls \<noteq> [] \<longrightarrow> 1 \<le> mode_after (last ?cls)" using md by simp
      from less.hyps[OF parse_char_shorter[OF c] p less.prems(2) sh rf this] show ?thesis .
    qed
  qed
qed

lemma rep_loop_ok:
  assumes "rep_loop base prev no_max k first last_id ps = (i, ps')" "parser_ok ps" "c_underscore \<notin> set base"
    and "shape 0 prev" "refs_in (id_set ps) prev" "first \<or> last_id \<in> id_set ps"
  shows "parser_ok ps' \<and> id_set ps \<subseteq> id_set ps' \<and> (k = 0 \<and> i = last_id \<or> i \<in> id_set ps')"
  using assms
proof (induction k arbitrary: first last_id ps)
  case (Suc k)
  obtain j ps1 where g: "generate_symbol_id base ps = (j, ps1)" by fastforce
  note gen = generate_symbol_id_ok[OF g Suc.prems(2,3)]
  let ?mid = "if \<not> first \<or> no_max then [elem G_RULE_REF (if no_max then j else last_id)] else []"
  let ?b = "prev @ ?mid @ [elem G_ALT 0]"
  have "shape 0 (?mid @ [elem G_ALT 0])" by (simp add: allowed_def mode_after_def)
  then have "shape 0 ?b" using Suc.prems(4) by blast
  moreover have "refs_in (id_set ps1) ?b"
    using gen Suc.prems(5,6) refs_in_mono[of "id_set ps" prev "id_set ps1"] by auto
  ultimately have "rule_ok (id_set ps1) (?b @ [elem G_END 0])" unfolding rule_ok_def by blast
  with add_rule_ok[of ps1 _ j] gen have ad:
    "parser_ok (add_rule j (?b @ [elem G_END 0]) ps1) \<and> id_set (add_rule j (?b @ [elem G_END 0]) ps1) = id_set ps1" by blast
  have "rep_loop base prev no_max k False j (add_rule j (?b @ [elem G_END 0]) ps1) = (i, ps')"
    using Suc.prems(1) g by (simp add: Let_def)
  from Suc.IH[OF this conjunct1[OF ad] Suc.prems(3,4)] ad gen refs_in_mono[OF Suc.prems(5), of "id_set ps1"]
  show ?case by auto
qed simp

lemma handle_repetitions_ok:
  assumes "handle_repetitions name mn mx st = ret st'" "seq_ok st" "c_underscore \<notin> set name"
  shows "extends st st'"
proof -
  let ?prev = "drop (sq_last st) (sq_rule st)" and ?no = "mx = u64_max"
  let ?rule1 = "if mn = 0 then take (sq_last st) (sq_rule st) else sq_rule st @ concat (replicate (mn - 1) ?prev)"
  obtain i ps where r: "rep_loop name ?prev ?no (n_opt mn mx) True 0 (sq_parser st) = (i, ps)" by fastforce
  let ?tail = "if n_opt mn mx > 0 then [elem G_RULE_REF i] else []"
  have st': "sq_rule st' = ?rule1 @ ?tail" "sq_last st' = sq_last st" "sq_parser st' = ps"
    using assms(1) r by (auto simp: handle_repetitions_def Let_def split: if_splits)
  have ok: "sq_last st \<le> length (sq_rule st)" "shape 0 (take (sq_last st) (sq_rule st))" "shape 0 ?prev"
    "parser_ok (sq_parser st)" "refs_in (id_set (sq_parser st)) (sq_rule st)" using assms(2) by (simp_all add: seq_ok_def)
  have rp: "refs_in (id_set (sq_parser st)) ?prev" by (rule refs_in_sub[OF ok(5)]) (rule set_drop_subset)
  from rep_loop_ok[OF r ok(4) assms(3) ok(3) rp] have
    l: "parser_ok ps" "id_set (sq_parser st) \<subseteq> id_set ps" "n_opt mn mx = 0 \<or> i \<in> id_set ps" by auto
  have "shape 0 (drop (sq_last st) ?rule1)"
    using ok(1,3) shape_concat_replicate[OF ok(3), of "mn - 1"] by (auto intro: shape_append)
  moreover have "shape 0 ?tail" by (simp add: allowed_def)
  ultimately have "shape 0 (drop (sq_last st) ?rule1 @ ?tail)" by (rule shape_append)
  moreover have tk: "take (sq_last st) (?rule1 @ ?tail) = take (sq_last st) (sq_rule st)"
    "drop (sq_last st) (?rule1 @ ?tail) = drop (sq_last st) ?rule1 @ ?tail" "sq_last st \<le> length (?rule1 @ ?tail)"
    using ok(1) by auto
  ultimately have sh: "shape 0 (drop (sq_last st) (?rule1 @ ?tail))" by (simp only:)
  have "set ?rule1 \<subseteq> set (sq_rule st)" by (auto dest: in_set_takeD in_set_dropD)
  then have "refs_in (id_set ps) ?rule1" using refs_in_mono[OF refs_in_sub[OF ok(5)] l(2)] by blast
  then have rf: "refs_in (id_set ps) (?rule1 @ ?tail)" using l(3) by auto
  show ?thesis
    unfolding extends_def seq_ok_def st' tk(1) using sh tk(3) ok(2) rf l(1,2) by blast
qed

lemma item_repeat_ok: "item_repeat name mn mx r st = ret (Next s1 st1) \<Longrightarrow> seq_ok st \<Longrightarrow> c_underscore \<notin> set name \<Longrightarrow> extends st st1"
  by (auto simp: item_repeat_def run_bind_ret intro: handle_repetitions_ok)

lemma seq_item_ok:
  assumes "seq_item tokenize nested name s st = ret (Next s1 st1)" "seq_ok st" "c_underscore \<notin> set name"
  shows "extends st st1"
proof -
  let ?ps = "sq_parser st" and ?n = "length (sq_rule st)"
  have ok: "parser_ok ?ps" using assms(2) by (simp add: seq_ok_def)
  have single: "extends st ((start_sym st)\<lparr>sq_rule := sq_rule st @ es\<rparr>)" if "shape 0 es" "refs_in (id_set ?ps) es" for es
    using extends_symbol[OF assms(2) that(1) ok subset_refl that(2), of 1] by (simp add: start_sym_def)
  from seq_item_cases[OF assms(1)] show ?thesis
  proof (elim disjE)
    assume "item_literal nested s st = ret (Next s1 st1)"
    then obtain r rule where "parse_literal (tl s) (sq_rule st) = Some (r, rule)" "st1 = (start_sym st)\<lparr>sq_rule := rule\<rparr>"
      by (auto simp: item_literal_def split: option.splits)
    with parse_literal_app[of "tl s" "sq_rule st" r rule "id_set ?ps"] single show ?thesis by auto
  next
    assume "item_class nested s st = ret (Next s1 st1)"
    then obtain t r0 r rule where c: "parse_class t ?n r0 (sq_rule st @ []) = Some (r, rule)"
      "st1 = (start_sym st)\<lparr>sq_rule := rule\<rparr>" "t = G_CHAR \<or> t = G_CHAR_NOT"
      by (auto simp: item_class_def Let_def split: option.splits if_splits)
    with parse_class_app[OF c(1,3), of "id_set ?ps"] single show ?thesis by auto
  next
    assume "item_token tokenize nested s st = ret (Next s1 st1)"
    then obtain v where "st1 = (start_sym st)\<lparr>sq_rule := sq_rule st @ [elem (if hd0 s = c_bang then G_TOKEN_NOT else G_TOKEN) v]\<rparr>"
      by (auto simp: item_token_def Let_def split: option.splits)
    with single[of "[elem (if hd0 s = c_bang then G_TOKEN_NOT else G_TOKEN) v]"] show ?thesis by (simp add: allowed_def)
  next
    assume "item_ref nested s st = ret (Next s1 st1)"
    then obtain nm r i ps where n: "parse_name s = Some (nm, r)" "get_symbol_id nm ?ps = (i, ps)"
      "st1 = (start_sym st)\<lparr>sq_rule := sq_rule st @ [elem G_RULE_REF i], sq_parser := ps\<rparr>"
      by (auto simp: item_ref_def split: option.splits prod.splits)
    from get_symbol_id_ok[OF n(2) ok parse_name_ok[OF n(1)]] extends_symbol[OF assms(2), of "[elem G_RULE_REF i]" ps 1] n(3)
    show ?thesis by (simp add: start_sym_def allowed_def)
  next
    assume "item_any nested s st = ret (Next s1 st1)"
    with single[of "[elem G_CHAR_ANY 0]"] show ?thesis by (auto simp: item_any_def allowed_def)
  next
    assume "item_braces nested name s st = ret (Next s1 st1)"
    then obtain mn mx r where "item_repeat name mn mx r st = ret (Next s1 st1)"
      by (auto simp: item_braces_def split: option.splits if_splits)
    with item_repeat_ok assms(2,3) show ?thesis by blast
  qed (use item_repeat_ok[OF _ assms(2,3)] in auto)
qed

end
