(* ===== verification/GramRepeat.thy ===== *)
theory GramRepeat
  imports GramParseWf
begin

section \<open>The rewriting of repetitions\<close>

text \<open>
  \<open>S{m,n}\<close> becomes \<open>m\<close> copies of \<open>S\<close> and a reference to the last of \<open>n - m\<close> new rules, each one of which is
  \<open>S\<close> followed by the one before it, or empty; without a maximum the new rule refers to itself.
\<close>

subsection \<open>Derivations of appended and repeated symbols\<close>

lemma derives_append: "derives rs (xs @ ys) w \<longleftrightarrow> (\<exists>u v. w = u @ v \<and> derives rs xs u \<and> derives rs ys v)"
proof (induction xs arbitrary: w)
  case (Cons s xs)
  have "derives rs (s # (xs @ ys)) w \<longleftrightarrow> (\<exists>u v. w = u @ v \<and> derives rs (s # xs) u \<and> derives rs ys v)"
  proof
    assume "derives rs (s # (xs @ ys)) w"
    from this[unfolded derives_Cons] show "\<exists>u v. w = u @ v \<and> derives rs (s # xs) u \<and> derives rs ys v"
    proof (elim disjE exE conjE)
      fix c w' assume "w = c # w'" "sym_ok s c" "derives rs (xs @ ys) w'"
      with Cons obtain u v where "w' = u @ v" "derives rs xs u" "derives rs ys v" by blast
      with \<open>w = c # w'\<close> \<open>sym_ok s c\<close> show ?thesis by (intro exI[of _ "c # u"] exI[of _ v]) (auto intro: derives.intros)
    next
      fix a r u' v' assume a: "s = Nonterminal r" "w = u' @ v'" "a \<in> set (alternates (rs ! r))" "derives rs a u'" "derives rs (xs @ ys) v'"
      with Cons obtain u v where "v' = u @ v" "derives rs xs u" "derives rs ys v" by blast
      with a show ?thesis by (intro exI[of _ "u' @ u"] exI[of _ v]) (auto intro: derives.intros)
    qed
  next
    assume "\<exists>u v. w = u @ v \<and> derives rs (s # xs) u \<and> derives rs ys v"
    then obtain u v where w: "w = u @ v" "derives rs ys v" "derives rs (s # xs) u" by blast
    from w(3)[unfolded derives_Cons[of rs s xs]] show "derives rs (s # (xs @ ys)) w"
    proof (elim disjE exE conjE)
      fix c w' assume "u = c # w'" "sym_ok s c" "derives rs xs w'"
      with Cons w show ?thesis by (auto intro!: derives.intros)
    next
      fix a r u' v' assume a: "s = Nonterminal r" "u = u' @ v'" "a \<in> set (alternates (rs ! r))" "derives rs a u'" "derives rs xs v'"
      with Cons w(2) have "derives rs (xs @ ys) (v' @ v)" by blast
      with a w(1) show ?thesis using derives_nt[OF a(3,4)] by fastforce
    qed
  qed
  then show ?case by simp
qed simp

definition copies :: "nat \<Rightarrow> gsym list \<Rightarrow> gsym list" where
  "copies n ss = concat (replicate n ss)"

lemma copies_simps [simp]: "copies 0 ss = []" "copies (Suc n) ss = ss @ copies n ss"
  by (simp_all add: copies_def)

lemma copies_add: "copies (m + n) ss = copies m ss @ copies n ss"
  by (simp add: copies_def replicate_add)

subsection \<open>Symbols of appended elements\<close>

definition no_alt :: "gelem list \<Rightarrow> bool" where
  "no_alt es \<longleftrightarrow> (\<forall>e \<in> set es. g_type e \<noteq> G_ALT)"

lemma shape_skip: "shape m es \<Longrightarrow> shape 0 (dropWhile is_modifier es)"
proof (induction m es rule: shape.induct)
  case (2 m e es)
  then show ?case by (cases "is_modifier e") (auto simp: is_modifier_def allowed_def)
qed simp

lemma symbols_append:
  assumes "shape 0 xs" "no_alt xs" "ys = [] \<or> \<not> is_modifier (hd ys)"
  shows "symbols (xs @ ys) = symbols xs @ symbols ys"
  using assms(1,2)
proof (induction xs rule: symbols.induct)
  case (2 e es)
  have tw: "takeWhile is_modifier (es @ ys) = takeWhile is_modifier es"
    using assms(3) by (induction es) (cases ys; auto)+
  have dw: "dropWhile is_modifier (es @ ys) = dropWhile is_modifier es @ ys"
    using assms(3) by (induction es) (cases ys; auto)+
  have al: "allowed 0 e" "g_type e \<noteq> G_ALT" "shape (mode_after e) es" "no_alt es" using 2 by (auto simp: no_alt_def)
  have na: "no_alt (dropWhile is_modifier es)" using al(4) by (auto simp: no_alt_def dest: set_dropWhileD)
  show ?case
  proof (cases "g_type e")
    case G_CHAR
    with 2(2) shape_skip[OF al(3)] na tw dw show ?thesis by simp
  next
    case G_CHAR_NOT
    with 2(3) shape_skip[OF al(3)] na tw dw show ?thesis by simp
  qed (use 2 al in \<open>auto simp: allowed_def mode_after_def\<close>)
qed simp

lemma shape_hd: "shape 0 xs \<Longrightarrow> xs = [] \<or> \<not> is_modifier (hd xs)"
  by (cases xs) (auto simp: allowed_def is_modifier_def)

lemma symbols_copies:
  assumes "shape 0 xs" "no_alt xs"
  shows "symbols (concat (replicate n xs)) = copies n (symbols xs)"
proof (induction n)
  case (Suc n)
  have "shape 0 (concat (replicate n xs))" using assms(1) by (rule shape_concat_replicate)
  from symbols_append[OF assms shape_hd[OF this]] Suc show ?case by simp
qed simp

text \<open>A rule of the form \<open>S rest |\<close>.\<close>

lemma alternates_optional:
  assumes "shape 0 xs" "no_alt xs"
  shows "set (alternates (xs @ [elem G_ALT 0, elem G_END 0])) = {symbols xs, []}"
proof -
  have st: "alt_starts_from j (xs @ [elem G_ALT 0, elem G_END 0]) = [Suc (j + length xs)]" for j
    using assms(2) shape_no_end[OF assms(1)]
    by (induction xs arbitrary: j) (auto simp: no_alt_def allowed_def)
  have "symbols (xs @ [elem G_ALT 0, elem G_END 0]) = symbols xs"
    using symbols_append[OF assms, of "[elem G_ALT 0, elem G_END 0]"] by (simp add: is_modifier_def)
  then show ?thesis by (auto simp: alternates_def alt_starts_def st)
qed

subsection \<open>The new rules\<close>

text \<open>Before a loop the identifiers are below the size of the table.\<close>

definition fresh :: "parser \<Rightarrow> bool" where
  "fresh ps \<longleftrightarrow> ids_ok (ps_ids ps) \<and> (\<forall>v \<in> id_set ps. v < length (ps_ids ps))"

lemma parser_ok_fresh: "parser_ok ps \<Longrightarrow> length (ps_ids ps) \<le> 2 ^ 32 \<Longrightarrow> fresh ps"
  by (auto simp: parser_ok_def dense_def fresh_def)

lemma update_new: "k \<notin> fst ` set ids \<Longrightarrow> AList.update k v ids = ids @ [(k, v)]"
  by (induction ids) auto

lemma generate_fresh:
  assumes "fresh ps" "length (ps_ids ps) < 2 ^ 32" "c_underscore \<notin> set base"
  shows "\<exists>nm. generate_symbol_id base ps = (length (ps_ids ps), ps\<lparr>ps_ids := ps_ids ps @ [(nm, length (ps_ids ps))]\<rparr>)
    \<and> fresh (ps\<lparr>ps_ids := ps_ids ps @ [(nm, length (ps_ids ps))]\<rparr>)"
proof -
  let ?v = "length (ps_ids ps)"
  let ?nm = "base @ [c_underscore] @ digits ?v"
  have "(?nm, w) \<notin> set (ps_ids ps)" for w
  proof
    assume w: "(?nm, w) \<in> set (ps_ids ps)"
    then have "name_ok ?nm w" using assms(1) by (auto simp: fresh_def ids_ok_def)
    then obtain b where "?nm = b @ [c_underscore] @ digits w" by (auto simp: name_ok_def)
    then have "digits ?v = digits w" using name_split_unique digits_no_underscore by metis
    then have "w = ?v" using digits_inj by metis
    moreover have "w < ?v" using w assms(1) by (force simp: fresh_def id_set_def)
    ultimately show False by simp
  qed
  then have "?nm \<notin> fst ` set (ps_ids ps)" by force
  then have "AList.update ?nm ?v (ps_ids ps) = ps_ids ps @ [(?nm, ?v)]" by (rule update_new)
  moreover have "name_ok ?nm ?v" using assms(3) by (auto simp: name_ok_def)
  ultimately show ?thesis
    using assms by (intro exI[of _ ?nm]) (auto simp: generate_symbol_id_def Let_def fresh_def ids_ok_def id_set_def)
qed

definition rep_rule :: "rule \<Rightarrow> bool \<Rightarrow> nat \<Rightarrow> nat \<Rightarrow> rule" where
  "rep_rule prev no_max v0 t =
     prev @ (if no_max then [elem G_RULE_REF (v0 + t)] else if t = 0 then [] else [elem G_RULE_REF (v0 + t - 1)])
       @ [elem G_ALT 0, elem G_END 0]"

lemma nth_add_rule:
  "ps_rules (add_rule i r ps) ! i = r"
  "j \<noteq> i \<Longrightarrow> j < length (ps_rules ps) \<Longrightarrow> ps_rules (add_rule i r ps) ! j = ps_rules ps ! j"
  "i < length (ps_rules (add_rule i r ps))" "length (ps_rules ps) \<le> length (ps_rules (add_rule i r ps))"
  by (auto simp: add_rule_def nth_append)

lemma add_rule_ids [simp]: "ps_ids (add_rule i r ps) = ps_ids ps" "fresh (add_rule i r ps) = fresh ps"
  by (simp_all add: add_rule_def fresh_def id_set_def)

text \<open>The loop from its turn \<open>t0\<close> on: \<open>v0\<close> is the size of the table at its start.\<close>

lemma rep_loop_rules:
  assumes "rep_loop base prev no_max k (t0 = 0) l ps = (i, ps')" "0 < t0 \<longrightarrow> l = v0 + t0 - 1"
    and "fresh ps" "length (ps_ids ps) = v0 + t0" "v0 + t0 + k \<le> 2 ^ 32" "c_underscore \<notin> set base"
  shows "length (ps_ids ps') = v0 + t0 + k \<and> (0 < k \<longrightarrow> i = v0 + t0 + k - 1)
    \<and> (\<forall>t. t0 \<le> t \<and> t < t0 + k \<longrightarrow> v0 + t < length (ps_rules ps') \<and> ps_rules ps' ! (v0 + t) = rep_rule prev no_max v0 t)
    \<and> (\<forall>j < v0 + t0. j < length (ps_rules ps) \<longrightarrow> j < length (ps_rules ps') \<and> ps_rules ps' ! j = ps_rules ps ! j)"
  using assms(1-5)
proof (induction k arbitrary: t0 l ps)
  case (Suc k)
  let ?v = "v0 + t0"
  obtain nm where g: "generate_symbol_id base ps = (?v, ps\<lparr>ps_ids := ps_ids ps @ [(nm, ?v)]\<rparr>)"
      "fresh (ps\<lparr>ps_ids := ps_ids ps @ [(nm, ?v)]\<rparr>)"
    using generate_fresh[OF Suc.prems(3) _ assms(6)] Suc.prems(4,5) by auto
  let ?ps1 = "ps\<lparr>ps_ids := ps_ids ps @ [(nm, ?v)]\<rparr>"
  let ?ps2 = "add_rule ?v (rep_rule prev no_max v0 t0) ?ps1"
  have st: "rep_loop base prev no_max k False ?v ?ps2 = (i, ps')"
    using Suc.prems(1,2) g(1) by (cases "t0 = 0"; cases no_max) (simp_all add: Let_def rep_rule_def)
  then have "rep_loop base prev no_max k (Suc t0 = 0) ?v ?ps2 = (i, ps')" by simp
  from Suc.IH[OF this] g(2) Suc.prems(4,5) have IH:
    "length (ps_ids ps') = v0 + Suc t0 + k" "0 < k \<longrightarrow> i = v0 + Suc t0 + k - 1"
    "\<forall>t. Suc t0 \<le> t \<and> t < Suc t0 + k \<longrightarrow> v0 + t < length (ps_rules ps') \<and> ps_rules ps' ! (v0 + t) = rep_rule prev no_max v0 t"
    "\<forall>j < v0 + Suc t0. j < length (ps_rules ?ps2) \<longrightarrow> j < length (ps_rules ps') \<and> ps_rules ps' ! j = ps_rules ?ps2 ! j"
    by simp_all
  have "i = ?v" if "k = 0" using st that by simp
  then have 1: "0 < Suc k \<longrightarrow> i = v0 + t0 + Suc k - 1" using IH(2) by (cases k) auto
  have 2: "?v < length (ps_rules ps') \<and> ps_rules ps' ! ?v = rep_rule prev no_max v0 t0"
    using IH(4) nth_add_rule(1,3)[of ?v "rep_rule prev no_max v0 t0" ?ps1] by auto
  have 3: "j < length (ps_rules ps') \<and> ps_rules ps' ! j = ps_rules ps ! j" if "j < ?v" "j < length (ps_rules ps)" for j
  proof -
    have "length (ps_rules ps) \<le> length (ps_rules ?ps2)" using nth_add_rule(4)[where ps = ?ps1] by simp
    moreover have "ps_rules ?ps2 ! j = ps_rules ps ! j" using nth_add_rule(2)[where ps = ?ps1 and j = j] that by simp
    ultimately show ?thesis using IH(4)[rule_format, of j] that by simp
  qed
  have 4: "\<forall>t. t0 \<le> t \<and> t < t0 + Suc k \<longrightarrow> v0 + t < length (ps_rules ps') \<and> ps_rules ps' ! (v0 + t) = rep_rule prev no_max v0 t"
  proof (intro allI impI)
    fix t assume "t0 \<le> t \<and> t < t0 + Suc k"
    then show "v0 + t < length (ps_rules ps') \<and> ps_rules ps' ! (v0 + t) = rep_rule prev no_max v0 t"
      using 2 IH(3)[rule_format, of t] by (cases "t = t0") auto
  qed
  from IH(1) 1 3 4 show ?case by simp
qed auto

subsection \<open>What the new rules derive\<close>

lemma derives_optional:
  assumes "rs ! r = xs @ [elem G_ALT 0, elem G_END 0]" "shape 0 xs" "no_alt xs"
  shows "derives rs [Nonterminal r] w \<longleftrightarrow> w = [] \<or> derives rs (symbols xs) w"
  unfolding derives_nonterminal assms(1) using alternates_optional[OF assms(2,3)] by auto

lemma symbols_ref: "shape 0 xs \<Longrightarrow> no_alt xs \<Longrightarrow> symbols (xs @ [elem G_RULE_REF j]) = symbols xs @ [Nonterminal j]"
  using symbols_append[of xs "[elem G_RULE_REF j]"] by (simp add: is_modifier_def)

lemma ref_ok: "shape 0 xs \<Longrightarrow> no_alt xs \<Longrightarrow> shape 0 (xs @ [elem G_RULE_REF j]) \<and> no_alt (xs @ [elem G_RULE_REF j])"
  by (auto simp: no_alt_def allowed_def)

lemma bounded_rules_derive:
  assumes "shape 0 prev" "no_alt prev" "\<forall>t' \<le> t. rs ! (v0 + t') = rep_rule prev False v0 t'"
  shows "derives rs [Nonterminal (v0 + t)] w \<longleftrightarrow> (\<exists>n \<le> Suc t. derives rs (copies n (symbols prev)) w)"
  using assms(3)
proof (induction t arbitrary: w)
  case 0
  then have "rs ! (v0 + 0) = prev @ [elem G_ALT 0, elem G_END 0]" by (simp add: rep_rule_def)
  from derives_optional[OF this assms(1,2), of w] show ?case by (auto simp: le_Suc_eq)
next
  case (Suc t)
  have IH: "derives rs [Nonterminal (v0 + t)] w \<longleftrightarrow> (\<exists>n \<le> Suc t. derives rs (copies n (symbols prev)) w)" for w
    using Suc by simp
  have "rs ! (v0 + Suc t) = (prev @ [elem G_RULE_REF (v0 + t)]) @ [elem G_ALT 0, elem G_END 0]"
    using Suc.prems[rule_format, of "Suc t"] by (simp add: rep_rule_def)
  from derives_optional[OF this, of w] ref_ok[OF assms(1,2), of "v0 + t"]
  have "derives rs [Nonterminal (v0 + Suc t)] w \<longleftrightarrow> w = [] \<or> derives rs (symbols prev @ [Nonterminal (v0 + t)]) w"
    using symbols_ref[OF assms(1,2)] by simp
  also have "derives rs (symbols prev @ [Nonterminal (v0 + t)]) w
      \<longleftrightarrow> (\<exists>n \<le> Suc t. derives rs (copies (Suc n) (symbols prev)) w)"
    unfolding derives_append[of rs "symbols prev"] copies_simps(2) using IH by blast
  also have "w = [] \<or> (\<exists>n \<le> Suc t. derives rs (copies (Suc n) (symbols prev)) w)
      \<longleftrightarrow> (\<exists>n \<le> Suc (Suc t). derives rs (copies n (symbols prev)) w)"
  proof
    assume "\<exists>n \<le> Suc (Suc t). derives rs (copies n (symbols prev)) w"
    then obtain n where "n \<le> Suc (Suc t)" "derives rs (copies n (symbols prev)) w" by blast
    then show "w = [] \<or> (\<exists>n \<le> Suc t. derives rs (copies (Suc n) (symbols prev)) w)" by (cases n) auto
  next
    assume "w = [] \<or> (\<exists>n \<le> Suc t. derives rs (copies (Suc n) (symbols prev)) w)"
    then show "\<exists>n \<le> Suc (Suc t). derives rs (copies n (symbols prev)) w"
    proof
      assume "w = []"
      then show ?thesis by (intro exI[of _ 0]) simp
    next
      assume "\<exists>n \<le> Suc t. derives rs (copies (Suc n) (symbols prev)) w"
      then obtain n where "n \<le> Suc t" "derives rs (copies (Suc n) (symbols prev)) w" by blast
      then show ?thesis by (intro exI[of _ "Suc n"]) simp
    qed
  qed
  finally show ?case .
qed

lemma derives_in_append:
  "derives_in rs n (xs @ ys) w \<Longrightarrow> \<exists>k m u v. n = k + m \<and> w = u @ v \<and> derives_in rs k xs u \<and> derives_in rs m ys v"
proof (induction xs arbitrary: n w)
  case Nil
  then show ?case by (intro exI[of _ 0] exI[of _ n] exI[of _ "[]"] exI[of _ w]) (simp add: derives_in.intros)
next
  case (Cons s xs)
  from Cons.prems have "derives_in rs n (s # (xs @ ys)) w" by simp
  from this[unfolded derives_in_Cons] show ?case
  proof (elim disjE exE conjE)
    fix c w' assume a: "w = c # w'" "sym_ok s c" "derives_in rs n (xs @ ys) w'"
    from Cons.IH[OF a(3)] obtain k m u v where "n = k + m" "w' = u @ v" "derives_in rs k xs u" "derives_in rs m ys v" by blast
    with a derives_in.intros(2)[of s c rs k xs u] show ?thesis
      by (intro exI[of _ k] exI[of _ m] exI[of _ "c # u"] exI[of _ v]) simp
  next
    fix a r m' u' n' v' assume a: "n = Suc (m' + n')" "s = Nonterminal r" "w = u' @ v'" "a \<in> set (alternates (rs ! r))"
      "derives_in rs m' a u'" "derives_in rs n' (xs @ ys) v'"
    from Cons.IH[OF a(6)] obtain k m u v where b: "n' = k + m" "v' = u @ v" "derives_in rs k xs u" "derives_in rs m ys v" by blast
    have "derives_in rs (Suc (m' + k)) (Nonterminal r # xs) (u' @ u)" by (rule derives_in.intros(3)[OF a(4,5) b(3)])
    with a b show ?thesis
      by (intro exI[of _ "Suc (m' + k)"] exI[of _ m] exI[of _ "u' @ u"] exI[of _ v]) simp
  qed
qed

lemma star_rule_derives:
  assumes "shape 0 prev" "no_alt prev" "rs ! v = rep_rule prev True v 0"
  shows "derives rs [Nonterminal v] w \<longleftrightarrow> (\<exists>n. derives rs (copies n (symbols prev)) w)"
proof
  have r: "rs ! v = (prev @ [elem G_RULE_REF v]) @ [elem G_ALT 0, elem G_END 0]" using assms(3) by (simp add: rep_rule_def)
  note ok = ref_ok[OF assms(1,2), of v]
  note alts = alternates_optional[OF conjunct1[OF ok] conjunct2[OF ok], unfolded symbols_ref[OF assms(1,2)]]
  {
    assume "derives rs [Nonterminal v] w"
    then obtain m where "derives_in rs m [Nonterminal v] w" by (auto simp: derives_in_iff)
    then show "\<exists>n. derives rs (copies n (symbols prev)) w"
    proof (induction m arbitrary: w rule: less_induct)
      case (less m)
      from derives_in_nonterminal[OF less.prems] obtain a k where
        a: "a \<in> set (alternates (rs ! v))" "m = Suc k" "derives_in rs k a w" by auto
      from a(1) alts r have "a = symbols prev @ [Nonterminal v] \<or> a = []" by auto
      then show ?case
      proof
        assume "a = symbols prev @ [Nonterminal v]"
        with a(3) derives_in_append obtain k1 k2 u1 u2 where
          s: "k = k1 + k2" "w = u1 @ u2" "derives_in rs k1 (symbols prev) u1" "derives_in rs k2 [Nonterminal v] u2" by metis
        have "k2 < m" using s(1) a(2) by simp
        from less.IH[OF this s(4)] obtain n where "derives rs (copies n (symbols prev)) u2" by blast
        moreover have "derives rs (symbols prev) u1" using s(3) by (auto simp: derives_in_iff)
        ultimately have "derives rs (copies (Suc n) (symbols prev)) w" using s(2) by (auto simp: derives_append)
        then show ?thesis by blast
      next
        assume "a = []"
        with a show ?thesis by (intro exI[of _ 0]) simp
      qed
    qed
  }
  {
    assume "\<exists>n. derives rs (copies n (symbols prev)) w"
    then obtain n where "derives rs (copies n (symbols prev)) w" by blast
    then show "derives rs [Nonterminal v] w"
    proof (induction n arbitrary: w)
      case 0
      then show ?case using derives_optional[OF r conjunct1[OF ok] conjunct2[OF ok]] by simp
    next
      case (Suc n)
      then obtain u v' where "w = u @ v'" "derives rs (symbols prev) u" "derives rs (copies n (symbols prev)) v'"
        by (auto simp: derives_append)
      with Suc.IH have "derives rs (symbols prev @ [Nonterminal v]) w" by (auto simp: derives_append)
      then show ?case
        using derives_optional[OF r conjunct1[OF ok] conjunct2[OF ok], of w] symbols_ref[OF assms(1,2)] by simp
    qed
  }
qed


subsection \<open>The whole rewriting\<close>

definition last_sym :: "seq_state \<Rightarrow> rule" where
  "last_sym st = drop (sq_last st) (sq_rule st)"

text \<open>The new rules are those of \<open>rs\<close>.\<close>

definition has_new_rules :: "rules \<Rightarrow> seq_state \<Rightarrow> seq_state \<Rightarrow> bool" where
  "has_new_rules rs st st' \<longleftrightarrow> (\<forall>j. length (ps_ids (sq_parser st)) \<le> j \<and> j < length (ps_ids (sq_parser st'))
     \<longrightarrow> rs ! j = ps_rules (sq_parser st') ! j)"

lemma n_opt_bounded: "mn \<le> mx \<Longrightarrow> mx < u64_max \<Longrightarrow> n_opt mn mx = mx - mn"
proof -
  assume a: "mn \<le> mx" "mx < u64_max"
  then have "mx + 2 ^ 64 - mn = (mx - mn) + 2 ^ 64" by simp
  then have "(mx + 2 ^ 64 - mn) mod 2 ^ 64 = mx - mn" unfolding \<open>mx + 2 ^ 64 - mn = _\<close> mod_add_self2 using a by simp
  with a show ?thesis by (simp add: n_opt_def)
qed

lemma handle_repetitions_language:
  assumes "handle_repetitions name mn mx st = ret st'" "seq_ok st" "no_alt (last_sym st)"
    and "c_underscore \<notin> set name" "mn \<le> mx" "mx \<le> u64_max" "mn < u64_max"
    and "length (ps_ids (sq_parser st)) + n_opt mn mx \<le> 2 ^ 32" "has_new_rules rs st st'"
  shows "derives rs (symbols (last_sym st')) w
    \<longleftrightarrow> (\<exists>n. mn \<le> n \<and> (mx \<noteq> u64_max \<longrightarrow> n \<le> mx) \<and> derives rs (copies n (symbols (last_sym st))) w)"
proof -
  let ?prev = "last_sym st" and ?no = "mx = u64_max" and ?v = "length (ps_ids (sq_parser st))" and ?k = "n_opt mn mx"
  let ?S = "symbols ?prev"
  have fresh: "fresh (sq_parser st)" using assms(2,8) by (intro parser_ok_fresh) (auto simp: seq_ok_def)
  obtain i ps where r: "rep_loop name ?prev ?no ?k True 0 (sq_parser st) = (i, ps)" by fastforce
  have sh: "shape 0 ?prev" using assms(2) by (simp add: seq_ok_def last_sym_def)
  have le: "sq_last st \<le> length (sq_rule st)" using assms(2) by (simp add: seq_ok_def)
  let ?tail = "if ?k > 0 then [elem G_RULE_REF i] else []"
  have st': "sq_rule st' = (if mn = 0 then take (sq_last st) (sq_rule st) else sq_rule st @ concat (replicate (mn - 1) ?prev)) @ ?tail"
    "sq_last st' = sq_last st" "sq_parser st' = ps"
    using assms(1) r by (auto simp: handle_repetitions_def last_sym_def Let_def split: if_splits)
  have rep1: "sq_rule st = take (sq_last st) (sq_rule st) @ ?prev" by (simp add: last_sym_def)
  have body: "last_sym st' = concat (replicate mn ?prev) @ ?tail"
  proof (cases "mn = 0")
    case False
    then obtain m where "mn = Suc m" by (cases mn) auto
    then show ?thesis using st' le by (simp add: last_sym_def)
  qed (use st' le in \<open>simp add: last_sym_def\<close>)
  have shc: "shape 0 (concat (replicate mn ?prev))" "no_alt (concat (replicate mn ?prev))"
    using shape_concat_replicate[OF sh] assms(3) by (auto simp: no_alt_def)
  have "\<not> is_modifier (elem G_RULE_REF i)" by (simp add: is_modifier_def)
  then have sy: "symbols (last_sym st') = copies mn ?S @ (if ?k > 0 then [Nonterminal i] else [])"
    unfolding body using symbols_append[OF shc, of ?tail] symbols_copies[OF sh assms(3)] by auto
  show ?thesis
  proof (cases "mx = u64_max")
    case True
    then have k: "?k = 1" by (simp add: n_opt_def)
    from rep_loop_rules[of name ?prev ?no ?k 0 0 "sq_parser st" i ps ?v] r fresh assms(4,8) k True have
      "length (ps_ids ps) = ?v + 1" "i = ?v" "ps_rules ps ! ?v = rep_rule ?prev True ?v 0" by auto
    then have "rs ! i = rep_rule ?prev True i 0" using assms(9) st'(3) by (simp add: has_new_rules_def)
    note star = star_rule_derives[OF sh assms(3) this]
    have "derives rs (copies mn ?S @ [Nonterminal i]) w \<longleftrightarrow> (\<exists>n. derives rs (copies mn ?S @ copies n ?S) w)"
      unfolding derives_append star by blast
    also have "\<dots> \<longleftrightarrow> (\<exists>n. mn \<le> n \<and> derives rs (copies n ?S) w)"
      unfolding copies_add[symmetric] by (metis le_add1 le_Suc_ex)
    finally show ?thesis using sy k True by simp
  next
    case False
    then have k: "?k = mx - mn" using n_opt_bounded[of mn mx] assms(5,6) by simp
    show ?thesis
    proof (cases "?k = 0")
      case True
      with k assms(5) have "mx = mn" by simp
      with sy True False show ?thesis by (auto simp: le_antisym)
    next
      case nz: False
      from rep_loop_rules[of name ?prev ?no ?k 0 0 "sq_parser st" i ps ?v] r fresh assms(4,8) nz False have
        l: "length (ps_ids ps) = ?v + ?k" "i = ?v + ?k - 1" "\<forall>t < ?k. ps_rules ps ! (?v + t) = rep_rule ?prev False ?v t" by auto
      obtain t where t: "?k = Suc t" using nz by (cases ?k) auto
      have i: "i = ?v + t" using l(2) t by simp
      have "\<forall>t' \<le> t. rs ! (?v + t') = rep_rule ?prev False ?v t'"
        using assms(9) st'(3) l(1,3) t by (simp add: has_new_rules_def)
      note opt = bounded_rules_derive[OF sh assms(3) this]
      have "derives rs (copies mn ?S @ [Nonterminal i]) w \<longleftrightarrow> (\<exists>n \<le> ?k. derives rs (copies mn ?S @ copies n ?S) w)"
        unfolding derives_append i opt t by blast
      also have "\<dots> \<longleftrightarrow> (\<exists>n. mn \<le> n \<and> n \<le> mx \<and> derives rs (copies n ?S) w)"
      proof
        assume "\<exists>n \<le> ?k. derives rs (copies mn ?S @ copies n ?S) w"
        then obtain n where "n \<le> ?k" "derives rs (copies (mn + n) ?S) w" by (auto simp: copies_add)
        then show "\<exists>n. mn \<le> n \<and> n \<le> mx \<and> derives rs (copies n ?S) w"
          using k assms(5) by (intro exI[of _ "mn + n"]) simp
      next
        assume "\<exists>n. mn \<le> n \<and> n \<le> mx \<and> derives rs (copies n ?S) w"
        then obtain n where "mn \<le> n" "n \<le> mx" "derives rs (copies n ?S) w" by blast
        then show "\<exists>n \<le> ?k. derives rs (copies mn ?S @ copies n ?S) w"
          using k by (intro exI[of _ "n - mn"]) (simp flip: copies_add)
      qed
      finally show ?thesis using sy nz False by simp
    qed
  qed
qed

end
