(* ===== verification/GramPrint.thy ===== *)
theory GramPrint
  imports GramRepeat "HOL-Library.List_Lexorder"
begin

section \<open>Printing a grammar (\<open>print_rule\<close> and \<open>llama_grammar_parser::print\<close>)\<close>

text \<open>
  The output is the list of bytes written.  \<open>None\<close> is an exception, which the caller turns into a
  message: a malformed rule, or an identifier without a name.  The table of names is the inverse of
  the table of identifiers, the entry of the last name in the order of the names winning.
\<close>

definition ascii :: "string \<Rightarrow> nat list" where
  "ascii s = map of_char s"

fun hex_digits :: "nat \<Rightarrow> nat list" where
  "hex_digits n = (let d = n mod 16; c = (if d < 10 then 48 + d else 55 + d) in if n < 16 then [c] else hex_digits (n div 16) @ [c])"

declare hex_digits.simps [simp del]

definition hex4 :: "nat \<Rightarrow> nat list" where
  "hex4 n = (let ds = hex_digits n in replicate (4 - length ds) 48 @ ds)"

definition print_grammar_char :: "nat \<Rightarrow> nat list" where
  "print_grammar_char c = (if 0x20 \<le> c \<and> c \<le> 0x7f then [c] else ascii ''<U+'' @ hex4 c @ ascii ''>'')"

definition is_char_element :: "gretype \<Rightarrow> bool" where
  "is_char_element t \<longleftrightarrow> t = G_CHAR \<or> t = G_CHAR_NOT \<or> t = G_CHAR_ALT \<or> t = G_CHAR_RNG_UPPER \<or> t = G_CHAR_ANY"

text \<open>One element; \<open>prev\<close> is the type of the element before it, if any.\<close>

definition print_elem :: "(nat \<Rightarrow> nat list option) \<Rightarrow> gretype option \<Rightarrow> gelem \<Rightarrow> nat list option" where
  "print_elem names prev e =
     (case g_type e of
        G_END \<Rightarrow> None
      | G_ALT \<Rightarrow> Some (ascii ''| '')
      | G_RULE_REF \<Rightarrow> map_option (\<lambda>nm. nm @ ascii '' '') (names (g_value e))
      | G_CHAR \<Rightarrow> Some (ascii ''['' @ print_grammar_char (g_value e))
      | G_CHAR_NOT \<Rightarrow> Some (ascii ''[^'' @ print_grammar_char (g_value e))
      | G_CHAR_RNG_UPPER \<Rightarrow> (case prev of Some t \<Rightarrow> if is_char_element t then Some (ascii ''-'' @ print_grammar_char (g_value e)) else None | None \<Rightarrow> None)
      | G_CHAR_ALT \<Rightarrow> (case prev of Some t \<Rightarrow> if is_char_element t then Some (print_grammar_char (g_value e)) else None | None \<Rightarrow> None)
      | G_CHAR_ANY \<Rightarrow> Some (ascii ''.'')
      | G_TOKEN \<Rightarrow> Some (ascii ''<['' @ digits (g_value e) @ ascii '']> '')
      | G_TOKEN_NOT \<Rightarrow> Some (ascii ''!'' @ ascii ''<['' @ digits (g_value e) @ ascii '']> ''))"

definition print_close :: "gelem \<Rightarrow> gelem \<Rightarrow> nat list" where
  "print_close e nxt = (if is_char_element (g_type e) \<and> g_type nxt \<notin> {G_CHAR_ALT, G_CHAR_RNG_UPPER, G_CHAR_ANY} then ascii ''] '' else [])"

text \<open>The loop over all elements but the last.\<close>

fun print_elems :: "(nat \<Rightarrow> nat list option) \<Rightarrow> gretype option \<Rightarrow> rule \<Rightarrow> nat list option" where
  "print_elems names prev (e # nxt # es) =
     (case print_elem names prev e of None \<Rightarrow> None
      | Some out \<Rightarrow> map_option (\<lambda>rest. out @ print_close e nxt @ rest) (print_elems names (Some (g_type e)) (nxt # es)))"
| "print_elems names prev es = Some []"

definition print_rule :: "(nat \<Rightarrow> nat list option) \<Rightarrow> nat \<Rightarrow> rule \<Rightarrow> nat list option" where
  "print_rule names i r =
     (if r = [] \<or> g_type (List.last r) \<noteq> G_END then None
      else case names i of None \<Rightarrow> None
        | Some nm \<Rightarrow> map_option (\<lambda>out. nm @ ascii '' ::= '' @ out @ [c_nl]) (print_elems names None r))"

fun print_rule_list :: "(nat \<Rightarrow> nat list option) \<Rightarrow> nat \<Rightarrow> rules \<Rightarrow> nat list option" where
  "print_rule_list names i [] = Some []"
| "print_rule_list names i (r # rs) =
     (case print_rule names i r of None \<Rightarrow> None | Some out \<Rightarrow> map_option (\<lambda>rest. out @ rest) (print_rule_list names (Suc i) rs))"

text \<open>The names by identifier: \<open>std::map\<close> visits the names in their order, so a later one overwrites.\<close>

definition symbol_id_names :: "parser \<Rightarrow> nat \<Rightarrow> nat list option" where
  "symbol_id_names ps = map_of (rev (map (\<lambda>(k, v). (v, k)) (sort_key fst (ps_ids ps))))"

definition print_grammar :: "parser \<Rightarrow> nat list option" where
  "print_grammar ps = print_rule_list (symbol_id_names ps) 0 (ps_rules ps)"

subsection \<open>No exception on a well-formed grammar\<close>

lemma names_known: "v \<in> id_set ps \<Longrightarrow> symbol_id_names ps v \<noteq> None"
proof -
  assume "v \<in> id_set ps"
  then obtain k where "(v, k) \<in> set (rev (map (\<lambda>(k, v). (v, k)) (sort_key fst (ps_ids ps))))"
    by (force simp: id_set_def)
  then show ?thesis unfolding symbol_id_names_def by (metis map_of_eq_None_iff fst_conv image_eqI)
qed

lemma mode_char: "1 \<le> mode_after e \<Longrightarrow> is_char_element (g_type e)"
  by (simp add: mode_after_def is_char_element_def split: gretype.splits)

lemma print_elem_defined:
  assumes "allowed m e" "1 \<le> m \<longrightarrow> (\<exists>t. prev = Some t \<and> is_char_element t)"
    and "g_type e = G_RULE_REF \<longrightarrow> names (g_value e) \<noteq> None"
  shows "print_elem names prev e \<noteq> None"
  using assms by (auto simp: print_elem_def allowed_def split: gretype.split)

lemma print_elems_defined:
  assumes "shape m es" "1 \<le> m \<longrightarrow> (\<exists>t. prev = Some t \<and> is_char_element t)"
    and "\<forall>e \<in> set es. g_type e = G_RULE_REF \<longrightarrow> names (g_value e) \<noteq> None"
  shows "print_elems names prev (es @ [e0]) \<noteq> None"
  using assms
proof (induction es arbitrary: m prev)
  case (Cons e es)
  obtain nxt rest where r: "es @ [e0] = nxt # rest" by (cases "es @ [e0]") auto
  have "print_elem names prev e \<noteq> None" using Cons.prems by (intro print_elem_defined[of m]) auto
  moreover have "print_elems names (Some (g_type e)) (es @ [e0]) \<noteq> None"
    using Cons.prems mode_char by (intro Cons.IH[of "mode_after e"]) auto
  ultimately show ?case unfolding r append_Cons by auto
qed simp

lemma print_rule_list_defined:
  assumes "\<forall>r \<in> set rs. r \<noteq> [] \<and> rule_ok R r" "\<forall>v \<in> R. names v \<noteq> None" "{i..<i + length rs} \<subseteq> R"
  shows "print_rule_list names i rs \<noteq> None"
  using assms
proof (induction rs arbitrary: i)
  case (Cons r rs)
  then obtain b where b: "r = b @ [elem G_END 0]" "shape 0 b" "refs_in R b" by (auto simp: rule_ok_def)
  have "i \<in> R" using Cons.prems(3) by auto
  then have nm: "names i \<noteq> None" using Cons.prems(2) by blast
  have "\<forall>e \<in> set b. g_type e = G_RULE_REF \<longrightarrow> names (g_value e) \<noteq> None"
    using b(3) Cons.prems(2) by (auto simp: refs_in_def)
  from print_elems_defined[OF b(2) _ this, of None] nm have "print_rule names i r \<noteq> None"
    by (auto simp: print_rule_def b(1))
  moreover have "print_rule_list names (Suc i) rs \<noteq> None"
    by (rule Cons.IH) (use Cons.prems in auto)
  ultimately show ?case by auto
qed simp

lemma print_defined:
  assumes "parser_ok ps" "rules_defined ps" "length (ps_ids ps) \<le> 2 ^ 32"
  shows "print_grammar ps \<noteq> None"
  unfolding print_grammar_def
proof (rule print_rule_list_defined[where R = "id_set ps"])
  show "\<forall>r \<in> set (ps_rules ps). r \<noteq> [] \<and> rule_ok (id_set ps) r"
    using assms(1,2) by (auto simp: parser_ok_def rules_defined_def list_all_iff)
  show "\<forall>v \<in> id_set ps. symbol_id_names ps v \<noteq> None" using names_known by blast
  show "{0..<0 + length (ps_rules ps)} \<subseteq> id_set ps"
    using assms(1,3) by (auto simp: parser_ok_def dense_def)
qed

end
