(* ===== verification/GramParseTotal.thy ===== *)
theory GramParseTotal
  imports GramParseOk "HOL-Library.Sublist"
begin

section \<open>How the grammar parser can end\<close>

text \<open>
  The parser ends with a table, an exception, or out of memory, and the last only at a repetition whose
  upper bound is below its lower one: every position it reaches is a suffix of the text, the count the
  assertion on the number of rules looks at stays between 1 and 32 bits, and no other failure occurs.
\<close>

definition inverted :: "nat list \<Rightarrow> bool" where
  "inverted src \<longleftrightarrow> (\<exists>t nested mn mx r. suffix t src \<and> hd0 t = c_lbrace
     \<and> parse_bounds nested (tl t) = Some (mn, mx, r) \<and> mx < mn)"

lemma inverted_suffix: "suffix s src \<Longrightarrow> inverted s \<Longrightarrow> inverted src"
  unfolding inverted_def by (meson suffix_order.trans)

definition ends_well :: "nat list \<Rightarrow> 'a run \<Rightarrow> bool" where
  "ends_well src r \<longleftrightarrow> (\<forall>e. r = Some (Inl e) \<longrightarrow> e = GThrow \<or> (e = GMemory \<and> inverted src))"

lemma ends_well_simps [simp]: "ends_well src (ret x)" "ends_well src throw" "ends_well src None"
  by (simp_all add: ends_well_def)

lemma ends_well_suffix: "suffix s src \<Longrightarrow> ends_well s r \<Longrightarrow> ends_well src r"
  using inverted_suffix by (auto simp: ends_well_def)

lemma ends_well_bind:
  "ends_well src m \<Longrightarrow> (\<And>x. m = ret x \<Longrightarrow> ends_well src (f x)) \<Longrightarrow> ends_well src (run_bind m f)"
  by (auto simp: ends_well_def run_bind_def split: option.splits sum.splits)

subsection \<open>Positions are suffixes\<close>

lemmas suf = suffix_order.trans

lemma suf_tl: "suffix s t \<Longrightarrow> suffix (tl s) t"
  by (rule suf[OF suffix_tl])

lemma suf_drop: "suffix s t \<Longrightarrow> suffix (drop n s) t"
  by (rule suf[OF suffix_drop])

lemma suf_while: "suffix s t \<Longrightarrow> suffix (dropWhile P s) t"
  by (rule suf[OF suffix_dropWhile])

lemma parse_space_suffix: "suffix (parse_space nl s) s"
proof (induction nl s rule: parse_space.induct)
  case (2 nl b s)
  have "suffix (dropWhile (\<lambda>c. c \<noteq> c_cr \<and> c \<noteq> c_nl) s) s" by (rule suffix_dropWhile)
  with 2 show ?case by (auto intro: suf suffix_ConsI)
qed simp

lemma suf_space: "suffix s t \<Longrightarrow> suffix (parse_space nl s) t"
  by (rule suf[OF parse_space_suffix])

lemma parse_hex_suffix: "parse_hex n s v = Some (c, r) \<Longrightarrow> suffix r s"
  by (induction n s v rule: parse_hex.induct) (auto split: option.splits intro: suffix_ConsI)

lemma take_cont_suffix: "take_cont bs v n = (v', n', r) \<Longrightarrow> suffix r bs"
  by (induction bs v n rule: take_cont.induct) (auto intro: suffix_ConsI)

lemma decode_one_suffix: "decode_one s = (c, r) \<Longrightarrow> suffix r s"
  by (auto simp: decode_one_def dest!: take_cont_suffix split: list.splits prod.splits intro: suffix_ConsI)

lemma parse_char_suffix:
  assumes "parse_char s = Some (c, r)"
  shows "suffix r s"
proof (cases s)
  case (Cons b t)
  have h: "suffix r' s" if "parse_hex n (tl t) 0 = Some (c, r')" for n r'
    using parse_hex_suffix[OF that] Cons suf_tl[of t s] suffix_ConsI[of t t b] suf by blast
  have "suffix (tl t) s" using Cons suf_tl[of t s] suffix_ConsI[of t t b] by blast
  with assms Cons h decode_one_suffix[of s c r] show ?thesis
    by (auto simp: parse_char_def Let_def split: if_splits)
qed (use assms in \<open>simp add: parse_char_def\<close>)

lemma parse_literal_suffix: "parse_literal s rule = Some (r, rule') \<Longrightarrow> suffix r s"
proof (induction s rule rule: parse_literal.induct)
  case (1 s rule)
  show ?case
  proof (cases "hd0 s = c_quote")
    case False
    with 1(2) obtain c r1 where c: "parse_char s = Some (c, r1)" "parse_literal r1 (rule @ [elem G_CHAR c]) = Some (r, rule')"
      by (auto simp: parse_literal.simps[of s] split: option.splits)
    from 1(1)[OF False c(1) refl c(2)] parse_char_suffix[OF c(1)] show ?thesis by (rule suf)
  qed (use 1(2) in \<open>auto simp: parse_literal.simps[of s]\<close>)
qed

lemma parse_class_suffix: "parse_class start at s rule = Some (r, rule') \<Longrightarrow> suffix r s"
proof (induction start at s rule rule: parse_class.induct)
  case (1 start at s rule)
  show ?case
  proof (cases "hd0 s = c_rbracket")
    case False
    with 1(3) obtain c r1 where c: "parse_char s = Some (c, r1)"
      by (auto simp: parse_class.simps[of start at s] split: option.splits)
    let ?rule = "rule @ [elem (if at < length rule then G_CHAR_ALT else start) c]"
    show ?thesis
    proof (cases "hd0 r1 = c_minus \<and> hd0 (tl r1) \<noteq> c_rbracket")
      case True
      with 1(3) False c obtain c2 r2 where c2: "parse_char (tl r1) = Some (c2, r2)"
        "parse_class start at r2 (?rule @ [elem G_CHAR_RNG_UPPER c2]) = Some (r, rule')"
        by (auto simp: parse_class.simps[of start at s] Let_def split: option.splits)
      have "suffix r2 r1" using parse_char_suffix[OF c2(1)] suf_tl[of r1 r1] suf by blast
      with 1(1)[OF False c refl refl True c2(1) refl c2(2)] parse_char_suffix[OF c] show ?thesis by (meson suf)
    next
      case nr: False
      with 1(3) False c have "parse_class start at r1 ?rule = Some (r, rule')"
        by (auto simp: parse_class.simps[of start at s] Let_def)
      from 1(2)[OF False c refl refl nr this] parse_char_suffix[OF c] show ?thesis by (rule suf)
    qed
  qed (use 1(3) in \<open>auto simp: parse_class.simps[of start at s]\<close>)
qed

lemma parse_int_suffix: "parse_int s = Some (ds, r) \<Longrightarrow> suffix r s"
  by (auto simp: parse_int_def Let_def suffix_dropWhile split: if_splits)

lemma parse_name_suffix: "parse_name s = Some (nm, r) \<Longrightarrow> suffix r s"
  by (auto simp: parse_name_def Let_def suffix_dropWhile split: if_splits)

lemma parse_bounds_suffix: "parse_bounds nested s = Some (mn, mx, r) \<Longrightarrow> suffix r s"
  by (auto simp: parse_bounds_def Let_def split: option.splits if_splits dest!: parse_int_suffix
      intro!: suf_space suf_tl elim!: suf)

lemma parse_token_suffix: "parse_token tokenize s = Some (t, r) \<Longrightarrow> suffix r s"
  by (auto simp: parse_token_def Let_def split: option.splits if_splits list.splits dest!: parse_int_suffix
      intro!: suf_while suf_tl elim!: suf)

lemma seq_item_suffix:
  assumes "seq_item tokenize nested name s st = ret nx" "nx = Next s1 st1 \<or> nx = Group s1"
  shows "suffix s1 s"
proof -
  from seq_item_cases[OF assms(1)] show ?thesis
  proof (elim disjE)
    assume "item_literal nested s st = ret nx"
    with assms(2) obtain r rule where "parse_literal (tl s) (sq_rule st) = Some (r, rule)" "s1 = parse_space nested r"
      by (auto simp: item_literal_def split: option.splits)
    with parse_literal_suffix[of "tl s" "sq_rule st" r rule] show ?thesis by (auto intro!: suf_space elim!: suf)
  next
    assume "item_class nested s st = ret nx"
    with assms(2) obtain t r0 r rule where "parse_class t (length (sq_rule st)) r0 (sq_rule st) = Some (r, rule)"
      "s1 = parse_space nested r" "r0 = tl s \<or> r0 = tl (tl s)"
      by (auto simp: item_class_def Let_def split: option.splits if_splits)
    with parse_class_suffix[of t "length (sq_rule st)" r0 "sq_rule st" r rule] suf_tl[of "tl s" s]
    show ?thesis by (auto intro!: suf_space elim!: suf)
  next
    assume "item_token tokenize nested s st = ret nx"
    with assms(2) obtain r0 t r where "parse_token tokenize r0 = Some (t, r)" "s1 = parse_space nested r" "r0 = tl s \<or> r0 = s"
      by (auto simp: item_token_def Let_def split: option.splits if_splits)
    with parse_token_suffix[of tokenize r0 t r] show ?thesis by (auto intro!: suf_space elim!: suf)
  next
    assume "item_ref nested s st = ret nx"
    with assms(2) obtain nm r where "parse_name s = Some (nm, r)" "s1 = parse_space nested r"
      by (auto simp: item_ref_def split: option.splits prod.splits)
    with parse_name_suffix[of s nm r] show ?thesis by (auto intro!: suf_space)
  next
    assume "item_braces nested name s st = ret nx"
    with assms(2) obtain mn mx where "parse_bounds nested (tl s) = Some (mn, mx, s1)"
      by (auto simp: item_braces_def item_repeat_def run_bind_ret split: option.splits if_splits)
    with parse_bounds_suffix[of nested "tl s" mn mx s1] show ?thesis by (auto elim!: suf)
  qed (use assms(2) in \<open>auto simp: item_any_def item_repeat_def run_bind_ret intro!: suf_space\<close>)
qed

subsection \<open>The count of rules\<close>

definition counted :: "seq_state \<Rightarrow> bool" where
  "counted st \<longleftrightarrow> 1 \<le> sq_n_prev st \<and> sq_n_prev st < 2 ^ 32"

definition bounded :: "nat \<Rightarrow> nat \<Rightarrow> bool" where
  "bounded mn mx \<longleftrightarrow> mn \<le> max_repetition \<and> (mx = u64_max \<or> mx \<le> max_repetition)"

lemma handle_repetitions_ends:
  assumes "counted st" "bounded mn mx"
  shows "handle_repetitions name mn mx st = Some (Inl e) \<Longrightarrow> e = GThrow \<or> (e = GMemory \<and> mx < mn)"
    and "handle_repetitions name mn mx st = ret st' \<Longrightarrow> counted st'"
proof -
  define n where "n = (if mx \<noteq> u64_max \<and> mx > 0 then mx else if mn > 0 then mn else 1)"
  have n: "1 \<le> n" "n \<le> 2000" using assms(2) by (auto simp: n_def bounded_def max_repetition_def)
  have p1: "1 * 1 \<le> sq_n_prev st * n" by (rule mult_le_mono) (use assms(1) n in \<open>simp_all add: counted_def\<close>)
  have "sq_n_prev st * n \<le> 2 ^ 32 * 2000" by (rule mult_le_mono) (use assms(1) n in \<open>simp_all add: counted_def\<close>)
  then have p: "sq_n_prev st * n mod 2 ^ 64 = sq_n_prev st * n" by (intro mod_less) simp
  obtain i ps where r: "rep_loop name (drop (sq_last st) (sq_rule st)) (mx = u64_max) (n_opt mn mx) True 0 (sq_parser st) = (i, ps)"
    by fastforce
  have eq: "handle_repetitions name mn mx st =
     (if sq_last st = length (sq_rule st) \<or> max_repetition \<le> sq_n_prev st * n then throw
      else if mx \<noteq> u64_max \<and> mx < mn then Some (Inl GMemory)
      else ret (st\<lparr>sq_rule := (if mn = 0 then take (sq_last st) (sq_rule st)
            else sq_rule st @ concat (replicate (mn - 1) (drop (sq_last st) (sq_rule st))))
          @ (if n_opt mn mx > 0 then [elem G_RULE_REF i] else []),
         sq_n_prev := sq_n_prev st * n, sq_parser := ps\<rparr>))"
    unfolding handle_repetitions_def Let_def r prod.case n_def[symmetric] p using p1 by auto
  show "handle_repetitions name mn mx st = Some (Inl e) \<Longrightarrow> e = GThrow \<or> (e = GMemory \<and> mx < mn)"
    unfolding eq by (auto split: if_splits)
  show "handle_repetitions name mn mx st = ret st' \<Longrightarrow> counted st'"
    unfolding eq using p1 by (auto simp: counted_def max_repetition_def split: if_splits)
qed

lemma counted_start [simp]: "counted (\<lparr>sq_rule = r, sq_last = l, sq_n_prev = 1, sq_parser = ps\<rparr>)"
  "counted ((start_sym st)\<lparr>sq_rule := r\<rparr>)" "counted ((start_sym st)\<lparr>sq_rule := r, sq_parser := ps\<rparr>)"
  "counted (seq_after_group i ps st)"
  by (simp_all add: counted_def start_sym_def seq_after_group_def)

lemma item_repeat_ends:
  assumes "counted st" "bounded mn mx" "mx < mn \<longrightarrow> inverted s"
  shows "ends_well s (item_repeat name mn mx r st)"
  unfolding item_repeat_def
  by (rule ends_well_bind) (use handle_repetitions_ends(1)[OF assms(1,2), of name] assms(3) in \<open>auto simp: ends_well_def\<close>)

lemma item_repeat_counted:
  "item_repeat name mn mx r st = ret (Next s1 st1) \<Longrightarrow> counted st \<Longrightarrow> bounded mn mx \<Longrightarrow> counted st1"
  using handle_repetitions_ends(2) by (auto simp: item_repeat_def run_bind_ret)

lemma item_braces_ends:
  assumes "counted st" "hd0 s = c_lbrace"
  shows "ends_well s (item_braces nested name s st)"
    and "item_braces nested name s st = ret (Next s1 st1) \<Longrightarrow> counted st1"
proof -
  have b: "bounded mn mx \<and> (mx < mn \<longrightarrow> inverted s)"
    if "parse_bounds nested (tl s) = Some (mn, mx, r)" "\<not> (max_repetition < mn \<or> (mx \<noteq> u64_max \<and> max_repetition < mx))"
    for mn mx r
  proof -
    have "suffix s s" by simp
    with that assms(2) show ?thesis unfolding inverted_def bounded_def by (meson leI)
  qed
  show "ends_well s (item_braces nested name s st)"
    using b item_repeat_ends[OF assms(1)] by (auto simp: item_braces_def split: option.splits)
  show "item_braces nested name s st = ret (Next s1 st1) \<Longrightarrow> counted st1"
    using b item_repeat_counted[OF _ assms(1)] by (fastforce simp: item_braces_def split: option.splits if_splits)
qed

lemma bounded_small: "bounded 0 u64_max" "bounded 1 u64_max" "bounded 0 1"
  by (simp_all add: bounded_def max_repetition_def)

lemma seq_item_ends:
  assumes "counted st"
  shows "ends_well s (seq_item tokenize nested name s st)"
proof -
  have "ends_well s (item_literal nested s st)" "ends_well s (item_class nested s st)"
    "ends_well s (item_token tokenize nested s st)" "ends_well s (item_ref nested s st)" "ends_well s (item_any nested s st)"
    by (auto simp: item_literal_def item_class_def item_token_def item_ref_def item_any_def Let_def split: option.splits prod.splits)
  moreover have "ends_well s (item_repeat name 0 u64_max r st)" "ends_well s (item_repeat name 1 u64_max r st)"
    "ends_well s (item_repeat name 0 1 r st)" for r
    using item_repeat_ends[OF assms bounded_small(1)] item_repeat_ends[OF assms bounded_small(2)]
      item_repeat_ends[OF assms bounded_small(3)] by simp_all
  moreover have "hd0 s = c_lbrace \<Longrightarrow> ends_well s (item_braces nested name s st)"
    by (rule item_braces_ends(1)[OF assms])
  ultimately show ?thesis unfolding seq_item_def Let_def by simp
qed

lemma seq_item_counted:
  assumes "seq_item tokenize nested name s st = ret (Next s1 st1)" "counted st"
  shows "counted st1"
proof (cases "hd0 s = c_lbrace \<and> seq_item tokenize nested name s st = item_braces nested name s st")
  case True
  with item_braces_ends(2)[OF assms(2)] assms(1) show ?thesis by metis
next
  case False
  have br: "\<not> (hd0 s = c_lbrace \<and> item_braces nested name s st = ret (Next s1 st1))"
    using False assms(1) by metis
  have lit: "counted st1" if "item_literal nested s st = ret (Next s1 st1) \<or> item_class nested s st = ret (Next s1 st1)
     \<or> item_token tokenize nested s st = ret (Next s1 st1) \<or> item_ref nested s st = ret (Next s1 st1)
     \<or> item_any nested s st = ret (Next s1 st1)"
    using that by (auto simp: item_literal_def item_class_def item_token_def item_ref_def item_any_def Let_def
        split: option.splits prod.splits)
  have if_ret: "(if b then x else y) = z \<longleftrightarrow> (b \<and> x = z) \<or> (\<not> b \<and> y = z)" for b and x y z :: "seq_next run" by simp
  from assms(1) br lit show ?thesis
    unfolding seq_item_def Let_def if_ret
    using item_repeat_counted[OF _ assms(2) bounded_small(1)] item_repeat_counted[OF _ assms(2) bounded_small(2)]
      item_repeat_counted[OF _ assms(2) bounded_small(3)] by blast
qed

subsection \<open>The parser\<close>

lemma parse_suffixes:
  "(\<forall>nested name i s ps s' ps'. parse_alternates n tokenize nested name i s ps = ret (s', ps') \<longrightarrow> suffix s' s)
    \<and> (\<forall>nested name s rule ps s' r. alt_loop n tokenize nested name s rule ps = ret (s', r) \<longrightarrow> suffix s' s)
    \<and> (\<forall>nested name s st s' st'. parse_sequence n tokenize nested name s st = ret (s', st') \<longrightarrow> suffix s' s)"
proof (induction n)
  case (Suc n)
  note A = Suc.IH[THEN conjunct1, rule_format]
  note L = Suc.IH[THEN conjunct2, THEN conjunct1, rule_format]
  note S = Suc.IH[THEN conjunct2, THEN conjunct2, rule_format]
  have A': "suffix s' s" if a: "parse_alternates (Suc n) tokenize nested name i s ps = ret (s', ps')" for nested name i s ps s' ps'
  proof -
    from a obtain s1 st r where "parse_sequence n tokenize nested name s \<lparr>sq_rule = [], sq_last = 0, sq_n_prev = 1, sq_parser = ps\<rparr> = ret (s1, st)"
      "alt_loop n tokenize nested name s1 (sq_rule st) (sq_parser st) = ret (s', r)"
      by (auto simp: run_bind_ret)
    from L[OF this(2)] S[OF this(1)] show ?thesis by (rule suf)
  qed
  have L': "suffix s' s" if a: "alt_loop (Suc n) tokenize nested name s rule ps = ret (s', r)" for nested name s rule ps s' r
  proof (cases "hd0 s = c_bar")
    case True
    with a obtain s1 st where "parse_sequence n tokenize nested name (parse_space True (tl s))
        \<lparr>sq_rule = rule @ [elem G_ALT 0], sq_last = length (rule @ [elem G_ALT 0]), sq_n_prev = 1, sq_parser = ps\<rparr> = ret (s1, st)"
      "alt_loop n tokenize nested name s1 (sq_rule st) (sq_parser st) = ret (s', r)"
      by (auto simp: run_bind_ret Let_def)
    from suf[OF L[OF this(2)] S[OF this(1)]] suf_space[OF suffix_tl[of s], of True] show ?thesis by (rule suf)
  qed (use a in simp)
  have S': "suffix s' s" if a: "parse_sequence (Suc n) tokenize nested name s st = ret (s', st')" for nested name s st s' st'
  proof -
    from a obtain nx where nx: "seq_item tokenize nested name s st = ret nx" by (auto simp: run_bind_ret)
    show ?thesis
    proof (cases nx)
      case (Next s1 st1)
      with a nx have "parse_sequence n tokenize nested name s1 st1 = ret (s', st')" by (simp add: run_bind_def)
      from S[OF this] seq_item_suffix[OF nx, of s1 st1] Next show ?thesis by (auto intro: suf)
    next
      case (Group s1)
      obtain i st1 where g: "seq_group name st = (i, st1)" by fastforce
      from a nx Group g obtain s2 ps2 where p:
        "parse_alternates n tokenize True name i s1 (sq_parser st1) = ret (s2, ps2)"
        "parse_sequence n tokenize nested name (parse_space nested (tl s2)) (seq_after_group i ps2 st) = ret (s', st')"
        by (auto simp: run_bind_ret split: if_splits)
      have "suffix s1 s" using seq_item_suffix[OF nx, of s1] Group by blast
      with A[OF p(1)] have "suffix s2 s" by (rule suf)
      then have "suffix (parse_space nested (tl s2)) s" by (intro suf_space suf_tl)
      with S[OF p(2)] show ?thesis by (rule suf)
    qed (use a nx in \<open>simp add: run_bind_def\<close>)
  qed
  from A' L' S' show ?case by blast
qed simp

lemma parse_functions_end:
  "(\<forall>nested name i s ps. ends_well s (parse_alternates n tokenize nested name i s ps))
    \<and> (\<forall>nested name s rule ps. ends_well s (alt_loop n tokenize nested name s rule ps))
    \<and> (\<forall>nested name s st. counted st \<longrightarrow> ends_well s (parse_sequence n tokenize nested name s st))"
proof (induction n)
  case (Suc n)
  note A = Suc.IH[THEN conjunct1, rule_format]
  note L = Suc.IH[THEN conjunct2, THEN conjunct1, rule_format]
  note S = Suc.IH[THEN conjunct2, THEN conjunct2, rule_format]
  note SX = parse_suffixes[of n tokenize, THEN conjunct2, THEN conjunct2, rule_format]
  note AX = parse_suffixes[of n tokenize, THEN conjunct1, rule_format]
  have A': "ends_well s (parse_alternates (Suc n) tokenize nested name i s ps)" for nested name i s ps
    unfolding parse_alternates.simps
  proof (rule ends_well_bind[OF S[OF counted_start(1)]], clarsimp)
    fix s1 st
    assume "parse_sequence n tokenize nested name s \<lparr>sq_rule = [], sq_last = 0, sq_n_prev = Suc 0, sq_parser = ps\<rparr> = ret (s1, st)"
    then have "suffix s1 s" using SX[of nested name s] by simp
    from ends_well_suffix[OF this L] show "ends_well s (run_bind (alt_loop n tokenize nested name s1 (sq_rule st) (sq_parser st))
        (\<lambda>(s2, rule, ps2). ret (s2, add_rule i (rule @ [elem G_END 0]) ps2)))"
      by (rule ends_well_bind) auto
  qed
  have L': "ends_well s (alt_loop (Suc n) tokenize nested name s rule ps)" for nested name s rule ps
  proof -
    let ?s = "parse_space True (tl s)"
    have sx: "suffix ?s s" by (rule suf_space[OF suffix_tl])
    have "ends_well s (run_bind (parse_sequence n tokenize nested name ?s
          \<lparr>sq_rule = r, sq_last = length r, sq_n_prev = 1, sq_parser = ps\<rparr>) (\<lambda>(s1, st).
        alt_loop n tokenize nested name s1 (sq_rule st) (sq_parser st)))" for r
    proof (rule ends_well_bind[OF ends_well_suffix[OF sx S[OF counted_start(1)]]], clarify)
      fix s1 st
      assume "parse_sequence n tokenize nested name ?s \<lparr>sq_rule = r, sq_last = length r, sq_n_prev = 1, sq_parser = ps\<rparr> = ret (s1, st)"
      from ends_well_suffix[OF suf[OF SX[OF this] sx] L]
      show "ends_well s (alt_loop n tokenize nested name s1 (sq_rule st) (sq_parser st))" .
    qed
    from this[of "rule @ [elem G_ALT 0]"] show ?thesis by (simp add: Let_def)
  qed
  have S': "ends_well s (parse_sequence (Suc n) tokenize nested name s st)" if c: "counted st" for nested name s st
    unfolding parse_sequence.simps
  proof (rule ends_well_bind[OF seq_item_ends[OF c]])
    fix nx assume nx: "seq_item tokenize nested name s st = ret nx"
    show "ends_well s (case nx of Stop \<Rightarrow> ret (s, st) | Group s1 \<Rightarrow>
           (case seq_group name st of (i, st1) \<Rightarrow>
             run_bind (parse_alternates n tokenize True name i s1 (sq_parser st1)) (\<lambda>(s2, ps2).
               if hd0 s2 \<noteq> c_close then throw
               else parse_sequence n tokenize nested name (parse_space nested (tl s2)) (seq_after_group i ps2 st)))
        | Next s1 st1 \<Rightarrow> parse_sequence n tokenize nested name s1 st1)"
    proof (cases nx)
      case (Next s1 st1)
      have "suffix s1 s" using seq_item_suffix[OF nx, of s1 st1] Next by blast
      from ends_well_suffix[OF this S[OF seq_item_counted[OF nx[unfolded Next] c]]] Next show ?thesis by simp
    next
      case (Group s1)
      obtain i st1 where g: "seq_group name st = (i, st1)" by fastforce
      have sx: "suffix s1 s" using seq_item_suffix[OF nx, of s1] Group by blast
      have "ends_well s (run_bind (parse_alternates n tokenize True name i s1 (sq_parser st1)) (\<lambda>(s2, ps2).
               if hd0 s2 \<noteq> c_close then throw
               else parse_sequence n tokenize nested name (parse_space nested (tl s2)) (seq_after_group i ps2 st)))"
      proof (rule ends_well_bind[OF ends_well_suffix[OF sx A]], clarify)
        fix s2 ps2
        assume "parse_alternates n tokenize True name i s1 (sq_parser st1) = ret (s2, ps2)"
        from suf[OF AX[OF this] sx] have "suffix (parse_space nested (tl s2)) s" by (intro suf_space suf_tl)
        from ends_well_suffix[OF this S[OF counted_start(4)]]
        show "ends_well s (if hd0 s2 \<noteq> c_close then throw
               else parse_sequence n tokenize nested name (parse_space nested (tl s2)) (seq_after_group i ps2 st))" by simp
      qed
      with Group g show ?thesis by simp
    qed simp
  qed
  from A' L' S' show ?case by blast
qed simp

lemma parse_rule_ends: "ends_well s (parse_rule tokenize s ps)"
proof (cases "parse_name s")
  case (Some x)
  obtain name r where x: "parse_name s = Some (name, r)" using Some by (cases x) simp
  obtain i ps1 where g: "get_symbol_id name ps = (i, ps1)" by fastforce
  let ?r1 = "parse_space False r"
  let ?r2 = "parse_space True (drop 3 ?r1)"
  have "suffix ?r2 s" by (intro suf_space suf_drop parse_name_suffix[OF x])
  from ends_well_suffix[OF this parse_functions_end[THEN conjunct1, rule_format]]
  have "ends_well s (run_bind (parse_alternates (alternates_fuel ?r2) tokenize False name i ?r2 ps1) (\<lambda>(r3, ps2).
      case line_end r3 of None \<Rightarrow> throw | Some r4 \<Rightarrow> ret (parse_space True r4, ps2)))"
    by (rule ends_well_bind) (auto split: option.splits)
  with x g show ?thesis by (simp add: parse_rule_def Let_def)
qed (simp add: parse_rule_def)

lemma parse_rule_suffix: "parse_rule tokenize s ps = ret (s', ps') \<Longrightarrow> suffix s' s"
proof -
  assume a: "parse_rule tokenize s ps = ret (s', ps')"
  then obtain name r where n: "parse_name s = Some (name, r)" by (auto simp: parse_rule_def split: option.splits)
  obtain i ps1 where g: "get_symbol_id name ps = (i, ps1)" by fastforce
  let ?r2 = "parse_space True (drop 3 (parse_space False r))"
  from a n g obtain r3 ps2 r4 where r: "parse_alternates (alternates_fuel ?r2) tokenize False name i ?r2 ps1 = ret (r3, ps2)"
    "line_end r3 = Some r4" "s' = parse_space True r4"
    by (auto simp: parse_rule_def Let_def run_bind_ret split: if_splits option.splits)
  have "suffix ?r2 s" by (intro suf_space suf_drop parse_name_suffix[OF n])
  with parse_suffixes[THEN conjunct1, rule_format, OF r(1)] have "suffix r3 s" by (rule suf)
  moreover have "r4 = r3 \<or> r4 = tl r3 \<or> r4 = tl (tl r3)" using r(2) by (auto simp: line_end_def split: if_splits)
  ultimately show ?thesis using r(3) by (auto intro!: suf_space suf_tl)
qed

lemma parse_rules_ends: "ends_well s (parse_rules n tokenize s ps)"
proof (induction n arbitrary: s ps)
  case (Suc n)
  have "ends_well s (run_bind (parse_rule tokenize s ps) (\<lambda>(s1, ps1). parse_rules n tokenize s1 ps1))"
  proof (rule ends_well_bind[OF parse_rule_ends], clarify)
    fix s1 ps1 assume "parse_rule tokenize s ps = ret (s1, ps1)"
    from ends_well_suffix[OF parse_rule_suffix[OF this] Suc.IH] show "ends_well s (parse_rules n tokenize s1 ps1)" .
  qed
  then show ?case by simp
qed simp

lemma parse_ends: "ends_well (takeWhile (\<lambda>b. b \<noteq> 0) src) (parse tokenize src)"
proof -
  have "ends_well (takeWhile (\<lambda>b. b \<noteq> 0) src) (parse_rules n tokenize (parse_space True (takeWhile (\<lambda>b. b \<noteq> 0) src)) ps)" for n ps
    by (rule ends_well_suffix[OF parse_space_suffix parse_rules_ends])
  then show ?thesis unfolding parse_def Let_def by (rule ends_well_bind) simp
qed

end
