(* ===== verification/GramParseMain.thy ===== *)
theory GramParseMain
  imports GramPrint GramParseTotal
begin

section \<open>The grammar parser: the main results\<close>

text \<open>
  The parser always ends, with a table, an exception or, on inverted bounds, out of memory; what it accepts is well formed, so the engine runs on it; the rewriting
  of a repetition derives as many copies as it says; printing a parsed grammar never throws.
\<close>

subsection \<open>Well-formedness\<close>

lemma initial_fold_nonempty:
  assumes "good_rules rs" "\<forall>i \<in> set is. wf_ptr rs (root, i)"
    and "run_fold (\<lambda>i out. advance_stack rs (push_if rs (root, i) []) out) is out = ret out'"
  shows "set out \<subseteq> set out' \<and> (is \<noteq> [] \<longrightarrow> out' \<noteq> [])"
  using assms(2,3)
proof (induction "is" arbitrary: out)
  case (Cons i "is")
  let ?st = "push_if rs (root, i) []"
  have wf: "wf_stack rs ?st" using Cons.prems(1) by (intro wf_push_if) (simp_all add: wf_stack_def)
  from Cons.prems(2) obtain o1 where o1: "advance_stack rs ?st out = ret o1"
    "run_fold (\<lambda>i out. advance_stack rs (push_if rs (root, i) []) out) is o1 = ret out'" by (auto simp: run_bind_ret)
  from advance_good[OF assms(1) wf, of out] o1(1) have s: "set o1 = set out \<union> {f. reaches rs ?st f \<and> final rs f}" by simp
  have "wf_rules rs" using assms(1) by (simp add: good_rules_def)
  from reaches_some_final[OF good_halts[OF assms(1) wf] this wf] s obtain f where "f \<in> set o1" by blast
  with Cons.IH[OF _ o1(2)] Cons.prems(1) s show ?case by (cases out') auto
qed simp

lemma initial_nonempty:
  assumes "good_rules rs" "root < length rs" "initial_stacks rs root = ret stacks"
  shows "stacks \<noteq> []"
proof -
  have "wf_rules rs" using assms(1) by (simp add: good_rules_def)
  then have "\<forall>i \<in> set (alt_starts (rs ! root)). wf_ptr rs (root, i)" using wf_alt_starts assms(2) by blast
  from initial_fold_nonempty[OF assms(1) this assms(3)[unfolded initial_stacks_def]] show ?thesis
    by (simp add: alt_starts_def)
qed

lemma parser_ok_extends: "extends st st' \<Longrightarrow> parser_ok (sq_parser st')"
  by (simp add: extends_def seq_ok_def)

lemma extends_trans: "extends a b \<Longrightarrow> extends b c \<Longrightarrow> extends a c"
  by (auto simp: extends_def)

lemma seq_ok_start:
  assumes "shape 0 r" "parser_ok ps" "refs_in (id_set ps) r"
  shows "seq_ok \<lparr>sq_rule = r, sq_last = length r, sq_n_prev = 1, sq_parser = ps\<rparr>"
  using assms by (simp add: seq_ok_def)

lemma parse_functions_ok:
  "(\<forall>nested name i s ps s' ps'. parse_alternates n tokenize nested name i s ps = ret (s', ps') \<longrightarrow> parser_ok ps
      \<longrightarrow> c_underscore \<notin> set name \<longrightarrow> i \<in> id_set ps \<longrightarrow> parser_ok ps' \<and> id_set ps \<subseteq> id_set ps')
    \<and> (\<forall>nested name s rule ps s' rule' ps'. alt_loop n tokenize nested name s rule ps = ret (s', rule', ps') \<longrightarrow> parser_ok ps
      \<longrightarrow> c_underscore \<notin> set name \<longrightarrow> shape 0 rule \<longrightarrow> refs_in (id_set ps) rule
      \<longrightarrow> parser_ok ps' \<and> id_set ps \<subseteq> id_set ps' \<and> shape 0 rule' \<and> refs_in (id_set ps') rule')
    \<and> (\<forall>nested name s st s' st'. parse_sequence n tokenize nested name s st = ret (s', st') \<longrightarrow> seq_ok st
      \<longrightarrow> c_underscore \<notin> set name \<longrightarrow> extends st st')"
proof (induction n)
  case (Suc n)
  note A = Suc.IH[THEN conjunct1, rule_format]
  note L = Suc.IH[THEN conjunct2, THEN conjunct1, rule_format]
  note S = Suc.IH[THEN conjunct2, THEN conjunct2, rule_format]
  have A': "parser_ok ps' \<and> id_set ps \<subseteq> id_set ps'"
    if a: "parse_alternates (Suc n) tokenize nested name i s ps = ret (s', ps')" and ok: "parser_ok ps" "c_underscore \<notin> set name" "i \<in> id_set ps"
    for nested name i s ps s' ps'
  proof -
    let ?st = "\<lparr>sq_rule = [], sq_last = 0, sq_n_prev = 1, sq_parser = ps\<rparr>"
    from a obtain s1 st rule ps2 where p: "parse_sequence n tokenize nested name s ?st = ret (s1, st)"
      "alt_loop n tokenize nested name s1 (sq_rule st) (sq_parser st) = ret (s', rule, ps2)"
      "ps' = add_rule i (rule @ [elem G_END 0]) ps2"
      by (auto simp: run_bind_ret)
    have e: "extends ?st st" by (rule S[OF p(1) _ ok(2)]) (use ok(1) in \<open>simp add: seq_ok_def\<close>)
    then have st: "seq_ok st" by (simp add: extends_def)
    from L[OF p(2) parser_ok_extends[OF e] ok(2) seq_ok_shape[OF st]] st have
      l: "parser_ok ps2" "id_set (sq_parser st) \<subseteq> id_set ps2" "shape 0 rule" "refs_in (id_set ps2) rule"
      by (simp_all add: seq_ok_def)
    have "rule_ok (id_set ps2) (rule @ [elem G_END 0])" using l(3,4) unfolding rule_ok_def by blast
    moreover have "i \<in> id_set ps2" using e l(2) ok(3) by (auto simp: extends_def)
    ultimately show ?thesis using add_rule_ok[OF l(1), of _ i] l(2) e p(3) by (auto simp: extends_def)
  qed
  have L': "parser_ok ps' \<and> id_set ps \<subseteq> id_set ps' \<and> shape 0 rule' \<and> refs_in (id_set ps') rule'"
    if a: "alt_loop (Suc n) tokenize nested name s rule ps = ret (s', rule', ps')" and ok: "parser_ok ps" "c_underscore \<notin> set name"
      "shape 0 rule" "refs_in (id_set ps) rule"
    for nested name s rule ps s' rule' ps'
  proof (cases "hd0 s = c_bar")
    case True
    let ?rule = "rule @ [elem G_ALT 0]"
    let ?st = "\<lparr>sq_rule = ?rule, sq_last = length ?rule, sq_n_prev = 1, sq_parser = ps\<rparr>"
    from a True obtain s1 st where p: "parse_sequence n tokenize nested name (parse_space True (tl s)) ?st = ret (s1, st)"
      "alt_loop n tokenize nested name s1 (sq_rule st) (sq_parser st) = ret (s', rule', ps')"
      by (auto simp: run_bind_ret Let_def)
    have "shape 0 [elem G_ALT 0]" by (simp add: allowed_def)
    then have "seq_ok ?st" using ok by (intro seq_ok_start) auto
    from S[OF p(1) this ok(2)] have e: "extends ?st st" .
    then have st: "seq_ok st" by (simp add: extends_def)
    from L[OF p(2) parser_ok_extends[OF e] ok(2) seq_ok_shape[OF st]] st e show ?thesis by (auto simp: extends_def seq_ok_def)
  qed (use a ok in simp)
  have S': "extends st st'"
    if a: "parse_sequence (Suc n) tokenize nested name s st = ret (s', st')" and ok: "seq_ok st" "c_underscore \<notin> set name"
    for nested name s st s' st'
  proof -
    from a obtain nx where nx: "seq_item tokenize nested name s st = ret nx" by (auto simp: run_bind_ret)
    show ?thesis
    proof (cases nx)
      case Stop
      with a nx ok show ?thesis by (simp add: run_bind_def extends_def)
    next
      case (Next s1 st1)
      then have e: "extends st st1" using seq_item_ok nx ok by blast
      moreover from a nx Next have "parse_sequence n tokenize nested name s1 st1 = ret (s', st')" by (simp add: run_bind_def)
      ultimately show ?thesis using S ok(2) extends_trans by (meson extends_def)
    next
      case (Group s1)
      obtain i ps1 where g: "generate_symbol_id name (sq_parser st) = (i, ps1)" by fastforce
      from a nx Group g obtain s2 ps2 where p: "parse_alternates n tokenize True name i s1 ps1 = ret (s2, ps2)"
        "parse_sequence n tokenize nested name (parse_space nested (tl s2)) (seq_after_group i ps2 st) = ret (s', st')"
        by (auto simp: run_bind_ret seq_group_def split: if_splits)
      have "parser_ok (sq_parser st)" using ok(1) by (simp add: seq_ok_def)
      from generate_symbol_id_ok[OF g this ok(2)] A[OF p(1) _ ok(2)] have
        "parser_ok ps2" "id_set (sq_parser st) \<subseteq> id_set ps2" "i \<in> id_set ps2" by auto
      then have "extends st (seq_after_group i ps2 st)"
        unfolding seq_after_group_def
        using extends_symbol[OF ok(1), of "[elem G_RULE_REF i]" ps2] by (simp add: allowed_def)
      with S[OF p(2) _ ok(2)] extends_trans show ?thesis by (meson extends_def)
    qed
  qed
  show ?case
    by (rule conjI[OF _ conjI]; intro allI impI; ((rule A'; assumption) | (rule L'; assumption) | (rule S'; assumption)))
qed simp

lemma parse_rule_ok:
  assumes "parse_rule tokenize s ps = ret (s', ps')" "parser_ok ps"
  shows "parser_ok ps'"
proof -
  from assms(1) obtain name r where n: "parse_name s = Some (name, r)" by (auto simp: parse_rule_def split: option.splits)
  obtain i ps1 where g: "get_symbol_id name ps = (i, ps1)" by fastforce
  let ?r2 = "parse_space True (drop 3 (parse_space False r))"
  from assms(1) n g obtain r3 where p: "parse_alternates (alternates_fuel ?r2) tokenize False name i ?r2 ps1 = ret (r3, ps')"
    by (auto simp: parse_rule_def Let_def run_bind_ret split: if_splits option.splits)
  have "parser_ok ps1" "i \<in> id_set ps1" using get_symbol_id_ok[OF g assms(2) parse_name_ok[OF n]] by blast+
  from parse_functions_ok[THEN conjunct1, rule_format, OF p this(1) parse_name_ok[OF n] this(2)] show ?thesis by blast
qed

lemma parse_rules_ok: "parse_rules n tokenize s ps = ret ps' \<Longrightarrow> parser_ok ps \<Longrightarrow> parser_ok ps'"
proof (induction n arbitrary: s ps)
  case (Suc n)
  show ?case
  proof (cases "s = []")
    case False
    with Suc.prems(1) obtain s1 ps1 where "parse_rule tokenize s ps = ret (s1, ps1)" "parse_rules n tokenize s1 ps1 = ret ps'"
      by (auto simp: run_bind_ret)
    with Suc.IH parse_rule_ok Suc.prems(2) show ?thesis by blast
  qed (use Suc.prems in simp)
qed simp

lemma defined_rules_wf:
  assumes "parser_ok ps" "rules_defined ps"
  shows "wf_rules (ps_rules ps)"
proof -
  have "wf_elems (length (ps_rules ps)) 0 r" if r: "r \<in> set (ps_rules ps)" for r
  proof -
    have "r \<noteq> []" "list_all (elem_defined ps) r" using assms(2) r by (auto simp: rules_defined_def list_all_iff)
    moreover have "rule_ok (id_set ps) r" using assms(1) r by (simp add: parser_ok_def)
    ultimately obtain b where b: "r = b @ [elem G_END 0]" "shape 0 b" "refs_in (id_set ps) b" by (auto simp: rule_ok_def)
    have "refs_in {..<length (ps_rules ps)} b"
      unfolding refs_in_def
    proof (intro ballI impI)
      fix e assume e: "e \<in> set b" "g_type e = G_RULE_REF"
      then have "elem_defined ps e" using \<open>list_all (elem_defined ps) r\<close> b(1) by (simp add: list_all_iff)
      moreover have "g_value e \<in> id_set ps" using b(3) e by (simp add: refs_in_def)
      then have "list_ex (\<lambda>(k, v). v = g_value e) (ps_ids ps)" by (force simp: id_set_def list_ex_iff)
      ultimately show "g_value e \<in> {..<length (ps_rules ps)}" using e(2) by (auto simp: elem_defined_def)
    qed
    from wf_elems_shape[OF b(2) this] b(1) show ?thesis by simp
  qed
  then show ?thesis by (simp add: wf_rules_def list_all_iff)
qed

lemma parse_wf:
  assumes "parse tokenize src = ret ps"
  shows "wf_rules (ps_rules ps)" "map copy_rule (ps_rules ps) = ps_rules ps" "parser_ok ps" "rules_defined ps"
proof -
  obtain n s where p: "parse_rules n tokenize s \<lparr>ps_ids = [], ps_rules = []\<rparr> = ret ps" "rules_defined ps"
    using assms by (auto simp: parse_def Let_def run_bind_ret simp del: parse_rules.simps split: if_splits)
  have ok: "parser_ok ps" by (rule parse_rules_ok[OF p(1)]) (simp add: parser_ok_def ids_ok_def dense_def id_set_def)
  then show "parser_ok ps" .
  show "rules_defined ps" by (rule p(2))
  show "wf_rules (ps_rules ps)" by (rule defined_rules_wf[OF ok p(2)])
  show "map copy_rule (ps_rules ps) = ps_rules ps"
  proof (rule map_idI)
    fix r assume r: "r \<in> set (ps_rules ps)"
    then have "r \<noteq> []" "rule_ok (id_set ps) r" using ok p(2) by (auto simp: rules_defined_def list_all_iff parser_ok_def)
    then obtain b where b: "r = b @ [elem G_END 0]" "shape 0 b" by (auto simp: rule_ok_def)
    have "takeWhile (\<lambda>e. g_type e \<noteq> G_END) r = b"
      unfolding b(1) using shape_no_end[OF b(2)] by (subst takeWhile_append2) auto
    then show "copy_rule r = r" by (simp add: copy_rule_def b(1))
  qed
qed

text \<open>C18: what the constructor returns: a non-null grammar object has the rules of the parsed text, which
  are well formed and without the left recursion the check sees; its stacks are the initial stacks of the
  rule the name of the root stands for, each empty or with a terminal on top, and they generate exactly
  what that rule derives; no character is cut off, nothing is buffered, and it waits for a trigger when
  it was asked to.  When the rules have no left recursion at all, counting every rule that derives the
  empty word as one that may be skipped, accepting any text returns, and it leaves an empty stack exactly
  when the root derives the text; when they have no token elements either, the object satisfies the
  invariant the sampler needs.\<close>

theorem constructed_grammar_ok:
  assumes "init_impl tokenize text root lazy patterns tokens = ret (Some g)"
  shows "\<exists>ps i. parse tokenize text = ret ps \<and> map_of (ps_ids ps) root = Some i \<and> i < length (gr_rules g)
    \<and> gr_rules g = ps_rules ps \<and> wf_rules (gr_rules g) \<and> left_recursive (gr_rules g) = Some False
    \<and> initial_stacks (gr_rules g) i = ret (gr_stacks g) \<and> ready (gr_rules g) (gr_stacks g)
    \<and> (\<forall>w. language (gr_rules g) (set (gr_stacks g)) w \<longleftrightarrow> derives (gr_rules g) [Nonterminal i] w)
    \<and> gr_partial g = \<lparr>pu_value = 0, pu_remain = 0\<rparr> \<and> gr_awaiting g = lazy \<and> gr_buffer g = [] \<and> gr_positions g = []
    \<and> (left_free (gr_rules g) \<longrightarrow> (token_free (gr_rules g) \<longrightarrow> engine_ok g)
      \<and> (\<forall>w. \<exists>out. accept_all (gr_rules g) w (gr_stacks g) = ret out \<and> ([] \<in> set out \<longleftrightarrow> derives (gr_rules g) [Nonterminal i] w)))"
proof -
  from assms obtain ps where p: "parse tokenize text = ret ps"
    by (auto simp: init_impl_def split: option.splits sum.splits gfail.splits)
  note wf = parse_wf[OF p]
  from assms p obtain i where i: "map_of (ps_ids ps) root = Some i" "i < length (ps_rules ps)"
    by (auto simp: init_impl_def split: option.splits if_splits)
  from assms p i obtain rs stacks where r: "init_rules (ps_rules ps) i = ret (Some (rs, stacks))"
      "gr_rules g = rs" "gr_stacks g = stacks" "gr_awaiting g = lazy" "gr_buffer g = []" "gr_positions g = []"
      "gr_partial g = \<lparr>pu_value = 0, pu_remain = 0\<rparr>"
    by (auto simp: init_impl_def run_bind_ret split: if_splits option.splits)
  have lr: "left_recursive (ps_rules ps) = Some False" "initial_stacks (ps_rules ps) i = ret stacks" "rs = ps_rules ps"
    using r(1) by (auto simp: init_rules_def wf(2) Let_def run_bind_ret split: option.splits bool.splits)
  from initial_stacks_language[OF wf(1) i(2) lr(2)] lr(3) have
    s: "ready rs stacks" "\<forall>w. language rs (set stacks) w \<longleftrightarrow> derives rs [Nonterminal i] w" by auto
  have "(token_free rs \<longrightarrow> engine_ok g)
      \<and> (\<forall>w. \<exists>out. accept_all rs w stacks = ret out \<and> ([] \<in> set out \<longleftrightarrow> derives rs [Nonterminal i] w))" if "left_free rs"
  proof -
    have g: "good_rules rs" using that lr wf(1) by (simp add: good_rules_def)
    have ne: "stacks \<noteq> []" using initial_nonempty[OF g, of i stacks] i(2) lr(2,3) by simp
    have "\<exists>out. accept_all rs w stacks = ret out \<and> ([] \<in> set out \<longleftrightarrow> derives rs [Nonterminal i] w)" for w
    proof -
      from accept_all_good[OF g s(1), of w] obtain out where
        o: "accept_all rs w stacks = ret out" "ready rs out"
           "\<forall>v. language rs (set out) v \<longleftrightarrow> language rs (set stacks) (w @ v)" by blast
      have "[] \<in> set out \<longleftrightarrow> derives rs [Nonterminal i] w"
        using language_Nil[OF o(2)] o(3)[rule_format, of "[]"] s(2) by simp
      with o(1) show ?thesis by blast
    qed
    with s(1) ne g r(2,3) show ?thesis by (simp add: engine_ok_def)
  qed
  with p i wf lr r s show ?thesis by auto
qed


text \<open>The grammar \<open>root ::= "a"{1,2} [^b-d]\<close>.\<close>

definition demo_text :: "nat list" where
  "demo_text = ascii ''root ::= \"a\"{1,2} [^b-d]''"

definition demo_parsed :: rules where
  "demo_parsed = [[gel G_CHAR 97, gel G_RULE_REF 1, gel G_CHAR_NOT 98, gel G_CHAR_RNG_UPPER 100, gel G_END 0],
     [gel G_CHAR 97, gel G_ALT 0, gel G_END 0]]"

text \<open>Evaluation by simplification: fuel and counters are numerals.\<close>

lemma run_bind_eval: "run_bind None f = None" "run_bind (Some (Inl e)) f = Some (Inl e)" "run_bind (ret x) f = f x"
  by (simp_all add: run_bind_def)

lemma run_bind_weak: "m = m' \<Longrightarrow> run_bind m f = run_bind m' f"
  by simp

lemma Let_value: "Let x f = f x" by simp

lemmas fuel_eval =
  parse_alternates.simps(2)[of "pred_numeral k" for k, folded numeral_eq_Suc]
  alt_loop.simps(2)[of "pred_numeral k" for k, folded numeral_eq_Suc]
  parse_sequence.simps(2)[of "pred_numeral k" for k, folded numeral_eq_Suc]
  GramParse.parse_rules.simps(2)[of "pred_numeral k" for k, folded numeral_eq_Suc]
  parse_hex.simps(3)[of "pred_numeral k" for k, folded numeral_eq_Suc]
  take_cont.simps(1)[of _ _ _ "pred_numeral k" for k, folded numeral_eq_Suc]
  rep_loop.simps(2)[of _ _ _ "pred_numeral k" for k, folded numeral_eq_Suc]

lemmas lexical = hd0_def is_word_char_def is_digit_char_def parse_name_def parse_int_def stoull_def parse_char_def decode_one_def
  utf8_len_lead_def parse_literal.simps parse_class.simps parse_bounds_def parse_token_def hex_digit_def line_end_def

lemmas items = seq_item_def item_literal_def item_class_def item_token_def item_ref_def item_any_def item_repeat_def item_braces_def
  start_sym_def seq_group_def seq_after_group_def handle_repetitions_def n_opt_def max_repetition_def
  get_symbol_id_def generate_symbol_id_def add_rule_def digits.simps

lemmas parse_eval = parse_def parse_rule_def alternates_fuel_def rules_defined_def elem_defined_def lexical items fuel_eval
  Let_value run_bind_eval

lemma demo_parse: "parse None demo_text = ret \<lparr>ps_ids = [(ascii ''root'', 0), (ascii ''root_1'', 1)], ps_rules = demo_parsed\<rparr>"
proof -
  have bytes: "demo_text = [114, 111, 111, 116, 32, 58, 58, 61, 32, 34, 97, 34, 123, 49, 44, 50, 125, 32, 91, 94, 98, 45, 100, 93]"
    by (simp add: demo_text_def ascii_def)
  show ?thesis
    unfolding bytes
    by (simp add: parse_eval demo_parsed_def gel_def ascii_def cong: run_bind_weak let_weak_cong
        del: parse_alternates.simps alt_loop.simps parse_sequence.simps)
qed

lemma demo_init: "init_impl None demo_text (ascii ''root'') False ([] :: nat trigger_pattern list) []
  = ret (Some \<lparr>gr_rules = demo_parsed, gr_stacks = [[(0, 0)]], gr_partial = \<lparr>pu_value = 0, pu_remain = 0\<rparr>, gr_awaiting = False,
      gr_buffer = [], gr_positions = [], gr_trigger_tokens = [], gr_trigger_patterns = []\<rparr>)"
proof -
  have "init_rules demo_parsed 0 = ret (Some (demo_parsed, [[(0, 0)]]))" by code_simp
  then show ?thesis by (simp add: init_impl_def demo_parse run_bind_eval) (simp add: demo_parsed_def)
qed

lemma demo_parsed_left_free: "left_free demo_parsed"
proof -
  have lt: "r < 2 \<Longrightarrow> r = 0 \<or> r = (1 :: nat)" for r by linarith
  have "heads demo_parsed r = []" if "r < length demo_parsed" for r
    using that lt[of r] by (auto simp: demo_parsed_def heads_def gel_def is_end_type_def)
  then show ?thesis by (intro left_freeI[where rk = "\<lambda>r. 0"]) simp
qed

theorem constructed_grammar_ok_witness:
  "\<exists>g. init_impl None demo_text (ascii ''root'') False ([] :: nat trigger_pattern list) [] = ret (Some g) \<and> engine_ok g
    \<and> initial_stacks demo_parsed 0 = ret (gr_stacks g)
    \<and> (\<exists>out. accept_all demo_parsed [97, 97, 101] (gr_stacks g) = ret out
        \<and> ([] \<in> set out \<longleftrightarrow> derives demo_parsed [Nonterminal 0] [97, 97, 101]))"
proof -
  have "token_free demo_parsed" by code_simp
  with constructed_grammar_ok[OF demo_init] demo_parsed_left_free demo_init show ?thesis
    by (simp add: demo_parse del: accept_all.simps)
qed

text \<open>C20: parsing always ends, in one of three ways: with a table, with an exception, or out of memory; the
  recursion between alternates, sequences and groups and the loop over the rules end on every input,
  and no assertion fails.  It runs out of memory only on a text in which a brace opens bounds whose upper
  one is below the lower one, as in \<open>a{3,2}\<close>, where the code's unsigned difference asks for nearly
  \<open>2 ^ 64\<close> rules.\<close>

theorem parse_returns:
  "(\<exists>ps. parse tokenize src = ret ps) \<or> parse tokenize src = throw
    \<or> (parse tokenize src = Some (Inl GMemory)
        \<and> (\<exists>t nested mn mx r. suffix t (takeWhile (\<lambda>b. b \<noteq> 0) src) \<and> hd0 t = c_lbrace
            \<and> parse_bounds nested (tl t) = Some (mn, mx, r) \<and> mx < mn))"
proof -
  obtain y where y: "parse tokenize src = Some y" using parse_defined by blast
  show ?thesis
  proof (cases y)
    case (Inl e)
    with parse_ends[of src tokenize] y show ?thesis by (auto simp: ends_well_def inverted_def)
  qed (use y in blast)
qed

text \<open>Such a text does exhaust the memory.\<close>

lemma inverted_bounds_exhaust: "parse None (ascii ''root ::= \"a\"{3,2}'') = Some (Inl GMemory)"
proof -
  have bytes: "ascii ''root ::= \"a\"{3,2}'' = [114, 111, 111, 116, 32, 58, 58, 61, 32, 34, 97, 34, 123, 51, 44, 50, 125]"
    by (simp add: ascii_def)
  show ?thesis
    unfolding bytes
    by (simp add: parse_eval cong: run_bind_weak let_weak_cong
        del: parse_alternates.simps alt_loop.simps parse_sequence.simps)
qed

text \<open>C19: the rewriting of a repetition is right: after \<open>S{m,n}\<close>, \<open>S{m,}\<close>, \<open>S*\<close>, \<open>S+\<close> or \<open>S?\<close> with \<open>m \<le> n\<close>, the
  elements that replace the last symbol derive exactly what between \<open>m\<close> and \<open>n\<close> copies of it derive,
  in any rules that contain the new ones.\<close>

theorem repetition_language:
  assumes "handle_repetitions name mn mx st = ret st'" "seq_ok st" "no_alt (last_sym st)"
    and "c_underscore \<notin> set name" "mn \<le> mx" "mx \<le> u64_max" "mn < u64_max"
    and "length (ps_ids (sq_parser st)) + n_opt mn mx \<le> 2 ^ 32" "has_new_rules rs st st'"
  shows "derives rs (symbols (last_sym st')) w
    \<longleftrightarrow> (\<exists>n. mn \<le> n \<and> (mx \<noteq> u64_max \<longrightarrow> n \<le> mx) \<and> derives rs (copies n (symbols (last_sym st))) w)"
  by (rule handle_repetitions_language[OF assms])

definition demo_seq :: seq_state where
  "demo_seq = \<lparr>sq_rule = [gel G_CHAR 97], sq_last = 0, sq_n_prev = 1,
     sq_parser = \<lparr>ps_ids = [(ascii ''root'', 0)], ps_rules = []\<rparr>\<rparr>"

theorem repetition_language_witness:
  "\<exists>st'. handle_repetitions (ascii ''root'') 1 2 demo_seq = ret st' \<and> (derives demo_parsed (symbols (last_sym st')) [97, 97]
    \<longleftrightarrow> (\<exists>n. 1 \<le> n \<and> (2 \<noteq> u64_max \<longrightarrow> n \<le> 2) \<and> derives demo_parsed (copies n (symbols (last_sym demo_seq))) [97, 97]))"
proof -
  obtain st' where st': "handle_repetitions (ascii ''root'') 1 2 demo_seq = ret st'"
    "ps_ids (sq_parser st') = [(ascii ''root'', 0), (ascii ''root_1'', 1)]" "ps_rules (sq_parser st') = [[], demo_parsed ! 1]"
  proof -
    have "handle_repetitions (ascii ''root'') 1 2 demo_seq = ret \<lparr>sq_rule = [gel G_CHAR 97, gel G_RULE_REF 1], sq_last = 0, sq_n_prev = 2,
      sq_parser = \<lparr>ps_ids = [(ascii ''root'', 0), (ascii ''root_1'', 1)], ps_rules = [[], demo_parsed ! 1]\<rparr>\<rparr>"
      by (simp add: items fuel_eval demo_seq_def demo_parsed_def gel_def ascii_def)
    from that[OF this] show ?thesis by simp
  qed
  have new: "has_new_rules demo_parsed demo_seq st'"
    using st'(2,3) by (auto simp: has_new_rules_def demo_seq_def less_Suc_eq)
  have ok: "seq_ok demo_seq" "no_alt (last_sym demo_seq)" "c_underscore \<notin> set (ascii ''root'')"
    "length (ps_ids (sq_parser demo_seq)) + n_opt 1 2 \<le> 2 ^ 32"
    by (simp_all add: seq_ok_def demo_seq_def gel_def allowed_def parser_ok_def ids_ok_def dense_def id_set_def name_ok_def
        ascii_def no_alt_def last_sym_def n_opt_def lessThan_Suc)
  from repetition_language[OF st'(1) ok(1-3) _ _ _ ok(4) new, of "[97, 97]"] st'(1) show ?thesis by auto
qed

text \<open>Printing a parsed grammar never throws: every rule ends as it must, every modifier follows a
  character, and every index and reference has a name, as long as the identifiers fit 32 bits.\<close>

theorem printing_never_throws:
  assumes "parse tokenize src = ret ps" "length (ps_ids ps) \<le> 2 ^ 32"
  shows "\<exists>out. print_grammar ps = Some out"
  using print_defined[OF parse_wf(3,4)[OF assms(1)] assms(2)] by blast

theorem printing_never_throws_witness:
  "\<exists>out. print_grammar \<lparr>ps_ids = [(ascii ''root'', 0), (ascii ''root_1'', 1)], ps_rules = demo_parsed\<rparr> = Some out"
  by (rule printing_never_throws[OF demo_parse]) simp

text \<open>A root that is only mentioned inside a repetition of zero copies has an identifier but no rule:
  \<open>a ::= root{0} "x"\<close> parses, the root symbol is found, and building the initial stacks indexes the
  rules out of their bounds.\<close>

theorem undefined_root_faults:
  "init_impl None (ascii ''a ::= root{0} \"x\"'') (ascii ''root'') False ([] :: nat trigger_pattern list) [] = Some (Inl GNull)"
proof -
  have bytes: "ascii ''a ::= root{0} \"x\"'' = [97, 32, 58, 58, 61, 32, 114, 111, 111, 116, 123, 48, 125, 32, 34, 120, 34]"
    by (simp add: ascii_def)
  have "parse None (ascii ''a ::= root{0} \"x\"'') = ret \<lparr>ps_ids = [(ascii ''a'', 0), (ascii ''root'', 1)], ps_rules = [[gel G_CHAR 120, gel G_END 0]]\<rparr>"
    unfolding bytes by (simp add: parse_eval gel_def ascii_def cong: run_bind_weak let_weak_cong
      del: parse_alternates.simps alt_loop.simps parse_sequence.simps)
  then show ?thesis by (simp add: init_impl_def) (simp add: ascii_def)
qed

end
