(* ===== verification/Rbudget.thy ===== *)
theory Rbudget
  imports GramUtf8
begin

section \<open>The reasoning-budget sampler (common/reasoning-budget.cpp)\<close>

text \<open>
  The sampler limits the tokens of a reasoning block.  It watches for the start tag, counts the
  tokens of the block, and when the budget is used up and the last token ends a character it forces
  the closing message token by token.  \<open>rb_accept\<close> is \<open>common_reasoning_budget_accept\<close>, \<open>rb_apply\<close>
  \<open>common_reasoning_budget_apply\<close>; the context is the record \<open>rbudget\<close>.  The vocabulary's
  \<open>common_token_to_piece\<close> is the field \<open>rb_piece\<close>, absent for a null vocabulary.  \<open>remaining\<close> is an
  \<open>int32_t\<close> that the invariant \<open>rb_inv\<close> keeps between the budget and zero while it is decremented, so
  it is an \<open>int\<close> here.
\<close>

subsection \<open>The token matcher\<close>

record token_matcher =
  mt_tokens :: "nat list"
  mt_pos :: nat

definition mt_advance :: "token_matcher \<Rightarrow> nat \<Rightarrow> token_matcher \<times> bool" where
  "mt_advance m t =
     (if mt_tokens m = [] then (m, False)
      else if t = mt_tokens m ! mt_pos m then
        (let p = Suc (mt_pos m) in
         if p \<ge> length (mt_tokens m) then (m\<lparr>mt_pos := 0\<rparr>, True) else (m\<lparr>mt_pos := p\<rparr>, False))
      else if t = mt_tokens m ! 0 then (m\<lparr>mt_pos := 1\<rparr>, False)
      else (m\<lparr>mt_pos := 0\<rparr>, False))"

definition mt_reset :: "token_matcher \<Rightarrow> token_matcher" where
  "mt_reset m = m\<lparr>mt_pos := 0\<rparr>"

subsection \<open>Character boundaries (common/unicode.cpp)\<close>

definition lead_expects :: "nat \<Rightarrow> nat" where
  "lead_expects c = (if c \<ge> 0xF0 then 4 else if c \<ge> 0xE0 then 3 else if c \<ge> 0xC0 then 2 else 1)"

text \<open>The loop looks at the last four bytes, from the end; \<open>i\<close> is the number of bytes read.\<close>

fun complete_scan :: "nat \<Rightarrow> nat list \<Rightarrow> bool" where
  "complete_scan i [] = False"
| "complete_scan i (c # cs) =
     (if i > 4 then False
      else if c div 64 \<noteq> 2 then i \<ge> lead_expects c
      else complete_scan (Suc i) cs)"

definition utf8_is_complete :: "nat list \<Rightarrow> bool" where
  "utf8_is_complete s \<longleftrightarrow> s = [] \<or> complete_scan 1 (rev s)"

subsection \<open>The context and its operations\<close>

datatype rb_state = IDLE | COUNTING | FORCING | WAITING_UTF8 | DONE

record rbudget =
  rb_piece :: "(nat \<Rightarrow> nat list) option"
  start_matcher :: token_matcher
  end_matcher :: token_matcher
  forced_tokens :: "nat list"
  rb_budget :: int
  remaining :: int
  rb_state :: rb_state
  force_pos :: nat

definition rb_start_forcing :: "rbudget \<Rightarrow> rbudget" where
  "rb_start_forcing c = c\<lparr>rb_state := FORCING, force_pos := 0\<rparr>"

definition rb_activate :: "rbudget \<Rightarrow> rbudget" where
  "rb_activate c =
     (let c1 = c\<lparr>rb_state := COUNTING, remaining := rb_budget c\<rparr>
      in if remaining c1 \<le> 0 then rb_start_forcing c1 else c1)"

definition rb_piece_complete :: "rbudget \<Rightarrow> nat \<Rightarrow> bool" where
  "rb_piece_complete c t = (case rb_piece c of None \<Rightarrow> True | Some p \<Rightarrow> utf8_is_complete (p t))"

definition rb_accept_block :: "rbudget \<Rightarrow> nat \<Rightarrow> rbudget" where
  "rb_accept_block c t =
     (case mt_advance (end_matcher c) t of (e, hit) \<Rightarrow>
        let c = c\<lparr>end_matcher := e\<rparr> in
        if hit then c\<lparr>rb_state := DONE\<rparr>
        else let done = rb_piece_complete c t in
        if rb_state c = WAITING_UTF8 then
          (if done then (rb_start_forcing c)\<lparr>end_matcher := mt_reset e\<rparr> else c)
        else let c = c\<lparr>remaining := remaining c - 1\<rparr> in
          if remaining c \<le> 0 then
            (if done then (rb_start_forcing c)\<lparr>end_matcher := mt_reset e\<rparr>
             else c\<lparr>rb_state := WAITING_UTF8, end_matcher := mt_reset e\<rparr>)
          else c)"

definition rb_accept :: "rbudget \<Rightarrow> nat \<Rightarrow> rbudget" where
  "rb_accept c t =
     (case rb_state c of
        IDLE \<Rightarrow> (case mt_advance (start_matcher c) t of (s, hit) \<Rightarrow>
                  let c = c\<lparr>start_matcher := s\<rparr> in if hit then rb_activate c else c)
      | COUNTING \<Rightarrow> rb_accept_block c t
      | WAITING_UTF8 \<Rightarrow> rb_accept_block c t
      | FORCING \<Rightarrow> (let c = c\<lparr>force_pos := Suc (force_pos c)\<rparr> in
                   if force_pos c \<ge> length (forced_tokens c) then c\<lparr>rb_state := DONE\<rparr> else c)
      | DONE \<Rightarrow> (case mt_advance (start_matcher c) t of (s, hit) \<Rightarrow>
                  let c = c\<lparr>start_matcher := s\<rparr> in
                  if hit then rb_activate (c\<lparr>end_matcher := mt_reset (end_matcher c)\<rparr>) else c))"

definition rb_apply :: "rbudget \<Rightarrow> 'l token_data list \<Rightarrow> 'l token_data list" where
  "rb_apply c cur =
     (if rb_state c \<noteq> FORCING then cur
      else if force_pos c \<ge> length (forced_tokens c) then cur
      else let forced = forced_tokens c ! force_pos c
           in map (\<lambda>d. if td_id d \<noteq> forced then d\<lparr>td_logit := None\<rparr> else d) cur)"

definition rb_reset :: "rbudget \<Rightarrow> rbudget" where
  "rb_reset c = c\<lparr>rb_state := IDLE, remaining := rb_budget c,
     start_matcher := mt_reset (start_matcher c), end_matcher := mt_reset (end_matcher c), force_pos := 0\<rparr>"

definition rb_init ::
  "(nat \<Rightarrow> nat list) option \<Rightarrow> nat list \<Rightarrow> nat list \<Rightarrow> nat list \<Rightarrow> int \<Rightarrow> rb_state \<Rightarrow> rbudget" where
  "rb_init pc start_tokens end_tokens forced b initial_state =
     \<lparr>rb_piece = pc, start_matcher = \<lparr>mt_tokens = start_tokens, mt_pos = 0\<rparr>,
      end_matcher = \<lparr>mt_tokens = end_tokens, mt_pos = 0\<rparr>, forced_tokens = forced,
      rb_budget = b, remaining = b,
      rb_state = (if initial_state = COUNTING \<and> b \<le> 0 then FORCING else initial_state), force_pos = 0\<rparr>"

definition rb_get_state :: "rbudget option \<Rightarrow> rb_state" where
  "rb_get_state smpl = (case smpl of None \<Rightarrow> IDLE | Some c \<Rightarrow> rb_state c)"

text \<open>The budget a slot can honour; \<open>div\<close> is only applied to a positive room, where it is C++'s
  division.\<close>

definition rb_fit_ctx :: "int \<Rightarrow> int \<Rightarrow> int \<Rightarrow> int" where
  "rb_fit_ctx b n_ctx n_prompt =
     (if b < 0 \<or> n_ctx \<le> 0 then b
      else let room = n_ctx - max n_prompt 0 in
        if room \<le> 0 then 0
        else let fit = room - min 1024 (room div 4) in if b > fit then fit else b)"

end
