(* ===== verification/RbudgetRun.thy ===== *)
theory RbudgetRun
  imports Rbudget "HOL-Library.Sublist"
begin

section \<open>The reasoning budget: the tags, the count and the closing message\<close>

text \<open>
  What a watcher for a token sequence promises (locale \<open>watcher\<close>, provided by the token matcher), the
  invariant of every reachable context, and the behaviour of a thought: it is closed by its own end
  tag or, after the budget, by exactly the forced message.
\<close>

subsection \<open>Watching for a sequence\<close>

fun watch :: "('m \<Rightarrow> nat \<Rightarrow> 'm \<times> bool) \<Rightarrow> 'm \<Rightarrow> nat list \<Rightarrow> 'm \<times> bool list" where
  "watch step m [] = (m, [])"
| "watch step m (t # ts) = (case step m t of (m', b) \<Rightarrow> case watch step m' ts of (m'', bs) \<Rightarrow> (m'', b # bs))"

lemma watch_append:
  "watch step m (xs @ ys) =
     (case watch step m xs of (m', bs) \<Rightarrow> case watch step m' ys of (m'', cs) \<Rightarrow> (m'', bs @ cs))"
  by (induction xs arbitrary: m) (auto split: prod.splits)

lemma length_watch [simp]: "length (snd (watch step m ts)) = length ts"
  by (induction ts arbitrary: m) (simp_all add: case_prod_beta)

text \<open>A watcher keeps the part of its sequence it has just read; it fires only when that part and
  the token make the whole sequence.\<close>

locale watcher =
  fixes step :: "'m \<Rightarrow> nat \<Rightarrow> 'm \<times> bool"
    and ok :: "'m \<Rightarrow> bool"
    and pat :: "'m \<Rightarrow> nat list"
    and seen :: "'m \<Rightarrow> nat list"
  assumes step_ok: "ok m \<Longrightarrow> ok (fst (step m t)) \<and> pat (fst (step m t)) = pat m"
    and step_hit: "ok m \<Longrightarrow> snd (step m t) \<Longrightarrow> seen m @ [t] = pat m \<and> seen (fst (step m t)) = []"
    and step_miss: "ok m \<Longrightarrow> \<not> snd (step m t) \<Longrightarrow> suffix (seen (fst (step m t))) (seen m @ [t])"
begin

lemma step_suffix: "ok m \<Longrightarrow> suffix (seen (fst (step m t))) (seen m @ [t])"
  using step_hit step_miss by (cases "snd (step m t)") auto

lemma watch_ok: "ok m \<Longrightarrow> ok (fst (watch step m ts)) \<and> pat (fst (watch step m ts)) = pat m"
proof (induction ts arbitrary: m)
  case (Cons t ts)
  then show ?case using Cons.IH[of "fst (step m t)"] step_ok[of m t] by (simp add: case_prod_beta)
qed simp

lemma watch_seen: "ok m \<Longrightarrow> suffix (seen (fst (watch step m ts))) (seen m @ ts)"
proof (induction ts arbitrary: m)
  case (Cons t ts)
  let ?m = "fst (step m t)"
  from Cons.IH[of ?m] step_ok[of m t] Cons.prems have "suffix (seen (fst (watch step ?m ts))) (seen ?m @ ts)" by blast
  also have "suffix (seen ?m @ ts) (seen m @ t # ts)"
    using step_suffix[OF Cons.prems, of t] by (auto simp: suffix_def)
  finally show ?case by (simp add: case_prod_beta)
qed simp

lemma hit_suffix:
  assumes "ok m" "snd (step (fst (watch step m ts)) t)"
  shows "suffix (pat m) (seen m @ ts @ [t])"
proof -
  have "seen (fst (watch step m ts)) @ [t] = pat m"
    using step_hit watch_ok assms by metis
  then show ?thesis using watch_seen[OF assms(1), of ts] by (metis append.assoc same_suffix_suffix suffix_appendD suffix_def)
qed

end

subsection \<open>The token matcher is a watcher\<close>

definition mt_ok :: "token_matcher \<Rightarrow> bool" where
  "mt_ok m \<longleftrightarrow> (if mt_tokens m = [] then mt_pos m = 0 else mt_pos m < length (mt_tokens m))"

definition mt_seen :: "token_matcher \<Rightarrow> nat list" where
  "mt_seen m = take (mt_pos m) (mt_tokens m)"

lemma mt_advance_keeps:
  assumes "mt_ok m"
  shows "mt_ok (fst (mt_advance m t))" "mt_tokens (fst (mt_advance m t)) = mt_tokens m"
  using assms by (cases "mt_pos m"; auto simp: mt_advance_def mt_ok_def Let_def)+

lemma mt_advance_hit:
  assumes "mt_ok m" "snd (mt_advance m t)"
  shows "mt_seen m @ [t] = mt_tokens m" "mt_pos (fst (mt_advance m t)) = 0"
  using assms by (auto simp: mt_advance_def mt_ok_def mt_seen_def Let_def take_Suc_conv_app_nth[symmetric] split: if_splits)

lemma mt_advance_miss:
  assumes "mt_ok m" "\<not> snd (mt_advance m t)"
  shows "suffix (mt_seen (fst (mt_advance m t))) (mt_seen m @ [t])"
  using assms by (auto simp: mt_advance_def mt_ok_def mt_seen_def Let_def take_Suc_conv_app_nth take_Suc hd_conv_nth suffix_def split: if_splits)

interpretation tags: watcher mt_advance mt_ok mt_tokens mt_seen
proof (unfold_locales, goal_cases)
  case (1 m t)
  then show ?case by (simp add: mt_advance_keeps)
next
  case (2 m t)
  then show ?case by (simp add: mt_advance_hit mt_seen_def[of "fst _"])
next
  case (3 m t)
  then show ?case by (rule mt_advance_miss)
qed

text \<open>The state after reading a text, when the first token of the sequence does not come back in it: the
  longest proper prefix of the sequence the text ends with.\<close>

definition mt_longest :: "nat list \<Rightarrow> nat list \<Rightarrow> nat \<Rightarrow> bool" where
  "mt_longest p xs n \<longleftrightarrow> n < length p \<and> suffix (take n p) xs \<and> (\<forall>k. n < k \<and> k < length p \<longrightarrow> \<not> suffix (take k p) xs)"

lemma suffix_take_snoc:
  assumes "k < length p"
  shows "suffix (take (Suc k) p) (xs @ [t]) \<longleftrightarrow> suffix (take k p) xs \<and> p ! k = t"
  using assms by (auto simp: take_Suc_conv_app_nth suffix_def)

lemma head_once:
  assumes "p = a # q" "a \<notin> set q" "suffix (take i p) xs" "suffix (take j p) xs" "0 < i" "i < j" "j \<le> length p"
  shows False
proof -
  have "suffix (take i p) (take j p)"
    using assms by (intro suffix_length_suffix[OF assms(3,4)]) simp
  then obtain zs where z: "take j p = zs @ take i p" by (auto simp: suffix_def)
  have "length zs = j - i" using arg_cong[OF z, of length] assms by simp
  with assms have "(zs @ take i p) ! (j - i) = p ! 0" by (simp add: nth_append)
  then have "p ! (j - i) = a" using assms unfolding z[symmetric] by simp
  with assms have "q ! (j - i - 1) = a" "j - i - 1 < length q" by (cases "j - i", auto)+
  with assms(2) show False by (metis nth_mem)
qed

lemma mt_exact_step:
  assumes p: "mt_tokens m = a # q" "a \<notin> set q" and L: "mt_longest (mt_tokens m) xs (mt_pos m)"
  shows "snd (mt_advance m t) \<longleftrightarrow> suffix (mt_tokens m) (xs @ [t])"
    and "mt_longest (mt_tokens m) (xs @ [t]) (mt_pos (fst (mt_advance m t)))"
proof -
  let ?p = "mt_tokens m" and ?n = "mt_pos m"
  have n: "?n < length ?p" "suffix (take ?n ?p) xs" and max: "\<And>k. ?n < k \<Longrightarrow> k < length ?p \<Longrightarrow> \<not> suffix (take k ?p) xs"
    using L by (auto simp: mt_longest_def)
  have grow: "k = Suc ?n \<or> (k \<le> ?n \<and> 0 < k)" if "suffix (take k ?p) (xs @ [t])" "k \<le> length ?p" "0 < k" for k
  proof (rule ccontr)
    assume "\<not> ?thesis"
    with that obtain j where "k = Suc j" "?n < j" "j < length ?p" by (cases k) auto
    with that(1) max[of j] suffix_take_snoc[of j ?p xs t] show False by simp
  qed
  have ext: "suffix (take (Suc ?n) ?p) (xs @ [t]) \<longleftrightarrow> ?p ! ?n = t"
    using suffix_take_snoc[OF n(1), of xs t] n(2) by simp
  have whole: "suffix ?p (xs @ [t]) \<longleftrightarrow> Suc ?n = length ?p \<and> t = ?p ! ?n"
    using grow[of "length ?p"] ext n(1) p(1) by (auto dest: sym)
  have hit: "snd (mt_advance m t) \<longleftrightarrow> Suc ?n = length ?p \<and> t = ?p ! ?n"
    using n(1) p(1) by (auto simp: mt_advance_def Let_def split: if_splits)
  then show "snd (mt_advance m t) \<longleftrightarrow> suffix (mt_tokens m) (xs @ [t])"
    using whole by simp
  have uniq: "\<not> suffix (take k ?p) (xs @ [t])" if s: "suffix (take j ?p) (xs @ [t])" "0 < j" "j \<le> length ?p" and "0 < k" "k < length ?p" "k \<noteq> j" for j k
    using head_once[OF p, of k "xs @ [t]" j] head_once[OF p, of j "xs @ [t]" k] that by (cases k j rule: linorder_cases) auto
  show "mt_longest ?p (xs @ [t]) (mt_pos (fst (mt_advance m t)))"
  proof (cases "t = ?p ! ?n")
    case True
    with ext have s: "suffix (take (Suc ?n) ?p) (xs @ [t])" by simp
    show ?thesis
    proof (cases "Suc ?n = length ?p")
      case last: True
      with True p(1) have "mt_pos (fst (mt_advance m t)) = 0" by (simp add: mt_advance_def Let_def)
      moreover have "\<not> suffix (take k ?p) (xs @ [t])" if "0 < k" "k < length ?p" for k
        using uniq[OF s _ _ that] last that by (metis le_refl less_irrefl zero_less_Suc)
      ultimately show ?thesis using n(1) unfolding mt_longest_def by (metis length_greater_0_conv less_nat_zero_code suffix_bot.bot_least take_0 list.size(3))
    next
      case False
      with True p(1) n(1) have "mt_pos (fst (mt_advance m t)) = Suc ?n" by (auto simp add: mt_advance_def Let_def)
      with False n(1) s grow show ?thesis by (fastforce simp: mt_longest_def)
    qed
  next
    case False
    with ext have no: "\<not> suffix (take (Suc ?n) ?p) (xs @ [t])" by simp
    have pos: "mt_pos (fst (mt_advance m t)) = (if t = a then 1 else 0)"
      using False p(1) by (auto simp: mt_advance_def Let_def)
    have short: "k \<le> 1 \<and> t = a" if s: "suffix (take k ?p) (xs @ [t])" "k < length ?p" "0 < k" for k
    proof -
      from grow[OF s(1) _ s(3)] s no have "k \<le> ?n" by auto
      with s obtain j where j: "k = Suc j" "j < ?n" by (cases k) auto
      with s suffix_take_snoc[of j ?p xs t] have "suffix (take j ?p) xs" "?p ! j = t" by auto
      moreover from this j n head_once[OF p, of j xs ?n] have "j = 0" by (metis bot_nat_0.not_eq_extremum less_imp_le)
      ultimately show ?thesis using j(1) p(1) by simp
    qed
    have one: "suffix (take 1 ?p) (xs @ [t])" if "t = a"
      using that p(1) by (simp add: suffix_def)
    have two: "1 < length ?p" if "t = a" using that False n(1) p(1) by (cases ?n) auto
    show ?thesis
    proof (cases "t = a")
      case True
      then show ?thesis using pos one two short unfolding mt_longest_def by (metis less_le_not_le less_one linorder_not_le zero_less_one order.strict_trans)
    next
      case False
      have "0 < length ?p" using p(1) by simp
      moreover have "suffix (take 0 ?p) (xs @ [t])" by simp
      ultimately show ?thesis using pos False short unfolding mt_longest_def by metis
    qed
  qed
qed

lemma mt_exact_watch:
  assumes "mt_tokens m = a # q" "a \<notin> set q" "mt_pos m = 0"
  shows "mt_longest (a # q) xs (mt_pos (fst (watch mt_advance m xs))) \<and> mt_tokens (fst (watch mt_advance m xs)) = a # q"
proof (induction xs rule: rev_induct)
  case Nil
  then show ?case using assms by (auto simp: mt_longest_def)
next
  case (snoc t xs)
  let ?m = "fst (watch mt_advance m xs)"
  have "mt_ok ?m" using snoc by (auto simp: mt_ok_def mt_longest_def)
  then have "mt_tokens (fst (mt_advance ?m t)) = a # q" using mt_advance_keeps(2) snoc by metis
  with mt_exact_step(2)[of ?m a q xs t] snoc assms(2) show ?case
    by (auto simp: watch_append split: prod.splits)
qed

subsection \<open>What the sampler does with one token\<close>

definition rb_run :: "rbudget \<Rightarrow> nat list \<Rightarrow> rbudget" where
  "rb_run c ts = foldl rb_accept c ts"

lemma rb_run_simps [simp]:
  "rb_run c [] = c" "rb_run c (t # ts) = rb_run (rb_accept c t) ts" "rb_run c (xs @ ys) = rb_run (rb_run c xs) ys"
  by (simp_all add: rb_run_def)

lemmas rb_defs = rb_accept_def rb_accept_block_def rb_start_forcing_def rb_activate_def mt_reset_def Let_def

lemma rb_accept_fixed [simp]:
  "rb_piece (rb_accept c t) = rb_piece c" "forced_tokens (rb_accept c t) = forced_tokens c"
  "rb_budget (rb_accept c t) = rb_budget c"
  "rb_piece_complete (rb_accept c t) = rb_piece_complete c"
  by (auto simp: rb_defs rb_piece_complete_def fun_eq_iff split: rb_state.splits prod.splits)

lemma rb_run_fixed [simp]:
  "rb_piece (rb_run c ts) = rb_piece c" "forced_tokens (rb_run c ts) = forced_tokens c"
  "rb_budget (rb_run c ts) = rb_budget c" "rb_piece_complete (rb_run c ts) = rb_piece_complete c"
  by (induction ts arbitrary: c) simp_all

lemma rb_piece_complete_upd [simp]: "rb_piece_complete (c\<lparr>end_matcher := e\<rparr>) = rb_piece_complete c"
  by (simp add: rb_piece_complete_def fun_eq_iff)

definition in_block :: "rbudget \<Rightarrow> bool" where
  "in_block c \<longleftrightarrow> rb_state c = COUNTING \<or> rb_state c = WAITING_UTF8"

lemma block_frame:
  assumes "in_block c"
  shows "start_matcher (rb_accept c t) = start_matcher c"
    and "remaining (rb_accept c t) = remaining c \<or> rb_state c = COUNTING \<and> remaining (rb_accept c t) = remaining c - 1"
proof -
  have eq: "rb_accept c t = rb_accept_block c t"
    using assms by (auto simp: in_block_def rb_accept_def)
  note d = eq rb_accept_block_def case_prod_beta Let_def rb_start_forcing_def
  show "start_matcher (rb_accept c t) = start_matcher c" by (simp add: d)
  have "rb_state c = COUNTING \<or> rb_state c = WAITING_UTF8" using assms by (simp add: in_block_def)
  then show "remaining (rb_accept c t) = remaining c \<or> rb_state c = COUNTING \<and> remaining (rb_accept c t) = remaining c - 1"
    by (auto simp: d)
qed

text \<open>In the block a token counts one, starts the closing message, or was the end of the end tag.\<close>

lemma block_cases:
  assumes "in_block c"
  obtains
    (natural) "snd (mt_advance (end_matcher c) t)" "rb_state (rb_accept c t) = DONE"
      "end_matcher (rb_accept c t) = fst (mt_advance (end_matcher c) t)"
  | (force) "\<not> snd (mt_advance (end_matcher c) t)" "rb_state (rb_accept c t) = FORCING" "force_pos (rb_accept c t) = 0"
      "mt_pos (end_matcher (rb_accept c t)) = 0" "rb_piece_complete c t" "rb_state c = COUNTING \<longrightarrow> remaining c \<le> 1"
  | (wait) "\<not> snd (mt_advance (end_matcher c) t)" "rb_state (rb_accept c t) = WAITING_UTF8" "\<not> rb_piece_complete c t"
      "rb_state c = COUNTING \<longrightarrow> remaining c \<le> 1 \<and> mt_pos (end_matcher (rb_accept c t)) = 0"
      "rb_state c = WAITING_UTF8 \<longrightarrow> end_matcher (rb_accept c t) = fst (mt_advance (end_matcher c) t)"
  | (tick) "\<not> snd (mt_advance (end_matcher c) t)" "rb_state (rb_accept c t) = COUNTING" "rb_state c = COUNTING"
      "end_matcher (rb_accept c t) = fst (mt_advance (end_matcher c) t)"
      "remaining (rb_accept c t) = remaining c - 1" "1 < remaining c"
proof -
  have eq: "rb_accept c t = rb_accept_block c t"
    using assms by (auto simp: in_block_def rb_accept_def)
  consider "snd (mt_advance (end_matcher c) t)"
    | "\<not> snd (mt_advance (end_matcher c) t)" "rb_state c = COUNTING" | "\<not> snd (mt_advance (end_matcher c) t)" "rb_state c = WAITING_UTF8"
    using assms by (auto simp: in_block_def)
  then show thesis
  proof cases
    case 1
    then show ?thesis by (intro that(1)) (simp_all add: eq rb_accept_block_def case_prod_beta)
  next
    case 2
    note d = eq rb_accept_block_def case_prod_beta Let_def rb_start_forcing_def mt_reset_def
    consider "rb_piece_complete c t" "remaining c \<le> 1" | "\<not> rb_piece_complete c t" "remaining c \<le> 1" | "1 < remaining c"
      by linarith
    then show ?thesis
    proof cases
      case 1
      with 2 show ?thesis by (intro that(2)) (simp_all add: d)
    next
      case 2
      with \<open>\<not> snd _\<close> \<open>rb_state c = COUNTING\<close> show ?thesis by (intro that(3)) (simp_all add: d)
    next
      case 3
      with 2 show ?thesis by (intro that(4)) (simp_all add: d)
    qed
  next
    case 3
    note d = eq rb_accept_block_def case_prod_beta Let_def rb_start_forcing_def mt_reset_def
    show ?thesis
    proof (cases "rb_piece_complete c t")
      case True
      with 3 show ?thesis by (intro that(2)) (simp_all add: d)
    next
      case False
      with 3 show ?thesis by (intro that(3)) (simp_all add: d)
    qed
  qed
qed

lemma mt_advance_tokens [simp]: "mt_tokens (fst (mt_advance m t)) = mt_tokens m"
  by (simp add: mt_advance_def Let_def)

lemma rb_accept_tokens [simp]:
  "mt_tokens (start_matcher (rb_accept c t)) = mt_tokens (start_matcher c)"
  "mt_tokens (end_matcher (rb_accept c t)) = mt_tokens (end_matcher c)"
  by (cases "rb_state c"; simp add: rb_defs case_prod_beta)+

lemma mt_ok_fresh: "mt_pos m = 0 \<Longrightarrow> mt_ok m"
  by (simp add: mt_ok_def)

lemma mt_seen_fresh: "mt_pos m = 0 \<Longrightarrow> mt_seen m = []"
  by (simp add: mt_seen_def)

text \<open>Where the thought can end, and what the end tag's watcher had read when it was not reset.\<close>

definition thought_ends :: "rbudget \<Rightarrow> nat list \<Rightarrow> rbudget \<Rightarrow> bool" where
  "thought_ends c us c' \<longleftrightarrow>
     rb_state c' = DONE \<and> suffix (mt_tokens (end_matcher c)) (mt_seen (end_matcher c) @ us)
     \<or> rb_state c' = FORCING \<and> force_pos c' = 0"

lemma thought_ends_Cons:
  assumes "thought_ends (rb_accept c t) us c'" "suffix (mt_seen (end_matcher (rb_accept c t))) (mt_seen (end_matcher c) @ [t])"
  shows "thought_ends c (t # us) c'"
proof -
  from assms(2) have "suffix (mt_seen (end_matcher (rb_accept c t)) @ us) (mt_seen (end_matcher c) @ t # us)"
    by (auto simp: suffix_def)
  with assms(1) show ?thesis
    unfolding thought_ends_def by (metis rb_accept_tokens(2) suffix_order.trans)
qed

lemma thought_bound:
  assumes "in_block c" "mt_ok (end_matcher c)" "rb_state c = COUNTING \<Longrightarrow> remaining c \<le> int (Suc j)"
    "j < length ts" "rb_piece_complete c (ts ! j)"
  shows "\<exists>k \<le> Suc j. thought_ends c (take k ts) (rb_run c (take k ts))"
  using assms
proof (induction j arbitrary: c ts)
  case 0
  then obtain t us where ts: "ts = t # us" by (cases ts) auto
  have "thought_ends c [t] (rb_accept c t)"
    using 0 ts tags.step_hit[OF 0(2), of t]
    by (cases rule: block_cases[OF 0(1), of t]) (auto simp: thought_ends_def)
  then show ?case using ts by (intro exI[of _ 1]) simp
next
  case (Suc j)
  then obtain t us where ts: "ts = t # us" by (cases ts) auto
  have more: ?case if "in_block (rb_accept c t)" "rb_state (rb_accept c t) = COUNTING \<Longrightarrow> remaining (rb_accept c t) \<le> int (Suc j)"
    "mt_ok (end_matcher (rb_accept c t))" "suffix (mt_seen (end_matcher (rb_accept c t))) (mt_seen (end_matcher c) @ [t])"
  proof -
    from Suc.IH[OF that(1,3,2), of us] Suc.prems ts
    obtain k where "k \<le> Suc j" "thought_ends (rb_accept c t) (take k us) (rb_run (rb_accept c t) (take k us))" by auto
    with thought_ends_Cons[OF _ that(4)] ts show ?thesis by (intro exI[of _ "Suc k"]) simp
  qed
  have adv: "mt_ok (fst (mt_advance (end_matcher c) t))"
    "suffix (mt_seen (fst (mt_advance (end_matcher c) t))) (mt_seen (end_matcher c) @ [t])"
    using mt_advance_keeps(1) tags.step_suffix Suc.prems(2) by blast+
  from Suc.prems(1) show ?case
  proof (cases rule: block_cases[where t = t])
    case natural
    then show ?thesis using tags.step_hit[OF Suc.prems(2), of t] ts
      by (intro exI[of _ 1]) (simp add: thought_ends_def)
  next
    case force
    then show ?thesis using ts by (intro exI[of _ 1]) (simp add: thought_ends_def)
  next
    case wait
    then have "end_matcher (rb_accept c t) = fst (mt_advance (end_matcher c) t) \<or> mt_pos (end_matcher (rb_accept c t)) = 0"
      using Suc.prems(1) by (auto simp: in_block_def)
    then show ?thesis using wait adv by (intro more) (auto simp: in_block_def mt_ok_fresh mt_seen_fresh)
  next
    case tick
    then show ?thesis using adv Suc.prems(3) by (intro more) (auto simp: in_block_def)
  qed
qed

subsection \<open>Generation under the sampler\<close>

text \<open>A token can be produced when it is a candidate with a finite logit after \<open>rb_apply\<close>; which finite
  value the logit has does not matter here, so it is an integer.\<close>

inductive generates :: "rbudget \<Rightarrow> nat list \<Rightarrow> rbudget \<Rightarrow> bool" for c where
  gen_start: "generates c [] c"
| gen_token: "generates c ts c' \<Longrightarrow> d \<in> set (rb_apply c' (cur :: int token_data list)) \<Longrightarrow> td_logit d \<noteq> None
    \<Longrightarrow> generates c (ts @ [td_id d]) (rb_accept c' (td_id d))"

definition permits :: "rbudget \<Rightarrow> nat \<Rightarrow> bool" where
  "permits c t \<longleftrightarrow> (rb_state c = FORCING \<and> force_pos c < length (forced_tokens c) \<longrightarrow> t = forced_tokens c ! force_pos c)"

lemma apply_permits:
  "d \<in> set (rb_apply c cur) \<Longrightarrow> td_logit d \<noteq> None \<Longrightarrow> permits c (td_id d)"
  by (auto simp: rb_apply_def permits_def Let_def split: if_splits)

lemma generates_run:
  assumes "generates c ts c'"
  shows "c' = rb_run c ts \<and> (\<forall>i < length ts. permits (rb_run c (take i ts)) (ts ! i))"
  using assms by (induction rule: generates.induct) (auto simp: less_Suc_eq nth_append dest: apply_permits)

text \<open>Conversely every permitted token can be produced.\<close>

lemma generates_permitted:
  "\<forall>i < length ts. permits (rb_run c (take i ts)) (ts ! i) \<Longrightarrow> generates c ts (rb_run c ts)"
proof (induction ts rule: rev_induct)
  case (snoc t ts)
  let ?d = "\<lparr>td_id = t, td_logit = Some 0\<rparr>" and ?c = "rb_run c ts"
  have "permits (rb_run c (take i ts)) (ts ! i)" if "i < length ts" for i
    using spec[OF snoc.prems, of i] that by (simp add: nth_append)
  then have "\<forall>i < length ts. permits (rb_run c (take i ts)) (ts ! i)" by blast
  note gen = snoc.IH[OF this]
  have "permits ?c t" using spec[OF snoc.prems, of "length ts"] by simp
  then have "?d \<in> set (rb_apply ?c [?d])" by (auto simp: rb_apply_def permits_def Let_def)
  from gen_token[OF gen this] show ?case by simp
qed (simp add: gen_start)

lemma forcing_step:
  assumes "rb_state c = FORCING"
  shows "force_pos (rb_accept c t) = Suc (force_pos c)"
    "rb_state (rb_accept c t) = (if Suc (force_pos c) < length (forced_tokens c) then FORCING else DONE)"
  using assms by (simp_all add: rb_accept_def Let_def)

lemma forcing_emits:
  assumes "rb_state c = FORCING" "force_pos c + length ts = length (forced_tokens c)" "ts \<noteq> []"
    "\<forall>i < length ts. permits (rb_run c (take i ts)) (ts ! i)"
  shows "ts = drop (force_pos c) (forced_tokens c) \<and> rb_state (rb_run c ts) = DONE"
  using assms
proof (induction ts arbitrary: c)
  case (Cons t ts)
  let ?c = "rb_accept c t"
  have "permits c t" using Cons.prems(4) by fastforce
  then have t: "t = forced_tokens c ! force_pos c" "force_pos c < length (forced_tokens c)"
    using Cons.prems by (auto simp: permits_def)
  have p: "\<forall>i < length ts. permits (rb_run ?c (take i ts)) (ts ! i)"
    using Cons.prems(4) by fastforce
  show ?case
  proof (cases "ts = []")
    case True
    then show ?thesis using Cons.prems t forcing_step[OF Cons.prems(1), of t]
      by (simp add: Cons_nth_drop_Suc[symmetric])
  next
    case False
    then have "rb_state ?c = FORCING" using forcing_step(2)[OF Cons.prems(1), of t] Cons.prems(2) by (cases ts) auto
    from Cons.IH[OF this _ False p] forcing_step(1)[OF Cons.prems(1), of t] Cons.prems(2)
    show ?thesis using t by (auto simp: Cons_nth_drop_Suc[symmetric])
  qed
qed simp

end
