(* ===== verification/RbudgetMain.thy ===== *)
theory RbudgetMain
  imports RbudgetRun
begin

section \<open>Claims about the reasoning budget\<close>

text \<open>
  The invariant of every context the sampler's interface can reach, and the claims: the tags are found
  where they are, a thought is closed within its budget by its own end tag or by exactly the forced
  message, the budget fitted to a slot leaves room for the answer, and the check for a character
  boundary agrees with the decoder on whole texts but not on the pieces of a character.
\<close>

subsection \<open>The invariant\<close>

definition rb_inv :: "rbudget \<Rightarrow> bool" where
  "rb_inv c \<longleftrightarrow> mt_ok (start_matcher c) \<and> mt_ok (end_matcher c)
     \<and> (rb_state c \<notin> {IDLE, DONE} \<longrightarrow> mt_pos (start_matcher c) = 0)
     \<and> (\<not> in_block c \<longrightarrow> mt_pos (end_matcher c) = 0)
     \<and> (rb_state c = COUNTING \<longrightarrow> 1 \<le> remaining c)
     \<and> min 0 (rb_budget c) \<le> remaining c \<and> remaining c \<le> max 0 (rb_budget c)
     \<and> (rb_state c = FORCING \<longrightarrow> force_pos c < length (forced_tokens c) \<or> force_pos c = 0 \<and> forced_tokens c = [])"

inductive rb_reachable :: "rbudget \<Rightarrow> bool" where
  rb_created: "rb_reachable (rb_init pc s e f b st)"
| rb_accepted: "rb_reachable c \<Longrightarrow> rb_reachable (rb_accept c t)"
| rb_resetted: "rb_reachable c \<Longrightarrow> rb_reachable (rb_reset c)"

lemma rb_inv_init: "rb_inv (rb_init pc s e f b st)"
  by (auto simp: rb_init_def rb_inv_def in_block_def mt_ok_def)

lemma rb_inv_reset: "rb_inv c \<Longrightarrow> rb_inv (rb_reset c)"
  by (auto simp: rb_reset_def rb_inv_def mt_reset_def in_block_def mt_ok_def)

text \<open>Outside the block only the start tag's watcher moves, until it fires.\<close>

lemma watching_cases:
  assumes "rb_state c \<in> {IDLE, DONE}" "mt_pos (end_matcher c) = 0"
  obtains
    (armed) "snd (mt_advance (start_matcher c) t)"
      "rb_accept c t = (if 0 < rb_budget c then c\<lparr>start_matcher := fst (mt_advance (start_matcher c) t), rb_state := COUNTING, remaining := rb_budget c\<rparr>
        else c\<lparr>start_matcher := fst (mt_advance (start_matcher c) t), rb_state := FORCING, remaining := rb_budget c, force_pos := 0\<rparr>)"
  | (idle) "\<not> snd (mt_advance (start_matcher c) t)"
      "rb_accept c t = c\<lparr>start_matcher := fst (mt_advance (start_matcher c) t)\<rparr>"
proof -
  have e: "(end_matcher c)\<lparr>mt_pos := 0\<rparr> = end_matcher c" using assms(2) by simp
  show thesis
  proof (cases "snd (mt_advance (start_matcher c) t)")
    case True
    with assms(1) e show ?thesis
      by (intro that(1)) (auto simp: rb_accept_def rb_activate_def rb_start_forcing_def mt_reset_def Let_def case_prod_beta)
  next
    case False
    with assms(1) show ?thesis by (intro that(2)) (auto simp: rb_accept_def Let_def case_prod_beta)
  qed
qed

lemma rb_inv_accept:
  assumes "rb_inv c"
  shows "rb_inv (rb_accept c t)"
proof -
  consider "rb_state c \<in> {IDLE, DONE}" | "in_block c" | "rb_state c = FORCING"
    by (cases "rb_state c") (auto simp: in_block_def)
  then show ?thesis
  proof cases
    case 1
    have "mt_pos (end_matcher c) = 0" using 1 assms by (auto simp: rb_inv_def in_block_def)
    from 1 this show ?thesis
    proof (cases rule: watching_cases[where t = t])
      case armed
      have "mt_ok (fst (mt_advance (start_matcher c) t))" "mt_pos (fst (mt_advance (start_matcher c) t)) = 0"
        "mt_ok (end_matcher c)"
        using armed(1) assms mt_advance_keeps(1) mt_advance_hit(2) by (simp_all add: rb_inv_def)
      with \<open>mt_pos (end_matcher c) = 0\<close> show ?thesis
        by (cases "0 < rb_budget c"; simp add: armed(2) rb_inv_def in_block_def)
    next
      case idle
      with assms show ?thesis
        using mt_advance_keeps(1)[of "start_matcher c" t] 1 by (auto simp: rb_inv_def in_block_def)
    qed
  next
    case 2
    note frame = block_frame[OF 2, of t]
    from frame(2) have r: "min 0 (rb_budget c) \<le> remaining (rb_accept c t)" "remaining (rb_accept c t) \<le> max 0 (rb_budget c)"
      using assms by (auto simp: rb_inv_def)
    have e: "mt_ok (end_matcher (rb_accept c t)) \<and> (\<not> in_block (rb_accept c t) \<longrightarrow> mt_pos (end_matcher (rb_accept c t)) = 0)
        \<and> (rb_state (rb_accept c t) = COUNTING \<longrightarrow> 1 \<le> remaining (rb_accept c t))
        \<and> (rb_state (rb_accept c t) = FORCING \<longrightarrow> force_pos (rb_accept c t) = 0)
        \<and> rb_state (rb_accept c t) \<noteq> IDLE"
      using mt_advance_keeps(1)[of "end_matcher c" t] mt_advance_hit(2)[of "end_matcher c" t] assms 2
      by (cases rule: block_cases[OF 2, of t]) (auto simp: in_block_def mt_ok_fresh rb_inv_def)
    have "mt_ok (start_matcher c)" "mt_pos (start_matcher c) = 0"
      using assms 2 by (auto simp: rb_inv_def in_block_def)
    then show ?thesis using frame(1) r e by (simp add: rb_inv_def)
  next
    case 3
    then show ?thesis using assms forcing_step[OF 3, of t]
      by (auto simp: rb_inv_def in_block_def rb_accept_def Let_def)
  qed
qed

lemma rb_reachable_inv: "rb_reachable c \<Longrightarrow> rb_inv c"
  by (induction rule: rb_reachable.induct) (auto intro: rb_inv_init rb_inv_accept rb_inv_reset)

subsection \<open>The tags\<close>

text \<open>C23: when the first token of a tag does not come back inside the tag, the matcher fires after a token
  exactly when the text read so far ends with the tag.\<close>

theorem tag_found_exactly:
  assumes "mt_tokens m = a # q" "a \<notin> set q" "mt_pos m = 0" "i < length ts"
  shows "snd (watch mt_advance m ts) ! i \<longleftrightarrow> suffix (mt_tokens m) (take (Suc i) ts)"
proof -
  have ts: "ts = take i ts @ ts ! i # drop (Suc i) ts" using assms(4) by (rule id_take_nth_drop)
  have w: "watch mt_advance m ts = (case watch mt_advance m (take i ts) of (m1, bs) \<Rightarrow>
      case watch mt_advance m1 (ts ! i # drop (Suc i) ts) of (m2, cs) \<Rightarrow> (m2, bs @ cs))"
    by (subst ts) (rule watch_append)
  let ?m = "fst (watch mt_advance m (take i ts))"
  have "length (snd (watch mt_advance m (take i ts))) = i" using assms(4) by simp
  then have "snd (watch mt_advance m ts) ! i = snd (mt_advance ?m (ts ! i))"
    unfolding w by (simp add: case_prod_beta nth_append)
  also have "\<dots> \<longleftrightarrow> suffix (mt_tokens ?m) (take i ts @ [ts ! i])"
    using mt_exact_step(1)[of ?m a q "take i ts"] mt_exact_watch[OF assms(1-3), of "take i ts"] assms(2) by simp
  finally show ?thesis
    using mt_exact_watch[OF assms(1-3), of "take i ts"] assms(1,4) by (simp add: take_Suc_conv_app_nth)
qed

theorem tag_found_exactly_witness:
  "snd (watch mt_advance \<lparr>mt_tokens = [7, 8], mt_pos = 0\<rparr> [7, 7, 8]) ! 2"
  using tag_found_exactly[of "\<lparr>mt_tokens = [7, 8], mt_pos = 0\<rparr>" 7 "[8]" 2 "[7, 7, 8]"]
  by (simp add: suffix_def numeral_2_eq_2)

text \<open>The condition is needed: a tag whose first token repeats is missed after one repetition too many.\<close>

lemma tag_missed:
  assumes "a \<noteq> b"
  shows "snd (watch mt_advance \<lparr>mt_tokens = [a, a, b], mt_pos = 0\<rparr> [a, a, a, b]) = [False, False, False, False]"
    and "suffix [a, a, b] [a, a, a, b]"
  using assms by (simp_all add: mt_advance_def suffix_def)

subsection \<open>The life of a thought\<close>

lemma activation:
  assumes "rb_reachable c0" "rb_state c0 \<in> {IDLE, DONE}" "snd (mt_advance (start_matcher c0) t0)" "0 < rb_budget c0"
  shows "in_block (rb_accept c0 t0) \<and> remaining (rb_accept c0 t0) = rb_budget c0
    \<and> mt_pos (end_matcher (rb_accept c0 t0)) = 0"
proof -
  have "mt_pos (end_matcher c0) = 0"
    using rb_reachable_inv[OF assms(1)] assms(2) by (auto simp: rb_inv_def in_block_def)
  from assms(2) this show ?thesis
    using assms(3,4) \<open>mt_pos (end_matcher c0) = 0\<close> by (cases rule: watching_cases[where t = t0]) (simp_all add: in_block_def)
qed

text \<open>C22: from the start tag on, whatever the model does under the sampler, the thought is closed: after at
  most \<open>j + 1\<close> tokens, where token \<open>j\<close> is the first one past the budget whose own text ends a character,
  either the text is the end tag's, or the next tokens are exactly the forced message, and then the
  sampler passes tokens through again.\<close>

theorem thought_closes:
  assumes "rb_reachable c0" "rb_state c0 \<in> {IDLE, DONE}" "snd (mt_advance (start_matcher c0) t0)" "0 < rb_budget c0"
    and "generates (rb_accept c0 t0) ts c'" and "forced_tokens c0 \<noteq> []"
    and "rb_budget c0 \<le> int (Suc j)" "rb_piece_complete c0 (ts ! j)" "Suc j + length (forced_tokens c0) \<le> length ts"
  shows "\<exists>k \<le> Suc j + length (forced_tokens c0). rb_state (rb_run (rb_accept c0 t0) (take k ts)) = DONE
    \<and> (k \<le> Suc j \<and> suffix (mt_tokens (end_matcher c0)) (take k ts)
       \<or> (\<exists>n \<le> Suc j. k = n + length (forced_tokens c0) \<and> drop n (take k ts) = forced_tokens c0))"
proof -
  let ?c = "rb_accept c0 t0" and ?f = "forced_tokens c0"
  note act = activation[OF assms(1-4)]
  have run: "\<forall>i < length ts. permits (rb_run ?c (take i ts)) (ts ! i)"
    using generates_run[OF assms(5)] by blast
  obtain k where k: "k \<le> Suc j" "thought_ends ?c (take k ts) (rb_run ?c (take k ts))"
    using thought_bound[of ?c j ts] act assms(7-9) by (auto simp: mt_ok_fresh)
  show ?thesis
  proof (cases "rb_state (rb_run ?c (take k ts)) = DONE")
    case True
    with k act show ?thesis by (intro exI[of _ k]) (auto simp: thought_ends_def mt_seen_fresh)
  next
    case False
    let ?d = "rb_run ?c (take k ts)" and ?us = "take (length ?f) (drop k ts)"
    from False k(2) have d: "rb_state ?d = FORCING" "force_pos ?d = 0" by (auto simp: thought_ends_def)
    have len: "length ?us = length ?f" using k(1) assms(9) by simp
    have "permits (rb_run ?d (take i ?us)) (?us ! i)" if "i < length ?us" for i
    proof -
      have "rb_run ?d (take i ?us) = rb_run ?c (take (k + i) ts)"
        using that len by (simp add: take_add)
      moreover have "?us ! i = ts ! (k + i)" "k + i < length ts" using that len k(1) assms(9) by auto
      ultimately show ?thesis using run by simp
    qed
    with forcing_emits[of ?d ?us] d len assms(6)
    have "?us = ?f \<and> rb_state (rb_run ?d ?us) = DONE" by fastforce
    moreover have "take (k + length ?f) ts = take k ts @ ?us" by (rule take_add)
    moreover have "k \<le> length ts" using k(1) assms(9) by simp
    ultimately show ?thesis using k(1) by (intro exI[of _ "k + length ?f"]) auto
  qed
qed

theorem thought_closes_witness:
  "\<exists>k \<le> 3. rb_state (rb_run (rb_accept (rb_init None [1] [2] [2] 2 IDLE) 1) (take k [5, 6, 2])) = DONE"
proof -
  let ?c = "rb_init None [1] [2] [2] 2 IDLE"
  note ev = rb_init_def rb_defs mt_advance_def permits_def rb_piece_complete_def
  have g: "generates (rb_accept ?c 1) [5, 6, 2] (rb_run (rb_accept ?c 1) [5, 6, 2])"
    by (rule generates_permitted) (auto simp: ev less_Suc_eq numeral_3_eq_3)
  have "\<exists>k \<le> Suc 1 + length (forced_tokens ?c). rb_state (rb_run (rb_accept ?c 1) (take k [5, 6, 2])) = DONE
      \<and> (k \<le> Suc 1 \<and> suffix (mt_tokens (end_matcher ?c)) (take k [5, 6, 2])
         \<or> (\<exists>n \<le> Suc 1. k = n + length (forced_tokens ?c) \<and> drop n (take k [5, 6, 2]) = forced_tokens ?c))"
    by (rule thought_closes[OF rb_created _ _ _ g]) (simp_all add: ev)
  moreover have "Suc 1 + length (forced_tokens ?c) = 3" by (simp add: rb_init_def)
  ultimately show ?thesis by metis
qed

subsection \<open>Character boundaries\<close>

text \<open>After valid bytes: the bytes still missing count down from the last lead byte.\<close>

lemma boundary_shape:
  assumes "valid_bytes 0 bs" "\<forall>b \<in> set bs. b < 256" "fold ustep bs ([], v, 0) = (os, v', n)" "bs \<noteq> []"
  shows "\<exists>cont b rest. rev bs = cont @ b # rest \<and> (\<forall>x \<in> set cont. x div 64 = 2) \<and> b div 64 \<noteq> 2
    \<and> utf8_len b \<noteq> 0 \<and> n + Suc (length cont) = utf8_len b"
  using assms
proof (induction bs arbitrary: os v' n rule: rev_induct)
  case (snoc t bs)
  obtain os1 v1 n1 where f: "fold ustep bs ([], v, 0) = (os1, v1, n1)" by (metis prod_cases3)
  note val = valid_bytes_append[OF snoc.prems(1) f]
  have step: "ustep t (os1, v1, n1) = (os, v', n)" using snoc.prems(3) f by simp
  show ?case
  proof (cases n1)
    case 0
    then have "utf8_len t \<noteq> 0" "n = utf8_len t - 1" using val step by (auto simp: Let_def)
    moreover have "t div 64 \<noteq> 2"
    proof
      assume "t div 64 = 2"
      then have "t div 16 \<in> {8, 9, 10, 11}" by (auto simp: le_div_geq)
      then have "utf8_len t = 0" by (auto simp: utf8_len_def)
      with \<open>utf8_len t \<noteq> 0\<close> show False by simp
    qed
    ultimately show ?thesis by (intro exI[of _ "[]"]) simp
  next
    case (Suc m)
    then have "t div 64 = 2" "n = m" using val step by (auto simp: Let_def)
    moreover from Suc f have "bs \<noteq> []" by auto
    with snoc.IH[OF _ _ f] val snoc.prems(2) obtain cont b rest where
      "rev bs = cont @ b # rest" "\<forall>x \<in> set cont. x div 64 = 2" "b div 64 \<noteq> 2" "utf8_len b \<noteq> 0"
      "n1 + Suc (length cont) = utf8_len b" by auto
    ultimately show ?thesis using Suc by (intro exI[of _ "t # cont"]) auto
  qed
qed simp

lemma lead_expects_table: "list_all (\<lambda>b. utf8_len b \<noteq> 0 \<longrightarrow> lead_expects b = utf8_len b) [0..<256]"
  by code_simp

lemma lead_expects_len: "b < 256 \<Longrightarrow> utf8_len b \<noteq> 0 \<Longrightarrow> lead_expects b = utf8_len b"
  using lead_expects_table by (simp add: list_all_iff)

lemma utf8_len_le: "b < 256 \<Longrightarrow> utf8_len b \<le> 4"
  using lead_expects_len[of b] by (cases "utf8_len b = 0") (auto simp: lead_expects_def split: if_splits)

lemma complete_scan_shape:
  assumes "\<forall>x \<in> set cont. x div 64 = 2" "b div 64 \<noteq> 2" "i + length cont \<le> 4"
  shows "complete_scan i (cont @ b # rest) \<longleftrightarrow> lead_expects b \<le> i + length cont"
  using assms by (induction cont arbitrary: i) auto

text \<open>On the bytes of a valid text, cut anywhere, the check for a character boundary says exactly
  whether the decoder is between two characters.\<close>

theorem utf8_complete_boundary:
  assumes "valid_bytes 0 bs" "\<forall>b \<in> set bs. b < 256"
  shows "utf8_is_complete bs \<longleftrightarrow> pu_remain (snd (decode_utf8 bs \<lparr>pu_value = 0, pu_remain = 0\<rparr>)) = 0"
proof -
  obtain os v n where f: "fold ustep bs ([], 0, 0) = (os, v, n)" by (metis prod_cases3)
  have d: "pu_remain (snd (decode_utf8 bs \<lparr>pu_value = 0, pu_remain = 0\<rparr>)) = int n"
    using decode_fold[OF assms(1), of 0] f by simp
  show ?thesis
  proof (cases "bs = []")
    case True
    then show ?thesis using d f by (simp add: utf8_is_complete_def)
  next
    case False
    from boundary_shape[OF assms f False] obtain cont b rest where s: "rev bs = cont @ b # rest"
      "\<forall>x \<in> set cont. x div 64 = 2" "b div 64 \<noteq> 2" "utf8_len b \<noteq> 0" "n + Suc (length cont) = utf8_len b" by blast
    have "b \<in> set bs" using arg_cong[OF s(1), of set] by auto
    with assms(2) have b: "b < 256" by blast
    have "utf8_is_complete bs \<longleftrightarrow> lead_expects b \<le> Suc (length cont)"
      using False s complete_scan_shape[of cont b 1 rest] utf8_len_le[OF b] by (simp add: utf8_is_complete_def)
    then show ?thesis using d s(4,5) lead_expects_len[OF b] by auto
  qed
qed

theorem utf8_complete_boundary_witness:
  "utf8_is_complete (encode_all [0x41, 0x20AC])"
proof -
  have s: "\<forall>c \<in> set [0x41, 0x20AC]. scalar c" by (simp add: scalar_def)
  have "\<forall>b \<in> set (encode_all [0x41, 0x20AC]). b < 256" by (simp add: encode_all_def encode_def)
  with utf8_complete_boundary[OF encode_all_fold(2)[OF s]] decode_encode[OF s] show ?thesis by auto
qed

subsection \<open>A character in several tokens\<close>

lemma encode_bytes:
  assumes "128 \<le> c"
  shows "\<exists>l cont. encode c = l # cont \<and> 192 \<le> l \<and> (\<forall>x \<in> set cont. x div 64 = 2) \<and> cont \<noteq> []"
proof -
  have c: "(128 + x mod 64) div 64 = (2 :: nat)" for x by (simp add: div_add1_eq)
  show ?thesis using assms by (auto simp: encode_def c)
qed

lemma single_byte_incomplete:
  "x div 64 = 2 \<or> 192 \<le> x \<Longrightarrow> \<not> utf8_is_complete [x]"
  by (auto simp: utf8_is_complete_def lead_expects_def)

lemma waiting_step:
  assumes "rb_state c = WAITING_UTF8" "rb_piece c = Some p" "\<not> utf8_is_complete (p t)" "\<not> snd (mt_advance (end_matcher c) t)"
  shows "rb_accept c t = c\<lparr>end_matcher := fst (mt_advance (end_matcher c) t)\<rparr>"
  using assms by (simp add: rb_accept_def rb_accept_block_def rb_piece_complete_def case_prod_beta Let_def)

lemma watch_snoc: "fst (watch step m (ts @ [t])) = fst (step (fst (watch step m ts)) t)"
  by (simp add: watch_append case_prod_beta)

lemma waiting_run:
  assumes "rb_state c = WAITING_UTF8" "rb_piece c = Some p" "mt_ok (end_matcher c)" "\<forall>t \<in> set ts. \<not> utf8_is_complete (p t)"
    and "\<forall>k < length ts. \<not> suffix (mt_tokens (end_matcher c)) (mt_seen (end_matcher c) @ take (Suc k) ts)" "k \<le> length ts"
  shows "rb_run c (take k ts) = c\<lparr>end_matcher := fst (watch mt_advance (end_matcher c) (take k ts))\<rparr>"
  using assms(6)
proof (induction k)
  case (Suc k)
  let ?m = "fst (watch mt_advance (end_matcher c) (take k ts))"
  have t: "take (Suc k) ts = take k ts @ [ts ! k]" "ts ! k \<in> set ts"
    using Suc.prems by (simp_all add: take_Suc_conv_app_nth)
  have "\<not> suffix (mt_tokens (end_matcher c)) (mt_seen (end_matcher c) @ take k ts @ [ts ! k])"
    using assms(5)[rule_format, of k] Suc.prems unfolding t(1) by simp
  then have "\<not> snd (mt_advance ?m (ts ! k))"
    using tags.hit_suffix[OF assms(3), of "take k ts" "ts ! k"] by blast
  then have "rb_accept (c\<lparr>end_matcher := ?m\<rparr>) (ts ! k) = c\<lparr>end_matcher := fst (mt_advance ?m (ts ! k))\<rparr>"
    using waiting_step[of "c\<lparr>end_matcher := ?m\<rparr>" p "ts ! k"] assms(1,2,4) t(2) by simp
  with Suc show ?case by (simp add: t(1) watch_snoc)
qed simp

text \<open>C24: the check for a character boundary looks at the text of the last token alone.  With any
  vocabulary, while the model writes characters beyond ASCII one byte per token, as in a byte fallback,
  and its tokens do not complete the end tag, the sampler never leaves the wait for a boundary, however
  many whole characters are written: the budget is not enforced on that text.\<close>

theorem waiting_never_ends:
  assumes "rb_reachable c" "rb_state c = WAITING_UTF8" "rb_piece c = Some p"
    and "\<forall>t \<in> set ts. length (p t) = 1" "concat (map p ts) = encode_all cs" "\<forall>x \<in> set cs. 128 \<le> x"
    and "\<forall>k < length ts. \<not> suffix (mt_tokens (end_matcher c)) (mt_seen (end_matcher c) @ take (Suc k) ts)"
  shows "rb_state (rb_run c ts) = WAITING_UTF8"
proof -
  have enc: "\<forall>b \<in> set (encode_all cs). b div 64 = 2 \<or> 192 \<le> b"
  proof
    fix b assume "b \<in> set (encode_all cs)"
    then obtain x where "x \<in> set cs" "b \<in> set (encode x)" by (auto simp: encode_all_def)
    with assms(6) encode_bytes[of x] show "b div 64 = 2 \<or> 192 \<le> b" by auto
  qed
  have "\<not> utf8_is_complete (p t)" if t: "t \<in> set ts" for t
  proof -
    from assms(4) t obtain b where b: "p t = [b]" by (auto simp: length_Suc_conv)
    with t have "b \<in> set (concat (map p ts))" by force
    with enc assms(5) single_byte_incomplete b show ?thesis by simp
  qed
  then have inc: "\<forall>t \<in> set ts. \<not> utf8_is_complete (p t)" by blast
  have "mt_ok (end_matcher c)" using rb_reachable_inv[OF assms(1)] by (simp add: rb_inv_def)
  from waiting_run[OF assms(2,3) this inc assms(7) order_refl] have "rb_run c (take (length ts) ts) = c\<lparr>end_matcher := fst (watch mt_advance (end_matcher c) (take (length ts) ts))\<rparr>" .
  with assms(2) show ?thesis by simp
qed

text \<open>Tokens 100 + b for the byte b; the end tag is the tokens 1, 2.\<close>

theorem waiting_never_ends_witness:
  "rb_state (rb_run (rb_init (Some (\<lambda>t. [t - 100])) [0] [1, 2] [1, 2] 1 WAITING_UTF8) (map (\<lambda>b. b + 100) (encode_all [0x20AC, 0x1F600]))) = WAITING_UTF8"
proof (rule waiting_never_ends[OF rb_created, where p = "\<lambda>t. [t - 100]" and cs = "[0x20AC, 0x1F600]"])
  let ?c = "rb_init (Some (\<lambda>t. [t - 100])) [0] [1, 2] [1, 2] 1 WAITING_UTF8" and ?ts = "map (\<lambda>b. b + 100) (encode_all [0x20AC, 0x1F600])"
  have e: "mt_tokens (end_matcher ?c) = [1, 2]" "mt_seen (end_matcher ?c) = []" by (simp_all add: rb_init_def mt_seen_def)
  have "\<not> suffix [1, 2] (take k ?ts)" for k
  proof
    assume "suffix [1, 2] (take k ?ts)"
    then obtain zs where "take k ?ts = zs @ [1, 2]" by (auto simp: suffix_def)
    then have "2 \<in> set (take k ?ts)" by simp
    then have "2 \<in> set ?ts" by (rule in_set_takeD)
    then show False by auto
  qed
  then show "\<forall>k < length ?ts. \<not> suffix (mt_tokens (end_matcher ?c)) (mt_seen (end_matcher ?c) @ take (Suc k) ?ts)"
    unfolding e by simp
qed (simp_all add: rb_init_def encode_all_def encode_def)

subsection \<open>Fitting the budget to a slot\<close>

text \<open>C25: the fitted budget, on every input: it never grows; an unlimited (negative) budget and an unknown
  context size leave it as it is; a budget that is not negative stays so; when the prompt leaves no room
  it is zero; and when it leaves room, a positive budget stays positive, the answer keeps its reserve, a
  quarter of the room up to 1024 tokens, and the budget is cut no further than that: it is the one given
  or it uses the rest of the context up.\<close>

theorem fit_ctx_leaves_reserve:
  "rb_fit_ctx b n_ctx n_prompt \<le> b
    \<and> (b < 0 \<or> n_ctx \<le> 0 \<longrightarrow> rb_fit_ctx b n_ctx n_prompt = b)
    \<and> (0 \<le> b \<longrightarrow> 0 \<le> rb_fit_ctx b n_ctx n_prompt)
    \<and> (0 \<le> b \<and> 0 < n_ctx \<and> n_ctx \<le> max n_prompt 0 \<longrightarrow> rb_fit_ctx b n_ctx n_prompt = 0)
    \<and> (0 \<le> b \<and> max n_prompt 0 < n_ctx \<longrightarrow>
        (0 < b \<longrightarrow> 0 < rb_fit_ctx b n_ctx n_prompt)
        \<and> max n_prompt 0 + rb_fit_ctx b n_ctx n_prompt + min 1024 ((n_ctx - max n_prompt 0) div 4) \<le> n_ctx
        \<and> (rb_fit_ctx b n_ctx n_prompt = b
           \<or> max n_prompt 0 + rb_fit_ctx b n_ctx n_prompt + min 1024 ((n_ctx - max n_prompt 0) div 4) = n_ctx))"
proof -
  define room where "room = n_ctx - max n_prompt 0"
  consider (kept) "b < 0 \<or> n_ctx \<le> 0" | (none) "0 \<le> b" "0 < n_ctx" "room \<le> 0" | (some) "0 \<le> b" "0 < n_ctx" "0 < room"
    by linarith
  then show ?thesis
  proof cases
    case kept
    moreover have "0 \<le> max n_prompt 0" by simp
    ultimately show ?thesis by (auto simp: rb_fit_ctx_def)
  next
    case none
    then have "rb_fit_ctx b n_ctx n_prompt = 0" unfolding rb_fit_ctx_def Let_def room_def[symmetric] by simp
    moreover have "\<not> max n_prompt 0 < n_ctx" using none by (simp add: room_def)
    ultimately show ?thesis using none by linarith
  next
    case some
    have r: "0 < room - min 1024 (room div 4)" using some by linarith
    have f: "rb_fit_ctx b n_ctx n_prompt = min b (room - min 1024 (room div 4))"
      using some unfolding rb_fit_ctx_def Let_def room_def[symmetric] by (simp add: min_def)
    have "\<not> n_ctx \<le> max n_prompt 0" "max n_prompt 0 = n_ctx - room" using some by (simp_all add: room_def)
    with some r show ?thesis unfolding f room_def[symmetric] by (simp add: min_def)
  qed
qed

theorem fit_ctx_leaves_reserve_witness:
  "3000 + rb_fit_ctx 128000 4096 3000 + 274 \<le> 4096"
  using fit_ctx_leaves_reserve[of 128000 4096 3000] by simp

end
