(* ===== verification/MtpChain.thy ===== *)
theory MtpChain
  imports Prelude Complex_Main
begin

section \<open>One sequence's draft chain (common/pxa-mtp-batch-slots.h, common/pxa-mtp-kvpos.h)\<close>

text \<open>
  The pieces of multi-token-prediction drafting that are pure data in the code: where rows live in the
  companion's K/V cache, when a step of several slots may be decoded as one batch, and the chain of one
  sequence with its begin, sample and stop rules.  Positions and token ids are \<open>int\<close> (\<open>-1\<close> for none);
  a probability is the exact value of the code's \<open>float\<close>, a rational; NaN is not modelled.
\<close>

subsection \<open>Positions\<close>

definition commit_pos :: "int \<Rightarrow> int \<Rightarrow> int" where
  "commit_pos pos_base i = pos_base + 1 + i"

definition commit_pos0 :: "int \<Rightarrow> int" where
  "commit_pos0 pos_base = commit_pos pos_base 0"

definition draft_region_pos0 :: "int \<Rightarrow> int" where
  "draft_region_pos0 n_past = n_past + 1"

definition draft_pos :: "int \<Rightarrow> int \<Rightarrow> int" where
  "draft_pos n_past i = n_past + i"

subsection \<open>When a step may be regrouped\<close>

text \<open>The unsigned counts are naturals; the casts of \<open>n_reqs\<close> and \<open>max_seq_id\<close> are of values already
  known to be non-negative.\<close>

definition batch_slots_applicable :: "int \<Rightarrow> nat \<Rightarrow> nat \<Rightarrow> int \<Rightarrow> bool" where
  "batch_slots_applicable n_reqs n_seq_max n_ubatch max_seq_id =
     (if n_reqs < 2 then False
      else if n_seq_max \<le> 1 then False
      else if max_seq_id < 0 \<or> nat max_seq_id \<ge> n_seq_max then False
      else if nat n_reqs > n_seq_max then False
      else if n_ubatch \<noteq> 0 \<and> nat n_reqs > n_ubatch then False
      else True)"

datatype step_decision = STEP_BATCH | STEP_SERIAL

record slot_state =
  ss_seq_id :: int
  ss_n_past :: int
  ss_companion_pos_max :: int
  ss_have_target_hidden :: bool
  ss_n_draft :: int

definition slot_is_warm :: "slot_state \<Rightarrow> bool" where
  "slot_is_warm s \<longleftrightarrow> ss_companion_pos_max s \<ge> ss_n_past s - 1"

definition slot_can_draft :: "slot_state \<Rightarrow> bool" where
  "slot_can_draft s \<longleftrightarrow> ss_have_target_hidden s \<and> ss_n_draft s > 0"

text \<open>The loop over the slots, with the index and the count so far; the result is the decision, the
  number of slots that can be batched and the cold slot.\<close>

fun step_scan :: "slot_state list \<Rightarrow> int \<Rightarrow> int \<Rightarrow> step_decision \<times> int \<times> int" where
  "step_scan [] i n = ((if n \<ge> 2 then STEP_BATCH else STEP_SERIAL), n, -1)"
| "step_scan (s # ss) i n =
     (if \<not> slot_is_warm s then (STEP_SERIAL, 0, i)
      else step_scan ss (i + 1) (if slot_can_draft s then n + 1 else n))"

definition slots_step_decision :: "slot_state list \<Rightarrow> step_decision \<times> int \<times> int" where
  "slots_step_decision slots = step_scan slots 0 0"

subsection \<open>The chain\<close>

datatype draft_step_action = STEP_STOP | STEP_KEEP

record draft_chain =
  dc_seq_id :: int
  dc_n_draft :: int
  dc_p_min :: rat
  dc_have_prob :: bool
  dc_constant_positions :: bool
  dc_n_past :: int
  dc_i :: int
  dc_cur_id :: int
  dc_cur_pos :: int
  dc_n_decode :: int
  dc_stop :: int
  dc_active :: bool
  dc_pending_id :: int
  dc_drafts :: "int list"

definition new_chain :: draft_chain where
  "new_chain = \<lparr>dc_seq_id = -1, dc_n_draft = 0, dc_p_min = 0, dc_have_prob = False, dc_constant_positions = False,
     dc_n_past = 0, dc_i = 0, dc_cur_id = -1, dc_cur_pos = 0, dc_n_decode = 0, dc_stop = 2, dc_active = False,
     dc_pending_id = -1, dc_drafts = []\<rparr>"

definition chain_begin ::
  "int \<Rightarrow> int \<Rightarrow> rat \<Rightarrow> bool \<Rightarrow> int \<Rightarrow> int \<Rightarrow> bool \<Rightarrow> int \<Rightarrow> rat \<Rightarrow> bool \<Rightarrow> draft_chain \<Rightarrow> draft_chain \<times> bool" where
  "chain_begin seq n p hp past id_last has_cached cached_id cached_prob const c =
     (let c = c\<lparr>dc_seq_id := seq, dc_n_draft := n, dc_p_min := p, dc_have_prob := hp, dc_constant_positions := const,
                dc_n_past := past, dc_n_decode := 0, dc_stop := 2, dc_drafts := []\<rparr>
      in if n \<le> 0 then (c\<lparr>dc_active := False\<rparr>, False)
         else let c = c\<lparr>dc_cur_id := id_last, dc_cur_pos := past, dc_i := 0\<rparr>;
                  c = (if has_cached then
                         (let c = (if cached_prob < p then c\<lparr>dc_n_draft := 1, dc_stop := 0\<rparr> else c)
                          in c\<lparr>dc_cur_id := cached_id, dc_drafts := [cached_id], dc_cur_pos := past + 1, dc_i := 1\<rparr>)
                       else c)
              in (c\<lparr>dc_active := True\<rparr>, True))"

definition wants_step :: "draft_chain \<Rightarrow> bool" where
  "wants_step c \<longleftrightarrow> dc_active c \<and> dc_i c < dc_n_draft c"

definition step_pos :: "draft_chain \<Rightarrow> int" where
  "step_pos c = (if dc_constant_positions c then dc_n_past c else dc_cur_pos c)"

definition needs_pre_purge :: "draft_chain \<Rightarrow> bool" where
  "needs_pre_purge c \<longleftrightarrow> dc_active c \<and> dc_i c = 0 \<and> \<not> dc_constant_positions c"

definition on_step_issued :: "draft_chain \<Rightarrow> draft_chain" where
  "on_step_issued c = c\<lparr>dc_n_decode := dc_n_decode c + 1\<rparr>"

definition on_sample :: "int \<Rightarrow> rat \<Rightarrow> draft_chain \<Rightarrow> draft_chain \<times> draft_step_action" where
  "on_sample id_next prob c =
     (if dc_i c > 0 \<and> dc_have_prob c \<and> prob < dc_p_min c then (c\<lparr>dc_stop := 1, dc_active := False\<rparr>, STEP_STOP)
      else (c\<lparr>dc_drafts := dc_drafts c @ [id_next], dc_pending_id := id_next\<rparr>, STEP_KEEP))"

definition on_hidden :: "rat \<Rightarrow> draft_chain \<Rightarrow> draft_chain" where
  "on_hidden prob c =
     (let c = c\<lparr>dc_cur_id := dc_pending_id c, dc_cur_pos := dc_cur_pos c + 1, dc_i := dc_i c + 1\<rparr>
      in if dc_have_prob c \<and> prob < dc_p_min c then c\<lparr>dc_stop := 1, dc_active := False\<rparr>
         else if dc_i c \<ge> dc_n_draft c then c\<lparr>dc_active := False\<rparr> else c)"

definition on_fail :: "draft_chain \<Rightarrow> draft_chain" where
  "on_fail c = c\<lparr>dc_stop := 3, dc_active := False\<rparr>"

definition needs_purge :: "draft_chain \<Rightarrow> bool" where
  "needs_purge c \<longleftrightarrow> dc_n_decode c > 0"

definition purge_p0 :: "draft_chain \<Rightarrow> int" where
  "purge_p0 c = draft_region_pos0 (dc_n_past c)"

definition purge_p1 :: "draft_chain \<Rightarrow> int" where
  "purge_p1 c = dc_n_past c + dc_n_decode c + 2"

text \<open>The two thresholds are the values of \<open>0.55f\<close> and \<open>0.40f\<close>.\<close>

definition adaptive_k_depth :: "rat \<Rightarrow> int \<Rightarrow> int" where
  "adaptive_k_depth ema n_draft =
     (if n_draft \<le> 1 then n_draft
      else if ema \<ge> 9227469 / 2 ^ 24 then n_draft
      else if ema \<ge> 13421773 / 2 ^ 25 then (if n_draft < 2 then n_draft else 2)
      else 1)"

subsection \<open>First-token gate and streak (common/pxa-mtp-first-gate.h, common/pxa-mtp-streak.h)\<close>

definition first_gate_drop :: "bool \<Rightarrow> rat \<Rightarrow> bool \<Rightarrow> rat \<Rightarrow> bool \<Rightarrow> bool \<Rightarrow> bool" where
  "first_gate_drop armed p_min has_prob p sampled exact_on =
     (if \<not> armed \<or> \<not> p_min > 0 \<or> \<not> has_prob then False
      else if sampled \<and> \<not> exact_on then False
      else p < p_min)"

record streak_cfg =
  sk_on :: bool
  sk_cap :: int
  sk_floor :: rat
  sk_deep :: int

definition streak_depth :: "streak_cfg \<Rightarrow> int \<Rightarrow> bool \<Rightarrow> int" where
  "streak_depth c n_draft prev_full =
     (if \<not> sk_on c \<or> n_draft \<le> sk_deep c then n_draft
      else if prev_full then (if n_draft < sk_cap c then n_draft else sk_cap c) else sk_deep c)"

definition streak_full :: "streak_cfg \<Rightarrow> int \<Rightarrow> int \<Rightarrow> bool" where
  "streak_full c n_drafted n_accepted \<longleftrightarrow> sk_on c \<and> n_drafted \<ge> sk_deep c \<and> n_accepted \<ge> n_drafted"

definition streak_stop :: "streak_cfg \<Rightarrow> int \<Rightarrow> rat \<Rightarrow> bool" where
  "streak_stop c i cum \<longleftrightarrow> sk_on c \<and> i \<ge> sk_deep c \<and> cum < sk_floor c"

text \<open>The configuration of an unset variable.\<close>

definition streak_off :: streak_cfg where
  "streak_off = \<lparr>sk_on = False, sk_cap = 7, sk_floor = 1 / 4, sk_deep = 5\<rparr>"

end
