(* ===== verification/MtpDraft.thy ===== *)
theory MtpDraft
  imports MtpChain
begin

section \<open>The two draft schedulers and the commit (common/speculative.cpp)\<close>

text \<open>
  \<open>gen_draft\<close> is \<open>mtp_speculative_gen_draft\<close>, the chain of one sequence with one-row decodes;
  \<open>draft_batched\<close> is \<open>common_speculative_draft_batched\<close>, which puts one row per sequence into each
  decode.  The drafter's state is \<open>mtp_state\<close>: per sequence the stored target hidden row, the cached
  token of the last commit and the companion's K/V rows in the order they were written.  The companion
  network is the parameter \<open>net\<close>: from the rows a sequence holds and the row fed in, the argmax token,
  its probability over the top candidates and over the whole vocabulary, and the hidden row, which may
  be missing; \<open>None\<close> is a failed decode.  A batch is decoded causally, each row seeing the rows of its
  own sequence only.  Drafts are the argmax drafts (no sampled proposals, no guard); the products of
  probabilities are the configuration's \<open>mc_mul\<close>, the code's rounded multiplication.
\<close>

subsection \<open>Configuration and state\<close>

record mtp_cfg =
  mc_batch_slots :: bool
  mc_n_seq_max :: nat
  mc_n_ubatch :: nat
  mc_multi_row :: bool
  mc_constant :: bool
  mc_cap_pts :: "(int \<times> int) list"
  mc_adaptive_k :: bool
  mc_deep_on :: bool
  mc_deep_base :: int
  mc_deep_pmin :: rat
  mc_deep_thr :: rat
  mc_streak :: streak_cfg
  mc_first_gate :: bool
  mc_spec_exact :: bool
  mc_cut_floor :: "int \<Rightarrow> rat"
  mc_mul :: "rat \<Rightarrow> rat \<Rightarrow> rat"
  mc_stats :: bool
  mc_zero_output :: bool

record 'h last_embd =
  le_embd :: 'h
  le_prob :: rat
  le_last_id :: int

record 'h mrow =
  mr_tok :: int
  mr_pos :: int
  mr_hid :: 'h

record 'h mout =
  mo_id :: int
  mo_gate_prob :: rat
  mo_full_prob :: rat
  mo_emb :: "'h option"

type_synonym 'h net = "'h mrow list \<Rightarrow> 'h mrow \<Rightarrow> 'h mout option"
type_synonym 'h kv = "int \<Rightarrow> 'h mrow list"

record 'h mtp_state =
  ms_ak_ema :: rat
  ms_ak_drafted :: nat
  ms_streak_full :: bool
  ms_target_hidden :: "int \<Rightarrow> 'h option"
  ms_last :: "int \<Rightarrow> 'h last_embd"
  ms_kv :: "'h kv"

subsection \<open>The companion context\<close>

fun companion_decode :: "'h net \<Rightarrow> (int \<times> 'h mrow) list \<Rightarrow> 'h kv \<Rightarrow> ('h kv \<times> 'h mout list) option" where
  "companion_decode net [] kv = Some (kv, [])"
| "companion_decode net ((s, r) # rows) kv =
     (case net (kv s) r of
        None \<Rightarrow> None
      | Some out \<Rightarrow> (case companion_decode net rows (kv(s := kv s @ [r])) of
            None \<Rightarrow> None | Some (kv', outs) \<Rightarrow> Some (kv', out # outs)))"

definition mtp_pos_max :: "'h mrow list \<Rightarrow> int" where
  "mtp_pos_max rows = foldl max 0 (map mr_pos rows)"

definition rows_rm :: "int \<Rightarrow> int \<Rightarrow> 'h mrow list \<Rightarrow> 'h mrow list" where
  "rows_rm p0 p1 rows = [r \<leftarrow> rows. \<not> (max p0 0 \<le> mr_pos r \<and> (p1 < 0 \<or> mr_pos r < p1))]"

definition mtp_seq_rm :: "int \<Rightarrow> int \<Rightarrow> int \<Rightarrow> 'h kv \<Rightarrow> 'h kv" where
  "mtp_seq_rm s p0 p1 kv = kv(s := rows_rm p0 p1 (kv s))"

definition invalidate_cached :: "int \<Rightarrow> 'h mtp_state \<Rightarrow> 'h mtp_state" where
  "invalidate_cached s st = st\<lparr>ms_last := (ms_last st)(s := (ms_last st s)\<lparr>le_last_id := -1, le_prob := 0\<rparr>)\<rparr>"

subsection \<open>The depth of a chain\<close>

fun cap_scan :: "(int \<times> int) list \<Rightarrow> int \<Rightarrow> int \<Rightarrow> int" where
  "cap_scan [] n_past cap = cap"
| "cap_scan ((d, n) # ps) n_past cap = (if d > n_past then cap else cap_scan ps n_past n)"

definition depth_nmax_cap :: "mtp_cfg \<Rightarrow> int \<Rightarrow> int" where
  "depth_nmax_cap cfg n_past = cap_scan (mc_cap_pts cfg) n_past 2147483647"

definition deep_apply :: "mtp_cfg \<Rightarrow> rat \<Rightarrow> int \<Rightarrow> rat \<Rightarrow> int \<times> rat" where
  "deep_apply cfg ema n p =
     (if \<not> mc_deep_on cfg then (n, p)
      else if ema \<ge> mc_deep_thr cfg then (n, min p (mc_deep_pmin cfg))
      else (min n (mc_deep_base cfg), p))"

definition ak_track :: "mtp_cfg \<Rightarrow> bool" where
  "ak_track cfg \<longleftrightarrow> mc_adaptive_k cfg \<or> mc_deep_on cfg \<or> sk_on (mc_streak cfg)"

text \<open>The serial drafter writes the adaptive ladder out.\<close>

definition serial_depth :: "mtp_cfg \<Rightarrow> 'h mtp_state \<Rightarrow> int \<Rightarrow> int \<Rightarrow> rat \<Rightarrow> int \<times> rat" where
  "serial_depth cfg st n_past n_draft p_min =
     (let n = min n_draft (depth_nmax_cap cfg n_past);
          ema = ms_ak_ema st;
          n = (if mc_adaptive_k cfg \<and> n > 1 then
                 (if ema \<ge> 9227469 / 2 ^ 24 then n else if ema \<ge> 13421773 / 2 ^ 25 then min n 2 else 1)
               else n);
          (n, p) = (if mc_deep_on cfg then deep_apply cfg ema n p_min else (n, p_min));
          n = (if sk_on (mc_streak cfg) then streak_depth (mc_streak cfg) n (ms_streak_full st \<and> p > 0) else n)
      in (n, p))"

definition batched_depth :: "mtp_cfg \<Rightarrow> 'h mtp_state \<Rightarrow> int \<Rightarrow> int \<Rightarrow> rat \<Rightarrow> int \<times> rat" where
  "batched_depth cfg st n_past n_max p_min =
     (let n = min n_max (depth_nmax_cap cfg n_past);
          n = (if mc_adaptive_k cfg \<and> n > 1 then adaptive_k_depth (ms_ak_ema st) n else n);
          (n, p) = (if mc_deep_on cfg then deep_apply cfg (ms_ak_ema st) n p_min else (n, p_min));
          n = (if sk_on (mc_streak cfg) then streak_depth (mc_streak cfg) n False else n)
      in (n, p))"

subsection \<open>The serial drafter\<close>

record 'h draft_loop =
  dl_i :: int
  dl_cur_id :: int
  dl_n_past :: int
  dl_hid :: 'h
  dl_drafts :: "int list"
  dl_n_decode :: int
  dl_stop :: int
  dl_cut_cum :: rat
  dl_streak_cum :: rat
  dl_embd :: 'h
  dl_kv :: "'h kv"

text \<open>One iteration of the loop; the flag says whether the loop goes on.\<close>

definition draft_iter ::
  "mtp_cfg \<Rightarrow> 'h net \<Rightarrow> int \<Rightarrow> int \<Rightarrow> rat \<Rightarrow> bool \<Rightarrow> 'h draft_loop \<Rightarrow> 'h draft_loop \<times> bool" where
  "draft_iter cfg net kv_seq n_past p_min have_prob d =
     (let row = \<lparr>mr_tok = dl_cur_id d, mr_pos = (if mc_constant cfg then n_past else dl_n_past d), mr_hid = dl_hid d\<rparr>;
          d = d\<lparr>dl_n_decode := dl_n_decode d + 1\<rparr>;
          cut = mc_cut_floor cfg n_past; sk = mc_streak cfg
      in case companion_decode net [(kv_seq, row)] (dl_kv d) of
           None \<Rightarrow> (d\<lparr>dl_stop := 3\<rparr>, False)
         | Some (kv, outs) \<Rightarrow>
             let out = hd outs; prob = mo_gate_prob out; id_next = mo_id out; d = d\<lparr>dl_kv := kv\<rparr> in
             if dl_i d > 0 \<and> have_prob \<and> prob < p_min then (d\<lparr>dl_stop := 1\<rparr>, False)
             else if dl_i d = 0 \<and> \<not> mc_constant cfg \<and>
                     first_gate_drop (mc_first_gate cfg) p_min have_prob prob False (mc_spec_exact cfg)
               then (d\<lparr>dl_stop := 4\<rparr>, False)
             else let d = (if cut > 0 \<and> have_prob then d\<lparr>dl_cut_cum := mc_mul cfg (dl_cut_cum d) prob\<rparr> else d) in
             if cut > 0 \<and> have_prob \<and> dl_drafts d \<noteq> [] \<and> dl_cut_cum d < cut then (d\<lparr>dl_stop := 1\<rparr>, False)
             else let d = (if sk_on sk \<and> have_prob
                           then d\<lparr>dl_streak_cum := mc_mul cfg (dl_streak_cum d) (max 0 (min 1 prob))\<rparr> else d) in
             if sk_on sk \<and> have_prob \<and> streak_stop sk (dl_i d) (dl_streak_cum d) then (d\<lparr>dl_stop := 1\<rparr>, False)
             else let d = d\<lparr>dl_drafts := dl_drafts d @ [id_next]\<rparr> in
             case mo_emb out of
               None \<Rightarrow> (d\<lparr>dl_stop := 3\<rparr>, False)
             | Some emb \<Rightarrow>
                 let d = d\<lparr>dl_embd := emb, dl_hid := emb, dl_cur_id := id_next, dl_n_past := dl_n_past d + 1\<rparr> in
                 if have_prob \<and> prob < p_min then (d\<lparr>dl_stop := 1\<rparr>, False)
                 else (d\<lparr>dl_i := dl_i d + 1\<rparr>, True))"

fun draft_iters ::
  "mtp_cfg \<Rightarrow> 'h net \<Rightarrow> int \<Rightarrow> int \<Rightarrow> rat \<Rightarrow> bool \<Rightarrow> nat \<Rightarrow> 'h draft_loop \<Rightarrow> 'h draft_loop" where
  "draft_iters cfg net kv_seq n_past p_min have_prob 0 d = d"
| "draft_iters cfg net kv_seq n_past p_min have_prob (Suc k) d =
     (case draft_iter cfg net kv_seq n_past p_min have_prob d of
        (d', go) \<Rightarrow> if go then draft_iters cfg net kv_seq n_past p_min have_prob k d' else d')"

text \<open>Where the loop starts: from the cached token when there is one, else from the last token.  The
  result carries the depth the cached token's probability leaves.\<close>

definition draft_start ::
  "'h mtp_state \<Rightarrow> int \<Rightarrow> int \<Rightarrow> rat \<Rightarrow> int \<Rightarrow> int \<Rightarrow> 'h \<Rightarrow> 'h draft_loop \<times> int" where
  "draft_start st seq n_draft p_min id_last n_past hid =
     (let last = ms_last st seq;
          d = \<lparr>dl_i = 0, dl_cur_id = id_last, dl_n_past = n_past, dl_hid = hid, dl_drafts = [], dl_n_decode = 0,
               dl_stop = 2, dl_cut_cum = 1, dl_streak_cum = 1, dl_embd = le_embd last, dl_kv = ms_kv st\<rparr>
      in if le_last_id last \<ge> 0 then
           (let collapsed = le_prob last < p_min; cum = max 0 (min 1 (le_prob last)) in
            (d\<lparr>dl_stop := (if collapsed then 0 else 2), dl_cur_id := le_last_id last, dl_cut_cum := cum,
               dl_streak_cum := cum, dl_drafts := [le_last_id last], dl_n_past := n_past + 1,
               dl_hid := le_embd last, dl_i := 1\<rparr>,
             if collapsed then 1 else n_draft))
         else (d, n_draft))"

definition pre_purge :: "mtp_cfg \<Rightarrow> int \<Rightarrow> int \<Rightarrow> 'h draft_loop \<Rightarrow> 'h draft_loop" where
  "pre_purge cfg kv_seq n_past d =
     (if dl_i d = 0 \<and> \<not> mc_constant cfg \<and> mtp_pos_max (dl_kv d kv_seq) \<ge> n_past
      then d\<lparr>dl_kv := mtp_seq_rm kv_seq n_past (-1) (dl_kv d)\<rparr> else d)"

definition draft_finish :: "mtp_cfg \<Rightarrow> int \<Rightarrow> int \<Rightarrow> int \<Rightarrow> 'h draft_loop \<Rightarrow> 'h mtp_state \<Rightarrow> 'h mtp_state" where
  "draft_finish cfg seq kv_seq n_past d st =
     st\<lparr>ms_kv := (if dl_n_decode d > 0
                  then mtp_seq_rm kv_seq (draft_region_pos0 n_past) (n_past + dl_n_decode d + 2) (dl_kv d) else dl_kv d),
        ms_last := (ms_last st)(seq := (ms_last st seq)\<lparr>le_embd := dl_embd d,
                       le_last_id := (if le_last_id (ms_last st seq) \<ge> 0 then -1 else le_last_id (ms_last st seq))\<rparr>),
        ms_target_hidden := (if dl_stop d = 4 then (ms_target_hidden st)(seq := None) else ms_target_hidden st),
        ms_ak_drafted := (if ak_track cfg then length (dl_drafts d) else ms_ak_drafted st)\<rparr>"

definition gen_draft ::
  "mtp_cfg \<Rightarrow> 'h net \<Rightarrow> int \<Rightarrow> rat \<Rightarrow> int \<Rightarrow> int \<Rightarrow> int \<Rightarrow> 'h \<Rightarrow> 'h mtp_state \<Rightarrow> 'h mtp_state \<times> int list" where
  "gen_draft cfg net n_draft p_min id_last n_past seq hid st =
     (let kv_seq = (if mc_n_seq_max cfg \<le> 1 then 0 else seq) in
      if n_draft \<le> 0 then (invalidate_cached seq st, [])
      else
        let (n, p) = serial_depth cfg st n_past n_draft p_min;
            have_prob = (p > 0 \<or> mc_stats cfg \<or> mc_cut_floor cfg n_past > 0);
            last = ms_last st seq in
        if le_last_id last \<ge> 0 \<and> \<not> mc_constant cfg \<and>
           first_gate_drop (mc_first_gate cfg) p True (le_prob last) False (mc_spec_exact cfg)
        then (st\<lparr>ms_last := (ms_last st)(seq := last\<lparr>le_last_id := -1\<rparr>),
                 ms_target_hidden := (ms_target_hidden st)(seq := None),
                 ms_ak_drafted := (if ak_track cfg then 0 else ms_ak_drafted st)\<rparr>, [])
        else
          let (d, n') = draft_start st seq n p id_last n_past hid;
              d = pre_purge cfg kv_seq n_past d;
              d = draft_iters cfg net kv_seq n_past p have_prob (nat (n' - dl_i d)) d
          in (draft_finish cfg seq kv_seq n_past d st, dl_drafts d))"

text \<open>The drafter of the stage, for a caller that knows the position it drafts from or not.\<close>

record mtp_req =
  rq_seq :: int
  rq_n_max :: int
  rq_n_min :: int
  rq_p_min :: rat
  rq_base_pos :: int
  rq_id_last :: int
  rq_prompt_len :: int

definition mtp_draft :: "mtp_cfg \<Rightarrow> 'h net \<Rightarrow> mtp_req \<Rightarrow> 'h mtp_state \<Rightarrow> 'h mtp_state \<times> int list" where
  "mtp_draft cfg net r st =
     (let kv_seq = (if mc_n_seq_max cfg \<le> 1 then 0 else rq_seq r);
          pmax = mtp_pos_max (ms_kv st kv_seq);
          n_past = (if rq_base_pos r \<ge> 0 then rq_base_pos r
                    else if pmax \<ge> 0 then pmax + 1 else rq_prompt_len r)
      in case ms_target_hidden st (rq_seq r) of
           None \<Rightarrow> (st, [])
         | Some h \<Rightarrow> gen_draft cfg net (rq_n_max r) (rq_p_min r) (rq_id_last r) n_past (rq_seq r) h st)"

fun draft_serially :: "mtp_cfg \<Rightarrow> 'h net \<Rightarrow> mtp_req list \<Rightarrow> 'h mtp_state \<Rightarrow> 'h mtp_state \<times> int list list" where
  "draft_serially cfg net [] st = (st, [])"
| "draft_serially cfg net (r # rs) st =
     (case mtp_draft cfg net r st of (st', ds) \<Rightarrow>
        case draft_serially cfg net rs st' of (st'', dss) \<Rightarrow> (st'', ds # dss))"

subsection \<open>The batched drafter\<close>

record 'h prepared =
  pc_chain :: draft_chain
  pc_req :: nat
  pc_hid :: 'h
  pc_n_min :: int

definition scout :: "mtp_cfg \<Rightarrow> 'h mtp_state \<Rightarrow> mtp_req \<Rightarrow> slot_state \<times> rat" where
  "scout cfg st r =
     (let (n, p) = batched_depth cfg st (rq_base_pos r) (rq_n_max r) (rq_p_min r)
      in (\<lparr>ss_seq_id = rq_seq r, ss_n_past = rq_base_pos r,
           ss_companion_pos_max = mtp_pos_max (ms_kv st (rq_seq r)),
           ss_have_target_hidden = (ms_target_hidden st (rq_seq r) \<noteq> None), ss_n_draft = n\<rparr>, p))"

text \<open>The commit pass: a chain for every slot that can draft; a resolved depth of zero drops the cached
  token.\<close>

definition prepare_req ::
  "mtp_cfg \<Rightarrow> nat \<Rightarrow> mtp_req \<Rightarrow> slot_state \<times> rat \<Rightarrow> 'h mtp_state \<times> 'h prepared list \<Rightarrow> 'h mtp_state \<times> 'h prepared list" where
  "prepare_req cfg ri r sc acc =
     (case acc of (st, lanes) \<Rightarrow> case sc of (s, p) \<Rightarrow>
        if \<not> slot_can_draft s then
          (if ss_have_target_hidden s then (invalidate_cached (rq_seq r) st, lanes) else (st, lanes))
        else
          let le = ms_last st (rq_seq r);
              has_cached = le_last_id le \<ge> 0;
              st' = (if has_cached then st\<lparr>ms_last := (ms_last st)(rq_seq r := le\<lparr>le_last_id := -1\<rparr>)\<rparr> else st);
              (c, ok) = chain_begin (rq_seq r) (ss_n_draft s) p (p > 0 \<or> mc_stats cfg) (rq_base_pos r) (rq_id_last r)
                          has_cached (le_last_id le) (le_prob le) False new_chain
          in if \<not> ok then (invalidate_cached (rq_seq r) st', lanes)
             else (st', lanes @ [\<lparr>pc_chain = c, pc_req = ri,
                     pc_hid = (if has_cached then le_embd le else the (ms_target_hidden st (rq_seq r))),
                     pc_n_min = rq_n_min r\<rparr>]))"

fun prepare_all ::
  "mtp_cfg \<Rightarrow> nat \<Rightarrow> (mtp_req \<times> (slot_state \<times> rat)) list \<Rightarrow> 'h mtp_state \<times> 'h prepared list \<Rightarrow> 'h mtp_state \<times> 'h prepared list" where
  "prepare_all cfg ri [] acc = acc"
| "prepare_all cfg ri ((r, sc) # rs) acc = prepare_all cfg (Suc ri) rs (prepare_req cfg ri r sc acc)"

definition batch_pre_purge :: "'h prepared list \<Rightarrow> 'h kv \<Rightarrow> 'h kv" where
  "batch_pre_purge lanes kv =
     foldl (\<lambda>kv pc. let c = pc_chain pc in
              if needs_pre_purge c \<and> mtp_pos_max (kv (dc_seq_id c)) \<ge> dc_n_past c
              then mtp_seq_rm (dc_seq_id c) (dc_n_past c) (-1) kv else kv) kv lanes"

definition chain_row :: "'h prepared \<Rightarrow> int \<times> 'h mrow" where
  "chain_row pc = (let c = pc_chain pc in
     (dc_seq_id c, \<lparr>mr_tok = dc_cur_id c, mr_pos = step_pos c, mr_hid = pc_hid pc\<rparr>))"

text \<open>What one chain does with its row of the decode; its hidden row is read into the cache of its
  sequence.\<close>

definition chain_take :: "'h mout \<Rightarrow> 'h prepared \<times> (int \<Rightarrow> 'h last_embd) \<Rightarrow> 'h prepared \<times> (int \<Rightarrow> 'h last_embd)" where
  "chain_take out acc =
     (case acc of (pc, mem) \<Rightarrow>
        let prob = (if dc_have_prob (pc_chain pc) then mo_full_prob out else 0) in
        case on_sample (mo_id out) prob (pc_chain pc) of
          (c, STEP_STOP) \<Rightarrow> (pc\<lparr>pc_chain := c\<rparr>, mem)
        | (c, STEP_KEEP) \<Rightarrow>
            (case mo_emb out of
               None \<Rightarrow> (pc\<lparr>pc_chain := on_fail c\<rparr>, mem)
             | Some emb \<Rightarrow> (pc\<lparr>pc_chain := on_hidden prob c, pc_hid := emb\<rparr>,
                 mem(dc_seq_id c := (mem (dc_seq_id c))\<lparr>le_embd := emb\<rparr>))))"

definition issue :: "'h prepared \<Rightarrow> 'h prepared" where
  "issue pc = pc\<lparr>pc_chain := on_step_issued (pc_chain pc)\<rparr>"

fun batch_take ::
  "'h prepared list \<Rightarrow> 'h mout list \<Rightarrow> (int \<Rightarrow> 'h last_embd) \<Rightarrow> 'h prepared list \<times> (int \<Rightarrow> 'h last_embd)" where
  "batch_take [] outs mem = ([], mem)"
| "batch_take (pc # pcs) outs mem =
     (if \<not> wants_step (pc_chain pc) then
        (case batch_take pcs outs mem of (pcs', mem') \<Rightarrow> (pc # pcs', mem'))
      else case outs of
        [] \<Rightarrow> (pc # pcs, mem)
      | out # outs' \<Rightarrow>
          (case chain_take out (issue pc, mem) of (pc', mem') \<Rightarrow>
             case batch_take pcs outs' mem' of (pcs', mem'') \<Rightarrow> (pc' # pcs', mem'')))"

type_synonym 'h batch_st = "'h prepared list \<times> 'h kv \<times> (int \<Rightarrow> 'h last_embd)"

definition batch_rows :: "'h prepared list \<Rightarrow> (int \<times> 'h mrow) list" where
  "batch_rows lanes = map chain_row (filter (\<lambda>pc. wants_step (pc_chain pc)) lanes)"

definition chain_left :: "'h prepared \<Rightarrow> nat" where
  "chain_left pc = (let c = pc_chain pc in if wants_step c then nat (dc_n_draft c - dc_i c) else 0)"

lemma chain_take_left:
  assumes "wants_step (pc_chain pc)" "chain_take out (issue pc, mem) = (pc', mem')"
  shows "chain_left pc' < chain_left pc"
  using assms
  by (auto simp: chain_take_def chain_left_def issue_def on_sample_def on_hidden_def on_fail_def on_step_issued_def
      wants_step_def Let_def split: if_splits option.splits)

lemma batch_take_left_le:
  "sum_list (map chain_left (fst (batch_take pcs outs mem))) \<le> sum_list (map chain_left pcs)"
proof (induction pcs outs mem rule: batch_take.induct)
  case (2 pc pcs outs mem)
  show ?case
  proof (cases "wants_step (pc_chain pc)")
    case False
    with 2(1) show ?thesis by (auto split: prod.splits)
  next
    case True
    show ?thesis
    proof (cases outs)
      case (Cons out os)
      obtain pc' mem' where t: "chain_take out (issue pc, mem) = (pc', mem')" by fastforce
      with chain_take_left[OF True t] True Cons 2(2)[OF _ Cons t[symmetric]] show ?thesis
        by (auto split: prod.splits)
    qed (use True in simp)
  qed
qed simp

lemma batch_take_left:
  assumes "batch_rows pcs \<noteq> []" "outs \<noteq> []"
  shows "sum_list (map chain_left (fst (batch_take pcs outs mem))) < sum_list (map chain_left pcs)"
  using assms
proof (induction pcs outs mem rule: batch_take.induct)
  case (2 pc pcs outs mem)
  show ?case
  proof (cases "wants_step (pc_chain pc)")
    case False
    with 2(1,3,4) show ?thesis by (auto simp: batch_rows_def split: prod.splits)
  next
    case True
    with 2(4) obtain out os where o: "outs = out # os" by (cases outs) auto
    obtain pc' mem' where t: "chain_take out (issue pc, mem) = (pc', mem')" by fastforce
    have "sum_list (map chain_left (fst (batch_take pcs os mem'))) \<le> sum_list (map chain_left pcs)"
      by (rule batch_take_left_le)
    with chain_take_left[OF True t] True o t show ?thesis by (auto split: prod.splits)
  qed
qed (simp add: batch_rows_def)

lemma companion_decode_outs: "companion_decode net rows kv = Some (kv', outs) \<Longrightarrow> length outs = length rows"
  by (induction net rows kv arbitrary: kv' outs rule: companion_decode.induct) (auto split: option.splits)

text \<open>The step loop: one decode per step with a row for every chain that still wants one.\<close>

function batch_loop :: "'h net \<Rightarrow> 'h batch_st \<Rightarrow> 'h batch_st" where
  "batch_loop net (lanes, kv, mem) =
     (if batch_rows lanes = [] then (lanes, kv, mem)
      else case companion_decode net (batch_rows lanes) kv of
             None \<Rightarrow> (map (\<lambda>pc. if wants_step (pc_chain pc) then (issue pc)\<lparr>pc_chain := on_fail (pc_chain (issue pc))\<rparr> else pc) lanes, kv, mem)
           | Some (kv', outs) \<Rightarrow> (case batch_take lanes outs mem of (lanes', mem') \<Rightarrow> batch_loop net (lanes', kv', mem')))"
  by pat_completeness auto

termination
proof (relation "measure (\<lambda>(net, lanes, kv, mem). sum_list (map chain_left lanes))", simp, goal_cases)
  case (1 net lanes kv mem x kv' outs lanes' mem')
  have "companion_decode net (batch_rows lanes) kv = Some (kv', outs)" using 1(2,3) by simp
  from companion_decode_outs[OF this] 1(1) have "outs \<noteq> []" by (cases outs) auto
  moreover have "lanes' = fst (batch_take lanes outs mem)" by (simp add: 1(4)[symmetric])
  ultimately show ?case using batch_take_left[OF 1(1)] by simp
qed

declare batch_loop.simps [simp del]

text \<open>The tail of one chain; short drafts are dropped.\<close>

definition batch_tail ::
  "mtp_cfg \<Rightarrow> 'h prepared \<Rightarrow> 'h mtp_state \<times> int list list \<Rightarrow> 'h mtp_state \<times> int list list" where
  "batch_tail cfg pc acc =
     (case acc of (st, results) \<Rightarrow>
        let c = pc_chain pc;
            kv = (if needs_purge c then mtp_seq_rm (dc_seq_id c) (purge_p0 c) (purge_p1 c) (ms_kv st) else ms_kv st);
            st = st\<lparr>ms_kv := kv, ms_ak_drafted := (if ak_track cfg then length (dc_drafts c) else ms_ak_drafted st)\<rparr>;
            r = dc_drafts c;
            r = (if r \<noteq> [] \<and> pc_n_min pc > 0 \<and> int (length r) < pc_n_min pc then [] else r)
        in (st, results[pc_req pc := r]))"

definition batch_applies :: "mtp_cfg \<Rightarrow> mtp_req list \<Rightarrow> bool" where
  "batch_applies cfg reqs \<longleftrightarrow>
     mc_batch_slots cfg \<and> length reqs \<ge> 2 \<and> \<not> mc_constant cfg \<and> (\<forall>r \<in> set reqs. rq_base_pos r \<ge> 0)
     \<and> batch_slots_applicable (int (length reqs)) (mc_n_seq_max cfg) (mc_n_ubatch cfg)
         (foldl max (-1) (map rq_seq reqs))
     \<and> mc_multi_row cfg"

text \<open>\<open>None\<close> hands the step back to the serial drafter.\<close>

definition draft_batched :: "mtp_cfg \<Rightarrow> 'h net \<Rightarrow> mtp_req list \<Rightarrow> 'h mtp_state \<Rightarrow> ('h mtp_state \<times> int list list) option" where
  "draft_batched cfg net reqs st =
     (if \<not> batch_applies cfg reqs then None
      else let scouted = map (scout cfg st) reqs in
        if fst (slots_step_decision (map fst scouted)) \<noteq> STEP_BATCH then None
        else case prepare_all cfg 0 (zip reqs scouted) (st, []) of (st, lanes) \<Rightarrow>
          let results = replicate (length reqs) [] in
          if lanes = [] then Some (st, results)
          else case batch_loop net (lanes, batch_pre_purge lanes (ms_kv st), ms_last st) of (lanes, kv, mem) \<Rightarrow>
            Some (foldl (\<lambda>acc pc. batch_tail cfg pc acc) (st\<lparr>ms_kv := kv, ms_last := mem\<rparr>, results) lanes))"

subsection \<open>Committing accepted tokens\<close>

text \<open>A request with the hidden rows of the accepted tokens, one per token when the widths agree.\<close>

record 'h commit_req =
  cq_seq :: int
  cq_pos_base :: int
  cq_ids :: "int list"
  cq_rows :: "'h list"

definition commit_rows :: "'h commit_req \<Rightarrow> 'h mrow list" where
  "commit_rows q = map (\<lambda>(i, t, h). \<lparr>mr_tok = t, mr_pos = commit_pos (cq_pos_base q) (int i), mr_hid = h\<rparr>)
     (zip [0..<length (cq_ids q)] (zip (cq_ids q) (cq_rows q)))"

definition commit_clean :: "int \<Rightarrow> int \<Rightarrow> 'h kv \<Rightarrow> 'h kv" where
  "commit_clean s start_pos kv = (if mtp_pos_max (kv s) \<ge> start_pos then mtp_seq_rm s start_pos (-1) kv else kv)"

text \<open>\<open>mtp_accept_batch\<close> with \<open>mtp_update_kv_cache\<close>; the flag is the return code being zero.\<close>

definition accept_batch :: "mtp_cfg \<Rightarrow> 'h net \<Rightarrow> int \<Rightarrow> 'h mrow list \<Rightarrow> 'h mtp_state \<Rightarrow> 'h mtp_state \<times> bool" where
  "accept_batch cfg net seq rows st =
     (if rows = [] then (st, True)
      else let kv_seq = (if mc_n_seq_max cfg \<le> 1 then 0 else seq);
               kv = commit_clean kv_seq (mr_pos (hd rows)) (ms_kv st) in
        case companion_decode net (map (\<lambda>r. (kv_seq, r)) rows) kv of
          None \<Rightarrow> (st\<lparr>ms_kv := kv\<rparr>, False)
        | Some (kv', outs) \<Rightarrow>
            let st = st\<lparr>ms_kv := kv'\<rparr>; le = ms_last st seq; out = List.last outs in
            if mc_zero_output cfg then (st\<lparr>ms_last := (ms_last st)(seq := le\<lparr>le_last_id := -1\<rparr>)\<rparr>, True)
            else (case mo_emb out of
                    None \<Rightarrow> (st, True)
                  | Some emb \<Rightarrow> (st\<lparr>ms_last := (ms_last st)(seq := \<lparr>le_embd = emb, le_prob = mo_gate_prob out, le_last_id = mo_id out\<rparr>)\<rparr>, True)))"

definition commit_one :: "mtp_cfg \<Rightarrow> 'h net \<Rightarrow> 'h commit_req \<Rightarrow> 'h mtp_state \<Rightarrow> 'h mtp_state \<times> bool" where
  "commit_one cfg net q st =
     (if cq_ids q = [] then (st, True)
      else if length (cq_rows q) \<noteq> length (cq_ids q) then (st, False)
      else let st = st\<lparr>ms_target_hidden := (ms_target_hidden st)(cq_seq q \<mapsto> List.last (cq_rows q))\<rparr> in
        if mc_constant cfg then (invalidate_cached (cq_seq q) st, True)
        else accept_batch cfg net (cq_seq q) (commit_rows q) st)"

definition commit_ok :: "'h commit_req \<Rightarrow> bool" where
  "commit_ok q \<longleftrightarrow> length (cq_rows q) = length (cq_ids q)"

definition commit_read :: "mtp_cfg \<Rightarrow> 'h commit_req \<Rightarrow> 'h mout \<Rightarrow> 'h mtp_state \<times> int list \<Rightarrow> 'h mtp_state \<times> int list" where
  "commit_read cfg q out acc =
     (case acc of (st, failed) \<Rightarrow>
        let s = cq_seq q; le = ms_last st s in
        if mc_zero_output cfg then (st\<lparr>ms_last := (ms_last st)(s := le\<lparr>le_last_id := -1\<rparr>)\<rparr>, failed)
        else (case mo_emb out of
                None \<Rightarrow> (st, failed @ [s])
              | Some emb \<Rightarrow> (st\<lparr>ms_last := (ms_last st)(s := \<lparr>le_embd = emb, le_prob = mo_gate_prob out, le_last_id = mo_id out\<rparr>)\<rparr>, failed)))"

fun commit_reads :: "mtp_cfg \<Rightarrow> 'h commit_req list \<Rightarrow> 'h mout list \<Rightarrow> 'h mtp_state \<times> int list \<Rightarrow> 'h mtp_state \<times> int list" where
  "commit_reads cfg [] outs acc = acc"
| "commit_reads cfg (q # qs) outs acc =
     (let n = length (cq_ids q)
      in commit_reads cfg qs (drop n outs) (commit_read cfg q (outs ! (n - 1)) acc))"

definition commit_batched :: "mtp_cfg \<Rightarrow> 'h net \<Rightarrow> 'h commit_req list \<Rightarrow> 'h mtp_state \<Rightarrow> 'h mtp_state \<times> int list" where
  "commit_batched cfg net reqs st =
     (let live = filter (\<lambda>q. cq_ids q \<noteq> []) reqs;
          failed = map cq_seq (filter (\<lambda>q. \<not> commit_ok q) live);
          prepared = filter commit_ok live in
      if prepared = [] then (st, failed)
      else let kv = foldl (\<lambda>kv q. commit_clean (cq_seq q) (commit_pos0 (cq_pos_base q)) kv) (ms_kv st) prepared;
               rows = concat (map (\<lambda>q. map (\<lambda>r. (cq_seq q, r)) (commit_rows q)) prepared) in
        case companion_decode net rows kv of
          None \<Rightarrow> (st\<lparr>ms_kv := kv\<rparr>, failed @ map cq_seq prepared)
        | Some (kv', outs) \<Rightarrow> commit_reads cfg prepared outs (st\<lparr>ms_kv := kv'\<rparr>, failed))"

fun commit_serially :: "mtp_cfg \<Rightarrow> 'h net \<Rightarrow> 'h commit_req list \<Rightarrow> 'h mtp_state \<Rightarrow> 'h mtp_state \<times> int list" where
  "commit_serially cfg net [] st = (st, [])"
| "commit_serially cfg net (q # qs) st =
     (case commit_one cfg net q st of (st', ok) \<Rightarrow>
        case commit_serially cfg net qs st' of (st'', failed) \<Rightarrow> (st'', if ok then failed else cq_seq q # failed))"

subsection \<open>Warming up, capturing and forgetting\<close>

text \<open>The target's decode of a prompt batch, tokens with their positions and one hidden row each; a model
  with recurrent conditioning is fed the rows shifted by one.  The row in front is looked up in the
  stored hidden rows after the batch's last row was stored there.\<close>

definition conditioned_rows :: "bool \<Rightarrow> 'h \<Rightarrow> 'h option \<Rightarrow> 'h list \<Rightarrow> 'h list" where
  "conditioned_rows shifted zero stored hids =
     (if shifted then (case stored of Some h \<Rightarrow> h | None \<Rightarrow> zero) # butlast hids else hids)"

definition prompt_warm ::
  "mtp_cfg \<Rightarrow> 'h net \<Rightarrow> bool \<Rightarrow> 'h \<Rightarrow> int \<Rightarrow> (int \<times> int) list \<Rightarrow> 'h list \<Rightarrow> 'h mtp_state \<Rightarrow> 'h mtp_state \<times> bool" where
  "prompt_warm cfg net shifted zero seq batch hids st =
     (if batch = [] then (st, True)
      else if length hids \<noteq> length batch then (st, False)
      else let st = st\<lparr>ms_target_hidden := (ms_target_hidden st)(seq \<mapsto> List.last hids)\<rparr> in
        if mc_constant cfg then (invalidate_cached seq st, True)
        else let fed = conditioned_rows shifted zero (ms_target_hidden st seq) hids;
                 kv_seq = (if mc_n_seq_max cfg \<le> 1 then 0 else seq);
                 kv = commit_clean kv_seq (snd (hd batch)) (ms_kv st);
                 rows = map2 (\<lambda>(t, p) h. \<lparr>mr_tok = t, mr_pos = p, mr_hid = h\<rparr>) batch fed in
          case companion_decode net (map (\<lambda>r. (kv_seq, r)) rows) kv of
            None \<Rightarrow> (invalidate_cached seq (st\<lparr>ms_kv := kv\<rparr>), False)
          | Some (kv', outs) \<Rightarrow> (invalidate_cached seq (st\<lparr>ms_kv := kv'\<rparr>), True))"

text \<open>A captured row replaces the stored one; a stale or cleared sequence has none.  An erased cache
  entry reads as the empty one.\<close>

definition capture_hidden :: "int \<Rightarrow> 'h \<Rightarrow> 'h mtp_state \<Rightarrow> 'h mtp_state" where
  "capture_hidden seq h st = invalidate_cached seq (st\<lparr>ms_target_hidden := (ms_target_hidden st)(seq \<mapsto> h)\<rparr>)"

definition ensure_hidden :: "int \<Rightarrow> 'h option \<Rightarrow> 'h mtp_state \<Rightarrow> 'h mtp_state \<times> bool" where
  "ensure_hidden seq row st =
     (if ms_target_hidden st seq \<noteq> None then (st, True)
      else case row of None \<Rightarrow> (st, False) | Some h \<Rightarrow> (capture_hidden seq h st, True))"

definition mark_hidden_stale :: "int \<Rightarrow> 'h mtp_state \<Rightarrow> 'h mtp_state" where
  "mark_hidden_stale seq st = invalidate_cached seq (st\<lparr>ms_target_hidden := (ms_target_hidden st)(seq := None)\<rparr>)"

definition clear_hidden :: "'h \<Rightarrow> int \<Rightarrow> 'h mtp_state \<Rightarrow> 'h mtp_state" where
  "clear_hidden zero seq st =
     st\<lparr>ms_target_hidden := (ms_target_hidden st)(seq := None),
        ms_last := (ms_last st)(seq := \<lparr>le_embd = zero, le_prob = 0, le_last_id = -1\<rparr>)\<rparr>"

subsection \<open>What the target accepted\<close>

text \<open>The running average is kept exactly; its weights are the values of \<open>0.85f\<close> and \<open>0.15f\<close>.\<close>

definition accept_ema :: "rat \<Rightarrow> rat \<Rightarrow> rat" where
  "accept_ema ema f = 14260634 / 2 ^ 24 * ema + 10066330 / 2 ^ 26 * min 1 f"

definition mtp_accept :: "mtp_cfg \<Rightarrow> nat option \<Rightarrow> nat \<Rightarrow> 'h mtp_state \<Rightarrow> 'h mtp_state" where
  "mtp_accept cfg n_verified n_accepted st =
     (let n = spec_n_tested (ms_ak_drafted st) n_verified in
      if ak_track cfg \<and> n > 0 then
        let f = (if mc_deep_on cfg
                 then of_int (min (int n_accepted) (mc_deep_base cfg)) / of_int (min (int n) (mc_deep_base cfg))
                 else of_nat n_accepted / of_nat n)
        in st\<lparr>ms_ak_ema := accept_ema (ms_ak_ema st) f,
              ms_streak_full := streak_full (mc_streak cfg) (int n) (int n_accepted), ms_ak_drafted := 0\<rparr>
      else st\<lparr>ms_streak_full := False\<rparr>)"

text \<open>Once a verdict is folded in, the next one of the same step moves nothing but the streak: the drafter's
  one counter was cleared.\<close>

lemma second_accept_lost:
  "ak_track cfg \<Longrightarrow> 0 < spec_n_tested (ms_ak_drafted st) v \<Longrightarrow>
     mtp_accept cfg v' k' (mtp_accept cfg v k st) = (mtp_accept cfg v k st)\<lparr>ms_streak_full := False\<rparr>"
  by (simp add: mtp_accept_def spec_n_tested_def Let_def split: option.splits)

end
