(* ===== verification/MtpLane.thy ===== *)
theory MtpLane
  imports MtpDraft
begin

section \<open>A batched step is one step of every lane\<close>

text \<open>
  A lane is one chain with the rows of its own sequence and its cached hidden row.  When the sequences
  of a batch are distinct and its decode succeeds, the decode advances every lane as if it were alone;
  the loop of the serial drafter is the same lane advanced until it stops.
\<close>

type_synonym 'h lane = "'h prepared \<times> 'h mrow list \<times> 'h"

definition pc_seq :: "'h prepared \<Rightarrow> int" where
  "pc_seq pc = dc_seq_id (pc_chain pc)"

definition lane_next :: "'h mout \<Rightarrow> 'h prepared \<times> 'h \<Rightarrow> 'h prepared \<times> 'h" where
  "lane_next out x =
     (case x of (pc, e) \<Rightarrow>
        let prob = (if dc_have_prob (pc_chain pc) then mo_full_prob out else 0) in
        case on_sample (mo_id out) prob (pc_chain pc) of
          (c, STEP_STOP) \<Rightarrow> (pc\<lparr>pc_chain := c\<rparr>, e)
        | (c, STEP_KEEP) \<Rightarrow>
            (case mo_emb out of
               None \<Rightarrow> (pc\<lparr>pc_chain := on_fail c\<rparr>, e)
             | Some emb \<Rightarrow> (pc\<lparr>pc_chain := on_hidden prob c, pc_hid := emb\<rparr>, emb)))"

definition lane_step :: "'h net \<Rightarrow> 'h lane \<Rightarrow> 'h lane" where
  "lane_step net x =
     (case x of (pc, rows, e) \<Rightarrow>
        if wants_step (pc_chain pc) then
          (let r = snd (chain_row pc) in
           case lane_next (the (net rows r)) (issue pc, e) of (pc', e') \<Rightarrow> (pc', rows @ [r], e'))
        else x)"

definition lane_wants :: "'h lane \<Rightarrow> bool" where
  "lane_wants x = wants_step (pc_chain (fst x))"

lemma lane_step_stop [simp]: "\<not> lane_wants x \<Longrightarrow> lane_step net x = x"
  by (cases x) (simp add: lane_wants_def lane_step_def)

lemma lane_steps_stop: "\<not> lane_wants x \<Longrightarrow> (lane_step net ^^ n) x = x"
  by (induction n) simp_all

lemma lane_steps_unique:
  assumes "\<not> lane_wants ((lane_step net ^^ m) x)" "\<not> lane_wants ((lane_step net ^^ n) x)"
  shows "(lane_step net ^^ m) x = (lane_step net ^^ n) x"
proof -
  have *: "(lane_step net ^^ b) x = (lane_step net ^^ a) x" if "a \<le> b" "\<not> lane_wants ((lane_step net ^^ a) x)" for a b
  proof -
    have "(lane_step net ^^ b) x = (lane_step net ^^ (b - a)) ((lane_step net ^^ a) x)"
      using that(1) by (simp flip: funpow_add comp_apply[of "lane_step net ^^ _"])
    with lane_steps_stop[OF that(2)] show ?thesis by simp
  qed
  show ?thesis using *[of m n] *[of n m] assms by (cases "m \<le> n") auto
qed

lemma on_sample_seq: "on_sample i p c = (c', a) \<Longrightarrow> dc_seq_id c' = dc_seq_id c"
  by (auto simp: on_sample_def split: if_splits)

lemma on_hidden_frame [simp]: "dc_seq_id (on_hidden p c) = dc_seq_id c"
  by (simp add: on_hidden_def Let_def)

lemma on_fail_frame [simp]: "dc_seq_id (on_fail c) = dc_seq_id c"
  by (simp add: on_fail_def)

lemma issue_seq [simp]: "pc_seq (issue pc) = pc_seq pc"
  by (simp add: pc_seq_def issue_def on_step_issued_def)

lemma lane_next_seq: "lane_next out (pc, e) = (pc', e') \<Longrightarrow> pc_seq pc' = pc_seq pc"
  by (auto simp: lane_next_def pc_seq_def Let_def dest!: on_sample_seq split: prod.splits draft_step_action.splits option.splits)

lemma lane_step_seq [simp]: "pc_seq (fst (lane_step net x)) = pc_seq (fst x)"
proof -
  obtain pc rows e where x: "x = (pc, rows, e)" by (cases x)
  obtain pc' e' where n: "lane_next (the (net rows (snd (chain_row pc)))) (issue pc, e) = (pc', e')" by fastforce
  show ?thesis using lane_next_seq[OF n] by (simp add: x lane_step_def n Let_def)
qed

lemma lane_steps_seq [simp]: "pc_seq (fst ((lane_step net ^^ n) x)) = pc_seq (fst x)"
  by (induction n) simp_all

lemma chain_take_lane:
  "chain_take out (pc, mem) =
     (case lane_next out (pc, le_embd (mem (pc_seq pc))) of (pc', e') \<Rightarrow>
        (pc', mem(pc_seq pc := (mem (pc_seq pc))\<lparr>le_embd := e'\<rparr>)))"
  by (auto simp: fun_upd_triv chain_take_def lane_next_def pc_seq_def Let_def dest!: on_sample_seq split: prod.splits draft_step_action.splits option.splits)

subsection \<open>Decoding rows of distinct sequences\<close>

lemma companion_decode_distinct:
  assumes "\<And>rows r. net rows r \<noteq> None" "distinct (map fst rs)"
  shows "companion_decode net rs kv =
    Some (\<lambda>s. kv s @ map snd (filter (\<lambda>x. fst x = s) rs), map (\<lambda>(s, r). the (net (kv s) r)) rs)"
  using assms(2)
proof (induction rs arbitrary: kv)
  case (Cons x rs)
  obtain s r where x: "x = (s, r)" by fastforce
  obtain out where o: "net (kv s) r = Some out" using assms(1) by (metis option.exhaust)
  have s: "s \<notin> fst ` set rs" using Cons.prems x by simp
  then have "map (\<lambda>(t, r'). the (net ((kv(s := kv s @ [r])) t) r')) rs = map (\<lambda>(t, r'). the (net (kv t) r')) rs"
    by (force intro!: map_cong)
  moreover have "filter (\<lambda>y. fst y = s) rs = []" using s by (auto simp: filter_empty_conv)
  ultimately show ?case using Cons o by (auto simp: x fun_eq_iff)
qed simp

definition lane_of :: "'h kv \<Rightarrow> (int \<Rightarrow> 'h last_embd) \<Rightarrow> 'h prepared \<Rightarrow> 'h lane" where
  "lane_of kv mem pc = (pc, kv (pc_seq pc), le_embd (mem (pc_seq pc)))"

definition lanes_after :: "'h net \<Rightarrow> nat \<Rightarrow> 'h batch_st \<Rightarrow> 'h batch_st \<Rightarrow> bool" where
  "lanes_after net n a b \<longleftrightarrow>
     (case a of (lanes, kv, mem) \<Rightarrow> case b of (lanes', kv', mem') \<Rightarrow>
        lanes' = map (\<lambda>pc. fst ((lane_step net ^^ n) (lane_of kv mem pc))) lanes
        \<and> (\<forall>pc \<in> set lanes. kv' (pc_seq pc) = fst (snd ((lane_step net ^^ n) (lane_of kv mem pc)))
             \<and> mem' (pc_seq pc) = (mem (pc_seq pc))\<lparr>le_embd := snd (snd ((lane_step net ^^ n) (lane_of kv mem pc)))\<rparr>)
        \<and> (\<forall>s. s \<notin> pc_seq ` set lanes \<longrightarrow> kv' s = kv s \<and> mem' s = mem s))"

lemma embd_same [simp]: "le\<lparr>le_embd := le_embd le\<rparr> = le"
  by (cases le) simp

lemma lane_of_other [simp]: "pc_seq pc \<noteq> s \<Longrightarrow> lane_of kv (mem(s := x)) pc = lane_of kv mem pc"
  by (simp add: lane_of_def)

lemma batch_take_lanes:
  assumes "distinct (map pc_seq lanes)"
    and "outs = map (\<lambda>pc. the (net (kv (pc_seq pc)) (snd (chain_row pc)))) (filter (\<lambda>pc. wants_step (pc_chain pc)) lanes)"
    and "batch_take lanes outs mem = (lanes', mem')"
  shows "lanes' = map (\<lambda>pc. fst (lane_step net (lane_of kv mem pc))) lanes"
    and "\<forall>pc \<in> set lanes. mem' (pc_seq pc) = (mem (pc_seq pc))\<lparr>le_embd := snd (snd (lane_step net (lane_of kv mem pc)))\<rparr>"
    and "\<forall>s. s \<notin> pc_seq ` set lanes \<longrightarrow> mem' s = mem s"
proof -
  let ?P = "\<lambda>lanes mem lanes' mem'. lanes' = map (\<lambda>pc. fst (lane_step net (lane_of kv mem pc))) lanes
    \<and> (\<forall>pc \<in> set lanes. mem' (pc_seq pc) = (mem (pc_seq pc))\<lparr>le_embd := snd (snd (lane_step net (lane_of kv mem pc)))\<rparr>)
    \<and> (\<forall>s. s \<notin> pc_seq ` set lanes \<longrightarrow> mem' s = mem s)"
  have "?P lanes mem lanes' mem'"
    using assms
  proof (induction lanes arbitrary: outs mem lanes' mem')
    case (Cons pc pcs)
    let ?s = "pc_seq pc"
    have dist: "distinct (map pc_seq pcs)" and other: "\<And>q. q \<in> set pcs \<Longrightarrow> pc_seq q \<noteq> ?s"
      using Cons.prems(1) by (auto simp: image_iff)
    show ?case
    proof (cases "wants_step (pc_chain pc)")
      case False
      obtain l m where b: "batch_take pcs outs mem = (l, m)" by fastforce
      have "?P pcs mem l m" using Cons.IH[OF dist _ b] Cons.prems(2) False by simp
      moreover have "lanes' = pc # l" "mem' = m" using Cons.prems(3) False b by simp_all
      moreover have "lane_step net (lane_of kv mem pc) = lane_of kv mem pc"
        using False by (intro lane_step_stop) (simp add: lane_wants_def lane_of_def)
      moreover have "m ?s = mem ?s" using calculation(1) other by (metis imageE)
      ultimately show ?thesis by (auto simp: lane_of_def)
    next
      case True
      let ?out = "the (net (kv ?s) (snd (chain_row pc)))"
      obtain pc' e' where n: "lane_next ?out (issue pc, le_embd (mem ?s)) = (pc', e')" by fastforce
      let ?mem = "mem(?s := (mem ?s)\<lparr>le_embd := e'\<rparr>)"
      have t: "chain_take ?out (issue pc, mem) = (pc', ?mem)"
        by (simp add: chain_take_lane n)
      let ?os = "map (\<lambda>pc. the (net (kv (pc_seq pc)) (snd (chain_row pc)))) (filter (\<lambda>pc. wants_step (pc_chain pc)) pcs)"
      obtain l m where b: "batch_take pcs ?os ?mem = (l, m)" by fastforce
      have P: "?P pcs ?mem l m" using Cons.IH[OF dist refl b] .
      have o: "outs = ?out # ?os" using Cons.prems(2) True by simp
      have "batch_take (pc # pcs) outs mem = (pc' # l, m)" using True by (simp add: o t b)
      then have r: "lanes' = pc' # l" "mem' = m" using Cons.prems(3) by simp_all
      have st: "lane_step net (lane_of kv mem pc) = (pc', kv ?s @ [snd (chain_row pc)], e')"
        using True by (simp add: lane_step_def lane_of_def n Let_def)
      have same: "lane_of kv ?mem q = lane_of kv mem q \<and> ?mem (pc_seq q) = mem (pc_seq q)" if "q \<in> set pcs" for q
        using other[OF that] by simp
      have l: "l = map (\<lambda>pc. fst (lane_step net (lane_of kv mem pc))) pcs"
        using P same by (auto intro: map_cong)
      have "?s \<notin> pc_seq ` set pcs" using other by (metis imageE)
      then have ms: "m ?s = (mem ?s)\<lparr>le_embd := e'\<rparr>" using P by simp
      have "m (pc_seq q) = (mem (pc_seq q))\<lparr>le_embd := snd (snd (lane_step net (lane_of kv mem q)))\<rparr>" if "q \<in> set pcs" for q
        using P same that by metis
      moreover have "m s = mem s" if "s \<notin> pc_seq ` set (pc # pcs)" for s
        using P that by simp
      ultimately show ?thesis using r st l ms by simp
    qed
  qed simp
  then show "lanes' = map (\<lambda>pc. fst (lane_step net (lane_of kv mem pc))) lanes"
    "\<forall>pc \<in> set lanes. mem' (pc_seq pc) = (mem (pc_seq pc))\<lparr>le_embd := snd (snd (lane_step net (lane_of kv mem pc)))\<rparr>"
    "\<forall>s. s \<notin> pc_seq ` set lanes \<longrightarrow> mem' s = mem s" by blast+
qed

lemma fst_chain_row [simp]: "fst (chain_row pc) = pc_seq pc"
  by (simp add: chain_row_def pc_seq_def Let_def)

lemma batch_rows_seqs: "distinct (map pc_seq lanes) \<Longrightarrow> distinct (map fst (batch_rows lanes))"
  by (induction lanes) (auto simp: batch_rows_def)

lemma batch_rows_of:
  assumes "distinct (map pc_seq lanes)"
  shows "pc \<in> set lanes \<Longrightarrow> filter (\<lambda>x. fst x = pc_seq pc) (batch_rows lanes) = (if wants_step (pc_chain pc) then [chain_row pc] else [])"
    and "s \<notin> pc_seq ` set lanes \<Longrightarrow> filter (\<lambda>x. fst x = s) (batch_rows lanes) = []"
proof -
  show none: "filter (\<lambda>x. fst x = s) (batch_rows lanes) = []" if "s \<notin> pc_seq ` set lanes" for s lanes
    using that by (induction lanes) (auto simp: batch_rows_def)
  show "filter (\<lambda>x. fst x = pc_seq pc) (batch_rows lanes) = (if wants_step (pc_chain pc) then [chain_row pc] else [])"
    if "pc \<in> set lanes"
    using assms that
  proof (induction lanes)
    case (Cons q qs)
    show ?case
    proof (cases "pc = q")
      case True
      with Cons.prems(1) none[of "pc_seq q" qs] show ?thesis by (simp add: batch_rows_def)
    next
      case False
      with Cons.prems have "pc_seq q \<noteq> pc_seq pc" "pc \<in> set qs" by auto
      with Cons show ?thesis by (simp add: batch_rows_def)
    qed
  qed simp
qed

text \<open>One iteration of the batched loop is one step of every lane.\<close>

lemma batch_iter_lanes:
  assumes tot: "\<And>rows r. net rows r \<noteq> None" and dist: "distinct (map pc_seq lanes)"
    and dec: "companion_decode net (batch_rows lanes) kv = Some (kv', outs)"
    and take: "batch_take lanes outs mem = (lanes', mem')"
  shows "lanes_after net 1 (lanes, kv, mem) (lanes', kv', mem')"
proof -
  note d = companion_decode_distinct[of net "batch_rows lanes" kv, OF tot batch_rows_seqs[OF dist]]
  have kv': "kv' = (\<lambda>s. kv s @ map snd (filter (\<lambda>x. fst x = s) (batch_rows lanes)))"
    and "outs = map (\<lambda>(s, r). the (net (kv s) r)) (batch_rows lanes)" using d dec by simp_all
  then have "outs = map (\<lambda>pc. the (net (kv (pc_seq pc)) (snd (chain_row pc)))) (filter (\<lambda>pc. wants_step (pc_chain pc)) lanes)"
    by (simp add: batch_rows_def case_prod_beta)
  note t = batch_take_lanes[OF dist this take]
  have "kv' (pc_seq pc) = fst (snd (lane_step net (lane_of kv mem pc)))" if "pc \<in> set lanes" for pc
    unfolding kv' batch_rows_of(1)[OF dist that] by (simp add: lane_step_def lane_of_def Let_def split: prod.splits)
  with t batch_rows_of(2)[OF dist] show ?thesis by (simp add: lanes_after_def kv')
qed

lemma lanes_after_step:
  assumes "lanes_after net 1 a b" "lanes_after net n b c"
  shows "lanes_after net (Suc n) a c"
proof -
  obtain l1 k1 m1 where a: "a = (l1, k1, m1)" by (cases a)
  obtain l2 k2 m2 where b: "b = (l2, k2, m2)" by (cases b)
  obtain l3 k3 m3 where c: "c = (l3, k3, m3)" by (cases c)
  note 1 = assms(1)[unfolded a b lanes_after_def, simplified]
  note 2 = assms(2)[unfolded b c lanes_after_def, simplified]
  let ?q = "\<lambda>pc. fst (lane_step net (lane_of k1 m1 pc))"
  have seq: "pc_seq (?q pc) = pc_seq pc" for pc by (simp add: lane_of_def)
  have step: "lane_of k2 m2 (?q pc) = lane_step net (lane_of k1 m1 pc)" if "pc \<in> set l1" for pc
  proof -
    obtain p r e where s: "lane_step net (lane_of k1 m1 pc) = (p, r, e)" by (cases "lane_step net (lane_of k1 m1 pc)")
    have "pc_seq p = pc_seq pc" using seq[of pc] s by simp
    with 1 that s show ?thesis by (simp add: lane_of_def)
  qed
  have l2: "l2 = map ?q l1" using 1 by simp
  have sq: "pc_seq ` set l2 = pc_seq ` set l1" unfolding l2 set_map image_image seq ..
  have "l3 = map (\<lambda>pc. fst ((lane_step net ^^ Suc n) (lane_of k1 m1 pc))) l1"
    using 2 step by (simp add: l2 funpow_swap1)
  moreover have "k3 (pc_seq pc) = fst (snd ((lane_step net ^^ Suc n) (lane_of k1 m1 pc)))
      \<and> m3 (pc_seq pc) = (m1 (pc_seq pc))\<lparr>le_embd := snd (snd ((lane_step net ^^ Suc n) (lane_of k1 m1 pc)))\<rparr>"
    if "pc \<in> set l1" for pc
  proof -
    have "?q pc \<in> set l2" using that l2 by simp
    with 2 have "k3 (pc_seq (?q pc)) = fst (snd ((lane_step net ^^ n) (lane_of k2 m2 (?q pc))))"
      "m3 (pc_seq (?q pc)) = (m2 (pc_seq (?q pc)))\<lparr>le_embd := snd (snd ((lane_step net ^^ n) (lane_of k2 m2 (?q pc))))\<rparr>"
      by blast+
    with step[OF that] seq[of pc] 1 that show ?thesis by (simp add: funpow_swap1)
  qed
  moreover have "k3 s = k1 s \<and> m3 s = m1 s" if "s \<notin> pc_seq ` set l1" for s
    using 1 2 that sq by auto
  ultimately show ?thesis by (simp add: a c lanes_after_def)
qed

lemma lanes_after_0: "lanes_after net 0 a a"
  by (cases a) (simp add: lanes_after_def lane_of_def)

text \<open>The batched loop advances every lane until it wants no step.\<close>

lemma batch_loop_lanes:
  assumes tot: "\<And>rows r. net rows r \<noteq> None" and "distinct (map pc_seq (fst a))"
  shows "\<exists>n. lanes_after net n a (batch_loop net a) \<and> (\<forall>pc \<in> set (fst (batch_loop net a)). \<not> wants_step (pc_chain pc))"
  using assms
proof (induction net a rule: batch_loop.induct)
  case (1 net lanes kv mem)
  show ?case
  proof (cases "batch_rows lanes = []")
    case True
    then have "batch_loop net (lanes, kv, mem) = (lanes, kv, mem)" by (simp add: batch_loop.simps)
    with True lanes_after_0[of net "(lanes, kv, mem)"] show ?thesis
      by (auto simp: batch_rows_def filter_empty_conv intro: exI[of _ 0])
  next
    case False
    have dist: "distinct (map pc_seq lanes)" using 1(3) by simp
    obtain kv' outs where d: "companion_decode net (batch_rows lanes) kv = Some (kv', outs)"
      using companion_decode_distinct[of net "batch_rows lanes" kv, OF 1(2) batch_rows_seqs[OF dist]] by blast
    obtain lanes' mem' where t: "batch_take lanes outs mem = (lanes', mem')" by fastforce
    have e: "batch_loop net (lanes, kv, mem) = batch_loop net (lanes', kv', mem')"
      using False d t by (simp add: batch_loop.simps[of net lanes])
    have one: "lanes_after net 1 (lanes, kv, mem) (lanes', kv', mem')"
      by (rule batch_iter_lanes[OF 1(2) dist d t])
    then have "map pc_seq lanes' = map pc_seq lanes" by (simp add: lanes_after_def lane_of_def)
    with 1(1)[OF False d refl t[symmetric] 1(2)] dist obtain n where
      "lanes_after net n (lanes', kv', mem') (batch_loop net (lanes', kv', mem'))"
      "\<forall>pc \<in> set (fst (batch_loop net (lanes', kv', mem'))). \<not> wants_step (pc_chain pc)" by auto
    with lanes_after_step[OF one] e show ?thesis by metis
  qed
qed

end
