(* ===== verification/MtpSched.thy ===== *)
theory MtpSched
  imports MtpLane
begin

section \<open>The serial loop is a lane\<close>

text \<open>
  With the gates the batched drafter does not have switched off, one iteration of the serial loop and one
  step of the lane of the same chain do the same, so both end with the same draft, the same number of
  decodes, the same stop code and the same rows.
\<close>

subsection \<open>One iteration\<close>

definition gates_off :: "mtp_cfg \<Rightarrow> int \<Rightarrow> bool" where
  "gates_off cfg n_past \<longleftrightarrow> \<not> mc_constant cfg \<and> \<not> mc_first_gate cfg \<and> mc_cut_floor cfg n_past \<le> 0 \<and> \<not> sk_on (mc_streak cfg)"

definition net_total :: "'h net \<Rightarrow> bool" where
  "net_total net \<longleftrightarrow> (\<forall>rows r. net rows r \<noteq> None)"

definition same_prob :: "'h net \<Rightarrow> bool" where
  "same_prob net \<longleftrightarrow> (\<forall>rows r out. net rows r = Some out \<longrightarrow> mo_full_prob out = mo_gate_prob out)"

definition same_out :: "'h kv \<Rightarrow> 'h draft_loop \<Rightarrow> 'h lane \<Rightarrow> bool" where
  "same_out kv d x \<longleftrightarrow> (case x of (pc, rows, e) \<Rightarrow> let c = pc_chain pc in
     dl_drafts d = dc_drafts c \<and> dl_n_decode d = dc_n_decode c \<and> dl_stop d = dc_stop c \<and> dl_embd d = e
     \<and> dl_kv d = kv(dc_seq_id c := rows))"

definition chain_like :: "draft_chain \<Rightarrow> draft_chain \<Rightarrow> bool" where
  "chain_like c c' \<longleftrightarrow> dc_seq_id c' = dc_seq_id c \<and> dc_p_min c' = dc_p_min c \<and> dc_have_prob c' = dc_have_prob c
     \<and> dc_constant_positions c' = dc_constant_positions c \<and> dc_n_draft c' = dc_n_draft c \<and> dc_n_past c' = dc_n_past c"

definition sim :: "'h kv \<Rightarrow> 'h draft_loop \<Rightarrow> 'h lane \<Rightarrow> bool" where
  "sim kv d x \<longleftrightarrow> (let c = pc_chain (fst x) in
     same_out kv d x \<and> dl_i d = dc_i c \<and> dl_cur_id d = dc_cur_id c \<and> dl_n_past d = dc_cur_pos c \<and> dl_hid d = pc_hid (fst x)
     \<and> \<not> dc_constant_positions c \<and> (lane_wants x \<longleftrightarrow> dc_i c < dc_n_draft c))"

text \<open>With the gates off, an iteration is the floor on a row past the first, the push and the floor after it.\<close>

definition kept :: "'h draft_loop \<Rightarrow> 'h kv \<Rightarrow> 'h mout \<Rightarrow> 'h draft_loop" where
  "kept d kv out = d\<lparr>dl_n_decode := dl_n_decode d + 1, dl_kv := kv, dl_drafts := dl_drafts d @ [mo_id out]\<rparr>"

definition moved :: "'h draft_loop \<Rightarrow> 'h mout \<Rightarrow> 'h \<Rightarrow> 'h draft_loop" where
  "moved d out emb = d\<lparr>dl_embd := emb, dl_hid := emb, dl_cur_id := mo_id out, dl_n_past := dl_n_past d + 1\<rparr>"

lemma draft_iter_off:
  assumes "gates_off cfg n_past"
    and "companion_decode net [(sq, \<lparr>mr_tok = dl_cur_id d, mr_pos = dl_n_past d, mr_hid = dl_hid d\<rparr>)] (dl_kv d) = Some (kv, [out])"
  shows "draft_iter cfg net sq n_past p hp d =
    (if dl_i d > 0 \<and> hp \<and> mo_gate_prob out < p then (d\<lparr>dl_n_decode := dl_n_decode d + 1, dl_kv := kv, dl_stop := 1\<rparr>, False)
     else case mo_emb out of None \<Rightarrow> ((kept d kv out)\<lparr>dl_stop := 3\<rparr>, False)
       | Some emb \<Rightarrow> if hp \<and> mo_gate_prob out < p then ((moved (kept d kv out) out emb)\<lparr>dl_stop := 1\<rparr>, False)
                     else ((moved (kept d kv out) out emb)\<lparr>dl_i := dl_i d + 1\<rparr>, True))"
proof -
  note off = assms(1)[unfolded gates_off_def]
  show ?thesis
    using assms(2) off
    by (cases "mo_emb out") (simp_all add: draft_iter_def Let_def first_gate_drop_def kept_def moved_def not_less cong: if_cong del: companion_decode.simps)
qed

lemma chain_like_trans: "chain_like a b \<Longrightarrow> chain_like b c \<Longrightarrow> chain_like a c"
  by (simp add: chain_like_def)

lemma iter_sim:
  assumes off: "gates_off cfg n_past" and tot: "net_total net" and prob: "dc_have_prob (pc_chain (fst x)) \<Longrightarrow> same_prob net"
    and s: "sim kv d x" and w: "lane_wants x"
    and p: "p = dc_p_min (pc_chain (fst x))" "hp = dc_have_prob (pc_chain (fst x))" "sq = dc_seq_id (pc_chain (fst x))"
    and it: "draft_iter cfg net sq n_past p hp d = (d', go)"
  shows "same_out kv d' (lane_step net x)" and "chain_like (pc_chain (fst x)) (pc_chain (fst (lane_step net x)))"
    and "go \<Longrightarrow> sim kv d' (lane_step net x)" and "\<not> go \<Longrightarrow> \<not> lane_wants (lane_step net x)"
proof -
  obtain pc rows e where x: "x = (pc, rows, e)" by (cases x)
  let ?c = "pc_chain pc" and ?r = "snd (chain_row pc)"
  obtain out where out: "net rows ?r = Some out" using tot by (auto simp: net_total_def)
  have row: "?r = \<lparr>mr_tok = dl_cur_id d, mr_pos = dl_n_past d, mr_hid = dl_hid d\<rparr>"
    using s by (simp add: sim_def x chain_row_def step_pos_def Let_def)
  have kv: "dl_kv d = kv(sq := rows)" using s p by (simp add: sim_def same_out_def x Let_def)
  have dec: "companion_decode net [(sq, ?r)] (dl_kv d) = Some (kv(sq := rows @ [?r]), [out])"
    using out kv by simp
  have wc: "wants_step ?c" using w by (simp add: lane_wants_def x)
  then have i: "dc_active ?c" "dc_i ?c < dc_n_draft ?c" by (simp_all add: wants_step_def)
  have pr: "hp \<longrightarrow> mo_full_prob out = mo_gate_prob out"
    using prob out p by (auto simp: same_prob_def x)
  have step: "lane_step net x = (case lane_next out (issue pc, e) of (pc', e') \<Rightarrow> (pc', rows @ [?r], e'))"
    using wc by (simp add: x lane_step_def out Let_def)
  have dec': "companion_decode net [(sq, \<lparr>mr_tok = dl_cur_id d, mr_pos = dl_n_past d, mr_hid = dl_hid d\<rparr>)] (dl_kv d)
      = Some (kv(sq := rows @ [?r]), [out])"
    unfolding row[symmetric] by (rule dec)
  note di = draft_iter_off[OF off dec', of p hp]
  have eqs: "dl_i d = dc_i ?c" "dl_drafts d = dc_drafts ?c" "dl_n_decode d = dc_n_decode ?c" "dl_stop d = dc_stop ?c"
    "dl_embd d = e" "dl_cur_id d = dc_cur_id ?c" "dl_n_past d = dc_cur_pos ?c" "\<not> dc_constant_positions ?c" "dl_hid d = pc_hid pc"
    using s by (simp_all add: sim_def same_out_def x Let_def)
  have ph: "hp = dc_have_prob ?c" "p = dc_p_min ?c" "sq = dc_seq_id ?c" using p x by simp_all
  let ?g = "mo_gate_prob out"
  consider (drop) "dc_i ?c > 0 \<and> hp \<and> ?g < p" | (dead) "\<not> (dc_i ?c > 0 \<and> hp \<and> ?g < p)" "mo_emb out = None"
    | (live) emb where "\<not> (dc_i ?c > 0 \<and> hp \<and> ?g < p)" "mo_emb out = Some emb" by fastforce
  then have all: "same_out kv d' (lane_step net x) \<and> chain_like ?c (pc_chain (fst (lane_step net x)))
     \<and> (go \<longrightarrow> sim kv d' (lane_step net x)) \<and> (\<not> go \<longrightarrow> \<not> lane_wants (lane_step net x))"
  proof cases
    case drop
    have d': "d' = d\<lparr>dl_n_decode := dl_n_decode d + 1, dl_kv := kv(sq := rows @ [?r]), dl_stop := 1\<rparr>" "\<not> go"
      using it drop eqs(1) unfolding di by (auto split: if_splits)
    have l: "lane_step net x = (pc\<lparr>pc_chain := (on_step_issued ?c)\<lparr>dc_stop := 1, dc_active := False\<rparr>\<rparr>, rows @ [?r], e)"
      using drop pr by (simp add: step lane_next_def issue_def on_sample_def on_step_issued_def ph Let_def)
    show ?thesis using d' eqs ph unfolding l
      by (simp add: same_out_def chain_like_def lane_wants_def wants_step_def on_step_issued_def)
  next
    case dead
    have d': "d' = (kept d (kv(sq := rows @ [?r])) out)\<lparr>dl_stop := 3\<rparr>" "\<not> go"
      using it dead eqs(1) unfolding di by auto
    have l: "lane_step net x = (pc\<lparr>pc_chain := on_fail ((on_step_issued ?c)\<lparr>dc_drafts := dc_drafts ?c @ [mo_id out], dc_pending_id := mo_id out\<rparr>)\<rparr>, rows @ [?r], e)"
      using dead pr by (auto simp add: step lane_next_def issue_def on_sample_def on_step_issued_def ph Let_def)
    show ?thesis using d' eqs ph unfolding l
      by (simp add: same_out_def chain_like_def lane_wants_def wants_step_def on_step_issued_def on_fail_def kept_def)
  next
    case live
    let ?d = "moved (kept d (kv(sq := rows @ [?r])) out) out emb"
    have d': "(d', go) = (if hp \<and> ?g < p then (?d\<lparr>dl_stop := 1\<rparr>, False) else (?d\<lparr>dl_i := dl_i d + 1\<rparr>, True))"
      using it live eqs(1) unfolding di by auto
    let ?c' = "on_hidden (if hp then ?g else 0) ((on_step_issued ?c)\<lparr>dc_drafts := dc_drafts ?c @ [mo_id out], dc_pending_id := mo_id out\<rparr>)"
    have l: "lane_step net x = (pc\<lparr>pc_chain := ?c', pc_hid := emb\<rparr>, rows @ [?r], emb)"
      using live pr by (auto simp add: step lane_next_def issue_def on_sample_def on_step_issued_def ph Let_def)
    show ?thesis
    proof (cases "hp \<and> ?g < p")
      case True
      with d' have "d' = ?d\<lparr>dl_stop := 1\<rparr>" "\<not> go" by simp_all
      then show ?thesis using True eqs ph unfolding l
        by (simp add: same_out_def chain_like_def lane_wants_def wants_step_def on_step_issued_def on_hidden_def kept_def moved_def Let_def)
    next
      case False
      with d' have "d' = ?d\<lparr>dl_i := dl_i d + 1\<rparr>" "go" by simp_all
      then show ?thesis using False eqs ph i unfolding l
        by (auto simp add: sim_def same_out_def chain_like_def lane_wants_def wants_step_def on_step_issued_def on_hidden_def kept_def moved_def Let_def)
    qed
  qed
  from all show "same_out kv d' (lane_step net x)" "chain_like (pc_chain (fst x)) (pc_chain (fst (lane_step net x)))"
    "go \<Longrightarrow> sim kv d' (lane_step net x)" "\<not> go \<Longrightarrow> \<not> lane_wants (lane_step net x)"
    by (simp_all add: x)
qed

lemma iters_sim:
  assumes "gates_off cfg n_past" "net_total net" "dc_have_prob (pc_chain (fst x)) \<Longrightarrow> same_prob net" "sim kv d x"
    and "p = dc_p_min (pc_chain (fst x))" "hp = dc_have_prob (pc_chain (fst x))" "sq = dc_seq_id (pc_chain (fst x))"
    and "k = nat (dc_n_draft (pc_chain (fst x)) - dc_i (pc_chain (fst x)))"
  shows "same_out kv (draft_iters cfg net sq n_past p hp k d) ((lane_step net ^^ k) x)
    \<and> chain_like (pc_chain (fst x)) (pc_chain (fst ((lane_step net ^^ k) x)))
    \<and> \<not> lane_wants ((lane_step net ^^ k) x)"
  using assms(3-)
proof (induction k arbitrary: d x)
  case 0
  then show ?case by (auto simp: sim_def Let_def chain_like_def)
next
  case (Suc k)
  let ?y = "lane_step net x"
  have w: "lane_wants x" using Suc.prems by (simp add: sim_def Let_def)
  obtain d' go where it: "draft_iter cfg net sq n_past p hp d = (d', go)" by fastforce
  note st = iter_sim[OF assms(1,2) Suc.prems(1,2) w Suc.prems(3-5) it]
  have cl: "chain_like (pc_chain (fst x)) (pc_chain (fst ?y))" by (rule st(2))
  show ?case
  proof (cases go)
    case False
    then have "(lane_step net ^^ k) ?y = ?y" using st(4) lane_steps_stop by blast
    with False it st(1,4) cl show ?thesis by (simp add: funpow_swap1)
  next
    case True
    then have s: "sim kv d' ?y" using st(3) by blast
    have i: "dc_i (pc_chain (fst ?y)) = dc_i (pc_chain (fst x)) + 1"
    proof -
      have "dl_i d' = dl_i d + 1" using it True
        by (auto simp: draft_iter_def Let_def split: option.splits prod.splits if_splits)
      then show ?thesis using s Suc.prems(2) by (simp add: sim_def Let_def)
    qed
    note c = cl[unfolded chain_like_def]
    have n: "dc_n_draft (pc_chain (fst ?y)) = dc_n_draft (pc_chain (fst x))"
      and h: "dc_have_prob (pc_chain (fst ?y)) = dc_have_prob (pc_chain (fst x))"
      and m: "dc_p_min (pc_chain (fst ?y)) = dc_p_min (pc_chain (fst x))"
      and sq: "dc_seq_id (pc_chain (fst ?y)) = dc_seq_id (pc_chain (fst x))" using c by blast+
    have q: "p = dc_p_min (pc_chain (fst ?y))" "hp = dc_have_prob (pc_chain (fst ?y))" "sq = dc_seq_id (pc_chain (fst ?y))"
      unfolding m h sq by (rule Suc.prems(3), rule Suc.prems(4), rule Suc.prems(5))
    have k: "k = nat (dc_n_draft (pc_chain (fst ?y)) - dc_i (pc_chain (fst ?y)))"
      unfolding n i using Suc.prems(6) by linarith
    have "dc_have_prob (pc_chain (fst ?y)) \<Longrightarrow> same_prob net" unfolding h by (rule Suc.prems(1))
    note IH = Suc.IH[OF this s q k]
    have e: "(lane_step net ^^ Suc k) x = (lane_step net ^^ k) ?y" by (simp add: funpow_swap1)
    have "draft_iters cfg net sq n_past p hp (Suc k) d = draft_iters cfg net sq n_past p hp k d'" using it True by simp
    then show ?thesis unfolding e
      using IH chain_like_trans[OF cl IH[THEN conjunct2, THEN conjunct1]] by (simp only: simp_thms)
  qed
qed

end
