(* ===== verification/MtpEquiv.thy ===== *)
theory MtpEquiv
  imports MtpSched
begin

section \<open>Both schedulers compute the same\<close>

text \<open>
  The outcome of one request alone, \<open>solo\<close>, is stated with the lane of its chain.  The serial
  drafter applies the outcomes one after the other; the batched one prepares all lanes, advances
  them together and then applies the same outcomes.
\<close>

subsection \<open>The outcome of one request\<close>

definition cfg_ok :: "mtp_cfg \<Rightarrow> bool" where
  "cfg_ok cfg \<longleftrightarrow> (\<forall>(d, n) \<in> set (mc_cap_pts cfg). 1 \<le> n) \<and> 1 \<le> mc_deep_base cfg"

lemma cap_pos: "cfg_ok cfg \<Longrightarrow> 1 \<le> depth_nmax_cap cfg n_past"
proof -
  have "1 \<le> cap_scan ps n cap" if "\<forall>(d, n) \<in> set ps. 1 \<le> n" "1 \<le> cap" for ps n cap
    using that by (induction ps n cap rule: cap_scan.induct) auto
  then show "cfg_ok cfg \<Longrightarrow> 1 \<le> depth_nmax_cap cfg n_past" by (simp add: cfg_ok_def depth_nmax_cap_def)
qed

text \<open>The two ladders agree, and a positive maximum leaves a positive depth.\<close>

lemma serial_depth_batched:
  "\<not> sk_on (mc_streak cfg) \<Longrightarrow> serial_depth cfg st n_past n p = batched_depth cfg st n_past n p"
proof -
  have "(if a \<and> m > 1 then (if ema \<ge> 9227469 / 2 ^ 24 then m else if ema \<ge> 13421773 / 2 ^ 25 then min m 2 else 1) else m)
      = (if a \<and> m > 1 then adaptive_k_depth ema m else m)" for a ema and m :: int
    by (simp add: adaptive_k_depth_def)
  then show "\<not> sk_on (mc_streak cfg) \<Longrightarrow> ?thesis"
    by (simp only: serial_depth_def batched_depth_def Let_def if_False)
qed

lemma batched_depth_pos:
  assumes "cfg_ok cfg" "\<not> sk_on (mc_streak cfg)"
  shows "0 < fst (batched_depth cfg st n_past n p) \<longleftrightarrow> 0 < n"
  using assms cap_pos[OF assms(1), of n_past]
  by (auto simp: batched_depth_def adaptive_k_depth_def deep_apply_def cfg_ok_def Let_def split: if_splits)

lemma batched_depth_p: "snd (batched_depth cfg st n_past n p) \<le> p"
  by (simp add: batched_depth_def deep_apply_def Let_def)

definition can_draft :: "mtp_cfg \<Rightarrow> 'h mtp_state \<Rightarrow> mtp_req \<Rightarrow> bool" where
  "can_draft cfg st r \<longleftrightarrow> slot_can_draft (fst (scout cfg st r))"

definition prep_of :: "mtp_cfg \<Rightarrow> 'h mtp_state \<Rightarrow> nat \<Rightarrow> mtp_req \<Rightarrow> 'h prepared" where
  "prep_of cfg st ri r =
     (let le = ms_last st (rq_seq r); has_cached = le_last_id le \<ge> 0;
          (n, p) = batched_depth cfg st (rq_base_pos r) (rq_n_max r) (rq_p_min r) in
      \<lparr>pc_chain = fst (chain_begin (rq_seq r) n p (p > 0 \<or> mc_stats cfg) (rq_base_pos r) (rq_id_last r)
                          has_cached (le_last_id le) (le_prob le) False new_chain),
       pc_req = ri,
       pc_hid = (if has_cached then le_embd le else the (ms_target_hidden st (rq_seq r))),
       pc_n_min = rq_n_min r\<rparr>)"

definition prep_last :: "mtp_cfg \<Rightarrow> 'h mtp_state \<Rightarrow> mtp_req \<Rightarrow> 'h last_embd" where
  "prep_last cfg st r =
     (let le = ms_last st (rq_seq r) in
      if can_draft cfg st r then (if le_last_id le \<ge> 0 then le\<lparr>le_last_id := -1\<rparr> else le)
      else if ms_target_hidden st (rq_seq r) \<noteq> None then le\<lparr>le_last_id := -1, le_prob := 0\<rparr> else le)"

definition purge_before :: "'h prepared \<Rightarrow> 'h mrow list \<Rightarrow> 'h mrow list" where
  "purge_before pc rows = (let c = pc_chain pc in
     if needs_pre_purge c \<and> mtp_pos_max rows \<ge> dc_n_past c then rows_rm (dc_n_past c) (-1) rows else rows)"

definition purge_after :: "'h prepared \<Rightarrow> 'h mrow list \<Rightarrow> 'h mrow list" where
  "purge_after pc rows = (let c = pc_chain pc in
     if needs_purge c then rows_rm (purge_p0 c) (purge_p1 c) rows else rows)"

definition lane_begin :: "mtp_cfg \<Rightarrow> 'h mtp_state \<Rightarrow> nat \<Rightarrow> mtp_req \<Rightarrow> 'h lane" where
  "lane_begin cfg st ri r =
     (let pc = prep_of cfg st ri r in (pc, purge_before pc (ms_kv st (rq_seq r)), le_embd (ms_last st (rq_seq r))))"

definition lane_end :: "'h net \<Rightarrow> 'h lane \<Rightarrow> 'h lane" where
  "lane_end net x = (lane_step net ^^ nat (dc_n_draft (pc_chain (fst x)) - dc_i (pc_chain (fst x)))) x"

type_synonym 'h outcome = "'h mrow list \<times> 'h last_embd \<times> int list \<times> nat option"

definition solo :: "mtp_cfg \<Rightarrow> 'h net \<Rightarrow> 'h mtp_state \<Rightarrow> nat \<Rightarrow> mtp_req \<Rightarrow> 'h outcome" where
  "solo cfg net st ri r =
     (if can_draft cfg st r then
        (case lane_end net (lane_begin cfg st ri r) of (pc, rows, e) \<Rightarrow>
           (purge_after pc rows, (prep_last cfg st r)\<lparr>le_embd := e\<rparr>, dc_drafts (pc_chain pc), Some (length (dc_drafts (pc_chain pc)))))
      else (ms_kv st (rq_seq r), prep_last cfg st r, [], None))"

definition apply_outcome :: "mtp_cfg \<Rightarrow> mtp_req \<Rightarrow> 'h outcome \<Rightarrow> 'h mtp_state \<Rightarrow> 'h mtp_state" where
  "apply_outcome cfg r x st =
     (case x of (rows, le, ds, n) \<Rightarrow>
        st\<lparr>ms_kv := (ms_kv st)(rq_seq r := rows), ms_last := (ms_last st)(rq_seq r := le),
           ms_ak_drafted := (case n of None \<Rightarrow> ms_ak_drafted st | Some k \<Rightarrow> if ak_track cfg then k else ms_ak_drafted st)\<rparr>)"

lemma solo_local:
  assumes "ms_ak_ema st' = ms_ak_ema st" "ms_target_hidden st' (rq_seq r) = ms_target_hidden st (rq_seq r)"
    "ms_last st' (rq_seq r) = ms_last st (rq_seq r)" "ms_kv st' (rq_seq r) = ms_kv st (rq_seq r)"
  shows "solo cfg net st' ri r = solo cfg net st ri r"
  using assms
  by (simp add: solo_def can_draft_def scout_def slot_can_draft_def prep_last_def lane_begin_def prep_of_def batched_depth_def Let_def
      split: prod.splits)

subsection \<open>The serial drafter\<close>

lemma can_draft_iff:
  assumes "cfg_ok cfg" "\<not> sk_on (mc_streak cfg)"
  shows "can_draft cfg st r \<longleftrightarrow> ms_target_hidden st (rq_seq r) \<noteq> None \<and> 0 < rq_n_max r"
  using batched_depth_pos[OF assms, of st "rq_base_pos r" "rq_n_max r" "rq_p_min r"]
  by (auto simp: can_draft_def scout_def slot_can_draft_def split: prod.splits)

lemma apply_none:
  "apply_outcome cfg r (ms_kv st (rq_seq r), le, [], None) st = st\<lparr>ms_last := (ms_last st)(rq_seq r := le)\<rparr>"
  by (simp add: apply_outcome_def)

definition begun :: "int \<Rightarrow> int \<Rightarrow> rat \<Rightarrow> bool \<Rightarrow> int \<Rightarrow> int \<Rightarrow> 'h last_embd \<Rightarrow> draft_chain" where
  "begun seq n p hp past lid le =
     \<lparr>dc_seq_id = seq, dc_n_draft = (if le_last_id le \<ge> 0 \<and> le_prob le < p then 1 else n), dc_p_min = p, dc_have_prob = hp,
      dc_constant_positions = False, dc_n_past = past, dc_i = (if le_last_id le \<ge> 0 then 1 else 0),
      dc_cur_id = (if le_last_id le \<ge> 0 then le_last_id le else lid),
      dc_cur_pos = (if le_last_id le \<ge> 0 then past + 1 else past), dc_n_decode = 0,
      dc_stop = (if le_last_id le \<ge> 0 \<and> le_prob le < p then 0 else 2), dc_active = True, dc_pending_id = -1,
      dc_drafts = (if le_last_id le \<ge> 0 then [le_last_id le] else [])\<rparr>"

lemma chain_begin_begun:
  "0 < n \<Longrightarrow> chain_begin seq n p hp past lid (le_last_id le \<ge> 0) (le_last_id le) (le_prob le) False new_chain
    = (begun seq n p hp past lid le, True)"
  by (cases "le_last_id le \<ge> 0"; cases "le_prob le < p") (simp_all add: chain_begin_def begun_def new_chain_def)

lemma draft_start_begun:
  "draft_start st seq n p lid past hid =
     (let le = ms_last st seq; c = begun seq n p hp past lid le;
          cum = (if le_last_id le \<ge> 0 then max 0 (min 1 (le_prob le)) else 1) in
      (\<lparr>dl_i = dc_i c, dl_cur_id = dc_cur_id c, dl_n_past = dc_cur_pos c,
        dl_hid = (if le_last_id le \<ge> 0 then le_embd le else hid), dl_drafts = dc_drafts c, dl_n_decode = 0,
        dl_stop = dc_stop c, dl_cut_cum = cum, dl_streak_cum = cum, dl_embd = le_embd le, dl_kv = ms_kv st\<rparr>, dc_n_draft c))"
  by (cases "le_last_id (ms_last st seq) \<ge> 0"; cases "le_prob (ms_last st seq) < p")
    (simp_all add: draft_start_def begun_def Let_def)

lemma prep_of_begun:
  assumes "batched_depth cfg st (rq_base_pos r) (rq_n_max r) (rq_p_min r) = (n, p)" "0 < n"
  shows "prep_of cfg st ri r =
    \<lparr>pc_chain = begun (rq_seq r) n p (p > 0 \<or> mc_stats cfg) (rq_base_pos r) (rq_id_last r) (ms_last st (rq_seq r)), pc_req = ri,
     pc_hid = (if le_last_id (ms_last st (rq_seq r)) \<ge> 0 then le_embd (ms_last st (rq_seq r)) else the (ms_target_hidden st (rq_seq r))),
     pc_n_min = rq_n_min r\<rparr>"
  using assms by (simp add: prep_of_def Let_def chain_begin_begun)

lemma begun_simps [simp]:
  "dc_seq_id (begun seq n p hp past lid le) = seq" "dc_p_min (begun seq n p hp past lid le) = p"
  "dc_have_prob (begun seq n p hp past lid le) = hp" "dc_n_past (begun seq n p hp past lid le) = past"
  "dc_active (begun seq n p hp past lid le)" "\<not> dc_constant_positions (begun seq n p hp past lid le)"
  "dc_n_decode (begun seq n p hp past lid le) = 0"
  by (simp_all add: begun_def)

lemma start_sim:
  assumes "\<not> mc_constant cfg" "ms_target_hidden st (rq_seq r) = Some h"
    and "batched_depth cfg st (rq_base_pos r) (rq_n_max r) (rq_p_min r) = (n, p)" "0 < n"
    and "draft_start st (rq_seq r) n p (rq_id_last r) (rq_base_pos r) h = (d, n')"
  shows "sim (ms_kv st) (pre_purge cfg (rq_seq r) (rq_base_pos r) d) (lane_begin cfg st ri r)"
    and "n' = dc_n_draft (pc_chain (fst (lane_begin cfg st ri r)))"
    and "dc_i (pc_chain (fst (lane_begin cfg st ri r))) = dl_i (pre_purge cfg (rq_seq r) (rq_base_pos r) d)"
    and "dc_p_min (pc_chain (fst (lane_begin cfg st ri r))) = p"
    and "dc_have_prob (pc_chain (fst (lane_begin cfg st ri r))) \<longleftrightarrow> p > 0 \<or> mc_stats cfg"
    and "dc_seq_id (pc_chain (fst (lane_begin cfg st ri r))) = rq_seq r"
    and "dc_n_past (pc_chain (fst (lane_begin cfg st ri r))) = rq_base_pos r"
proof -
  note pb = prep_of_begun[OF assms(3,4), of ri]
  note d = assms(5)[unfolded draft_start_begun[of st "rq_seq r" n p "rq_id_last r" "rq_base_pos r" h "p > 0 \<or> mc_stats cfg"] Let_def prod.inject]
  show "sim (ms_kv st) (pre_purge cfg (rq_seq r) (rq_base_pos r) d) (lane_begin cfg st ri r)"
    using assms(1,2) d[THEN conjunct1, symmetric]
    by (simp add: sim_def same_out_def pre_purge_def lane_begin_def pb purge_before_def
      needs_pre_purge_def mtp_seq_rm_def lane_wants_def wants_step_def Let_def)
  show "n' = dc_n_draft (pc_chain (fst (lane_begin cfg st ri r)))"
    using d by (simp add: lane_begin_def pb Let_def)
  show "dc_i (pc_chain (fst (lane_begin cfg st ri r))) = dl_i (pre_purge cfg (rq_seq r) (rq_base_pos r) d)"
    using d[THEN conjunct1, symmetric] by (simp add: lane_begin_def pb Let_def pre_purge_def)
qed (simp_all add: lane_begin_def prep_of_begun[OF assms(3,4)] Let_def)

lemma last_embd_commute: "le\<lparr>le_last_id := i, le_embd := e\<rparr> = le\<lparr>le_embd := e, le_last_id := i\<rparr>"
  by (cases le) simp

lemma draft_iters_stop4:
  assumes "gates_off cfg b" "dl_stop d \<noteq> 4"
  shows "dl_stop (draft_iters cfg net s b p hp k d) \<noteq> 4"
  using assms(2)
proof (induction k arbitrary: d)
  case (Suc k)
  obtain d' g where it: "draft_iter cfg net s b p hp d = (d', g)" by fastforce
  have "dl_stop d' \<noteq> 4"
    using it Suc.prems assms(1)
    by (auto simp: draft_iter_def gates_off_def first_gate_drop_def Let_def split: option.splits if_splits)
  with Suc.IH[of d'] it show ?case by simp
qed simp

lemma mtp_draft_solo:
  assumes ok: "cfg_ok cfg" and off: "gates_off cfg (rq_base_pos r)" and "1 < mc_n_seq_max cfg" and tot: "net_total net"
    and prob: "same_prob net \<or> \<not> mc_stats cfg \<and> rq_p_min r \<le> 0" and "0 \<le> rq_base_pos r"
  shows "mtp_draft cfg net r st = (apply_outcome cfg r (solo cfg net st ri r) st, fst (snd (snd (solo cfg net st ri r))))"
proof -
  have sk: "\<not> sk_on (mc_streak cfg)" and nc: "\<not> mc_constant cfg" using off by (simp_all add: gates_off_def)
  note can = can_draft_iff[OF ok sk, of st r]
  show ?thesis
  proof (cases "can_draft cfg st r")
    case False
    then have "mtp_draft cfg net r st = (st\<lparr>ms_last := (ms_last st)(rq_seq r := prep_last cfg st r)\<rparr>, [])"
      using can False assms(3,6)
      by (auto simp: mtp_draft_def gen_draft_def prep_last_def invalidate_cached_def Let_def split: option.splits)
    with False show ?thesis by (simp add: solo_def apply_none)
  next
    case True
    with can obtain h where h: "ms_target_hidden st (rq_seq r) = Some h" and nm: "0 < rq_n_max r" by auto
    let ?s = "rq_seq r" and ?b = "rq_base_pos r" and ?x = "lane_begin cfg st ri r"
    obtain n p where np: "batched_depth cfg st ?b (rq_n_max r) (rq_p_min r) = (n, p)" by fastforce
    have n: "0 < n" using batched_depth_pos[OF ok sk, of st ?b "rq_n_max r" "rq_p_min r"] np nm by simp
    obtain d n' where d: "draft_start st ?s n p (rq_id_last r) ?b h = (d, n')" by fastforce
    note sm = start_sim[OF nc h np n d, of ri]
    let ?d = "pre_purge cfg ?s ?b d" and ?hp = "p > 0 \<or> mc_stats cfg"
    let ?D = "draft_iters cfg net ?s ?b p ?hp (nat (n' - dl_i ?d)) ?d"
    have "p \<le> rq_p_min r" using batched_depth_p[of cfg st ?b "rq_n_max r" "rq_p_min r"] np by simp
    then have pr: "?hp \<Longrightarrow> same_prob net" using prob by auto
    have k: "nat (n' - dl_i ?d) = nat (dc_n_draft (pc_chain (fst ?x)) - dc_i (pc_chain (fst ?x)))"
      unfolding sm(2,3) ..
    have "dc_have_prob (pc_chain (fst ?x)) \<Longrightarrow> same_prob net" unfolding sm(5) by (rule pr)
    note fin0 = iters_sim[OF off tot this sm(1) sm(4)[symmetric] sm(5)[symmetric] sm(6)[symmetric] k]
    have fin: "same_out (ms_kv st) ?D (lane_end net ?x)" "chain_like (pc_chain (fst ?x)) (pc_chain (fst (lane_end net ?x)))"
      unfolding lane_end_def k[symmetric] using fin0 by blast+
    obtain pc rows e where le: "lane_end net ?x = (pc, rows, e)" by (cases "lane_end net ?x")
    have c: "dc_seq_id (pc_chain pc) = ?s" "dc_n_past (pc_chain pc) = ?b"
      using fin(2) sm(6,7) by (simp_all add: chain_like_def le)
    have D: "dl_drafts ?D = dc_drafts (pc_chain pc)" "dl_n_decode ?D = dc_n_decode (pc_chain pc)" "dl_embd ?D = e"
      "dl_kv ?D = (ms_kv st)(?s := rows)" using fin(1) c by (simp_all add: same_out_def le Let_def)
    have "dl_stop ?d \<noteq> 4" using d by (auto simp: draft_start_def pre_purge_def Let_def split: if_splits)
    from draft_iters_stop4[OF off this] have stop: "dl_stop ?D \<noteq> 4" .
    have g: "mtp_draft cfg net r st = (draft_finish cfg ?s ?s ?b ?D st, dl_drafts ?D)"
      using h nm assms(3,6) off np d serial_depth_batched[OF sk, of st ?b "rq_n_max r" "rq_p_min r"]
      by (simp add: mtp_draft_def gen_draft_def first_gate_drop_def gates_off_def not_less Let_def)
    have "draft_finish cfg ?s ?s ?b ?D st = apply_outcome cfg r (solo cfg net st ri r) st"
      using True stop by (auto simp: draft_finish_def apply_outcome_def solo_def le D c purge_after_def needs_purge_def purge_p0_def
          purge_p1_def mtp_seq_rm_def prep_last_def last_embd_commute Let_def)
    then show ?thesis using g D(1) True by (simp add: solo_def le)
  qed
qed

definition req_ok :: "mtp_cfg \<Rightarrow> 'h net \<Rightarrow> mtp_req \<Rightarrow> bool" where
  "req_ok cfg net r \<longleftrightarrow> gates_off cfg (rq_base_pos r) \<and> 0 \<le> rq_base_pos r \<and> (same_prob net \<or> \<not> mc_stats cfg \<and> rq_p_min r \<le> 0)"

definition apply_all :: "mtp_cfg \<Rightarrow> (mtp_req \<times> 'h outcome) list \<Rightarrow> 'h mtp_state \<Rightarrow> 'h mtp_state" where
  "apply_all cfg xs st = foldl (\<lambda>st (r, x). apply_outcome cfg r x st) st xs"

definition outcomes :: "mtp_cfg \<Rightarrow> 'h net \<Rightarrow> 'h mtp_state \<Rightarrow> nat \<Rightarrow> mtp_req list \<Rightarrow> (mtp_req \<times> 'h outcome) list" where
  "outcomes cfg net st ri rs = map (\<lambda>(i, r). (r, solo cfg net st i r)) (enumerate ri rs)"

lemma apply_all_simps [simp]:
  "apply_all cfg [] st = st" "apply_all cfg ((r, x) # xs) st = apply_all cfg xs (apply_outcome cfg r x st)"
  by (simp_all add: apply_all_def)

lemma outcomes_simps [simp]:
  "outcomes cfg net st ri [] = []"
  "outcomes cfg net st ri (r # rs) = (r, solo cfg net st ri r) # outcomes cfg net st (Suc ri) rs"
  by (simp_all add: outcomes_def)

lemma apply_outcome_frame [simp]:
  "ms_ak_ema (apply_outcome cfg r x st) = ms_ak_ema st"
  "ms_streak_full (apply_outcome cfg r x st) = ms_streak_full st"
  "ms_target_hidden (apply_outcome cfg r x st) = ms_target_hidden st"
  "s \<noteq> rq_seq r \<Longrightarrow> ms_kv (apply_outcome cfg r x st) s = ms_kv st s"
  "s \<noteq> rq_seq r \<Longrightarrow> ms_last (apply_outcome cfg r x st) s = ms_last st s"
  by (simp_all add: apply_outcome_def split: prod.splits)

lemma draft_serially_solo:
  assumes ok: "cfg_ok cfg" "1 < mc_n_seq_max cfg" "net_total net"
    and "\<forall>r \<in> set rs. req_ok cfg net r" "distinct (map rq_seq rs)"
    and "ms_ak_ema st' = ms_ak_ema st" "ms_target_hidden st' = ms_target_hidden st"
    and "\<forall>r \<in> set rs. ms_last st' (rq_seq r) = ms_last st (rq_seq r) \<and> ms_kv st' (rq_seq r) = ms_kv st (rq_seq r)"
  shows "draft_serially cfg net rs st' = (apply_all cfg (outcomes cfg net st ri rs) st', map (\<lambda>(r, x). fst (snd (snd x))) (outcomes cfg net st ri rs))"
  using assms(4-)
proof (induction rs arbitrary: st' ri)
  case (Cons r rs)
  let ?x = "solo cfg net st ri r"
  have "solo cfg net st' ri r = ?x" using Cons.prems by (intro solo_local) simp_all
  with mtp_draft_solo[OF ok(1) _ ok(2,3), of r st' ri] Cons.prems(1)
  have m: "mtp_draft cfg net r st' = (apply_outcome cfg r ?x st', fst (snd (snd ?x)))" by (simp add: req_ok_def)
  have n: "rq_seq q \<noteq> rq_seq r" if "q \<in> set rs" for q using Cons.prems(2) that by (auto simp: image_iff)
  have "draft_serially cfg net rs (apply_outcome cfg r ?x st') = (apply_all cfg (outcomes cfg net st (Suc ri) rs) (apply_outcome cfg r ?x st'),
      map (\<lambda>(r, x). fst (snd (snd x))) (outcomes cfg net st (Suc ri) rs))"
    using Cons.prems n by (intro Cons.IH) auto
  with m show ?case by simp
qed simp

subsection \<open>The batched drafter\<close>

lemma prepare_req_char:
  assumes "ms_last st' (rq_seq r) = ms_last st (rq_seq r)" "ms_target_hidden st' (rq_seq r) = ms_target_hidden st (rq_seq r)"
  shows "prepare_req cfg ri r (scout cfg st r) (st', pcs) =
    (st'\<lparr>ms_last := (ms_last st')(rq_seq r := prep_last cfg st r)\<rparr>, pcs @ (if can_draft cfg st r then [prep_of cfg st ri r] else []))"
proof -
  obtain n p where np: "batched_depth cfg st (rq_base_pos r) (rq_n_max r) (rq_p_min r) = (n, p)" by fastforce
  have can: "can_draft cfg st r \<longleftrightarrow> ms_target_hidden st (rq_seq r) \<noteq> None \<and> 0 < n"
    by (simp add: can_draft_def scout_def np slot_can_draft_def)
  have upd: "(ms_last st')(rq_seq r := ms_last st (rq_seq r)) = ms_last st'" using assms(1) by (simp add: fun_upd_idem)
  show ?thesis
  proof (cases "can_draft cfg st r")
    case True
    then have "0 < n" using can by blast
    with True can assms np show ?thesis
      by (cases "le_last_id (ms_last st (rq_seq r)) \<ge> 0")
        (simp_all add: prepare_req_def scout_def slot_can_draft_def prep_last_def prep_of_def chain_begin_begun upd Let_def)
  next
    case False
    with can assms np show ?thesis
      by (cases "ms_target_hidden st (rq_seq r)")
        (simp_all add: prepare_req_def scout_def slot_can_draft_def prep_last_def invalidate_cached_def upd Let_def)
  qed
qed

definition lane_reqs :: "mtp_cfg \<Rightarrow> 'h mtp_state \<Rightarrow> nat \<Rightarrow> mtp_req list \<Rightarrow> (nat \<times> mtp_req) list" where
  "lane_reqs cfg st ri rs = filter (\<lambda>(i, r). can_draft cfg st r) (enumerate ri rs)"

lemma prepare_all_char:
  assumes "distinct (map rq_seq rs)"
    and "\<forall>r \<in> set rs. ms_last st' (rq_seq r) = ms_last st (rq_seq r)" "ms_target_hidden st' = ms_target_hidden st"
  shows "prepare_all cfg ri (zip rs (map (scout cfg st) rs)) (st', pcs) =
    (st'\<lparr>ms_last := foldl (\<lambda>m r. m(rq_seq r := prep_last cfg st r)) (ms_last st') rs\<rparr>,
     pcs @ map (\<lambda>(i, r). prep_of cfg st i r) (lane_reqs cfg st ri rs))"
  using assms
proof (induction rs arbitrary: ri st' pcs)
  case (Cons r rs)
  have n: "rq_seq q \<noteq> rq_seq r" if "q \<in> set rs" for q using Cons.prems(1) that by (auto simp: image_iff)
  let ?st = "st'\<lparr>ms_last := (ms_last st')(rq_seq r := prep_last cfg st r)\<rparr>"
  have "\<forall>q \<in> set rs. ms_last ?st (rq_seq q) = ms_last st (rq_seq q)" using Cons.prems(2) n by simp
  with Cons.IH[of ?st "Suc ri"] Cons.prems prepare_req_char[of st' r st cfg ri pcs] show ?case
    by (simp add: lane_reqs_def)
qed (simp add: lane_reqs_def)

end
