(* ===== verification/MtpBatch.thy ===== *)
theory MtpBatch
  imports MtpEquiv
begin

section \<open>The batched drafter applies the outcomes of its requests\<close>

text \<open>
  The lanes a batched step starts with are the lanes of the single requests, its loop runs each of them to
  its end, and its tail stores the outcomes: the state after the step is the state the serial drafter
  leaves, and the results are its drafts without those shorter than the request's minimum.
\<close>

subsection \<open>Lanes to their end\<close>

lemma lane_step_left:
  assumes "lane_wants x"
  shows "chain_left (fst (lane_step net x)) < chain_left (fst x)"
proof -
  obtain pc rows e where x: "x = (pc, rows, e)" by (cases x)
  have w: "wants_step (pc_chain pc)" using assms by (simp add: x lane_wants_def)
  let ?out = "the (net rows (snd (chain_row pc)))"
  let ?mem = "\<lambda>s. \<lparr>le_embd = e, le_prob = 0, le_last_id = -1\<rparr>"
  obtain pc' e' where n: "lane_next ?out (issue pc, e) = (pc', e')" by fastforce
  then have "chain_take ?out (issue pc, ?mem) = (pc', ?mem(pc_seq pc := (?mem (pc_seq pc))\<lparr>le_embd := e'\<rparr>))"
    by (simp add: chain_take_lane)
  from chain_take_left[OF w this] show ?thesis using w n by (simp add: x lane_step_def Let_def)
qed

lemma lane_left_stops: "chain_left (fst x) \<le> k \<Longrightarrow> \<not> lane_wants ((lane_step net ^^ k) x)"
proof (induction k arbitrary: x)
  case 0
  then show ?case by (auto simp: chain_left_def lane_wants_def wants_step_def Let_def split: if_splits)
next
  case (Suc k)
  show ?case
  proof (cases "lane_wants x")
    case True
    then have "\<not> lane_wants ((lane_step net ^^ k) (lane_step net x))"
      using Suc lane_step_left[OF True, of net] by simp
    then show ?thesis by (simp add: funpow_swap1)
  next
    case False
    then show ?thesis using lane_steps_stop[OF False, where n = "Suc k"] by simp
  qed
qed

lemma lane_end_stops: "\<not> lane_wants (lane_end net x)"
  unfolding lane_end_def by (rule lane_left_stops) (simp add: chain_left_def Let_def)

lemma lane_end_unique: "\<not> lane_wants ((lane_step net ^^ n) x) \<Longrightarrow> (lane_step net ^^ n) x = lane_end net x"
  using lane_steps_unique lane_end_stops unfolding lane_end_def by blast

lemma lane_next_frame:
  "lane_next out (pc, e) = (pc', e') \<Longrightarrow> pc_req pc' = pc_req pc \<and> pc_n_min pc' = pc_n_min pc"
  by (auto simp: lane_next_def Let_def split: prod.splits draft_step_action.splits option.splits)

lemma issue_frame [simp]: "pc_req (issue pc) = pc_req pc" "pc_n_min (issue pc) = pc_n_min pc"
  by (simp_all add: issue_def)

lemma lane_step_frame: "pc_req (fst (lane_step net x)) = pc_req (fst x) \<and> pc_n_min (fst (lane_step net x)) = pc_n_min (fst x)"
proof -
  obtain pc rows e where x: "x = (pc, rows, e)" by (cases x)
  obtain pc' e' where n: "lane_next (the (net rows (snd (chain_row pc)))) (issue pc, e) = (pc', e')" by fastforce
  show ?thesis using lane_next_frame[OF n] by (simp add: x lane_step_def n Let_def)
qed

lemma lane_end_frame [simp]:
  "pc_seq (fst (lane_end net x)) = pc_seq (fst x)" "pc_req (fst (lane_end net x)) = pc_req (fst x)"
  "pc_n_min (fst (lane_end net x)) = pc_n_min (fst x)"
proof -
  have "pc_req (fst ((lane_step net ^^ n) x)) = pc_req (fst x) \<and> pc_n_min (fst ((lane_step net ^^ n) x)) = pc_n_min (fst x)" for n
    by (induction n) (simp_all add: lane_step_frame)
  then show "pc_seq (fst (lane_end net x)) = pc_seq (fst x)" "pc_req (fst (lane_end net x)) = pc_req (fst x)"
    "pc_n_min (fst (lane_end net x)) = pc_n_min (fst x)" by (simp_all add: lane_end_def)
qed

subsection \<open>Before and after the loop\<close>

lemma batch_pre_purge_local:
  "batch_pre_purge lanes kv = foldl (\<lambda>kv pc. kv(pc_seq pc := purge_before pc (kv (pc_seq pc)))) kv lanes"
proof -
  have "(\<lambda>(kv :: 'a kv) (pc :: 'a prepared). let c = pc_chain pc in
           if needs_pre_purge c \<and> mtp_pos_max (kv (dc_seq_id c)) \<ge> dc_n_past c
           then mtp_seq_rm (dc_seq_id c) (dc_n_past c) (-1) kv else kv)
      = (\<lambda>kv pc. kv(pc_seq pc := purge_before pc (kv (pc_seq pc))))"
    by (intro ext) (simp add: purge_before_def pc_seq_def mtp_seq_rm_def Let_def)
  then show ?thesis unfolding batch_pre_purge_def by simp
qed

definition drop_short :: "int \<Rightarrow> int list \<Rightarrow> int list" where
  "drop_short n_min r = (if r \<noteq> [] \<and> n_min > 0 \<and> int (length r) < n_min then [] else r)"

definition tail_len :: "mtp_cfg \<Rightarrow> nat \<Rightarrow> 'h prepared \<Rightarrow> nat" where
  "tail_len cfg a pc = (if ak_track cfg then length (dc_drafts (pc_chain pc)) else a)"

lemma batch_tail_folds:
  "foldl (\<lambda>acc pc. batch_tail cfg pc acc) (st, rs) pcs =
    (st\<lparr>ms_kv := foldl (\<lambda>kv pc. kv(pc_seq pc := purge_after pc (kv (pc_seq pc)))) (ms_kv st) pcs,
        ms_ak_drafted := foldl (tail_len cfg) (ms_ak_drafted st) pcs\<rparr>,
     foldl (\<lambda>rs pc. rs[pc_req pc := drop_short (pc_n_min pc) (dc_drafts (pc_chain pc))]) rs pcs)"
proof (induction pcs arbitrary: st rs)
  case (Cons pc pcs)
  have "batch_tail cfg pc (st, rs) =
      (st\<lparr>ms_kv := (ms_kv st)(pc_seq pc := purge_after pc (ms_kv st (pc_seq pc))), ms_ak_drafted := tail_len cfg (ms_ak_drafted st) pc\<rparr>,
       rs[pc_req pc := drop_short (pc_n_min pc) (dc_drafts (pc_chain pc))])"
    by (cases "needs_purge (pc_chain pc)")
      (simp_all add: batch_tail_def purge_after_def tail_len_def drop_short_def mtp_seq_rm_def pc_seq_def Let_def)
  then show ?case by (simp add: Cons)
qed simp

subsection \<open>The serial state, field by field\<close>

lemma apply_all_at:
  assumes "distinct (map (rq_seq \<circ> fst) xs)"
  shows "(r, x) \<in> set xs \<Longrightarrow> ms_kv (apply_all cfg xs st) (rq_seq r) = fst x \<and> ms_last (apply_all cfg xs st) (rq_seq r) = fst (snd x)"
    and "s \<notin> (rq_seq \<circ> fst) ` set xs \<Longrightarrow> ms_kv (apply_all cfg xs st) s = ms_kv st s \<and> ms_last (apply_all cfg xs st) s = ms_last st s"
proof -
  show *: "ms_kv (apply_all cfg xs st) s = ms_kv st s \<and> ms_last (apply_all cfg xs st) s = ms_last st s"
    if "s \<notin> (rq_seq \<circ> fst) ` set xs" for s xs st
    using that by (induction xs arbitrary: st) (auto split: prod.splits)
  show "ms_kv (apply_all cfg xs st) (rq_seq r) = fst x \<and> ms_last (apply_all cfg xs st) (rq_seq r) = fst (snd x)"
    if "(r, x) \<in> set xs"
    using assms that
  proof (induction xs arbitrary: st)
    case (Cons y ys)
    obtain q z where y: "y = (q, z)" by (cases y)
    show ?case
    proof (cases "(r, x) = y")
      case True
      from Cons.prems(1) have "rq_seq r \<notin> (rq_seq \<circ> fst) ` set ys" unfolding True[symmetric] by (simp add: comp_def)
      from *[OF this, of "apply_outcome cfg r x st"] True show ?thesis by (auto simp: apply_outcome_def split: prod.splits)
    next
      case False
      with Cons.prems have m: "(r, x) \<in> set ys" and d: "distinct (map (rq_seq \<circ> fst) ys)" by (auto simp: comp_def)
      show ?thesis using Cons.IH[OF d m] by (simp add: y)
    qed
  qed simp
qed

lemma apply_all_frame [simp]:
  "ms_ak_ema (apply_all cfg xs st) = ms_ak_ema st" "ms_streak_full (apply_all cfg xs st) = ms_streak_full st"
  "ms_target_hidden (apply_all cfg xs st) = ms_target_hidden st"
  by (induction xs arbitrary: st) (auto split: prod.splits)

lemma apply_all_drafted:
  "ms_ak_drafted (apply_all cfg (outcomes cfg net st0 ri rs) st) =
    foldl (tail_len cfg) (ms_ak_drafted st)
      (map (\<lambda>(i, r). fst (lane_end net (lane_begin cfg st0 i r))) (lane_reqs cfg st0 ri rs))"
proof (induction rs arbitrary: ri st)
  case (Cons r rs)
  show ?case
    by (cases "lane_end net (lane_begin cfg st0 ri r)")
      (simp add: Cons lane_reqs_def apply_outcome_def solo_def tail_len_def)
qed (simp add: lane_reqs_def)

subsection \<open>The batched state\<close>

lemma lane_reqs_in: "(i, r) \<in> set (lane_reqs cfg st 0 rs) \<longleftrightarrow> i < length rs \<and> rs ! i = r \<and> can_draft cfg st r"
  by (auto simp: lane_reqs_def in_set_enumerate_eq)

lemma map_snd_lane_reqs: "map snd (lane_reqs cfg st ri rs) = filter (can_draft cfg st) rs"
  by (induction rs arbitrary: ri) (auto simp: lane_reqs_def)

lemma map_fst_lane_reqs: "distinct (map fst (lane_reqs cfg st ri rs))"
proof -
  have "distinct (map fst (enumerate ri rs))" by (simp add: enumerate_eq_zip)
  then show ?thesis unfolding lane_reqs_def by (simp add: distinct_map_filter)
qed

lemma fst_lane_begin [simp]: "fst (lane_begin cfg st i r) = prep_of cfg st i r"
  by (simp add: lane_begin_def Let_def)

lemma prep_of_frame [simp]: "pc_req (prep_of cfg st i r) = i" "pc_n_min (prep_of cfg st i r) = rq_n_min r"
  by (simp_all add: prep_of_def Let_def split: prod.splits)

lemma prep_of_seq [simp]: "pc_seq (prep_of cfg st i r) = rq_seq r"
  by (auto simp: prep_of_def pc_seq_def chain_begin_def Let_def split: prod.splits)

text \<open>The tail's lanes: every lane of the step run to its end.\<close>

definition ended :: "mtp_cfg \<Rightarrow> 'h net \<Rightarrow> 'h mtp_state \<Rightarrow> nat \<times> mtp_req \<Rightarrow> 'h lane" where
  "ended cfg net st x = lane_end net (lane_begin cfg st (fst x) (snd x))"

lemma loop_ends:
  fixes st :: "'h mtp_state" and cfg reqs
  defines "X \<equiv> lane_reqs cfg st 0 reqs"
  defines "L \<equiv> map (\<lambda>(i, r). prep_of cfg st i r) X"
  defines "kv1 \<equiv> batch_pre_purge L (ms_kv st)" and "mem1 \<equiv> foldl (\<lambda>m r. m(rq_seq r := prep_last cfg st r)) (ms_last st) reqs"
  assumes tot: "net_total net" and dist: "distinct (map rq_seq reqs)" and b: "batch_loop net (L, kv1, mem1) = (L', kv', mem')"
  shows "L' = map (\<lambda>x. fst (ended cfg net st x)) X"
    and "x \<in> set X \<Longrightarrow> kv' (rq_seq (snd x)) = fst (snd (ended cfg net st x))"
    and "x \<in> set X \<Longrightarrow> mem' (rq_seq (snd x)) = (prep_last cfg st (snd x))\<lparr>le_embd := snd (snd (ended cfg net st x))\<rparr>"
    and "s \<notin> (rq_seq \<circ> snd) ` set X \<Longrightarrow> kv' s = ms_kv st s \<and> mem' s = mem1 s"
proof -
  have seqs: "map pc_seq L = map rq_seq (filter (can_draft cfg st) reqs)"
    unfolding map_snd_lane_reqs[of cfg st 0, symmetric] by (simp add: L_def X_def case_prod_beta)
  then have dL: "distinct (map pc_seq L)" using dist by (simp add: distinct_map_filter)
  have X': "fst x < length reqs \<and> reqs ! fst x = snd x \<and> can_draft cfg st (snd x)" if "x \<in> set X" for x
    using that lane_reqs_in[of "fst x" "snd x" cfg st reqs] by (simp add: X_def)
  have X: "snd x \<in> set reqs" "can_draft cfg st (snd x)" if "x \<in> set X" for x
    using X'[OF that] nth_mem by metis+
  have inL: "prep_of cfg st (fst x) (snd x) \<in> set L" if "x \<in> set X" for x
    using that by (force simp: L_def)
  have sL: "pc_seq ` set L = (rq_seq \<circ> snd) ` set X" by (simp add: L_def image_image case_prod_beta comp_def)
  have start: "lane_of kv1 mem1 (prep_of cfg st (fst x) (snd x)) = lane_begin cfg st (fst x) (snd x)" if "x \<in> set X" for x
  proof -
    have "kv1 (rq_seq (snd x)) = purge_before (prep_of cfg st (fst x) (snd x)) (ms_kv st (rq_seq (snd x)))"
      using foldl_local(1)[OF dL inL[OF that], of purge_before "ms_kv st"] by (simp add: kv1_def batch_pre_purge_local)
    moreover have "mem1 (rq_seq (snd x)) = prep_last cfg st (snd x)"
      using foldl_local(1)[OF dist X(1)[OF that], of "\<lambda>r _. prep_last cfg st r" "ms_last st"] by (simp add: mem1_def)
    ultimately show ?thesis using X(2)[OF that] by (simp add: lane_of_def lane_begin_def prep_last_def Let_def)
  qed
  obtain n where n: "lanes_after net n (L, kv1, mem1) (L', kv', mem')" "\<forall>pc \<in> set L'. \<not> wants_step (pc_chain pc)"
    using batch_loop_lanes[of net "(L, kv1, mem1)"] tot dL b by (auto simp: net_total_def)
  note after = n(1)[unfolded lanes_after_def, simplified]
  have e: "(lane_step net ^^ n) (lane_of kv1 mem1 (prep_of cfg st (fst x) (snd x))) = ended cfg net st x" if "x \<in> set X" for x
  proof -
    have "\<not> lane_wants ((lane_step net ^^ n) (lane_of kv1 mem1 (prep_of cfg st (fst x) (snd x))))"
      using n(2) after inL[OF that] by (auto simp: lane_wants_def)
    from lane_end_unique[OF this] show ?thesis by (simp add: start[OF that] ended_def)
  qed
  have "L' = map (\<lambda>x. fst ((lane_step net ^^ n) (lane_of kv1 mem1 (prep_of cfg st (fst x) (snd x))))) X"
    using after by (simp add: L_def case_prod_beta comp_def)
  also have "\<dots> = map (\<lambda>x. fst (ended cfg net st x)) X" using e by (intro map_cong) simp_all
  finally show "L' = map (\<lambda>x. fst (ended cfg net st x)) X" .
  show "kv' (rq_seq (snd x)) = fst (snd (ended cfg net st x))" if "x \<in> set X"
    using after inL[OF that] e[OF that] by fastforce
  show "mem' (rq_seq (snd x)) = (prep_last cfg st (snd x))\<lparr>le_embd := snd (snd (ended cfg net st x))\<rparr>" if "x \<in> set X"
  proof -
    have "mem1 (rq_seq (snd x)) = prep_last cfg st (snd x)"
      using foldl_local(1)[OF dist X(1)[OF that], of "\<lambda>r _. prep_last cfg st r" "ms_last st"] by (simp add: mem1_def)
    then show ?thesis using after inL[OF that] e[OF that] by fastforce
  qed
  show "kv' s = ms_kv st s \<and> mem' s = mem1 s" if "s \<notin> (rq_seq \<circ> snd) ` set X"
    using after that foldl_local(2)[OF dL, of s purge_before "ms_kv st"] unfolding sL[symmetric]
    by (simp add: kv1_def batch_pre_purge_local)
qed

lemma mtp_state_eqI:
  assumes "ms_ak_ema a = ms_ak_ema b" "ms_ak_drafted a = ms_ak_drafted b" "ms_streak_full a = ms_streak_full b"
    "ms_target_hidden a = ms_target_hidden b" "\<And>s. ms_last a s = ms_last b s" "\<And>s. ms_kv a s = ms_kv b s"
  shows "a = (b :: 'h mtp_state)"
  using assms by (intro mtp_state.equality) (auto simp: fun_eq_iff)

lemma draft_batched_run:
  assumes "draft_batched cfg net reqs st = Some (st', rs)" and d: "distinct (map rq_seq reqs)"
  obtains L' kv' mem' where
    "batch_loop net (map (\<lambda>(i, r). prep_of cfg st i r) (lane_reqs cfg st 0 reqs),
       batch_pre_purge (map (\<lambda>(i, r). prep_of cfg st i r) (lane_reqs cfg st 0 reqs)) (ms_kv st),
       foldl (\<lambda>m r. m(rq_seq r := prep_last cfg st r)) (ms_last st) reqs) = (L', kv', mem')"
    "(st', rs) = foldl (\<lambda>acc pc. batch_tail cfg pc acc) (st\<lparr>ms_kv := kv', ms_last := mem'\<rparr>, replicate (length reqs) []) L'"
proof -
  let ?L = "map (\<lambda>(i, r). prep_of cfg st i r) (lane_reqs cfg st 0 reqs)"
  let ?mem = "foldl (\<lambda>m r. m(rq_seq r := prep_last cfg st r)) (ms_last st) reqs"
  obtain L' kv' mem' where b: "batch_loop net (?L, batch_pre_purge ?L (ms_kv st), ?mem) = (L', kv', mem')" by (rule prod_cases3)
  have p: "prepare_all cfg 0 (zip reqs (map (scout cfg st) reqs)) (st, []) = (st\<lparr>ms_last := ?mem\<rparr>, ?L)"
    using prepare_all_char[OF d, of st st cfg 0 "[]"] by simp
  have "(st', rs) = foldl (\<lambda>acc pc. batch_tail cfg pc acc) (st\<lparr>ms_kv := kv', ms_last := mem'\<rparr>, replicate (length reqs) []) L'"
  proof (cases "?L = []")
    case True
    then have "L' = [] \<and> kv' = ms_kv st \<and> mem' = ?mem"
      using b by (simp add: batch_loop.simps batch_rows_def batch_pre_purge_def)
    with assms(1) True p show ?thesis by (auto simp: draft_batched_def Let_def split: if_splits)
  next
    case False
    with assms(1) p b show ?thesis by (auto simp: draft_batched_def Let_def eq_commute[of "(st', rs)"] split: if_splits)
  qed
  with b that show thesis by blast
qed

lemma draft_batched_outcomes:
  assumes tot: "net_total net" and dist: "distinct (map rq_seq reqs)" and run: "draft_batched cfg net reqs st = Some (st', rs)"
  shows "st' = apply_all cfg (outcomes cfg net st 0 reqs) st"
    and "rs = map (\<lambda>(r, x). drop_short (rq_n_min r) (fst (snd (snd x)))) (outcomes cfg net st 0 reqs)"
proof -
  let ?X = "lane_reqs cfg st 0 reqs"
  obtain L' kv' mem' where b: "batch_loop net (map (\<lambda>(i, r). prep_of cfg st i r) ?X,
       batch_pre_purge (map (\<lambda>(i, r). prep_of cfg st i r) ?X) (ms_kv st),
       foldl (\<lambda>m r. m(rq_seq r := prep_last cfg st r)) (ms_last st) reqs) = (L', kv', mem')"
    and f: "(st', rs) = foldl (\<lambda>acc pc. batch_tail cfg pc acc) (st\<lparr>ms_kv := kv', ms_last := mem'\<rparr>, replicate (length reqs) []) L'"
    by (rule draft_batched_run[OF run dist])
  note le = loop_ends[OF tot dist b]
  let ?E = "\<lambda>x. fst (ended cfg net st x)"
  have E: "pc_seq (?E x) = rq_seq (snd x)" "pc_req (?E x) = fst x" "pc_n_min (?E x) = rq_n_min (snd x)" for x
    by (simp_all add: ended_def)
  have L': "L' = map ?E ?X" by (rule le(1))
  have "map pc_seq L' = map rq_seq (filter (can_draft cfg st) reqs)"
    unfolding map_snd_lane_reqs[of cfg st 0, symmetric] by (simp add: L' E)
  then have dL: "distinct (map pc_seq L')" using dist by (simp add: distinct_map_filter)
  have dR: "distinct (map pc_req L')" using map_fst_lane_reqs[of cfg st 0 reqs] by (simp add: L' E comp_def)
  have X: "fst x < length reqs \<and> reqs ! fst x = snd x \<and> can_draft cfg st (snd x)" if "x \<in> set ?X" for x
    using that lane_reqs_in[of "fst x" "snd x" cfg st reqs] by simp
  define kv where "kv = foldl (\<lambda>kv pc. kv(pc_seq pc := purge_after pc (kv (pc_seq pc)))) kv' L'"
  have st': "st' = st\<lparr>ms_last := mem', ms_kv := kv, ms_ak_drafted := foldl (tail_len cfg) (ms_ak_drafted st) L'\<rparr>"
    and rs: "rs = foldl (\<lambda>rs pc. rs[pc_req pc := drop_short (pc_n_min pc) (dc_drafts (pc_chain pc))]) (replicate (length reqs) []) L'"
    using f unfolding batch_tail_folds kv_def by simp_all
  have out: "(r, solo cfg net st i r) \<in> set (outcomes cfg net st 0 reqs)" if "i < length reqs" "reqs ! i = r" for i r
    using that by (force simp: outcomes_def in_set_enumerate_eq)
  have mO: "map (rq_seq \<circ> fst) (outcomes cfg net st k rs) = map rq_seq rs" for k rs
    by (induction rs arbitrary: k) simp_all
  have dO: "distinct (map (rq_seq \<circ> fst) (outcomes cfg net st 0 reqs))" unfolding mO by (rule dist)
  have sO: "(rq_seq \<circ> fst) ` set (outcomes cfg net st 0 reqs) = rq_seq ` set reqs"
    unfolding set_map[symmetric] mO ..
  have at: "ms_kv st' s = ms_kv (apply_all cfg (outcomes cfg net st 0 reqs) st) s
      \<and> ms_last st' s = ms_last (apply_all cfg (outcomes cfg net st 0 reqs) st) s" for s
  proof (cases "s \<in> rq_seq ` set reqs")
    case True
    then obtain i r where i: "i < length reqs" "reqs ! i = r" and s: "s = rq_seq r" by (auto simp: in_set_conv_nth)
    note o = apply_all_at(1)[OF dO out[OF i], of cfg st]
    show ?thesis
    proof (cases "can_draft cfg st r")
      case True
      let ?x = "(i, r)"
      have x: "?x \<in> set ?X" using True i by (simp add: lane_reqs_in)
      have "kv s = purge_after (?E ?x) (kv' (rq_seq r))"
        using foldl_local(1)[OF dL, of "?E ?x" purge_after kv'] x by (simp add: kv_def s E L')
      then show ?thesis using o True le(2,3)[OF x] by (simp add: st' s solo_def ended_def split: prod.splits)
    next
      case False
      have nx: "s \<notin> (rq_seq \<circ> snd) ` set ?X"
      proof
        assume "s \<in> (rq_seq \<circ> snd) ` set ?X"
        then obtain x where "x \<in> set ?X" "rq_seq (snd x) = rq_seq r" by (auto simp: s)
        with X[of x] i dist have "snd x = r" by (metis distinct_map inj_onD nth_mem)
        with X[OF \<open>x \<in> set ?X\<close>] False show False by simp
      qed
      have "pc_seq ` set L' = (rq_seq \<circ> snd) ` set ?X" by (simp add: L' image_image E comp_def)
      with nx have "kv s = kv' s" using foldl_local(2)[OF dL, of s purge_after kv'] by (simp add: kv_def)
      moreover have "r \<in> set reqs" using i by auto
      ultimately show ?thesis using o False le(4)[OF nx] foldl_local(1)[OF dist, of r "\<lambda>r _. prep_last cfg st r" "ms_last st"]
        by (simp add: st' s solo_def)
    qed
  next
    case False
    have nx: "s \<notin> (rq_seq \<circ> snd) ` set ?X"
    proof
      assume "s \<in> (rq_seq \<circ> snd) ` set ?X"
      then obtain x where x: "x \<in> set ?X" "s = rq_seq (snd x)" by auto
      have "snd x \<in> set reqs" using X[OF x(1)] nth_mem[of "fst x" reqs] by simp
      with x(2) False show False by blast
    qed
    have "pc_seq ` set L' = (rq_seq \<circ> snd) ` set ?X" by (simp add: L' image_image E comp_def)
    with nx have "kv s = kv' s" using foldl_local(2)[OF dL, of s purge_after kv'] by (simp add: kv_def)
    moreover have "s \<notin> (rq_seq \<circ> fst) ` set (outcomes cfg net st 0 reqs)" unfolding sO by (rule False)
    note apply_all_at(2)[OF dO this, of cfg st]
    ultimately show ?thesis using False le(4)[OF nx]
        foldl_local(2)[OF dist, of s "\<lambda>r _. prep_last cfg st r" "ms_last st"] by (simp add: st')
  qed
  show "st' = apply_all cfg (outcomes cfg net st 0 reqs) st"
  proof (rule mtp_state_eqI)
    show "ms_ak_drafted st' = ms_ak_drafted (apply_all cfg (outcomes cfg net st 0 reqs) st)"
      unfolding apply_all_drafted by (simp add: st' L' ended_def split_def)
  qed (use at in \<open>simp_all add: st'\<close>)
  show "rs = map (\<lambda>(r, x). drop_short (rq_n_min r) (fst (snd (snd x)))) (outcomes cfg net st 0 reqs)"
  proof (rule nth_equalityI)
    have bound: "\<forall>pc \<in> set L'. pc_req pc < length (replicate (length reqs) ([] :: int list))"
      using X by (auto simp: L' E)
    note fu = foldl_update_nth[OF dR bound, where g = "\<lambda>pc. drop_short (pc_n_min pc) (dc_drafts (pc_chain pc))"]
    show len: "length rs = length (map (\<lambda>(r, x). drop_short (rq_n_min r) (fst (snd (snd x)))) (outcomes cfg net st 0 reqs))"
      unfolding rs fu(1) by (simp add: outcomes_def)
    fix i assume "i < length rs"
    then have i: "i < length reqs" unfolding rs fu(1) by simp
    let ?r = "reqs ! i"
    have o: "map (\<lambda>(r, x). drop_short (rq_n_min r) (fst (snd (snd x)))) (outcomes cfg net st 0 reqs) ! i
        = drop_short (rq_n_min ?r) (fst (snd (snd (solo cfg net st i ?r))))"
      using i by (simp add: outcomes_def nth_enumerate_eq)
    show "rs ! i = map (\<lambda>(r, x). drop_short (rq_n_min r) (fst (snd (snd x)))) (outcomes cfg net st 0 reqs) ! i"
    proof (cases "can_draft cfg st ?r")
      case True
      then have x: "(i, ?r) \<in> set ?X" using i by (simp add: lane_reqs_in)
      then have "?E (i, ?r) \<in> set L'" by (force simp: L')
      from fu(2)[OF this] show ?thesis unfolding o using True
        by (simp add: rs E solo_def ended_def split: prod.splits)
    next
      case False
      have "i \<notin> pc_req ` set L'"
        using X False by (auto simp: L' E)
      from fu(3)[OF this] show ?thesis unfolding o using False i by (simp add: rs solo_def drop_short_def)
    qed
  qed
qed

end
