(* ===== verification/MtpKv.thy ===== *)
theory MtpKv
  imports MtpDraft
begin

section \<open>What the companion's rows hold\<close>

text \<open>
  The row at position \<open>q\<close> of a sequence must hold the token at \<open>q\<close> with the target's hidden row after
  the token before it.  A history lists these pairs; committing accepted tokens extends it, and drafting
  leaves the rows of the history as they are, whether it starts from a cached token or rewrites the
  newest row.
\<close>

type_synonym 'h history = "(int \<times> 'h) list"

definition row_at :: "nat \<Rightarrow> int \<times> 'h \<Rightarrow> 'h mrow" where
  "row_at q x = \<lparr>mr_tok = fst x, mr_pos = int q, mr_hid = snd x\<rparr>"

definition rows_of :: "'h history \<Rightarrow> 'h mrow list" where
  "rows_of hist = map2 row_at [0..<length hist] hist"

lemma rows_of_Nil [simp]: "rows_of [] = []"
  by (simp add: rows_of_def)

lemma rows_of_snoc [simp]: "rows_of (hist @ [x]) = rows_of hist @ [row_at (length hist) x]"
  by (simp add: rows_of_def)

lemma rows_of_append: "rows_of (hist @ xs) = rows_of hist @ map2 row_at [length hist..<length hist + length xs] xs"
proof (induction xs rule: rev_induct)
  case (snoc x xs)
  have "rows_of (hist @ xs @ [x]) = rows_of (hist @ xs) @ [row_at (length hist + length xs) x]"
    using rows_of_snoc[of "hist @ xs" x] by simp
  with snoc show ?case by simp
qed simp

text \<open>A round without a draft leaves positions without a row behind: the rows of a history but those at the
  positions \<open>L\<close>.\<close>

definition rows_but :: "nat set \<Rightarrow> 'h history \<Rightarrow> 'h mrow list" where
  "rows_but L hist = map (\<lambda>q. row_at q (hist ! q)) (filter (\<lambda>q. q \<notin> L) [0..<length hist])"

lemma rows_but_empty [simp]: "rows_but {} hist = rows_of hist"
  by (intro nth_equalityI) (simp_all add: rows_but_def rows_of_def)

lemma rows_but_Nil [simp]: "rows_but L [] = []"
  by (simp add: rows_but_def)

lemma rows_but_snoc [simp]: "rows_but L (hist @ [x]) = rows_but L hist @ (if length hist \<in> L then [] else [row_at (length hist) x])"
proof -
  have "map (\<lambda>q. row_at q ((hist @ [x]) ! q)) (filter (\<lambda>q. q \<notin> L) [0..<length hist]) = rows_but L hist"
    unfolding rows_but_def by (intro map_cong) (auto simp: nth_append)
  then show ?thesis by (simp add: rows_but_def)
qed

lemma rows_but_append:
  "L \<subseteq> {..<length hist} \<Longrightarrow> rows_but L (hist @ xs) = rows_but L hist @ map2 row_at [length hist..<length hist + length xs] xs"
proof (induction xs rule: rev_induct)
  case (snoc x xs)
  have "length hist + length xs \<notin> L" using snoc.prems by auto
  then have "rows_but L (hist @ xs @ [x]) = rows_but L (hist @ xs) @ [row_at (length hist + length xs) x]"
    using rows_but_snoc[of L "hist @ xs" x] by simp
  with snoc show ?case by simp
qed simp

lemma rows_but_insert: "rows_but (insert (length hist) L) (hist @ [x]) = rows_but L hist"
proof -
  have "rows_but (insert (length hist) L) hist = rows_but L hist"
    unfolding rows_but_def by (intro arg_cong[of _ _ "map _"] filter_cong) auto
  then show ?thesis by simp
qed

lemma rows_but_pos: "r \<in> set (rows_but L hist) \<Longrightarrow> 0 \<le> mr_pos r \<and> mr_pos r < int (length hist)"
  by (auto simp: rows_but_def row_at_def)

lemma pos_max_ge: "r \<in> set rows \<Longrightarrow> mr_pos r \<le> mtp_pos_max rows"
proof -
  have "x \<le> foldl max a xs \<and> (\<forall>y \<in> set xs. y \<le> foldl max a xs)" if "x \<le> a" for x a and xs :: "int list"
    using that
  proof (induction xs arbitrary: a x)
    case (Cons y ys)
    have "y \<le> foldl max (max a y) ys \<and> (\<forall>z \<in> set ys. z \<le> foldl max (max a y) ys)" using Cons.IH[of y "max a y"] by simp
    moreover have "x \<le> foldl max (max a y) ys" using Cons.IH[of x "max a y"] Cons.prems by simp
    ultimately show ?case by simp
  qed simp
  from this[of 0 0 "map mr_pos rows"] show "r \<in> set rows \<Longrightarrow> mr_pos r \<le> mtp_pos_max rows" by (simp add: mtp_pos_max_def)
qed

lemma rows_rm_none: "\<forall>r \<in> set rows. mr_pos r < p0 \<Longrightarrow> 0 \<le> p0 \<Longrightarrow> rows_rm p0 p1 rows = rows"
  unfolding rows_rm_def by (rule filter_True) fastforce

lemma rows_rm_all: "\<forall>r \<in> set rows. p0 \<le> mr_pos r \<and> mr_pos r < p1 \<Longrightarrow> 0 \<le> p0 \<Longrightarrow> rows_rm p0 p1 rows = []"
  unfolding rows_rm_def by (rule filter_False) fastforce

lemma rows_rm_append: "rows_rm p0 p1 (a @ b) = rows_rm p0 p1 a @ rows_rm p0 p1 b"
  by (simp add: rows_rm_def)

lemma rows_but_below: "int (length hist) \<le> p0 \<Longrightarrow> rows_rm p0 p1 (rows_but L hist) = rows_but L hist"
  using rows_but_pos[of _ L hist] by (intro rows_rm_none) fastforce+

lemma rows_but_trim: "rows_rm (int (length hist)) (-1) (rows_but L (hist @ [x])) = rows_but L hist"
  by (simp only: rows_but_snoc rows_rm_append rows_but_below order_refl) (auto simp: rows_rm_def row_at_def)

lemma clean_rows_but:
  assumes "kv s = rows_but L hist" "int (length hist) \<le> p"
  shows "commit_clean s p kv s = rows_but L hist"
  using assms by (simp add: commit_clean_def mtp_seq_rm_def rows_but_below)

subsection \<open>The rows the serial loop writes\<close>

definition wrote :: "int \<Rightarrow> 'h draft_loop \<Rightarrow> 'h draft_loop \<Rightarrow> 'h mrow list \<Rightarrow> bool" where
  "wrote s d d' new \<longleftrightarrow> dl_kv d' = (dl_kv d)(s := dl_kv d s @ new)
     \<and> dl_n_decode d' = dl_n_decode d + int (length new)
     \<and> map mr_pos new = map (\<lambda>k. dl_n_past d + int k) [0..<length new]
     \<and> (new \<noteq> [] \<longrightarrow> mr_tok (hd new) = dl_cur_id d \<and> mr_hid (hd new) = dl_hid d)"

lemma iter_writes:
  assumes "\<not> mc_constant cfg" "\<And>rows r. net rows r \<noteq> None" "draft_iter cfg net s n_past p hp d = (d', go)"
  shows "wrote s d d' [\<lparr>mr_tok = dl_cur_id d, mr_pos = dl_n_past d, mr_hid = dl_hid d\<rparr>]"
    and "go \<Longrightarrow> dl_n_past d' = dl_n_past d + 1"
proof -
  let ?r = "\<lparr>mr_tok = dl_cur_id d, mr_pos = dl_n_past d, mr_hid = dl_hid d\<rparr>"
  obtain out where o: "net (dl_kv d s) ?r = Some out" using assms(2) by blast
  have "dl_kv (fst (draft_iter cfg net s n_past p hp d)) = (dl_kv d)(s := dl_kv d s @ [?r])
      \<and> dl_n_decode (fst (draft_iter cfg net s n_past p hp d)) = dl_n_decode d + 1
      \<and> (snd (draft_iter cfg net s n_past p hp d) \<longrightarrow> dl_n_past (fst (draft_iter cfg net s n_past p hp d)) = dl_n_past d + 1)"
    using assms(1) o by (simp add: draft_iter_def Let_def split: option.split)
  then have "dl_kv d' = (dl_kv d)(s := dl_kv d s @ [?r]) \<and> dl_n_decode d' = dl_n_decode d + 1 \<and> (go \<longrightarrow> dl_n_past d' = dl_n_past d + 1)"
    using assms(3) by simp
  then show "wrote s d d' [?r]" "go \<Longrightarrow> dl_n_past d' = dl_n_past d + 1" by (simp_all add: wrote_def)
qed

lemma wrote_step:
  assumes "wrote s d d1 [r]" "wrote s d1 d2 new" "dl_n_past d1 = dl_n_past d + 1"
  shows "wrote s d d2 (r # new)"
proof -
  have "map mr_pos new = map (\<lambda>k. dl_n_past d + 1 + int k) [0..<length new]" using assms by (simp add: wrote_def)
  also have "\<dots> = map (\<lambda>k. dl_n_past d + int k) [Suc 0..<Suc (length new)]"
    by (simp only: map_Suc_upt[symmetric] map_map) (simp add: o_def algebra_simps)
  finally have "map mr_pos (r # new) = map (\<lambda>k. dl_n_past d + int k) [0..<Suc (length new)]"
    using assms(1) by (simp add: wrote_def upt_conv_Cons del: upt_Suc)
  then show ?thesis using assms by (simp add: wrote_def)
qed

lemma iters_write:
  assumes "\<not> mc_constant cfg" "\<And>rows r. net rows r \<noteq> None"
  shows "\<exists>new. wrote s d (draft_iters cfg net s n_past p hp k d) new \<and> (0 < k \<longrightarrow> new \<noteq> [])"
proof (induction k arbitrary: d)
  case 0
  show ?case by (intro exI[of _ "[]"]) (simp add: wrote_def)
next
  case (Suc k)
  obtain d' go where it: "draft_iter cfg net s n_past p hp d = (d', go)" by fastforce
  note w = iter_writes[OF assms it]
  show ?case
  proof (cases go)
    case True
    from Suc[of d'] obtain new where "wrote s d' (draft_iters cfg net s n_past p hp k d') new" by blast
    from wrote_step[OF w(1) this w(2)[OF True]] it True show ?thesis by auto
  next
    case False
    with w(1) it show ?thesis by auto
  qed
qed

subsection \<open>Drafting keeps the history\<close>

definition depths_ok :: "mtp_cfg \<Rightarrow> bool" where
  "depths_ok cfg \<longleftrightarrow> (\<forall>(d, n) \<in> set (mc_cap_pts cfg). 1 \<le> n) \<and> 1 \<le> mc_deep_base cfg
     \<and> 1 \<le> sk_deep (mc_streak cfg) \<and> 1 \<le> sk_cap (mc_streak cfg)"

lemma serial_depth_pos:
  assumes "depths_ok cfg" "0 < n"
  shows "0 < fst (serial_depth cfg st n_past n p)"
proof -
  have "1 \<le> cap_scan ps n cap" if "\<forall>(d, n) \<in> set ps. 1 \<le> n" "1 \<le> cap" for ps n cap
    using that by (induction ps n cap rule: cap_scan.induct) auto
  then have "1 \<le> depth_nmax_cap cfg n_past" using assms by (simp add: depths_ok_def depth_nmax_cap_def)
  then have n: "0 < min n (depth_nmax_cap cfg n_past)" using assms(2) by simp
  have "0 < fst (deep_apply cfg e m p)" if "0 < m" for e m
    using that assms(1) by (simp add: deep_apply_def depths_ok_def)
  moreover have "0 < streak_depth (mc_streak cfg) m b" if "0 < m" for m b
    using that assms(1) by (simp add: streak_depth_def depths_ok_def)
  moreover have "0 < (if mc_adaptive_k cfg \<and> m > 1 then (if e \<ge> x then m else if e \<ge> y then min m 2 else 1) else m)"
    if "0 < m" for m :: int and e x y :: rat
    using that by simp
  ultimately show ?thesis using n
    unfolding serial_depth_def Let_def by (cases "mc_deep_on cfg"; cases "sk_on (mc_streak cfg)") (simp_all only: if_True if_False split_beta prod.collapse fst_conv prod.case)
qed

lemma new_rows_pos:
  assumes "wrote s d d' new" "r \<in> set new"
  shows "dl_n_past d \<le> mr_pos r \<and> mr_pos r < dl_n_past d + int (length new)"
proof -
  have "mr_pos r \<in> set (map mr_pos new)" using assms(2) by simp
  moreover have "map mr_pos new = map (\<lambda>k. dl_n_past d + int k) [0..<length new]" using assms(1) by (simp add: wrote_def)
  ultimately show ?thesis by (simp only:) auto
qed

text \<open>The rows after the tail, from a start with a cached token and from a start without one.\<close>

lemma finish_cached:
  assumes "wrote s d d' new" "dl_kv d s = rows_but L hist" "dl_n_past d = int (length hist)" "dl_n_decode d = 0"
  shows "rows_rm (int (length hist)) (int (length hist) - 1 + dl_n_decode d' + 2) (dl_kv d' s) = rows_but L hist"
proof -
  have "rows_rm (int (length hist)) (int (length hist) - 1 + dl_n_decode d' + 2) new = []"
    using new_rows_pos[OF assms(1)] assms by (intro rows_rm_all) (force simp: wrote_def)+
  then show ?thesis using assms(1,2) by (simp add: wrote_def rows_rm_append rows_but_below)
qed

lemma finish_fresh:
  assumes "wrote s d d' new" "new \<noteq> []" "dl_kv d s = rows_but L hist" "dl_n_past d = int (length hist)" "dl_n_decode d = 0"
    and "dl_cur_id d = fst x" "dl_hid d = snd x" "length hist \<notin> L"
  shows "rows_rm (int (length hist) + 1) (int (length hist) + dl_n_decode d' + 2) (dl_kv d' s) = rows_but L (hist @ [x])"
proof -
  obtain r rs where new: "new = r # rs" using assms(2) by (cases new) auto
  have w: "dl_kv d' s = rows_but L hist @ r # rs" "dl_n_decode d' = 1 + int (length rs)" "mr_tok r = fst x" "mr_hid r = snd x"
    using assms by (simp_all add: wrote_def new)
  have "map mr_pos (r # rs) = map (\<lambda>k. int (length hist) + int k) [0..<Suc (length rs)]"
    using assms(1,4) by (simp add: wrote_def new del: upt_Suc)
  then have r0: "mr_pos r = int (length hist)" and rs: "map mr_pos rs = map (\<lambda>k. int (length hist) + int k) [Suc 0..<Suc (length rs)]"
    by (simp_all add: upt_conv_Cons del: upt_Suc)
  have r: "r = row_at (length hist) x" using w(3,4) r0 by (simp add: row_at_def)
  have "int (length hist) + 1 \<le> mr_pos q \<and> mr_pos q < int (length hist) + dl_n_decode d' + 2" if "q \<in> set rs" for q
  proof -
    have "mr_pos q \<in> set (map mr_pos rs)" using that by simp
    then show ?thesis unfolding rs w(2) by (auto simp del: upt_Suc)
  qed
  then have "rows_rm (int (length hist) + 1) (int (length hist) + dl_n_decode d' + 2) rs = []"
    by (intro rows_rm_all) auto
  moreover have "rows_rm (int (length hist) + 1) p1 (rows_but L (hist @ [x])) = rows_but L (hist @ [x])" for p1
    by (rule rows_but_below) simp
  moreover have "dl_kv d' s = rows_but L (hist @ [x]) @ rs" using w(1) r assms(8) by simp
  ultimately show ?thesis by (simp only: rows_rm_append append_Nil2)
qed

subsection \<open>Every operation on one sequence\<close>

definition full :: "'h mtp_state \<Rightarrow> int \<Rightarrow> 'h history \<Rightarrow> bool" where
  "full st s hist \<longleftrightarrow> ms_kv st s = rows_of hist"

text \<open>The rows of a history less the positions that were left behind.\<close>

definition written :: "'h mtp_state \<Rightarrow> int \<Rightarrow> nat set \<Rightarrow> 'h history \<Rightarrow> bool" where
  "written st s L hist \<longleftrightarrow> ms_kv st s = rows_but L hist"

text \<open>The newest pair of the history may have no row yet, then no token is cached.\<close>

definition companion_ok :: "'h mtp_state \<Rightarrow> int \<Rightarrow> 'h history \<Rightarrow> bool" where
  "companion_ok st s hist \<longleftrightarrow> hist \<noteq> []
     \<and> (full st s hist \<or> ms_kv st s = rows_of (butlast hist) \<and> le_last_id (ms_last st s) < 0)
     \<and> (ms_target_hidden st s = None \<or> ms_target_hidden st s = Some (snd (List.last hist)))"

definition companion_but :: "nat set \<Rightarrow> 'h mtp_state \<Rightarrow> int \<Rightarrow> 'h history \<Rightarrow> bool" where
  "companion_but L st s hist \<longleftrightarrow> hist \<noteq> [] \<and> L \<subseteq> {..<length hist - 1}
     \<and> (written st s L hist \<or> ms_kv st s = rows_but L (butlast hist) \<and> le_last_id (ms_last st s) < 0)
     \<and> (ms_target_hidden st s = None \<or> ms_target_hidden st s = Some (snd (List.last hist)))"

lemma companion_but_empty: "companion_but {} st s hist = companion_ok st s hist"
  by (simp add: companion_but_def companion_ok_def written_def full_def)

lemma split_hist: "hist \<noteq> [] \<Longrightarrow> \<exists>h0 x. hist = h0 @ [x]"
  by (metis append_butlast_last_id)

lemma trimmed:
  assumes "rows = rows_but L (h0 @ [x]) \<or> rows = rows_but L h0"
  shows "rows_rm (int (length h0)) (-1) rows = rows_but L h0"
  using assms rows_but_trim[of h0 L x] rows_but_below[of h0 "int (length h0)" "-1" L] by auto

lemma clean_trims:
  assumes "kv s = rows_but L (h0 @ [x]) \<or> kv s = rows_but L h0"
  shows "commit_clean s (int (length h0)) kv = kv(s := rows_but L h0)"
proof (cases "int (length h0) \<le> mtp_pos_max (kv s)")
  case True
  then show ?thesis using trimmed[OF assms] by (simp add: commit_clean_def mtp_seq_rm_def)
next
  case False
  have "kv s \<noteq> rows_but L (h0 @ [x])" if "length h0 \<notin> L"
  proof -
    have "row_at (length h0) x \<in> set (rows_but L (h0 @ [x]))" using that by simp
    from pos_max_ge[OF this] False show ?thesis by (auto simp: row_at_def)
  qed
  with assms have "kv s = rows_but L h0" by (auto split: if_splits)
  with False show ?thesis by (auto simp: commit_clean_def)
qed

lemma decode_rows:
  assumes "\<And>rows r. net rows r \<noteq> None"
  shows "\<exists>outs. companion_decode net (map (\<lambda>r. (s, r)) rows) kv = Some (kv(s := kv s @ rows), outs)"
proof (induction rows arbitrary: kv)
  case (Cons r rows)
  obtain out where "net (kv s) r = Some out" using assms by blast
  moreover have "\<exists>outs. companion_decode net (map (\<lambda>r. (s, r)) rows) (kv(s := kv s @ [r])) = Some (kv(s := kv s @ r # rows), outs)"
    using Cons[of "kv(s := kv s @ [r])"] by (simp only: fun_upd_same fun_upd_upd append_assoc append_Cons append_Nil)
  ultimately show ?case by (auto simp: fun_eq_iff)
qed simp

text \<open>The draft of one sequence, with the position and token the history ends in.\<close>

definition draft_cfg_ok :: "mtp_cfg \<Rightarrow> int \<Rightarrow> bool" where
  "draft_cfg_ok cfg s \<longleftrightarrow> \<not> mc_constant cfg \<and> depths_ok cfg \<and> (mc_n_seq_max cfg \<le> 1 \<longrightarrow> s = 0)"

lemma kv_seq_is: "draft_cfg_ok cfg s \<Longrightarrow> (if mc_n_seq_max cfg \<le> 1 then 0 else s) = s"
  by (simp add: draft_cfg_ok_def)

lemma pre_purge_trims:
  assumes "\<not> mc_constant cfg" "dl_i d = 0" "dl_kv d s = rows_but L (h0 @ [x]) \<or> dl_kv d s = rows_but L h0"
  shows "pre_purge cfg s (int (length h0)) d = d\<lparr>dl_kv := (dl_kv d)(s := rows_but L h0)\<rparr>"
  using clean_trims[of "dl_kv d" s L h0 x, OF assms(3)] assms(1,2) by (auto simp: pre_purge_def commit_clean_def mtp_seq_rm_def split: if_splits)

lemma finish_rows:
  assumes "dl_n_decode d = 0 \<Longrightarrow> dl_kv d s = rows"
    and "0 < dl_n_decode d \<Longrightarrow> rows_rm (n_past + 1) (n_past + dl_n_decode d + 2) (dl_kv d s) = rows"
    and "0 \<le> dl_n_decode d" "\<And>q. q \<noteq> s \<Longrightarrow> dl_kv d q = kv0 q"
  shows "ms_kv (draft_finish cfg s s n_past d st) = kv0(s := rows)"
  using assms by (cases "dl_n_decode d = 0") (auto simp: draft_finish_def mtp_seq_rm_def draft_region_pos0_def fun_eq_iff)

lemma wrote_others: "wrote s d d' new \<Longrightarrow> q \<noteq> s \<Longrightarrow> dl_kv d' q = dl_kv d q"
  by (simp add: wrote_def)

lemma wrote_counts: "wrote s d d' new \<Longrightarrow> dl_n_decode d = 0 \<Longrightarrow> dl_n_decode d' = int (length new)"
  by (simp add: wrote_def)

lemma finish_from_cached:
  assumes "wrote s d d' new" "dl_kv d = kv" "kv s = rows_but L hist" "dl_n_past d = int (length hist)" "dl_n_decode d = 0"
  shows "ms_kv (draft_finish cfg s s (int (length hist) - 1) d' st) = kv"
proof -
  have "ms_kv (draft_finish cfg s s (int (length hist) - 1) d' st) = kv(s := rows_but L hist)"
  proof (rule finish_rows)
    show "dl_kv d' s = rows_but L hist" if "dl_n_decode d' = 0"
      using assms wrote_counts[OF assms(1,5)] that by (simp add: wrote_def)
    show "rows_rm (int (length hist) - 1 + 1) (int (length hist) - 1 + dl_n_decode d' + 2) (dl_kv d' s) = rows_but L hist"
      using finish_cached[OF assms(1) _ assms(4,5)] assms(2,3) by simp
    show "0 \<le> dl_n_decode d'" using wrote_counts[OF assms(1,5)] by simp
    show "dl_kv d' q = kv q" if "q \<noteq> s" for q using wrote_others[OF assms(1) that] assms(2) by simp
  qed
  then show ?thesis using assms(3) by auto
qed

lemma finish_from_fresh:
  assumes "wrote s d d' new" "new \<noteq> []" "dl_kv d = kv(s := rows_but L h0)" "dl_n_past d = int (length h0)" "dl_n_decode d = 0"
    and "dl_cur_id d = fst x" "dl_hid d = snd x" "length h0 \<notin> L"
  shows "ms_kv (draft_finish cfg s s (int (length h0)) d' st) = kv(s := rows_but L (h0 @ [x]))"
proof (rule finish_rows)
  have pos: "0 < dl_n_decode d'" using wrote_counts[OF assms(1,5)] assms(2) by simp
  then show "0 \<le> dl_n_decode d'" by simp
  show "dl_kv d' s = rows_but L (h0 @ [x])" if "dl_n_decode d' = 0" using pos that by simp
  show "rows_rm (int (length h0) + 1) (int (length h0) + dl_n_decode d' + 2) (dl_kv d' s) = rows_but L (h0 @ [x])"
    using assms(3) by (intro finish_fresh[OF assms(1,2) _ assms(4-8)]) simp
  show "dl_kv d' q = kv q" if "q \<noteq> s" for q using wrote_others[OF assms(1) that] assms(3) that by simp
qed

end
