(* ===== verification/MtpHist.thy ===== *)
theory MtpHist
  imports MtpKv
begin

section \<open>Drafting, committing and warming up in any order\<close>

text \<open>
  Each operation on one sequence against the history its companion rows should hold, and the runs that
  compose them over all sequences.
\<close>

subsection \<open>A draft\<close>

lemma gen_draft_target:
  "ms_target_hidden (fst (gen_draft cfg net n p idl np s h st)) q = None
   \<or> ms_target_hidden (fst (gen_draft cfg net n p idl np s h st)) q = ms_target_hidden st q"
  by (simp add: gen_draft_def draft_finish_def invalidate_cached_def Let_def split: prod.split)

lemma gen_draft_others:
  assumes "draft_cfg_ok cfg s" "\<And>rows r. net rows r \<noteq> None" "q \<noteq> s"
  shows "ms_kv (fst (gen_draft cfg net n p idl np s h st)) q = ms_kv st q
    \<and> ms_target_hidden (fst (gen_draft cfg net n p idl np s h st)) q = ms_target_hidden st q
    \<and> ms_last (fst (gen_draft cfg net n p idl np s h st)) q = ms_last st q"
proof -
  have kv: "dl_kv (draft_iters cfg net s np p1 hp k (pre_purge cfg s np (fst (draft_start st s n1 p1 idl np h)))) q = ms_kv st q" for p1 hp k n1
  proof -
    have c: "\<not> mc_constant cfg" using assms(1) by (simp add: draft_cfg_ok_def)
    from iters_write[where net = net, OF c assms(2)] obtain new where
      "wrote s (pre_purge cfg s np (fst (draft_start st s n1 p1 idl np h)))
         (draft_iters cfg net s np p1 hp k (pre_purge cfg s np (fst (draft_start st s n1 p1 idl np h)))) new" by blast
    from wrote_others[OF this assms(3)] assms(3) show ?thesis
      by (simp add: pre_purge_def draft_start_def mtp_seq_rm_def Let_def)
  qed
  show ?thesis unfolding gen_draft_def kv_seq_is[OF assms(1)] Let_def split_beta
    using assms(3) kv by (simp add: draft_finish_def invalidate_cached_def mtp_seq_rm_def)
qed

lemma gen_draft_rows:
  assumes cfg: "draft_cfg_ok cfg s" and net: "\<And>rows r. net rows r \<noteq> None"
    and rows: "ms_kv st s = rows_but L (h0 @ [x]) \<or> ms_kv st s = rows_but L h0 \<and> le_last_id (ms_last st s) < 0"
    and new: "length h0 \<notin> L" and n: "0 < n"
  shows "ms_kv (fst (gen_draft cfg net n p (fst x) (int (length h0)) s (snd x) st)) s = rows_but L (h0 @ [x])"
proof -
  have c: "\<not> mc_constant cfg" "depths_ok cfg" using cfg by (simp_all add: draft_cfg_ok_def)
  obtain n1 p1 where sd: "serial_depth cfg st (int (length h0)) n p = (n1, p1)" by fastforce
  with serial_depth_pos[OF c(2) n] have n1: "0 < n1" by (metis fst_conv)
  define hp where "hp = (p1 > 0 \<or> mc_stats cfg \<or> mc_cut_floor cfg (int (length h0)) > 0)"
  define d0 where "d0 = fst (draft_start st s n1 p1 (fst x) (int (length h0)) (snd x))"
  define n' where "n' = snd (draft_start st s n1 p1 (fst x) (int (length h0)) (snd x))"
  define d1 where "d1 = pre_purge cfg s (int (length h0)) d0"
  define d2 where "d2 = draft_iters cfg net s (int (length h0)) p1 hp (nat (n' - dl_i d1)) d1"
  obtain new where w: "wrote s d1 d2 new" "0 < nat (n' - dl_i d1) \<longrightarrow> new \<noteq> []"
    using iters_write[where net = net, OF c(1) net] unfolding d2_def by blast
  have kv: "ms_kv (draft_finish cfg s s (int (length h0)) d2 st) s = rows_but L (h0 @ [x])"
  proof (cases "0 \<le> le_last_id (ms_last st s)")
    case True
    then have full: "ms_kv st s = rows_but L (h0 @ [x])" using rows by simp
    have "d1 = d0" using True by (simp add: d1_def d0_def draft_start_def pre_purge_def Let_def)
    then have "dl_kv d1 = ms_kv st" "dl_n_past d1 = int (length (h0 @ [x]))" "dl_n_decode d1 = 0"
      using True by (simp_all add: d0_def draft_start_def Let_def)
    from finish_from_cached[OF w(1) this(1) full this(2,3), of cfg st] full show ?thesis by simp
  next
    case False
    then have n'n: "n' = n1" "dl_i d0 = 0" "dl_kv d0 = ms_kv st" by (simp_all add: n'_def d0_def draft_start_def Let_def)
    have d1: "d1 = d0\<lparr>dl_kv := (ms_kv st)(s := rows_but L h0)\<rparr>"
      using pre_purge_trims[OF c(1) n'n(2), of s L h0 x] rows n'n(3) by (auto simp: d1_def)
    then have "new \<noteq> []" using w(2) n1 n'n by simp
    from finish_from_fresh[OF w(1) this, of "ms_kv st" L h0 x cfg st] new show ?thesis
      using False by (simp add: d1 d0_def draft_start_def Let_def)
  qed
  show ?thesis
  proof (cases "le_last_id (ms_last st s) \<ge> 0 \<and> first_gate_drop (mc_first_gate cfg) p1 True (le_prob (ms_last st s)) False (mc_spec_exact cfg)")
    case True
    then have "ms_kv st s = rows_but L (h0 @ [x])" using rows by auto
    then show ?thesis using True n c(1) unfolding gen_draft_def kv_seq_is[OF cfg] sd Let_def by simp
  next
    case False
    then have g: "(le_last_id (ms_last st s) \<ge> 0 \<and> \<not> mc_constant cfg
        \<and> first_gate_drop (mc_first_gate cfg) p1 True (le_prob (ms_last st s)) False (mc_spec_exact cfg)) = False" by blast
    have "(n \<le> 0) = False" using n by simp
    then have "gen_draft cfg net n p (fst x) (int (length h0)) s (snd x) st = (draft_finish cfg s s (int (length h0)) d2 st, dl_drafts d2)"
      unfolding gen_draft_def kv_seq_is[OF cfg] sd Let_def d2_def d1_def d0_def n'_def hp_def
      by (simp only: g if_False prod.case split_beta fst_conv snd_conv)
    then show ?thesis using kv by simp
  qed
qed

lemma not_full_uncached:
  "companion_but L st s (h0 @ [x]) \<Longrightarrow>
     ms_kv st s = rows_but L (h0 @ [x]) \<or> ms_kv st s = rows_but L h0 \<and> le_last_id (ms_last st s) < 0"
  by (simp add: companion_but_def written_def)

lemma gen_draft_skips:
  "n \<le> 0 \<Longrightarrow> gen_draft cfg net n p idl np s h st = (invalidate_cached s st, [])"
  by (simp add: gen_draft_def Let_def)

lemma invalidate_keeps:
  "ms_kv (invalidate_cached s st) = ms_kv st" "ms_target_hidden (invalidate_cached s st) = ms_target_hidden st"
  "le_last_id (ms_last (invalidate_cached s st) s) < 0" "q \<noteq> s \<Longrightarrow> ms_last (invalidate_cached s st) q = ms_last st q"
  by (simp_all add: invalidate_cached_def)

text \<open>A request that continues the history of its sequence.\<close>

definition continues :: "mtp_req \<Rightarrow> 'h history \<Rightarrow> bool" where
  "continues r hist \<longleftrightarrow> rq_base_pos r = int (length hist) - 1 \<and> rq_id_last r = fst (List.last hist)"

lemma mtp_draft_rows:
  assumes cfg: "draft_cfg_ok cfg (rq_seq r)" and net: "\<And>rows r. net rows r \<noteq> None"
    and ok: "companion_but L st (rq_seq r) hist" and r: "continues r hist"
  shows "companion_but L (fst (mtp_draft cfg net r st)) (rq_seq r) hist"
    and "ms_target_hidden st (rq_seq r) \<noteq> None \<Longrightarrow> 0 < rq_n_max r \<Longrightarrow> written (fst (mtp_draft cfg net r st)) (rq_seq r) L hist"
proof -
  let ?s = "rq_seq r"
  from ok have ne: "hist \<noteq> []" by (simp add: companion_but_def)
  from split_hist[OF ne] obtain h0 x where h: "hist = h0 @ [x]" by blast
  have behind: "length h0 \<notin> L" using ok by (auto simp: companion_but_def h)
  have base: "rq_base_pos r = int (length h0)" "rq_id_last r = fst x" using r by (simp_all add: continues_def h)
  have draft: "mtp_draft cfg net r st = gen_draft cfg net (rq_n_max r) (rq_p_min r) (fst x) (int (length h0)) ?s (snd x) st"
    if "ms_target_hidden st ?s \<noteq> None"
    using that ok base by (auto simp: mtp_draft_def companion_but_def h)
  have rows: "ms_kv (fst (mtp_draft cfg net r st)) ?s = rows_but L hist" if "ms_target_hidden st ?s \<noteq> None" "0 < rq_n_max r"
    unfolding draft[OF that(1)] h by (rule gen_draft_rows[OF cfg net not_full_uncached[OF ok[unfolded h]] behind that(2)])
  then show "written (fst (mtp_draft cfg net r st)) ?s L hist" if "ms_target_hidden st ?s \<noteq> None" "0 < rq_n_max r"
    using that by (simp add: written_def)
  show "companion_but L (fst (mtp_draft cfg net r st)) ?s hist"
  proof (cases "ms_target_hidden st ?s = None")
    case True
    then have "mtp_draft cfg net r st = (st, [])" by (simp add: mtp_draft_def Let_def)
    then show ?thesis using ok by simp
  next
    case False
    show ?thesis
    proof (cases "0 < rq_n_max r")
      case True
      from rows[OF False True] gen_draft_target[of cfg net "rq_n_max r" "rq_p_min r" "fst x" "int (length h0)" ?s "snd x" st ?s] ok
      show ?thesis unfolding draft[OF False] companion_but_def written_def by metis
    next
      case n: False
      then show ?thesis using ok by (simp add: draft[OF False] gen_draft_skips companion_but_def written_def invalidate_keeps) blast
    qed
  qed
qed

lemma mtp_draft_others:
  assumes "draft_cfg_ok cfg (rq_seq r)" "\<And>rows r. net rows r \<noteq> None" "q \<noteq> rq_seq r"
  shows "companion_but L (fst (mtp_draft cfg net r st)) q hist = companion_but L st q hist"
  using gen_draft_others[where net = net, OF assms] by (simp add: mtp_draft_def companion_but_def written_def Let_def split: option.split)

lemma mtp_draft_kv_others:
  assumes "draft_cfg_ok cfg (rq_seq r)" "\<And>rows r. net rows r \<noteq> None" "q \<noteq> rq_seq r"
  shows "ms_kv (fst (mtp_draft cfg net r st)) q = ms_kv st q"
  using gen_draft_others[where net = net, OF assms] by (simp add: mtp_draft_def Let_def split: option.split)

subsection \<open>A commit\<close>

lemma commit_rows_are:
  assumes "cq_pos_base q = int (length hist) - 1" "commit_ok q"
  shows "commit_rows q = map2 row_at [length hist..<length hist + length (cq_ids q)] (zip (cq_ids q) (cq_rows q))"
  using assms by (intro nth_equalityI) (auto simp: commit_rows_def commit_ok_def commit_pos_def row_at_def)

lemma accept_batch_rows:
  assumes "mc_n_seq_max cfg \<le> 1 \<longrightarrow> s = 0" "\<And>rows r. net rows r \<noteq> None" "rows \<noteq> []"
  shows "\<exists>f. accept_batch cfg net s rows st
    = (st\<lparr>ms_kv := (ms_kv st)(s := commit_clean s (mr_pos (hd rows)) (ms_kv st) s @ rows), ms_last := f\<rparr>, True)
       \<and> (\<forall>q. q \<noteq> s \<longrightarrow> f q = ms_last st q)"
proof -
  have seq: "(if mc_n_seq_max cfg \<le> 1 then 0 else s) = s" using assms(1) by simp
  let ?kv = "commit_clean s (mr_pos (hd rows)) (ms_kv st)"
  obtain outs where o: "companion_decode net (map (\<lambda>r. (s, r)) rows) ?kv = Some (?kv(s := ?kv s @ rows), outs)"
    using decode_rows[where net = net, OF assms(2)] by blast
  have kv: "?kv(s := ?kv s @ rows) = (ms_kv st)(s := ?kv s @ rows)" by (simp add: commit_clean_def mtp_seq_rm_def)
  let ?f = "if mc_zero_output cfg then (ms_last st)(s := (ms_last st s)\<lparr>le_last_id := -1\<rparr>)
    else (case mo_emb (List.last outs) of None \<Rightarrow> ms_last st
      | Some emb \<Rightarrow> (ms_last st)(s := \<lparr>le_embd = emb, le_prob = mo_gate_prob (List.last outs), le_last_id = mo_id (List.last outs)\<rparr>))"
  have "accept_batch cfg net s rows st = (st\<lparr>ms_kv := (ms_kv st)(s := ?kv s @ rows), ms_last := ?f\<rparr>, True)"
    unfolding accept_batch_def seq Let_def o by (simp add: assms(3) kv del: fun_upd_apply split: option.split)
  moreover have "\<forall>q. q \<noteq> s \<longrightarrow> ?f q = ms_last st q" by (simp split: option.split)
  ultimately show ?thesis by blast
qed

lemma commit_one_rows:
  assumes cfg: "draft_cfg_ok cfg (cq_seq q)" and net: "\<And>rows r. net rows r \<noteq> None"
    and full: "written st (cq_seq q) L hist" "L \<subseteq> {..<length hist}" and q: "cq_ids q \<noteq> []" "commit_ok q" "cq_pos_base q = int (length hist) - 1"
  shows "written (fst (commit_one cfg net q st)) (cq_seq q) L (hist @ zip (cq_ids q) (cq_rows q))"
    and "ms_target_hidden (fst (commit_one cfg net q st)) = (ms_target_hidden st)(cq_seq q \<mapsto> List.last (cq_rows q))"
    and "snd (commit_one cfg net q st)"
proof -
  let ?s = "cq_seq q" and ?st = "st\<lparr>ms_target_hidden := (ms_target_hidden st)(cq_seq q \<mapsto> List.last (cq_rows q))\<rparr>"
  have rows: "commit_rows q = map2 row_at [length hist..<length hist + length (cq_ids q)] (zip (cq_ids q) (cq_rows q))"
    by (rule commit_rows_are[OF q(3,2)])
  have ne: "commit_rows q \<noteq> []" and hd: "mr_pos (hd (commit_rows q)) = int (length hist)"
  proof -
    obtain y ys z zs where "cq_ids q = y # ys" "cq_rows q = z # zs"
      using q by (cases "cq_ids q"; cases "cq_rows q") (auto simp: commit_ok_def)
    then show "commit_rows q \<noteq> []" "mr_pos (hd (commit_rows q)) = int (length hist)"
      unfolding rows by (simp_all add: row_at_def upt_conv_Cons del: upt_Suc)
  qed
  have clean: "commit_clean ?s (int (length hist)) (ms_kv st) ?s = rows_but L hist"
    by (rule clean_rows_but) (use full(1) in \<open>simp_all add: written_def\<close>)
  have seq: "mc_n_seq_max cfg \<le> 1 \<longrightarrow> ?s = 0" using cfg by (simp add: draft_cfg_ok_def)
  obtain f where f: "accept_batch cfg net ?s (commit_rows q) ?st
      = (?st\<lparr>ms_kv := (ms_kv st)(?s := rows_but L hist @ commit_rows q), ms_last := f\<rparr>, True)" "\<forall>t. t \<noteq> ?s \<longrightarrow> f t = ms_last st t"
    using accept_batch_rows[where net = net and st = ?st, OF seq net ne] clean hd by auto
  have c: "commit_one cfg net q st = (?st\<lparr>ms_kv := (ms_kv st)(?s := rows_but L hist @ commit_rows q), ms_last := f\<rparr>, True)"
    using q cfg f(1) by (simp add: commit_one_def commit_ok_def draft_cfg_ok_def)
  show "written (fst (commit_one cfg net q st)) ?s L (hist @ zip (cq_ids q) (cq_rows q))"
    using q(2) unfolding c using full(2) by (simp add: written_def rows_but_append rows commit_ok_def)
  show "ms_target_hidden (fst (commit_one cfg net q st)) = (ms_target_hidden st)(?s \<mapsto> List.last (cq_rows q))" "snd (commit_one cfg net q st)"
    unfolding c by simp_all
qed

lemma commit_one_others:
  assumes cfg: "draft_cfg_ok cfg (cq_seq q)" and net: "\<And>rows r. net rows r \<noteq> None" and t: "t \<noteq> cq_seq q"
  shows "ms_kv (fst (commit_one cfg net q st)) t = ms_kv st t \<and> ms_last (fst (commit_one cfg net q st)) t = ms_last st t
    \<and> ms_target_hidden (fst (commit_one cfg net q st)) t = ms_target_hidden st t"
proof (cases "commit_rows q = []")
  case True
  then show ?thesis using t by (simp add: commit_one_def accept_batch_def invalidate_cached_def Let_def)
next
  case False
  have seq: "mc_n_seq_max cfg \<le> 1 \<longrightarrow> cq_seq q = 0" using cfg by (simp add: draft_cfg_ok_def)
  from accept_batch_rows[where net = net, OF seq net False, of "st\<lparr>ms_target_hidden := (ms_target_hidden st)(cq_seq q \<mapsto> List.last (cq_rows q))\<rparr>"]
  show ?thesis using t cfg by (auto simp: commit_one_def draft_cfg_ok_def)
qed

lemma last_zip: "xs \<noteq> [] \<Longrightarrow> length xs = length ys \<Longrightarrow> snd (List.last (zip xs ys)) = List.last ys"
  by (induction xs ys rule: list_induct2') auto

subsection \<open>A warm-up\<close>

text \<open>The batch starts at the newest token of the history, which may or may not have its row yet; \<open>x\<close> is the
  token that follows the batch.\<close>

definition warmed :: "bool \<Rightarrow> 'h history \<Rightarrow> int list \<Rightarrow> 'h list \<Rightarrow> int \<Rightarrow> 'h history" where
  "warmed shifted hist toks hids x =
     butlast hist @ zip toks (conditioned_rows shifted undefined (Some (List.last hids)) hids) @ [(x, List.last hids)]"

definition warms :: "(int \<times> int) list \<Rightarrow> 'h list \<Rightarrow> 'h history \<Rightarrow> bool" where
  "warms batch hids hist \<longleftrightarrow> batch \<noteq> [] \<and> length hids = length batch \<and> fst (hd batch) = fst (List.last hist)
     \<and> map snd batch = map (\<lambda>i. int (length hist) - 1 + int i) [0..<length batch]"

lemma prompt_warm_rows:
  assumes cfg: "draft_cfg_ok cfg s" and net: "\<And>rows r. net rows r \<noteq> None"
    and ok: "companion_but L st s hist" and w: "warms batch hids hist"
  shows "companion_but L (fst (prompt_warm cfg net shifted zero s batch hids st)) s (warmed shifted hist (map fst batch) hids x)"
    and "snd (prompt_warm cfg net shifted zero s batch hids st)"
    and "ms_kv (fst (prompt_warm cfg net shifted zero s batch hids st)) s = rows_but L (butlast (warmed shifted hist (map fst batch) hids x))"
proof -
  from ok have ne: "hist \<noteq> []" by (simp add: companion_but_def)
  from split_hist[OF ne] obtain h0 y where h: "hist = h0 @ [y]" by blast
  define fed where "fed = conditioned_rows shifted zero (Some (List.last hids)) hids"
  have fed: "fed = conditioned_rows shifted undefined (Some (List.last hids)) hids" by (simp add: fed_def conditioned_rows_def)
  define rows where "rows = map2 (\<lambda>(t, p) h. \<lparr>mr_tok = t, mr_pos = p, mr_hid = h\<rparr>) batch fed"
  have behind: "L \<subseteq> {..<length h0}" using ok by (simp add: companion_but_def h)
  have len: "length fed = length batch" using w by (auto simp: fed_def conditioned_rows_def warms_def)
  have pos: "snd (batch ! i) = int (length h0) + int i" if "i < length batch" for i
  proof -
    have "map snd batch ! i = int (length h0) + int i" using w that by (simp add: warms_def h)
    then show ?thesis using that by simp
  qed
  have "snd (hd batch) = int (length h0)" using w pos[of 0] by (simp add: warms_def hd_conv_nth)
  moreover have "commit_clean s (int (length h0)) (ms_kv st) = (ms_kv st)(s := rows_but L h0)"
    by (rule clean_trims) (use ok in \<open>auto simp: companion_but_def written_def h\<close>)
  ultimately have clean: "commit_clean s (snd (hd batch)) (ms_kv st) = (ms_kv st)(s := rows_but L h0)" by simp
  obtain outs where o: "companion_decode net (map (\<lambda>r. (s, r)) rows) ((ms_kv st)(s := rows_but L h0))
      = Some ((ms_kv st)(s := rows_but L h0 @ rows), outs)"
    using decode_rows[where net = net, OF net, of s rows "(ms_kv st)(s := rows_but L h0)"] by (simp only: fun_upd_same fun_upd_upd) blast
  have p: "prompt_warm cfg net shifted zero s batch hids st =
      (invalidate_cached s (st\<lparr>ms_target_hidden := (ms_target_hidden st)(s \<mapsto> List.last hids), ms_kv := (ms_kv st)(s := rows_but L h0 @ rows)\<rparr>), True)"
  proof -
    have c: "(batch = []) = False" "(length hids \<noteq> length batch) = False" "mc_constant cfg = False"
      using w cfg by (auto simp: warms_def draft_cfg_ok_def)
    show ?thesis unfolding prompt_warm_def c if_False kv_seq_is[OF cfg] Let_def clean
      using o by (simp add: fed_def[symmetric] rows_def clean del: map_map)
  qed
  have "rows = map2 row_at [length h0..<length h0 + length batch] (zip (map fst batch) fed)"
    using pos len by (intro nth_equalityI) (auto simp: rows_def row_at_def split_beta)
  then have "rows_but L h0 @ rows = rows_but L (h0 @ zip (map fst batch) fed)"
    using len behind by (simp add: rows_but_append)
  then show rows: "ms_kv (fst (prompt_warm cfg net shifted zero s batch hids st)) s = rows_but L (butlast (warmed shifted hist (map fst batch) hids x))"
    by (simp add: p warmed_def h fed invalidate_keeps butlast_append)
  then show "companion_but L (fst (prompt_warm cfg net shifted zero s batch hids st)) s (warmed shifted hist (map fst batch) hids x)"
    using behind len by (simp add: p companion_but_def warmed_def invalidate_keeps h fed) (fastforce simp: fed[symmetric])
  show "snd (prompt_warm cfg net shifted zero s batch hids st)" by (simp add: p)
qed

lemma decode_others:
  assumes "companion_decode net (map (Pair s \<circ> f) xs) kv = Some (kv', outs)" "q \<noteq> s"
  shows "kv' q = kv q"
proof -
  have "companion_decode net (map (\<lambda>a. (s, f a)) xs) kv = Some (kv', outs) \<Longrightarrow> kv' q = kv q" for kv outs
  proof (induction xs arbitrary: kv outs)
    case (Cons x xs)
    from Cons.prems obtain outs1 where "companion_decode net (map (\<lambda>a. (s, f a)) xs) (kv(s := kv s @ [f x])) = Some (kv', outs1)"
      by (auto simp: fun_upd_def split: option.splits)
    from Cons.IH[OF this] assms(2) show ?case by simp
  qed simp
  then show ?thesis using assms(1) by (simp add: comp_def)
qed

lemma prompt_warm_others:
  assumes "q \<noteq> s" "mc_n_seq_max cfg \<le> 1 \<longrightarrow> s = 0"
  shows "companion_but L (fst (prompt_warm cfg net shifted zero s batch hids st)) q hist' = companion_but L st q hist'"
proof -
  have seq: "(if mc_n_seq_max cfg \<le> 1 then 0 else s) = s" using assms(2) by simp
  have kv: "ms_kv (fst (prompt_warm cfg net shifted zero s batch hids st)) q = ms_kv st q"
    using assms(1) unfolding prompt_warm_def seq Let_def
    by (auto simp: invalidate_keeps commit_clean_def mtp_seq_rm_def split: option.splits dest!: decode_others[where q = q])
  moreover have "ms_target_hidden (fst (prompt_warm cfg net shifted zero s batch hids st)) q = ms_target_hidden st q"
    "ms_last (fst (prompt_warm cfg net shifted zero s batch hids st)) q = ms_last st q"
    using assms(1) unfolding prompt_warm_def Let_def by (simp_all add: invalidate_cached_def split: option.split)
  ultimately show ?thesis by (simp add: companion_but_def written_def)
qed

subsection \<open>What an operation on one sequence promises\<close>

text \<open>The positions left behind grow when the history goes on before its newest token has a row: a round
  without a draft writes none for it, and the rows of later commits begin after it.\<close>

definition left_behind :: "'h mtp_state \<Rightarrow> int \<Rightarrow> nat set \<Rightarrow> 'h history \<Rightarrow> nat set" where
  "left_behind st s L hist = (if written st s L hist then L else insert (length hist - 1) L)"

lemma left_behind_rows:
  assumes "companion_but L st s hist"
  shows "written st s (left_behind st s L hist) hist" "left_behind st s L hist \<subseteq> {..<length hist}"
proof -
  from assms have ne: "hist \<noteq> []" by (simp add: companion_but_def)
  from split_hist[OF ne] obtain h0 x where h: "hist = h0 @ [x]" by blast
  show "written st s (left_behind st s L hist) hist"
    using assms rows_but_insert[of h0 L x] by (auto simp: left_behind_def companion_but_def written_def h)
  show "left_behind st s L hist \<subseteq> {..<length hist}"
    using assms ne by (auto simp: left_behind_def companion_but_def)
qed

lemma extend_behind:
  assumes "companion_but L st s hist"
  shows "companion_but (left_behind st s L hist) (invalidate_cached s (st\<lparr>ms_target_hidden := (ms_target_hidden st)(s := row)\<rparr>)) s (hist @ [(x, h)])
    \<longleftrightarrow> row = None \<or> row = Some h"
  using left_behind_rows[OF assms] by (simp add: companion_but_def written_def invalidate_cached_def)

text \<open>An operation on sequence \<open>s\<close> takes its history to another, as far as its precondition holds, and
  leaves the other sequences to theirs.\<close>

locale history_step =
  fixes upd :: "'h mtp_state \<Rightarrow> 'h mtp_state"
    and s :: int
    and pre :: "'h mtp_state \<Rightarrow> 'h history \<Rightarrow> bool"
    and leave :: "'h mtp_state \<Rightarrow> nat set \<Rightarrow> 'h history \<Rightarrow> nat set"
    and extend :: "'h history \<Rightarrow> 'h history"
  assumes own: "pre st hist \<Longrightarrow> companion_but L st s hist \<Longrightarrow> companion_but (leave st L hist) (upd st) s (extend hist)"
    and others: "pre st hist \<Longrightarrow> q \<noteq> s \<Longrightarrow> companion_but L st q hist' \<Longrightarrow> companion_but L (upd st) q hist'"
begin

lemma keeps_all:
  assumes "\<And>q. companion_but (L q) st q (H q)" "pre st (H s)"
  shows "companion_but ((L(s := leave st (L s) (H s))) q) (upd st) q ((H(s := extend (H s))) q)"
  using own[OF assms(2,1)] others[OF assms(2) _ assms(1)] by (cases "q = s") auto

end

definition total_cfg :: "mtp_cfg \<Rightarrow> 'h net \<Rightarrow> int \<Rightarrow> bool" where
  "total_cfg cfg net s \<longleftrightarrow> draft_cfg_ok cfg s \<and> (\<forall>rows r. net rows r \<noteq> None)"

interpretation draft: history_step "\<lambda>st. fst (mtp_draft cfg net r st)" "rq_seq r"
  "\<lambda>st hist. total_cfg cfg net (rq_seq r) \<and> continues r hist" "\<lambda>st L hist. L" "\<lambda>hist. hist" for cfg net r
proof
  fix st :: "'a mtp_state" and hist L
  assume "total_cfg cfg net (rq_seq r) \<and> continues r hist" "companion_but L st (rq_seq r) hist"
  then show "companion_but L (fst (mtp_draft cfg net r st)) (rq_seq r) hist"
    by (intro mtp_draft_rows(1)) (simp_all add: total_cfg_def)
next
  fix st :: "'a mtp_state" and hist q L hist'
  assume "total_cfg cfg net (rq_seq r) \<and> continues r hist" "q \<noteq> rq_seq r" "companion_but L st q hist'"
  then show "companion_but L (fst (mtp_draft cfg net r st)) q hist'"
    using mtp_draft_others[of cfg r net q L st hist'] by (simp add: total_cfg_def)
qed

interpretation warm: history_step "\<lambda>st. fst (prompt_warm cfg net shifted zero s batch hids st)" s
  "\<lambda>st hist. total_cfg cfg net s \<and> warms batch hids hist" "\<lambda>st L hist. L"
  "\<lambda>hist. warmed shifted hist (map fst batch) hids x" for cfg net shifted zero s batch hids x
proof
  fix st :: "'a mtp_state" and hist L
  assume "total_cfg cfg net s \<and> warms batch hids hist" "companion_but L st s hist"
  then show "companion_but L (fst (prompt_warm cfg net shifted zero s batch hids st)) s (warmed shifted hist (map fst batch) hids x)"
    by (intro prompt_warm_rows(1)) (simp_all add: total_cfg_def)
next
  fix st :: "'a mtp_state" and hist q L hist'
  assume "total_cfg cfg net s \<and> warms batch hids hist" "q \<noteq> s" "companion_but L st q hist'"
  then show "companion_but L (fst (prompt_warm cfg net shifted zero s batch hids st)) q hist'"
    using prompt_warm_others[of q s cfg L net shifted zero batch hids st hist'] by (simp add: total_cfg_def draft_cfg_ok_def)
qed

interpretation commit: history_step "\<lambda>st. fst (commit_one cfg net q st)" "cq_seq q"
  "\<lambda>st hist. total_cfg cfg net (cq_seq q) \<and> cq_ids q \<noteq> [] \<and> commit_ok q \<and> cq_pos_base q = int (length hist) - 1"
  "\<lambda>st. left_behind st (cq_seq q)" "\<lambda>hist. hist @ zip (cq_ids q) (cq_rows q)" for cfg net q
proof
  fix st :: "'a mtp_state" and hist :: "'a history"
  assume pre: "total_cfg cfg net (cq_seq q) \<and> cq_ids q \<noteq> [] \<and> commit_ok q \<and> cq_pos_base q = int (length hist) - 1"
  then have net: "net rows r \<noteq> None" for rows r by (simp add: total_cfg_def)
  from pre have cfg: "draft_cfg_ok cfg (cq_seq q)" by (simp add: total_cfg_def)
  have last: "snd (List.last (zip (cq_ids q) (cq_rows q))) = List.last (cq_rows q)"
    using pre by (intro last_zip) (simp_all add: commit_ok_def)
  have ne: "zip (cq_ids q) (cq_rows q) \<noteq> []" using pre by (auto simp: commit_ok_def zip_eq_Nil_iff)
  show "companion_but (left_behind st (cq_seq q) L hist) (fst (commit_one cfg net q st)) (cq_seq q) (hist @ zip (cq_ids q) (cq_rows q))"
    if ok: "companion_but L st (cq_seq q) hist" for L
  proof -
    note b = left_behind_rows[OF ok]
    note c = commit_one_rows[where net = net, OF cfg net b]
    obtain y ys where "zip (cq_ids q) (cq_rows q) = y # ys" using ne by (meson neq_Nil_conv)
    then have "left_behind st (cq_seq q) L hist \<subseteq> {..<length (hist @ zip (cq_ids q) (cq_rows q)) - 1}"
      by (intro subset_trans[OF b(2)]) simp
    then show ?thesis using c(1,2) last ne pre by (simp add: companion_but_def)
  qed
  show "companion_but L (fst (commit_one cfg net q st)) t hist'" if "t \<noteq> cq_seq q" "companion_but L st t hist'" for t L hist'
    using commit_one_others[where net = net, OF cfg net that(1)] that(2) by (simp add: companion_but_def written_def)
qed

interpretation plain: history_step "capture_hidden s h" s "\<lambda>st hist. True" "\<lambda>st. left_behind st s" "\<lambda>hist. hist @ [(x, h)]" for s h x
  using extend_behind[of _ _ s _ "Some h" x h]
  by unfold_locales (simp_all add: capture_hidden_def, simp add: companion_but_def written_def invalidate_cached_def)

interpretation plain_stale: history_step "mark_hidden_stale s" s "\<lambda>st hist. True" "\<lambda>st. left_behind st s" "\<lambda>hist. hist @ [(x, h)]" for s h x
  using extend_behind[of _ _ s _ None x h]
  by unfold_locales (simp_all add: mark_hidden_stale_def, simp add: companion_but_def written_def invalidate_cached_def)

interpretation plain_bare: history_step "\<lambda>st. st" s
  "\<lambda>st hist. ms_target_hidden st s = None \<and> le_last_id (ms_last st s) < 0" "\<lambda>st. left_behind st s" "\<lambda>hist. hist @ [(x, h)]" for s h x
proof
  fix st :: "'a mtp_state" and L hist
  assume "ms_target_hidden st s = None \<and> le_last_id (ms_last st s) < 0" "companion_but L st s hist"
  with left_behind_rows[OF this(2)] show "companion_but (left_behind st s L hist) st s (hist @ [(x, h)])"
    by (simp add: companion_but_def written_def)
qed simp

interpretation capture: history_step "\<lambda>st. fst (ensure_hidden s row st)" s
  "\<lambda>st hist. row = None \<or> row = Some (snd (List.last hist))" "\<lambda>st L hist. L" "\<lambda>hist. hist" for s row
  by unfold_locales (auto simp: ensure_hidden_def capture_hidden_def companion_but_def written_def invalidate_cached_def split: option.split)

interpretation stale: history_step "mark_hidden_stale s" s "\<lambda>st hist. True" "\<lambda>st L hist. L" "\<lambda>hist. hist" for s
  by unfold_locales (auto simp: mark_hidden_stale_def companion_but_def written_def invalidate_cached_def)

interpretation clear: history_step "clear_hidden zero s" s "\<lambda>st hist. True" "\<lambda>st L hist. L" "\<lambda>hist. hist" for zero s
  by unfold_locales (auto simp: clear_hidden_def companion_but_def written_def)

interpretation verdict: history_step "mtp_accept cfg v k" s "\<lambda>st hist. True" "\<lambda>st L hist. L" "\<lambda>hist. hist" for cfg v k s
  by unfold_locales (simp_all add: mtp_accept_def companion_but_def written_def Let_def)

subsection \<open>Runs\<close>

text \<open>The history of each sequence beside the drafter's state, and the positions that were left behind.  A
  round without a draft decodes one token plainly: the history goes on, no row is written, and the hidden
  row of that decode is captured (load tier 0), the stored one marked stale (the selector's plain round), or
  nothing is stored already (after the first gate or a missing row).  With several slots it is a commit of
  one token.  A companion of one sequence slot keeps the rows of whatever sequence it drafts for at slot 0;
  the runs take that sequence to be 0.\<close>

definition own_rows :: "mtp_cfg \<Rightarrow> int \<Rightarrow> bool" where
  "own_rows cfg s \<longleftrightarrow> (mc_n_seq_max cfg \<le> 1 \<longrightarrow> s = 0)"

inductive mtp_run :: "mtp_cfg \<Rightarrow> 'h net \<Rightarrow> bool \<Rightarrow> 'h \<Rightarrow> 'h mtp_state \<Rightarrow> (int \<Rightarrow> 'h history) \<Rightarrow> (int \<Rightarrow> nat set) \<Rightarrow> bool"
  for cfg net shifted zero where
  run_start: "\<forall>s. ms_kv st s = [] \<and> ms_target_hidden st s = None \<and> le_last_id (ms_last st s) < 0
     \<Longrightarrow> mtp_run cfg net shifted zero st (\<lambda>s. [(x s, zero)]) (\<lambda>s. {})"
| run_warm: "mtp_run cfg net shifted zero st H L \<Longrightarrow> own_rows cfg s \<Longrightarrow> warms batch hids (H s)
     \<Longrightarrow> mtp_run cfg net shifted zero (fst (prompt_warm cfg net shifted zero s batch hids st))
           (H(s := warmed shifted (H s) (map fst batch) hids x)) L"
| run_draft: "mtp_run cfg net shifted zero st H L \<Longrightarrow> own_rows cfg (rq_seq r) \<Longrightarrow> continues r (H (rq_seq r))
     \<Longrightarrow> mtp_run cfg net shifted zero (fst (mtp_draft cfg net r st)) H L"
| run_accept: "mtp_run cfg net shifted zero st H L \<Longrightarrow> mtp_run cfg net shifted zero (mtp_accept cfg v k st) H L"
| run_commit: "mtp_run cfg net shifted zero st H L \<Longrightarrow> own_rows cfg (cq_seq q) \<Longrightarrow> cq_ids q \<noteq> [] \<Longrightarrow> commit_ok q
     \<Longrightarrow> cq_pos_base q = int (length (H (cq_seq q))) - 1
     \<Longrightarrow> mtp_run cfg net shifted zero (fst (commit_one cfg net q st)) (H(cq_seq q := H (cq_seq q) @ zip (cq_ids q) (cq_rows q)))
           (L(cq_seq q := left_behind st (cq_seq q) (L (cq_seq q)) (H (cq_seq q))))"
| run_plain: "mtp_run cfg net shifted zero st H L
     \<Longrightarrow> mtp_run cfg net shifted zero (capture_hidden s h st) (H(s := H s @ [(x, h)])) (L(s := left_behind st s (L s) (H s)))"
| run_plain_stale: "mtp_run cfg net shifted zero st H L
     \<Longrightarrow> mtp_run cfg net shifted zero (mark_hidden_stale s st) (H(s := H s @ [(x, h)])) (L(s := left_behind st s (L s) (H s)))"
| run_plain_bare: "mtp_run cfg net shifted zero st H L \<Longrightarrow> ms_target_hidden st s = None \<Longrightarrow> le_last_id (ms_last st s) < 0
     \<Longrightarrow> mtp_run cfg net shifted zero st (H(s := H s @ [(x, h)])) (L(s := left_behind st s (L s) (H s)))"
| run_capture: "mtp_run cfg net shifted zero st H L \<Longrightarrow> row = None \<or> row = Some (snd (List.last (H s)))
     \<Longrightarrow> mtp_run cfg net shifted zero (fst (ensure_hidden s row st)) H L"
| run_stale: "mtp_run cfg net shifted zero st H L \<Longrightarrow> mtp_run cfg net shifted zero (mark_hidden_stale s st) H L"
| run_clear: "mtp_run cfg net shifted zero st H L \<Longrightarrow> mtp_run cfg net shifted zero (clear_hidden zero s st) H L"

lemma run_ok:
  assumes "mtp_run cfg net shifted zero st H L" "\<And>s. own_rows cfg s \<Longrightarrow> total_cfg cfg net s"
  shows "companion_but (L s) st s (H s)"
  using assms(1)
proof (induction arbitrary: s)
  case (run_start st x)
  then show ?case by (simp add: companion_but_def written_def)
next
  case (run_warm st H L batch hids s x)
  then show ?case using warm.keeps_all[of L st H] assms(2) by (metis fun_upd_triv)
next
  case (run_draft st H L r)
  then show ?case using draft.keeps_all[of L st H cfg net r s] assms(2) by simp
next
  case (run_accept st H L v k)
  then show ?case using verdict.keeps_all[of L st H] by (metis fun_upd_triv)
next
  case (run_commit st H L q)
  then show ?case using commit.keeps_all[of L st H cfg net q] assms(2) by blast
next
  case (run_plain st H L t h x)
  then show ?case using plain.keeps_all[of L st H] by blast
next
  case (run_plain_stale st H L t x h)
  then show ?case using plain_stale.keeps_all[of L st H] by blast
next
  case (run_plain_bare st H L t x h)
  then show ?case using plain_bare.keeps_all[of L st H] by blast
next
  case (run_capture st H L row t)
  then show ?case using capture.keeps_all[of L st H row t s] by simp
next
  case (run_stale st H L t)
  then show ?case using stale.keeps_all[of L st H t s] by simp
next
  case (run_clear st H L t)
  then show ?case using clear.keeps_all[of L st H] by (metis fun_upd_triv)
qed

end
