(* ===== verification/MtpCommit.thy ===== *)
theory MtpCommit
  imports MtpHist MtpSched
begin

section \<open>The batched commit beside the serial one\<close>

text \<open>
  What a request does to its own sequence, read off the rows and the cache entry of that sequence alone.
  Both commits are then folds of the same updates; the serial one stores the target's hidden row besides.
\<close>

fun solo_outs :: "'h net \<Rightarrow> 'h mrow list \<Rightarrow> 'h mrow list \<Rightarrow> 'h mout list" where
  "solo_outs net rows0 [] = []"
| "solo_outs net rows0 (r # rs) = the (net rows0 r) # solo_outs net (rows0 @ [r]) rs"

lemma length_solo_outs [simp]: "length (solo_outs net rows0 rs) = length rs"
  by (induction rs arbitrary: rows0) simp_all

lemma decode_solo:
  "net_total net \<Longrightarrow> companion_decode net (map (\<lambda>r. (s, r)) rows) kv = Some (kv(s := kv s @ rows), solo_outs net (kv s) rows)"
proof (induction rows arbitrary: kv)
  case (Cons r rows)
  obtain out where "net (kv s) r = Some out" using Cons.prems by (auto simp: net_total_def)
  moreover have "companion_decode net (map (\<lambda>r. (s, r)) rows) (kv(s := kv s @ [r])) = Some (kv(s := kv s @ r # rows), solo_outs net (kv s @ [r]) rows)"
    using Cons.IH[OF Cons.prems, of "kv(s := kv s @ [r])"] by (simp only: fun_upd_same fun_upd_upd append_assoc append_Cons append_Nil)
  ultimately show ?case by (auto simp: fun_eq_iff)
qed simp

lemma decode_Cons:
  "companion_decode net ((s, r) # rows) kv =
     (case net (kv s) r of None \<Rightarrow> None
      | Some out \<Rightarrow> (case companion_decode net rows (kv(s := kv s @ [r])) of
            None \<Rightarrow> None | Some (kv', outs) \<Rightarrow> Some (kv', out # outs)))"
  by (simp add: fun_upd_def)

lemma decode_append:
  "companion_decode net (xs @ ys) kv =
     (case companion_decode net xs kv of None \<Rightarrow> None
      | Some (kv', outs) \<Rightarrow> (case companion_decode net ys kv' of None \<Rightarrow> None | Some (kv'', outs') \<Rightarrow> Some (kv'', outs @ outs')))"
proof (induction xs arbitrary: kv)
  case (Cons x xs)
  obtain s r where x: "x = (s, r)" by fastforce
  show ?case unfolding x append_Cons decode_Cons Cons.IH by (simp split: option.split)
qed (simp split: option.split)

definition commit_le :: "mtp_cfg \<Rightarrow> 'h last_embd \<Rightarrow> 'h mout \<Rightarrow> 'h last_embd" where
  "commit_le cfg le out =
     (if mc_zero_output cfg then le\<lparr>le_last_id := -1\<rparr>
      else (case mo_emb out of None \<Rightarrow> le | Some emb \<Rightarrow> \<lparr>le_embd = emb, le_prob = mo_gate_prob out, le_last_id = mo_id out\<rparr>))"

definition cleaned :: "'h commit_req \<Rightarrow> 'h mrow list \<Rightarrow> 'h mrow list" where
  "cleaned q rows = (let p = commit_pos0 (cq_pos_base q) in if mtp_pos_max rows \<ge> p then rows_rm p (-1) rows else rows)"

definition commit_outs :: "'h net \<Rightarrow> 'h commit_req \<Rightarrow> 'h mrow list \<Rightarrow> 'h mout list" where
  "commit_outs net q rows = solo_outs net (cleaned q rows) (commit_rows q)"

lemma commit_clean_is: "commit_clean (cq_seq q) (commit_pos0 (cq_pos_base q)) kv = kv(cq_seq q := cleaned q (kv (cq_seq q)))"
  by (auto simp: commit_clean_def cleaned_def mtp_seq_rm_def)

definition embeds :: "mtp_cfg \<Rightarrow> 'h net \<Rightarrow> bool" where
  "embeds cfg net \<longleftrightarrow> net_total net \<and> (mc_zero_output cfg \<or> (\<forall>rows r out. net rows r = Some out \<longrightarrow> mo_emb out \<noteq> None))"

definition live_req :: "'h commit_req \<Rightarrow> bool" where
  "live_req q \<longleftrightarrow> cq_ids q \<noteq> [] \<and> commit_ok q"

lemma live_rows:
  assumes "live_req q"
  shows "length (commit_rows q) = length (cq_ids q)" "commit_rows q \<noteq> []" "mr_pos (hd (commit_rows q)) = commit_pos0 (cq_pos_base q)"
proof -
  show l: "length (commit_rows q) = length (cq_ids q)" using assms by (simp add: commit_rows_def live_req_def commit_ok_def)
  then show "commit_rows q \<noteq> []" using assms by (auto simp: live_req_def)
  then have "mr_pos (hd (commit_rows q)) = mr_pos (commit_rows q ! 0)" by (simp add: hd_conv_nth)
  also have "\<dots> = commit_pos0 (cq_pos_base q)"
    using assms by (auto simp: commit_rows_def live_req_def commit_ok_def commit_pos0_def)
  finally show "mr_pos (hd (commit_rows q)) = commit_pos0 (cq_pos_base q)" .
qed

subsection \<open>The serial commit as a fold\<close>

definition kv_after :: "'h commit_req \<Rightarrow> 'h mrow list \<Rightarrow> 'h mrow list" where
  "kv_after q rows = cleaned q rows @ commit_rows q"

lemma commit_one_is:
  assumes "embeds cfg net" "1 < mc_n_seq_max cfg" "\<not> mc_constant cfg" "live_req q"
  shows "commit_one cfg net q st =
    (st\<lparr>ms_target_hidden := (ms_target_hidden st)(cq_seq q \<mapsto> List.last (cq_rows q)),
        ms_kv := (ms_kv st)(cq_seq q := kv_after q (ms_kv st (cq_seq q))),
        ms_last := (ms_last st)(cq_seq q := commit_le cfg (ms_last st (cq_seq q)) (List.last (commit_outs net q (ms_kv st (cq_seq q)))))\<rparr>, True)"
proof -
  let ?s = "cq_seq q" and ?st = "st\<lparr>ms_target_hidden := (ms_target_hidden st)(cq_seq q \<mapsto> List.last (cq_rows q))\<rparr>"
  let ?rows = "cleaned q (ms_kv st (cq_seq q))" and ?o = "commit_outs net q (ms_kv st (cq_seq q))"
  have tot: "net_total net" using assms(1) by (simp add: embeds_def)
  have seq: "(if mc_n_seq_max cfg \<le> 1 then 0 else ?s) = ?s" using assms(2) by simp
  have d: "companion_decode net (map (\<lambda>r. (?s, r)) (commit_rows q)) (commit_clean ?s (mr_pos (hd (commit_rows q))) (ms_kv st))
      = Some ((ms_kv st)(?s := kv_after q (ms_kv st ?s)), ?o)"
    unfolding live_rows(3)[OF assms(4)] decode_solo[OF tot] commit_clean_is by (simp add: kv_after_def commit_outs_def)
  have "accept_batch cfg net ?s (commit_rows q) ?st =
      (?st\<lparr>ms_kv := (ms_kv st)(?s := kv_after q (ms_kv st ?s)), ms_last := (ms_last st)(?s := commit_le cfg (ms_last st ?s) (List.last ?o))\<rparr>, True)"
    using live_rows(2)[OF assms(4)] d unfolding accept_batch_def seq Let_def
    by (simp add: commit_le_def split: option.split)
  then show ?thesis using assms(3,4) by (simp add: commit_one_def live_req_def commit_ok_def)
qed

definition kv_fold :: "'h commit_req list \<Rightarrow> 'h kv \<Rightarrow> 'h kv" where
  "kv_fold qs kv = foldl (\<lambda>kv q. kv(cq_seq q := kv_after q (kv (cq_seq q)))) kv qs"

definition last_fold :: "mtp_cfg \<Rightarrow> 'h net \<Rightarrow> 'h kv \<Rightarrow> 'h commit_req list \<Rightarrow> (int \<Rightarrow> 'h last_embd) \<Rightarrow> int \<Rightarrow> 'h last_embd" where
  "last_fold cfg net kv qs m =
     foldl (\<lambda>m q. m(cq_seq q := commit_le cfg (m (cq_seq q)) (List.last (commit_outs net q (kv (cq_seq q)))))) m qs"

definition target_fold :: "'h commit_req list \<Rightarrow> (int \<Rightarrow> 'h option) \<Rightarrow> int \<Rightarrow> 'h option" where
  "target_fold qs th = foldl (\<lambda>th q. th(cq_seq q := Some (List.last (cq_rows q)))) th qs"

lemma last_fold_cong:
  "(\<And>q. q \<in> set qs \<Longrightarrow> kv (cq_seq q) = kv' (cq_seq q)) \<Longrightarrow> last_fold cfg net kv qs m = last_fold cfg net kv' qs m"
  unfolding last_fold_def by (rule foldl_cong) auto

lemma commit_serially_is:
  assumes "embeds cfg net" "1 < mc_n_seq_max cfg" "\<not> mc_constant cfg"
  shows "\<forall>q \<in> set qs. live_req q \<Longrightarrow> distinct (map cq_seq qs) \<Longrightarrow>
    commit_serially cfg net qs st = (st\<lparr>ms_target_hidden := target_fold qs (ms_target_hidden st), ms_kv := kv_fold qs (ms_kv st), ms_last := last_fold cfg net (ms_kv st) qs (ms_last st)\<rparr>, [])"
proof (induction qs arbitrary: st)
  case (Cons q qs)
  have live: "live_req q" using Cons.prems by simp
  let ?st = "fst (commit_one cfg net q st)"
  have kv: "ms_kv ?st (cq_seq p) = ms_kv st (cq_seq p)" if "p \<in> set qs" for p
    using that Cons.prems(2) by (auto simp: commit_one_is[OF assms live] image_iff)
  from Cons.IH[of ?st] Cons.prems
  have ih: "commit_serially cfg net qs ?st = (?st\<lparr>ms_target_hidden := target_fold qs (ms_target_hidden ?st), ms_kv := kv_fold qs (ms_kv ?st),
      ms_last := last_fold cfg net (ms_kv ?st) qs (ms_last ?st)\<rparr>, [])"
    by auto
  have l: "last_fold cfg net (ms_kv ?st) qs (ms_last ?st) = last_fold cfg net (ms_kv st) (q # qs) (ms_last st)"
  proof -
    have "last_fold cfg net (ms_kv ?st) qs (ms_last ?st) = last_fold cfg net (ms_kv st) qs (ms_last ?st)"
      by (rule last_fold_cong) (rule kv)
    also have "\<dots> = last_fold cfg net (ms_kv st) (q # qs) (ms_last st)" by (simp add: commit_one_is[OF assms live] last_fold_def)
    finally show ?thesis .
  qed
  show ?case using ih unfolding l
    by (simp add: commit_one_is[OF assms live] kv_fold_def target_fold_def)
qed (simp add: kv_fold_def last_fold_def target_fold_def)

subsection \<open>The batched commit as the same fold\<close>

lemma clean_fold:
  "foldl (\<lambda>kv q. commit_clean (cq_seq q) (commit_pos0 (cq_pos_base q)) kv) kv qs = foldl (\<lambda>kv q. kv(cq_seq q := cleaned q (kv (cq_seq q)))) kv qs"
  by (simp add: commit_clean_is)

lemma decode_concat:
  assumes "net_total net" "distinct (map cq_seq qs)"
  shows "companion_decode net (concat (map (\<lambda>q. map (\<lambda>r. (cq_seq q, r)) (commit_rows q)) qs)) kv =
    Some (foldl (\<lambda>kv q. kv(cq_seq q := kv (cq_seq q) @ commit_rows q)) kv qs,
          concat (map (\<lambda>q. solo_outs net (kv (cq_seq q)) (commit_rows q)) qs))"
  using assms(2)
proof (induction qs arbitrary: kv)
  case (Cons q qs)
  let ?kv = "kv(cq_seq q := kv (cq_seq q) @ commit_rows q)"
  have "map (\<lambda>p. solo_outs net (?kv (cq_seq p)) (commit_rows p)) qs = map (\<lambda>p. solo_outs net (kv (cq_seq p)) (commit_rows p)) qs"
    using Cons.prems by (intro map_cong) (auto simp: image_iff)
  moreover have "distinct (map cq_seq qs)" using Cons.prems by simp
  note Cons.IH[OF this, of ?kv]
  ultimately show ?case by (simp only: list.map concat.simps decode_append decode_solo[OF assms(1)] option.case prod.case foldl.simps)
qed simp

lemma cleaned_then_written:
  assumes "distinct (map cq_seq qs)"
  shows "foldl (\<lambda>kv q. kv(cq_seq q := kv (cq_seq q) @ commit_rows q)) (foldl (\<lambda>kv q. kv(cq_seq q := cleaned q (kv (cq_seq q)))) kv qs) qs
    = kv_fold qs kv"
proof
  fix s
  let ?c = "foldl (\<lambda>kv q. kv(cq_seq q := cleaned q (kv (cq_seq q)))) kv qs"
  show "foldl (\<lambda>kv q. kv(cq_seq q := kv (cq_seq q) @ commit_rows q)) ?c qs s = kv_fold qs kv s"
  proof (cases "s \<in> cq_seq ` set qs")
    case True
    then obtain q where q: "q \<in> set qs" "s = cq_seq q" by blast
    show ?thesis unfolding q(2) kv_fold_def
      using foldl_local(1)[OF assms q(1), of "\<lambda>q rows. rows @ commit_rows q" ?c]
        foldl_local(1)[OF assms q(1), of cleaned kv] foldl_local(1)[OF assms q(1), of kv_after kv]
      by (simp add: kv_after_def)
  next
    case False
    show ?thesis unfolding kv_fold_def
      using foldl_local(2)[OF assms False, of "\<lambda>q rows. rows @ commit_rows q" ?c]
        foldl_local(2)[OF assms False, of cleaned kv] foldl_local(2)[OF assms False, of kv_after kv]
      by simp
  qed
qed

lemma solo_outs_set: "out \<in> set (solo_outs net rows0 rs) \<Longrightarrow> \<exists>rows r. out = the (net rows r)"
  by (induction rs arbitrary: rows0) auto

lemma commit_read_is:
  assumes "embeds cfg net" "out = the (net rows r)"
  shows "commit_read cfg q out (st, failed) = (st\<lparr>ms_last := (ms_last st)(cq_seq q := commit_le cfg (ms_last st (cq_seq q)) out)\<rparr>, failed)"
proof (cases "mc_zero_output cfg")
  case True
  then show ?thesis by (simp add: commit_read_def commit_le_def Let_def)
next
  case False
  have "net rows r \<noteq> None" using assms(1) by (simp add: embeds_def net_total_def)
  then obtain o' where "net rows r = Some o'" by blast
  with False assms have "mo_emb out \<noteq> None" by (simp add: embeds_def)
  then obtain emb where "mo_emb out = Some emb" by blast
  with False show ?thesis by (simp add: commit_read_def commit_le_def Let_def)
qed

lemma commit_reads_is:
  assumes "embeds cfg net"
  shows "\<forall>q \<in> set qs. live_req q \<Longrightarrow>
    commit_reads cfg qs (concat (map (\<lambda>q. commit_outs net q (kv (cq_seq q))) qs)) (st, failed) = (st\<lparr>ms_last := last_fold cfg net kv qs (ms_last st)\<rparr>, failed)"
proof (induction qs arbitrary: st)
  case (Cons q qs)
  let ?o = "commit_outs net q (kv (cq_seq q))" and ?n = "length (cq_ids q)"
  have live: "live_req q" using Cons.prems by simp
  have len: "length ?o = ?n" using live_rows(1)[OF live] by (simp add: commit_outs_def)
  have ne: "?o \<noteq> []" using live len by (auto simp: live_req_def)
  then have "0 < ?n" using len by (metis length_greater_0_conv)
  then have nth: "(?o @ rest) ! (?n - 1) = List.last ?o" for rest using len ne by (simp add: nth_append last_conv_nth)
  have "\<exists>rows r. List.last ?o = the (net rows r)"
    using last_in_set[OF ne] unfolding commit_outs_def by (rule solo_outs_set)
  then obtain rows r where out: "List.last ?o = the (net rows r)" by blast
  have read: "commit_read cfg q (List.last ?o) (st, failed)
      = (st\<lparr>ms_last := (ms_last st)(cq_seq q := commit_le cfg (ms_last st (cq_seq q)) (List.last ?o))\<rparr>, failed)"
    by (rule commit_read_is[OF assms out])
  have drop: "drop ?n (?o @ rest) = rest" for rest using len by simp
  show ?case unfolding list.map concat.simps commit_reads.simps Let_def nth drop read
    using Cons.IH[of "st\<lparr>ms_last := (ms_last st)(cq_seq q := commit_le cfg (ms_last st (cq_seq q)) (List.last ?o))\<rparr>"] Cons.prems
    by (simp add: last_fold_def fun_upd_def)
qed (simp add: last_fold_def)

lemma commit_batched_is:
  assumes "embeds cfg net" "\<forall>q \<in> set qs. live_req q" "distinct (map cq_seq qs)"
  shows "commit_batched cfg net qs st = (st\<lparr>ms_kv := kv_fold qs (ms_kv st), ms_last := last_fold cfg net (ms_kv st) qs (ms_last st)\<rparr>, [])"
proof -
  let ?c = "foldl (\<lambda>kv q. kv(cq_seq q := cleaned q (kv (cq_seq q)))) (ms_kv st) qs"
  have tot: "net_total net" using assms(1) by (simp add: embeds_def)
  have f: "filter (\<lambda>q. cq_ids q \<noteq> []) qs = qs" "filter (\<lambda>q. \<not> commit_ok q) qs = []" "filter commit_ok qs = qs"
    using assms(2) by (auto simp: live_req_def filter_id_conv filter_empty_conv)
  have outs: "map (\<lambda>q. solo_outs net (?c (cq_seq q)) (commit_rows q)) qs = map (\<lambda>q. commit_outs net q (ms_kv st (cq_seq q))) qs"
    using foldl_local(1)[OF assms(3), of _ cleaned "ms_kv st"] by (intro map_cong) (auto simp: commit_outs_def)
  show ?thesis
  proof (cases "qs = []")
    case True
    then show ?thesis by (simp add: commit_batched_def kv_fold_def last_fold_def Let_def)
  next
    case False
    then have "(qs = []) = False" by simp
    then show ?thesis unfolding commit_batched_def f Let_def clean_fold
      by (simp only: if_False decode_concat[OF tot assms(3)] cleaned_then_written[OF assms(3)] outs option.case prod.case list.map
          commit_reads_is[OF assms(1,2)]) simp
  qed
qed

end
