(* ===== verification/MtpCarry.thy ===== *)
theory MtpCarry
  imports Prelude "HOL-Library.Word"
begin

section \<open>The per-sequence carry as bytes (common/speculative.cpp)\<close>

text \<open>
  \<open>get_seq_state\<close> writes what the drafter keeps for a sequence (the target's hidden row and the cached
  draft) as a blob, and \<open>set_seq_state\<close> reads one back or refuses it.  A float is its 32 bits and the
  host is little-endian; a blob is shorter than \<open>2^63\<close> bytes, so that no offset wraps.  The proposal
  distribution of the cached draft is not written.
\<close>

subsection \<open>Little-endian numbers\<close>

definition le_bytes :: "nat \<Rightarrow> nat \<Rightarrow> 8 word list" where
  "le_bytes n k = map (\<lambda>i. word_of_nat (k div 256 ^ i)) [0..<n]"

definition le_val :: "8 word list \<Rightarrow> nat" where
  "le_val bs = foldr (\<lambda>b k. unat b + 256 * k) bs 0"

lemma length_le_bytes [simp]: "length (le_bytes n k) = n"
  by (simp add: le_bytes_def)

lemma le_bytes_Suc: "le_bytes (Suc n) k = word_of_nat k # le_bytes n (k div 256)"
  by (simp add: le_bytes_def map_upt_Suc div_mult2_eq del: upt_Suc)

lemma le_val_simps [simp]: "le_val [] = 0" "le_val (b # bs) = unat b + 256 * le_val bs"
  by (simp_all add: le_val_def)

lemma le_val_bytes: "le_val (le_bytes n k) = k mod 256 ^ n"
proof (induction n arbitrary: k)
  case (Suc n)
  have "le_val (le_bytes (Suc n) k) = k mod 256 + 256 * ((k div 256) mod 256 ^ n)"
    by (simp add: le_bytes_Suc Suc unat_of_nat)
  also have "\<dots> = k mod (256 * 256 ^ n)" by (simp add: mod_mult2_eq)
  finally show ?case by simp
qed (simp add: le_bytes_def)

subsection \<open>The state\<close>

record 'q draft_cache =
  cd_embd :: "32 word list"
  cd_prob :: "32 word"
  cd_last :: "32 word"
  cd_q :: "'q list"

record 'q carries =
  sc_n_embd :: "32 word"
  sc_hidden :: "int \<Rightarrow> 32 word list"
  sc_draft :: "int \<Rightarrow> 'q draft_cache option"

text \<open>A sequence with an empty row has none.\<close>

definition clear_target_hidden :: "int \<Rightarrow> 'q carries \<Rightarrow> 'q carries" where
  "clear_target_hidden s st = st\<lparr>sc_hidden := (sc_hidden st)(s := []), sc_draft := (sc_draft st)(s := None)\<rparr>"

lemma cleared_carries:
  "sc_hidden (clear_target_hidden s st) s = []" "sc_draft (clear_target_hidden s st) s = None"
  "sc_n_embd (clear_target_hidden s st) = sc_n_embd st"
  "t \<noteq> s \<Longrightarrow> sc_hidden (clear_target_hidden s st) t = sc_hidden st t \<and> sc_draft (clear_target_hidden s st) t = sc_draft st t"
  by (simp_all add: clear_target_hidden_def)

subsection \<open>Writing\<close>

definition carry_magic :: nat where "carry_magic = 0x31535850"
definition carry_version :: nat where "carry_version = 1"

definition spec_put :: "nat \<Rightarrow> nat \<Rightarrow> 8 word list \<Rightarrow> 8 word list" where
  "spec_put n k out = out @ le_bytes n k"

definition put_row :: "32 word list \<Rightarrow> 8 word list \<Rightarrow> 8 word list" where
  "put_row row out = foldl (\<lambda>out f. spec_put 4 (unat f) out) (spec_put 8 (length row) out) row"

definition cached_draft :: "'q carries \<Rightarrow> int \<Rightarrow> 'q draft_cache option" where
  "cached_draft st s = (case sc_draft st s of Some d \<Rightarrow> if cd_embd d \<noteq> [] then Some d else None | None \<Rightarrow> None)"

definition get_seq_state :: "int \<Rightarrow> 'q carries \<Rightarrow> 8 word list option" where
  "get_seq_state s st =
     (let hid = sc_hidden st s; draft = cached_draft st s in
      if hid = [] \<and> draft = None then None
      else
        let out = spec_put 4 (unat (sc_n_embd st)) (spec_put 4 carry_version (spec_put 4 carry_magic []));
            out = (if hid \<noteq> [] then put_row hid (spec_put 4 1 out) else spec_put 4 0 out)
        in Some (case draft of
                   Some d \<Rightarrow> spec_put 4 (unat (cd_last d)) (spec_put 4 (unat (cd_prob d)) (put_row (cd_embd d) (spec_put 4 1 out)))
                 | None \<Rightarrow> spec_put 4 0 out))"

subsection \<open>Reading\<close>

definition spec_get :: "nat \<Rightarrow> 8 word list \<Rightarrow> nat \<Rightarrow> (nat \<times> nat) option" where
  "spec_get n data off = (if off + n > length data then None else Some (le_val (take n (drop off data)), off + n))"

definition get_row :: "8 word list \<Rightarrow> nat \<Rightarrow> (32 word list \<times> nat) option" where
  "get_row data off =
     (case spec_get 8 data off of None \<Rightarrow> None
      | Some (n, off) \<Rightarrow>
          if n = 0 \<or> n > 2147483647 \<or> off + n * 4 > length data then None
          else Some (map (\<lambda>i. word_of_nat (le_val (take 4 (drop (off + i * 4) data)))) [0..<n], off + n * 4))"

text \<open>The part of the blob from an offset on; the stages are the code's, each with its refusal.\<close>

definition read_header :: "32 word \<Rightarrow> 8 word list \<Rightarrow> nat option" where
  "read_header n_embd data =
     (case spec_get 4 data 0 of None \<Rightarrow> None
      | Some (magic, off) \<Rightarrow> if magic \<noteq> carry_magic then None else
     (case spec_get 4 data off of None \<Rightarrow> None
      | Some (version, off) \<Rightarrow> if version \<noteq> carry_version then None else
     (case spec_get 4 data off of None \<Rightarrow> None
      | Some (n, off) \<Rightarrow> if word_of_nat n \<noteq> n_embd then None else Some off)))"

definition read_hidden :: "32 word \<Rightarrow> 8 word list \<Rightarrow> nat \<Rightarrow> (32 word list \<times> nat) option" where
  "read_hidden n_embd data off =
     (case spec_get 4 data off of None \<Rightarrow> None
      | Some (have, off) \<Rightarrow> if have = 0 then Some ([], off) else
     (case get_row data off of None \<Rightarrow> None
      | Some (row, off) \<Rightarrow> if int (length row) \<noteq> sint n_embd then None else Some (row, off)))"

definition read_draft :: "8 word list \<Rightarrow> nat \<Rightarrow> ('q draft_cache option \<times> nat) option" where
  "read_draft data off =
     (case spec_get 4 data off of None \<Rightarrow> None
      | Some (have, off) \<Rightarrow> if have = 0 then Some (None, off) else
     (case get_row data off of None \<Rightarrow> None
      | Some (row, off) \<Rightarrow>
     (case spec_get 4 data off of None \<Rightarrow> None
      | Some (prob, off) \<Rightarrow>
     (case spec_get 4 data off of None \<Rightarrow> None
      | Some (last_id, off) \<Rightarrow>
          Some (Some \<lparr>cd_embd = row, cd_prob = word_of_nat prob, cd_last = word_of_nat last_id, cd_q = []\<rparr>, off)))))"

definition set_seq_state :: "int \<Rightarrow> 8 word list \<Rightarrow> 'q carries \<Rightarrow> 'q carries \<times> bool" where
  "set_seq_state s data st =
     (let st = clear_target_hidden s st in
      if data = [] then (st, False)
      else case read_header (sc_n_embd st) data of None \<Rightarrow> (st, False)
      | Some off \<Rightarrow>
     (case read_hidden (sc_n_embd st) data off of None \<Rightarrow> (st, False)
      | Some (hidden, off) \<Rightarrow>
     (case read_draft data off of None \<Rightarrow> (st, False)
      | Some (draft, off) \<Rightarrow>
          if off \<noteq> length data then (st, False)
          else let st = (if hidden \<noteq> [] then st\<lparr>sc_hidden := (sc_hidden st)(s := hidden)\<rparr> else st)
               in ((case draft of None \<Rightarrow> st | Some d \<Rightarrow> st\<lparr>sc_draft := (sc_draft st)(s := Some d)\<rparr>), True))))"

subsection \<open>Reading back what was written\<close>

definition row_bytes :: "32 word list \<Rightarrow> 8 word list" where
  "row_bytes row = concat (map (\<lambda>f. le_bytes 4 (unat f)) row)"

lemma put_row_is: "put_row row out = out @ le_bytes 8 (length row) @ row_bytes row"
proof -
  have "foldl (\<lambda>out f. spec_put 4 (unat f) out) out row = out @ row_bytes row" for out
    by (induction row arbitrary: out) (simp_all add: spec_put_def row_bytes_def)
  then show ?thesis by (simp add: put_row_def spec_put_def)
qed

lemma length_row_bytes [simp]: "length (row_bytes row) = 4 * length row"
  by (induction row) (simp_all add: row_bytes_def)

lemma spec_get_put: "k < 256 ^ n \<Longrightarrow> spec_get n (pre @ le_bytes n k @ post) (length pre) = Some (k, length pre + n)"
  by (simp add: spec_get_def le_val_bytes)

lemma nth_row:
  "i < length row \<Longrightarrow> take 4 (drop (i * 4) (row_bytes row @ post)) = le_bytes 4 (unat (row ! i))"
proof (induction row arbitrary: i)
  case (Cons f row)
  show ?case
  proof (cases i)
    case 0
    then show ?thesis by (simp add: row_bytes_def)
  next
    case (Suc j)
    have "drop (Suc j * 4) (row_bytes (f # row) @ post) = drop (j * 4) (row_bytes row @ post)"
      by (simp add: row_bytes_def drop_append)
    then show ?thesis using Cons Suc by simp
  qed
qed simp

lemma get_row_put:
  assumes "row \<noteq> []" "length row \<le> 2147483647"
  shows "get_row (pre @ le_bytes 8 (length row) @ row_bytes row @ post) (length pre) = Some (row, length pre + 8 + length row * 4)"
proof -
  let ?d = "pre @ le_bytes 8 (length row) @ row_bytes row @ post"
  have g: "spec_get 8 ?d (length pre) = Some (length row, length pre + 8)"
    using assms by (intro spec_get_put) simp
  have "map (\<lambda>i. word_of_nat (le_val (take 4 (drop (length pre + 8 + i * 4) ?d)))) [0..<length row] = row"
  proof (intro nth_equalityI)
    fix i assume "i < length (map (\<lambda>i. word_of_nat (le_val (take 4 (drop (length pre + 8 + i * 4) ?d))) :: 32 word) [0..<length row])"
    then have i: "i < length row" by simp
    have "drop (length pre + 8 + i * 4) ?d = drop (i * 4) (row_bytes row @ post)" by simp
    with nth_row[OF i, of post] have "take 4 (drop (length pre + 8 + i * 4) ?d) = le_bytes 4 (unat (row ! i))" by simp
    moreover have "unat (row ! i) < 256 ^ 4" using unsigned_less[of "row ! i"] by simp
    ultimately show "map (\<lambda>i. word_of_nat (le_val (take 4 (drop (length pre + 8 + i * 4) ?d)))) [0..<length row] ! i = row ! i"
      using i by (simp add: le_val_bytes)
  qed simp
  with g assms show ?thesis by (simp add: get_row_def)
qed

definition hidden_bytes :: "32 word list \<Rightarrow> 8 word list" where
  "hidden_bytes hid = (if hid = [] then le_bytes 4 0 else le_bytes 4 1 @ le_bytes 8 (length hid) @ row_bytes hid)"

definition draft_bytes :: "'q draft_cache option \<Rightarrow> 8 word list" where
  "draft_bytes draft = (case draft of None \<Rightarrow> le_bytes 4 0
     | Some d \<Rightarrow> le_bytes 4 1 @ le_bytes 8 (length (cd_embd d)) @ row_bytes (cd_embd d)
         @ le_bytes 4 (unat (cd_prob d)) @ le_bytes 4 (unat (cd_last d)))"

lemma get_seq_state_bytes:
  "get_seq_state s st = Some data \<Longrightarrow>
     data = le_bytes 4 carry_magic @ le_bytes 4 carry_version @ le_bytes 4 (unat (sc_n_embd st))
       @ hidden_bytes (sc_hidden st s) @ draft_bytes (cached_draft st s)"
  by (auto simp: get_seq_state_def put_row_is hidden_bytes_def draft_bytes_def spec_put_def Let_def split: if_splits option.splits)

lemma unat_fits: "unat (w :: 32 word) < 256 ^ 4"
  using unsigned_less[of w] by simp

lemma read_header_bytes:
  "read_header n (le_bytes 4 carry_magic @ le_bytes 4 carry_version @ le_bytes 4 (unat n) @ rest) = Some 12"
proof -
  let ?d = "le_bytes 4 carry_magic @ le_bytes 4 carry_version @ le_bytes 4 (unat n) @ rest"
  have "spec_get 4 ?d 0 = Some (carry_magic, 4)"
    using spec_get_put[of carry_magic 4 "[]"] by (simp add: carry_magic_def)
  moreover have "spec_get 4 ?d 4 = Some (carry_version, 8)"
    using spec_get_put[of carry_version 4 "le_bytes 4 carry_magic"] by (simp add: carry_version_def)
  moreover have "spec_get 4 ?d 8 = Some (unat n, 12)"
    using spec_get_put[OF unat_fits, of "le_bytes 4 carry_magic @ le_bytes 4 carry_version"] by simp
  ultimately show ?thesis by (simp add: read_header_def)
qed

lemma read_hidden_bytes:
  assumes "hid = [] \<or> int (length hid) = sint n"
  shows "read_hidden n (pre @ hidden_bytes hid @ post) (length pre) = Some (hid, length pre + length (hidden_bytes hid))"
proof (cases "hid = []")
  case True
  then show ?thesis using spec_get_put[of 0 4 pre post] by (simp add: read_hidden_def hidden_bytes_def)
next
  case False
  have "sint n < 2147483648" using sint_less[of n] by simp
  moreover have "int (length hid) = sint n" using assms False by simp
  ultimately have len: "length hid \<le> 2147483647" by linarith
  let ?d = "pre @ hidden_bytes hid @ post"
  have "spec_get 4 ?d (length pre) = Some (1, length pre + 4)"
    using spec_get_put[of 1 4 pre] False by (simp add: hidden_bytes_def)
  moreover have "get_row ?d (length pre + 4) = Some (hid, length pre + 4 + 8 + length hid * 4)"
    using get_row_put[OF False len, of "pre @ le_bytes 4 1" post] False by (simp add: hidden_bytes_def)
  ultimately show ?thesis using assms False by (simp add: read_hidden_def hidden_bytes_def)
qed

lemma read_draft_bytes:
  assumes "\<And>d. draft = Some d \<Longrightarrow> cd_embd d \<noteq> [] \<and> length (cd_embd d) \<le> 2147483647"
  shows "read_draft (pre @ draft_bytes draft) (length pre)
    = Some (map_option (\<lambda>d. d\<lparr>cd_q := []\<rparr>) draft, length pre + length (draft_bytes draft))"
proof (cases draft)
  case None
  then show ?thesis using spec_get_put[of 0 4 pre "[]"] by (simp add: read_draft_def draft_bytes_def)
next
  case (Some d)
  let ?d = "pre @ draft_bytes draft" and ?n = "length (cd_embd d)"
  let ?r = "le_bytes 8 ?n @ row_bytes (cd_embd d)"
  have d: "cd_embd d \<noteq> []" "?n \<le> 2147483647" using assms[OF Some] by auto
  have "spec_get 4 ?d (length pre) = Some (1, length pre + 4)"
    using spec_get_put[of 1 4 pre] Some by (simp add: draft_bytes_def)
  moreover have "get_row ?d (length pre + 4) = Some (cd_embd d, length pre + 12 + ?n * 4)"
    using get_row_put[OF d, of "pre @ le_bytes 4 1" "le_bytes 4 (unat (cd_prob d)) @ le_bytes 4 (unat (cd_last d))"] Some
    by (simp add: draft_bytes_def)
  moreover have "spec_get 4 ?d (length pre + 12 + ?n * 4) = Some (unat (cd_prob d), length pre + 16 + ?n * 4)"
    using spec_get_put[OF unat_fits, of "pre @ le_bytes 4 1 @ ?r" "cd_prob d" "le_bytes 4 (unat (cd_last d))"] Some
    by (simp add: draft_bytes_def algebra_simps)
  moreover have "spec_get 4 ?d (length pre + 16 + ?n * 4) = Some (unat (cd_last d), length pre + 20 + ?n * 4)"
    using spec_get_put[OF unat_fits, of "pre @ le_bytes 4 1 @ ?r @ le_bytes 4 (unat (cd_prob d))" "cd_last d" "[]"] Some
    by (simp add: draft_bytes_def algebra_simps)
  ultimately show ?thesis using Some by (simp add: read_draft_def draft_bytes_def)
qed

lemma set_reads_back:
  assumes "get_seq_state s st = Some data" "sc_n_embd st' = sc_n_embd st"
    and "sc_hidden st s = [] \<or> int (length (sc_hidden st s)) = sint (sc_n_embd st)"
    and "\<forall>d. sc_draft st s = Some d \<longrightarrow> length (cd_embd d) \<le> 2147483647"
  shows "set_seq_state s' data st' =
    (st'\<lparr>sc_hidden := (sc_hidden st')(s' := sc_hidden st s),
         sc_draft := (sc_draft st')(s' := map_option (\<lambda>d. d\<lparr>cd_q := []\<rparr>) (cached_draft st s))\<rparr>, True)"
proof -
  let ?h = "le_bytes 4 carry_magic @ le_bytes 4 carry_version @ le_bytes 4 (unat (sc_n_embd st))"
  let ?hid = "hidden_bytes (sc_hidden st s)" and ?dr = "draft_bytes (cached_draft st s)"
  have data: "data = ?h @ ?hid @ ?dr" using get_seq_state_bytes[OF assms(1)] by simp
  have "read_header (sc_n_embd st) data = Some 12" unfolding data using read_header_bytes[of "sc_n_embd st"] by simp
  moreover have "read_hidden (sc_n_embd st) data 12 = Some (sc_hidden st s, 12 + length ?hid)"
    using read_hidden_bytes[OF assms(3), of ?h ?dr] unfolding data by simp
  moreover have "read_draft data (12 + length ?hid) = Some (map_option (\<lambda>d. d\<lparr>cd_q := []\<rparr>) (cached_draft st s), length data)"
    using read_draft_bytes[of "cached_draft st s" "?h @ ?hid"] assms(4) unfolding data by (auto simp: cached_draft_def split: option.splits if_splits)
  moreover have "data \<noteq> []" unfolding data by (simp add: le_bytes_def)
  ultimately show ?thesis using assms(2)
    by (cases "cached_draft st s") (simp_all add: set_seq_state_def cleared_carries clear_target_hidden_def Let_def)
qed

subsection \<open>Refusals\<close>

lemma read_hidden_width: "read_hidden n data off = Some (row, off') \<Longrightarrow> row = [] \<or> int (length row) = sint n"
  by (auto simp: read_hidden_def split: option.splits prod.splits if_splits)

lemma get_row_inside: "get_row data off = Some (row, off') \<Longrightarrow> row \<noteq> [] \<and> off < off' \<and> off' \<le> length data"
  by (auto simp: get_row_def spec_get_def split: option.splits if_splits)

subsection \<open>Truncated blobs\<close>

text \<open>What is read from a shorter blob is read from the longer one.\<close>

lemma spec_get_longer: "spec_get n data off = Some x \<Longrightarrow> spec_get n (data @ extra) off = Some x"
  by (auto simp: spec_get_def split: if_splits)

lemma get_row_longer: "get_row data off = Some x \<Longrightarrow> get_row (data @ extra) off = Some x"
  by (auto simp: get_row_def spec_get_longer split: option.splits if_splits)

lemma read_header_longer: "read_header n data = Some x \<Longrightarrow> read_header n (data @ extra) = Some x"
  by (auto simp: read_header_def spec_get_longer split: option.splits if_splits)

lemma read_hidden_longer: "read_hidden n data off = Some x \<Longrightarrow> read_hidden n (data @ extra) off = Some x"
  by (auto simp: read_hidden_def spec_get_longer get_row_longer split: option.splits if_splits)

lemma read_draft_longer: "read_draft data off = Some x \<Longrightarrow> read_draft (data @ extra) off = Some x"
  by (auto simp: read_draft_def spec_get_longer get_row_longer split: option.splits if_splits)

text \<open>The offset at which the reading of a blob ends.\<close>

definition draft_end :: "8 word list \<Rightarrow> nat \<Rightarrow> nat option" where
  "draft_end data off = map_option snd (read_draft data off :: (unit draft_cache option \<times> nat) option)"

definition carry_end :: "32 word \<Rightarrow> 8 word list \<Rightarrow> nat option" where
  "carry_end n data =
     (case read_header n data of None \<Rightarrow> None
      | Some off \<Rightarrow> (case read_hidden n data off of None \<Rightarrow> None | Some (hidden, off) \<Rightarrow> draft_end data off))"

lemma read_draft_end: "map_option snd (read_draft data off) = draft_end data off"
  by (simp add: draft_end_def read_draft_def split: option.split prod.split)

lemma draft_end_longer: "draft_end data off = Some k \<Longrightarrow> draft_end (data @ extra) off = Some k"
  by (auto simp: draft_end_def read_draft_longer)

lemma set_accepts: "snd (set_seq_state s data (st :: 'q carries)) \<longleftrightarrow> data \<noteq> [] \<and> carry_end (sc_n_embd st) data = Some (length data)"
proof -
  have "snd (set_seq_state s data st) \<longleftrightarrow> data \<noteq> [] \<and> (\<exists>off hidden off' d. read_header (sc_n_embd st) data = Some off
      \<and> read_hidden (sc_n_embd st) data off = Some (hidden, off') \<and> (read_draft data off' :: ('q draft_cache option \<times> nat) option) = Some (d, length data))"
    by (auto simp: set_seq_state_def cleared_carries Let_def split: option.split)
  also have "\<dots> \<longleftrightarrow> data \<noteq> [] \<and> (\<exists>off hidden off'. read_header (sc_n_embd st) data = Some off
      \<and> read_hidden (sc_n_embd st) data off = Some (hidden, off')
      \<and> map_option snd (read_draft data off' :: ('q draft_cache option \<times> nat) option) = Some (length data))"
    by fastforce
  also have "\<dots> \<longleftrightarrow> data \<noteq> [] \<and> carry_end (sc_n_embd st) data = Some (length data)"
    unfolding read_draft_end by (auto simp: carry_end_def split: option.splits)
  finally show ?thesis .
qed

lemma carry_end_longer: "carry_end n data = Some k \<Longrightarrow> carry_end n (data @ extra) = Some k"
  by (auto simp: carry_end_def read_header_longer read_hidden_longer draft_end_longer split: option.splits)

lemma set_refused: "snd (set_seq_state s data st) = False \<Longrightarrow> fst (set_seq_state s data st) = clear_target_hidden s st"
  by (auto simp: set_seq_state_def Let_def split: option.splits prod.splits if_splits)

end
