(* ===== verification/MtpMain.thy ===== *)
theory MtpMain
  imports MtpBatch MtpCommit MtpCarry
begin

section \<open>What drafting promises\<close>

text \<open>
  The properties of the drafter: one decode per step drafts what one decode per sequence drafts, the
  companion's rows stay the history of every sequence, a round extends that history, the two commits
  agree but for the stored hidden row, and a saved carry comes back.
\<close>

subsection \<open>The examples' configuration\<close>

definition ex_cfg :: mtp_cfg where
  "ex_cfg = \<lparr>mc_batch_slots = True, mc_n_seq_max = 2, mc_n_ubatch = 0, mc_multi_row = True, mc_constant = False,
     mc_cap_pts = [], mc_adaptive_k = False, mc_deep_on = False, mc_deep_base = 1, mc_deep_pmin = 0, mc_deep_thr = 0,
     mc_streak = streak_off, mc_first_gate = False, mc_spec_exact = False, mc_cut_floor = (\<lambda>_. 0), mc_mul = (*),
     mc_stats = False, mc_zero_output = False\<rparr>"

text \<open>A network that knows one token, with its probability among the top candidates and among all.\<close>

definition ex_net :: "rat \<Rightarrow> rat \<Rightarrow> int net" where
  "ex_net gate every = (\<lambda>rows r. Some \<lparr>mo_id = 7, mo_gate_prob = gate, mo_full_prob = every, mo_emb = Some (int (length rows))\<rparr>)"

definition ex_state :: "int mtp_state" where
  "ex_state = \<lparr>ms_ak_ema = 1, ms_ak_drafted = 0, ms_streak_full = False, ms_target_hidden = (\<lambda>_. Some 3),
     ms_last = (\<lambda>_. \<lparr>le_embd = 0, le_prob = 0, le_last_id = -1\<rparr>), ms_kv = (\<lambda>_. [])\<rparr>"

definition ex_req :: "int \<Rightarrow> rat \<Rightarrow> mtp_req" where
  "ex_req s p = \<lparr>rq_seq = s, rq_n_max = 2, rq_n_min = 0, rq_p_min = p, rq_base_pos = 1, rq_id_last = 5, rq_prompt_len = 1\<rparr>"

lemmas ex_defs = ex_cfg_def ex_net_def ex_state_def ex_req_def

subsection \<open>One decode for all sequences\<close>

text \<open>C26: When the batched drafter takes a step at all, its state afterwards is the one the serial drafter reaches and its drafts are the serial ones less the drafts shorter than the request's minimum. Assumed: the requests are of distinct sequences with a base position, every companion decode succeeds, the depth caps and the deep base are at least one, the first gate, the depth cut-off and the streak are off, and the probability floor reads the same in both, that is the probability over the whole vocabulary is the one over the top candidates, or the floor is not positive and no statistics are kept; gate_probability_divergence shows two drafters that disagree without the last.\<close>

theorem batched_drafts_as_serial:
  assumes "cfg_ok cfg" "net_total net" "\<forall>r \<in> set reqs. req_ok cfg net r" "distinct (map rq_seq reqs)"
    and "draft_batched cfg net reqs st = Some (st', rs)"
  shows "\<exists>dss. draft_serially cfg net reqs st = (st', dss) \<and> rs = map2 drop_short (map rq_n_min reqs) dss"
proof -
  have "1 < mc_n_seq_max cfg"
    using assms(5) by (auto simp: draft_batched_def batch_applies_def batch_slots_applicable_def split: if_splits)
  note s = draft_serially_solo[OF assms(1) this assms(2-4), of st st 0]
  have "map2 drop_short (map rq_n_min reqs) (map (\<lambda>(r, x). fst (snd (snd x))) (outcomes cfg net st 0 reqs)) = rs"
    unfolding draft_batched_outcomes(2)[OF assms(2,4,5)]
    by (intro nth_equalityI) (auto simp: outcomes_def nth_enumerate_eq)
  with s draft_batched_outcomes(1)[OF assms(2,4,5)] show ?thesis by auto
qed

lemma batched_drafts_as_serial_witness:
  "\<exists>st' dss. draft_batched ex_cfg (ex_net (4/5) (7/10)) [ex_req 0 0, ex_req 1 0] ex_state = Some (st', dss)
     \<and> dss = [[7, 7], [7, 7]] \<and> draft_serially ex_cfg (ex_net (4/5) (7/10)) [ex_req 0 0, ex_req 1 0] ex_state = (st', dss)"
proof -
  let ?n = "ex_net (4/5) (7/10)" and ?rs = "[ex_req 0 0, ex_req 1 0]"
  have "draft_batched ex_cfg ?n ?rs ex_state \<noteq> None" by code_simp
  then obtain st' rs where b: "draft_batched ex_cfg ?n ?rs ex_state = Some (st', rs)" by fastforce
  have "snd (the (draft_batched ex_cfg ?n ?rs ex_state)) = [[7, 7], [7, 7]]" by code_simp
  with b have rs: "rs = [[7, 7], [7, 7]]" by simp
  have "\<exists>dss. draft_serially ex_cfg ?n ?rs ex_state = (st', dss) \<and> rs = map2 drop_short (map rq_n_min ?rs) dss"
    by (rule batched_drafts_as_serial[OF _ _ _ _ b])
      (simp_all add: ex_defs cfg_ok_def net_total_def req_ok_def gates_off_def streak_off_def)
  then obtain dss where d: "draft_serially ex_cfg ?n ?rs ex_state = (st', dss)" "rs = map2 drop_short [0, 0] dss"
    by (auto simp: ex_req_def)
  have "snd (draft_serially ex_cfg ?n ?rs ex_state) = [[7, 7], [7, 7]]" by code_simp
  with b d rs show ?thesis by simp
qed

text \<open>The two read the probability floor differently: the serial drafter over the top candidates, the batched
  one over the whole vocabulary, so a floor between the two probabilities shortens the batched drafts.\<close>

lemma gate_probability_divergence:
  "snd (draft_serially ex_cfg (ex_net (4/5) (7/10)) [ex_req 0 (3/4), ex_req 1 (3/4)] ex_state) = [[7, 7], [7, 7]]"
  "map_option snd (draft_batched ex_cfg (ex_net (4/5) (7/10)) [ex_req 0 (3/4), ex_req 1 (3/4)] ex_state) = Some [[7], [7]]"
  by code_simp+

subsection \<open>The companion's history\<close>

text \<open>C27: However warm-ups, drafts, verdicts, serial commits, rounds without a draft, captured and dropped hidden rows follow each other, the companion rows of every sequence are the rows of its history at all positions but those left behind, all of them, or all but the newest while no token is cached, and a stored hidden row is the newest of the history. A position is left behind only when the history goes on, by a round without a draft or by a commit, before its row is written, and never gets one later in the run. Assumed: every companion decode succeeds, drafts and commits continue the history, positions are not constant, the depth caps are at least one, and a companion of one slot serves sequence 0.\<close>

theorem companion_holds_history:
  assumes "mtp_run cfg net shifted zero st H L" "net_total net" "\<not> mc_constant cfg" "depths_ok cfg"
  shows "(ms_kv st s = rows_but (L s) (H s) \<or> ms_kv st s = rows_but (L s) (butlast (H s)) \<and> le_last_id (ms_last st s) < 0)
    \<and> L s \<subseteq> {..<length (H s) - 1} \<and> ms_target_hidden st s \<in> {None, Some (snd (List.last (H s)))}"
proof -
  have "total_cfg cfg net s" if "own_rows cfg s" for s using assms(2-4) that by (simp add: total_cfg_def net_total_def draft_cfg_ok_def own_rows_def)
  from run_ok[OF assms(1) this] show ?thesis by (auto simp: companion_but_def written_def)
qed

definition ex_empty :: "int mtp_state" where
  "ex_empty = ex_state\<lparr>ms_target_hidden := (\<lambda>_. None)\<rparr>"

definition ex_warm :: "int mtp_state" where
  "ex_warm = fst (prompt_warm ex_cfg (ex_net (4/5) (7/10)) True 0 0 [(1, 0), (2, 1), (3, 2)] [10, 20, 30] ex_empty)"

definition ex_drafted :: "int mtp_state" where
  "ex_drafted = fst (mtp_draft ex_cfg (ex_net (4/5) (7/10)) ((ex_req 0 0)\<lparr>rq_base_pos := 3, rq_id_last := 4\<rparr>) ex_warm)"

definition ex_commit :: "int commit_req" where
  "ex_commit = \<lparr>cq_seq = 0, cq_pos_base = 3, cq_ids = [7, 8], cq_rows = [40, 50]\<rparr>"

definition ex_hist :: "int history" where
  "ex_hist = [(1, 30), (2, 10), (3, 20), (4, 30)]"

lemma ex_warmed: "warmed True [(1, 0)] [1, 2, 3] [10, 20, 30] 4 = ex_hist"
  by (simp add: warmed_def conditioned_rows_def ex_hist_def)

lemma ex_run:
  "mtp_run ex_cfg (ex_net (4/5) (7/10)) True 0 ex_drafted ((\<lambda>s. [(1, 0)])(0 := ex_hist)) (\<lambda>s. {})"
proof -
  have "mtp_run ex_cfg (ex_net (4/5) (7/10)) True 0 ex_empty (\<lambda>s. [(1, 0)]) (\<lambda>s. {})"
    by (rule run_start) (simp add: ex_empty_def ex_state_def)
  from run_warm[OF this, of 0 "[(1, 0), (2, 1), (3, 2)]" "[10, 20, 30]" 4]
  have "mtp_run ex_cfg (ex_net (4/5) (7/10)) True 0 ex_warm ((\<lambda>s. [(1, 0)])(0 := ex_hist)) (\<lambda>s. {})"
    by (simp add: warms_def ex_warmed ex_warm_def upt_rec own_rows_def)
  from run_draft[OF this, of "(ex_req 0 0)\<lparr>rq_base_pos := 3, rq_id_last := 4\<rparr>"] show ?thesis
    by (simp add: continues_def ex_hist_def ex_req_def ex_drafted_def own_rows_def)
qed

text \<open>After the draft a round without one decodes the token 7, whose row stays unwritten, and a commit goes on.\<close>

definition ex_plain :: "int mtp_state" where
  "ex_plain = capture_hidden 0 40 ex_drafted"

definition ex_commit_on :: "int commit_req" where
  "ex_commit_on = \<lparr>cq_seq = 0, cq_pos_base = 4, cq_ids = [8], cq_rows = [50]\<rparr>"

lemma ex_left: "left_behind ex_drafted 0 {} ex_hist = {}" "left_behind ex_plain 0 {} (ex_hist @ [(7, 40)]) = {4}"
  by code_simp+

lemma companion_holds_history_witness:
  "let st = fst (commit_one ex_cfg (ex_net (4/5) (7/10)) ex_commit_on ex_plain); hist = ex_hist @ [(7, 40), (8, 50)] in
     (ms_kv st 0 = rows_but {4} hist \<or> ms_kv st 0 = rows_but {4} (butlast hist) \<and> le_last_id (ms_last st 0) < 0)
     \<and> {4} \<subseteq> {..<length hist - 1} \<and> ms_target_hidden st 0 \<in> {None, Some (snd (List.last hist))}"
proof -
  let ?H = "\<lambda>xs. ((\<lambda>s. [(1, 0)])(0 := ex_hist @ xs))"
  have "mtp_run ex_cfg (ex_net (4/5) (7/10)) True 0 ex_plain (?H [(7, 40)]) (\<lambda>s. {})"
    using run_plain[OF ex_run, of 0 40 7] by (simp add: ex_plain_def ex_left fun_upd_idem)
  from run_commit[OF this, of ex_commit_on]
  have "mtp_run ex_cfg (ex_net (4/5) (7/10)) True 0 (fst (commit_one ex_cfg (ex_net (4/5) (7/10)) ex_commit_on ex_plain))
      (?H [(7, 40), (8, 50)]) ((\<lambda>s. {})(0 := {4}))"
    using ex_left(2) by (simp add: ex_commit_on_def commit_ok_def own_rows_def ex_hist_def)
  from companion_holds_history[OF this, of 0] show ?thesis
    by (simp add: ex_defs net_total_def depths_ok_def streak_off_def Let_def)
qed

text \<open>What a row costs that was left behind: nothing writes it afterwards, and the companion attends over the
  history without it.\<close>

lemma left_behind_stays:
  "4 \<in> mr_pos ` set (ms_kv (fst (commit_one ex_cfg (ex_net (4/5) (7/10)) (ex_commit_on\<lparr>cq_pos_base := 3\<rparr>) ex_drafted)) 0)"
  "4 \<notin> mr_pos ` set (ms_kv (fst (commit_one ex_cfg (ex_net (4/5) (7/10)) ex_commit_on ex_plain)) 0)"
  by code_simp+

text \<open>C28: A draft of positive depth followed by the commit of what the target accepted leaves the companion with exactly the rows of the extended history, less the positions left behind before, the newest accepted hidden row stored, and the rows of every other sequence as they were. Assumed: every companion decode succeeds, positions are not constant, the depth caps are at least one, the newest hidden row of the history is stored, the draft continues the history, and the commit is of at least one token with a hidden row each, at the position the draft started from.\<close>

theorem round_extends_history:
  assumes "companion_but L st (rq_seq r) hist" "continues r hist" "ms_target_hidden st (rq_seq r) \<noteq> None" "0 < rq_n_max r"
    and "draft_cfg_ok cfg (rq_seq r)" "net_total net"
    and "cq_seq q = rq_seq r" "cq_ids q \<noteq> []" "commit_ok q" "cq_pos_base q = rq_base_pos r"
  shows "let st' = fst (commit_one cfg net q (fst (mtp_draft cfg net r st))) in
    ms_kv st' (rq_seq r) = rows_but L (hist @ zip (cq_ids q) (cq_rows q))
    \<and> ms_target_hidden st' (rq_seq r) = Some (List.last (cq_rows q))
    \<and> (\<forall>t. t \<noteq> rq_seq r \<longrightarrow> ms_kv st' t = ms_kv st t)"
proof -
  have net: "net rows r \<noteq> None" for rows r using assms(6) by (simp add: net_total_def)
  have full: "written (fst (mtp_draft cfg net r st)) (cq_seq q) L hist"
    unfolding assms(7) by (rule mtp_draft_rows(2)[OF assms(5) net assms(1-4)])
  have behind: "L \<subseteq> {..<length hist}" using assms(1) by (auto simp: companion_but_def)
  have base: "cq_pos_base q = int (length hist) - 1" using assms(2,10) by (simp add: continues_def)
  have cfg: "draft_cfg_ok cfg (cq_seq q)" using assms(5,7) by simp
  note c = commit_one_rows[where net = net, OF cfg net full behind assms(8,9) base]
  show ?thesis using c assms(7) mtp_draft_kv_others[where net = net, OF assms(5) net] commit_one_others[where net = net, OF cfg net]
    by (simp add: written_def Let_def)
qed

lemma round_extends_history_witness:
  "let st' = fst (commit_one ex_cfg (ex_net (4/5) (7/10)) ex_commit ex_drafted) in
    ms_kv st' 0 = rows_of [(1, 30), (2, 10), (3, 20), (4, 30), (7, 40), (8, 50)]
    \<and> ms_target_hidden st' 0 = Some 50 \<and> (\<forall>t. t \<noteq> 0 \<longrightarrow> ms_kv st' t = ms_kv ex_warm t)"
proof -
  have "ms_kv ex_warm 0 = rows_of (butlast ex_hist)" "le_last_id (ms_last ex_warm 0) < 0" "ms_target_hidden ex_warm 0 = Some 30"
    by code_simp+
  then show ?thesis
    using round_extends_history[of "{}" ex_warm "(ex_req 0 0)\<lparr>rq_base_pos := 3, rq_id_last := 4\<rparr>" ex_hist ex_cfg "ex_net (4/5) (7/10)" ex_commit]
    by (simp add: companion_but_def continues_def draft_cfg_ok_def depths_ok_def commit_ok_def net_total_def ex_hist_def ex_commit_def
        ex_defs streak_off_def ex_drafted_def)
qed

text \<open>C29: With recurrent conditioning, the first row a prompt batch writes is conditioned on the last hidden row of the same batch, whatever was stored for the token before it: the lookup of the previous row follows the store of the batch's last one.\<close>

theorem warmup_conditions_on_own_last_row:
  assumes "companion_ok st s hist" "warms batch hids hist" "draft_cfg_ok cfg s" "net_total net"
  shows "ms_kv (fst (prompt_warm cfg net True zero s batch hids st)) s ! (length hist - 1)
    = \<lparr>mr_tok = fst (hd batch), mr_pos = int (length hist) - 1, mr_hid = List.last hids\<rparr>"
proof -
  have net: "net rows r \<noteq> None" for rows r using assms(4) by (simp add: net_total_def)
  from assms(1) have ok: "companion_but {} st s hist" and ne: "hist \<noteq> []" by (simp_all add: companion_but_empty companion_ok_def)
  obtain b bs where b: "batch = b # bs" using assms(2) by (cases batch) (auto simp: warms_def)
  let ?new = "(fst b, List.last hids) # zip (map fst bs) (butlast hids)"
  have w: "butlast (warmed True hist (map fst batch) hids x) = butlast hist @ ?new" for x
    by (simp add: warmed_def conditioned_rows_def b butlast_append)
  have "rows_of (butlast hist @ ?new) ! length (butlast hist) = row_at (length (butlast hist)) (fst b, List.last hids)"
    by (simp add: rows_of_append nth_append rows_of_def[of "butlast hist"] upt_conv_Cons del: upt_Suc length_butlast)
  then show ?thesis
    unfolding prompt_warm_rows(3)[where net = net, OF assms(3) net ok assms(2), of True zero undefined] w rows_but_empty
    using ne by (simp add: row_at_def b of_nat_diff Suc_leI)
qed

lemma warmup_conditions_on_own_last_row_witness:
  "ms_kv (fst (prompt_warm ex_cfg (ex_net (4/5) (7/10)) True 0 0 [(4, 3), (5, 4)] [40, 50] ex_warm)) 0 ! 3
    = \<lparr>mr_tok = 4, mr_pos = 3, mr_hid = 50\<rparr> \<and> ms_target_hidden ex_warm 0 = Some 30"
proof -
  have k: "ms_kv ex_warm 0 = rows_of (butlast ex_hist)" "le_last_id (ms_last ex_warm 0) < 0" "ms_target_hidden ex_warm 0 = Some 30"
    by code_simp+
  have "ms_kv (fst (prompt_warm ex_cfg (ex_net (4/5) (7/10)) True 0 0 [(4, 3), (5, 4)] [40, 50] ex_warm)) 0 ! (length ex_hist - 1)
    = \<lparr>mr_tok = fst (hd [(4, 3), (5 :: int, 4 :: int)]), mr_pos = int (length ex_hist) - 1, mr_hid = List.last [40, 50]\<rparr>"
    by (rule warmup_conditions_on_own_last_row)
      (use k in \<open>simp_all add: companion_ok_def warms_def draft_cfg_ok_def depths_ok_def net_total_def ex_hist_def ex_cfg_def ex_net_def streak_off_def upt_rec\<close>)
  then show ?thesis using k by (simp add: ex_hist_def eval_nat_numeral)
qed

subsection \<open>The two commits\<close>

text \<open>C30: The batched commit leaves every sequence's rows and cached token as the serial commits do and neither reports a failure, but the batched one keeps the old target hidden rows, where the serial ones store the last accepted row of each sequence. Assumed: every companion decode succeeds and returns an embedding, or the commit asks for no output, the requests are of distinct sequences with at least one token and a hidden row each, the companion has more than one sequence slot, and positions are not constant; constant_commit_divergence shows that the two differ on constant positions.\<close>

theorem batched_commit_as_serial:
  assumes "embeds cfg net" "1 < mc_n_seq_max cfg" "\<not> mc_constant cfg" "\<forall>q \<in> set qs. cq_ids q \<noteq> [] \<and> commit_ok q" "distinct (map cq_seq qs)"
  shows "\<exists>st'. commit_serially cfg net qs st = (st', [])
    \<and> commit_batched cfg net qs st = (st'\<lparr>ms_target_hidden := ms_target_hidden st\<rparr>, [])
    \<and> (\<forall>q \<in> set qs. ms_target_hidden st' (cq_seq q) = Some (List.last (cq_rows q)))"
proof -
  have live: "\<forall>q \<in> set qs. live_req q" using assms(4) by (simp add: live_req_def)
  have "target_fold qs (ms_target_hidden st) (cq_seq q) = Some (List.last (cq_rows q))" if "q \<in> set qs" for q
    using foldl_local(1)[OF assms(5) that, of "\<lambda>q _. Some (List.last (cq_rows q))" "ms_target_hidden st"] by (simp add: target_fold_def)
  then show ?thesis
    by (simp add: commit_serially_is[OF assms(1-3) live assms(5)] commit_batched_is[OF assms(1) live assms(5)])
qed

definition ex_commits :: "int commit_req list" where
  "ex_commits = [ex_commit, ex_commit\<lparr>cq_seq := 1, cq_pos_base := 0, cq_ids := [9], cq_rows := [60]\<rparr>]"

lemma batched_commit_as_serial_witness:
  "\<exists>st'. commit_serially ex_cfg (ex_net (4/5) (7/10)) ex_commits ex_drafted = (st', [])
    \<and> commit_batched ex_cfg (ex_net (4/5) (7/10)) ex_commits ex_drafted = (st'\<lparr>ms_target_hidden := ms_target_hidden ex_drafted\<rparr>, [])
    \<and> (\<forall>q \<in> set ex_commits. ms_target_hidden st' (cq_seq q) = Some (List.last (cq_rows q)))"
  by (rule batched_commit_as_serial)
    (simp_all add: ex_commits_def ex_commit_def commit_ok_def embeds_def net_total_def ex_cfg_def ex_net_def)

text \<open>On constant positions the drafter reads the target's rows and the serial commit writes none; the batched
  commit does not ask and writes them.\<close>

lemma constant_commit_divergence:
  "ms_kv (fst (commit_serially (ex_cfg\<lparr>mc_constant := True\<rparr>) (ex_net (4/5) (7/10)) ex_commits ex_state)) 0 = []"
  "map mr_pos (ms_kv (fst (commit_batched (ex_cfg\<lparr>mc_constant := True\<rparr>) (ex_net (4/5) (7/10)) ex_commits ex_state)) 0) = [4, 5]"
  by code_simp+

subsection \<open>The saved carry\<close>

text \<open>C31: The blob written for a sequence is read back into any sequence of a drafter of the same width: the hidden row and the cached draft are the ones saved, the proposal distribution is empty, and nothing else changes.\<close>

theorem carry_roundtrip:
  assumes "get_seq_state s st = Some data" "sc_n_embd st' = sc_n_embd st"
    and "sc_hidden st s = [] \<or> int (length (sc_hidden st s)) = sint (sc_n_embd st)"
    and "\<forall>d. sc_draft st s = Some d \<longrightarrow> length (cd_embd d) \<le> 2147483647"
  shows "set_seq_state s' data st' =
    (st'\<lparr>sc_hidden := (sc_hidden st')(s' := sc_hidden st s),
         sc_draft := (sc_draft st')(s' := map_option (\<lambda>d. d\<lparr>cd_q := []\<rparr>) (cached_draft st s))\<rparr>, True)"
  by (rule set_reads_back) (use assms in blast)+

definition ex_carries :: "int carries" where
  "ex_carries = \<lparr>sc_n_embd = 2, sc_hidden = (\<lambda>_. [5, 0xFFFFFFFF]),
     sc_draft = (\<lambda>_. Some \<lparr>cd_embd = [6, 258], cd_prob = 0x3F000000, cd_last = 77, cd_q = [1]\<rparr>)\<rparr>"

definition ex_blank :: "int carries" where
  "ex_blank = \<lparr>sc_n_embd = 2, sc_hidden = (\<lambda>_. []), sc_draft = (\<lambda>_. None)\<rparr>"

lemma carry_roundtrip_witness:
  "set_seq_state 4 (the (get_seq_state 3 ex_carries)) ex_blank =
    (ex_blank\<lparr>sc_hidden := (\<lambda>_. [])(4 := [5, 0xFFFFFFFF]),
       sc_draft := (\<lambda>_. None)(4 := Some \<lparr>cd_embd = [6, 258], cd_prob = 0x3F000000, cd_last = 77, cd_q = []\<rparr>)\<rparr>, True)"
proof -
  have "get_seq_state 3 ex_carries = Some (the (get_seq_state 3 ex_carries))" by (simp add: get_seq_state_def ex_carries_def Let_def)
  from carry_roundtrip[OF this, of ex_blank 4] show ?thesis
    by (simp add: ex_carries_def ex_blank_def cached_draft_def)
qed

text \<open>No carry that is accepted is still accepted when its end is cut off, and a refused one leaves its sequence without a hidden row and without a cached draft, all other sequences unchanged.\<close>

theorem carry_refusals:
  assumes "snd (set_seq_state s data st)" "k < length data"
  shows "set_seq_state s (take k data) st = (clear_target_hidden s st, False)
    \<and> sc_hidden (clear_target_hidden s st) s = [] \<and> sc_draft (clear_target_hidden s st) s = None
    \<and> (\<forall>t. t \<noteq> s \<longrightarrow> sc_hidden (clear_target_hidden s st) t = sc_hidden st t \<and> sc_draft (clear_target_hidden s st) t = sc_draft st t)"
proof -
  have "\<not> snd (set_seq_state s (take k data) st)"
  proof
    assume "snd (set_seq_state s (take k data) st)"
    then have "carry_end (sc_n_embd st) (take k data) = Some k" using assms(2) by (simp add: set_accepts)
    from carry_end_longer[OF this, of "drop k data"] assms show False by (simp add: set_accepts)
  qed
  then have "set_seq_state s (take k data) st = (clear_target_hidden s st, False)"
    using set_refused[of s "take k data" st] by (metis prod.collapse)
  then show ?thesis by (simp add: cleared_carries)
qed

lemma carry_refusals_witness:
  "let data = the (get_seq_state 3 ex_carries) in
     set_seq_state 3 (take 40 data) ex_carries = (clear_target_hidden 3 ex_carries, False)"
proof -
  obtain data where d: "get_seq_state 3 ex_carries = Some data" by (simp add: get_seq_state_def ex_carries_def Let_def)
  have "snd (set_seq_state 3 (the (get_seq_state 3 ex_carries)) ex_carries)"
    using set_reads_back[OF d, of ex_carries 3] d by (simp add: ex_carries_def)
  moreover have "40 < length (the (get_seq_state 3 ex_carries))"
    using get_seq_state_bytes[OF d] d by (simp add: ex_carries_def hidden_bytes_def draft_bytes_def cached_draft_def)
  ultimately have "snd (set_seq_state 3 (the (get_seq_state 3 ex_carries)) ex_carries)" "40 < length (the (get_seq_state 3 ex_carries))" .
  from carry_refusals[OF this] show ?thesis by (simp add: Let_def)
qed

text \<open>The width in the header is compared with the hidden row's, not with the cached draft's: a draft row of
  another width is taken over.\<close>

lemma carry_draft_width_unchecked:
  defines "narrow \<equiv> ex_carries\<lparr>sc_hidden := (\<lambda>_. []), sc_draft := (\<lambda>_. Some \<lparr>cd_embd = [6], cd_prob = 0, cd_last = 77, cd_q = []\<rparr>)\<rparr>"
  shows "\<exists>data st. get_seq_state 3 narrow = Some data \<and> set_seq_state 3 data ex_blank = (st, True)
    \<and> map_option (length \<circ> cd_embd) (sc_draft st 3) = Some 1 \<and> sc_n_embd st = 2"
proof -
  obtain data where d: "get_seq_state 3 narrow = Some data"
    by (simp add: get_seq_state_def narrow_def cached_draft_def Let_def)
  from set_reads_back[OF d, of ex_blank 3] d show ?thesis
    by (simp add: narrow_def ex_carries_def ex_blank_def cached_draft_def)
qed

end
