(* ===== verification/SuffixTree.thy ===== *)
theory SuffixTree
  imports Prelude Complex_Main "HOL-Library.AList" "HOL-Library.Sublist"
begin

section \<open>The suffix tree of the token history (common/suffix-tree.cpp)\<close>

text \<open>
  The tree holds every window of at most \<open>max_depth\<close> tokens of the history, a node counting how often
  the path to it occurred.  A node's children are an association list; the order in which the code
  iterates over its hash map is a parameter of the drafter.  Counts do not overflow; a probability is
  the exact value of the code's rounded one.
\<close>

subsection \<open>Nodes\<close>

datatype snode = SNode (sn_count: int) (sn_children: "(int \<times> snode) list")

definition new_node :: "int \<Rightarrow> snode" where
  "new_node c = SNode c []"

definition child_at :: "snode \<Rightarrow> int \<Rightarrow> snode option" where
  "child_at n t = map_of (sn_children n) t"

definition set_child :: "int \<Rightarrow> snode \<Rightarrow> snode \<Rightarrow> snode" where
  "set_child t m n = SNode (sn_count n) (AList.update t m (sn_children n))"

definition count_up :: "snode \<Rightarrow> snode" where
  "count_up n = SNode (sn_count n + 1) (sn_children n)"

text \<open>The loop that inserts: a missing child is made with count one, an existing one counts up.\<close>

fun bump_path :: "int list \<Rightarrow> snode \<Rightarrow> snode" where
  "bump_path [] n = n"
| "bump_path (t # ts) n =
     set_child t (bump_path ts (case child_at n t of None \<Rightarrow> new_node 1 | Some m \<Rightarrow> count_up m)) n"

text \<open>The walk over what is there already, which gives up where a child is missing.\<close>

fun extend_path :: "int list \<Rightarrow> int list \<Rightarrow> snode \<Rightarrow> snode" where
  "extend_path [] new n = bump_path new n"
| "extend_path (t # ts) new n =
     (case child_at n t of None \<Rightarrow> n | Some m \<Rightarrow> set_child t (extend_path ts new m) n)"

subsection \<open>The tree\<close>

record suffix_tree =
  st_max_depth :: int
  st_root :: snode
  st_tokens :: "int list"
  st_n_inserted :: nat

definition new_tree :: "int \<Rightarrow> suffix_tree" where
  "new_tree d = \<lparr>st_max_depth = d, st_root = new_node 0, st_tokens = [], st_n_inserted = 0\<rparr>"

definition tree_clear :: "suffix_tree \<Rightarrow> suffix_tree" where
  "tree_clear st = st\<lparr>st_root := new_node 0, st_tokens := [], st_n_inserted := 0\<rparr>"

definition insert_suffix :: "nat \<Rightarrow> suffix_tree \<Rightarrow> suffix_tree" where
  "insert_suffix i st =
     (let len = min (int (length (st_tokens st)) - int i) (st_max_depth st) in
      if len \<le> 0 then st
      else st\<lparr>st_root := bump_path (take (nat len) (drop i (st_tokens st))) (st_root st)\<rparr>)"

definition extend_suffix :: "nat \<Rightarrow> int \<Rightarrow> int \<Rightarrow> suffix_tree \<Rightarrow> suffix_tree" where
  "extend_suffix i old_len new_len st =
     st\<lparr>st_root := extend_path (take (nat old_len) (drop i (st_tokens st)))
          (take (nat new_len - nat old_len) (drop (i + nat old_len) (st_tokens st))) (st_root st)\<rparr>"

definition extend_step :: "int \<Rightarrow> int \<Rightarrow> nat \<Rightarrow> suffix_tree \<Rightarrow> suffix_tree" where
  "extend_step old_size new_size i st =
     (if i < st_n_inserted st then
        (let old_len = min (old_size - int i) (st_max_depth st); new_len = min (new_size - int i) (st_max_depth st)
         in if new_len > old_len then extend_suffix i old_len new_len st else st)
      else insert_suffix i st)"

definition tree_extend :: "int list \<Rightarrow> suffix_tree \<Rightarrow> suffix_tree" where
  "tree_extend ts st =
     (if ts = [] then st
      else let old_size = int (length (st_tokens st));
               st = st\<lparr>st_tokens := st_tokens st @ ts\<rparr>;
               new_size = int (length (st_tokens st));
               from = nat (max 0 (old_size - st_max_depth st));
               st = fold (extend_step old_size new_size) [from..<nat new_size] st
           in st\<lparr>st_n_inserted := nat new_size\<rparr>)"

subsection \<open>Drafting\<close>

fun node_at :: "int list \<Rightarrow> snode \<Rightarrow> snode option" where
  "node_at [] n = Some n"
| "node_at (t # ts) n = (case child_at n t of None \<Rightarrow> None | Some m \<Rightarrow> node_at ts m)"

text \<open>The child with the highest count, the first of the iteration among equals; \<open>-1\<close> when no count is
  positive.\<close>

definition best_child :: "(int \<times> snode) list \<Rightarrow> int \<times> int" where
  "best_child cs = foldl (\<lambda>(tok, c) (t, m). if sn_count m > c then (t, sn_count m) else (tok, c)) (-1, 0) cs"

text \<open>The loop along the best children: the draft and its score.  \<open>None\<close> is the exception of \<open>at\<close>.\<close>

fun follow :: "((int \<times> snode) list \<Rightarrow> (int \<times> snode) list) \<Rightarrow> rat \<Rightarrow> nat \<Rightarrow> snode \<Rightarrow> rat \<Rightarrow> rat \<Rightarrow> (int list \<times> rat) option" where
  "follow order min_prob 0 cur prob score = Some ([], score)"
| "follow order min_prob (Suc k) cur prob score =
     (if sn_children cur = [] then Some ([], score)
      else case best_child (order (sn_children cur)) of (tok, c) \<Rightarrow>
        let prob = prob * (of_int c / of_int (sn_count cur)) in
        if prob < min_prob then Some ([], score)
        else case child_at cur tok of None \<Rightarrow> None
        | Some m \<Rightarrow> map_option (\<lambda>(ds, s). (tok # ds, s)) (follow order min_prob k m prob (score + prob)))"

text \<open>The loop over the lengths of the match, with the best draft so far and its score.\<close>

function match_loop ::
  "((int \<times> snode) list \<Rightarrow> (int \<times> snode) list) \<Rightarrow> snode \<Rightarrow> int list \<Rightarrow> int \<Rightarrow> rat \<Rightarrow> int \<Rightarrow> int
     \<Rightarrow> int list \<times> rat \<Rightarrow> (int list \<times> rat) option" where
  "match_loop order rt ctx max_spec min_prob min_count m best =
     (if m > int (length ctx) then Some best
      else case node_at (drop (length ctx - nat m) ctx) rt of
        None \<Rightarrow> Some best
      | Some n \<Rightarrow>
          if sn_count n < min_count \<or> sn_children n = [] then match_loop order rt ctx max_spec min_prob min_count (m + 1) best
          else case follow order min_prob (nat (min max_spec (m + 8))) n 1 0 of None \<Rightarrow> None
          | Some (ds, s) \<Rightarrow> match_loop order rt ctx max_spec min_prob min_count (m + 1) (if s > snd best \<and> ds \<noteq> [] then (ds, s) else best))"
  by pat_completeness auto
termination by (relation "measure (\<lambda>(order, rt, ctx, ms, mp, mc, m, best). nat (int (length ctx) + 1 - m))") auto

declare match_loop.simps [simp del]

definition speculate ::
  "((int \<times> snode) list \<Rightarrow> (int \<times> snode) list) \<Rightarrow> suffix_tree \<Rightarrow> int list \<Rightarrow> int \<Rightarrow> rat \<Rightarrow> int \<Rightarrow> int \<Rightarrow> int list option" where
  "speculate order st ctx max_spec min_prob min_count min_len =
     (if ctx = [] \<or> max_spec \<le> 0 then Some []
      else let ctx = (if int (length ctx) > st_max_depth st then drop (length ctx - nat (st_max_depth st)) ctx else ctx)
           in map_option fst (match_loop order (st_root st) ctx max_spec min_prob min_count (max 1 min_len) ([], 0)))"

subsection \<open>How often a path occurs\<close>

definition count_at :: "int list \<Rightarrow> snode \<Rightarrow> int" where
  "count_at w n = (case node_at w n of None \<Rightarrow> 0 | Some m \<Rightarrow> sn_count m)"

lemma child_set [simp]: "child_at (set_child t m n) u = (if u = t then Some m else child_at n u)"
  by (simp add: child_at_def set_child_def update_conv')

lemma child_count_up [simp]: "child_at (count_up n) t = child_at n t" "sn_count (count_up n) = sn_count n + 1"
  by (simp_all add: child_at_def count_up_def)

lemma child_new [simp]: "child_at (new_node c) t = None" "sn_count (new_node c) = c"
  by (simp_all add: child_at_def new_node_def)

lemma sn_children_simps [simp]:
  "sn_children (set_child t m n) = AList.update t m (sn_children n)"
  "sn_children (count_up n) = sn_children n" "sn_children (new_node c) = []"
  by (simp_all add: set_child_def count_up_def new_node_def)

lemma sn_count_set_child [simp]: "sn_count (set_child t m n) = sn_count n"
  by (simp add: set_child_def)

lemma sn_count_bump [simp]: "sn_count (bump_path ts n) = sn_count n"
  by (cases ts) simp_all

lemma sn_count_extend [simp]: "sn_count (extend_path old new n) = sn_count n"
  by (cases old) (simp_all split: option.split)

lemma node_at_new: "node_at w (new_node c) = (if w = [] then Some (new_node c) else None)"
  by (cases w) simp_all

lemma count_at_Cons: "count_at (t # w) n = (case child_at n t of None \<Rightarrow> 0 | Some m \<Rightarrow> count_at w m)"
  by (simp add: count_at_def split: option.split)

lemma count_at_Nil [simp]: "count_at [] n = sn_count n"
  by (simp add: count_at_def)

lemma count_at_new [simp]: "w \<noteq> [] \<Longrightarrow> count_at w (new_node c) = 0"
  by (simp add: count_at_def node_at_new)

lemma count_at_up: "count_at w (count_up m) = count_at w m + (if w = [] then 1 else 0)"
  by (cases w) (simp_all add: count_at_Cons)

lemma count_bump: "w \<noteq> [] \<Longrightarrow> count_at w (bump_path ts n) = count_at w n + (if prefix w ts then 1 else 0)"
proof (induction ts arbitrary: w n)
  case Nil
  then show ?case by simp
next
  case (Cons t ts)
  then obtain u v where w: "w = u # v" by (cases w) auto
  show ?case
  proof (cases "u = t \<and> v \<noteq> []")
    case True
    with Cons.IH[of v] show ?thesis
      by (simp add: w count_at_Cons count_at_up split: option.split)
  next
    case False
    then show ?thesis by (auto simp: w count_at_Cons split: option.split)
  qed
qed

lemma count_extend:
  "w \<noteq> [] \<Longrightarrow> node_at old n \<noteq> None \<Longrightarrow>
     count_at w (extend_path old new n) = count_at w n + (if \<exists>v. v \<noteq> [] \<and> w = old @ v \<and> prefix v new then 1 else 0)"
proof (induction old arbitrary: w n)
  case Nil
  then show ?case by (simp add: count_bump)
next
  case (Cons t old)
  then obtain u v m where w: "w = u # v" and m: "child_at n t = Some m" "node_at old m \<noteq> None"
    by (cases w) (auto split: option.splits)
  show ?case
  proof (cases "u = t \<and> v \<noteq> []")
    case True
    with Cons.IH[OF _ m(2), of v] m show ?thesis by (simp add: w count_at_Cons)
  next
    case False
    then show ?thesis using m by (auto simp: w count_at_Cons)
  qed
qed

subsection \<open>Inserting keeps the counts\<close>

definition window :: "nat \<Rightarrow> int list \<Rightarrow> nat \<Rightarrow> int list" where
  "window d ts j = take d (drop j ts)"

text \<open>Whether a window starts with the path, as a summand.\<close>

definition hit :: "int list \<Rightarrow> int list \<Rightarrow> int" where
  "hit w xs = (if prefix w xs then 1 else 0)"

lemma hit_nonneg: "0 \<le> hit w xs"
  by (simp add: hit_def)

lemma hit_self [simp]: "hit w w = 1"
  by (simp add: hit_def)

definition tree_ok :: "suffix_tree \<Rightarrow> bool" where
  "tree_ok st \<longleftrightarrow> st_n_inserted st = length (st_tokens st)
     \<and> (\<forall>w. w \<noteq> [] \<longrightarrow> count_at w (st_root st)
          = (\<Sum>j<length (st_tokens st). hit w (window (nat (st_max_depth st)) (st_tokens st) j)))"

text \<open>While the loop runs, the positions before \<open>i\<close> count with the new history, the others with the old.\<close>

definition half_way :: "nat \<Rightarrow> int list \<Rightarrow> int list \<Rightarrow> nat \<Rightarrow> snode \<Rightarrow> bool" where
  "half_way d old new i n \<longleftrightarrow> (\<forall>w. w \<noteq> [] \<longrightarrow> count_at w n =
     (\<Sum>j<i. hit w (window d new j)) + (\<Sum>j = i..<length old. hit w (window d old j)))"

lemma prefix_split:
  "hit w (xs @ ys) = hit w xs + (if \<exists>v. v \<noteq> [] \<and> w = xs @ v \<and> prefix v ys then 1 else 0)"
proof (cases "prefix w xs")
  case True
  then have "\<not> (\<exists>v. v \<noteq> [] \<and> w = xs @ v \<and> prefix v ys)" by (auto simp: prefix_def)
  with True show ?thesis by (auto simp: hit_def prefix_append)
next
  case False
  then show ?thesis by (auto simp: hit_def prefix_append)
qed

lemma count_positive_node: "count_at w n \<noteq> 0 \<Longrightarrow> node_at w n \<noteq> None"
  by (cases "node_at w n") (simp_all add: count_at_def)

lemma half_way_start:
  assumes "\<forall>w. w \<noteq> [] \<longrightarrow> count_at w n = (\<Sum>j<length old. hit w (window d old j))"
    and "i = length old - d"
  shows "half_way d old (old @ ts) i n"
proof -
  have same: "window d (old @ ts) j = window d old j" if "j < i" for j
    using that assms(2) by (simp add: window_def)
  have "(\<Sum>j<length old. hit w (window d old j))
      = (\<Sum>j<i. hit w (window d old j)) + (\<Sum>j = i..<length old. hit w (window d old j))" for w
    using sum.atLeastLessThan_concat[of 0 i "length old" "\<lambda>j. hit w (window d old j)"] assms(2)
    by (simp add: lessThan_atLeast0)
  then show ?thesis using assms(1) same by (simp add: half_way_def)
qed

lemma half_way_extend:
  assumes h: "half_way d old (old @ ts) i n" and i: "length old - d \<le> i" "i < length old"
  shows "half_way d old (old @ ts) (Suc i)
    (extend_path (drop i old) (take (d - (length old - i)) ts) n)"
proof -
  have old_i: "window d old i = drop i old" using i by (simp add: window_def)
  have new_i: "window d (old @ ts) i = drop i old @ take (d - (length old - i)) ts" using i by (simp add: window_def)
  have "drop i old \<noteq> []" using i by simp
  with h i have "count_at (drop i old) n = (\<Sum>j<i. hit (drop i old) (window d (old @ ts) j))
      + (1 + (\<Sum>j = Suc i..<length old. hit (drop i old) (window d old j)))"
    by (simp add: half_way_def sum.atLeast_Suc_lessThan old_i hit_self)
  moreover have "0 \<le> (\<Sum>j<i. hit (drop i old) (window d (old @ ts) j))" "0 \<le> (\<Sum>j = Suc i..<length old. hit (drop i old) (window d old j))"
    by (simp_all add: sum_nonneg hit_nonneg)
  ultimately have "count_at (drop i old) n > 0" by linarith
  then have ex: "node_at (drop i old) n \<noteq> None" by (intro count_positive_node) simp
  show ?thesis unfolding half_way_def
  proof (intro allI impI)
    fix w :: "int list" assume w: "w \<noteq> []"
    have "count_at w n = (\<Sum>j<i. hit w (window d (old @ ts) j))
        + (hit w (window d old i) + (\<Sum>j = Suc i..<length old. hit w (window d old j)))"
      using h w i by (simp add: half_way_def sum.atLeast_Suc_lessThan)
    then show "count_at w (extend_path (drop i old) (take (d - (length old - i)) ts) n) =
        (\<Sum>j<Suc i. hit w (window d (old @ ts) j)) + (\<Sum>j = Suc i..<length old. hit w (window d old j))"
      unfolding count_extend[OF w ex] by (simp only: sum.lessThan_Suc new_i old_i prefix_split)
  qed
qed

lemma half_way_same:
  assumes "half_way d old (old @ ts) i n" "i + d = length old" "0 < d"
  shows "half_way d old (old @ ts) (Suc i) n"
proof -
  have "window d (old @ ts) i = window d old i" using assms(2) by (simp add: window_def)
  then show ?thesis using assms by (simp add: half_way_def sum.atLeast_Suc_lessThan)
qed

lemma half_way_insert:
  assumes "half_way d old new i n" "length old \<le> i"
  shows "half_way d old new (Suc i) (bump_path (window d new i) n)"
  using assms by (simp add: half_way_def count_bump hit_def)

lemma extend_step_half_way:
  assumes "0 < st_max_depth st" "st_tokens st = old @ ts" "st_n_inserted st = length old"
    and "half_way (nat (st_max_depth st)) old (old @ ts) i (st_root st)"
    and "length old - nat (st_max_depth st) \<le> i" "i < length (old @ ts)"
  shows "half_way (nat (st_max_depth st)) old (old @ ts) (Suc i)
      (st_root (extend_step (int (length old)) (int (length (old @ ts))) i st))"
    and "st_max_depth (extend_step a b i st) = st_max_depth st" "st_tokens (extend_step a b i st) = st_tokens st"
      "st_n_inserted (extend_step a b i st) = st_n_inserted st"
proof -
  show "st_max_depth (extend_step a b i st) = st_max_depth st" "st_tokens (extend_step a b i st) = st_tokens st"
      "st_n_inserted (extend_step a b i st) = st_n_inserted st"
    by (simp_all add: extend_step_def extend_suffix_def insert_suffix_def Let_def)
  obtain d where d: "st_max_depth st = int d" "0 < d" using assms(1) by (metis zero_less_imp_eq_int)
  have hw: "half_way d old (old @ ts) i (st_root st)" "length old - d \<le> i" using assms(4,5) d by simp_all
  show "half_way (nat (st_max_depth st)) old (old @ ts) (Suc i)
      (st_root (extend_step (int (length old)) (int (length (old @ ts))) i st))"
  proof (cases "i < length old")
    case old: True
    have ol: "min (int (length old) - int i) (int d) = int (length old - i)" using old hw(2) by (simp add: min_def of_nat_diff)
    show ?thesis
    proof (cases "ts \<noteq> [] \<and> length old - i < d")
      case True
      have nl: "min (int (length (old @ ts)) - int i) (int d) = int (min (length old + length ts - i) d)" using old by (simp add: of_nat_diff of_nat_min)
      have "int (length old - i) < int (min (length old + length ts - i) d)" using True old by (cases ts) auto
      then have "extend_step (int (length old)) (int (length (old @ ts))) i st
          = extend_suffix i (int (length old - i)) (int (min (length old + length ts - i) d)) st"
        using old assms(3) unfolding extend_step_def d(1) ol nl Let_def by simp
      moreover have "take (length old - i) (drop i (old @ ts)) = drop i old" using old by simp
      moreover have "take (min (length old + length ts - i) d - (length old - i)) (drop (i + (length old - i)) (old @ ts)) = take (d - (length old - i)) ts"
        using old True by (simp add: min_def)
      ultimately have "st_root (extend_step (int (length old)) (int (length (old @ ts))) i st)
          = extend_path (drop i old) (take (d - (length old - i)) ts) (st_root st)"
        by (simp add: extend_suffix_def assms(2))
      then show ?thesis using half_way_extend[OF hw old] d by simp
    next
      case False
      then have "i + d = length old \<or> ts = []" using hw(2) old by auto
      then have "extend_step (int (length old)) (int (length (old @ ts))) i st = st"
        using old assms(3) hw(2) unfolding extend_step_def d(1) ol Let_def by auto
      moreover have "half_way d old (old @ ts) (Suc i) (st_root st)"
        using \<open>i + d = length old \<or> ts = []\<close>
      proof
        assume "i + d = length old"
        then show ?thesis by (rule half_way_same[OF hw(1) _ d(2)])
      next
        assume "ts = []"
        then show ?thesis using hw(1) old by (simp add: half_way_def sum.atLeast_Suc_lessThan)
      qed
      ultimately show ?thesis using d by simp
    qed
  next
    case False
    have len: "min (int (length (old @ ts)) - int i) (int d) = int (min (length (old @ ts) - i) d)" using assms(6) by (simp add: of_nat_diff of_nat_min)
    have "0 < min (length (old @ ts) - i) d" using assms(6) d by simp
    then obtain m where "min (length (old @ ts) - i) d = Suc m" by (metis gr0_implies_Suc)
    moreover have "take (min (length (old @ ts) - i) d) (drop i (old @ ts)) = window d (old @ ts) i"
      by (simp add: window_def min_def del: length_append drop_append)
    ultimately have "st_root (extend_step (int (length old)) (int (length (old @ ts))) i st) = bump_path (window d (old @ ts) i) (st_root st)"
      using False assms(2,3) unfolding extend_step_def insert_suffix_def d(1) assms(2) len Let_def
      by (simp del: length_append drop_append of_nat_Suc)
    then show ?thesis using half_way_insert[OF hw(1)] False d by simp
  qed
qed

text \<open>The whole loop, and with it the operations on the tree.\<close>

lemma extend_loop_half_way:
  assumes "0 < st_max_depth st" "st_tokens st = old @ ts" "st_n_inserted st = length old"
    and "half_way (nat (st_max_depth st)) old (old @ ts) i (st_root st)" "length old - nat (st_max_depth st) \<le> i"
    and "i \<le> k" "k \<le> length (old @ ts)"
  shows "half_way (nat (st_max_depth st)) old (old @ ts) k
           (st_root (fold (extend_step (int (length old)) (int (length (old @ ts)))) [i..<k] st))
    \<and> st_max_depth (fold (extend_step (int (length old)) (int (length (old @ ts)))) [i..<k] st) = st_max_depth st
    \<and> st_tokens (fold (extend_step (int (length old)) (int (length (old @ ts)))) [i..<k] st) = old @ ts
    \<and> st_n_inserted (fold (extend_step (int (length old)) (int (length (old @ ts)))) [i..<k] st) = length old"
  using assms(6,7)
proof (induction k rule: dec_induct)
  case base
  then show ?case using assms by simp
next
  case (step k)
  let ?m = "fold (extend_step (int (length old)) (int (length (old @ ts)))) [i..<k] st"
  have m: "half_way (nat (st_max_depth ?m)) old (old @ ts) k (st_root ?m)" "st_max_depth ?m = st_max_depth st"
      "st_tokens ?m = old @ ts" "st_n_inserted ?m = length old"
    using step.IH step.prems by simp_all
  have k: "length old - nat (st_max_depth ?m) \<le> k" "k < length (old @ ts)" "0 < st_max_depth ?m"
    using assms(1,5) step m(2) by auto
  show ?case
    using extend_step_half_way[OF k(3) m(3,4,1) k(1,2)] m step.hyps(1) by (simp del: length_append)
qed

lemma tree_ok_new: "tree_ok (new_tree d)"
  by (simp add: tree_ok_def new_tree_def)

lemma tree_ok_clear: "tree_ok (tree_clear st)"
  by (simp add: tree_ok_def tree_clear_def)

lemma tree_ok_extend:
  assumes ok: "tree_ok st" and d: "0 < st_max_depth st"
  shows "tree_ok (tree_extend ts st) \<and> st_tokens (tree_extend ts st) = st_tokens st @ ts
    \<and> st_max_depth (tree_extend ts st) = st_max_depth st"
proof (cases "ts = []")
  case True
  then show ?thesis using ok by (simp add: tree_extend_def)
next
  case False
  define old where "old = st_tokens st"
  define i where "i = length old - nat (st_max_depth st)"
  define st' where "st' = st\<lparr>st_tokens := old @ ts\<rparr>"
  define fin where "fin = fold (extend_step (int (length old)) (int (length (old @ ts)))) [i..<length (old @ ts)] st'"
  have i: "nat (max 0 (int (length old) - st_max_depth st)) = i" using d by (simp add: i_def nat_diff_distrib max_def)
  have e: "tree_extend ts st = fin\<lparr>st_n_inserted := length (old @ ts)\<rparr>"
    using False i by (simp add: tree_extend_def fin_def st'_def old_def Let_def)
  have hw: "half_way (nat (st_max_depth st')) old (old @ ts) i (st_root st')"
    unfolding st'_def using half_way_start[where n = "st_root st" and old = old and d = "nat (st_max_depth st)" and i = i and ts = ts] ok
    by (simp add: tree_ok_def old_def i_def)
  have "half_way (nat (st_max_depth st')) old (old @ ts) (length (old @ ts)) (st_root fin)
      \<and> st_max_depth fin = st_max_depth st' \<and> st_tokens fin = old @ ts \<and> st_n_inserted fin = length old"
    unfolding fin_def
    by (rule extend_loop_half_way[OF _ _ _ hw])
      (use d ok in \<open>simp_all add: st'_def i_def tree_ok_def old_def\<close>)
  then show ?thesis unfolding e
    by (simp add: tree_ok_def half_way_def st'_def old_def)
qed

lemma tree_ok_chunks:
  assumes "0 < st_max_depth st" "tree_ok st"
  shows "tree_ok (fold tree_extend tss st) \<and> st_tokens (fold tree_extend tss st) = st_tokens st @ concat tss
    \<and> st_max_depth (fold tree_extend tss st) = st_max_depth st"
  using assms
proof (induction tss arbitrary: st)
  case (Cons ts tss)
  then show ?case using tree_ok_extend[of st ts] by simp
qed simp

subsection \<open>What the counts mean\<close>

text \<open>The number of places of the history at which a sequence of tokens stands.\<close>

definition occurrences :: "int list \<Rightarrow> int list \<Rightarrow> nat" where
  "occurrences w ts = card {j. j < length ts \<and> take (length w) (drop j ts) = w}"

lemma hit_window:
  "hit w (window d ts j) = (if length w \<le> d \<and> take (length w) (drop j ts) = w then 1 else 0)"
proof -
  have "prefix w (take d (drop j ts)) \<longleftrightarrow> length w \<le> d \<and> take (length w) (drop j ts) = w"
  proof
    assume p: "prefix w (take d (drop j ts))"
    then have "length w \<le> d" using prefix_length_le by fastforce
    moreover have "prefix w (drop j ts)" using p take_is_prefix prefix_order.trans by blast
    ultimately show "length w \<le> d \<and> take (length w) (drop j ts) = w" by (metis append_eq_conv_conj prefix_def)
  next
    assume w: "length w \<le> d \<and> take (length w) (drop j ts) = w"
    then have "take (length w) (take d (drop j ts)) = w" by (simp add: min_def)
    then show "prefix w (take d (drop j ts))" by (metis take_is_prefix)
  qed
  then show ?thesis by (simp add: hit_def window_def)
qed

lemma tree_count:
  assumes "tree_ok st" "w \<noteq> []"
  shows "count_at w (st_root st) = (if int (length w) \<le> st_max_depth st then int (occurrences w (st_tokens st)) else 0)"
proof (cases "length w \<le> nat (st_max_depth st)")
  case True
  then have "int (length w) \<le> st_max_depth st" using assms(2) by (cases w) auto
  moreover have "(\<Sum>j<length (st_tokens st). hit w (window (nat (st_max_depth st)) (st_tokens st) j))
      = (\<Sum>j<length (st_tokens st). (if take (length w) (drop j (st_tokens st)) = w then 1 else 0))"
    using True by (simp only: hit_window) simp
  moreover have "\<dots> = int (card {j. j < length (st_tokens st) \<and> take (length w) (drop j (st_tokens st)) = w})"
    by (simp add: sum.If_cases lessThan_def Int_def)
  ultimately show ?thesis using assms by (simp only: tree_ok_def occurrences_def) simp
next
  case False
  then have "\<not> int (length w) \<le> st_max_depth st" by linarith
  with False show ?thesis using assms by (simp add: tree_ok_def hit_window)
qed

end
