(* ===== verification/SuffixDraft.thy ===== *)
theory SuffixDraft
  imports SuffixTree
begin

section \<open>The drafts of the suffix tree\<close>

text \<open>
  Children are distinct and counted at least once, so the drafter finds each child its iteration picks,
  and every step goes to a child with the highest count.
\<close>

definition good :: "snode \<Rightarrow> bool" where
  "good n \<longleftrightarrow> (\<forall>w m. node_at w n = Some m \<longrightarrow> distinct (map fst (sn_children m)) \<and> (w \<noteq> [] \<longrightarrow> 0 < sn_count m))"

lemma good_iff:
  "good n \<longleftrightarrow> distinct (map fst (sn_children n)) \<and> (\<forall>t m. child_at n t = Some m \<longrightarrow> good m \<and> 0 < sn_count m)"
proof
  assume g: "good n"
  have "good m \<and> 0 < sn_count m" if c: "child_at n t = Some m" for t m
  proof
    show "good m" unfolding good_def
    proof (intro allI impI)
      fix w k assume "node_at w m = Some k"
      then have "node_at (t # w) n = Some k" using c by simp
      then show "distinct (map fst (sn_children k)) \<and> (w \<noteq> [] \<longrightarrow> 0 < sn_count k)" using g unfolding good_def by blast
    qed
    have "node_at [t] n = Some m" using c by simp
    then show "0 < sn_count m" using g unfolding good_def by blast
  qed
  moreover have "node_at [] n = Some n" by simp
  ultimately show "distinct (map fst (sn_children n)) \<and> (\<forall>t m. child_at n t = Some m \<longrightarrow> good m \<and> 0 < sn_count m)"
    using g unfolding good_def by blast
next
  assume h: "distinct (map fst (sn_children n)) \<and> (\<forall>t m. child_at n t = Some m \<longrightarrow> good m \<and> 0 < sn_count m)"
  show "good n" unfolding good_def
  proof (intro allI impI)
    fix w m assume "node_at w n = Some m"
    then show "distinct (map fst (sn_children m)) \<and> (w \<noteq> [] \<longrightarrow> 0 < sn_count m)"
    proof (cases w)
      case (Cons t v)
      then obtain k where k: "child_at n t = Some k" "node_at v k = Some m"
        using \<open>node_at w n = Some m\<close> by (auto split: option.splits)
      then have "good k" "0 < sn_count k" using h by auto
      then show ?thesis using k(2) \<open>good k\<close>[unfolded good_def, rule_format, of v m] by (cases "v = []") simp_all
    qed (use h in simp)
  qed
qed

lemma good_new [simp]: "good (new_node c)"
  by (subst good_iff) simp

lemma good_set_child: "good n \<Longrightarrow> good m \<Longrightarrow> 0 < sn_count m \<Longrightarrow> good (set_child t m n)"
  by (subst good_iff) (auto simp: good_iff[of n] distinct_update)

lemma good_count_up [simp]: "good (count_up n) \<longleftrightarrow> good n"
  by (subst good_iff, subst (2) good_iff) simp

lemma good_bump: "good n \<Longrightarrow> good (bump_path ts n)"
proof (induction ts arbitrary: n)
  case (Cons t ts)
  show ?case
  proof (cases "child_at n t")
    case None
    then show ?thesis using Cons by (simp add: good_set_child)
  next
    case (Some m)
    then have "good m" "0 < sn_count m" using Cons.prems good_iff[of n] by auto
    with Some show ?thesis using Cons by (simp add: good_set_child)
  qed
qed simp

lemma good_extend: "good n \<Longrightarrow> good (extend_path old new n)"
proof (induction old arbitrary: n)
  case (Cons t old)
  show ?case
  proof (cases "child_at n t")
    case None
    then show ?thesis using Cons.prems by simp
  next
    case (Some m)
    then have "good m" "0 < sn_count m" using Cons.prems good_iff[of n] by auto
    with Some show ?thesis using Cons by (simp add: good_set_child)
  qed
qed (simp add: good_bump)

lemma good_step: "good (st_root st) \<Longrightarrow> good (st_root (extend_step a b i st))"
  by (simp add: extend_step_def extend_suffix_def insert_suffix_def Let_def good_bump good_extend)

lemma good_tree_extend: "good (st_root st) \<Longrightarrow> good (st_root (tree_extend ts st))"
proof -
  have "good (st_root st) \<Longrightarrow> good (st_root (fold (extend_step a b) is st))" for a b "is" and st :: suffix_tree
    by (induction "is" arbitrary: st) (simp_all add: good_step)
  then show "good (st_root st) \<Longrightarrow> good (st_root (tree_extend ts st))" by (simp add: tree_extend_def Let_def)
qed

lemma good_chunks: "good (st_root st) \<Longrightarrow> good (st_root (fold tree_extend tss st))"
  by (induction tss arbitrary: st) (simp_all add: good_tree_extend)

subsection \<open>The best child\<close>

definition children_order :: "((int \<times> snode) list \<Rightarrow> (int \<times> snode) list) \<Rightarrow> bool" where
  "children_order order \<longleftrightarrow> (\<forall>cs. set (order cs) = set cs)"

lemma best_fold:
  assumes "foldl (\<lambda>(tok, c) (t, m). if sn_count m > c then (t, sn_count m) else (tok, c)) (tok, c) cs = (tok', c')"
  shows "c \<le> c' \<and> (\<forall>(t, m) \<in> set cs. sn_count m \<le> c')
    \<and> (tok' = tok \<and> c' = c \<or> c < c' \<and> (\<exists>m. (tok', m) \<in> set cs \<and> sn_count m = c'))"
  using assms
proof (induction cs arbitrary: tok c)
  case (Cons p cs)
  obtain t m where p: "p = (t, m)" by (cases p)
  show ?case using Cons.IH[of t "sn_count m"] Cons.IH[of tok c] Cons.prems
    by (cases "sn_count m > c") (force simp: p)+
qed simp

lemma best_child_best:
  assumes g: "good n" and o: "children_order order" and ne: "sn_children n \<noteq> []"
  obtains t m where "best_child (order (sn_children n)) = (t, sn_count m)" "child_at n t = Some m"
    "0 < sn_count m" "\<And>u. count_at [u] n \<le> sn_count m"
proof -
  obtain t c where b: "best_child (order (sn_children n)) = (t, c)" by (cases "best_child (order (sn_children n))")
  have s: "set (order (sn_children n)) = set (sn_children n)" using o by (simp add: children_order_def)
  have d: "distinct (map fst (sn_children n))" and pos: "\<And>u k. child_at n u = Some k \<Longrightarrow> 0 < sn_count k"
    using g good_iff[of n] by auto
  have at: "child_at n u = Some k \<longleftrightarrow> (u, k) \<in> set (sn_children n)" for u k
    using d by (simp add: child_at_def)
  have f: "(\<forall>(u, k) \<in> set (sn_children n). sn_count k \<le> c)"
    "t = -1 \<and> c = 0 \<or> 0 < c \<and> (\<exists>m. (t, m) \<in> set (sn_children n) \<and> sn_count m = c)"
    using best_fold[OF b[unfolded best_child_def]] s by simp_all
  obtain u k where "(u, k) \<in> set (sn_children n)" using ne by (cases "sn_children n") auto
  then have "0 < c" using f(1) pos[of u k] at by force
  then obtain m where m: "(t, m) \<in> set (sn_children n)" "sn_count m = c" using f(2) by auto
  have "count_at [u] n \<le> c" for u
    using f(1) at[of u] \<open>0 < c\<close> by (fastforce simp: count_at_Cons split: option.split)
  then show ?thesis using that[of t m] b m at \<open>0 < c\<close> by simp
qed

subsection \<open>The walk\<close>

lemma node_at_append: "node_at (v @ w) n = (case node_at v n of None \<Rightarrow> None | Some m \<Rightarrow> node_at w m)"
  by (induction v arbitrary: n) (simp_all split: option.split)

lemma count_at_append: "node_at v n = Some m \<Longrightarrow> count_at (v @ w) n = count_at w m"
  by (simp add: count_at_def node_at_append)

lemma good_at: "good n \<Longrightarrow> node_at w n = Some m \<Longrightarrow> good m"
  unfolding good_def
proof (intro allI impI)
  fix v k
  assume g: "\<forall>w m. node_at w n = Some m \<longrightarrow> distinct (map fst (sn_children m)) \<and> (w \<noteq> [] \<longrightarrow> 0 < sn_count m)"
    and "node_at w n = Some m" "node_at v m = Some k"
  then have "node_at (w @ v) n = Some k" by (simp add: node_at_append)
  with g[rule_format, OF this] show "distinct (map fst (sn_children k)) \<and> (v \<noteq> [] \<longrightarrow> 0 < sn_count k)" by simp
qed

text \<open>A draft goes along the best children, and its share of the occurrences of the node stays above the bound.\<close>

definition walks :: "rat \<Rightarrow> int list \<Rightarrow> snode \<Rightarrow> bool" where
  "walks bound ds n \<longleftrightarrow> (\<forall>j<length ds. 0 < count_at (take (Suc j) ds) n
     \<and> (\<forall>t. count_at (take j ds @ [t]) n \<le> count_at (take (Suc j) ds) n)
     \<and> bound \<le> of_int (count_at (take (Suc j) ds) n) / of_int (sn_count n))"

lemma follow_walks:
  assumes "good n" "children_order order" "0 < sn_count n" "0 < prob"
  shows "\<exists>ds s. follow order mp k n prob score = Some (ds, s) \<and> length ds \<le> k \<and> walks (mp / prob) ds n"
  using assms
proof (induction k arbitrary: n prob score)
  case 0
  then show ?case by (simp add: walks_def)
next
  case (Suc k)
  show ?case
  proof (cases "sn_children n = []")
    case True
    then show ?thesis by (simp add: walks_def)
  next
    case False
    obtain t m where b: "best_child (order (sn_children n)) = (t, sn_count m)" "child_at n t = Some m"
      "0 < sn_count m" "\<And>u. count_at [u] n \<le> sn_count m"
      using best_child_best[OF Suc.prems(1,2) False] by metis
    define p where "p = prob * (of_int (sn_count m) / of_int (sn_count n))"
    have p: "0 < p" using Suc.prems(3,4) b(3) by (simp add: p_def)
    show ?thesis
    proof (cases "p < mp")
      case True
      then show ?thesis using False b by (simp add: walks_def p_def Let_def)
    next
      case le: False
      have "good m" using Suc.prems(1) b(2) good_iff[of n] by auto
      then obtain ds s where f: "follow order mp k m p (score + p) = Some (ds, s)" "length ds \<le> k" "walks (mp / p) ds m"
        using Suc.IH[OF _ Suc.prems(2) b(3) p] by blast
      have "walks (mp / prob) (t # ds) n" unfolding walks_def
      proof (intro allI impI)
        fix j assume j: "j < length (t # ds)"
        show "0 < count_at (take (Suc j) (t # ds)) n
          \<and> (\<forall>u. count_at (take j (t # ds) @ [u]) n \<le> count_at (take (Suc j) (t # ds)) n)
          \<and> mp / prob \<le> of_int (count_at (take (Suc j) (t # ds)) n) / of_int (sn_count n)"
        proof (cases j)
          case 0
          then show ?thesis using b le Suc.prems(3,4) by (simp add: count_at_Cons p_def field_simps)
        next
          case (Suc i)
          then have "i < length ds" using j by simp
          then have w: "0 < count_at (take (Suc i) ds) m" "\<And>u. count_at (take i ds @ [u]) m \<le> count_at (take (Suc i) ds) m"
            "mp / p \<le> of_int (count_at (take (Suc i) ds) m) / of_int (sn_count m)"
            using f(3) by (simp_all add: walks_def)
          have "mp / prob \<le> of_int (count_at (take (Suc i) ds) m) / of_int (sn_count n)"
          proof -
            let ?x = "of_int (count_at (take (Suc i) ds) m) :: rat"
            have "mp \<le> p * (?x / of_int (sn_count m))"
              using w(3) p by (simp only: pos_divide_le_eq mult.commute)
            also have "\<dots> = prob * (?x / of_int (sn_count n))" using b(3) by (simp add: p_def)
            finally show ?thesis using Suc.prems(4) by (simp only: pos_divide_le_eq mult.commute)
          qed
          then show ?thesis using w b(2) by (simp add: Suc count_at_Cons)
        qed
      qed
      then show ?thesis using False b f le by (simp add: p_def Let_def)
    qed
  qed
qed

subsection \<open>The search over the lengths\<close>

text \<open>What the search promises of a draft: it goes on from a match at the end of the context.\<close>

definition from_match ::
  "snode \<Rightarrow> int list \<Rightarrow> int \<Rightarrow> rat \<Rightarrow> int \<Rightarrow> int \<Rightarrow> int list \<Rightarrow> bool" where
  "from_match rt ctx max_spec min_prob min_count min_len ds \<longleftrightarrow> (\<exists>w n. suffix w ctx \<and> w \<noteq> [] \<and> min_len \<le> int (length w)
     \<and> node_at w rt = Some n \<and> min_count \<le> sn_count n
     \<and> int (length ds) \<le> min max_spec (int (length w) + 8) \<and> walks min_prob ds n)"

lemma match_loop_sound:
  assumes "good rt" "children_order order" "1 \<le> m" "min_len \<le> m" "0 < max_spec"
    and "fst best \<noteq> [] \<longrightarrow> from_match rt ctx max_spec min_prob min_count min_len (fst best)"
  shows "\<exists>ds s. match_loop order rt ctx max_spec min_prob min_count m best = Some (ds, s)
    \<and> (ds \<noteq> [] \<longrightarrow> from_match rt ctx max_spec min_prob min_count min_len ds)"
  using assms
proof (induction order rt ctx max_spec min_prob min_count m best rule: match_loop.induct)
  case (1 order rt ctx max_spec min_prob min_count m best)
  note prems = "1.prems"
  let ?w = "drop (length ctx - nat m) ctx"
  show ?case
  proof (cases "m > int (length ctx) \<or> node_at ?w rt = None")
    case True
    then show ?thesis using prems(6) by (subst match_loop.simps) (cases best, auto)
  next
    case False
    then obtain n where n: "node_at ?w rt = Some n" and m: "\<not> m > int (length ctx)" by auto
    have len: "length ?w = nat m" using m prems(3) by simp
    show ?thesis
    proof (cases "sn_count n < min_count \<or> sn_children n = []")
      case True
      then show ?thesis using "1.IH"(1)[OF m n True prems(1,2) _ _ prems(5,6)] prems(3,4) m n
        by (subst match_loop.simps) simp
    next
      case follow: False
      have "?w \<noteq> []" using len prems(3) by auto
      then have g: "good n" "0 < sn_count n"
        using good_at[OF prems(1) n] prems(1)[unfolded good_def, rule_format, OF n] by auto
      obtain ds s where f: "follow order min_prob (nat (min max_spec (m + 8))) n 1 0 = Some (ds, s)"
        "length ds \<le> nat (min max_spec (m + 8))" "walks min_prob ds n"
        using follow_walks[OF g(1) prems(2) g(2), of 1 min_prob "nat (min max_spec (m + 8))" 0] by auto
      have "from_match rt ctx max_spec min_prob min_count min_len ds"
        unfolding from_match_def
        by (rule exI[of _ ?w], rule exI[of _ n])
          (use \<open>?w \<noteq> []\<close> len n f follow prems(3,4,5) m in \<open>auto simp: suffix_drop\<close>)
      then have best: "fst (if s > snd best \<and> ds \<noteq> [] then (ds, s) else best) \<noteq> [] \<longrightarrow>
          from_match rt ctx max_spec min_prob min_count min_len (fst (if s > snd best \<and> ds \<noteq> [] then (ds, s) else best))"
        using prems(6) by simp
      show ?thesis using "1.IH"(2)[OF m n follow f(1) refl prems(1,2) _ _ prems(5) best] prems(3,4) m n follow f(1)
        by (subst match_loop.simps) simp
    qed
  qed
qed

lemma speculate_from_match:
  assumes "good (st_root st)" "children_order order"
  shows "\<exists>ds. speculate order st ctx max_spec min_prob min_count min_len = Some ds
    \<and> (ds \<noteq> [] \<longrightarrow> from_match (st_root st) ctx max_spec min_prob min_count min_len ds)"
proof (cases "ctx = [] \<or> max_spec \<le> 0")
  case True
  then show ?thesis by (simp add: speculate_def)
next
  case False
  define c where "c = (if int (length ctx) > st_max_depth st then drop (length ctx - nat (st_max_depth st)) ctx else ctx)"
  have c: "suffix c ctx" by (simp add: c_def suffix_drop)
  obtain ds s where m: "match_loop order (st_root st) c max_spec min_prob min_count (max 1 min_len) ([], 0) = Some (ds, s)"
    "ds \<noteq> [] \<longrightarrow> from_match (st_root st) c max_spec min_prob min_count min_len ds"
    using match_loop_sound[OF assms, of "max 1 min_len" min_len max_spec "([], 0)" c min_prob min_count] False by auto
  have "from_match (st_root st) c max_spec min_prob min_count min_len ds \<Longrightarrow> from_match (st_root st) ctx max_spec min_prob min_count min_len ds"
    using c unfolding from_match_def by (meson suffix_order.trans)
  then show ?thesis using False m by (simp add: speculate_def c_def Let_def)
qed

subsection \<open>When a draft is found\<close>

lemma follow_score:
  assumes "good n" "children_order order" "0 < sn_count n" "0 < prob" "follow order mp k n prob score = Some (ds, s)"
  shows "score \<le> s \<and> (ds \<noteq> [] \<longrightarrow> score < s)"
  using assms
proof (induction k arbitrary: n prob score ds s)
  case (Suc k)
  show ?case
  proof (cases "sn_children n = []")
    case False
    obtain t m where b: "best_child (order (sn_children n)) = (t, sn_count m)" "child_at n t = Some m" "0 < sn_count m"
      using best_child_best[OF Suc.prems(1,2) False] by metis
    define p where "p = prob * (of_int (sn_count m) / of_int (sn_count n))"
    have p: "0 < p" "good m" using Suc.prems(1,3,4) b(2,3) good_iff[of n] by (auto simp: p_def)
    show ?thesis
    proof (cases "p < mp")
      case False
      then obtain es where "follow order mp k m p (score + p) = Some (es, s)" "ds = t # es"
        using Suc.prems(5) b \<open>sn_children n \<noteq> []\<close> by (auto simp: p_def Let_def)
      then show ?thesis using Suc.IH[OF p(2) Suc.prems(2) b(3) p(1), of "score + p" es s] p(1) by auto
    qed (use Suc.prems(5) b \<open>sn_children n \<noteq> []\<close> in \<open>simp add: p_def Let_def\<close>)
  qed (use Suc.prems(5) in simp)
qed simp

lemma follow_starts:
  assumes "good n" "children_order order" "0 < sn_count n" "0 < k" "child_at n t = Some m"
    and "mp \<le> of_int (sn_count m) / of_int (sn_count n)" "follow order mp k n 1 score = Some (ds, s)"
  shows "ds \<noteq> []"
proof -
  obtain k' where k: "k = Suc k'" using assms(4) by (cases k) auto
  have ne: "sn_children n \<noteq> []" using assms(5) by (auto simp: child_at_def)
  obtain u c where b: "best_child (order (sn_children n)) = (u, sn_count c)" "child_at n u = Some c"
    "\<And>v. count_at [v] n \<le> sn_count c"
    using best_child_best[OF assms(1,2) ne] by metis
  have "sn_count m \<le> sn_count c" using b(3)[of t] assms(5) by (simp add: count_at_Cons)
  then have "(of_int (sn_count m) / of_int (sn_count n) :: rat) \<le> of_int (sn_count c) / of_int (sn_count n)"
    using assms(3) by (simp add: divide_right_mono)
  then have "\<not> of_int (sn_count c) / of_int (sn_count n) < mp" using assms(6) by simp
  then show ?thesis using assms(7) ne b by (auto simp: k Let_def)
qed

text \<open>A draft once found is only replaced by another one.\<close>

definition best_ok :: "int list \<times> rat \<Rightarrow> bool" where
  "best_ok best \<longleftrightarrow> (fst best = [] \<longleftrightarrow> snd best = 0) \<and> 0 \<le> snd best"

lemma match_loop_keeps:
  assumes "good rt" "children_order order" "1 \<le> m" "best_ok best" "fst best \<noteq> []"
    and "match_loop order rt ctx max_spec min_prob min_count m best = Some r"
  shows "fst r \<noteq> []"
  using assms
proof (induction order rt ctx max_spec min_prob min_count m best rule: match_loop.induct)
  case (1 order rt ctx max_spec min_prob min_count m best)
  note prems = "1.prems"
  let ?w = "drop (length ctx - nat m) ctx"
  show ?case
  proof (cases "m > int (length ctx) \<or> node_at ?w rt = None")
    case True
    then show ?thesis using prems(5,6) by (subst (asm) match_loop.simps) (auto split: if_splits)
  next
    case False
    then obtain n where n: "node_at ?w rt = Some n" and m: "\<not> m > int (length ctx)" by auto
    show ?thesis
    proof (cases "sn_count n < min_count \<or> sn_children n = []")
      case True
      have "match_loop order rt ctx max_spec min_prob min_count (m + 1) best = Some r"
        using prems(6) True m n by (subst (asm) match_loop.simps) simp
      then show ?thesis using "1.IH"(1)[OF m n True prems(1,2) _ prems(4,5)] prems(3) by simp
    next
      case follow: False
      obtain ds s where f: "follow order min_prob (nat (min max_spec (m + 8))) n 1 0 = Some (ds, s)"
        using prems(6) m n follow by (subst (asm) match_loop.simps) (auto split: option.splits)
      let ?b = "if s > snd best \<and> ds \<noteq> [] then (ds, s) else best"
      have b: "best_ok ?b" "fst ?b \<noteq> []" using prems(4,5) by (auto simp: best_ok_def)
      have "match_loop order rt ctx max_spec min_prob min_count (m + 1) ?b = Some r"
        using prems(6) m n follow f by (subst (asm) match_loop.simps) simp
      then show ?thesis using "1.IH"(2)[OF m n follow f refl prems(1,2) _ b] prems(3) by simp
    qed
  qed
qed

lemma match_loop_finds:
  assumes "good rt" "children_order order" "1 \<le> m" "best_ok best" "0 < max_spec"
    and "match_loop order rt ctx max_spec min_prob min_count m best = Some r"
    and "m \<le> k" "k \<le> int (length ctx)"
    and "\<And>i. m \<le> i \<Longrightarrow> i \<le> k \<Longrightarrow> node_at (drop (length ctx - nat i) ctx) rt \<noteq> None"
    and "node_at (drop (length ctx - nat k) ctx) rt = Some n" "min_count \<le> sn_count n" "child_at n t = Some c"
    and "min_prob \<le> of_int (sn_count c) / of_int (sn_count n)"
  shows "fst r \<noteq> []"
  using assms
proof (induction order rt ctx max_spec min_prob min_count m best rule: match_loop.induct)
  case (1 order rt ctx max_spec min_prob min_count m best)
  note prems = "1.prems"
  let ?w = "drop (length ctx - nat m) ctx"
  have m: "\<not> m > int (length ctx)" using prems(7,8) by simp
  obtain n' where n': "node_at ?w rt = Some n'" using prems(9)[of m] prems(7) by auto
  have "?w \<noteq> []" using m prems(3) by simp
  then have g: "good n'" "0 < sn_count n'"
    using good_at[OF prems(1) n'] prems(1)[unfolded good_def, rule_format, OF n'] by auto
  show ?case
  proof (cases "sn_count n' < min_count \<or> sn_children n' = []")
    case True
    have "m \<noteq> k" using True prems(10-12) n' by (auto simp: child_at_def)
    then have "m + 1 \<le> k" using prems(7) by simp
    moreover have "match_loop order rt ctx max_spec min_prob min_count (m + 1) best = Some r"
      using prems(6) True m n' by (subst (asm) match_loop.simps) simp
    ultimately show ?thesis using "1.IH"(1)[OF m n' True prems(1,2) _ prems(4,5)] prems(3,8-13) by simp
  next
    case follow: False
    obtain ds s where f: "follow order min_prob (nat (min max_spec (m + 8))) n' 1 0 = Some (ds, s)"
      using prems(6) m n' follow by (subst (asm) match_loop.simps) (auto split: option.splits)
    have sc: "0 \<le> s" "ds \<noteq> [] \<longrightarrow> 0 < s" using follow_score[OF g(1) prems(2) g(2) _ f] by auto
    let ?b = "if s > snd best \<and> ds \<noteq> [] then (ds, s) else best"
    have b: "best_ok ?b" using prems(4) sc by (auto simp: best_ok_def)
    have rest: "match_loop order rt ctx max_spec min_prob min_count (m + 1) ?b = Some r"
      using prems(6) m n' follow f by (subst (asm) match_loop.simps) simp
    show ?thesis
    proof (cases "m = k")
      case True
      then have "n' = n" using n' prems(10) by simp
      have "ds \<noteq> []"
        by (rule follow_starts[OF g(1) prems(2) g(2) _ prems(12)[folded \<open>n' = n\<close>] prems(13)[folded \<open>n' = n\<close>] f])
          (use prems(3,5) in simp)
      then have "fst ?b \<noteq> []" using prems(4) sc by (auto simp: best_ok_def)
      then show ?thesis using match_loop_keeps[OF prems(1,2) _ b _ rest] prems(3) by simp
    next
      case False
      then show ?thesis using "1.IH"(2)[OF m n' follow f refl prems(1,2) _ b prems(5) rest] prems(3,7-13) by simp
    qed
  qed
qed

subsection \<open>Drafts in terms of the history\<close>

lemma occurrences_pos: "w \<noteq> [] \<Longrightarrow> 0 < occurrences w h \<longleftrightarrow> sublist w h"
proof -
  assume w: "w \<noteq> []"
  have "0 < occurrences w h \<longleftrightarrow> (\<exists>j. j < length h \<and> take (length w) (drop j h) = w)"
    by (auto simp: occurrences_def card_gt_0_iff)
  also have "\<dots> \<longleftrightarrow> sublist w h"
  proof
    assume "\<exists>j. j < length h \<and> take (length w) (drop j h) = w"
    then obtain j where "take (length w) (drop j h) = w" by blast
    then have "h = take j h @ w @ drop (length w) (drop j h)" by (metis append_take_drop_id)
    then show "sublist w h" by (metis sublist_appendI)
  next
    assume "sublist w h"
    then obtain a b where "h = a @ w @ b" by (auto simp: sublist_def)
    then show "\<exists>j. j < length h \<and> take (length w) (drop j h) = w" using w by (intro exI[of _ "length a"]) simp
  qed
  finally show ?thesis .
qed

definition likely_path :: "rat \<Rightarrow> int list \<Rightarrow> int list \<Rightarrow> int list \<Rightarrow> bool" where
  "likely_path p h w ds \<longleftrightarrow> (\<forall>j<length ds. sublist (w @ take (Suc j) ds) h
     \<and> (\<forall>t. occurrences (w @ take j ds @ [t]) h \<le> occurrences (w @ take (Suc j) ds) h)
     \<and> p * of_nat (occurrences w h) \<le> of_nat (occurrences (w @ take (Suc j) ds) h))"

definition draftable :: "int list \<Rightarrow> int \<Rightarrow> int list \<Rightarrow> rat \<Rightarrow> int \<Rightarrow> int \<Rightarrow> bool" where
  "draftable h d ctx min_prob min_count min_len \<longleftrightarrow> (\<exists>w t. suffix w ctx \<and> w \<noteq> [] \<and> min_len \<le> int (length w) \<and> int (length w) < d
     \<and> min_count \<le> int (occurrences w h) \<and> sublist (w @ [t]) h
     \<and> min_prob * of_nat (occurrences w h) \<le> of_nat (occurrences (w @ [t]) h))"

lemma node_occurs:
  assumes "tree_ok st" "good (st_root st)" "w \<noteq> []" "node_at w (st_root st) = Some n"
  shows "int (length w) \<le> st_max_depth st \<and> sn_count n = int (occurrences w (st_tokens st)) \<and> 0 < sn_count n"
proof -
  have "0 < sn_count n" using assms(2)[unfolded good_def, rule_format, OF assms(4)] assms(3) by simp
  moreover have "count_at w (st_root st) = sn_count n" using assms(4) by (simp add: count_at_def)
  ultimately show ?thesis using tree_count[OF assms(1,3)] by (simp split: if_splits)
qed

lemma occurs_node:
  assumes "tree_ok st" "w \<noteq> []" "int (length w) \<le> st_max_depth st" "sublist w (st_tokens st)"
  shows "node_at w (st_root st) \<noteq> None"
  using tree_count[OF assms(1,2)] occurrences_pos[OF assms(2)] assms(3,4) by (intro count_positive_node) simp

lemma walks_likely:
  assumes "tree_ok st" "good (st_root st)" "w \<noteq> []" "node_at w (st_root st) = Some n" "walks p ds n"
  shows "likely_path p (st_tokens st) w ds \<and> int (length w + length ds) \<le> st_max_depth st"
proof -
  let ?h = "st_tokens st"
  have n: "sn_count n = int (occurrences w ?h)" "0 < sn_count n" "int (length w) \<le> st_max_depth st"
    using node_occurs[OF assms(1-4)] by auto
  have at: "count_at v n = (if int (length (w @ v)) \<le> st_max_depth st then int (occurrences (w @ v) ?h) else 0)" for v
    using count_at_append[OF assms(4), of v] tree_count[OF assms(1), of "w @ v"] assms(3) by simp
  have each: "int (length w + Suc j) \<le> st_max_depth st \<and> sublist (w @ take (Suc j) ds) ?h
      \<and> (\<forall>t. occurrences (w @ take j ds @ [t]) ?h \<le> occurrences (w @ take (Suc j) ds) ?h)
      \<and> p * of_nat (occurrences w ?h) \<le> of_nat (occurrences (w @ take (Suc j) ds) ?h)" if j: "j < length ds" for j
  proof -
    have wk: "0 < count_at (take (Suc j) ds) n" "\<And>t. count_at (take j ds @ [t]) n \<le> count_at (take (Suc j) ds) n"
      "p \<le> of_int (count_at (take (Suc j) ds) n) / of_int (sn_count n)"
      using assms(5) j by (simp_all add: walks_def)
    have lj: "length (take (Suc j) ds) = Suc j" "length (take j ds) = j" using j by simp_all
    have d: "int (length w + Suc j) \<le> st_max_depth st" using wk(1) lj(1) by (simp add: at split: if_splits)
    then have c: "count_at (take (Suc j) ds) n = int (occurrences (w @ take (Suc j) ds) ?h)"
      "\<And>t. count_at (take j ds @ [t]) n = int (occurrences (w @ take j ds @ [t]) ?h)"
      using lj by (simp_all add: at)
    have "p * of_int (sn_count n) \<le> of_int (count_at (take (Suc j) ds) n)" using wk(3) n(2) by (simp add: pos_le_divide_eq)
    moreover have "sublist (w @ take (Suc j) ds) ?h" using wk(1) c(1) occurrences_pos[of "w @ take (Suc j) ds" ?h] assms(3) by simp
    ultimately show ?thesis using d wk(2) n(1) c by simp
  qed
  then have "likely_path p ?h w ds" by (simp add: likely_path_def)
  moreover have "int (length w + length ds) \<le> st_max_depth st"
    using n(3) each[of "length ds - 1"] by (cases ds) auto
  ultimately show ?thesis by blast
qed

lemma speculate_sound:
  assumes "tree_ok st" "good (st_root st)" "children_order order"
  shows "\<exists>ds. speculate order st ctx max_spec min_prob min_count min_len = Some ds
    \<and> (ds \<noteq> [] \<longrightarrow> (\<exists>w. suffix w ctx \<and> w \<noteq> [] \<and> min_len \<le> int (length w) \<and> min_count \<le> int (occurrences w (st_tokens st))
      \<and> int (length w + length ds) \<le> st_max_depth st \<and> int (length ds) \<le> min max_spec (int (length w) + 8)
      \<and> likely_path min_prob (st_tokens st) w ds))"
proof -
  obtain ds where ds: "speculate order st ctx max_spec min_prob min_count min_len = Some ds"
    "ds \<noteq> [] \<longrightarrow> from_match (st_root st) ctx max_spec min_prob min_count min_len ds"
    using speculate_from_match[OF assms(2,3)] by blast
  have "\<exists>w. suffix w ctx \<and> w \<noteq> [] \<and> min_len \<le> int (length w) \<and> min_count \<le> int (occurrences w (st_tokens st))
      \<and> int (length w + length ds) \<le> st_max_depth st \<and> int (length ds) \<le> min max_spec (int (length w) + 8)
      \<and> likely_path min_prob (st_tokens st) w ds" if "ds \<noteq> []"
    using ds(2) that walks_likely[OF assms(1,2)] node_occurs[OF assms(1,2)] unfolding from_match_def by metis
  with ds(1) show ?thesis by blast
qed

lemma speculate_finds:
  assumes ok: "tree_ok st" and g: "good (st_root st)" and o: "children_order order" and ms: "0 < max_spec"
    and d: "draftable (st_tokens st) (st_max_depth st) ctx min_prob min_count min_len"
    and r: "speculate order st ctx max_spec min_prob min_count min_len = Some ds"
  shows "ds \<noteq> []"
proof -
  let ?h = "st_tokens st" and ?d = "st_max_depth st"
  obtain w t where w: "suffix w ctx" "w \<noteq> []" "min_len \<le> int (length w)" "int (length w) < ?d"
    "min_count \<le> int (occurrences w ?h)" "sublist (w @ [t]) ?h"
    "min_prob * of_nat (occurrences w ?h) \<le> of_nat (occurrences (w @ [t]) ?h)"
    using d unfolding draftable_def by blast
  define c where "c = (if int (length ctx) > ?d then drop (length ctx - nat ?d) ctx else ctx)"
  have wc: "suffix w c"
  proof (cases "int (length ctx) > ?d")
    case True
    have "suffix c ctx" "length w \<le> length c" using w(4) True by (auto simp: c_def suffix_drop)
    then show ?thesis using w(1) by (metis suffix_length_suffix)
  qed (simp add: c_def w(1))
  then have tail: "drop (length c - length w) c = w" by (auto simp: suffix_def)
  have wh: "sublist w ?h" using w(6) sublist_order.order_trans sublist_append_rightI by blast
  have nodes: "node_at (drop (length c - nat i) c) (st_root st) \<noteq> None" if "max 1 min_len \<le> i" "i \<le> int (length w)" for i
  proof (rule occurs_node[OF ok])
    let ?v = "drop (length c - nat i) c"
    have len: "length ?v = nat i" using that suffix_length_le[OF wc] by simp
    then show "?v \<noteq> []" "int (length ?v) \<le> ?d" using that w(4) by auto
    have "suffix ?v w" using len that wc by (metis nat_le_iff suffix_drop suffix_length_suffix)
    then show "sublist ?v ?h" using wh by (metis sublist_order.order_trans suffix_imp_sublist)
  qed
  obtain n where n: "node_at w (st_root st) = Some n" using occurs_node[OF ok w(2) _ wh] w(4) by auto
  obtain m where m: "node_at (w @ [t]) (st_root st) = Some m" using occurs_node[OF ok _ _ w(6)] w(4) by auto
  have cn: "sn_count n = int (occurrences w ?h)" "0 < sn_count n" using node_occurs[OF ok g w(2) n] by auto
  have cm: "sn_count m = int (occurrences (w @ [t]) ?h)" using node_occurs[OF ok g _ m] by simp
  have ch: "child_at n t = Some m" using m n by (auto simp: node_at_append split: option.splits)
  have pr: "min_prob \<le> of_int (sn_count m) / of_int (sn_count n)" using w(7) cn cm by (simp add: pos_le_divide_eq)
  have "ctx \<noteq> []" using w(1,2) by auto
  then obtain r where lr: "match_loop order (st_root st) c max_spec min_prob min_count (max 1 min_len) ([], 0) = Some r" "ds = fst r"
    using r ms by (auto simp: speculate_def c_def Let_def)
  have "1 \<le> int (length w)" using w(2) by (cases w) auto
  then have "fst r \<noteq> []"
    by (intro match_loop_finds[OF g o _ _ ms lr(1), where k = "int (length w)" and n = n and t = t and c = m])
      (use w(3,5) cn nodes ch pr n tail suffix_length_le[OF wc] in \<open>auto simp: best_ok_def\<close>)
  then show ?thesis by (simp add: lr(2))
qed

end
