(* ===== verification/SuffixStage.thy ===== *)
theory SuffixStage
  imports SuffixDraft "HOL-Library.Word"
begin

section \<open>The suffix stage (common/speculative.cpp, suffix-tree.cpp)\<close>

text \<open>
  The stage feeds the context of each step to its tree, asks the tree and a corpus tree for a draft, and
  raises its probability bound while drafts fail.  A file is what a reader made of it: a JSON value, or
  the tokens read.  A length that was not set means that all drafted tokens were verified.
\<close>

subsection \<open>Loading a corpus\<close>

datatype json = JString string | JArray "json list" | JObject "(string \<times> json) list" | JOther

lemma size_member: "map_of ms k = Some j \<Longrightarrow> size j < Suc (size_list (size_prod (\<lambda>_. 0) size) ms)"
  by (induction ms) (auto split: if_splits)

definition push_text :: "string \<Rightarrow> string list" where
  "push_text s = (if s \<noteq> '''' then [s] else [])"

function extract_texts :: "json \<Rightarrow> string list" where
  "extract_texts (JString s) = push_text s"
| "extract_texts (JArray js) = concat (map extract_texts js)"
| "extract_texts (JObject ms) =
     (case map_of ms ''content'' of
        Some (JString s) \<Rightarrow> push_text s
      | _ \<Rightarrow> (case map_of ms ''messages'' of Some j \<Rightarrow> extract_texts j | None \<Rightarrow> []))"
| "extract_texts JOther = []"
  by pat_completeness auto
termination
  by (relation "measure size") (auto dest!: size_member simp: less_Suc_eq_le size_list_estimation')

definition insert_work :: "nat \<Rightarrow> int \<Rightarrow> 64 word" where
  "insert_work n d = word_of_nat n * word_of_int (max d 1)"

definition check_limit :: "nat \<Rightarrow> int \<Rightarrow> bool" where
  "check_limit n d \<longleftrightarrow> insert_work n d \<le> 256 * 1024 * 1024"

text \<open>The loop over the chunks: the number of tokens loaded, or \<open>None\<close> when the limit is passed and the tree
  has been cleared.\<close>

fun load_chunks :: "nat \<Rightarrow> int list list \<Rightarrow> suffix_tree \<Rightarrow> nat option \<times> suffix_tree" where
  "load_chunks loaded [] st = (Some loaded, st)"
| "load_chunks loaded (c # cs) st =
     (if c = [] then load_chunks loaded cs st
      else if \<not> check_limit (loaded + length c) (st_max_depth st) then (None, tree_clear st)
      else load_chunks (loaded + length c) cs (tree_extend c st))"

definition load_json :: "(string \<Rightarrow> int list) option \<Rightarrow> json option \<Rightarrow> suffix_tree \<Rightarrow> bool \<times> suffix_tree" where
  "load_json tokenize file st =
     (case (tokenize, file) of
        (Some tok, Some doc) \<Rightarrow>
          (let texts = extract_texts doc in
           if texts = [] then (False, st)
           else case load_chunks 0 (map tok texts) st of
             (None, st) \<Rightarrow> (False, st)
           | (Some n, st) \<Rightarrow> if n = 0 then (False, tree_clear st) else (True, st))
      | _ \<Rightarrow> (False, st))"

function read_chunks :: "int list \<Rightarrow> int list list" where
  "read_chunks ts = (if ts = [] then [] else take 32768 ts # read_chunks (drop 32768 ts))"
  by pat_completeness auto
termination by (relation "measure length") auto

declare read_chunks.simps [simp del]

text \<open>\<open>est\<close> is the number of tokens by the size of the file, zero when that is unknown.\<close>

definition load_binary :: "nat \<Rightarrow> bool \<Rightarrow> int list \<Rightarrow> suffix_tree \<Rightarrow> bool \<times> suffix_tree" where
  "load_binary est read_error ts st =
     (if est > 0 \<and> \<not> check_limit est (st_max_depth st) then (False, st)
      else case load_chunks 0 (read_chunks ts) st of
        (None, st) \<Rightarrow> (False, st)
      | (Some n, st) \<Rightarrow>
          if read_error then (False, tree_clear st)
          else if n = 0 then (False, st) else (True, st))"

subsection \<open>The stage\<close>

record spec_params =
  sp_n_max :: int
  sp_n_min :: int
  sp_p_min :: rat
  sp_min_match_len :: int

record suffix_stage =
  ss_tree :: suffix_tree
  ss_corpus_tree :: suffix_tree
  ss_has_corpus :: bool
  ss_cache_size :: nat
  ss_n_draft_last :: nat
  ss_had_accept :: bool
  ss_n_low :: int
  ss_base_p_min :: rat
  ss_eff_p_min :: rat

text \<open>The value of \<open>0.1f\<close>; \<open>0.05f\<close> is its half.\<close>

definition tenth_f :: rat where
  "tenth_f = 13421773 / 2 ^ 27"

text \<open>The corpus is given by its loader, when there is a path.\<close>

definition new_suffix_stage :: "int \<Rightarrow> (suffix_tree \<Rightarrow> bool \<times> suffix_tree) option \<Rightarrow> suffix_stage" where
  "new_suffix_stage d loader =
     (let (has, corpus) = (case loader of None \<Rightarrow> (False, new_tree d) | Some l \<Rightarrow> l (new_tree d))
      in \<lparr>ss_tree = new_tree d, ss_corpus_tree = corpus, ss_has_corpus = has, ss_cache_size = 0,
          ss_n_draft_last = 0, ss_had_accept = False, ss_n_low = 0, ss_base_p_min = tenth_f, ss_eff_p_min = tenth_f\<rparr>)"

definition suffix_begin :: "int list \<Rightarrow> suffix_stage \<Rightarrow> suffix_stage" where
  "suffix_begin prompt s = s\<lparr>ss_cache_size := 0, ss_n_draft_last := 0, ss_had_accept := False, ss_n_low := 0\<rparr>"

text \<open>Three failures in a row raise the bound.\<close>

definition count_low :: "suffix_stage \<Rightarrow> suffix_stage" where
  "count_low s =
     (let n = ss_n_low s + 1 in
      if n \<ge> 3 then s\<lparr>ss_eff_p_min := min (ss_eff_p_min s + tenth_f) (1/2), ss_n_low := 0\<rparr> else s\<lparr>ss_n_low := n\<rparr>)"

definition feed_context :: "int list \<Rightarrow> int \<Rightarrow> suffix_stage \<Rightarrow> suffix_stage" where
  "feed_context prompt id_last s =
     (if ss_cache_size s < length prompt + 1
      then s\<lparr>ss_tree := tree_extend (drop (ss_cache_size s) prompt @ [id_last]) (ss_tree s),
             ss_cache_size := length prompt + 1\<rparr>
      else s)"

definition suffix_context :: "int \<Rightarrow> int list \<Rightarrow> int \<Rightarrow> int list" where
  "suffix_context d prompt id_last =
     (let ctx_len = min (int (length prompt) + 1) d in drop (nat (int (length prompt) + 1 - ctx_len)) prompt @ [id_last])"

definition suffix_draft ::
  "((int \<times> snode) list \<Rightarrow> (int \<times> snode) list) \<Rightarrow> spec_params \<Rightarrow> int list \<Rightarrow> int \<Rightarrow> suffix_stage
     \<Rightarrow> (int list \<times> suffix_stage) option" where
  "suffix_draft order p prompt id_last s =
     (let s = s\<lparr>ss_base_p_min := sp_p_min p\<rparr>;
          s = (if ss_n_draft_last s > 0 \<and> \<not> ss_had_accept s then count_low s else s);
          s = feed_context prompt id_last (s\<lparr>ss_had_accept := False\<rparr>);
          ctx = suffix_context (st_max_depth (ss_tree s)) prompt id_last;
          ask = (\<lambda>tree. speculate order tree ctx (sp_n_max p) (ss_eff_p_min s) 1 (max 1 (sp_min_match_len p)))
      in case ask (ss_tree s) of None \<Rightarrow> None
         | Some own \<Rightarrow>
           (case if ss_has_corpus s then ask (ss_corpus_tree s) else Some [] of None \<Rightarrow> None
            | Some other \<Rightarrow>
                (let result = (if length other > length own then other else own)
                 in Some (result, s\<lparr>ss_n_draft_last := length result\<rparr>))))"

definition suffix_accept :: "nat option \<Rightarrow> nat \<Rightarrow> suffix_stage \<Rightarrow> suffix_stage" where
  "suffix_accept n_verified n_accepted s =
     (if ss_n_draft_last s = 0 then s
      else let s = s\<lparr>ss_had_accept := True\<rparr>; tested = spec_n_tested (ss_n_draft_last s) n_verified in
        if tested = 0 then s
        else if rat_of_nat n_accepted / rat_of_nat tested < 1/2 then count_low s
        else let s = s\<lparr>ss_n_low := 0\<rparr> in
          if ss_eff_p_min s > ss_base_p_min s
          then s\<lparr>ss_eff_p_min := max (ss_eff_p_min s - tenth_f / 2) (ss_base_p_min s)\<rparr> else s)"

text \<open>The stage does not override the reset of an erased slot, which does nothing by default.\<close>

definition suffix_hard_reset :: "suffix_stage \<Rightarrow> suffix_stage" where
  "suffix_hard_reset s = s"

subsection \<open>Sessions\<close>

datatype suffix_op = OpBegin "int list" | OpDraft spec_params "int list" int | OpAccept "nat option" nat | OpErase

fun suffix_step :: "((int \<times> snode) list \<Rightarrow> (int \<times> snode) list) \<Rightarrow> suffix_op \<Rightarrow> suffix_stage \<Rightarrow> suffix_stage option" where
  "suffix_step order (OpBegin prompt) s = Some (suffix_begin prompt s)"
| "suffix_step order (OpDraft p prompt id_last) s = map_option snd (suffix_draft order p prompt id_last s)"
| "suffix_step order (OpAccept v n) s = Some (suffix_accept v n s)"
| "suffix_step order OpErase s = Some (suffix_hard_reset s)"

fun suffix_run :: "((int \<times> snode) list \<Rightarrow> (int \<times> snode) list) \<Rightarrow> suffix_op list \<Rightarrow> suffix_stage \<Rightarrow> suffix_stage option" where
  "suffix_run order [] s = Some s"
| "suffix_run order (x # xs) s = Option.bind (suffix_step order x s) (suffix_run order xs)"

subsection \<open>What a corpus leaves in the tree\<close>

definition tree_holds :: "int \<Rightarrow> int list \<Rightarrow> suffix_tree \<Rightarrow> bool" where
  "tree_holds d h st \<longleftrightarrow> tree_ok st \<and> good (st_root st) \<and> st_tokens st = h \<and> st_max_depth st = d"

lemma tree_holds_new [simp]: "tree_holds d [] (new_tree d)"
  by (simp add: tree_holds_def tree_ok_new) (simp add: new_tree_def)

lemma tree_holds_clear: "tree_holds d h st \<Longrightarrow> tree_holds d [] (tree_clear st)"
  by (simp add: tree_holds_def tree_ok_clear) (simp add: tree_clear_def)

lemma tree_holds_extend: "tree_holds d h st \<Longrightarrow> 0 < d \<Longrightarrow> tree_holds d (h @ ts) (tree_extend ts st)"
  using tree_ok_extend[of st ts] good_tree_extend[of st ts] by (simp add: tree_holds_def)

lemma load_chunks_holds:
  "tree_holds d h st \<Longrightarrow> 0 < d \<Longrightarrow> load_chunks loaded cs st = (r, st') \<Longrightarrow>
     (case r of None \<Rightarrow> tree_holds d [] st' | Some n \<Rightarrow> tree_holds d (h @ concat cs) st' \<and> n = loaded + length (concat cs))"
proof (induction loaded cs st arbitrary: h rule: load_chunks.induct)
  case (1 loaded st)
  then show ?case by auto
next
  case (2 loaded c cs st)
  show ?case
  proof (cases "c = [] \<or> \<not> check_limit (loaded + length c) (st_max_depth st)")
    case True
    then show ?thesis using "2.IH"(1)[of h] "2.prems" by (auto intro: tree_holds_clear split: if_splits option.splits)
  next
    case False
    then show ?thesis
      using "2.IH"(2)[of "h @ c"] "2.prems" tree_holds_extend[of d h st c] by (auto split: option.splits)
  qed
qed

lemma concat_read_chunks [simp]: "concat (read_chunks ts) = ts"
  by (induction ts rule: read_chunks.induct) (subst read_chunks.simps, simp)

text \<open>A corpus that loads is the history of its tree; one that does not leaves an empty tree.\<close>

lemma load_binary_holds:
  assumes "0 < d" "load_binary est err ts (new_tree d) = (ok, st)"
  shows "tree_holds d (if ok then ts else []) st"
proof (cases "est > 0 \<and> \<not> check_limit est (st_max_depth (new_tree d))")
  case True
  then show ?thesis using assms by (auto simp: load_binary_def)
next
  case False
  obtain r st' where l: "load_chunks 0 (read_chunks ts) (new_tree d) = (r, st')" by (cases "load_chunks 0 (read_chunks ts) (new_tree d)")
  have h: "case r of None \<Rightarrow> tree_holds d [] st' | Some n \<Rightarrow> tree_holds d ts st' \<and> n = length ts"
    using load_chunks_holds[OF tree_holds_new assms(1) l] by (simp split: option.splits)
  show ?thesis using assms(2) False l h
    by (auto simp: load_binary_def tree_holds_clear split: option.splits if_splits)
qed

lemma load_json_holds:
  assumes "0 < d" "load_json tokenize file (new_tree d) = (ok, st)"
  shows "\<exists>h. tree_holds d h st \<and> (\<not> ok \<longrightarrow> h = []) \<and>
    (ok \<longrightarrow> (\<exists>tok doc. tokenize = Some tok \<and> file = Some doc \<and> h = concat (map tok (extract_texts doc)) \<and> h \<noteq> []))"
proof (cases "\<exists>tok doc. tokenize = Some tok \<and> file = Some doc \<and> extract_texts doc \<noteq> []")
  case False
  then show ?thesis using assms by (auto simp: load_json_def Let_def split: option.splits if_splits)
next
  case True
  then obtain tok doc where t: "tokenize = Some tok" "file = Some doc" "extract_texts doc \<noteq> []" by blast
  obtain r st' where l: "load_chunks 0 (map tok (extract_texts doc)) (new_tree d) = (r, st')"
    by (cases "load_chunks 0 (map tok (extract_texts doc)) (new_tree d)")
  show ?thesis using assms(2) t l load_chunks_holds[OF tree_holds_new assms(1) l]
    by (auto simp: load_json_def Let_def tree_holds_clear split: option.splits if_splits)
qed

subsection \<open>The history of a session\<close>

text \<open>What the stage was fed in the generations before, and in the one under way: of each context the tokens
  past the number that was fed already, whatever these were.\<close>

fun fed_step :: "int list \<times> int list \<Rightarrow> suffix_op \<Rightarrow> int list \<times> int list" where
  "fed_step (past, cur) (OpBegin _) = (past @ cur, [])"
| "fed_step (past, cur) (OpDraft _ prompt id_last) = (past, cur @ drop (length cur) (prompt @ [id_last]))"
| "fed_step (past, cur) _ = (past, cur)"

definition fed :: "suffix_op list \<Rightarrow> int list \<times> int list" where
  "fed xs = foldl fed_step ([], []) xs"

text \<open>The final contexts of the generations before, and the context of the one under way.\<close>

fun context_step :: "int list \<times> int list \<Rightarrow> suffix_op \<Rightarrow> int list \<times> int list" where
  "context_step (past, cur) (OpBegin _) = (past @ cur, [])"
| "context_step (past, cur) (OpDraft _ prompt id_last) = (past, prompt @ [id_last])"
| "context_step (past, cur) _ = (past, cur)"

definition contexts :: "suffix_op list \<Rightarrow> int list \<times> int list" where
  "contexts xs = foldl context_step ([], []) xs"

text \<open>Within a generation a context only grows.\<close>

fun growing :: "int list \<Rightarrow> suffix_op list \<Rightarrow> bool" where
  "growing cur [] \<longleftrightarrow> True"
| "growing cur (OpBegin _ # xs) \<longleftrightarrow> growing [] xs"
| "growing cur (OpDraft _ prompt id_last # xs) \<longleftrightarrow> prefix cur (prompt @ [id_last]) \<and> growing (prompt @ [id_last]) xs"
| "growing cur (_ # xs) \<longleftrightarrow> growing cur xs"

lemma growing_fed: "growing (snd pc) xs \<Longrightarrow> foldl fed_step pc xs = foldl context_step pc xs"
proof (induction xs arbitrary: pc)
  case (Cons x xs)
  obtain past cur where pc: "pc = (past, cur)" by (cases pc)
  show ?case
  proof (cases x)
    case (OpDraft p prompt t)
    then have "prefix cur (prompt @ [t])" using Cons.prems pc by simp
    then obtain zs where zs: "prompt @ [t] = cur @ zs" by (auto simp: prefix_def)
    have "cur @ drop (length cur) (prompt @ [t]) = prompt @ [t]" unfolding zs by simp
    then show ?thesis using Cons.IH[of "(past, prompt @ [t])"] Cons.prems pc OpDraft by simp
  qed (use Cons.IH[of "(past @ cur, [])"] Cons.IH[of pc] Cons.prems pc in simp_all)
qed simp

definition stage_holds :: "int \<Rightarrow> int list \<Rightarrow> int list \<times> int list \<Rightarrow> suffix_stage \<Rightarrow> bool" where
  "stage_holds d corpus pc s \<longleftrightarrow> tree_holds d (fst pc @ snd pc) (ss_tree s) \<and> ss_cache_size s = length (snd pc)
     \<and> tree_holds d corpus (ss_corpus_tree s)"

lemma count_low_simps [simp]:
  "ss_tree (count_low s) = ss_tree s" "ss_corpus_tree (count_low s) = ss_corpus_tree s"
  "ss_cache_size (count_low s) = ss_cache_size s" "ss_has_corpus (count_low s) = ss_has_corpus s"
  "ss_n_draft_last (count_low s) = ss_n_draft_last s" "ss_base_p_min (count_low s) = ss_base_p_min s"
  by (simp_all add: count_low_def Let_def)

lemma accept_simps [simp]:
  "ss_tree (suffix_accept v n s) = ss_tree s" "ss_corpus_tree (suffix_accept v n s) = ss_corpus_tree s"
  "ss_cache_size (suffix_accept v n s) = ss_cache_size s" "ss_n_draft_last (suffix_accept v n s) = ss_n_draft_last s"
  "ss_base_p_min (suffix_accept v n s) = ss_base_p_min s"
  by (simp_all add: suffix_accept_def Let_def)

lemma feed_context_holds:
  assumes "stage_holds d corpus (past, cur) s" "0 < d"
  shows "stage_holds d corpus (past, cur @ drop (length cur) (prompt @ [id_last])) (feed_context prompt id_last s)"
proof -
  have sz: "ss_cache_size s = length cur" using assms(1) by (simp add: stage_holds_def)
  show ?thesis
  proof (cases "length cur < length prompt + 1")
    case False
    then show ?thesis using assms(1) sz by (simp add: feed_context_def)
  next
    case True
    let ?xs = "drop (length cur) prompt @ [id_last]"
    have "feed_context prompt id_last s = s\<lparr>ss_tree := tree_extend ?xs (ss_tree s), ss_cache_size := length prompt + 1\<rparr>"
      using True sz by (simp add: feed_context_def)
    moreover have "tree_holds d (past @ cur @ ?xs) (tree_extend ?xs (ss_tree s))"
      using assms(1,2) tree_holds_extend[of d "past @ cur" "ss_tree s" ?xs] by (simp add: stage_holds_def)
    ultimately show ?thesis using assms(1) True by (simp add: stage_holds_def)
  qed
qed

lemma suffix_draft_holds:
  assumes "stage_holds d corpus (past, cur) s" "0 < d" "children_order order"
  shows "\<exists>ds s'. suffix_draft order p prompt id_last s = Some (ds, s')
    \<and> stage_holds d corpus (past, cur @ drop (length cur) (prompt @ [id_last])) s' \<and> ss_n_draft_last s' = length ds"
proof -
  define s1 where "s1 = s\<lparr>ss_base_p_min := sp_p_min p\<rparr>"
  define s2 where "s2 = (if ss_n_draft_last s1 > 0 \<and> \<not> ss_had_accept s1 then count_low s1 else s1)"
  define s3 where "s3 = feed_context prompt id_last (s2\<lparr>ss_had_accept := False\<rparr>)"
  have "stage_holds d corpus (past, cur) (s2\<lparr>ss_had_accept := False\<rparr>)"
    using assms(1) by (simp add: stage_holds_def s2_def s1_def)
  then have h: "stage_holds d corpus (past, cur @ drop (length cur) (prompt @ [id_last])) s3"
    unfolding s3_def by (rule feed_context_holds[OF _ assms(2)])
  let ?ask = "\<lambda>tree. speculate order tree (suffix_context (st_max_depth (ss_tree s3)) prompt id_last) (sp_n_max p)
      (ss_eff_p_min s3) 1 (max 1 (sp_min_match_len p))"
  obtain own where own: "?ask (ss_tree s3) = Some own"
    using speculate_sound[of "ss_tree s3" order] h assms(3) unfolding stage_holds_def tree_holds_def by metis
  obtain other where other: "?ask (ss_corpus_tree s3) = Some other"
    using speculate_sound[of "ss_corpus_tree s3" order] h assms(3) unfolding stage_holds_def tree_holds_def by metis
  show ?thesis
    using own other h unfolding suffix_draft_def Let_def s1_def[symmetric] s2_def[symmetric] s3_def[symmetric]
    by (simp add: stage_holds_def)
qed

lemma suffix_run_holds:
  assumes "0 < d" "children_order order"
  shows "stage_holds d corpus pc s \<Longrightarrow>
    \<exists>s'. suffix_run order xs s = Some s' \<and> stage_holds d corpus (foldl fed_step pc xs) s'"
proof (induction xs arbitrary: pc s)
  case (Cons x xs)
  obtain past cur where pc: "pc = (past, cur)" by (cases pc)
  show ?case
  proof (cases x)
    case (OpDraft p prompt id_last)
    obtain ds s' where "suffix_draft order p prompt id_last s = Some (ds, s')"
      "stage_holds d corpus (past, cur @ drop (length cur) (prompt @ [id_last])) s'"
      using suffix_draft_holds[OF _ assms] Cons.prems pc by blast
    then show ?thesis using Cons.IH[of "(past, cur @ drop (length cur) (prompt @ [id_last]))" s'] pc OpDraft by simp
  qed (use Cons.IH[of "(past @ cur, [])" "suffix_begin _ s"] Cons.IH[of pc] Cons.prems pc in
        \<open>auto simp: stage_holds_def suffix_begin_def suffix_hard_reset_def\<close>)
qed simp

subsection \<open>The probability bound\<close>

definition bound_ok :: "suffix_stage \<Rightarrow> bool" where
  "bound_ok s \<longleftrightarrow> ss_eff_p_min s \<le> 1/2 \<and> (0 < ss_n_draft_last s \<longrightarrow> 1/2 \<le> ss_base_p_min s)"

lemma tenth_pos: "0 < tenth_f"
  by (simp add: tenth_f_def)

lemma count_low_raises: "ss_eff_p_min s \<le> 1/2 \<Longrightarrow> ss_eff_p_min s \<le> ss_eff_p_min (count_low s) \<and> ss_eff_p_min (count_low s) \<le> 1/2"
  using tenth_pos by (simp add: count_low_def Let_def min_def)

lemma accept_raises: "bound_ok s \<Longrightarrow> bound_ok (suffix_accept v n s) \<and> ss_eff_p_min s \<le> ss_eff_p_min (suffix_accept v n s)"
  using count_low_raises[of "s\<lparr>ss_had_accept := True\<rparr>"] by (auto simp: bound_ok_def suffix_accept_def Let_def)

lemma feed_context_simps [simp]:
  "ss_eff_p_min (feed_context p t s) = ss_eff_p_min s" "ss_base_p_min (feed_context p t s) = ss_base_p_min s"
  by (simp_all add: feed_context_def)

lemma draft_raises:
  assumes "bound_ok s" "1/2 \<le> sp_p_min p" "suffix_draft order p prompt id_last s = Some (ds, s')"
  shows "bound_ok s' \<and> ss_eff_p_min s \<le> ss_eff_p_min s'"
proof -
  have "ss_base_p_min s' = sp_p_min p" using assms(3) by (auto simp: suffix_draft_def Let_def split: option.splits)
  moreover have "ss_eff_p_min s \<le> ss_eff_p_min s' \<and> ss_eff_p_min s' \<le> 1/2"
    using assms(1,3) count_low_raises[of "s\<lparr>ss_base_p_min := sp_p_min p\<rparr>"]
    by (auto simp: suffix_draft_def Let_def bound_ok_def split: option.splits if_splits)
  ultimately show ?thesis using assms(2) by (simp add: bound_ok_def)
qed

lemma run_raises:
  assumes "\<And>p prompt t. OpDraft p prompt t \<in> set xs \<Longrightarrow> 1/2 \<le> sp_p_min p"
  shows "bound_ok s \<Longrightarrow> suffix_run order xs s = Some s' \<Longrightarrow> bound_ok s' \<and> ss_eff_p_min s \<le> ss_eff_p_min s'"
  using assms
proof (induction xs arbitrary: s)
  case (Cons x xs)
  from Cons.prems(2) obtain s1 where s1: "suffix_step order x s = Some s1" "suffix_run order xs s1 = Some s'"
    by (auto split: Option.bind_splits)
  have "bound_ok s1 \<and> ss_eff_p_min s \<le> ss_eff_p_min s1"
  proof (cases x)
    case (OpDraft p prompt t)
    then show ?thesis using draft_raises[OF Cons.prems(1), of p order prompt t] Cons.prems(3)[of p prompt t] s1(1) by auto
  qed (use s1(1) Cons.prems(1) accept_raises in \<open>auto simp: suffix_begin_def suffix_hard_reset_def bound_ok_def\<close>)
  then show ?case using Cons.IH[OF _ s1(2)] Cons.prems(3) by force
qed simp

end
