(* ===== verification/NgramStage.thy ===== *)
theory NgramStage
  imports Prelude SuffixStage
begin

section \<open>The n-gram stage (common/ngram-mod.cpp, common/speculative.cpp)\<close>

text \<open>
  A table of the token that last followed each n-gram, by the hash of the n-gram.  The stage keeps how
  far the context is indexed and feeds the rest before it drafts.  A pointer into a token vector is the
  vector from there on.  \<open>streak\<close> and \<open>lag\<close> are the two environment levers.
\<close>

subsection \<open>The table\<close>

record ngram_mod =
  nm_n :: nat
  nm_used :: nat
  nm_entries :: "int list"

definition ngram_reset :: "ngram_mod \<Rightarrow> ngram_mod" where
  "ngram_reset m = m\<lparr>nm_entries := replicate (length (nm_entries m)) (-1), nm_used := 0\<rparr>"

definition new_ngram_mod :: "nat \<Rightarrow> nat \<Rightarrow> ngram_mod" where
  "new_ngram_mod n sz = ngram_reset \<lparr>nm_n = n, nm_used = 0, nm_entries = replicate sz 0\<rparr>"

definition ngram_hash :: "int list \<Rightarrow> 64 word" where
  "ngram_hash ts = foldl (\<lambda>res t. res * 6364136223846793005 + word_of_int t) 0 ts"

definition ngram_idx :: "ngram_mod \<Rightarrow> int list \<Rightarrow> nat" where
  "ngram_idx m ts = nat (uint (ngram_hash (take (nm_n m) ts)) mod int (length (nm_entries m)))"

definition ngram_add :: "int list \<Rightarrow> ngram_mod \<Rightarrow> ngram_mod" where
  "ngram_add ts m =
     (let i = ngram_idx m ts;
          m = (if nm_entries m ! i = -1 then m\<lparr>nm_used := nm_used m + 1\<rparr> else m)
      in m\<lparr>nm_entries := (nm_entries m)[i := ts ! nm_n m]\<rparr>)"

definition ngram_get :: "ngram_mod \<Rightarrow> int list \<Rightarrow> int" where
  "ngram_get m ts = nm_entries m ! ngram_idx m ts"

text \<open>The loop that adds the n-grams at the positions from \<open>a\<close> up to \<open>b\<close>.\<close>

definition ngram_feed :: "int list \<Rightarrow> nat \<Rightarrow> nat \<Rightarrow> ngram_mod \<Rightarrow> ngram_mod" where
  "ngram_feed ts a b m = fold (\<lambda>i. ngram_add (drop i ts)) [a..<b] m"

subsection \<open>The stage\<close>

record ngram_stage =
  ng_mod :: ngram_mod
  ng_i_last :: nat
  ng_n_draft_last :: nat
  ng_n_low :: int
  ng_miss_first :: nat
  ng_short_of_min :: nat
  ng_ctx_short :: nat
  ng_feed_calls :: nat
  ng_feed_lag_sum :: nat
  ng_feed_lag_max :: nat
  ng_not_asked :: nat

definition new_ngram_stage :: "ngram_mod \<Rightarrow> ngram_stage" where
  "new_ngram_stage m = \<lparr>ng_mod = m, ng_i_last = 0, ng_n_draft_last = 0, ng_n_low = 0, ng_miss_first = 0,
     ng_short_of_min = 0, ng_ctx_short = 0, ng_feed_calls = 0, ng_feed_lag_sum = 0, ng_feed_lag_max = 0,
     ng_not_asked = 0\<rparr>"

definition crowded :: "ngram_mod \<Rightarrow> bool" where
  "crowded m \<longleftrightarrow> rat_of_nat (nm_used m) / rat_of_nat (length (nm_entries m)) > 1/4"

definition ngram_begin :: "int list \<Rightarrow> ngram_stage \<Rightarrow> ngram_stage" where
  "ngram_begin prompt s =
     (let s = s\<lparr>ng_i_last := 0, ng_n_draft_last := 0, ng_n_low := 0\<rparr>; n = nm_n (ng_mod s) in
      if length prompt < n then s
      else let s = s\<lparr>ng_mod := ngram_feed prompt 0 (length prompt - n) (ng_mod s), ng_i_last := length prompt - n\<rparr> in
        if crowded (ng_mod s) then s\<lparr>ng_mod := ngram_reset (ng_mod s)\<rparr> else s)"

text \<open>The part of a draft that brings the table up to date.\<close>

definition ngram_update :: "nat \<Rightarrow> int list \<Rightarrow> ngram_stage \<Rightarrow> ngram_stage" where
  "ngram_update lag prompt s =
     (let n = nm_n (ng_mod s); cur_len = length prompt;
          s = (if ng_i_last s > cur_len - n then s\<lparr>ng_i_last := cur_len - n\<rparr> else s) in
      if ng_i_last s + lag < cur_len \<and> ng_i_last s < cur_len - n
      then let l = cur_len - n - ng_i_last s in
        s\<lparr>ng_feed_lag_sum := ng_feed_lag_sum s + l, ng_feed_lag_max := max l (ng_feed_lag_max s),
          ng_feed_calls := ng_feed_calls s + 1, ng_mod := ngram_feed prompt (ng_i_last s) (cur_len - n) (ng_mod s),
          ng_i_last := cur_len - n\<rparr>
      else s)"

text \<open>The lookups: the tokens found, and whether the table ran out of them.\<close>

fun ngram_loop :: "ngram_mod \<Rightarrow> int list \<Rightarrow> nat \<Rightarrow> int list \<Rightarrow> int list \<times> bool" where
  "ngram_loop m w 0 ds = (ds, False)"
| "ngram_loop m w (Suc k) ds =
     (let token = ngram_get m (drop (length ds) (w @ ds)) in
      if token = -1 then (ds, True) else ngram_loop m w k (ds @ [token]))"

definition ngram_window :: "nat \<Rightarrow> int list \<Rightarrow> int \<Rightarrow> int list" where
  "ngram_window n prompt id_last = drop (length prompt - n + 1) prompt @ [id_last]"

definition ngram_draft :: "nat \<Rightarrow> spec_params \<Rightarrow> int list \<Rightarrow> int \<Rightarrow> ngram_stage \<Rightarrow> int list \<times> ngram_stage" where
  "ngram_draft lag p prompt id_last s =
     (let s = s\<lparr>ng_n_draft_last := 0\<rparr>; n = nm_n (ng_mod s) in
      if length prompt < n then ([], s\<lparr>ng_ctx_short := ng_ctx_short s + 1\<rparr>)
      else let s = ngram_update lag prompt s;
               (ds, missed) = ngram_loop (ng_mod s) (ngram_window n prompt id_last) (nat (sp_n_max p)) [];
               s = (if missed \<and> ds = [] then s\<lparr>ng_miss_first := ng_miss_first s + 1\<rparr> else s)
        in if missed \<and> int (length ds) < sp_n_min p
           then ([], if ds \<noteq> [] then s\<lparr>ng_short_of_min := ng_short_of_min s + 1\<rparr> else s)
           else (ds, s\<lparr>ng_n_draft_last := length ds\<rparr>))"

definition ngram_accept :: "int \<Rightarrow> nat option \<Rightarrow> nat \<Rightarrow> ngram_stage \<Rightarrow> ngram_stage" where
  "ngram_accept streak n_verified n_accepted s =
     (let tested = spec_n_tested (ng_n_draft_last s) n_verified in
      if tested > 0
      then if rat_of_nat n_accepted / rat_of_nat tested < 1/2
           then let s = s\<lparr>ng_n_low := ng_n_low s + 1\<rparr> in
             if streak > 0 \<and> ng_n_low s \<ge> streak
             then s\<lparr>ng_mod := ngram_reset (ng_mod s), ng_n_low := 0, ng_i_last := 0\<rparr> else s
           else s\<lparr>ng_n_low := 0\<rparr>
      else s)"

definition ngram_observe :: "bool \<Rightarrow> ngram_stage \<Rightarrow> ngram_stage" where
  "ngram_observe drafted s = (if drafted then s\<lparr>ng_not_asked := ng_not_asked s + 1\<rparr> else s)"

definition ngram_hard_reset :: "ngram_stage \<Rightarrow> ngram_stage" where
  "ngram_hard_reset s = s\<lparr>ng_mod := ngram_reset (ng_mod s), ng_i_last := 0, ng_n_draft_last := 0, ng_n_low := 0\<rparr>"

text \<open>A session of the stage, with the drafts it returns.\<close>

datatype ngram_op = NgBegin "int list" | NgDraft spec_params "int list" int | NgAccept "nat option" nat
  | NgObserve bool | NgErase

fun ngram_step :: "nat \<Rightarrow> int \<Rightarrow> ngram_op \<Rightarrow> ngram_stage \<Rightarrow> int list \<times> ngram_stage" where
  "ngram_step lag streak (NgBegin prompt) s = ([], ngram_begin prompt s)"
| "ngram_step lag streak (NgDraft p prompt id_last) s = ngram_draft lag p prompt id_last s"
| "ngram_step lag streak (NgAccept v n) s = ([], ngram_accept streak v n s)"
| "ngram_step lag streak (NgObserve d) s = ([], ngram_observe d s)"
| "ngram_step lag streak NgErase s = ([], ngram_hard_reset s)"

fun ngram_run :: "nat \<Rightarrow> int \<Rightarrow> ngram_op list \<Rightarrow> ngram_stage \<Rightarrow> int list list \<times> ngram_stage" where
  "ngram_run lag streak [] s = ([], s)"
| "ngram_run lag streak (x # xs) s =
     (let (d, s) = ngram_step lag streak x s; (ds, s) = ngram_run lag streak xs s in (d # ds, s))"

subsection \<open>The table holds what followed last\<close>

lemma ngram_dims [simp]:
  "nm_n (ngram_reset m) = nm_n m" "length (nm_entries (ngram_reset m)) = length (nm_entries m)"
  "nm_n (ngram_add ts m) = nm_n m" "length (nm_entries (ngram_add ts m)) = length (nm_entries m)"
  by (simp_all add: ngram_reset_def ngram_add_def Let_def)

lemma ngram_feed_dims [simp]:
  "nm_n (ngram_feed ts a b m) = nm_n m \<and> length (nm_entries (ngram_feed ts a b m)) = length (nm_entries m)"
proof -
  have "nm_n (fold (\<lambda>i. ngram_add (drop i ts)) xs m) = nm_n m
      \<and> length (nm_entries (fold (\<lambda>i. ngram_add (drop i ts)) xs m)) = length (nm_entries m)" for xs
    by (induction xs arbitrary: m) simp_all
  then show ?thesis by (simp add: ngram_feed_def)
qed

lemma ngram_idx_cong: "nm_n m = nm_n m' \<Longrightarrow> length (nm_entries m) = length (nm_entries m') \<Longrightarrow> ngram_idx m = ngram_idx m'"
  by (simp add: ngram_idx_def fun_eq_iff)

lemma ngram_add_idx [simp]: "ngram_idx (ngram_add ts m) = ngram_idx m" "ngram_idx (ngram_feed ts a b m) = ngram_idx m"
    "ngram_idx (ngram_reset m) = ngram_idx m"
  by (rule ngram_idx_cong; simp)+

lemma ngram_idx_less: "nm_entries m \<noteq> [] \<Longrightarrow> ngram_idx m ts < length (nm_entries m)"
  by (simp add: ngram_idx_def nat_less_iff)

lemma get_add:
  "nm_entries m \<noteq> [] \<Longrightarrow> ngram_get (ngram_add ts m) w = (if ngram_idx m ts = ngram_idx m w then ts ! nm_n m else ngram_get m w)"
  using ngram_idx_less[of m] by (simp add: ngram_get_def) (simp add: ngram_add_def Let_def nth_list_update)

lemma ngram_feed_Suc: "a \<le> b \<Longrightarrow> ngram_feed ts a (Suc b) m = ngram_add (drop b ts) (ngram_feed ts a b m)"
  by (simp add: ngram_feed_def)

lemma ngram_feed_feed: "a \<le> b \<Longrightarrow> b \<le> c \<Longrightarrow> ngram_feed ts b c (ngram_feed ts a b m) = ngram_feed ts a c m"
proof -
  assume "a \<le> b" "b \<le> c"
  then have "[a..<c] = [a..<b] @ [b..<c]" using upt_add_eq_append[of a b "c - b"] by simp
  then show ?thesis by (simp add: ngram_feed_def)
qed

text \<open>A feed only looks at the tokens before \<open>b + n\<close>.\<close>

lemma ngram_add_cong: "take (Suc (nm_n m)) ts = take (Suc (nm_n m)) us \<Longrightarrow> nm_n m < length ts \<Longrightarrow> nm_n m < length us \<Longrightarrow>
    ngram_add ts m = ngram_add us m"
proof -
  assume t: "take (Suc (nm_n m)) ts = take (Suc (nm_n m)) us" "nm_n m < length ts" "nm_n m < length us"
  then have "take (nm_n m) ts = take (nm_n m) us" "ts ! nm_n m = us ! nm_n m"
    by (simp_all add: take_Suc_conv_app_nth)
  then show ?thesis by (simp add: ngram_add_def ngram_idx_def Let_def)
qed

lemma ngram_feed_longer:
  "b + nm_n m \<le> length ts \<Longrightarrow> ngram_feed (ts @ us) a b m = ngram_feed ts a b m"
proof (cases "a \<le> b")
  case True
  then show "b + nm_n m \<le> length ts \<Longrightarrow> ?thesis"
  proof (induction b rule: dec_induct)
    case base
    then show ?case by (simp add: ngram_feed_def)
  next
    case (step b)
    have "ngram_add (drop b (ts @ us)) (ngram_feed ts a b m) = ngram_add (drop b ts) (ngram_feed ts a b m)"
      by (rule ngram_add_cong) (use step.prems in simp_all)
    then show ?case using step by (simp add: ngram_feed_Suc)
  qed
qed (simp add: ngram_feed_def)

lemma get_feed:
  assumes "nm_entries m \<noteq> []" "b + nm_n m \<le> length ts"
  shows "ngram_get (ngram_feed ts 0 b m) w =
    (case find (\<lambda>j. ngram_idx m (drop j ts) = ngram_idx m w) (rev [0..<b]) of
       Some j \<Rightarrow> ts ! (j + nm_n m) | None \<Rightarrow> ngram_get m w)"
  using assms(2)
proof (induction b)
  case 0
  then show ?case by (simp add: ngram_feed_def)
next
  case (Suc b)
  have "nm_entries (ngram_feed ts 0 b m) \<noteq> []" using assms(1) ngram_feed_dims[of ts 0 b m] by (metis length_greater_0_conv)
  then show ?case using Suc by (simp add: ngram_feed_Suc get_add)
qed

subsection \<open>The stage keeps the table up to date\<close>

text \<open>The n-grams of the context from \<open>a\<close> up to the index position were added last, in their order.\<close>

definition indexed_from :: "nat \<Rightarrow> ngram_mod \<Rightarrow> int list \<Rightarrow> ngram_stage \<Rightarrow> bool" where
  "indexed_from a m cur s \<longleftrightarrow> ng_mod s = ngram_feed cur a (ng_i_last s) m \<and> a \<le> ng_i_last s
     \<and> ng_i_last s \<le> length cur - nm_n m \<and> (ng_i_last s = 0 \<or> nm_n m \<le> length cur)"

definition indexed :: "nat \<Rightarrow> nat \<Rightarrow> int list \<Rightarrow> ngram_stage \<Rightarrow> bool" where
  "indexed n sz cur s \<longleftrightarrow> (\<exists>m. nm_n m = n \<and> length (nm_entries m) = sz \<and> indexed_from 0 m cur s)"

lemma ngram_feed_empty [simp]: "ngram_feed ts a a m = m"
  by (simp add: ngram_feed_def)

lemma indexed_zero: "ng_i_last s = 0 \<Longrightarrow> nm_n (ng_mod s) = n \<Longrightarrow> length (nm_entries (ng_mod s)) = sz \<Longrightarrow> indexed n sz cur s"
  by (auto simp: indexed_def indexed_from_def)

lemma indexed_dims: "indexed n sz cur s \<Longrightarrow> nm_n (ng_mod s) = n \<and> length (nm_entries (ng_mod s)) = sz"
  using ngram_feed_dims by (auto simp: indexed_def indexed_from_def)

lemma indexed_from_grows: "indexed_from a m cur s \<Longrightarrow> prefix cur prompt \<Longrightarrow> indexed_from a m prompt s"
proof -
  assume i: "indexed_from a m cur s" and "prefix cur prompt"
  then obtain us where us: "prompt = cur @ us" by (auto simp: prefix_def)
  have "ngram_feed (cur @ us) a (ng_i_last s) m = ngram_feed cur a (ng_i_last s) m"
    using i by (cases "ng_i_last s = 0") (auto intro!: ngram_feed_longer simp: indexed_from_def)
  then show ?thesis using i by (auto simp: indexed_from_def us)
qed

lemma ngram_update_indexed:
  assumes "indexed_from a m prompt s" "nm_n m \<le> length prompt" "0 < nm_n m"
  shows "indexed_from a m prompt (ngram_update 0 prompt s) \<and> ng_i_last (ngram_update 0 prompt s) = length prompt - nm_n m"
proof -
  have m: "ng_mod s = ngram_feed prompt a (ng_i_last s) m" "a \<le> ng_i_last s" "ng_i_last s \<le> length prompt - nm_n m"
    using assms(1) by (auto simp: indexed_from_def)
  have n: "nm_n (ng_mod s) = nm_n m" using ngram_feed_dims by (simp add: m(1))
  show ?thesis
  proof (cases "ng_i_last s < length prompt - nm_n m")
    case True
    then have "ngram_feed prompt (ng_i_last s) (length prompt - nm_n m) (ng_mod s) = ngram_feed prompt a (length prompt - nm_n m) m"
      using m(2) by (simp add: m(1) ngram_feed_feed)
    then have "ng_mod (ngram_update 0 prompt s) = ngram_feed prompt a (length prompt - nm_n m) m"
      "ng_i_last (ngram_update 0 prompt s) = length prompt - nm_n m"
      using True assms(2,3) n by (simp_all add: ngram_update_def Let_def)
    then show ?thesis using m True assms(2) by (simp add: indexed_from_def)
  next
    case False
    then have "ngram_update 0 prompt s = s" using m(3) n by (simp add: ngram_update_def Let_def)
    then show ?thesis using assms(1) m(3) False by simp
  qed
qed

lemma indexed_from_cong:
  "ng_mod s = ng_mod t \<Longrightarrow> ng_i_last s = ng_i_last t \<Longrightarrow> indexed_from a m cur s = indexed_from a m cur t"
  by (simp add: indexed_from_def)

lemma ngram_draft_indexed:
  assumes "indexed_from a m cur s" "prefix cur prompt" "0 < nm_n m"
  shows "indexed_from a m prompt (snd (ngram_draft 0 p prompt id_last s))
    \<and> (nm_n m \<le> length prompt \<longrightarrow> ng_i_last (snd (ngram_draft 0 p prompt id_last s)) = length prompt - nm_n m)"
proof -
  let ?s = "s\<lparr>ng_n_draft_last := 0\<rparr>" and ?r = "snd (ngram_draft 0 p prompt id_last s)"
  have i: "indexed_from a m prompt ?s" using indexed_from_grows[OF assms(1,2)] by (simp add: indexed_from_def)
  have n: "nm_n (ng_mod s) = nm_n m" using i ngram_feed_dims by (simp add: indexed_from_def)
  show ?thesis
  proof (cases "length prompt < nm_n m")
    case True
    then have "ng_mod ?r = ng_mod ?s" "ng_i_last ?r = ng_i_last ?s" using n by (simp_all add: ngram_draft_def)
    then show ?thesis using i True indexed_from_cong[of ?r ?s] by simp
  next
    case False
    have "ng_mod ?r = ng_mod (ngram_update 0 prompt ?s)" "ng_i_last ?r = ng_i_last (ngram_update 0 prompt ?s)"
      using False n by (simp_all add: ngram_draft_def Let_def split: prod.split)
    then show ?thesis using ngram_update_indexed[OF i _ assms(3)] False indexed_from_cong[of ?r "ngram_update 0 prompt ?s"] by simp
  qed
qed

text \<open>A beginning that finds the table crowded empties it, with the index position where it was.\<close>

fun calm :: "nat \<Rightarrow> int \<Rightarrow> ngram_op list \<Rightarrow> ngram_stage \<Rightarrow> bool" where
  "calm lag streak [] s \<longleftrightarrow> True"
| "calm lag streak (x # xs) s \<longleftrightarrow> calm lag streak xs (snd (ngram_step lag streak x s))
     \<and> (case x of NgBegin prompt \<Rightarrow> nm_n (ng_mod s) \<le> length prompt \<longrightarrow>
           \<not> crowded (ngram_feed prompt 0 (length prompt - nm_n (ng_mod s)) (ng_mod s)) | _ \<Rightarrow> True)"

fun ng_growing :: "int list \<Rightarrow> ngram_op list \<Rightarrow> bool" where
  "ng_growing cur [] \<longleftrightarrow> True"
| "ng_growing cur (NgBegin prompt # xs) \<longleftrightarrow> ng_growing prompt xs"
| "ng_growing cur (NgDraft _ prompt _ # xs) \<longleftrightarrow> prefix cur prompt \<and> ng_growing prompt xs"
| "ng_growing cur (NgErase # xs) \<longleftrightarrow> ng_growing [] xs"
| "ng_growing cur (_ # xs) \<longleftrightarrow> ng_growing cur xs"

fun ng_context :: "int list \<Rightarrow> ngram_op list \<Rightarrow> int list" where
  "ng_context cur [] = cur"
| "ng_context cur (NgBegin prompt # xs) = ng_context prompt xs"
| "ng_context cur (NgDraft _ prompt _ # xs) = ng_context prompt xs"
| "ng_context cur (NgErase # xs) = ng_context [] xs"
| "ng_context cur (_ # xs) = ng_context cur xs"

lemma ngram_begin_indexed:
  assumes "nm_n (ng_mod s) = n" "length (nm_entries (ng_mod s)) = sz"
    and "n \<le> length prompt \<longrightarrow> \<not> crowded (ngram_feed prompt 0 (length prompt - n) (ng_mod s))"
  shows "indexed n sz prompt (ngram_begin prompt s)"
  using assms by (auto simp: indexed_def indexed_from_def ngram_begin_def Let_def intro!: exI[of _ "ng_mod s"])

lemma ngram_accept_indexed: "indexed n sz cur s \<Longrightarrow> indexed n sz cur (ngram_accept streak v k s)"
proof -
  assume i: "indexed n sz cur s"
  have "ng_mod (ngram_accept streak v k s) = ng_mod s \<and> ng_i_last (ngram_accept streak v k s) = ng_i_last s
      \<or> ng_mod (ngram_accept streak v k s) = ngram_reset (ng_mod s) \<and> ng_i_last (ngram_accept streak v k s) = 0"
    by (simp add: ngram_accept_def Let_def)
  then show ?thesis
  proof (elim disjE conjE)
    assume 1: "ng_mod (ngram_accept streak v k s) = ng_mod s" "ng_i_last (ngram_accept streak v k s) = ng_i_last s"
    then show ?thesis using i 1 by (simp add: indexed_def indexed_from_def)
  next
    assume 2: "ng_mod (ngram_accept streak v k s) = ngram_reset (ng_mod s)" "ng_i_last (ngram_accept streak v k s) = 0"
    then show ?thesis using indexed_dims[OF i] 2 by (intro indexed_zero) simp_all
  qed
qed

lemma ngram_run_indexed:
  assumes "0 < n"
  shows "indexed n sz cur s \<Longrightarrow> ng_growing cur xs \<Longrightarrow> calm 0 streak xs s \<Longrightarrow>
    indexed n sz (ng_context cur xs) (snd (ngram_run 0 streak xs s))"
proof (induction xs arbitrary: cur s)
  case (Cons x xs)
  note dims = indexed_dims[OF Cons.prems(1)]
  show ?case
  proof (cases x)
    case (NgBegin prompt)
    then have "indexed n sz prompt (ngram_begin prompt s)"
      using dims Cons.prems(3) by (intro ngram_begin_indexed) simp_all
    then show ?thesis using Cons.IH[of prompt "ngram_begin prompt s"] Cons.prems NgBegin by (simp add: case_prod_unfold Let_def)
  next
    case (NgDraft p prompt t)
    then have "indexed n sz prompt (snd (ngram_draft 0 p prompt t s))"
      using ngram_draft_indexed[of 0 _ cur s prompt] assms Cons.prems(1,2) by (auto simp: indexed_def)
    then show ?thesis using Cons.IH[of prompt "snd (ngram_draft 0 p prompt t s)"] Cons.prems NgDraft by (simp add: case_prod_unfold Let_def)
  next
    case (NgAccept v k)
    then show ?thesis using Cons.IH[of cur "ngram_accept streak v k s"] ngram_accept_indexed[OF Cons.prems(1)] Cons.prems by (simp add: case_prod_unfold Let_def)
  next
    case (NgObserve d)
    have "indexed n sz cur (ngram_observe d s)" using Cons.prems(1) by (simp add: indexed_def indexed_from_def ngram_observe_def)
    then show ?thesis using Cons.IH[of cur "ngram_observe d s"] Cons.prems NgObserve by (simp add: case_prod_unfold Let_def)
  next
    case NgErase
    have "indexed n sz [] (ngram_hard_reset s)" using dims by (intro indexed_zero) (simp_all add: ngram_hard_reset_def)
    then show ?thesis using Cons.IH[of "[]" "ngram_hard_reset s"] Cons.prems NgErase by (simp add: case_prod_unfold Let_def)
  qed
qed simp

text \<open>A verdict that completes a streak of low acceptance empties the table and moves the index position back
  to the start; the part of a session without one, without a beginning and without an erasure keeps it.\<close>

definition wipes :: "int \<Rightarrow> nat option \<Rightarrow> nat \<Rightarrow> ngram_stage \<Rightarrow> bool" where
  "wipes streak v k s \<longleftrightarrow> (let tested = spec_n_tested (ng_n_draft_last s) v in
     tested > 0 \<and> rat_of_nat k / rat_of_nat tested < 1/2 \<and> streak > 0 \<and> ng_n_low s + 1 \<ge> streak)"

fun within_generation :: "ngram_op \<Rightarrow> bool" where
  "within_generation (NgBegin _) \<longleftrightarrow> False"
| "within_generation NgErase \<longleftrightarrow> False"
| "within_generation _ \<longleftrightarrow> True"

fun keeps_index :: "nat \<Rightarrow> int \<Rightarrow> ngram_op list \<Rightarrow> ngram_stage \<Rightarrow> bool" where
  "keeps_index lag streak [] s \<longleftrightarrow> True"
| "keeps_index lag streak (x # xs) s \<longleftrightarrow> keeps_index lag streak xs (snd (ngram_step lag streak x s))
     \<and> within_generation x \<and> (case x of NgAccept v k \<Rightarrow> \<not> wipes streak v k s | _ \<Rightarrow> True)"

lemma accept_wipes:
  "ng_mod (ngram_accept streak v k s) = (if wipes streak v k s then ngram_reset (ng_mod s) else ng_mod s)"
  "ng_i_last (ngram_accept streak v k s) = (if wipes streak v k s then 0 else ng_i_last s)"
  by (simp_all add: ngram_accept_def wipes_def Let_def)

lemma keeps_indexed_from:
  "indexed_from a m cur s \<Longrightarrow> 0 < nm_n m \<Longrightarrow> ng_growing cur xs \<Longrightarrow> keeps_index 0 streak xs s \<Longrightarrow>
     indexed_from a m (ng_context cur xs) (snd (ngram_run 0 streak xs s))"
proof (induction xs arbitrary: cur s)
  case (Cons x xs)
  show ?case
  proof (cases x)
    case (NgDraft p prompt t)
    then have "indexed_from a m prompt (snd (ngram_draft 0 p prompt t s))"
      using ngram_draft_indexed[of a m cur s prompt] Cons.prems(1-3) by simp
    then show ?thesis using Cons.IH[of prompt "snd (ngram_draft 0 p prompt t s)"] Cons.prems NgDraft by (simp add: case_prod_unfold Let_def)
  next
    case (NgAccept v k)
    then have "indexed_from a m cur (ngram_accept streak v k s)"
      using Cons.prems(1,4) by (simp add: indexed_from_def accept_wipes)
    then show ?thesis using Cons.IH[of cur "ngram_accept streak v k s"] Cons.prems NgAccept by (simp add: case_prod_unfold Let_def)
  next
    case (NgObserve d)
    have "indexed_from a m cur (ngram_observe d s)" using Cons.prems(1) by (simp add: indexed_from_def ngram_observe_def)
    then show ?thesis using Cons.IH[of cur "ngram_observe d s"] Cons.prems NgObserve by (simp add: case_prod_unfold Let_def)
  qed (use Cons.prems in simp_all)
qed simp

lemma growing_longer: "ng_growing cur xs \<Longrightarrow> \<forall>x \<in> set xs. within_generation x \<Longrightarrow> length cur \<le> length (ng_context cur xs)"
proof (induction cur xs rule: ng_growing.induct)
  case (3 cur p prompt t xs)
  then show ?case using prefix_length_le[of cur prompt] by simp
qed simp_all

lemma keeps_within: "keeps_index lag streak xs s \<Longrightarrow> \<forall>x \<in> set xs. within_generation x"
  by (induction xs arbitrary: s) (simp, metis keeps_index.simps(2) set_ConsD)

text \<open>After such a verdict the next draft indexes the whole context again.\<close>

lemma wiped_indexes_again:
  assumes "wipes streak v k s" "0 < nm_n (ng_mod s)" "nm_n (ng_mod s) \<le> length prompt"
  shows "ng_mod (snd (ngram_draft 0 p prompt t (ngram_accept streak v k s)))
    = ngram_feed prompt 0 (length prompt - nm_n (ng_mod s)) (ngram_reset (ng_mod s))"
proof -
  have "indexed_from 0 (ngram_reset (ng_mod s)) [] (ngram_accept streak v k s)"
    using assms(1) by (simp add: indexed_from_def accept_wipes)
  from ngram_draft_indexed[OF this, of prompt p t] show ?thesis using assms(2,3) by (simp add: indexed_from_def)
qed

subsection \<open>What the lookups return\<close>

lemma ngram_idx_window: "take (nm_n m) u = take (nm_n m) v \<Longrightarrow> ngram_get m u = ngram_get m v"
  by (simp add: ngram_get_def ngram_idx_def)

lemma ngram_loop_tokens:
  assumes "length w = nm_n m"
  shows "ngram_loop m w k ds0 = (ds, missed) \<Longrightarrow>
    prefix ds0 ds \<and> length ds \<le> length ds0 + k \<and>
    (\<forall>i. length ds0 \<le> i \<and> i < length ds \<longrightarrow> ds ! i = ngram_get m (drop i (w @ ds)) \<and> ds ! i \<noteq> -1) \<and>
    (if missed then ngram_get m (drop (length ds) (w @ ds)) = -1 else length ds = length ds0 + k)"
proof (induction k arbitrary: ds0)
  case (Suc k)
  let ?t = "ngram_get m (drop (length ds0) (w @ ds0))"
  show ?case
  proof (cases "?t = -1")
    case True
    then show ?thesis using Suc.prems by (simp add: Let_def)
  next
    case False
    then have rest: "ngram_loop m w k (ds0 @ [?t]) = (ds, missed)" using Suc.prems by (simp add: Let_def)
    note IH = Suc.IH[OF rest]
    obtain es where es: "ds = ds0 @ ?t # es" using IH by (auto simp: prefix_def)
    have "ngram_get m (drop (length ds0) (w @ ds0)) = ngram_get m (drop (length ds0) (w @ ds))"
      using assms by (intro ngram_idx_window) (simp add: es)
    then have "ds ! length ds0 = ngram_get m (drop (length ds0) (w @ ds)) \<and> ds ! length ds0 \<noteq> -1"
      using False by (simp add: es)
    moreover have "if missed then ngram_get m (drop (length ds) (w @ ds)) = -1 else length ds = length ds0 + Suc k"
      using IH by (simp split: if_splits)
    ultimately show ?thesis using IH es by (auto simp: le_eq_less_or_eq[of "length ds0"] Suc_le_eq)
  qed
qed simp

text \<open>The token that follows the last place of the context with the hash of \<open>w\<close>.\<close>

definition last_follow :: "ngram_mod \<Rightarrow> int list \<Rightarrow> int list \<Rightarrow> int option" where
  "last_follow m ts w = map_option (\<lambda>j. ts ! (j + nm_n m))
     (find (\<lambda>j. ngram_idx m (drop j ts) = ngram_idx m w) (rev [0..<length ts - nm_n m]))"

lemma length_window: "0 < n \<Longrightarrow> n \<le> length prompt \<Longrightarrow> length (ngram_window n prompt t) = n"
  by (simp add: ngram_window_def)

lemma ngram_draft_table:
  assumes "ngram_draft lag p prompt t s = (ds, s')" "nm_n (ng_mod s) \<le> length prompt" "0 < nm_n (ng_mod s)"
  shows "int (length ds) \<le> max 0 (sp_n_max p) \<and>
    (\<forall>i<length ds. ds ! i = ngram_get (ng_mod s') (drop i (ngram_window (nm_n (ng_mod s)) prompt t @ ds)) \<and> ds ! i \<noteq> -1) \<and>
    (sp_n_min p \<le> 0 \<and> int (length ds) < sp_n_max p \<longrightarrow>
       ngram_get (ng_mod s') (drop (length ds) (ngram_window (nm_n (ng_mod s)) prompt t @ ds)) = -1)"
proof -
  let ?u = "ngram_update lag prompt (s\<lparr>ng_n_draft_last := 0\<rparr>)" and ?w = "ngram_window (nm_n (ng_mod s)) prompt t"
  obtain es missed where l: "ngram_loop (ng_mod ?u) ?w (nat (sp_n_max p)) [] = (es, missed)"
    by (cases "ngram_loop (ng_mod ?u) ?w (nat (sp_n_max p)) []")
  have n: "nm_n (ng_mod ?u) = nm_n (ng_mod s)" using ngram_feed_dims by (simp add: ngram_update_def Let_def)
  have es: "length es \<le> nat (sp_n_max p)" "\<forall>i<length es. es ! i = ngram_get (ng_mod ?u) (drop i (?w @ es)) \<and> es ! i \<noteq> -1"
    "if missed then ngram_get (ng_mod ?u) (drop (length es) (?w @ es)) = -1 else length es = nat (sp_n_max p)"
    using ngram_loop_tokens[OF _ l] length_window[OF assms(3,2)] n by auto
  have "ng_mod s' = ng_mod ?u" "ds = es \<or> ds = [] \<and> missed \<and> int (length es) < sp_n_min p"
    using assms(1,2) l by (auto simp: ngram_draft_def Let_def split: if_splits)
  then show ?thesis using es by (auto split: if_splits)
qed

lemma indexed_follow:
  assumes "indexed_from 0 m prompt s" "ng_i_last s = length prompt - nm_n m" "nm_n m \<le> length prompt" "nm_entries m \<noteq> []"
  shows "ngram_get (ng_mod s) w = (case last_follow (ng_mod s) prompt w of Some t \<Rightarrow> t | None \<Rightarrow> ngram_get m w)"
proof -
  have s: "ng_mod s = ngram_feed prompt 0 (length prompt - nm_n m) m" using assms(1,2) by (simp add: indexed_from_def)
  then have d: "nm_n (ng_mod s) = nm_n m" "ngram_idx (ng_mod s) = ngram_idx m" using ngram_feed_dims by simp_all
  show ?thesis unfolding last_follow_def d
    using get_feed[OF assms(4), of "length prompt - nm_n m" prompt w] assms(3) s by (simp split: option.splits)
qed

subsection \<open>An erased table\<close>

text \<open>Stages that differ in the statistics only draft the same.\<close>

definition same_table :: "ngram_stage \<Rightarrow> ngram_stage \<Rightarrow> bool" where
  "same_table s t \<longleftrightarrow> ng_mod s = ng_mod t \<and> ng_i_last s = ng_i_last t \<and> ng_n_draft_last s = ng_n_draft_last t
     \<and> ng_n_low s = ng_n_low t"

lemma same_update: "same_table s t \<Longrightarrow> same_table (ngram_update lag prompt s) (ngram_update lag prompt t)"
  by (simp add: same_table_def ngram_update_def Let_def)

lemma same_draft:
  assumes "same_table s t"
  shows "fst (ngram_draft lag p prompt u s) = fst (ngram_draft lag p prompt u t)
    \<and> same_table (snd (ngram_draft lag p prompt u s)) (snd (ngram_draft lag p prompt u t))"
proof -
  have "same_table (ngram_update lag prompt (s\<lparr>ng_n_draft_last := 0\<rparr>)) (ngram_update lag prompt (t\<lparr>ng_n_draft_last := 0\<rparr>))"
    using assms by (intro same_update) (simp add: same_table_def)
  then show ?thesis using assms
    by (auto simp: ngram_draft_def Let_def same_table_def split: prod.splits)
qed

lemma same_step:
  assumes "same_table s t"
  shows "fst (ngram_step lag streak x s) = fst (ngram_step lag streak x t)
    \<and> same_table (snd (ngram_step lag streak x s)) (snd (ngram_step lag streak x t))"
proof (cases x)
  case (NgDraft p prompt u)
  then show ?thesis using same_draft[OF assms] by simp
qed (use assms in \<open>simp_all add: same_table_def ngram_begin_def ngram_accept_def ngram_observe_def ngram_hard_reset_def Let_def\<close>)

lemma same_run: "same_table s t \<Longrightarrow> fst (ngram_run lag streak xs s) = fst (ngram_run lag streak xs t)"
proof (induction xs arbitrary: s t)
  case (Cons x xs)
  then show ?case using same_step[OF Cons.prems, of lag streak x] by (simp add: case_prod_unfold Let_def)
qed simp

lemma same_erased:
  "nm_n (ng_mod s) = nm_n (ng_mod t) \<Longrightarrow> length (nm_entries (ng_mod s)) = length (nm_entries (ng_mod t)) \<Longrightarrow>
     same_table (ngram_hard_reset s) (ngram_hard_reset t)"
  by (simp add: same_table_def ngram_hard_reset_def ngram_reset_def)

end
