(* ===== verification/SpecConfig.thy ===== *)
theory SpecConfig
  imports Prelude Complex_Main
begin

section \<open>The options of the speculation stages (common/common.cpp)\<close>

text \<open>
  A stage is given on the command line as \<open>type:key=value,...\<close>; several stages form a chain, put in order
  and validated before it runs.  An exception is a value.  A \<open>uint16_t\<close> field is its value modulo
  \<open>2 ^ 16\<close>.  \<open>stof\<close> and the environment levers are parameters.
\<close>

subsection \<open>Stage types\<close>

datatype spec_type = SpecNone | SpecDraft | SpecMtp | SpecEagle3 | SpecNgramSimple | SpecNgramMapK | SpecNgramMapK4v
  | SpecNgramMod | SpecNgramCache | SpecSuffix

fun type_to_str :: "spec_type \<Rightarrow> string" where
  "type_to_str SpecNone = ''none''"
| "type_to_str SpecDraft = ''draft''"
| "type_to_str SpecMtp = ''mtp''"
| "type_to_str SpecEagle3 = ''eagle3''"
| "type_to_str SpecNgramSimple = ''ngram_simple''"
| "type_to_str SpecNgramMapK = ''ngram_map_k''"
| "type_to_str SpecNgramMapK4v = ''ngram_map_k4v''"
| "type_to_str SpecNgramMod = ''ngram_mod''"
| "type_to_str SpecNgramCache = ''ngram_cache''"
| "type_to_str SpecSuffix = ''suffix''"

definition dash_to_underscore :: "string \<Rightarrow> string" where
  "dash_to_underscore s = map (\<lambda>c. if c = CHR ''-'' then CHR ''_'' else c) s"

definition type_names :: "(string \<times> spec_type) list" where
  "type_names = [(''none'', SpecNone), (''draft'', SpecDraft), (''mtp'', SpecMtp), (''eagle3'', SpecEagle3),
     (''ngram_simple'', SpecNgramSimple), (''ngram_map_k'', SpecNgramMapK), (''ngram_map_k4v'', SpecNgramMapK4v),
     (''ngram_mod'', SpecNgramMod), (''ngram_cache'', SpecNgramCache), (''suffix'', SpecSuffix),
     (''ngram'', SpecNgramMod), (''prompt_lookup'', SpecNgramMod)]"

definition type_from_name :: "string \<Rightarrow> spec_type option" where
  "type_from_name name = map_of type_names (dash_to_underscore name)"

definition name_is_alias :: "string \<Rightarrow> bool" where
  "name_is_alias name \<longleftrightarrow> dash_to_underscore name \<in> {''ngram'', ''prompt_lookup''}"

fun is_self_spec :: "spec_type \<Rightarrow> bool" where
  "is_self_spec SpecNgramSimple \<longleftrightarrow> True"
| "is_self_spec SpecNgramMapK \<longleftrightarrow> True"
| "is_self_spec SpecNgramMapK4v \<longleftrightarrow> True"
| "is_self_spec SpecNgramMod \<longleftrightarrow> True"
| "is_self_spec SpecNgramCache \<longleftrightarrow> True"
| "is_self_spec SpecSuffix \<longleftrightarrow> True"
| "is_self_spec _ \<longleftrightarrow> False"

subsection \<open>Stages and parameters\<close>

record stage_params =
  tp_type :: spec_type
  tp_n_max :: int
  tp_n_min :: int
  tp_p_min :: rat
  tp_ngram_size_n :: int
  tp_ngram_size_m :: int
  tp_ngram_min_hits :: int
  tp_min_match_len :: int
  tp_max_depth :: int
  tp_corpus :: string

definition default_stage :: "spec_type \<Rightarrow> stage_params" where
  "default_stage t = \<lparr>tp_type = t, tp_n_max = -1, tp_n_min = -1, tp_p_min = -1, tp_ngram_size_n = 0, tp_ngram_size_m = 0,
     tp_ngram_min_hits = 0, tp_min_match_len = -1, tp_max_depth = -1, tp_corpus = ''''\<rparr>"

record chain_params =
  cp_type :: spec_type
  cp_stages :: "stage_params list"
  cp_n_max :: int
  cp_n_min :: int
  cp_p_min :: rat
  cp_ngram_size_n :: int
  cp_ngram_size_m :: int
  cp_ngram_min_hits :: int
  cp_has_ngram_mod :: bool
  cp_min_match_len :: int
  cp_max_depth :: int
  cp_corpus :: string
  cp_has_dft :: bool
  cp_auto_front :: bool

definition effective_n_max :: "chain_params \<Rightarrow> stage_params \<Rightarrow> int" where
  "effective_n_max cp st = (if tp_n_max st \<ge> 0 then tp_n_max st else cp_n_max cp)"

definition effective_n_min :: "chain_params \<Rightarrow> stage_params \<Rightarrow> int" where
  "effective_n_min cp st = (if tp_n_min st \<ge> 0 then tp_n_min st else cp_n_min cp)"

definition resolved_stages :: "chain_params \<Rightarrow> stage_params list" where
  "resolved_stages cp =
     (if cp_stages cp \<noteq> [] then filter (\<lambda>st. tp_type st \<noteq> SpecNone) (cp_stages cp)
      else if cp_type cp = SpecNone then [] else [default_stage (cp_type cp)])"

definition with_stage_overrides :: "chain_params \<Rightarrow> stage_params \<Rightarrow> chain_params" where
  "with_stage_overrides cp st =
     (let n_max = max (effective_n_max cp st) 0 in
      cp\<lparr>cp_type := tp_type st, cp_stages := [], cp_n_max := n_max,
         cp_n_min := max 0 (min (effective_n_min cp st) n_max),
         cp_p_min := (if tp_p_min st \<ge> 0 then tp_p_min st else cp_p_min cp),
         cp_ngram_size_n := (if tp_ngram_size_n st > 0 then tp_ngram_size_n st else cp_ngram_size_n cp),
         cp_has_ngram_mod := (cp_has_ngram_mod cp \<and> \<not> tp_ngram_size_n st > 0),
         cp_ngram_size_m := (if tp_ngram_size_m st > 0 then tp_ngram_size_m st else cp_ngram_size_m cp),
         cp_ngram_min_hits := (if tp_ngram_min_hits st > 0 then tp_ngram_min_hits st else cp_ngram_min_hits cp),
         cp_min_match_len := (if tp_min_match_len st \<ge> 0 then tp_min_match_len st else cp_min_match_len cp),
         cp_max_depth := (if tp_max_depth st \<ge> 0 then tp_max_depth st else cp_max_depth cp),
         cp_corpus := (if tp_corpus st \<noteq> '''' then tp_corpus st else cp_corpus cp)\<rparr>)"

definition max_stage_n_max :: "chain_params \<Rightarrow> int" where
  "max_stage_n_max cp =
     (let rs = resolved_stages cp in
      if rs = [] then max (cp_n_max cp) 0 else max (fold (\<lambda>st k. max k (effective_n_max cp st)) rs 0) 0)"

definition int_max :: int where
  "int_max = 2147483647"

definition min_usable_stage_n_min :: "chain_params \<Rightarrow> int" where
  "min_usable_stage_n_min cp =
     (let rs = resolved_stages cp in
      if rs = [] then max 0 (min (cp_n_min cp) (cp_n_max cp))
      else let k = fold (\<lambda>st k. min k (max 0 (min (effective_n_min cp st) (effective_n_max cp st)))) rs int_max
           in if k = int_max then 0 else k)"

subsection \<open>The order and the check of a chain\<close>

definition canonicalize_stage_order :: "bool \<Rightarrow> chain_params \<Rightarrow> bool \<times> chain_params" where
  "canonicalize_stage_order lever_off cp =
     (if lever_off \<or> length (cp_stages cp) < 2 then (False, cp)
      else let ordered = filter (\<lambda>st. is_self_spec (tp_type st)) (cp_stages cp) @ filter (\<lambda>st. \<not> is_self_spec (tp_type st)) (cp_stages cp);
               changed = (map tp_type ordered \<noteq> map tp_type (cp_stages cp))
           in if changed then (True, cp\<lparr>cp_stages := ordered, cp_type := tp_type (hd ordered)\<rparr>) else (False, cp))"

definition finalize_stages :: "bool \<Rightarrow> bool \<Rightarrow> chain_params \<Rightarrow> chain_params" where
  "finalize_stages lever_off has_mtp cp =
     (if cp_stages cp \<noteq> []
      then let cp = snd (canonicalize_stage_order lever_off cp); resolved = resolved_stages cp;
               cp = (if length resolved \<noteq> length (cp_stages cp) then cp\<lparr>cp_stages := resolved\<rparr> else cp)
           in cp\<lparr>cp_type := (case resolved of [] \<Rightarrow> SpecNone | st # _ \<Rightarrow> tp_type st)\<rparr>
      else let cp = (if cp_type cp \<noteq> SpecNone then cp\<lparr>cp_stages := [default_stage (cp_type cp)]\<rparr>
                     else if has_mtp then cp\<lparr>cp_stages := [default_stage SpecMtp]\<rparr> else cp)
           in cp\<lparr>cp_type := (case cp_stages cp of [] \<Rightarrow> SpecNone | st # _ \<Rightarrow> tp_type st)\<rparr>)"

text \<open>The snapshot planes a rollback needs.\<close>

definition need_n_rs_seq :: "chain_params \<Rightarrow> int" where
  "need_n_rs_seq cp =
     (let depth = fold (\<lambda>st k. if tp_type st = SpecMtp then max k (if tp_n_max st > 0 then tp_n_max st else cp_n_max cp) else k) (cp_stages cp) 0;
          depth = (if depth = 0 \<and> cp_type cp = SpecMtp then cp_n_max cp else depth)
      in min (max depth 0) 8)"

text \<open>A table put in front of the head by the automatic rule is dropped again when it drafts no deeper.\<close>

definition drop_shallow :: "bool \<Rightarrow> chain_params \<Rightarrow> bool \<times> chain_params" where
  "drop_shallow keep cp =
     (if \<not> cp_auto_front cp then (False, cp)
      else let cp = cp\<lparr>cp_auto_front := False\<rparr> in
        if keep then (False, cp)
        else case cp_stages cp of
          [a, b] \<Rightarrow>
            (if tp_type b \<noteq> SpecMtp \<or> tp_type a = SpecMtp \<or> tp_type a = SpecDraft then (False, cp)
             else if effective_n_max cp a > effective_n_max cp b then (False, cp)
             else let cp = cp\<lparr>cp_stages := [b]\<rparr> in
               (True, cp\<lparr>cp_type := (case resolved_stages cp of [] \<Rightarrow> SpecNone | st # _ \<Rightarrow> tp_type st)\<rparr>))
        | _ \<Rightarrow> (False, cp))"

datatype chain_error = TooManyStages | NoneCombined | DuplicateStage spec_type | MinAboveMax | DraftWithoutModel
  | ModelStageFirst | BadSecondStage

text \<open>The loop over the stages, with the types seen so far.\<close>

fun check_stages :: "chain_params \<Rightarrow> nat \<Rightarrow> spec_type list \<Rightarrow> stage_params list \<Rightarrow> chain_error option" where
  "check_stages cp n seen [] = None"
| "check_stages cp n seen (st # sts) =
     (if tp_type st = SpecNone \<and> n > 1 then Some NoneCombined
      else if tp_type st \<in> set seen then Some (DuplicateStage (tp_type st))
      else let p = with_stage_overrides cp st in
        if cp_n_min p > cp_n_max p then Some MinAboveMax
        else if tp_type st = SpecDraft \<and> \<not> cp_has_dft cp then Some DraftWithoutModel
        else check_stages cp n (tp_type st # seen) sts)"

definition validate_chain :: "chain_params \<Rightarrow> chain_error option" where
  "validate_chain cp =
     (let rs = resolved_stages cp in
      if rs = [] then None
      else if length rs > 2 then Some TooManyStages
      else case check_stages cp (length rs) [] rs of
        Some e \<Rightarrow> Some e
      | None \<Rightarrow>
          (case rs of
             [a, b] \<Rightarrow> if \<not> is_self_spec (tp_type a) then Some ModelStageFirst
                       else if tp_type b \<noteq> SpecMtp \<and> tp_type b \<noteq> SpecDraft then Some BadSecondStage else None
           | _ \<Rightarrow> None))"

subsection \<open>Reading a stage\<close>

datatype stage_error = UnknownType string | BadOption string | UnterminatedQuote | NotANumber string | OutOfRange string
  | UnknownKey string

definition is_space :: "char \<Rightarrow> bool" where
  "is_space c \<longleftrightarrow> c \<in> {CHR '' '', CHR 0x09, CHR 0x0A, CHR 0x0B, CHR 0x0C, CHR 0x0D}"

definition digit_value :: "char \<Rightarrow> int option" where
  "digit_value c = (let n = int (of_char c) in if 48 \<le> n \<and> n \<le> 57 then Some (n - 48) else None)"

text \<open>\<open>std::stoi\<close>: spaces, a sign, digits, and anything after them; out of range is an exception too.\<close>

definition stoi :: "string \<Rightarrow> int option" where
  "stoi s =
     (let s = dropWhile is_space s;
          (neg, s) = (case s of c # cs \<Rightarrow> if c = CHR ''-'' then (True, cs) else if c = CHR ''+'' then (False, cs) else (False, s)
                      | [] \<Rightarrow> (False, []));
          ds = map (the \<circ> digit_value) (takeWhile (\<lambda>c. digit_value c \<noteq> None) s);
          v = foldl (\<lambda>a d. a * 10 + d) 0 ds;
          v = (if neg then - v else v)
      in if ds = [] \<or> v < - int_max - 1 \<or> v > int_max then None else Some v)"

definition normalize_key :: "string \<Rightarrow> string" where
  "normalize_key key = dash_to_underscore (dropWhile (\<lambda>c. c = CHR ''-'') key)"

definition set_int :: "(int \<Rightarrow> stage_params) \<Rightarrow> (int \<Rightarrow> int) \<Rightarrow> (int \<Rightarrow> bool) \<Rightarrow> string \<Rightarrow> string \<Rightarrow> stage_error + stage_params" where
  "set_int upd conv ok key v =
     (case stoi v of None \<Rightarrow> Inl (NotANumber v)
      | Some n \<Rightarrow> if ok (conv n) then Inr (upd (conv n)) else Inl (OutOfRange key))"

definition as_u16 :: "int \<Rightarrow> int" where
  "as_u16 n = n mod 65536"

definition apply_kv :: "(string \<Rightarrow> rat option) \<Rightarrow> stage_params \<Rightarrow> string \<Rightarrow> string \<Rightarrow> stage_error + stage_params" where
  "apply_kv stof st key_raw v =
     (let key = normalize_key key_raw in
      if key = ''n_max'' then set_int (\<lambda>n. st\<lparr>tp_n_max := n\<rparr>) id (\<lambda>n. n \<ge> 0) key v
      else if key = ''n_min'' then set_int (\<lambda>n. st\<lparr>tp_n_min := n\<rparr>) id (\<lambda>n. n \<ge> 0) key v
      else if key = ''p_min'' then
        (case stof v of None \<Rightarrow> Inl (NotANumber v)
         | Some p \<Rightarrow> if p < 0 then Inl (OutOfRange key) else Inr (st\<lparr>tp_p_min := p\<rparr>))
      else if key = ''ngram_size_n'' then set_int (\<lambda>n. st\<lparr>tp_ngram_size_n := n\<rparr>) as_u16 (\<lambda>n. 1 \<le> n \<and> n \<le> 1024) key v
      else if key = ''ngram_size_m'' then set_int (\<lambda>n. st\<lparr>tp_ngram_size_m := n\<rparr>) as_u16 (\<lambda>n. 1 \<le> n \<and> n \<le> 1024) key v
      else if key = ''ngram_min_hits'' then set_int (\<lambda>n. st\<lparr>tp_ngram_min_hits := n\<rparr>) as_u16 (\<lambda>n. n \<ge> 1) key v
      else if key = ''suffix_min_match_len'' then set_int (\<lambda>n. st\<lparr>tp_min_match_len := n\<rparr>) id (\<lambda>n. n \<ge> 1) key v
      else if key = ''suffix_max_depth'' then set_int (\<lambda>n. st\<lparr>tp_max_depth := n\<rparr>) id (\<lambda>n. n \<ge> 1) key v
      else if key = ''suffix_corpus'' then
        (if v = '''' then Inl (OutOfRange key) else Inr (st\<lparr>tp_corpus := v\<rparr>))
      else Inl (UnknownKey key_raw))"

abbreviation "backslash \<equiv> CHR 0x5C"
abbreviation "squote \<equiv> CHR 0x27"
abbreviation "dquote \<equiv> CHR 0x22"

text \<open>The split at the commas outside quotes: the text so far, the open quote and whether a backslash stands
  before the next character.\<close>

fun split_kvs :: "string \<Rightarrow> string \<Rightarrow> char option \<Rightarrow> bool \<Rightarrow> stage_error + string list" where
  "split_kvs [] current quote escaped = (if quote \<noteq> None then Inl UnterminatedQuote else Inr [current])"
| "split_kvs (ch # rest) current quote escaped =
     (if escaped then split_kvs rest (current @ [ch]) quote False
      else if ch = backslash then split_kvs rest (current @ [ch]) quote True
      else if quote \<noteq> None then split_kvs rest (current @ [ch]) (if quote = Some ch then None else quote) False
      else if (ch = squote \<or> ch = dquote) \<and> current \<noteq> [] \<and> last current = CHR ''='' then split_kvs rest (current @ [ch]) (Some ch) False
      else if ch = CHR '','' then map_sum id (\<lambda>kvs. current # kvs) (split_kvs rest [] None False)
      else split_kvs rest (current @ [ch]) None False)"

fun unescape :: "string \<Rightarrow> string" where
  "unescape (c # n # cs) =
     (if c = backslash \<and> (n = backslash \<or> n = CHR '','' \<or> n = squote \<or> n = dquote) then n # unescape cs else c # unescape (n # cs))"
| "unescape [c] = [c]"
| "unescape [] = []"

definition unescape_value :: "string \<Rightarrow> string" where
  "unescape_value raw =
     unescape (if length raw \<ge> 2 \<and> (hd raw = squote \<and> last raw = squote \<or> hd raw = dquote \<and> last raw = dquote)
               then take (length raw - 2) (drop 1 raw) else raw)"

fun apply_kvs :: "(string \<Rightarrow> rat option) \<Rightarrow> string list \<Rightarrow> stage_params \<Rightarrow> stage_error + stage_params" where
  "apply_kvs stof [] st = Inr st"
| "apply_kvs stof (kv # kvs) st =
     (if CHR ''='' \<notin> set kv then Inl (BadOption kv)
      else case apply_kv stof st (takeWhile (\<lambda>c. c \<noteq> CHR ''='') kv) (unescape_value (tl (dropWhile (\<lambda>c. c \<noteq> CHR ''='') kv))) of
        Inl e \<Rightarrow> Inl e | Inr st \<Rightarrow> apply_kvs stof kvs st)"

definition alias_defaults :: "stage_params \<Rightarrow> stage_params" where
  "alias_defaults st =
     (let st = (if tp_n_max st \<ge> 0 then st else st\<lparr>tp_n_max := 4\<rparr>);
          st = (if tp_n_min st \<ge> 0 then st else st\<lparr>tp_n_min := 2\<rparr>)
      in if tp_type st = SpecNgramMod \<and> \<not> tp_ngram_size_n st > 0 then st\<lparr>tp_ngram_size_n := 16\<rparr> else st)"

definition stage_from_arg :: "(string \<Rightarrow> rat option) \<Rightarrow> string \<Rightarrow> stage_error + stage_params" where
  "stage_from_arg stof v =
     (let name = takeWhile (\<lambda>c. c \<noteq> CHR '':'') v in
      case type_from_name name of None \<Rightarrow> Inl (UnknownType name)
      | Some t \<Rightarrow>
          (case (if CHR '':'' \<in> set v
                 then (case split_kvs (tl (dropWhile (\<lambda>c. c \<noteq> CHR '':'') v)) [] None False of
                         Inl e \<Rightarrow> Inl e | Inr kvs \<Rightarrow> apply_kvs stof kvs (default_stage t))
                 else Inr (default_stage t)) of
             Inl e \<Rightarrow> Inl e
           | Inr st \<Rightarrow> Inr (if name_is_alias name then alias_defaults st else st)))"

subsection \<open>Writing and reading options\<close>

text \<open>How a value is written so that it comes back: a backslash before every special character.\<close>

definition special :: "char \<Rightarrow> bool" where
  "special c \<longleftrightarrow> c = backslash \<or> c = CHR '','' \<or> c = squote \<or> c = dquote"

definition escape :: "string \<Rightarrow> string" where
  "escape v = concat (map (\<lambda>c. if special c then [backslash, c] else [c]) v)"

definition plain_key :: "string \<Rightarrow> bool" where
  "plain_key k \<longleftrightarrow> (\<forall>c \<in> set k. \<not> special c \<and> c \<noteq> CHR ''='')"

definition render_kv :: "string \<times> string \<Rightarrow> string" where
  "render_kv kv = fst kv @ CHR ''='' # escape (snd kv)"

fun render_kvs :: "(string \<times> string) list \<Rightarrow> string" where
  "render_kvs [] = []"
| "render_kvs [kv] = render_kv kv"
| "render_kvs (kv # kvs) = render_kv kv @ CHR '','' # render_kvs kvs"

lemma escape_simps [simp]: "escape [] = []" "escape (c # v) = (if special c then backslash # c # escape v else c # escape v)"
  by (simp_all add: escape_def)

lemma unescape_escape: "unescape (escape v) = v"
proof (induction v)
  case (Cons c v)
  show ?case
  proof (cases "special c")
    case True
    then show ?thesis using Cons by (auto simp: special_def)
  next
    case False
    then have "c \<noteq> backslash" by (simp add: special_def)
    then show ?thesis using Cons False by (cases "escape v") simp_all
  qed
qed simp

lemma escape_hd: "escape v \<noteq> [] \<Longrightarrow> hd (escape v) \<noteq> squote \<and> hd (escape v) \<noteq> dquote"
  by (cases v) (simp_all add: special_def split: if_splits)

lemma unescape_value_escape: "unescape_value (escape v) = v"
proof -
  have "\<not> (length (escape v) \<ge> 2 \<and> (hd (escape v) = squote \<and> last (escape v) = squote \<or> hd (escape v) = dquote \<and> last (escape v) = dquote))"
    using escape_hd[of v] by (cases "escape v") auto
  then show ?thesis unfolding unescape_value_def by (simp only: if_False unescape_escape)
qed

lemma split_plain:
  "\<forall>c \<in> set k. \<not> special c \<Longrightarrow> split_kvs (k @ rest) cur None False = split_kvs rest (cur @ k) None False"
proof (induction k arbitrary: cur)
  case (Cons c k)
  then have "split_kvs ((c # k) @ rest) cur None False = split_kvs (k @ rest) (cur @ [c]) None False"
    by (simp add: special_def)
  then show ?case using Cons by simp
qed simp

lemma split_escape: "cur \<noteq> [] \<Longrightarrow> split_kvs (escape v @ rest) cur None False = split_kvs rest (cur @ escape v) None False"
proof (induction v arbitrary: cur)
  case (Cons c v)
  have "split_kvs (escape (c # v) @ rest) cur None False
      = split_kvs (escape v @ rest) (cur @ (if special c then [backslash, c] else [c])) None False"
    by (auto simp: special_def)
  then show ?case using Cons by simp
qed simp

lemma split_render_kv:
  assumes "plain_key (fst kv)"
  shows "split_kvs (render_kv kv @ rest) cur None False = split_kvs rest (cur @ render_kv kv) None False"
proof -
  have k: "\<forall>c \<in> set (fst kv @ [CHR ''='']). \<not> special c" using assms by (auto simp: plain_key_def special_def)
  have "split_kvs (render_kv kv @ rest) cur None False = split_kvs ((fst kv @ [CHR ''='']) @ escape (snd kv) @ rest) cur None False"
    by (simp add: render_kv_def)
  also have "\<dots> = split_kvs rest (cur @ render_kv kv) None False"
    unfolding split_plain[OF k] by (subst split_escape) (simp_all add: render_kv_def)
  finally show ?thesis .
qed

lemma split_render:
  "kvs \<noteq> [] \<Longrightarrow> \<forall>kv \<in> set kvs. plain_key (fst kv) \<Longrightarrow> split_kvs (render_kvs kvs) [] None False = Inr (map render_kv kvs)"
proof (induction kvs rule: render_kvs.induct)
  case (2 kv)
  then show ?case using split_render_kv[of kv "[]" "[]"] by simp
next
  case (3 kv kv' kvs)
  have "split_kvs (render_kv kv @ CHR '','' # render_kvs (kv' # kvs)) [] None False
      = map_sum id ((#) (render_kv kv)) (split_kvs (render_kvs (kv' # kvs)) [] None False)"
    using 3 by (subst split_render_kv) simp_all
  then show ?case using 3 by simp
qed simp

text \<open>Applying the options themselves.\<close>

fun apply_options :: "(string \<Rightarrow> rat option) \<Rightarrow> (string \<times> string) list \<Rightarrow> stage_params \<Rightarrow> stage_error + stage_params" where
  "apply_options stof [] st = Inr st"
| "apply_options stof ((k, v) # kvs) st = (case apply_kv stof st k v of Inl e \<Rightarrow> Inl e | Inr st \<Rightarrow> apply_options stof kvs st)"

lemma apply_render:
  "\<forall>kv \<in> set kvs. plain_key (fst kv) \<Longrightarrow> apply_kvs stof (map render_kv kvs) st = apply_options stof kvs st"
proof (induction kvs arbitrary: st)
  case (Cons kv kvs)
  obtain k v where kv: "kv = (k, v)" by (cases kv)
  have k: "\<forall>c \<in> set k. c \<noteq> CHR ''=''" using Cons.prems by (auto simp: kv plain_key_def)
  have t: "takeWhile (\<lambda>c. c \<noteq> CHR ''='') (render_kv kv) = k" "dropWhile (\<lambda>c. c \<noteq> CHR ''='') (render_kv kv) = CHR ''='' # escape v"
    using k by (auto simp: kv render_kv_def takeWhile_append2 dropWhile_append2)
  have "CHR ''='' \<in> set (render_kv kv)" by (simp add: kv render_kv_def)
  then show ?case using Cons t unfolding kv by (simp add: unescape_value_escape split: sum.split)
qed simp

subsection \<open>The chains that pass\<close>

lemma stage_min_le_max: "cp_n_min (with_stage_overrides cp st) \<le> cp_n_max (with_stage_overrides cp st)"
  by (simp add: with_stage_overrides_def Let_def)

lemma check_stages_exact:
  "check_stages cp n seen sts = None \<longleftrightarrow>
     (n > 1 \<longrightarrow> SpecNone \<notin> tp_type ` set sts) \<and> distinct (map tp_type sts) \<and> set seen \<inter> tp_type ` set sts = {}
     \<and> (SpecDraft \<in> tp_type ` set sts \<longrightarrow> cp_has_dft cp)"
proof (induction sts arbitrary: seen)
  case (Cons st sts)
  show ?case using Cons[of "tp_type st # seen"] stage_min_le_max[of cp st] by (auto simp: Let_def)
qed simp

lemma check_stages_never: "check_stages cp n seen sts \<noteq> Some MinAboveMax"
  by (induction sts arbitrary: seen) (simp_all add: stage_min_le_max Let_def linorder_not_less[THEN iffD2])

lemma resolved_not_none: "st \<in> set (resolved_stages cp) \<Longrightarrow> tp_type st \<noteq> SpecNone"
  by (auto simp: resolved_stages_def default_stage_def split: if_splits)

lemma typed_order_irrelevant:
  assumes "is_self_spec (tp_type a) \<noteq> is_self_spec (tp_type b)"
  shows "cp_stages (snd (canonicalize_stage_order False (cp\<lparr>cp_stages := [a, b]\<rparr>)))
    = cp_stages (snd (canonicalize_stage_order False (cp\<lparr>cp_stages := [b, a]\<rparr>)))"
proof -
  have "tp_type a \<noteq> tp_type b" using assms by auto
  then show ?thesis using assms by (auto simp: canonicalize_stage_order_def Let_def)
qed

text \<open>Dropping the table does not change how deep the chain drafts.\<close>

lemma effective_front [simp]: "effective_n_max (cp\<lparr>cp_auto_front := x\<rparr>) st = effective_n_max cp st"
  by (simp add: effective_n_max_def)

lemma drop_shallow_cases:
  "snd (drop_shallow keep cp) = cp \<or> snd (drop_shallow keep cp) = cp\<lparr>cp_auto_front := False\<rparr>
   \<or> (\<exists>a b ty. cp_stages cp = [a, b] \<and> tp_type b = SpecMtp \<and> effective_n_max cp a \<le> effective_n_max cp b
        \<and> snd (drop_shallow keep cp) = cp\<lparr>cp_auto_front := False, cp_stages := [b], cp_type := ty\<rparr>)"
proof (cases "cp_auto_front cp \<and> \<not> keep")
  case False
  then show ?thesis by (auto simp: drop_shallow_def)
next
  case on: True
  show ?thesis
  proof (cases "\<exists>a b. cp_stages cp = [a, b]")
    case True
    then obtain a b where s: "cp_stages cp = [a, b]" by blast
    let ?c = "tp_type b \<noteq> SpecMtp \<or> tp_type a = SpecMtp \<or> tp_type a = SpecDraft \<or> effective_n_max cp a > effective_n_max cp b"
    show ?thesis
    proof (cases ?c)
      case True
      then have "snd (drop_shallow keep cp) = cp\<lparr>cp_auto_front := False\<rparr>" using on s by (auto simp: drop_shallow_def Let_def)
      then show ?thesis by blast
    next
      case False
      then have "tp_type b = SpecMtp" "effective_n_max cp a \<le> effective_n_max cp b" by auto
      moreover have "snd (drop_shallow keep cp) = cp\<lparr>cp_auto_front := False, cp_stages := [b], cp_type := SpecMtp\<rparr>"
        using False on s by (simp add: drop_shallow_def resolved_stages_def Let_def)
      ultimately show ?thesis using s by blast
    qed
  next
    case False
    then have "snd (drop_shallow keep cp) = cp\<lparr>cp_auto_front := False\<rparr>"
      using on by (auto simp: drop_shallow_def Let_def split: list.split)
    then show ?thesis by blast
  qed
qed

lemma drop_shallow_keeps_depth: "max_stage_n_max (snd (drop_shallow keep cp)) = max_stage_n_max cp"
  using drop_shallow_cases[of keep cp]
proof (elim disjE exE conjE)
  fix a b ty
  assume s: "cp_stages cp = [a, b]" "tp_type b = SpecMtp" "effective_n_max cp a \<le> effective_n_max cp b"
    "snd (drop_shallow keep cp) = cp\<lparr>cp_auto_front := False, cp_stages := [b], cp_type := ty\<rparr>"
  have e: "effective_n_max (cp\<lparr>cp_auto_front := False, cp_stages := [b], cp_type := ty\<rparr>) = effective_n_max cp"
    by (simp add: effective_n_max_def fun_eq_iff)
  show ?thesis using s(1-3) unfolding s(4) by (simp add: max_stage_n_max_def resolved_stages_def e Let_def max_def)
qed (simp_all add: max_stage_n_max_def resolved_stages_def Let_def cong: if_cong)

text \<open>A width is cut to 16 bits before its range is checked.\<close>

lemma width_wraps:
  "map_sum id tp_ngram_size_n (stage_from_arg (\<lambda>_. None) ''ngram_mod:ngram_size_n=65538'') = Inr 2"
  by code_simp

end
