(* ===== verification/SpecChain.thy ===== *)
theory SpecChain
  imports NgramStage SpecConfig
begin

section \<open>The chain of speculation stages (common/speculative.cpp)\<close>

text \<open>
  A step asks the stages in their order and stops at the first draft that counts; the verdict goes to that
  stage, the others are told.  The suffix and the n-gram stage are the models of this development; any
  other kind of stage is a pair of parameters, its draft and its acceptance.  The library function that
  compares a copied draft with the head's depth is a parameter too (it is loaded at run time).
\<close>

datatype 'o stage_state = StSuffix suffix_stage | StNgram ngram_stage | StOther 'o

record 'o other_ops =
  oo_draft :: "spec_params \<Rightarrow> int list \<Rightarrow> int \<Rightarrow> 'o \<Rightarrow> (int list \<times> 'o) option"
  oo_accept :: "nat option \<Rightarrow> nat \<Rightarrow> 'o \<Rightarrow> 'o"
  oo_begin :: "int list \<Rightarrow> 'o \<Rightarrow> 'o"
  oo_reset :: "'o \<Rightarrow> 'o"

record 'o stage_env =
  se_order :: "(int \<times> snode) list \<Rightarrow> (int \<times> snode) list"
  se_lag :: nat
  se_streak :: int
  se_copy_wins :: "int \<Rightarrow> int \<Rightarrow> int"
  se_other :: "'o other_ops"

record 'o impl =
  im_type :: spec_type
  im_state :: "'o stage_state"
  im_call_begin :: nat
  im_call_draft :: nat
  im_call_accept :: nat
  im_gen_drafts :: nat
  im_acc_drafts :: nat
  im_gen_tokens :: nat
  im_acc_tokens :: nat
  im_draft_empty :: nat
  im_draft_below_floor :: nat
  im_draft_ctx_zero :: nat
  im_observe :: nat

subsection \<open>One stage\<close>

fun stage_draft :: "'o stage_env \<Rightarrow> spec_params \<Rightarrow> int list \<Rightarrow> int \<Rightarrow> 'o stage_state \<Rightarrow> (int list \<times> 'o stage_state) option" where
  "stage_draft e p prompt t (StSuffix s) = map_option (map_prod id StSuffix) (suffix_draft (se_order e) p prompt t s)"
| "stage_draft e p prompt t (StNgram s) = Some (map_prod id StNgram (ngram_draft (se_lag e) p prompt t s))"
| "stage_draft e p prompt t (StOther s) = map_option (map_prod id StOther) (oo_draft (se_other e) p prompt t s)"

fun stage_accept :: "'o stage_env \<Rightarrow> nat option \<Rightarrow> nat \<Rightarrow> 'o stage_state \<Rightarrow> 'o stage_state" where
  "stage_accept e v n (StSuffix s) = StSuffix (suffix_accept v n s)"
| "stage_accept e v n (StNgram s) = StNgram (ngram_accept (se_streak e) v n s)"
| "stage_accept e v n (StOther s) = StOther (oo_accept (se_other e) v n s)"

text \<open>Only the n-gram stage listens to steps it did not win.\<close>

fun stage_observe :: "bool \<Rightarrow> 'o stage_state \<Rightarrow> 'o stage_state" where
  "stage_observe drafted (StNgram s) = StNgram (ngram_observe drafted s)"
| "stage_observe drafted st = st"

fun stage_begin :: "'o stage_env \<Rightarrow> int list \<Rightarrow> 'o stage_state \<Rightarrow> 'o stage_state" where
  "stage_begin e prompt (StSuffix s) = StSuffix (suffix_begin prompt s)"
| "stage_begin e prompt (StNgram s) = StNgram (ngram_begin prompt s)"
| "stage_begin e prompt (StOther s) = StOther (oo_begin (se_other e) prompt s)"

fun stage_reset :: "'o stage_env \<Rightarrow> 'o stage_state \<Rightarrow> 'o stage_state" where
  "stage_reset e (StSuffix s) = StSuffix (suffix_hard_reset s)"
| "stage_reset e (StNgram s) = StNgram (ngram_hard_reset s)"
| "stage_reset e (StOther s) = StOther (oo_reset (se_other e) s)"

text \<open>The parameters of a stage at run time; \<open>mtp_floor\<close> is what the head makes of an inherited floor.\<close>

definition runtime_params :: "(rat \<Rightarrow> rat) \<Rightarrow> spec_type \<Rightarrow> chain_params \<Rightarrow> chain_params \<Rightarrow> stage_params \<Rightarrow> spec_params" where
  "runtime_params mtp_floor t config cp st =
     (let n_max = max (effective_n_max cp st) 0 in
      \<lparr>sp_n_max = n_max, sp_n_min = max 0 (min (effective_n_min cp st) n_max),
       sp_p_min = (if tp_p_min st \<ge> 0 then tp_p_min st
                   else if t = SpecMtp then mtp_floor (cp_p_min cp) else cp_p_min cp),
       sp_min_match_len = (if t = SpecSuffix then (if tp_min_match_len st \<ge> 0 then tp_min_match_len st else cp_min_match_len cp)
                           else cp_min_match_len config)\<rparr>)"

subsection \<open>A step\<close>

text \<open>The depth of the first head after this stage, zero without one.\<close>

definition later_mtp_max :: "(spec_params \<times> 'o impl) list \<Rightarrow> int" where
  "later_mtp_max rest = (case find (\<lambda>(p, im). im_type im = SpecMtp) rest of None \<Rightarrow> 0 | Some (p, im) \<Rightarrow> sp_n_max p)"

definition asked :: "int list \<Rightarrow> 'o stage_state \<Rightarrow> 'o impl \<Rightarrow> 'o impl" where
  "asked prompt s im =
     im\<lparr>im_state := s, im_call_draft := im_call_draft im + 1,
        im_draft_ctx_zero := im_draft_ctx_zero im + (if prompt = [] then 1 else 0)\<rparr>"

text \<open>The loop over the stages from the \<open>i\<close>th on: the draft, the stages, the winner and how many were asked.\<close>

fun chain_loop ::
  "'o stage_env \<Rightarrow> int list \<Rightarrow> int \<Rightarrow> nat \<Rightarrow> (spec_params \<times> 'o impl) list \<Rightarrow> (int list \<times> 'o impl list \<times> nat option \<times> nat) option" where
  "chain_loop e prompt t i [] = Some ([], [], None, i)"
| "chain_loop e prompt t i ((p, im) # rest) =
     (case stage_draft e p prompt t (im_state im) of None \<Rightarrow> None
      | Some (ds, s) \<Rightarrow>
          let im = asked prompt s im;
              next_stage = (\<lambda>im. map_option (\<lambda>(r, ims, w, n). (r, im # ims, w, n)) (chain_loop e prompt t (i + 1) rest))
          in if ds = [] then next_stage (im\<lparr>im_draft_empty := im_draft_empty im + 1\<rparr>)
             else if is_self_spec (im_type im) \<and> sp_n_min p > 0 \<and> int (length ds) < sp_n_min p
             then next_stage (im\<lparr>im_draft_below_floor := im_draft_below_floor im + 1\<rparr>)
             else if is_self_spec (im_type im) \<and> se_copy_wins e (int (length ds)) (later_mtp_max rest) < 0 then next_stage im
             else Some (ds, im\<lparr>im_gen_drafts := im_gen_drafts im + 1, im_gen_tokens := im_gen_tokens im + length ds\<rparr> # map snd rest,
                        Some i, i + 1))"

record 'o spec =
  sc_impls :: "'o impl list"
  sc_curr :: "nat option"
  sc_asked :: "int \<Rightarrow> nat option"
  sc_verified :: "int \<Rightarrow> nat option"

definition spec_draft :: "'o stage_env \<Rightarrow> spec_params list \<Rightarrow> int list \<Rightarrow> int \<Rightarrow> int \<Rightarrow> 'o spec \<Rightarrow> (int list \<times> 'o spec) option" where
  "spec_draft e ps prompt t seq sc =
     (case chain_loop e prompt t 0 (zip ps (sc_impls sc)) of None \<Rightarrow> None
      | Some (ds, ims, w, n) \<Rightarrow>
          Some (ds, sc\<lparr>sc_impls := ims, sc_curr := w, sc_asked := (sc_asked sc)(seq \<mapsto> n), sc_verified := (sc_verified sc)(seq := None)\<rparr>))"

definition set_verified_len :: "int \<Rightarrow> nat \<Rightarrow> 'o spec \<Rightarrow> 'o spec" where
  "set_verified_len seq n sc = sc\<lparr>sc_verified := (sc_verified sc)(seq \<mapsto> n)\<rparr>"

definition credited :: "'o stage_env \<Rightarrow> nat option \<Rightarrow> nat \<Rightarrow> 'o impl \<Rightarrow> 'o impl" where
  "credited e v n im =
     (let im = (if n > 0 then im\<lparr>im_acc_drafts := im_acc_drafts im + 1, im_acc_tokens := im_acc_tokens im + n\<rparr> else im)
      in im\<lparr>im_state := stage_accept e v n (im_state im), im_call_accept := im_call_accept im + 1\<rparr>)"

definition told :: "bool \<Rightarrow> 'o impl \<Rightarrow> 'o impl" where
  "told drafted im = im\<lparr>im_observe := im_observe im + 1, im_state := stage_observe drafted (im_state im)\<rparr>"

text \<open>The verdict; a head that did not win also drops its cached draft (\<open>drop_cached\<close>).\<close>

definition spec_accept :: "'o stage_env \<Rightarrow> ('o impl \<Rightarrow> 'o impl) \<Rightarrow> nat \<Rightarrow> int \<Rightarrow> 'o spec \<Rightarrow> 'o spec" where
  "spec_accept e drop_cached n_accepted seq sc =
     (let v = sc_verified sc seq; sc = sc\<lparr>sc_verified := (sc_verified sc)(seq := None)\<rparr> in
      case sc_curr sc of None \<Rightarrow> sc
      | Some w \<Rightarrow>
          (let n_asked = (case sc_asked sc seq of None \<Rightarrow> length (sc_impls sc) | Some n \<Rightarrow> n);
               ims = map (\<lambda>(j, im). if j = w then credited e v n_accepted im else told (j < n_asked) im) (enumerate 0 (sc_impls sc));
               ims = (if im_type (sc_impls sc ! w) \<noteq> SpecMtp
                      then map (\<lambda>im. if im_type im = SpecMtp then drop_cached im else im) ims else ims)
           in sc\<lparr>sc_impls := ims\<rparr>))"

definition spec_begin :: "'o stage_env \<Rightarrow> int list \<Rightarrow> 'o spec \<Rightarrow> 'o spec" where
  "spec_begin e prompt sc =
     sc\<lparr>sc_impls := map (\<lambda>im. im\<lparr>im_state := stage_begin e prompt (im_state im), im_call_begin := im_call_begin im + 1\<rparr>) (sc_impls sc)\<rparr>"

definition spec_hard_reset :: "'o stage_env \<Rightarrow> 'o spec \<Rightarrow> 'o spec" where
  "spec_hard_reset e sc = sc\<lparr>sc_impls := map (\<lambda>im. im\<lparr>im_state := stage_reset e (im_state im)\<rparr>) (sc_impls sc)\<rparr>"

subsection \<open>The first draft that counts\<close>

text \<open>A draft counts when it is not empty, and for a stage that looks up its own text also long enough and not
  beaten by the head that comes later.\<close>

definition usable :: "'o stage_env \<Rightarrow> (spec_params \<times> 'o impl) list \<Rightarrow> spec_params \<Rightarrow> 'o impl \<Rightarrow> int list \<Rightarrow> bool" where
  "usable e rest p im ds \<longleftrightarrow> ds \<noteq> [] \<and> (is_self_spec (im_type im) \<longrightarrow>
     (sp_n_min p \<le> 0 \<or> sp_n_min p \<le> int (length ds)) \<and> \<not> se_copy_wins e (int (length ds)) (later_mtp_max rest) < 0)"

definition drafts :: "'o stage_env \<Rightarrow> int list \<Rightarrow> int \<Rightarrow> spec_params \<times> 'o impl \<Rightarrow> int list" where
  "drafts e prompt t pim = (case stage_draft e (fst pim) prompt t (im_state (snd pim)) of None \<Rightarrow> [] | Some (ds, s) \<Rightarrow> ds)"

text \<open>The statistics of a stage that was asked: one call, and at most one verdict on it.\<close>

definition booked :: "'o impl \<Rightarrow> 'o impl \<Rightarrow> bool" where
  "booked im im' \<longleftrightarrow> im_type im' = im_type im \<and> im_call_draft im' = im_call_draft im + 1
     \<and> im_gen_drafts im' + im_draft_empty im' + im_draft_below_floor im'
         \<le> im_gen_drafts im + im_draft_empty im + im_draft_below_floor im + 1
     \<and> im_acc_drafts im' = im_acc_drafts im \<and> im_acc_tokens im' = im_acc_tokens im"

definition loop_spec ::
  "'o stage_env \<Rightarrow> int list \<Rightarrow> int \<Rightarrow> nat \<Rightarrow> (spec_params \<times> 'o impl) list \<Rightarrow> int list \<Rightarrow> 'o impl list \<Rightarrow> nat option \<Rightarrow> nat \<Rightarrow> bool" where
  "loop_spec e prompt t i pis ds ims w n \<longleftrightarrow> length ims = length pis \<and> i \<le> n
     \<and> (\<forall>j<length pis. (if i + j < n then booked (snd (pis ! j)) (ims ! j) else ims ! j = snd (pis ! j)))
     \<and> (case w of
          None \<Rightarrow> ds = [] \<and> n = i + length pis
            \<and> (\<forall>j<length pis. \<not> usable e (drop (Suc j) pis) (fst (pis ! j)) (snd (pis ! j)) (drafts e prompt t (pis ! j)))
        | Some k \<Rightarrow> (\<exists>m<length pis. k = i + m \<and> n = k + 1 \<and> ds = drafts e prompt t (pis ! m)
            \<and> usable e (drop (Suc m) pis) (fst (pis ! m)) (snd (pis ! m)) ds
            \<and> im_gen_tokens (ims ! m) = im_gen_tokens (snd (pis ! m)) + length ds
            \<and> (\<forall>j<m. \<not> usable e (drop (Suc j) pis) (fst (pis ! j)) (snd (pis ! j)) (drafts e prompt t (pis ! j)))))"

lemma loop_spec_Cons:
  assumes "loop_spec e prompt t (Suc i) pis ds ims w n" "booked (snd pim) im"
    and "\<not> usable e pis (fst pim) (snd pim) (drafts e prompt t pim)"
  shows "loop_spec e prompt t i (pim # pis) ds (im # ims) w n"
proof -
  have all: "(\<forall>j<length (pim # pis). P j) \<longleftrightarrow> P 0 \<and> (\<forall>j<length pis. P (Suc j))" for P
    by (auto simp: less_Suc_eq_0_disj)
  show ?thesis
  proof (cases w)
    case None
    then show ?thesis using assms unfolding loop_spec_def all by auto
  next
    case (Some k)
    then obtain m where m: "m < length pis" "k = Suc i + m" "n = k + 1" "ds = drafts e prompt t (pis ! m)"
      "usable e (drop (Suc m) pis) (fst (pis ! m)) (snd (pis ! m)) ds"
      "im_gen_tokens (ims ! m) = im_gen_tokens (snd (pis ! m)) + length ds"
      "\<forall>j<m. \<not> usable e (drop (Suc j) pis) (fst (pis ! j)) (snd (pis ! j)) (drafts e prompt t (pis ! j))"
      using assms(1) by (auto simp: loop_spec_def)
    have lt: "(\<forall>j<Suc m. P j) \<longleftrightarrow> P 0 \<and> (\<forall>j<m. P (Suc j))" for P by (auto simp: less_Suc_eq_0_disj)
    have "\<exists>m'<length (pim # pis). k = i + m' \<and> n = k + 1 \<and> ds = drafts e prompt t ((pim # pis) ! m')
            \<and> usable e (drop (Suc m') (pim # pis)) (fst ((pim # pis) ! m')) (snd ((pim # pis) ! m')) ds
            \<and> im_gen_tokens ((im # ims) ! m') = im_gen_tokens (snd ((pim # pis) ! m')) + length ds
            \<and> (\<forall>j<m'. \<not> usable e (drop (Suc j) (pim # pis)) (fst ((pim # pis) ! j)) (snd ((pim # pis) ! j))
                (drafts e prompt t ((pim # pis) ! j)))"
      using m assms(3) by (intro exI[of _ "Suc m"]) (simp add: lt)
    then show ?thesis using assms(1,2) Some unfolding loop_spec_def all by auto
  qed
qed

lemma chain_loop_spec:
  "chain_loop e prompt t i pis = Some (ds, ims, w, n) \<Longrightarrow> loop_spec e prompt t i pis ds ims w n"
proof (induction pis arbitrary: i ds ims w n)
  case Nil
  then show ?case by (simp add: loop_spec_def)
next
  case (Cons pim pis)
  obtain p im where pim: "pim = (p, im)" by (cases pim)
  obtain es s where d: "stage_draft e p prompt t (im_state im) = Some (es, s)"
    using Cons.prems by (auto simp: pim split: option.splits)
  then have dr: "drafts e prompt t pim = es" by (simp add: drafts_def pim)
  let ?im = "asked prompt s im"
  have ty: "im_type ?im = im_type im" by (simp add: asked_def)
  have on: "loop_spec e prompt t i (pim # pis) ds ims w n"
    if u: "\<not> usable e pis p im es" and b: "booked im im'"
      and c: "map_option (\<lambda>(r, ims, w, n). (r, im' # ims, w, n)) (chain_loop e prompt t (i + 1) pis) = Some (ds, ims, w, n)" for im'
  proof -
    obtain ims' where c': "chain_loop e prompt t (Suc i) pis = Some (ds, ims', w, n)" "ims = im' # ims'" using c by auto
    show ?thesis unfolding c'(2)
      by (rule loop_spec_Cons[OF Cons.IH[OF c'(1)]]) (use u b dr in \<open>simp_all add: pim\<close>)
  qed
  consider "es = []" | "es \<noteq> []" "is_self_spec (im_type im) \<and> sp_n_min p > 0 \<and> int (length es) < sp_n_min p"
    | "es \<noteq> []" "\<not> (is_self_spec (im_type im) \<and> sp_n_min p > 0 \<and> int (length es) < sp_n_min p)"
      "is_self_spec (im_type im) \<and> se_copy_wins e (int (length es)) (later_mtp_max pis) < 0"
    | "es \<noteq> []" "\<not> (is_self_spec (im_type im) \<and> sp_n_min p > 0 \<and> int (length es) < sp_n_min p)"
      "\<not> (is_self_spec (im_type im) \<and> se_copy_wins e (int (length es)) (later_mtp_max pis) < 0)" by blast
  then show ?case
  proof cases
    case 1
    then show ?thesis using Cons.prems d
      by (intro on[of "?im\<lparr>im_draft_empty := im_draft_empty ?im + 1\<rparr>"]) (simp_all add: pim usable_def booked_def asked_def Let_def)
  next
    case 2
    then show ?thesis using Cons.prems d
      by (intro on[of "?im\<lparr>im_draft_below_floor := im_draft_below_floor ?im + 1\<rparr>"])
        (simp_all add: pim usable_def booked_def asked_def Let_def)
  next
    case 3
    then show ?thesis using Cons.prems d ty
      by (intro on[of ?im]) (auto simp: pim usable_def booked_def asked_def Let_def)
  next
    case 4
    then have r: "ds = es" "w = Some i" "n = i + 1"
      "ims = ?im\<lparr>im_gen_drafts := im_gen_drafts ?im + 1, im_gen_tokens := im_gen_tokens ?im + length es\<rparr> # map snd pis"
      using Cons.prems d ty by (auto simp: pim Let_def)
    have "usable e pis p im es" using 4 by (auto simp: usable_def)
    then show ?thesis unfolding r using dr
      by (auto simp: loop_spec_def pim booked_def asked_def nth_Cons')
  qed
qed

end
