(* ===== verification/SpecMain.thy ===== *)
theory SpecMain
  imports SpecChain
begin

section \<open>Properties of the table drafters\<close>

text \<open>
  The claims about the suffix tree, its stage and the n-gram stage, each with an application to a small
  session.
\<close>

subsection \<open>The suffix tree\<close>

text \<open>C32: Whatever the chunks the history is fed in, a draft exists exactly when an end of the context, short enough
  for the tree, occurs often enough in the history and is followed there by some token with the demanded share;
  a draft goes on from such an end, never leaves the history, takes at each step a token no other one
  follows more often, and every part of it has the demanded share of the occurrences of the match.\<close>

theorem suffix_draft_exact:
  assumes "0 < d" "children_order order"
  shows "\<exists>ds. speculate order (fold tree_extend tss (new_tree d)) ctx max_spec min_prob min_count min_len = Some ds
    \<and> (0 < max_spec \<and> draftable (concat tss) d ctx min_prob min_count min_len \<longrightarrow> ds \<noteq> [])
    \<and> (ds \<noteq> [] \<longrightarrow> (\<exists>w. suffix w ctx \<and> w \<noteq> [] \<and> min_len \<le> int (length w) \<and> min_count \<le> int (occurrences w (concat tss))
        \<and> int (length w + length ds) \<le> d \<and> int (length ds) \<le> min max_spec (int (length w) + 8)
        \<and> likely_path min_prob (concat tss) w ds))"
proof -
  let ?st = "fold tree_extend tss (new_tree d)"
  have h: "tree_ok ?st" "st_tokens ?st = concat tss" "st_max_depth ?st = d" "good (st_root ?st)"
    using tree_ok_chunks[of "new_tree d" tss] good_chunks[of "new_tree d" tss] assms(1) tree_ok_new[of d]
    by (simp_all add: new_tree_def)
  obtain ds where ds: "speculate order ?st ctx max_spec min_prob min_count min_len = Some ds"
    "ds \<noteq> [] \<longrightarrow> (\<exists>w. suffix w ctx \<and> w \<noteq> [] \<and> min_len \<le> int (length w) \<and> min_count \<le> int (occurrences w (concat tss))
        \<and> int (length w + length ds) \<le> d \<and> int (length ds) \<le> min max_spec (int (length w) + 8)
        \<and> likely_path min_prob (concat tss) w ds)"
    using speculate_sound[OF h(1,4) assms(2), of ctx max_spec min_prob min_count min_len] unfolding h(2,3) by blast
  moreover have "0 < max_spec \<and> draftable (concat tss) d ctx min_prob min_count min_len \<longrightarrow> ds \<noteq> []"
    using speculate_finds[OF h(1,4) assms(2) _ _ ds(1)] unfolding h(2,3) by blast
  ultimately show ?thesis by blast
qed

theorem suffix_draft_exact_witness:
  "\<exists>ds. speculate (\<lambda>cs. cs) (fold tree_extend [[1, 2], [3, 1], [2, 3]] (new_tree 4)) [1, 2] 4 (1/2) 1 1 = Some ds
    \<and> (0 < (4 :: int) \<and> draftable [1, 2, 3, 1, 2, 3] 4 [1, 2] (1/2) 1 1 \<longrightarrow> ds \<noteq> [])
    \<and> (ds \<noteq> [] \<longrightarrow> (\<exists>w. suffix w [1, 2] \<and> w \<noteq> [] \<and> 1 \<le> int (length w) \<and> 1 \<le> int (occurrences w [1, 2, 3, 1, 2, 3])
        \<and> int (length w + length ds) \<le> 4 \<and> int (length ds) \<le> min 4 (int (length w) + 8)
        \<and> likely_path (1/2) [1, 2, 3, 1, 2, 3] w ds))"
  using suffix_draft_exact[of 4 "\<lambda>cs. cs" "[[1, 2], [3, 1], [2, 3]]" "[1, 2]" 4 "1/2" 1 1] by (simp add: children_order_def)

subsection \<open>The suffix stage\<close>

definition ex_params :: "rat \<Rightarrow> spec_params" where
  "ex_params p = \<lparr>sp_n_max = 4, sp_n_min = 0, sp_p_min = p, sp_min_match_len = 1\<rparr>"

text \<open>Two generations with an erasure between them.\<close>

definition ex_suffix_ops :: "suffix_op list" where
  "ex_suffix_ops = [OpBegin [1, 2], OpDraft (ex_params (3/4)) [1, 2] 3, OpAccept None 0, OpErase, OpBegin [7, 1],
     OpDraft (ex_params (3/4)) [7, 1] 2]"

text \<open>C33: Over any session of beginnings, drafts, acceptances and erasures the stage never fails, and its tree counts,
  for every word up to its depth, exactly the occurrences in what the contexts of each generation brought past the tokens already fed, one generation after the other,
  whatever a corpus load did: neither the beginning of a generation nor the erasure of the slot removes what was
  learned before. While the contexts of a generation only grow that is the contexts themselves; after a context
  shift the context is shorter than what was fed, and shifted_context_not_fed shows that nothing is fed then.\<close>

theorem suffix_history_survives_erase:
  assumes "0 < d" "children_order order"
  shows "\<exists>s. suffix_run order xs (new_suffix_stage d (Some (load_binary est err corpus))) = Some s
    \<and> st_tokens (ss_tree s) = fst (fed xs) @ snd (fed xs)
    \<and> (\<forall>w. w \<noteq> [] \<longrightarrow> count_at w (st_root (ss_tree s))
          = (if int (length w) \<le> d then int (occurrences w (fst (fed xs) @ snd (fed xs))) else 0))
    \<and> (growing [] xs \<longrightarrow> fed xs = contexts xs)"
proof -
  obtain ok st where l: "load_binary est err corpus (new_tree d) = (ok, st)" by (cases "load_binary est err corpus (new_tree d)")
  have "stage_holds d (if ok then corpus else []) ([], []) (new_suffix_stage d (Some (load_binary est err corpus)))"
    using load_binary_holds[OF assms(1) l] by (simp add: new_suffix_stage_def l stage_holds_def)
  then obtain s where s: "suffix_run order xs (new_suffix_stage d (Some (load_binary est err corpus))) = Some s"
    "stage_holds d (if ok then corpus else []) (fed xs) s"
    using suffix_run_holds[OF assms] unfolding fed_def by fastforce
  then have "tree_ok (ss_tree s)" "st_tokens (ss_tree s) = fst (fed xs) @ snd (fed xs)" "st_max_depth (ss_tree s) = d"
    by (simp_all add: stage_holds_def tree_holds_def)
  moreover have "growing [] xs \<longrightarrow> fed xs = contexts xs" using growing_fed[of "([], [])" xs] by (simp add: fed_def contexts_def)
  ultimately show ?thesis using s(1) tree_count[of "ss_tree s"] by auto
qed

theorem suffix_history_survives_erase_witness:
  "\<exists>s. suffix_run (\<lambda>cs. cs) ex_suffix_ops (new_suffix_stage 8 (Some (load_binary 2 False [5, 6]))) = Some s
    \<and> st_tokens (ss_tree s) = [1, 2, 3, 7, 1, 2] \<and> count_at [1, 2] (st_root (ss_tree s)) = 2 \<and> contexts ex_suffix_ops = ([1, 2, 3], [7, 1, 2])"
proof -
  have g: "growing [] ex_suffix_ops" by code_simp
  have f: "fed ex_suffix_ops = ([1, 2, 3], [7, 1, 2])" by code_simp
  have h: "count_at [1, 2] (st_root (tree_extend [7, 1, 2] (tree_extend [1, 2, 3] (new_tree 8)))) = 2" by code_simp
  have h2: "count_at [1, 2] (st_root (tree_extend [7, 1, 2] (tree_extend [1, 2, 3] (new_tree 8))))
      = int (occurrences [1, 2] [1, 2, 3, 7, 1, 2])"
    using tree_ok_chunks[of "new_tree 8" "[[1, 2, 3], [7, 1, 2]]"] tree_ok_new[of 8]
      tree_count[of "tree_extend [7, 1, 2] (tree_extend [1, 2, 3] (new_tree 8))" "[1, 2]"] by (simp add: new_tree_def)
  obtain s where s: "suffix_run (\<lambda>cs. cs) ex_suffix_ops (new_suffix_stage 8 (Some (load_binary 2 False [5, 6]))) = Some s"
    "st_tokens (ss_tree s) = fst (fed ex_suffix_ops) @ snd (fed ex_suffix_ops)"
    "\<forall>w. w \<noteq> [] \<longrightarrow> count_at w (st_root (ss_tree s))
       = (if int (length w) \<le> 8 then int (occurrences w (fst (fed ex_suffix_ops) @ snd (fed ex_suffix_ops))) else 0)"
    "fed ex_suffix_ops = contexts ex_suffix_ops"
    using suffix_history_survives_erase[of 8 "\<lambda>cs. cs" ex_suffix_ops 2 False "[5, 6]"] g by (auto simp: children_order_def)
  have "count_at [1, 2] (st_root (ss_tree s)) = int (occurrences [1, 2] [1, 2, 3, 7, 1, 2])"
    using s(3)[rule_format, of "[1, 2]"] unfolding f by simp
  then show ?thesis using s(1,2) h h2 s(4)[symmetric] unfolding f by (intro exI[of _ s]) simp
qed

text \<open>The context of the first draft is fed; the shorter one after the shift is not, though its pairs are new.\<close>

lemma shifted_context_not_fed:
  "fed [OpDraft (ex_params 0) [1, 2, 3, 4, 5] 6, OpDraft (ex_params 0) [1, 5, 6] 7] = ([], [1, 2, 3, 4, 5, 6])"
  "contexts [OpDraft (ex_params 0) [1, 2, 3, 4, 5] 6, OpDraft (ex_params 0) [1, 5, 6] 7] = ([], [1, 5, 6, 7])"
  by code_simp+

text \<open>The new occupant of the slot is offered what followed in the text of the one before.\<close>

lemma erased_suffix_still_drafts:
  "map_option fst (Option.bind (suffix_run (\<lambda>cs. cs) (take 5 ex_suffix_ops) (new_suffix_stage 8 None))
     (suffix_draft (\<lambda>cs. cs) (ex_params (3/4)) [7, 1] 2)) = Some [3, 7, 1, 2]"
  by code_simp

text \<open>C34: With a probability floor of one half or more, and the default is three quarters, the bound a draft has to meet
  starts at a tenth and is never lowered again: it only rises, to at most one half.\<close>

theorem suffix_bound_only_rises:
  assumes "suffix_run order xs (new_suffix_stage d None) = Some s" "suffix_run order ys s = Some s'"
    and "\<forall>p prompt t. OpDraft p prompt t \<in> set xs \<union> set ys \<longrightarrow> 1/2 \<le> sp_p_min p"
  shows "ss_eff_p_min s \<le> ss_eff_p_min s' \<and> ss_eff_p_min s' \<le> 1/2 \<and> tenth_f \<le> ss_eff_p_min s"
proof -
  have "bound_ok (new_suffix_stage d None)" by (simp add: bound_ok_def new_suffix_stage_def tenth_f_def)
  then have "bound_ok s \<and> tenth_f \<le> ss_eff_p_min s"
    using run_raises[OF _ _ assms(1)] assms(3) by (force simp: new_suffix_stage_def)
  then show ?thesis using run_raises[OF _ _ assms(2)] assms(3) by (force simp: bound_ok_def)
qed

theorem suffix_bound_only_rises_witness:
  "\<exists>s s'. suffix_run (\<lambda>cs. cs) ex_suffix_ops (new_suffix_stage 8 None) = Some s
    \<and> suffix_run (\<lambda>cs. cs) [OpAccept None 2] s = Some s' \<and> ss_eff_p_min s \<le> ss_eff_p_min s' \<and> ss_eff_p_min s' \<le> 1/2"
proof -
  have "suffix_run (\<lambda>cs. cs) ex_suffix_ops (new_suffix_stage 8 None) \<noteq> None" by code_simp
  then obtain s where s: "suffix_run (\<lambda>cs. cs) ex_suffix_ops (new_suffix_stage 8 None) = Some s" by blast
  have s': "suffix_run (\<lambda>cs. cs) [OpAccept None 2] s = Some (suffix_accept None 2 s)" by simp
  show ?thesis using suffix_bound_only_rises[OF s s'] s s' by (auto simp: ex_suffix_ops_def ex_params_def)
qed

text \<open>Drafts that were never verified, because another stage's draft was taken, raise the bound as well.\<close>

lemma untested_drafts_raise_bound:
  "map_option ss_eff_p_min (suffix_run (\<lambda>cs. cs)
     [OpDraft (ex_params 0) [1] 1, OpDraft (ex_params 0) [1, 1] 1, OpDraft (ex_params 0) [1, 1, 1] 1, OpDraft (ex_params 0) [1, 1, 1, 1] 1]
     (new_suffix_stage 8 None)) = Some (2 * tenth_f)"
  by code_simp

subsection \<open>The n-gram stage\<close>

text \<open>C35: When the context is at least one n-gram long, every draft feeds the table first (feed lag 0), the contexts of a generation only grow, and no generation
  begins with a crowded table, a drafted token is the one that follows the last place of the context whose n-gram
  has the hash of the tokens before it, wherever the context has such a place; the draft keeps to the limit, and
  without a demanded minimum it stops short of the limit only where the context has no such place. The table is
  the stage's own. shifted_context_drafts_old shows a context shift after which an older follower is drafted.\<close>

theorem ngram_draft_follows_context:
  assumes "0 < n" "0 < sz" "ng_growing [] xs" "calm 0 streak xs (new_ngram_stage (new_ngram_mod n sz))"
    and "prefix (ng_context [] xs) prompt" "n \<le> length prompt"
    and "ngram_draft 0 p prompt t (snd (ngram_run 0 streak xs (new_ngram_stage (new_ngram_mod n sz)))) = (ds, s)"
  shows "int (length ds) \<le> max 0 (sp_n_max p) \<and>
    (\<forall>i<length ds. case last_follow (ng_mod s) prompt (drop i (ngram_window n prompt t @ ds)) of
        Some u \<Rightarrow> ds ! i = u | None \<Rightarrow> ds ! i \<noteq> -1) \<and>
    (sp_n_min p \<le> 0 \<and> int (length ds) < sp_n_max p \<longrightarrow>
       last_follow (ng_mod s) prompt (drop (length ds) (ngram_window n prompt t @ ds)) \<in> {None, Some (-1)})"
proof -
  let ?s = "snd (ngram_run 0 streak xs (new_ngram_stage (new_ngram_mod n sz)))"
  have "indexed n sz [] (new_ngram_stage (new_ngram_mod n sz))"
    by (intro indexed_zero) (simp_all add: new_ngram_stage_def new_ngram_mod_def ngram_reset_def)
  from ngram_run_indexed[OF assms(1) this assms(3,4)]
  obtain m where m: "nm_n m = n" "length (nm_entries m) = sz" "indexed_from 0 m (ng_context [] xs) ?s"
    unfolding indexed_def by blast
  have n: "nm_n (ng_mod ?s) = n" using m ngram_feed_dims by (simp add: indexed_from_def)
  have i: "indexed_from 0 m prompt s" "ng_i_last s = length prompt - n"
    using ngram_draft_indexed[OF m(3) assms(5), of p t] assms(1,6,7) m(1) by auto
  have "ngram_get (ng_mod s) w = (case last_follow (ng_mod s) prompt w of Some t \<Rightarrow> t | None \<Rightarrow> ngram_get m w)" for w
    using indexed_follow[OF i(1), of w] i(2) m assms(2,6) by fastforce
  then show ?thesis using ngram_draft_table[OF assms(7)] n assms(1,6) by (auto split: option.splits)
qed

theorem ngram_draft_follows_context_witness:
  "\<exists>ds s. ngram_draft 0 (ex_params 0) [1, 2, 3, 1] 2
      (snd (ngram_run 0 3 [NgBegin [1, 2]] (new_ngram_stage (new_ngram_mod 2 13)))) = (ds, s) \<and> ds = [3, 1]
    \<and> (\<forall>i<length ds. case last_follow (ng_mod s) [1, 2, 3, 1] (drop i (ngram_window 2 [1, 2, 3, 1] 2 @ ds)) of
        Some u \<Rightarrow> ds ! i = u | None \<Rightarrow> ds ! i \<noteq> -1)"
proof -
  let ?d = "ngram_draft 0 (ex_params 0) [1, 2, 3, 1] 2
      (snd (ngram_run 0 3 [NgBegin [1, 2]] (new_ngram_stage (new_ngram_mod 2 13))))"
  have f: "fst ?d = [3, 1]" by code_simp
  have c: "calm 0 3 [NgBegin [1, 2]] (new_ngram_stage (new_ngram_mod 2 13))" by code_simp
  obtain ds s where d: "?d = (ds, s)" by (cases ?d)
  have "ds = [3, 1]" using f unfolding d by simp
  moreover have "\<forall>i<length ds. case last_follow (ng_mod s) [1, 2, 3, 1] (drop i (ngram_window 2 [1, 2, 3, 1] 2 @ ds)) of
      Some u \<Rightarrow> ds ! i = u | None \<Rightarrow> ds ! i \<noteq> -1"
    using ngram_draft_follows_context[OF _ _ _ c _ _ d] by simp
  ultimately show ?thesis using d by blast
qed

text \<open>After the draft at \<open>1..6\<close> the context is shifted to \<open>1, 5, 6\<close>: 5 follows 1 in the context, but the index
  position is moved back only to its end and 2 is drafted.\<close>

lemma shifted_context_drafts_old:
  "fst (ngram_run 0 3 [NgBegin [1, 2, 3, 4, 5, 6], NgDraft ((ex_params 0)\<lparr>sp_n_max := 1\<rparr>) [1, 5, 6] 1]
      (new_ngram_stage (new_ngram_mod 1 61))) = [[], [2]]"
  "last_follow (new_ngram_mod 1 61) [1, 5, 6] [1] = Some 5"
  by code_simp+

text \<open>C36: A generation that begins with a crowded table, with a prompt at least one n-gram long, loses its prompt: the table is emptied with the index position at
  the end of the prompt, and every draft that follows, after any growing drafts, verdicts and observed steps with feed
  lag 0, finds in the table only the n-grams after that position, until a low-acceptance streak empties the table
  once more; the draft after that verdict indexes the whole context again, prompt included.\<close>

theorem crowded_begin_loses_prompt:
  assumes "0 < nm_n (ng_mod s)" "nm_n (ng_mod s) \<le> length p0"
    and "crowded (ngram_feed p0 0 (length p0 - nm_n (ng_mod s)) (ng_mod s))"
    and "ng_growing p0 xs" "keeps_index 0 streak xs (ngram_begin p0 s)" "prefix (ng_context p0 xs) prompt"
  shows "let r = snd (ngram_run 0 streak xs (ngram_begin p0 s)) in
    ng_mod (snd (ngram_draft 0 p prompt t r))
      = ngram_feed prompt (length p0 - nm_n (ng_mod s)) (length prompt - nm_n (ng_mod s)) (ngram_reset (ng_mod s))
    \<and> (wipes streak v k r \<longrightarrow> ng_mod (snd (ngram_draft 0 p prompt t (ngram_accept streak v k r)))
      = ngram_feed prompt 0 (length prompt - nm_n (ng_mod s)) (ngram_reset (ng_mod s)))"
proof -
  let ?n = "nm_n (ng_mod s)" and ?b = "ngram_begin p0 s" and ?r = "snd (ngram_run 0 streak xs (ngram_begin p0 s))"
  have reset: "ngram_reset (ngram_feed p0 a b m) = ngram_reset m" for p0 a b m
    using ngram_feed_dims[of p0 a b m] by (simp add: ngram_reset_def)
  have "indexed_from (length p0 - ?n) (ngram_reset (ng_mod s)) p0 ?b"
    using assms(2,3) by (simp add: indexed_from_def ngram_begin_def Let_def reset)
  then have r: "indexed_from (length p0 - ?n) (ngram_reset (ng_mod s)) (ng_context p0 xs) ?r"
    using keeps_indexed_from[OF _ _ assms(4,5)] assms(1) by simp
  have m: "ng_mod ?r = ngram_feed (ng_context p0 xs) (length p0 - ?n) (ng_i_last ?r) (ngram_reset (ng_mod s))"
    using r by (simp add: indexed_from_def)
  have "length p0 \<le> length (ng_context p0 xs)" using growing_longer[OF assms(4)] keeps_within[OF assms(5)] by blast
  then have n: "?n \<le> length prompt" using assms(2) prefix_length_le[OF assms(6)] by simp
  have "nm_n (ng_mod ?r) = ?n" "ngram_reset (ng_mod ?r) = ngram_reset (ng_mod s)"
    unfolding m reset using ngram_feed_dims by (simp_all add: ngram_reset_def)
  then show ?thesis
    using ngram_draft_indexed[OF r assms(6), of p t] wiped_indexes_again[of streak v k ?r prompt p t] assms(1) n
    by (simp add: indexed_from_def Let_def)
qed

text \<open>With four entries and a prompt of six tokens the table is crowded; afterwards the prompt's pairs are unknown.\<close>

theorem crowded_begin_loses_prompt_witness:
  "let b = ngram_begin [1, 2, 3, 1, 2] (new_ngram_stage (new_ngram_mod 1 4));
       r = snd (ngram_run 0 1 [NgDraft (ex_params 0) [1, 2, 3, 1, 2, 3] 1, NgAccept None 1] b) in
    ng_mod (snd (ngram_draft 0 (ex_params 0) [1, 2, 3, 1, 2, 3, 3] 3 r)) = ngram_feed [1, 2, 3, 1, 2, 3, 3] 4 6 (ngram_reset (new_ngram_mod 1 4))
    \<and> fst (ngram_draft 0 (ex_params 0) [1, 2, 3, 1, 2, 3, 3] 1 r) = []
    \<and> wipes 1 None 0 (snd (ngram_draft 0 (ex_params 0) [1, 2, 3, 1, 2, 3, 3] 3 r))"
proof -
  let ?s = "new_ngram_stage (new_ngram_mod 1 4)" and ?xs = "[NgDraft (ex_params 0) [1, 2, 3, 1, 2, 3] 1, NgAccept None 1]"
  have "crowded (ngram_feed [1, 2, 3, 1, 2] 0 4 (new_ngram_mod 1 4))" "keeps_index 0 1 ?xs (ngram_begin [1, 2, 3, 1, 2] ?s)" "ng_growing [1, 2, 3, 1, 2] ?xs"
    by code_simp+
  moreover have "fst (ngram_draft 0 (ex_params 0) [1, 2, 3, 1, 2, 3, 3] 1 (snd (ngram_run 0 1 ?xs (ngram_begin [1, 2, 3, 1, 2] ?s)))) = []"
    "wipes 1 None 0 (snd (ngram_draft 0 (ex_params 0) [1, 2, 3, 1, 2, 3, 3] 3 (snd (ngram_run 0 1 ?xs (ngram_begin [1, 2, 3, 1, 2] ?s)))))"
    by code_simp+
  moreover have "nm_n (ng_mod ?s) = 1" "ng_mod ?s = new_ngram_mod 1 4"
    by (simp_all add: new_ngram_stage_def new_ngram_mod_def)
  ultimately show ?thesis
    using crowded_begin_loses_prompt[of ?s "[1, 2, 3, 1, 2]" ?xs 1 "[1, 2, 3, 1, 2, 3, 3]" "ex_params 0" 3 None 0]
    by (simp add: eval_nat_numeral Let_def)
qed

text \<open>C37: An erased n-gram stage has forgotten: whatever two stages with tables of the same shape went through, after an
  erasure they return the same drafts for the same session.\<close>

theorem erased_ngram_deterministic:
  assumes "nm_n (ng_mod s) = nm_n (ng_mod s')" "length (nm_entries (ng_mod s)) = length (nm_entries (ng_mod s'))"
  shows "fst (ngram_run lag streak (NgErase # xs) s) = fst (ngram_run lag streak (NgErase # xs) s')"
  using same_run[OF same_erased[OF assms]] by (simp add: case_prod_unfold Let_def)

theorem erased_ngram_deterministic_witness:
  "fst (ngram_run 0 3 [NgErase, NgBegin [1, 2, 1], NgDraft (ex_params 0) [1, 2, 1] 2]
      (ngram_begin [5, 2, 6, 2] (new_ngram_stage (new_ngram_mod 1 13))))
    = fst (ngram_run 0 3 [NgErase, NgBegin [1, 2, 1], NgDraft (ex_params 0) [1, 2, 1] 2] (new_ngram_stage (new_ngram_mod 1 13)))"
proof -
  have "nm_n (ng_mod (ngram_begin [5, 2, 6, 2] (new_ngram_stage (new_ngram_mod 1 13)))) = nm_n (ng_mod (new_ngram_stage (new_ngram_mod 1 13)))"
    "length (nm_entries (ng_mod (ngram_begin [5, 2, 6, 2] (new_ngram_stage (new_ngram_mod 1 13)))))
      = length (nm_entries (ng_mod (new_ngram_stage (new_ngram_mod 1 13))))"
    by code_simp+
  from erased_ngram_deterministic[OF this] show ?thesis .
qed

subsection \<open>The chain\<close>

text \<open>C38: A step of the chain returns the draft of the first stage whose draft counts, and nothing when none does.  Every
  stage up to that one is asked exactly once and books at most one verdict, the ones behind it are left as
  they were, and the number of stages asked is recorded for the sequence.\<close>

theorem chain_first_usable:
  assumes "length ps = length (sc_impls sc)" "spec_draft e ps prompt t seq sc = Some (ds, sc')"
  shows "length (sc_impls sc') = length ps \<and> sc_asked sc' seq = Some (case sc_curr sc' of None \<Rightarrow> length ps | Some k \<Rightarrow> k + 1)
    \<and> (\<forall>j<length ps. if j < the (sc_asked sc' seq) then booked (sc_impls sc ! j) (sc_impls sc' ! j)
          else sc_impls sc' ! j = sc_impls sc ! j)
    \<and> (case sc_curr sc' of
         None \<Rightarrow> ds = [] \<and> (\<forall>j<length ps. \<not> usable e (drop (Suc j) (zip ps (sc_impls sc))) (ps ! j) (sc_impls sc ! j)
            (drafts e prompt t (ps ! j, sc_impls sc ! j)))
       | Some k \<Rightarrow> k < length ps \<and> ds = drafts e prompt t (ps ! k, sc_impls sc ! k)
            \<and> usable e (drop (Suc k) (zip ps (sc_impls sc))) (ps ! k) (sc_impls sc ! k) ds
            \<and> im_gen_tokens (sc_impls sc' ! k) = im_gen_tokens (sc_impls sc ! k) + length ds
            \<and> (\<forall>j<k. \<not> usable e (drop (Suc j) (zip ps (sc_impls sc))) (ps ! j) (sc_impls sc ! j)
                 (drafts e prompt t (ps ! j, sc_impls sc ! j))))"
proof -
  obtain ims w n where l: "chain_loop e prompt t 0 (zip ps (sc_impls sc)) = Some (ds, ims, w, n)"
    "sc_impls sc' = ims" "sc_curr sc' = w" "sc_asked sc' seq = Some n"
    using assms(2) by (auto simp: spec_draft_def split: option.splits)
  have "loop_spec e prompt t 0 (zip ps (sc_impls sc)) ds ims w n" by (rule chain_loop_spec[OF l(1)])
  then show ?thesis using assms(1) l(2-4) by (cases w) (auto simp: loop_spec_def cong: if_cong)
qed

definition ex_env :: "unit stage_env" where
  "ex_env = \<lparr>se_order = (\<lambda>cs. cs), se_lag = 0, se_streak = 3, se_copy_wins = (\<lambda>_ _. 0),
     se_other = \<lparr>oo_draft = (\<lambda>p prompt t s. Some ([9], s)), oo_accept = (\<lambda>v n s. s), oo_begin = (\<lambda>p s. s), oo_reset = (\<lambda>s. s)\<rparr>\<rparr>"

definition ex_impl :: "spec_type \<Rightarrow> unit stage_state \<Rightarrow> unit impl" where
  "ex_impl ty s = \<lparr>im_type = ty, im_state = s, im_call_begin = 0, im_call_draft = 0, im_call_accept = 0, im_gen_drafts = 0,
     im_acc_drafts = 0, im_gen_tokens = 0, im_acc_tokens = 0, im_draft_empty = 0, im_draft_below_floor = 0,
     im_draft_ctx_zero = 0, im_observe = 0\<rparr>"

text \<open>A table that knows nothing yet in front of a head: the head's draft is taken.\<close>

definition ex_chain :: "unit spec" where
  "ex_chain = \<lparr>sc_impls = [ex_impl SpecNgramMod (StNgram (new_ngram_stage (new_ngram_mod 1 13))), ex_impl SpecMtp (StOther ())],
     sc_curr = None, sc_asked = (\<lambda>_. None), sc_verified = (\<lambda>_. None)\<rparr>"

theorem chain_first_usable_witness:
  "\<exists>sc'. spec_draft ex_env [ex_params 0, ex_params 0] [4, 5] 6 0 ex_chain = Some ([9], sc') \<and> sc_curr sc' = Some 1
    \<and> booked (sc_impls ex_chain ! 0) (sc_impls sc' ! 0) \<and> im_gen_tokens (sc_impls sc' ! 1) = 1"
proof -
  let ?r = "spec_draft ex_env [ex_params 0, ex_params 0] [4, 5] 6 0 ex_chain"
  have "map_option (\<lambda>(ds, sc). (ds, sc_curr sc)) ?r = Some ([9], Some 1)" by code_simp
  then obtain sc' where r: "?r = Some ([9], sc')" "sc_curr sc' = Some 1" by auto
  have "im_gen_tokens (sc_impls ex_chain ! 1) = 0" by (simp add: ex_chain_def ex_impl_def)
  have len: "length [ex_params 0, ex_params 0] = length (sc_impls ex_chain)" by (simp add: ex_chain_def)
  note c = chain_first_usable[OF len r(1)]
  have a: "sc_asked sc' 0 = Some 2" using c r(2) by simp
  have "booked (sc_impls ex_chain ! 0) (sc_impls sc' ! 0)"
    using c[THEN conjunct2, THEN conjunct2, THEN conjunct1, rule_format, of 0] a by simp
  moreover have "im_gen_tokens (sc_impls sc' ! 1) = im_gen_tokens (sc_impls ex_chain ! 1) + 1" using c r(2) by simp
  ultimately show ?thesis using r \<open>im_gen_tokens (sc_impls ex_chain ! 1) = 0\<close> by simp
qed

subsection \<open>The options\<close>

text \<open>C39: A chain passes the check exactly when it has at most two stages, of different types, a draft stage only with a
  draft model, and of two stages the first looks up its own text and the second is a head or a draft model;
  the two errors about a \<open>none\<close> stage and about a minimum above the maximum are never reported.\<close>

theorem validate_chain_exact:
  "(validate_chain cp = None \<longleftrightarrow>
     length (resolved_stages cp) \<le> 2 \<and> distinct (map tp_type (resolved_stages cp))
     \<and> \<not> (SpecDraft \<in> set (map tp_type (resolved_stages cp)) \<and> \<not> cp_has_dft cp)
     \<and> (case map tp_type (resolved_stages cp) of [a, b] \<Rightarrow> is_self_spec a \<and> b \<in> {SpecMtp, SpecDraft} | _ \<Rightarrow> True))
   \<and> validate_chain cp \<notin> {Some MinAboveMax, Some NoneCombined}"
proof -
  have none: "SpecNone \<notin> tp_type ` set (resolved_stages cp)" using resolved_not_none by force
  have never: "check_stages cp n seen sts \<noteq> Some NoneCombined" if "SpecNone \<notin> tp_type ` set sts" for n seen sts
    using that by (induction sts arbitrary: seen) (auto simp: Let_def)
  show ?thesis
  proof (cases "resolved_stages cp = [] \<or> length (resolved_stages cp) > 2")
    case True
    then show ?thesis by (auto simp: validate_chain_def Let_def split: list.splits)
  next
    case False
    then consider a where "resolved_stages cp = [a]" | a b where "resolved_stages cp = [a, b]"
      by (cases "resolved_stages cp" rule: remdups_adj.cases) auto
    then show ?thesis
    proof cases
      case (1 a)
      then show ?thesis
        using check_stages_exact[of cp 1 "[]" "[a]"] check_stages_never[of cp 1 "[]" "[a]"] never[of "[a]" 1 "[]"] none
        by (auto simp: validate_chain_def Let_def split: option.splits)
    next
      case (2 a b)
      note exact = check_stages_exact[of cp 2 "[]" "[a, b]"]
      have v: "validate_chain cp = (case check_stages cp 2 [] [a, b] of Some e \<Rightarrow> Some e
          | None \<Rightarrow> if \<not> is_self_spec (tp_type a) then Some ModelStageFirst
                    else if tp_type b \<noteq> SpecMtp \<and> tp_type b \<noteq> SpecDraft then Some BadSecondStage else None)"
        by (simp add: validate_chain_def 2 Let_def numeral_2_eq_2 split: option.split del: check_stages.simps)
      show ?thesis
      proof (cases "check_stages cp 2 [] [a, b]")
        case None
        then show ?thesis using exact none unfolding v 2 by auto
      next
        case (Some err)
        moreover have "err \<noteq> MinAboveMax" "err \<noteq> NoneCombined"
          using Some check_stages_never[of cp 2 "[]" "[a, b]"] never[of "[a, b]" 2 "[]"] none 2 by auto
        ultimately show ?thesis using exact none unfolding v 2 by auto
      qed
    qed
  qed
qed

text \<open>C40: Options come back as they were written: when every comma, backslash and quote of a value is escaped, reading a stage
  applies exactly the given keys and values, in their order.\<close>

theorem stage_options_roundtrip:
  assumes "kvs \<noteq> []" "\<forall>kv \<in> set kvs. plain_key (fst kv)" "CHR '':'' \<notin> set name" "type_from_name name = Some ty"
  shows "stage_from_arg stof (name @ CHR '':'' # render_kvs kvs) =
    (case apply_options stof kvs (default_stage ty) of Inl e \<Rightarrow> Inl e
     | Inr st \<Rightarrow> Inr (if name_is_alias name then alias_defaults st else st))"
proof -
  have t: "takeWhile (\<lambda>c. c \<noteq> CHR '':'') (name @ CHR '':'' # render_kvs kvs) = name"
    "dropWhile (\<lambda>c. c \<noteq> CHR '':'') (name @ CHR '':'' # render_kvs kvs) = CHR '':'' # render_kvs kvs"
  proof -
    have "\<forall>c \<in> set name. c \<noteq> CHR '':''" using assms(3) by auto
    then show "takeWhile (\<lambda>c. c \<noteq> CHR '':'') (name @ CHR '':'' # render_kvs kvs) = name"
      "dropWhile (\<lambda>c. c \<noteq> CHR '':'') (name @ CHR '':'' # render_kvs kvs) = CHR '':'' # render_kvs kvs"
      by (simp_all add: takeWhile_append2 dropWhile_append2)
  qed
  show ?thesis using assms(4) split_render[OF assms(1,2)] apply_render[OF assms(2), of stof "default_stage ty"]
    by (simp add: stage_from_arg_def t)
qed

theorem stage_options_roundtrip_witness:
  "stage_from_arg (\<lambda>_. None) (''suffix'' @ CHR '':'' # render_kvs [(''suffix_corpus'', ''/tmp/a,b c''), (''n-max'', ''8'')])
    = Inr ((default_stage SpecSuffix)\<lparr>tp_corpus := ''/tmp/a,b c'', tp_n_max := 8\<rparr>)"
proof -
  let ?kvs = "[(''suffix_corpus'', ''/tmp/a,b c''), (''n-max'', ''8'')]"
  have o: "apply_options (\<lambda>_. None) ?kvs (default_stage SpecSuffix)
      = Inr ((default_stage SpecSuffix)\<lparr>tp_corpus := ''/tmp/a,b c'', tp_n_max := 8\<rparr>)" by code_simp
  have t: "type_from_name ''suffix'' = Some SpecSuffix" by code_simp
  have a: "\<not> name_is_alias ''suffix''" by code_simp
  have p: "\<forall>kv \<in> set ?kvs. plain_key (fst kv)" by (simp add: plain_key_def special_def)
  show ?thesis using stage_options_roundtrip[OF _ p _ t, of "\<lambda>_. None"] o a by simp
qed

end
