(* ===== verification/Spec2Isabelle.thy ===== *)
theory Spec2Isabelle
  imports KvMain KvSwaMain KpoolPlanMain GramEngineMain GramParseMain RbudgetMain MtpMain SpecMain
begin

section \<open>The decoding engine's bookkeeping\<close>

text \<open>
  The repository is an inference server for language models, built on llama.cpp and ggml with its own
  caches, schedulers and drafters.  What is verified here is the host-side logic between the tensor
  kernels and the server's requests: the state that says which rows a sequence may read, which tokens it
  may emit and which tokens are proposed for it.

  \<^bold>\<open>The parts and how they meet.\<close>  A request owns a sequence.  Its tokens are cached in the unified KV cache
  (\<open>llama_kv_cache\<close>), layers with a sliding window keep theirs in a second bounded cache, and the pooled
  indexer derives from the cells of the cache which pools of consecutive tokens a query may score.  Before
  a token is chosen the sampler masks the candidates by the request's grammar and by the reasoning budget;
  both follow the tokens that are accepted.  The drafter proposes tokens ahead of the target, whose verify
  places them in the cache and removes the rejected ones with \<open>llama_kv_cache_seq_rm\<close>; what was accepted
  is committed to the drafter's own cache.  Beside the model's own head, tables of the text seen so far
  propose tokens: a chain of stages is asked in order, the first draft that counts is verified, and the
  verdict goes back to its stage.

  \<^bold>\<open>Theories and code.\<close>
  \<^item> \<open>Prelude\<close>: the loop over a vector with threaded scalars, words, folds over keyed maps and lists.
  \<^item> \<open>KvCell\<close>, \<open>KvIndex\<close>, \<open>KvCache\<close>: the records and operations of \<open>llama_kv_cell\<close> and \<open>llama_kv_cache\<close>
    (src/llama-context.h, src/llama.cpp) and of \<open>llama_kv_seq_index\<close> (src/llama-kv-index.h), one definition
    per operation, with the checking modes of the environment levers.  A cell's owners are a set; the
    index is a map from sequences to their (position, cell) pairs; 32-bit counters are words.
  \<^item> \<open>KvInvariant\<close>, \<open>KvSlot\<close>, \<open>KvPlace\<close>, \<open>KvRemove\<close>, \<open>KvOps\<close>, \<open>KvQuery\<close>, \<open>KvReach\<close>, \<open>KvMain\<close>: the view of a
    sequence as its set of cells and positions, the cache invariant, every operation against the view,
    and the caches the program can reach.  The locales \<open>slot_allocator\<close> and \<open>kv_remover\<close> are what the
    engine relies on in \<open>llama_kv_cache_find_slot\<close> and \<open>llama_kv_cache_seq_rm\<close>; both are interpreted on
    the model of the code, the first one also on the ring allocator.
  \<^item> \<open>KvSwa\<close>, \<open>KvSwaMain\<close>: the sliding-window cache (\<open>llama_kv_swa_*\<close> in src/llama.cpp): eviction, the
    ring-ordered allocator, the undoing of a placement, the coverage check.
  \<^item> \<open>KpoolGrid\<close>, \<open>KpoolMain\<close>: the grid of pools (src/llama-kpool-grid.cpp), built from scratch and appended
    to.  \<open>KpoolFill\<close>, \<open>KpoolPlan\<close>, \<open>KpoolPlanMain\<close>: the inputs of the indexer's graph and the plan carried
    from one ubatch to the next (src/llama-kv-cache-kpool.cpp, src/llama-kv-cache-kpool.h).
  \<^item> \<open>GramRules\<close>, \<open>GramUtf8\<close>, \<open>GramPartial\<close>, \<open>GramEngine\<close>: the grammar engine of src/llama-grammar.cpp: rules
    as vectors of elements, stacks of element positions, matching of characters and of unfinished ones,
    the masking of candidates, the lazy trigger.  \<open>GramParse\<close>, \<open>GramPrint\<close>: the parser from text to rules
    with the rewriting of repetitions, the constructor, the printer.  \<open>GramSem\<close> gives rules and stacks
    their languages; \<open>GramLeft\<close>, \<open>GramAccept\<close>, \<open>GramReject\<close>, \<open>GramParseInv\<close>, \<open>GramParseOk\<close>, \<open>GramParseWf\<close>,
    \<open>GramParseTotal\<close> and \<open>GramRepeat\<close> relate the code to them; \<open>GramMain\<close>, \<open>GramEngineMain\<close>, \<open>GramParseMain\<close> state the results.
  \<^item> \<open>Rbudget\<close>, \<open>RbudgetRun\<close>, \<open>RbudgetMain\<close>: the sampler that bounds a reasoning block
    (common/reasoning-budget.cpp).  The locale \<open>watcher\<close> is the contract of a tag matcher.
  \<^item> \<open>MtpChain\<close>, \<open>MtpDraft\<close>: drafting with the model's own prediction head: the positions
    (common/pxa-mtp-kvpos.h), the chain of one sequence (common/pxa-mtp-batch-slots.h), the gates
    (common/pxa-mtp-first-gate.h, common/pxa-mtp-streak.h), and of common/speculative.cpp the serial drafter
    \<open>mtp_speculative_gen_draft\<close>, the batched one \<open>common_speculative_draft_batched\<close>, both commits, the prompt
    warm-up and the verdict.  \<open>MtpLane\<close>, \<open>MtpSched\<close>, \<open>MtpEquiv\<close>, \<open>MtpBatch\<close>: one decode for all sequences
    advances each as if it were alone.  \<open>MtpKv\<close>, \<open>MtpHist\<close>: the rows of the drafter's cache as the history
    of its sequence; the locale \<open>history_step\<close> is the contract all its operations are instances of.
    \<open>MtpCommit\<close>: both commits as the same folds.  \<open>MtpCarry\<close>: the bytes that save a sequence's drafter
    state.  \<open>MtpMain\<close> states the results.
  \<^item> \<open>SuffixTree\<close>, \<open>SuffixDraft\<close>: the counted tree of the windows of the history (common/suffix-tree.cpp), its
    counts as occurrences, and its drafts in terms of the history.  \<open>SuffixStage\<close>: the loading of a corpus
    and the stage \<open>common_speculative_state_suffix\<close>.  \<open>NgramStage\<close>: the hash table of common/ngram-mod.cpp
    and the stage \<open>common_speculative_state_ngram_mod\<close>.  \<open>SpecConfig\<close>: the stage options of
    common/common.cpp, read, overridden, ordered and checked.  \<open>SpecChain\<close>: \<open>common_speculative_draft\<close> and
    \<open>common_speculative_accept\<close> over a chain of stages.  \<open>SpecMain\<close> states the results.

  \<^bold>\<open>What the lemmas show.\<close>  Each group of lemmas is of one of these kinds: an invariant with a preservation
  lemma per operation; the effect of an operation on the abstract view, on every branch; equality of a
  fast path (index walk, append, carried plan, batched decode) with the slow one; agreement of the code
  with a reference (the language of a grammar, the cells a query may read, the history of a sequence);
  termination; round trips; what a refusal means; and, where the code does not do what it means to,
  the concrete run that shows it.

  \<^bold>\<open>Bounds and fuel.\<close>  The allocators, the layout loops, the batched draft loop, the search over
  match lengths and the reading of a corpus in chunks are total functions with their measures.  \<open>advance_stack\<close> and the left-recursion check may not return, so their models say so with
  \<open>None\<close>, and that they return is a theorem.  The parser's recursion has fuel twice the length of the text
  plus a constant, enough because a nested call starts on a shorter text, which is proved.  A repetition whose upper bound is
  below its lower one makes the code add rules until memory is exhausted; the model's outcome for it is
  \<open>GMemory\<close>, beside the table and the thrown error.  Vectors are
  shorter than \<open>2 ^ 63\<close>; where 32-bit counters may wrap they are words or written modulo \<open>2 ^ 32\<close>.

  \<^bold>\<open>Conditions of the results.\<close>  Each result states what it asks of the program in its text.  The wider ones
  are these.  A copy between sequences of a hybrid cache may write its recurrent state over a cell another
  sequence still owns; the reachable caches stop short of such a copy, all other copies are in them, and that it
  breaks the invariant is proved.  The grammar engine's results need rules without left recursion, hidden
  behind parts that match the empty text or not (\<open>left_free\<close>); the code's own check sees the part of it
  that does not hide.  The drafter's results need every companion decode to succeed and, apart from the gates and
  the carry, positions that advance; a drafter with constant positions reads the target's rows.  The history of the
  drafter's cache includes rounds without a draft: the positions they leave without a row are part of the
  statement.  The n-gram table follows the context while it only grows; what a context shift does to it and to the
  suffix tree is shown beside the results.

  \<^bold>\<open>Parameters.\<close>  The companion network of the drafter is a function from the rows a sequence holds and the
  row fed in to an output; the tokenizer of a grammar and the vocabulary's pieces are functions; the
  results say what they ask of them (totality, pieces that are whole code points).  Logits are elements of
  a linear order with an absent value for minus infinity.  A \<open>float\<close> probability is its rational value;
  NaN is not modelled, and a product of probabilities is a parameter, so no result depends on rounding;
  the suffix tree's shares are exact quotients of counts, where the code divides in \<open>float\<close> (a share of one in
  ten, which is \<open>0.1f\<close> there, is just below the model's value of \<open>0.1f\<close>), and its counts do not overflow.  The order of a
  hash map, the text of a file, \<open>stof\<close>, the environment levers, the function that compares a copied draft
  with the head and the stages of other kinds are parameters of the table drafters.  A step that another stage won is told to the n-gram stage only: what the head's stage
  counts then belongs to its lazy companion.

  \<^bold>\<open>Not modelled.\<close>  The tensor library and its back ends (ggml: kernels, quantisation, CUDA, Vulkan, Metal and
  the rest) and the graphs built over it are floating-point code whose meaning is numerical; the loading
  of models, the vocabulary and the tokenizers are file formats and tables; the server's HTTP and slot
  loop, the examples and the command line are input and output around the parts above; the samplers are
  arithmetic on floats, apart from the two modelled; the other speculation stages (draft model, n-gram
  maps and caches), the selector and the tuner learn from statistics; bindings, Python tools, the web
  interface, vendored libraries, tests and generated files carry no logic of their own.  Of the drafter the
  sampled proposals, the draft guard, the cuts by the expert cache, the update folded into the verify, the
  lazy companion and the worker thread are left out; of the caches the tensors behind the cells.
\<close>

end
